(* ===== verification/Prelude.thy ===== *)
theory Prelude
  imports Main "HOL-Library.Word"
begin

unbundle bit_operations_syntax

text \<open>
  The prelude of the development: the machine types of the C sources, the result codes, the
  little-endian view of a \<open>uint32_t\<close> stored in raw bytes, the scan for the most significant bit,
  and the lemmas on words, byte lists and linked lists of record ids that the component
  theories share.  Facts that the component proofs use as rewrite rules are collected in
  \<open>grn_simps\<close>; facts about unsigned arithmetic that does not wrap in \<open>no_wrap\<close>.
\<close>

named_theorems grn_simps
named_theorems no_wrap

section \<open>Machine types\<close>

type_synonym byte = "8 word"
type_synonym u16 = "16 word"
type_synonym u32 = "32 word"
type_synonym u64 = "64 word"
type_synonym grn_id = "32 word"

abbreviation GRN_ID_NIL :: grn_id where
  "GRN_ID_NIL \<equiv> 0"

abbreviation GRN_ID_MAX :: grn_id where
  "GRN_ID_MAX \<equiv> 0x3fffffff"

text \<open>The result codes of \<^verbatim>\<open>include/groonga/groonga.h\<close> that the modelled operations return.\<close>

datatype grn_rc =
    GRN_SUCCESS
  | GRN_END_OF_DATA
  | GRN_UNKNOWN_ERROR
  | GRN_NOT_ENOUGH_SPACE
  | GRN_INVALID_ARGUMENT
  | GRN_NO_MEMORY_AVAILABLE
  | GRN_FUNCTION_NOT_IMPLEMENTED
  | GRN_FILE_CORRUPT
  | GRN_TOO_LARGE_OFFSET
  | GRN_INPUT_OUTPUT_ERROR

section \<open>Unsigned arithmetic\<close>

lemma unat_Suc_no_wrap [no_wrap]:
  fixes x :: "'a::len word"
  assumes "unat x < 2 ^ LENGTH('a) - 1"
  shows "unat (x + 1) = Suc (unat x)"
  using assms by (metis Suc_eq_plus1 less_diff_conv unat_1 unat_add_lem)

lemma unat_pred_no_wrap [no_wrap]:
  fixes x :: "'a::len word"
  assumes "x \<noteq> 0"
  shows "unat (x - 1) = unat x - 1"
  using assms by (metis One_nat_def unat_minus_one)

lemma unat_of_int_no_wrap [no_wrap]:
  assumes "0 \<le> k" and "k < 2 ^ LENGTH('a)"
  shows "unat (word_of_int k :: 'a::len word) = nat k"
proof -
  have "nat k < 2 ^ LENGTH('a)" using assms by (simp add: nat_less_iff)
  moreover have "(word_of_int k :: 'a word) = word_of_nat (nat k)" using assms(1) by simp
  ultimately show ?thesis by (simp only: unat_of_nat mod_less)
qed

lemma unat_lt_2p32 [simp]: "unat (x :: 32 word) < 4294967296"
  using unsigned_less [of x] by simp

lemma unat_0_iff_word [simp]: "0 < unat (x :: 'a::len word) \<longleftrightarrow> x \<noteq> 0"
  by (simp add: unat_gt_0)

lemma unat_take_bit: "unat (take_bit k w) = unat w mod 2 ^ k"
  unfolding unsigned_take_bit_eq by (rule take_bit_eq_mod)

lemma unat_drop_bit: "unat (drop_bit k (w :: 'a::len word)) = unat w div 2 ^ k"
proof -
  have "take_bit LENGTH('a) (unat w) = unat w" by (simp add: take_bit_nat_eq_self)
  then show ?thesis unfolding unsigned_drop_bit_eq by (simp only: drop_bit_eq_div)
qed

lemma unat_ucast_byte [simp]: "unat (ucast (w :: byte) :: u32) = unat w"
proof -
  have "unat w < 2 ^ 8" using unsigned_less [of w] by simp
  then show ?thesis by (simp add: unsigned_ucast_eq take_bit_nat_eq_self)
qed

lemma unat_inj: "unat (x :: 'a::len word) = unat y \<longleftrightarrow> x = y"
  by (simp add: word_unat_eq_iff)

section \<open>Lists updated by index\<close>

lemma nth_update_iff [grn_simps]: "j < length xs \<Longrightarrow> xs[i := x] ! j = (if i = j then x else xs ! j)"
  by (cases "i < length xs") (auto simp: nth_list_update list_update_beyond)

lemma set_update_bound:
  "e \<in> set (xs[k := v]) \<Longrightarrow> e = v \<or> e \<in> set xs"
  using set_update_subset_insert [of xs k v] by auto

section \<open>Little-endian words in raw bytes\<close>

text \<open>
  \<open>get_u32\<close> is the read \<^verbatim>\<open>*((grn_id *)entry)\<close> and \<open>put_u32\<close> the write
  \<^verbatim>\<open>*((grn_id *)entry) = v\<close> on a little-endian machine.
\<close>

definition get_u32 :: "byte list \<Rightarrow> u32" where
  "get_u32 bs = ucast (bs ! 0) OR push_bit 8 (ucast (bs ! 1))
                  OR push_bit 16 (ucast (bs ! 2)) OR push_bit 24 (ucast (bs ! 3))"

definition u32_bytes :: "u32 \<Rightarrow> byte list" where
  "u32_bytes v =
     [ucast v, ucast (drop_bit 8 v), ucast (drop_bit 16 v), ucast (drop_bit 24 v)]"

definition put_u32 :: "u32 \<Rightarrow> byte list \<Rightarrow> byte list" where
  "put_u32 v bs = u32_bytes v @ drop 4 bs"

lemma length_u32_bytes [simp]: "length (u32_bytes v) = 4"
  by (simp add: u32_bytes_def)

lemma length_put_u32 [simp]: "4 \<le> length bs \<Longrightarrow> length (put_u32 v bs) = length bs"
  by (simp add: put_u32_def)

lemma u32_word_split:
  "ucast (ucast v :: byte) OR push_bit 8 (ucast (ucast (drop_bit 8 v) :: byte))
    OR push_bit 16 (ucast (ucast (drop_bit 16 v) :: byte))
    OR push_bit 24 (ucast (ucast (drop_bit 24 v) :: byte)) = (v :: u32)" (is "?w = v")
proof (rule bit_word_eqI)
  fix n assume n: "n < LENGTH(32)"
  consider "n < 8" | "8 \<le> n" "n < 16" | "16 \<le> n" "n < 24" | "24 \<le> n" by linarith
  then show "bit ?w n = bit v n"
    using n by cases (auto simp: bit_simps)
qed

lemma get_u32_bytes: "get_u32 (u32_bytes v @ xs) = v"
  by (simp add: get_u32_def u32_bytes_def u32_word_split numeral_2_eq_2 numeral_3_eq_3)

lemma get_put_u32 [grn_simps]: "get_u32 (put_u32 v bs) = v"
  by (simp add: put_u32_def get_u32_bytes)

lemma get_u32_zero [grn_simps]: "4 \<le> n \<Longrightarrow> get_u32 (replicate n 0) = 0"
  by (simp add: get_u32_def)

text \<open>The same for \<open>uint64_t\<close>.\<close>

definition get_u64 :: "byte list \<Rightarrow> u64" where
  "get_u64 bs = ucast (get_u32 bs) OR push_bit 32 (ucast (get_u32 (drop 4 bs)))"

definition u64_bytes :: "u64 \<Rightarrow> byte list" where
  "u64_bytes v = u32_bytes (ucast v) @ u32_bytes (ucast (drop_bit 32 v))"

lemma length_u64_bytes [simp]: "length (u64_bytes v) = 8"
  by (simp add: u64_bytes_def)

lemma u64_word_split:
  "ucast (ucast v :: u32) OR push_bit 32 (ucast (ucast (drop_bit 32 v) :: u32)) = (v :: u64)" (is "?w = v")
proof (rule bit_word_eqI)
  fix n assume n: "n < LENGTH(64)"
  consider "n < 32" | "32 \<le> n" by linarith
  then show "bit ?w n = bit v n"
    using n by cases (auto simp: bit_simps)
qed

lemma get_u64_bytes: "get_u64 (u64_bytes v @ xs) = v"
  by (simp add: get_u64_def u64_bytes_def get_u32_bytes u64_word_split)

section \<open>The most significant one bit\<close>

text \<open>\<^verbatim>\<open>GRN_BIT_SCAN_REV\<close> in its portable form: \<^verbatim>\<open>for (r = 31; r && !((1 << r) & v); r--)\<close>.\<close>

fun bit_scan_rev_from :: "nat \<Rightarrow> u32 \<Rightarrow> nat" where
  "bit_scan_rev_from 0 v = 0"
| "bit_scan_rev_from (Suc r) v =
     (if push_bit (Suc r) 1 AND v \<noteq> 0 then Suc r else bit_scan_rev_from r v)"

definition GRN_BIT_SCAN_REV :: "u32 \<Rightarrow> nat" where
  "GRN_BIT_SCAN_REV v = bit_scan_rev_from 31 v"

lemma push_bit_1_and_nonzero:
  "push_bit k 1 AND (v :: 'a::len word) \<noteq> 0 \<longleftrightarrow> bit v k"
  by (simp add: and.commute bit_iff_and_push_bit_not_eq_0)

lemma bit_scan_rev_from_Suc:
  "bit_scan_rev_from (Suc r) v = (if bit v (Suc r) then Suc r else bit_scan_rev_from r v)"
  by (simp only: bit_scan_rev_from.simps push_bit_1_and_nonzero)

declare bit_scan_rev_from.simps(2) [simp del]

lemma bit_scan_rev_from_range:
  assumes "v \<noteq> 0" and "unat v < 2 ^ Suc r"
  shows "2 ^ bit_scan_rev_from r v \<le> unat v \<and> unat v < 2 ^ Suc (bit_scan_rev_from r v)"
  using assms
proof (induction r)
  case 0
  then show ?case by (simp add: Suc_le_eq)
next
  case (Suc r)
  show ?case
  proof (cases "bit v (Suc r)")
    case True
    then have "odd (unat v div 2 ^ Suc r)"
      by (simp add: bit_unsigned_iff del: power_Suc flip: bit_iff_odd)
    then have "unat v div 2 ^ Suc r \<noteq> 0"
      by (metis dvd_0_right)
    then have "2 ^ Suc r \<le> unat v"
      by (metis div_less not_le_imp_less)
    with True Suc.prems show ?thesis
      by (simp add: bit_scan_rev_from_Suc del: power_Suc)
  next
    case False
    have "unat v < 2 ^ Suc r"
    proof (rule ccontr)
      assume "\<not> unat v < 2 ^ Suc r"
      then have "unat v div 2 ^ Suc r = 1"
        using Suc.prems(2) by (intro div_nat_eqI) auto
      then have "bit (unat v) (Suc r)"
        by (simp add: bit_iff_odd)
      with False show False
        by (simp add: bit_unsigned_iff)
    qed
    with False Suc show ?thesis
      by (simp add: bit_scan_rev_from_Suc del: power_Suc)
  qed
qed

lemma bit_scan_rev_from_le: "bit_scan_rev_from r v \<le> r"
  by (induction r) (auto simp: bit_scan_rev_from_Suc le_SucI)

lemma GRN_BIT_SCAN_REV_range:
  assumes "v \<noteq> 0"
  shows "2 ^ GRN_BIT_SCAN_REV v \<le> unat v" and "unat v < 2 ^ Suc (GRN_BIT_SCAN_REV v)"
    and "GRN_BIT_SCAN_REV v < 32"
  using bit_scan_rev_from_range [OF assms, of 31] bit_scan_rev_from_le [of 31 v]
  by (simp_all add: GRN_BIT_SCAN_REV_def)

section \<open>Linked lists of record ids\<close>

text \<open>
  Deleted records form a singly linked list: each free record stores the id of the next one.
  \<open>chain nxt h xs\<close> says that following \<open>nxt\<close> from the head \<open>h\<close> visits exactly \<open>xs\<close> and ends at
  \<^verbatim>\<open>GRN_ID_NIL\<close>.
\<close>

fun chain :: "(grn_id \<Rightarrow> grn_id) \<Rightarrow> grn_id \<Rightarrow> grn_id list \<Rightarrow> bool" where
  "chain nxt h [] = (h = GRN_ID_NIL)"
| "chain nxt h (x # xs) = (h = x \<and> x \<noteq> GRN_ID_NIL \<and> chain nxt (nxt x) xs)"

lemma chain_cong:
  "(\<And>x. x \<in> set xs \<Longrightarrow> f x = g x) \<Longrightarrow> chain f h xs = chain g h xs"
  by (induction xs arbitrary: h) auto

lemma chain_nil_notin: "chain nxt h xs \<Longrightarrow> GRN_ID_NIL \<notin> set xs"
  by (induction xs arbitrary: h) auto

lemma chain_determined: "chain nxt h xs \<Longrightarrow> chain nxt h ys \<Longrightarrow> xs = ys"
proof (induction xs arbitrary: h ys)
  case Nil
  then show ?case by (cases ys) auto
next
  case (Cons x xs)
  then show ?case by (cases ys) auto
qed

lemma chain_head_nonnil:
  "chain nxt h xs \<Longrightarrow> h \<noteq> GRN_ID_NIL \<Longrightarrow> \<exists>ys. xs = h # ys \<and> chain nxt (nxt h) ys"
  by (cases xs) auto

lemma chain_head_nil: "chain nxt GRN_ID_NIL xs \<longleftrightarrow> xs = []"
  by (cases xs) auto

end
