(* ===== verification/TinyArray.thy ===== *)
theory TinyArray
  imports Prelude
begin

text \<open>
  The in-memory growable array \<^verbatim>\<open>grn_tiny_array\<close> and the bitmap \<^verbatim>\<open>grn_tiny_bitmap\<close> of
  \<^verbatim>\<open>lib/hash.c\<close>.  Both keep 32 blocks, block \<open>k\<close> holding \<open>2 ^ k\<close> elements, and find the block of an
  id by its most significant one bit.  An address is the pair of a block number and an
  element index; a null pointer is \<open>None\<close>.  Whether the allocator delivers a block is the
  environment's choice (\<open>alloc_ok\<close>), and so is what uncleared memory holds (\<open>alloc_junk\<close>).

  The interfaces the tables rely on are two locales: \<open>cell_store\<close>, memory cells addressed by
  record id, and \<open>bit_store\<close>, one validity bit per record id.
\<close>

section \<open>The interfaces\<close>

locale cell_store =
  fixes wf :: "'s \<Rightarrow> bool"
    and cells :: "'s \<Rightarrow> grn_id set"
    and rd :: "'s \<Rightarrow> grn_id \<Rightarrow> byte list"
    and wr :: "grn_id \<Rightarrow> byte list \<Rightarrow> 's \<Rightarrow> 's"
    and width :: "'s \<Rightarrow> nat"
  assumes rd_wr: "\<lbrakk>wf s; i \<in> cells s; length v = width s\<rbrakk>
      \<Longrightarrow> rd (wr i v s) j = (if j = i then v else rd s j)"
    and cells_wr: "\<lbrakk>wf s; i \<in> cells s; length v = width s\<rbrakk> \<Longrightarrow> cells (wr i v s) = cells s"
    and wf_wr: "\<lbrakk>wf s; i \<in> cells s; length v = width s\<rbrakk> \<Longrightarrow> wf (wr i v s)"
    and width_rd: "wf s \<Longrightarrow> length (rd s i) = width s"

locale bit_store =
  fixes bwf :: "'s \<Rightarrow> bool"
    and has_bit :: "'s \<Rightarrow> grn_id \<Rightarrow> bool"
    and bit_of :: "'s \<Rightarrow> grn_id \<Rightarrow> bool"
    and set_to :: "grn_id \<Rightarrow> bool \<Rightarrow> 's \<Rightarrow> 's"
  assumes bit_set_to: "\<lbrakk>bwf s; has_bit s i\<rbrakk> \<Longrightarrow> bit_of (set_to i b s) j = (if j = i then b else bit_of s j)"
    and bwf_set_to: "\<lbrakk>bwf s; has_bit s i\<rbrakk> \<Longrightarrow> bwf (set_to i b s)"
    and has_bit_set_to: "\<lbrakk>bwf s; has_bit s i\<rbrakk> \<Longrightarrow> has_bit (set_to i b s) j = has_bit s j"

section \<open>The environment of an allocation\<close>

record alloc_env =
  alloc_ok :: "nat \<Rightarrow> bool"
  alloc_junk :: "nat \<Rightarrow> byte"

section \<open>Block addressing\<close>

definition grn_tiny_array_get_block_id :: "grn_id \<Rightarrow> nat" where
  "grn_tiny_array_get_block_id rid = GRN_BIT_SCAN_REV rid"

definition GRN_TINY_ARRAY_GET_OFFSET :: "nat \<Rightarrow> nat" where
  "GRN_TINY_ARRAY_GET_OFFSET block_id = 2 ^ block_id"

definition GRN_TINY_ARRAY_BASE_BLOCK_SIZE :: nat where
  "GRN_TINY_ARRAY_BASE_BLOCK_SIZE = GRN_TINY_ARRAY_GET_OFFSET 1 - GRN_TINY_ARRAY_GET_OFFSET 0"

definition GRN_TINY_ARRAY_GET_BLOCK_SIZE :: "nat \<Rightarrow> nat" where
  "GRN_TINY_ARRAY_GET_BLOCK_SIZE block_id =
     GRN_TINY_ARRAY_BASE_BLOCK_SIZE * GRN_TINY_ARRAY_GET_OFFSET block_id"

definition GRN_TINY_ARRAY_NUM_BLOCKS :: nat where
  "GRN_TINY_ARRAY_NUM_BLOCKS = 32"

lemmas tiny_layout = GRN_TINY_ARRAY_GET_OFFSET_def GRN_TINY_ARRAY_BASE_BLOCK_SIZE_def
  GRN_TINY_ARRAY_GET_BLOCK_SIZE_def GRN_TINY_ARRAY_NUM_BLOCKS_def grn_tiny_array_get_block_id_def

section \<open>The array\<close>

record tiny_array =
  ta_max :: grn_id
  ta_element_size :: nat
  ta_clear :: bool
  ta_use_malloc :: bool
  ta_blocks :: "byte list list option list"

type_synonym tiny_addr = "nat \<times> nat"

definition tiny_read :: "tiny_array \<Rightarrow> tiny_addr \<Rightarrow> byte list" where
  "tiny_read array p = (case ta_blocks array ! fst p of None \<Rightarrow> [] | Some block \<Rightarrow> block ! snd p)"

definition tiny_write :: "tiny_addr \<Rightarrow> byte list \<Rightarrow> tiny_array \<Rightarrow> tiny_array" where
  "tiny_write p v array =
     array\<lparr>ta_blocks := (ta_blocks array)
       [fst p := map_option (\<lambda>block. block[snd p := v]) (ta_blocks array ! fst p)]\<rparr>"

definition grn_tiny_array_get :: "tiny_array \<Rightarrow> grn_id \<Rightarrow> tiny_addr option" where
  "grn_tiny_array_get array rid =
     (let block_id = grn_tiny_array_get_block_id rid
      in case ta_blocks array ! block_id of
           Some block \<Rightarrow> Some (block_id, unat rid - GRN_TINY_ARRAY_GET_OFFSET block_id)
         | None \<Rightarrow> None)"

definition fresh_block :: "alloc_env \<Rightarrow> tiny_array \<Rightarrow> nat \<Rightarrow> byte list list" where
  "fresh_block env array block_id =
     replicate (GRN_TINY_ARRAY_GET_BLOCK_SIZE block_id)
       (if ta_use_malloc array \<and> \<not> ta_clear array
        then map (alloc_junk env) [0..<ta_element_size array]
        else replicate (ta_element_size array) 0)"

definition grn_tiny_array_put ::
    "alloc_env \<Rightarrow> tiny_array \<Rightarrow> grn_id \<Rightarrow> tiny_array \<times> tiny_addr option" where
  "grn_tiny_array_put env array rid =
     (let block_id = grn_tiny_array_get_block_id rid;
          offset = GRN_TINY_ARRAY_GET_OFFSET block_id;
          array = (if ta_blocks array ! block_id = None \<and> alloc_ok env block_id
                   then array\<lparr>ta_blocks := (ta_blocks array)[block_id := Some (fresh_block env array block_id)]\<rparr>
                   else array)
      in if ta_blocks array ! block_id = None then (array, None)
         else let array = (if ta_max array < rid then array\<lparr>ta_max := rid\<rparr> else array)
              in (array, Some (block_id, unat rid - offset)))"

definition grn_tiny_array_at ::
    "alloc_env \<Rightarrow> tiny_array \<Rightarrow> grn_id \<Rightarrow> tiny_array \<times> tiny_addr option" where
  "grn_tiny_array_at env array rid =
     (if rid \<noteq> GRN_ID_NIL then grn_tiny_array_put env array rid else (array, None))"

definition grn_tiny_array_init :: "nat \<Rightarrow> bool \<Rightarrow> bool \<Rightarrow> tiny_array" where
  "grn_tiny_array_init element_size clear use_malloc =
     \<lparr>ta_max = 0, ta_element_size = element_size, ta_clear = clear, ta_use_malloc = use_malloc,
      ta_blocks = replicate GRN_TINY_ARRAY_NUM_BLOCKS None\<rparr>"

definition grn_tiny_array_fin :: "tiny_array \<Rightarrow> tiny_array" where
  "grn_tiny_array_fin array =
     array\<lparr>ta_blocks := map (\<lambda>block_id. None) [0..<GRN_TINY_ARRAY_NUM_BLOCKS]\<rparr>"

text \<open>
  \<^verbatim>\<open>grn_tiny_array_id\<close> turns the address of an element back into its id: it walks the blocks
  and tests whether the byte address lies inside the block.  A pointer into a block is the block
  number and a byte offset; blocks are separate allocations, so a pointer lies in the range of
  one block only.
\<close>

fun tiny_array_id_loop :: "tiny_array \<Rightarrow> tiny_addr \<Rightarrow> nat list \<Rightarrow> nat \<Rightarrow> nat" where
  "tiny_array_id_loop array ptr [] offset = 0"
| "tiny_array_id_loop array ptr (block_id # rest) offset =
     (let block_size = GRN_TINY_ARRAY_GET_BLOCK_SIZE block_id
      in if ta_blocks array ! block_id \<noteq> None \<and> fst ptr = block_id
            \<and> snd ptr < block_size * ta_element_size array
         then offset + snd ptr div ta_element_size array
         else tiny_array_id_loop array ptr rest (offset + block_size))"

definition grn_tiny_array_id :: "tiny_array \<Rightarrow> tiny_addr \<Rightarrow> grn_id" where
  "grn_tiny_array_id array ptr =
     of_nat (tiny_array_id_loop array ptr [0..<GRN_TINY_ARRAY_NUM_BLOCKS] 1)"

section \<open>The bitmap\<close>

record tiny_bitmap =
  tb_blocks :: "byte list option list"

definition grn_tiny_bitmap_init :: tiny_bitmap where
  "grn_tiny_bitmap_init = \<lparr>tb_blocks = replicate GRN_TINY_ARRAY_NUM_BLOCKS None\<rparr>"

definition grn_tiny_bitmap_fin :: "tiny_bitmap \<Rightarrow> tiny_bitmap" where
  "grn_tiny_bitmap_fin bitmap =
     bitmap\<lparr>tb_blocks := map (\<lambda>block_id. None) [0..<GRN_TINY_ARRAY_NUM_BLOCKS]\<rparr>"

definition bitmap_byte_id :: "grn_id \<Rightarrow> u32" where
  "bitmap_byte_id bit_id = drop_bit 3 bit_id + 1"

definition grn_tiny_bitmap_get_byte :: "tiny_bitmap \<Rightarrow> grn_id \<Rightarrow> tiny_addr option" where
  "grn_tiny_bitmap_get_byte bitmap bit_id =
     (let byte_id = bitmap_byte_id bit_id;
          block_id = grn_tiny_array_get_block_id byte_id
      in case tb_blocks bitmap ! block_id of
           Some block \<Rightarrow> Some (block_id, unat byte_id - GRN_TINY_ARRAY_GET_OFFSET block_id)
         | None \<Rightarrow> None)"

definition grn_tiny_bitmap_put_byte ::
    "alloc_env \<Rightarrow> tiny_bitmap \<Rightarrow> grn_id \<Rightarrow> tiny_bitmap \<times> tiny_addr option" where
  "grn_tiny_bitmap_put_byte env bitmap bit_id =
     (let byte_id = bitmap_byte_id bit_id;
          block_id = grn_tiny_array_get_block_id byte_id;
          offset = GRN_TINY_ARRAY_GET_OFFSET block_id
      in if tb_blocks bitmap ! block_id = None \<and> \<not> alloc_ok env block_id then (bitmap, None)
         else ((if tb_blocks bitmap ! block_id = None
                then bitmap\<lparr>tb_blocks := (tb_blocks bitmap)
                       [block_id := Some (replicate (GRN_TINY_ARRAY_GET_BLOCK_SIZE block_id) 0)]\<rparr>
                else bitmap),
               Some (block_id, unat byte_id - offset)))"

definition bitmap_read :: "tiny_bitmap \<Rightarrow> tiny_addr \<Rightarrow> byte" where
  "bitmap_read bitmap p = (case tb_blocks bitmap ! fst p of None \<Rightarrow> 0 | Some block \<Rightarrow> block ! snd p)"

definition bitmap_write :: "tiny_addr \<Rightarrow> byte \<Rightarrow> tiny_bitmap \<Rightarrow> tiny_bitmap" where
  "bitmap_write p v bitmap =
     bitmap\<lparr>tb_blocks := (tb_blocks bitmap)
       [fst p := map_option (\<lambda>block. block[snd p := v]) (tb_blocks bitmap ! fst p)]\<rparr>"

definition byte_get_bit :: "byte \<Rightarrow> grn_id \<Rightarrow> int" where
  "byte_get_bit b bit_id = uint (drop_bit (unat (bit_id AND 7)) b AND 1)"

definition byte_set_bit :: "byte \<Rightarrow> grn_id \<Rightarrow> bool \<Rightarrow> byte" where
  "byte_set_bit b bit_id on =
     (if on then b OR push_bit (unat (bit_id AND 7)) 1
      else b AND NOT (push_bit (unat (bit_id AND 7)) 1))"

definition grn_tiny_bitmap_put ::
    "alloc_env \<Rightarrow> tiny_bitmap \<Rightarrow> grn_id \<Rightarrow> tiny_bitmap \<times> int" where
  "grn_tiny_bitmap_put env bitmap bit_id =
     (case grn_tiny_bitmap_put_byte env bitmap bit_id of
        (bitmap, None) \<Rightarrow> (bitmap, - 1)
      | (bitmap, Some ptr) \<Rightarrow> (bitmap, byte_get_bit (bitmap_read bitmap ptr) bit_id))"

definition grn_tiny_bitmap_get_and_set ::
    "tiny_bitmap \<Rightarrow> grn_id \<Rightarrow> bool \<Rightarrow> tiny_bitmap \<times> tiny_addr option" where
  "grn_tiny_bitmap_get_and_set bitmap bit_id on =
     (case grn_tiny_bitmap_get_byte bitmap bit_id of
        None \<Rightarrow> (bitmap, None)
      | Some ptr \<Rightarrow>
          (bitmap_write ptr (byte_set_bit (bitmap_read bitmap ptr) bit_id on) bitmap, Some ptr))"

definition grn_tiny_bitmap_put_and_set ::
    "alloc_env \<Rightarrow> tiny_bitmap \<Rightarrow> grn_id \<Rightarrow> bool \<Rightarrow> tiny_bitmap \<times> tiny_addr option" where
  "grn_tiny_bitmap_put_and_set env bitmap bit_id on =
     (case grn_tiny_bitmap_put_byte env bitmap bit_id of
        (bitmap, None) \<Rightarrow> (bitmap, None)
      | (bitmap, Some ptr) \<Rightarrow>
          (bitmap_write ptr (byte_set_bit (bitmap_read bitmap ptr) bit_id on) bitmap, Some ptr))"

section \<open>Addresses are in range and never shared\<close>

definition tiny_addr_of :: "grn_id \<Rightarrow> tiny_addr" where
  "tiny_addr_of rid =
     (grn_tiny_array_get_block_id rid, unat rid - GRN_TINY_ARRAY_GET_OFFSET (grn_tiny_array_get_block_id rid))"

lemma block_id_range:
  assumes "rid \<noteq> GRN_ID_NIL"
  shows "2 ^ grn_tiny_array_get_block_id rid \<le> unat rid"
    and "unat rid < 2 * 2 ^ grn_tiny_array_get_block_id rid"
    and "grn_tiny_array_get_block_id rid < 32"
  using GRN_BIT_SCAN_REV_range [OF assms] by (simp_all add: grn_tiny_array_get_block_id_def)

lemma tiny_addr_of_bound:
  assumes "rid \<noteq> GRN_ID_NIL"
  shows "fst (tiny_addr_of rid) < GRN_TINY_ARRAY_NUM_BLOCKS"
    and "snd (tiny_addr_of rid) < GRN_TINY_ARRAY_GET_BLOCK_SIZE (fst (tiny_addr_of rid))"
  using block_id_range [OF assms]
  by (simp_all add: tiny_addr_of_def GRN_TINY_ARRAY_NUM_BLOCKS_def
      GRN_TINY_ARRAY_GET_BLOCK_SIZE_def GRN_TINY_ARRAY_BASE_BLOCK_SIZE_def
      GRN_TINY_ARRAY_GET_OFFSET_def)

lemma tiny_addr_of_inj:
  assumes "i \<noteq> GRN_ID_NIL" and "j \<noteq> GRN_ID_NIL" and "tiny_addr_of i = tiny_addr_of j"
  shows "i = j"
proof -
  have "unat i = unat j"
    using assms(3) block_id_range(1) [OF assms(1)] block_id_range(1) [OF assms(2)]
    by (auto simp: tiny_addr_of_def GRN_TINY_ARRAY_GET_OFFSET_def)
  then show ?thesis by (simp add: unat_inj)
qed

section \<open>The array as a cell store\<close>

definition tiny_wf :: "tiny_array \<Rightarrow> bool" where
  "tiny_wf array \<longleftrightarrow> length (ta_blocks array) = GRN_TINY_ARRAY_NUM_BLOCKS \<and>
     (\<forall>b < GRN_TINY_ARRAY_NUM_BLOCKS. \<forall>block. ta_blocks array ! b = Some block \<longrightarrow>
        length block = GRN_TINY_ARRAY_GET_BLOCK_SIZE b \<and>
        (\<forall>e \<in> set block. length e = ta_element_size array))"

definition tiny_cells :: "tiny_array \<Rightarrow> grn_id set" where
  "tiny_cells array =
     {rid. rid \<noteq> GRN_ID_NIL \<and> ta_blocks array ! grn_tiny_array_get_block_id rid \<noteq> None}"

text \<open>A cell whose block is not there yet reads as zeros: that is what it will hold when it appears.\<close>

definition tiny_rd :: "tiny_array \<Rightarrow> grn_id \<Rightarrow> byte list" where
  "tiny_rd array rid =
     (if rid \<in> tiny_cells array then tiny_read array (tiny_addr_of rid)
      else replicate (ta_element_size array) 0)"

definition tiny_wr :: "grn_id \<Rightarrow> byte list \<Rightarrow> tiny_array \<Rightarrow> tiny_array" where
  "tiny_wr rid v array = tiny_write (tiny_addr_of rid) v array"

lemma tiny_block_of_cell:
  assumes "tiny_wf array" and "rid \<in> tiny_cells array"
  obtains block where "ta_blocks array ! fst (tiny_addr_of rid) = Some block"
    and "snd (tiny_addr_of rid) < length block"
    and "\<forall>e \<in> set block. length e = ta_element_size array"
    and "fst (tiny_addr_of rid) < length (ta_blocks array)"
proof -
  from assms(2) have nz: "rid \<noteq> GRN_ID_NIL"
    and "\<exists>block. ta_blocks array ! fst (tiny_addr_of rid) = Some block"
    by (auto simp: tiny_cells_def tiny_addr_of_def)
  then obtain block where "ta_blocks array ! fst (tiny_addr_of rid) = Some block" by blast
  then show thesis
    using that [of block] assms(1) tiny_addr_of_bound [OF nz] by (simp add: tiny_wf_def)
qed

lemma tiny_cells_wr: "tiny_cells (tiny_wr i v s) = tiny_cells s"
  by (cases "fst (tiny_addr_of i) < length (ta_blocks s)")
    (auto simp: tiny_cells_def tiny_wr_def tiny_write_def nth_list_update list_update_beyond)

lemma tiny_wr_fields [simp]:
  "ta_max (tiny_wr i v s) = ta_max s" "ta_element_size (tiny_wr i v s) = ta_element_size s"
  "ta_clear (tiny_wr i v s) = ta_clear s" "ta_use_malloc (tiny_wr i v s) = ta_use_malloc s"
  by (simp_all add: tiny_wr_def tiny_write_def)

lemma tiny_read_write:
  assumes "tiny_wf s" and "i \<in> tiny_cells s"
  shows "tiny_rd (tiny_wr i v s) j = (if j = i then v else tiny_rd s j)"
proof (cases "j \<in> tiny_cells s")
  case True
  obtain bi where bi: "ta_blocks s ! fst (tiny_addr_of i) = Some bi"
    "snd (tiny_addr_of i) < length bi" "fst (tiny_addr_of i) < length (ta_blocks s)"
    using tiny_block_of_cell [OF assms] .
  obtain bj where bj: "ta_blocks s ! fst (tiny_addr_of j) = Some bj"
    using tiny_block_of_cell [OF assms(1) True] .
  have "j \<noteq> i \<Longrightarrow> fst (tiny_addr_of j) \<noteq> fst (tiny_addr_of i) \<or> snd (tiny_addr_of j) \<noteq> snd (tiny_addr_of i)"
    using assms(2) True tiny_addr_of_inj [of i j] by (auto simp: tiny_cells_def prod_eq_iff)
  with bi bj True assms(2) show ?thesis
    by (auto simp: tiny_rd_def tiny_cells_wr)
      (auto simp: tiny_wr_def tiny_read_def tiny_write_def nth_list_update)
next
  case False
  with assms(2) show ?thesis
    by (auto simp: tiny_rd_def tiny_cells_wr)
qed

lemma tiny_wf_wr:
  assumes "tiny_wf s" and "length v = ta_element_size s"
  shows "tiny_wf (tiny_wr i v s)"
  using assms
  by (auto simp: tiny_wf_def tiny_wr_def tiny_write_def grn_simps dest!: set_update_bound split: if_splits)

lemma tiny_rd_width:
  assumes "tiny_wf s"
  shows "length (tiny_rd s i) = ta_element_size s"
proof (cases "i \<in> tiny_cells s")
  case True
  obtain bi where "ta_blocks s ! fst (tiny_addr_of i) = Some bi"
    "snd (tiny_addr_of i) < length bi" "\<forall>e \<in> set bi. length e = ta_element_size s"
    using tiny_block_of_cell [OF assms True] .
  with True show ?thesis
    by (simp add: tiny_rd_def tiny_read_def)
qed (simp add: tiny_rd_def)

interpretation ta: cell_store tiny_wf tiny_cells tiny_rd tiny_wr ta_element_size
  by unfold_locales (simp_all add: tiny_read_write tiny_cells_wr tiny_wf_wr tiny_rd_width)

lemma tiny_get_cell:
  "rid \<in> tiny_cells array \<Longrightarrow> grn_tiny_array_get array rid = Some (tiny_addr_of rid)"
  by (auto simp: grn_tiny_array_get_def tiny_cells_def tiny_addr_of_def Let_def)

lemma tiny_wf_init: "tiny_wf (grn_tiny_array_init es c m)"
  by (simp add: tiny_wf_def grn_tiny_array_init_def)

lemma tiny_cells_init: "tiny_cells (grn_tiny_array_init es c m) = {}"
  using block_id_range(3)
  by (force simp: tiny_cells_def grn_tiny_array_init_def GRN_TINY_ARRAY_NUM_BLOCKS_def)

section \<open>Growing the array\<close>

definition grow_block :: "alloc_env \<Rightarrow> tiny_array \<Rightarrow> grn_id \<Rightarrow> tiny_array" where
  "grow_block env array rid =
     (let b = grn_tiny_array_get_block_id rid
      in if ta_blocks array ! b = None \<and> alloc_ok env b
         then array\<lparr>ta_blocks := (ta_blocks array)[b := Some (fresh_block env array b)]\<rparr>
         else array)"

lemma grow_block_fields [simp]:
  "ta_max (grow_block env array rid) = ta_max array"
  "ta_element_size (grow_block env array rid) = ta_element_size array"
  "ta_clear (grow_block env array rid) = ta_clear array"
  "ta_use_malloc (grow_block env array rid) = ta_use_malloc array"
  "length (ta_blocks (grow_block env array rid)) = length (ta_blocks array)"
  by (simp_all add: grow_block_def Let_def)

lemma tiny_put_eq:
  "grn_tiny_array_put env array rid =
     (let a' = grow_block env array rid
      in if ta_blocks a' ! grn_tiny_array_get_block_id rid = None then (a', None)
         else (if ta_max array < rid then a'\<lparr>ta_max := rid\<rparr> else a', Some (tiny_addr_of rid)))"
  by (auto simp: grn_tiny_array_put_def grow_block_def tiny_addr_of_def Let_def)

lemma fresh_block_length: "length (fresh_block env array b) = GRN_TINY_ARRAY_GET_BLOCK_SIZE b"
  by (simp add: fresh_block_def)

lemma fresh_block_width: "e \<in> set (fresh_block env array b) \<Longrightarrow> length e = ta_element_size array"
  by (auto simp: fresh_block_def in_set_replicate split: if_splits)

lemma fresh_block_zero:
  assumes "ta_use_malloc array \<longrightarrow> ta_clear array" and "k < GRN_TINY_ARRAY_GET_BLOCK_SIZE b"
  shows "fresh_block env array b ! k = replicate (ta_element_size array) 0"
  using assms by (auto simp: fresh_block_def)

lemma tiny_wf_grow: "tiny_wf array \<Longrightarrow> tiny_wf (grow_block env array rid)"
  by (auto simp: tiny_wf_def grow_block_def Let_def grn_simps fresh_block_length
      dest: fresh_block_width split: if_splits)

lemma block_index_lt:
  assumes "tiny_wf array" and "rid \<noteq> GRN_ID_NIL"
  shows "grn_tiny_array_get_block_id rid < length (ta_blocks array)"
  using block_id_range(3) [OF assms(2)] assms(1) by (simp add: tiny_wf_def GRN_TINY_ARRAY_NUM_BLOCKS_def)

lemma tiny_cells_grow: "tiny_wf array \<Longrightarrow> tiny_cells array \<subseteq> tiny_cells (grow_block env array rid)"
  using block_index_lt
  by (force simp: tiny_cells_def grow_block_def Let_def grn_simps)

lemma tiny_rd_grow:
  assumes "tiny_wf array" and "ta_use_malloc array \<longrightarrow> ta_clear array"
  shows "tiny_rd (grow_block env array rid) j = tiny_rd array j"
proof (cases "j = GRN_ID_NIL")
  case True
  then show ?thesis by (simp add: tiny_rd_def tiny_cells_def)
next
  case False
  with block_index_lt [OF assms(1) False] tiny_addr_of_bound(2) [OF False] assms(2) show ?thesis
    by (auto simp: tiny_cells_def tiny_rd_def tiny_read_def grow_block_def Let_def grn_simps
        tiny_addr_of_def fresh_block_zero)
qed

lemma tiny_max_irrelevant:
  "tiny_cells (a\<lparr>ta_max := m\<rparr>) = tiny_cells a" "tiny_rd (a\<lparr>ta_max := m\<rparr>) j = tiny_rd a j"
  "tiny_wf (a\<lparr>ta_max := m\<rparr>) = tiny_wf a"
  by (simp_all add: tiny_cells_def tiny_rd_def tiny_read_def tiny_wf_def)

lemma tiny_put_SomeD:
  assumes "grn_tiny_array_put env array rid = (a', Some p)" and "tiny_wf array" and "rid \<noteq> GRN_ID_NIL"
  shows "p = tiny_addr_of rid" and "tiny_wf a'" and "rid \<in> tiny_cells a'"
    and "tiny_cells array \<subseteq> tiny_cells a'"
    and "\<And>j. ta_use_malloc array \<longrightarrow> ta_clear array \<Longrightarrow> tiny_rd a' j = tiny_rd array j"
    and "ta_max a' = max (ta_max array) rid"
    and "ta_element_size a' = ta_element_size array"
    and "ta_clear a' = ta_clear array" and "ta_use_malloc a' = ta_use_malloc array"
proof -
  define g where "g = grow_block env array rid"
  from assms(1) have a': "a' = (if ta_max array < rid then g\<lparr>ta_max := rid\<rparr> else g)"
    and p: "p = tiny_addr_of rid" and some: "ta_blocks g ! grn_tiny_array_get_block_id rid \<noteq> None"
    by (auto simp: tiny_put_eq Let_def g_def split: if_splits)
  show "p = tiny_addr_of rid" by (rule p)
  show "tiny_wf a'" using tiny_wf_grow [OF assms(2), of env rid] by (simp add: a' tiny_max_irrelevant flip: g_def)
  show "rid \<in> tiny_cells a'" using assms(3) some by (simp add: a' tiny_cells_def)
  show "tiny_cells array \<subseteq> tiny_cells a'"
    using tiny_cells_grow [OF assms(2), of env rid] by (simp add: a' tiny_max_irrelevant flip: g_def)
  show "\<And>j. ta_use_malloc array \<longrightarrow> ta_clear array \<Longrightarrow> tiny_rd a' j = tiny_rd array j"
    using tiny_rd_grow [OF assms(2), of env rid] by (simp add: a' tiny_max_irrelevant flip: g_def)
  show "ta_max a' = max (ta_max array) rid" by (auto simp: a' g_def max_def)
  show "ta_element_size a' = ta_element_size array" "ta_clear a' = ta_clear array"
    "ta_use_malloc a' = ta_use_malloc array" by (simp_all add: a' g_def)
qed

lemma tiny_put_NoneD:
  assumes "grn_tiny_array_put env array rid = (a', None)" and "tiny_wf array" and "rid \<noteq> GRN_ID_NIL"
  shows "a' = array"
  using assms block_index_lt [OF assms(2,3)]
  by (auto simp: tiny_put_eq Let_def grow_block_def split: if_splits)

lemma tiny_put_succeeds:
  assumes "alloc_ok env (grn_tiny_array_get_block_id rid) \<or> rid \<in> tiny_cells array"
    and "tiny_wf array" and "rid \<noteq> GRN_ID_NIL"
  shows "\<exists>a'. grn_tiny_array_put env array rid = (a', Some (tiny_addr_of rid))"
  using assms block_index_lt [OF assms(2,3)]
  by (auto simp: tiny_put_eq Let_def grow_block_def tiny_cells_def)

section \<open>From an address back to the id\<close>

lemma tiny_array_id_loop_found:
  assumes "ta_blocks array ! b \<noteq> None" and "k < GRN_TINY_ARRAY_GET_BLOCK_SIZE b"
    and "0 < ta_element_size array" and "a \<le> b" and "b < n"
  shows "tiny_array_id_loop array (b, k * ta_element_size array) [a..<n] (2 ^ a) = 2 ^ b + k"
  using assms(4,5)
proof (induction "b - a" arbitrary: a)
  case 0
  then show ?case
    using assms by (simp add: upt_conv_Cons Let_def)
next
  case (Suc d)
  then have "a < b" and "b < n" by auto
  then have "[a..<n] = a # [Suc a..<n]" by (simp add: upt_conv_Cons)
  moreover have "(2::nat) ^ a + GRN_TINY_ARRAY_GET_BLOCK_SIZE a = 2 ^ Suc a"
    by (simp add: tiny_layout)
  moreover have "tiny_array_id_loop array (b, k * ta_element_size array) [Suc a..<n] (2 ^ Suc a) = 2 ^ b + k"
    using Suc.hyps \<open>a < b\<close> \<open>b < n\<close> by (intro Suc.hyps(1)) auto
  ultimately show ?case
    using \<open>a < b\<close> by (simp add: Let_def del: power_Suc upt_Suc)
qed

lemma tiny_array_id_of_cell:
  assumes "rid \<in> tiny_cells array" and "0 < ta_element_size array"
  shows "grn_tiny_array_id array
           (fst (tiny_addr_of rid), snd (tiny_addr_of rid) * ta_element_size array) = rid"
proof -
  from assms(1) have nz: "rid \<noteq> GRN_ID_NIL" and blk: "ta_blocks array ! fst (tiny_addr_of rid) \<noteq> None"
    by (auto simp: tiny_cells_def tiny_addr_of_def)
  have "tiny_array_id_loop array (fst (tiny_addr_of rid), snd (tiny_addr_of rid) * ta_element_size array)
          [0..<GRN_TINY_ARRAY_NUM_BLOCKS] 1 = 2 ^ fst (tiny_addr_of rid) + snd (tiny_addr_of rid)"
    using tiny_array_id_loop_found [OF blk tiny_addr_of_bound(2) [OF nz] assms(2), of 0]
      tiny_addr_of_bound(1) [OF nz] by simp
  also have "\<dots> = unat rid"
    using block_id_range(1) [OF nz] by (simp add: tiny_addr_of_def tiny_layout)
  finally show ?thesis
    by (simp add: grn_tiny_array_id_def)
qed

section \<open>The bitmap as a bit store\<close>

definition bitmap_addr_of :: "grn_id \<Rightarrow> tiny_addr" where
  "bitmap_addr_of bit_id = tiny_addr_of (bitmap_byte_id bit_id)"

definition bitmap_wf :: "tiny_bitmap \<Rightarrow> bool" where
  "bitmap_wf bitmap \<longleftrightarrow> length (tb_blocks bitmap) = GRN_TINY_ARRAY_NUM_BLOCKS \<and>
     (\<forall>b < GRN_TINY_ARRAY_NUM_BLOCKS. \<forall>block. tb_blocks bitmap ! b = Some block \<longrightarrow>
        length block = GRN_TINY_ARRAY_GET_BLOCK_SIZE b)"

definition bitmap_has :: "tiny_bitmap \<Rightarrow> grn_id \<Rightarrow> bool" where
  "bitmap_has bitmap bit_id \<longleftrightarrow> tb_blocks bitmap ! fst (bitmap_addr_of bit_id) \<noteq> None"

definition bitmap_bit :: "tiny_bitmap \<Rightarrow> grn_id \<Rightarrow> bool" where
  "bitmap_bit bitmap bit_id \<longleftrightarrow>
     byte_get_bit (bitmap_read bitmap (bitmap_addr_of bit_id)) bit_id = 1"

definition bitmap_set :: "grn_id \<Rightarrow> bool \<Rightarrow> tiny_bitmap \<Rightarrow> tiny_bitmap" where
  "bitmap_set bit_id on bitmap =
     bitmap_write (bitmap_addr_of bit_id)
       (byte_set_bit (bitmap_read bitmap (bitmap_addr_of bit_id)) bit_id on) bitmap"

lemma bit_index_lt: "unat (bit_id AND (7 :: u32)) < 8"
proof -
  have "bit_id AND 7 \<le> 7" by (rule word_and_le1)
  then show ?thesis by (simp add: word_le_nat_alt)
qed

lemma byte_get_bit_01: "byte_get_bit b i = (if bit b (unat (i AND 7)) then 1 else 0)"
  by (auto simp: byte_get_bit_def and_one_eq bit_iff_odd_drop_bit mod2_eq_if)

lemma byte_get_bit_iff: "byte_get_bit b i = 1 \<longleftrightarrow> bit b (unat (i AND 7))"
  by (simp add: byte_get_bit_01)

lemma byte_set_bit_bit:
  "k < 8 \<Longrightarrow> bit (byte_set_bit b i on) k = (if k = unat (i AND 7) then on else bit b k)"
  using bit_index_lt [of i]
  by (auto simp: byte_set_bit_def bit_simps)

lemma bitmap_byte_id_nz: "bitmap_byte_id bit_id \<noteq> 0"
  and unat_bitmap_byte_id: "unat (bitmap_byte_id bit_id) = Suc (unat bit_id div 8)"
proof -
  have "unat (drop_bit 3 bit_id) = unat bit_id div 8"
    by (simp add: drop_bit_eq_div unat_div)
  moreover have "unat bit_id div 8 < 2 ^ 29"
    by (simp add: less_mult_imp_div_less)
  ultimately show *: "unat (bitmap_byte_id bit_id) = Suc (unat bit_id div 8)"
    by (simp add: bitmap_byte_id_def unat_Suc_no_wrap)
  show "bitmap_byte_id bit_id \<noteq> 0"
    using * by auto
qed

lemma unat_bit_index: "unat (bit_id AND (7 :: u32)) = unat bit_id mod 8"
proof -
  have "(7 :: u32) = mask 3" by (simp add: mask_eq_exp_minus_1)
  then have "bit_id AND 7 = take_bit 3 bit_id" by (simp add: take_bit_eq_mask)
  then show ?thesis by (simp add: take_bit_eq_mod unat_mod)
qed

lemma bitmap_position_inj:
  assumes "bitmap_addr_of i = bitmap_addr_of j" and "unat (i AND 7) = unat (j AND 7)"
  shows "i = j"
proof -
  have "bitmap_byte_id i = bitmap_byte_id j"
    using assms(1) tiny_addr_of_inj [OF bitmap_byte_id_nz bitmap_byte_id_nz]
    by (simp add: bitmap_addr_of_def)
  then have "unat i div 8 = unat j div 8"
    using unat_bitmap_byte_id [of i] unat_bitmap_byte_id [of j] by simp
  with assms(2) have "unat i = unat j"
    by (metis div_mult_mod_eq unat_bit_index)
  then show ?thesis by (simp add: unat_inj)
qed

lemma bitmap_has_block:
  assumes "bitmap_wf s" and "bitmap_has s i"
  obtains block where "tb_blocks s ! fst (bitmap_addr_of i) = Some block"
    and "snd (bitmap_addr_of i) < length block" and "fst (bitmap_addr_of i) < length (tb_blocks s)"
  using assms tiny_addr_of_bound [OF bitmap_byte_id_nz [of i]]
  by (auto simp: bitmap_wf_def bitmap_has_def bitmap_addr_of_def)

lemma bitmap_read_write:
  assumes "bitmap_wf s" and "bitmap_has s i"
  shows "bitmap_read (bitmap_write (bitmap_addr_of i) v s) (bitmap_addr_of j)
           = (if bitmap_addr_of j = bitmap_addr_of i then v else bitmap_read s (bitmap_addr_of j))"
proof -
  obtain block where "tb_blocks s ! fst (bitmap_addr_of i) = Some block"
    "snd (bitmap_addr_of i) < length block" "fst (bitmap_addr_of i) < length (tb_blocks s)"
    using bitmap_has_block [OF assms] .
  then show ?thesis
    by (auto simp: bitmap_read_def bitmap_write_def nth_list_update prod_eq_iff)
qed

lemma bitmap_bit_set:
  assumes "bitmap_wf s" and "bitmap_has s i"
  shows "bitmap_bit (bitmap_set i b s) j = (if j = i then b else bitmap_bit s j)"
proof -
  have "bitmap_addr_of j = bitmap_addr_of i \<Longrightarrow> j \<noteq> i \<Longrightarrow> unat (j AND 7) \<noteq> unat (i AND 7)"
    using bitmap_position_inj [of j i] by blast
  then show ?thesis
    using bit_index_lt [of j]
    by (auto simp: bitmap_bit_def bitmap_set_def bitmap_read_write [OF assms] byte_get_bit_iff
        byte_set_bit_bit)
qed

lemma bitmap_write_shape:
  "length (tb_blocks (bitmap_write p v s)) = length (tb_blocks s)"
  "b < length (tb_blocks s) \<Longrightarrow>
     tb_blocks (bitmap_write p v s) ! b = None \<longleftrightarrow> tb_blocks s ! b = None"
  by (auto simp: bitmap_write_def grn_simps)

interpretation tb: bit_store bitmap_wf bitmap_has bitmap_bit bitmap_set
proof unfold_locales
  fix s :: tiny_bitmap and i j b
  assume wf: "bitmap_wf s" and has: "bitmap_has s i"
  show "bitmap_bit (bitmap_set i b s) j = (if j = i then b else bitmap_bit s j)"
    by (rule bitmap_bit_set [OF wf has])
  show "bitmap_wf (bitmap_set i b s)"
    using wf by (auto simp: bitmap_wf_def bitmap_set_def bitmap_write_def grn_simps split: if_splits)
  have "fst (bitmap_addr_of j) < length (tb_blocks s)"
    using wf tiny_addr_of_bound(1) [OF bitmap_byte_id_nz] by (simp add: bitmap_wf_def bitmap_addr_of_def)
  then show "bitmap_has (bitmap_set i b s) j = bitmap_has s j"
    by (simp add: bitmap_has_def bitmap_set_def bitmap_write_shape)
qed

lemma bitmap_get_byte_eq:
  "grn_tiny_bitmap_get_byte s i = (if bitmap_has s i then Some (bitmap_addr_of i) else None)"
  by (auto simp: grn_tiny_bitmap_get_byte_def bitmap_has_def bitmap_addr_of_def tiny_addr_of_def Let_def
      split: option.splits)

lemma bitmap_get_and_set_eq:
  "grn_tiny_bitmap_get_and_set s i b =
     (if bitmap_has s i then (bitmap_set i b s, Some (bitmap_addr_of i)) else (s, None))"
  by (simp add: grn_tiny_bitmap_get_and_set_def bitmap_get_byte_eq bitmap_set_def)

definition bitmap_grow :: "tiny_bitmap \<Rightarrow> grn_id \<Rightarrow> tiny_bitmap" where
  "bitmap_grow s i =
     (let b = fst (bitmap_addr_of i)
      in if tb_blocks s ! b = None
         then s\<lparr>tb_blocks := (tb_blocks s)[b := Some (replicate (GRN_TINY_ARRAY_GET_BLOCK_SIZE b) 0)]\<rparr>
         else s)"

lemma bitmap_put_byte_eq:
  "grn_tiny_bitmap_put_byte env s i =
     (if bitmap_has s i \<or> alloc_ok env (fst (bitmap_addr_of i))
      then (bitmap_grow s i, Some (bitmap_addr_of i)) else (s, None))"
  by (auto simp: grn_tiny_bitmap_put_byte_def bitmap_has_def bitmap_grow_def bitmap_addr_of_def
      tiny_addr_of_def Let_def)

lemma bitmap_addr_lt: "bitmap_wf s \<Longrightarrow> fst (bitmap_addr_of i) < length (tb_blocks s)"
  using tiny_addr_of_bound(1) [OF bitmap_byte_id_nz] by (simp add: bitmap_wf_def bitmap_addr_of_def)

lemma bitmap_grow_props:
  assumes "bitmap_wf s"
  shows "bitmap_wf (bitmap_grow s i)" and "bitmap_has (bitmap_grow s i) i"
    and "bitmap_has s j \<Longrightarrow> bitmap_has (bitmap_grow s i) j"
    and "bitmap_bit (bitmap_grow s i) j = bitmap_bit s j"
proof -
  show "bitmap_wf (bitmap_grow s i)"
    using assms by (auto simp: bitmap_wf_def bitmap_grow_def Let_def grn_simps split: if_splits)
  show "bitmap_has (bitmap_grow s i) i" and "bitmap_has s j \<Longrightarrow> bitmap_has (bitmap_grow s i) j"
    using bitmap_addr_lt [OF assms, of i] bitmap_addr_lt [OF assms, of j]
    by (auto simp: bitmap_has_def bitmap_grow_def Let_def grn_simps)
  have "snd (bitmap_addr_of j) < GRN_TINY_ARRAY_GET_BLOCK_SIZE (fst (bitmap_addr_of j))"
    using tiny_addr_of_bound(2) [OF bitmap_byte_id_nz] by (simp add: bitmap_addr_of_def)
  then show "bitmap_bit (bitmap_grow s i) j = bitmap_bit s j"
    using bitmap_addr_lt [OF assms, of j]
    by (auto simp: bitmap_bit_def bitmap_read_def bitmap_grow_def Let_def grn_simps)
qed

lemma bitmap_put_eq:
  assumes "bitmap_wf s"
  shows "grn_tiny_bitmap_put env s i =
     (if bitmap_has s i \<or> alloc_ok env (fst (bitmap_addr_of i))
      then (bitmap_grow s i, if bitmap_bit s i then 1 else 0) else (s, - 1))"
  using bitmap_grow_props(4) [OF assms, of i i]
  by (auto simp: grn_tiny_bitmap_put_def bitmap_put_byte_eq byte_get_bit_01 bitmap_bit_def)

lemma bitmap_put_and_set_eq:
  "grn_tiny_bitmap_put_and_set env s i b =
     (if bitmap_has s i \<or> alloc_ok env (fst (bitmap_addr_of i))
      then (bitmap_set i b (bitmap_grow s i), Some (bitmap_addr_of i)) else (s, None))"
  by (simp add: grn_tiny_bitmap_put_and_set_def bitmap_put_byte_eq bitmap_set_def)

lemma bitmap_wf_init: "bitmap_wf grn_tiny_bitmap_init"
  by (simp add: bitmap_wf_def grn_tiny_bitmap_init_def)

lemma bitmap_bit_init: "\<not> bitmap_bit grn_tiny_bitmap_init i"
  using bitmap_addr_lt [OF bitmap_wf_init, of i]
  by (simp add: bitmap_bit_def bitmap_read_def byte_get_bit_def grn_tiny_bitmap_init_def)

lemma bitmap_bit_has: "bitmap_bit s i \<Longrightarrow> bitmap_has s i"
  by (auto simp: bitmap_bit_def bitmap_has_def bitmap_read_def byte_get_bit_01 split: option.splits)

end
