(* ===== verification/IoArray.thy ===== *)
theory IoArray
  imports TinyArray
begin

text \<open>
  The segmented file storage of \<^verbatim>\<open>lib/io.c\<close> as the tables use it: a file is a sequence of
  segments of \<^verbatim>\<open>segment_size\<close> bytes, and several logical arrays share it, each mapping its logical
  segments to physical ones on first use.  The bytes of the mapped file are \<open>io_mem\<close>, by physical
  segment and byte offset; a physical segment that was never handed out reads as zeros, as a
  freshly extended file does.  Whether mapping a segment (\<^verbatim>\<open>grn_io_seg_ref\<close>) and the scratch
  allocation of \<^verbatim>\<open>segment_alloc\<close> succeed is the environment's choice.

  The main results: two logical segments never share a physical one, so every array of a file is a
  \<open>cell_store\<close> whose writes leave the cells of the other arrays alone, and the bitmap operations
  on such an array form a \<open>bit_store\<close>.
\<close>

section \<open>The storage\<close>

record io_array_info =
  w_of_elm_in_a_segment :: nat
  max_n_segments :: nat
  element_size :: nat
  segments :: "nat \<Rightarrow> nat"
  addrs :: "nat \<Rightarrow> bool"

record grn_io =
  io_max_segment :: nat
  io_segment_tail :: nat
  io_ainfo :: "io_array_info list"
  io_mem :: "nat \<Rightarrow> nat \<Rightarrow> byte"

record io_env =
  seg_ref_ok :: "nat \<Rightarrow> bool"
  calloc_ok :: bool

record io_array_spec =
  spec_w_of_element :: nat
  spec_max_n_segments :: nat

type_synonym io_addr = "nat \<times> nat"

text \<open>\<^verbatim>\<open>array_init_\<close>: the layout of each array from its specification.\<close>

function log2_ceil :: "nat \<Rightarrow> nat \<Rightarrow> nat" where
  "log2_ceil sz w = (if 2 ^ w < sz then log2_ceil sz (Suc w) else w)"
  by pat_completeness auto
termination
proof (relation "measure (\<lambda>(sz, w). sz - 2 ^ w)")
  fix sz w :: nat
  assume "2 ^ w < sz"
  moreover have "(2::nat) ^ w < 2 ^ Suc w" by simp
  ultimately show "((sz, Suc w), sz, w) \<in> measure (\<lambda>(sz, w). sz - 2 ^ w)"
    by (simp only: in_measure case_prod_conv diff_less_mono2)
qed simp

declare log2_ceil.simps [simp del]

definition array_init_info :: "nat \<Rightarrow> io_array_spec \<Rightarrow> io_array_info" where
  "array_init_info segment_size spec =
     \<lparr>w_of_elm_in_a_segment = log2_ceil segment_size 0 - spec_w_of_element spec,
      max_n_segments = spec_max_n_segments spec,
      element_size = 2 ^ spec_w_of_element spec,
      segments = (\<lambda>_. 0), addrs = (\<lambda>_. False)\<rparr>"

definition grn_io_create_with_array :: "nat \<Rightarrow> io_array_spec list \<Rightarrow> grn_io option" where
  "grn_io_create_with_array segment_size array_specs =
     (if array_specs = [] then None
      else Some \<lparr>io_max_segment = sum_list (map spec_max_n_segments array_specs),
                 io_segment_tail = 1,
                 io_ainfo = map (array_init_info segment_size) array_specs,
                 io_mem = (\<lambda>_ _. 0)\<rparr>)"

section \<open>Allocating a segment\<close>

definition segment_used :: "grn_io \<Rightarrow> nat \<Rightarrow> bool" where
  "segment_used io s =
     list_ex (\<lambda>ai. list_ex (\<lambda>l. segments ai l = s) [0..<max_n_segments ai]) (io_ainfo io)"

fun first_unused :: "(nat \<Rightarrow> bool) \<Rightarrow> nat \<Rightarrow> nat \<Rightarrow> nat option" where
  "first_unused used s 0 = None"
| "first_unused used s (Suc n) = (if used s then first_unused used (Suc s) n else Some s)"

definition segment_alloc :: "io_env \<Rightarrow> grn_io \<Rightarrow> grn_io \<times> nat" where
  "segment_alloc env io =
     (if io_segment_tail io \<noteq> 0 then
        if io_max_segment io < io_segment_tail io then (io, 0)
        else (io\<lparr>io_segment_tail := Suc (io_segment_tail io)\<rparr>, io_segment_tail io)
      else if \<not> calloc_ok env then (io, 0)
      else case first_unused (segment_used io) 1 (io_max_segment io) of
             None \<Rightarrow> (io\<lparr>io_segment_tail := Suc (io_max_segment io)\<rparr>, 0)
           | Some s \<Rightarrow> (io\<lparr>io_segment_tail := Suc s\<rparr>, s))"

text \<open>An array element assignment, as a function that computes when it is applied to an index.\<close>

definition set_at :: "(nat \<Rightarrow> 'a) \<Rightarrow> nat \<Rightarrow> 'a \<Rightarrow> nat \<Rightarrow> 'a" where
  "set_at f i v j = (if j = i then v else f j)"

lemma set_at_fun_upd [simp]: "set_at f i v = f(i := v)"
  by (auto simp: set_at_def)

definition set_ainfo :: "nat \<Rightarrow> (io_array_info \<Rightarrow> io_array_info) \<Rightarrow> grn_io \<Rightarrow> grn_io" where
  "set_ainfo array f io = io\<lparr>io_ainfo := (io_ainfo io)[array := f (io_ainfo io ! array)]\<rparr>"

definition grn_io_segment_alloc :: "io_env \<Rightarrow> grn_io \<Rightarrow> nat \<Rightarrow> nat \<Rightarrow> bool \<Rightarrow> grn_io" where
  "grn_io_segment_alloc env io array lseg add =
     (let io = (if segments (io_ainfo io ! array) lseg = 0 \<and> add
                then case segment_alloc env io of (io, s) \<Rightarrow>
                       set_ainfo array (\<lambda>ai. ai\<lparr>segments := set_at (segments ai) lseg s\<rparr>) io
                else io);
          sp = segments (io_ainfo io ! array) lseg
      in if sp \<noteq> 0 \<and> seg_ref_ok env (sp - 1)
         then set_ainfo array (\<lambda>ai. ai\<lparr>addrs := set_at (addrs ai) lseg True\<rparr>) io
         else io)"

text \<open>
  \<^verbatim>\<open>offset >> w\<close> and \<^verbatim>\<open>offset & ((1 << w) - 1)\<close> on a natural number, with equations that compute
  them one bit at a time.
\<close>

definition shift_right :: "nat \<Rightarrow> nat \<Rightarrow> nat" where
  [simp]: "shift_right n w = n div 2 ^ w"

definition low_bits :: "nat \<Rightarrow> nat \<Rightarrow> nat" where
  [simp]: "low_bits n w = n mod 2 ^ w"

lemma shift_right_code [code]:
  "shift_right n 0 = n" "shift_right n (Suc w) = shift_right (n div 2) w"
  by (simp_all add: div_mult2_eq)

lemma low_bits_code [code]:
  "low_bits n 0 = 0" "low_bits n (Suc w) = n mod 2 + 2 * low_bits (n div 2) w"
  by (simp_all add: mod_mult2_eq)

definition grn_io_array_at :: "io_env \<Rightarrow> grn_io \<Rightarrow> nat \<Rightarrow> nat \<Rightarrow> bool \<Rightarrow> grn_io \<times> io_addr option" where
  "grn_io_array_at env io array offset add =
     (let ainfo = io_ainfo io ! array;
          lseg = shift_right offset (w_of_elm_in_a_segment ainfo)
      in if max_n_segments ainfo \<le> lseg then (io, None)
         else let io = (if addrs ainfo lseg then io else grn_io_segment_alloc env io array lseg add);
                  ainfo = io_ainfo io ! array
              in if addrs ainfo lseg
                 then (io, Some (segments ainfo lseg - 1,
                                 low_bits offset (w_of_elm_in_a_segment ainfo) * element_size ainfo))
                 else (io, None))"

section \<open>Reading and writing through an address\<close>

definition io_read :: "grn_io \<Rightarrow> io_addr \<Rightarrow> nat \<Rightarrow> byte list" where
  "io_read io p n = map (\<lambda>k. io_mem io (fst p) (snd p + k)) [0..<n]"

definition mem_write :: "io_addr \<Rightarrow> byte list \<Rightarrow> (nat \<Rightarrow> nat \<Rightarrow> byte) \<Rightarrow> nat \<Rightarrow> nat \<Rightarrow> byte" where
  "mem_write p bs mem q k =
     (if q = fst p \<and> snd p \<le> k \<and> k < snd p + length bs then bs ! (k - snd p) else mem q k)"

definition io_write :: "io_addr \<Rightarrow> byte list \<Rightarrow> grn_io \<Rightarrow> grn_io" where
  "io_write p bs io = io\<lparr>io_mem := mem_write p bs (io_mem io)\<rparr>"

section \<open>Bits\<close>

definition grn_io_array_bit_at :: "io_env \<Rightarrow> grn_io \<Rightarrow> nat \<Rightarrow> grn_id \<Rightarrow> grn_io \<times> int" where
  "grn_io_array_bit_at env io segment_id offset =
     (case grn_io_array_at env io segment_id (unat (bitmap_byte_id offset)) False of
        (io, None) \<Rightarrow> (io, - 1)
      | (io, Some ptr) \<Rightarrow> (io, byte_get_bit (io_read io ptr 1 ! 0) offset))"

definition grn_io_array_bit_on :: "io_env \<Rightarrow> grn_io \<Rightarrow> nat \<Rightarrow> grn_id \<Rightarrow> grn_io \<times> io_addr option" where
  "grn_io_array_bit_on env io segment_id offset =
     (case grn_io_array_at env io segment_id (unat (bitmap_byte_id offset)) True of
        (io, None) \<Rightarrow> (io, None)
      | (io, Some ptr) \<Rightarrow>
          (io_write ptr [byte_set_bit (io_read io ptr 1 ! 0) offset True] io, Some ptr))"

definition grn_io_array_bit_off :: "io_env \<Rightarrow> grn_io \<Rightarrow> nat \<Rightarrow> grn_id \<Rightarrow> grn_io \<times> io_addr option" where
  "grn_io_array_bit_off env io segment_id offset =
     (case grn_io_array_at env io segment_id (unat (bitmap_byte_id offset)) True of
        (io, None) \<Rightarrow> (io, None)
      | (io, Some ptr) \<Rightarrow>
          (io_write ptr [byte_set_bit (io_read io ptr 1 ! 0) offset False] io, Some ptr))"

section \<open>The invariant of the storage\<close>

text \<open>
  Files made by \<^verbatim>\<open>grn_io_create_with_array\<close> keep \<^verbatim>\<open>segment_tail\<close> positive (zero marks files of versions
  that did not record it).  Every logical segment that is in use lies below the tail, no two
  share a physical segment, and physical segments in nobody's table hold zeros.
\<close>

abbreviation seg :: "grn_io \<Rightarrow> nat \<Rightarrow> nat \<Rightarrow> nat" where
  "seg io k l \<equiv> segments (io_ainfo io ! k) l"

definition io_seg_ok :: "grn_io \<Rightarrow> nat \<Rightarrow> bool" where
  "io_seg_ok io k \<longleftrightarrow> 0 < element_size (io_ainfo io ! k) \<and>
     (\<forall>l. seg io k l < io_segment_tail io \<and> (addrs (io_ainfo io ! k) l \<longrightarrow> seg io k l \<noteq> 0))"

definition io_wf :: "grn_io \<Rightarrow> bool" where
  "io_wf io \<longleftrightarrow>
     (\<forall>k < length (io_ainfo io). io_seg_ok io k) \<and>
     (\<forall>k < length (io_ainfo io). \<forall>k' < length (io_ainfo io). \<forall>l l'.
        seg io k l \<noteq> 0 \<longrightarrow> seg io k l = seg io k' l' \<longrightarrow> k = k' \<and> l = l') \<and>
     (\<forall>q. (\<forall>k < length (io_ainfo io). \<forall>l. seg io k l \<noteq> Suc q) \<longrightarrow> io_mem io q = (\<lambda>_. 0))"

lemma io_wfD:
  assumes "io_wf io" and "k < length (io_ainfo io)"
  shows "0 < element_size (io_ainfo io ! k)" and "seg io k l < io_segment_tail io"
    and "addrs (io_ainfo io ! k) l \<Longrightarrow> seg io k l \<noteq> 0"
  using assms by (auto simp: io_wf_def io_seg_ok_def)

lemma io_wf_inj:
  assumes "io_wf io" and "k < length (io_ainfo io)" and "k' < length (io_ainfo io)"
    and "seg io k l \<noteq> 0" and "seg io k l = seg io k' l'"
  shows "k = k' \<and> l = l'"
  using assms unfolding io_wf_def by blast

lemma io_wf_create:
  assumes "grn_io_create_with_array segment_size specs = Some io"
  shows "io_wf io"
  using assms
  by (auto simp: grn_io_create_with_array_def io_wf_def io_seg_ok_def array_init_info_def split: if_splits)

lemma segment_alloc_frame:
  assumes "segment_alloc env io = (io', s)"
  shows "io_ainfo io' = io_ainfo io" and "io_mem io' = io_mem io"
  using assms by (auto simp: segment_alloc_def split: if_splits option.splits)

text \<open>A segment handed out is new: at or above every segment in use.\<close>

lemma segment_alloc_fresh:
  assumes "segment_alloc env io = (io', s)" and "io_wf io" and "k < length (io_ainfo io)"
  shows "io_segment_tail io \<le> io_segment_tail io'" and "s < io_segment_tail io'"
    and "s \<noteq> 0 \<Longrightarrow> seg io k l < s"
proof -
  have "0 < io_segment_tail io" using io_wfD(2) [OF assms(2,3), of 0] by simp
  with assms(1) show "io_segment_tail io \<le> io_segment_tail io'" "s < io_segment_tail io'"
    by (auto simp: segment_alloc_def split: if_splits option.splits)
  show "s \<noteq> 0 \<Longrightarrow> seg io k l < s"
    using \<open>0 < io_segment_tail io\<close> assms(1) io_wfD(2) [OF assms(2,3), of l]
    by (auto simp: segment_alloc_def split: if_splits option.splits)
qed

lemma set_ainfo_nth:
  "k < length (io_ainfo io) \<Longrightarrow>
     io_ainfo (set_ainfo array f io) ! k = (if k = array then f (io_ainfo io ! k) else io_ainfo io ! k)"
  by (auto simp: set_ainfo_def grn_simps)

lemma set_ainfo_frame [simp]:
  "io_mem (set_ainfo array f io) = io_mem io"
  "io_segment_tail (set_ainfo array f io) = io_segment_tail io"
  "io_max_segment (set_ainfo array f io) = io_max_segment io"
  "length (io_ainfo (set_ainfo array f io)) = length (io_ainfo io)"
  by (simp_all add: set_ainfo_def)

lemma io_wf_new_segment:
  assumes wf: "io_wf io" and arr: "array < length (io_ainfo io)" and unset: "seg io array lseg = 0"
    and alloc: "segment_alloc env io = (io1, s)"
  shows "io_wf (set_ainfo array (\<lambda>ai. ai\<lparr>segments := (segments ai)(lseg := s)\<rparr>) io1)" (is "io_wf ?io")
proof -
  note fr = segment_alloc_frame [OF alloc]
  have nth: "k < length (io_ainfo io) \<Longrightarrow> seg ?io k l = (if k = array \<and> l = lseg then s else seg io k l)"
    for k l by (simp add: set_ainfo_nth fr)
  have nth': "k < length (io_ainfo io) \<Longrightarrow> addrs (io_ainfo ?io ! k) = addrs (io_ainfo io ! k)
      \<and> element_size (io_ainfo ?io ! k) = element_size (io_ainfo io ! k)" for k
    by (simp add: set_ainfo_nth fr)
  have len: "length (io_ainfo ?io) = length (io_ainfo io)" by (simp add: fr)
  note fresh = segment_alloc_fresh [OF alloc wf]
  have ok: "io_seg_ok ?io k" if k: "k < length (io_ainfo io)" for k
    using io_wfD(1-3) [OF wf k] fresh(1,2) [OF k] nth [OF k] nth' [OF k]
      io_wfD(3) [OF wf arr, of lseg] unset
    unfolding io_seg_ok_def by (auto intro: order_less_le_trans)
  have inj: "k = k' \<and> l = l'" if k: "k < length (io_ainfo io)" "k' < length (io_ainfo io)"
    and eq: "seg ?io k l \<noteq> 0" "seg ?io k l = seg ?io k' l'" for k k' l l'
    using eq io_wf_inj [OF wf k(1,2), of l l'] fresh(3) [OF k(1), of l] fresh(3) [OF k(2), of l']
    by (auto simp: nth [OF k(1)] nth [OF k(2)] split: if_splits)
  have zero: "io_mem ?io q = (\<lambda>_. 0)" if "\<forall>k < length (io_ainfo io). \<forall>l. seg ?io k l \<noteq> Suc q" for q
  proof -
    have "\<forall>k < length (io_ainfo io). \<forall>l. seg io k l \<noteq> Suc q"
    proof (intro allI impI)
      fix k l assume "k < length (io_ainfo io)"
      then show "seg io k l \<noteq> Suc q"
        using that nth [of k l] unset by (cases "k = array \<and> l = lseg") auto
    qed
    with wf show ?thesis by (simp add: io_wf_def fr)
  qed
  show ?thesis
    unfolding io_wf_def len using ok inj zero by blast
qed

lemma io_wf_map_segment:
  assumes wf: "io_wf io" and "array < length (io_ainfo io)" and "seg io array lseg \<noteq> 0"
  shows "io_wf (set_ainfo array (\<lambda>ai. ai\<lparr>addrs := (addrs ai)(lseg := True)\<rparr>) io)" (is "io_wf ?io")
proof -
  have nth: "k < length (io_ainfo io) \<Longrightarrow> seg ?io k l = seg io k l" for k l
    by (simp add: set_ainfo_nth)
  have ok: "io_seg_ok ?io k" if k: "k < length (io_ainfo io)" for k
    using io_wfD(1-3) [OF wf k] assms(3)
    by (auto simp: io_seg_ok_def set_ainfo_nth k)
  have zero: "io_mem ?io q = (\<lambda>_. 0)" if "\<forall>k < length (io_ainfo io). \<forall>l. seg ?io k l \<noteq> Suc q" for q
    using that wf nth by (simp add: io_wf_def)
  have inj: "k = k' \<and> l = l'" if "k < length (io_ainfo io)" "k' < length (io_ainfo io)"
    "seg ?io k l \<noteq> 0" "seg ?io k l = seg ?io k' l'" for k k' l l'
    using that io_wf_inj [OF wf, of k k' l l'] nth by simp
  show ?thesis
    unfolding io_wf_def set_ainfo_frame(4) using ok zero inj by blast
qed

section \<open>What an element holds\<close>

definition io_lseg :: "grn_io \<Rightarrow> nat \<Rightarrow> nat \<Rightarrow> nat" where
  "io_lseg io k i = i div 2 ^ w_of_elm_in_a_segment (io_ainfo io ! k)"

definition io_addr_of :: "grn_io \<Rightarrow> nat \<Rightarrow> nat \<Rightarrow> io_addr" where
  "io_addr_of io k i =
     (seg io k (io_lseg io k i) - 1,
      (i mod 2 ^ w_of_elm_in_a_segment (io_ainfo io ! k)) * element_size (io_ainfo io ! k))"

definition io_elem :: "grn_io \<Rightarrow> nat \<Rightarrow> nat \<Rightarrow> byte list" where
  "io_elem io k i =
     (if seg io k (io_lseg io k i) = 0 then replicate (element_size (io_ainfo io ! k)) 0
      else io_read io (io_addr_of io k i) (element_size (io_ainfo io ! k)))"

definition io_mapped :: "grn_io \<Rightarrow> nat \<Rightarrow> nat \<Rightarrow> bool" where
  "io_mapped io k i = addrs (io_ainfo io ! k) (io_lseg io k i)"

text \<open>
  \<open>same_contents\<close>: the layout and every element of every array are as before, and addresses in
  segments that are in use stay valid; only segments were assigned or mapped.
\<close>

definition same_contents :: "grn_io \<Rightarrow> grn_io \<Rightarrow> bool" where
  "same_contents io io' \<longleftrightarrow> length (io_ainfo io') = length (io_ainfo io) \<and>
     (\<forall>k < length (io_ainfo io).
        element_size (io_ainfo io' ! k) = element_size (io_ainfo io ! k) \<and>
        w_of_elm_in_a_segment (io_ainfo io' ! k) = w_of_elm_in_a_segment (io_ainfo io ! k) \<and>
        max_n_segments (io_ainfo io' ! k) = max_n_segments (io_ainfo io ! k) \<and>
        (\<forall>i. io_elem io' k i = io_elem io k i
           \<and> (io_mapped io k i \<longrightarrow> io_mapped io' k i)
           \<and> (seg io k (io_lseg io k i) \<noteq> 0 \<longrightarrow>
                seg io' k (io_lseg io' k i) \<noteq> 0 \<and> io_addr_of io' k i = io_addr_of io k i)))"

lemma same_contents_refl: "same_contents io io"
  by (simp add: same_contents_def)

lemma same_contents_trans:
  "same_contents a b \<Longrightarrow> same_contents b c \<Longrightarrow> same_contents a c"
  by (auto simp: same_contents_def)

lemma same_contentsD:
  assumes "same_contents io io'" and "k < length (io_ainfo io)"
  shows "element_size (io_ainfo io' ! k) = element_size (io_ainfo io ! k)"
    and "w_of_elm_in_a_segment (io_ainfo io' ! k) = w_of_elm_in_a_segment (io_ainfo io ! k)"
    and "max_n_segments (io_ainfo io' ! k) = max_n_segments (io_ainfo io ! k)"
    and "io_elem io' k i = io_elem io k i"
    and "io_mapped io k i \<Longrightarrow> io_mapped io' k i"
    and "length (io_ainfo io') = length (io_ainfo io)"
    and "seg io k (io_lseg io k i) \<noteq> 0 \<Longrightarrow> io_addr_of io' k i = io_addr_of io k i"
    and "seg io k (io_lseg io k i) \<noteq> 0 \<Longrightarrow> seg io' k (io_lseg io' k i) \<noteq> 0"
  using assms by (auto simp: same_contents_def)

lemma same_contents_new_segment:
  assumes wf: "io_wf io" and arr: "array < length (io_ainfo io)" and unset: "seg io array lseg = 0"
    and alloc: "segment_alloc env io = (io1, s)"
  shows "same_contents io (set_ainfo array (\<lambda>ai. ai\<lparr>segments := (segments ai)(lseg := s)\<rparr>) io1)"
    (is "same_contents io ?io")
proof -
  note fr = segment_alloc_frame [OF alloc]
  have zero: "io_mem io (s - 1) = (\<lambda>_. 0)" if "s \<noteq> 0"
  proof -
    have "\<forall>k < length (io_ainfo io). \<forall>l. seg io k l \<noteq> Suc (s - 1)"
      using segment_alloc_fresh(3) [OF alloc wf _ that] that by fastforce
    then show ?thesis using wf by (simp add: io_wf_def)
  qed
  have "io_elem ?io k i = io_elem io k i" if k: "k < length (io_ainfo io)" for k i
    using zero unset
    by (auto simp: io_elem_def io_addr_of_def io_lseg_def io_read_def set_ainfo_nth fr k
        map_replicate_const)
  moreover have "seg ?io k (io_lseg ?io k i) \<noteq> 0 \<and> io_addr_of ?io k i = io_addr_of io k i"
    if k: "k < length (io_ainfo io)" and "seg io k (io_lseg io k i) \<noteq> 0" for k i
    using that unset by (auto simp: io_addr_of_def io_lseg_def set_ainfo_nth fr)
  ultimately show ?thesis
    by (auto simp: same_contents_def set_ainfo_nth fr io_mapped_def io_lseg_def)
qed

lemma same_contents_map_segment:
  "array < length (io_ainfo io) \<Longrightarrow>
     same_contents io (set_ainfo array (\<lambda>ai. ai\<lparr>addrs := (addrs ai)(lseg := True)\<rparr>) io)"
  by (auto simp: same_contents_def set_ainfo_nth io_elem_def io_addr_of_def io_lseg_def io_read_def
      io_mapped_def)

lemma grn_io_segment_alloc_ok:
  assumes wf: "io_wf io" and arr: "array < length (io_ainfo io)"
  shows "io_wf (grn_io_segment_alloc env io array lseg add)"
    and "same_contents io (grn_io_segment_alloc env io array lseg add)"
proof -
  define io1 where "io1 = (if seg io array lseg = 0 \<and> add
    then case segment_alloc env io of (io, s) \<Rightarrow>
           set_ainfo array (\<lambda>ai. ai\<lparr>segments := (segments ai)(lseg := s)\<rparr>) io
    else io)"
  have 1: "io_wf io1" "same_contents io io1" "length (io_ainfo io1) = length (io_ainfo io)"
    using wf arr io_wf_new_segment [OF wf arr] same_contents_new_segment [OF wf arr]
      segment_alloc_frame(1) [of env io]
    by (auto simp: io1_def same_contents_refl split: prod.splits)
  have eq: "grn_io_segment_alloc env io array lseg add =
      (if seg io1 array lseg \<noteq> 0 \<and> seg_ref_ok env (seg io1 array lseg - 1)
       then set_ainfo array (\<lambda>ai. ai\<lparr>addrs := (addrs ai)(lseg := True)\<rparr>) io1 else io1)"
    unfolding grn_io_segment_alloc_def io1_def Let_def set_at_fun_upd ..
  show "io_wf (grn_io_segment_alloc env io array lseg add)"
    using 1 arr by (auto simp: eq intro: io_wf_map_segment)
  show "same_contents io (grn_io_segment_alloc env io array lseg add)"
    using 1 arr same_contents_trans [OF 1(2) same_contents_map_segment [of array io1 lseg]]
    by (simp add: eq)
qed

lemma grn_io_array_at_ok:
  assumes at: "grn_io_array_at env io k i add = (io', p)" and wf: "io_wf io"
    and k: "k < length (io_ainfo io)"
  shows "io_wf io'" and "same_contents io io'"
    and "p = Some a \<Longrightarrow> a = io_addr_of io' k i \<and> io_mapped io' k i"
    and "io_mapped io k i \<Longrightarrow> i div 2 ^ w_of_elm_in_a_segment (io_ainfo io ! k) < max_n_segments (io_ainfo io ! k)
           \<Longrightarrow> p \<noteq> None"
proof -
  define l where "l = i div 2 ^ w_of_elm_in_a_segment (io_ainfo io ! k)"
  define io1 where "io1 = (if addrs (io_ainfo io ! k) l then io else grn_io_segment_alloc env io k l add)"
  have 1: "io_wf io1" "same_contents io io1"
    using wf grn_io_segment_alloc_ok [OF wf k] by (auto simp: io1_def same_contents_refl)
  have at': "(io', p) = (if max_n_segments (io_ainfo io ! k) \<le> l then (io, None)
      else if addrs (io_ainfo io1 ! k) l
      then (io1, Some (seg io1 k l - 1, (i mod 2 ^ w_of_elm_in_a_segment (io_ainfo io1 ! k))
                         * element_size (io_ainfo io1 ! k)))
      else (io1, None))"
    unfolding at [symmetric] grn_io_array_at_def Let_def io1_def l_def by simp
  show "io_wf io'" "same_contents io io'"
    using at' 1 wf by (auto simp: same_contents_refl split: if_splits)
  have "io_lseg io1 k i = l"
    using same_contentsD(2) [OF 1(2) k] by (simp add: io_lseg_def l_def)
  then show "p = Some a \<Longrightarrow> a = io_addr_of io' k i \<and> io_mapped io' k i"
    using at' by (auto simp: io_addr_of_def io_mapped_def split: if_splits)
  show "io_mapped io k i \<Longrightarrow> i div 2 ^ w_of_elm_in_a_segment (io_ainfo io ! k) < max_n_segments (io_ainfo io ! k)
      \<Longrightarrow> p \<noteq> None"
    using at' by (auto simp: io_mapped_def io_lseg_def io1_def l_def split: if_splits)
qed

section \<open>Every array of a file is a cell store of its own\<close>

lemma io_write_frame [simp]:
  "io_ainfo (io_write p v io) = io_ainfo io"
  "io_segment_tail (io_write p v io) = io_segment_tail io"
  by (simp_all add: io_write_def)

lemma io_mem_write:
  "io_mem (io_write p v io) q x =
     (if q = fst p \<and> snd p \<le> x \<and> x < snd p + length v then v ! (x - snd p) else io_mem io q x)"
  by (simp add: io_write_def mem_write_def)

lemma io_addr_of_write [simp]: "io_addr_of (io_write p v io) k i = io_addr_of io k i"
  by (simp add: io_addr_of_def io_lseg_def)

lemma io_mapped_write [simp]: "io_mapped (io_write p v io) k i = io_mapped io k i"
  by (simp add: io_mapped_def io_lseg_def)

lemma slots_disjoint:
  fixes a b es n :: nat
  assumes "a \<noteq> b" and "x < es" and "y < es"
  shows "a * es + x \<noteq> b * es + y"
proof
  assume "a * es + x = b * es + y"
  then have "(a * es + x) div es = (b * es + y) div es" by simp
  with assms show False by simp
qed

lemma io_addr_of_apart:
  assumes wf: "io_wf io" and k: "k < length (io_ainfo io)" "k' < length (io_ainfo io)"
    and mp: "seg io k (io_lseg io k i) \<noteq> 0" "seg io k' (io_lseg io k' j) \<noteq> 0"
    and ne: "k' \<noteq> k \<or> j \<noteq> i"
    and x: "x < element_size (io_ainfo io ! k)" and y: "y < element_size (io_ainfo io ! k')"
    and same: "fst (io_addr_of io k' j) = fst (io_addr_of io k i)"
  shows "snd (io_addr_of io k i) + x \<noteq> snd (io_addr_of io k' j) + y"
proof -
  have "seg io k (io_lseg io k i) = seg io k' (io_lseg io k' j)"
    using same mp by (simp add: io_addr_of_def)
  then have kk: "k' = k" and ll: "io_lseg io k i = io_lseg io k j"
    using io_wf_inj [OF wf k mp(1)] by auto
  with ne have "j \<noteq> i" by simp
  have "i mod 2 ^ w_of_elm_in_a_segment (io_ainfo io ! k) \<noteq> j mod 2 ^ w_of_elm_in_a_segment (io_ainfo io ! k)"
    using ll \<open>j \<noteq> i\<close> by (metis div_mult_mod_eq io_lseg_def)
  then show ?thesis
    using slots_disjoint x y by (simp add: io_addr_of_def kk)
qed

lemma io_elem_length [simp]: "length (io_elem io k i) = element_size (io_ainfo io ! k)"
  by (simp add: io_elem_def io_read_def)

lemma io_elem_write:
  assumes wf: "io_wf io" and k: "k < length (io_ainfo io)" "k' < length (io_ainfo io)"
    and mp: "io_mapped io k i" and len: "length v \<le> element_size (io_ainfo io ! k)"
  shows "io_elem (io_write (io_addr_of io k i) v io) k' j =
           (if k' = k \<and> j = i then v @ drop (length v) (io_elem io k i) else io_elem io k' j)"
proof -
  have nz: "seg io k (io_lseg io k i) \<noteq> 0"
    using io_wfD(3) [OF wf k(1)] mp by (simp add: io_mapped_def)
  show ?thesis
  proof (cases "seg io k' (io_lseg io k' j) = 0")
    case True
    with nz show ?thesis by (auto simp: io_elem_def io_lseg_def)
  next
    case False
    show ?thesis
    proof (cases "k' = k \<and> j = i")
      case True
      have "io_elem (io_write (io_addr_of io k i) v io) k i
              = io_read (io_write (io_addr_of io k i) v io) (io_addr_of io k i) (element_size (io_ainfo io ! k))"
        using nz by (simp add: io_elem_def io_lseg_def)
      also have "\<dots> = v @ drop (length v) (io_elem io k i)"
        using nz len by (auto simp: io_elem_def io_read_def io_mem_write nth_append intro!: nth_equalityI)
      finally show ?thesis using True by simp
    next
      case ne: False
      have "io_mem (io_write (io_addr_of io k i) v io) (fst (io_addr_of io k' j)) (snd (io_addr_of io k' j) + y)
              = io_mem io (fst (io_addr_of io k' j)) (snd (io_addr_of io k' j) + y)"
        if y: "y < element_size (io_ainfo io ! k')" for y
      proof -
        have "\<not> (fst (io_addr_of io k' j) = fst (io_addr_of io k i)
               \<and> snd (io_addr_of io k i) \<le> snd (io_addr_of io k' j) + y
               \<and> snd (io_addr_of io k' j) + y < snd (io_addr_of io k i) + length v)"
        proof (intro notI, elim conjE)
          assume "fst (io_addr_of io k' j) = fst (io_addr_of io k i)"
            and le: "snd (io_addr_of io k i) \<le> snd (io_addr_of io k' j) + y"
            and "snd (io_addr_of io k' j) + y < snd (io_addr_of io k i) + length v"
          moreover from this have
            "snd (io_addr_of io k' j) + y - snd (io_addr_of io k i) < element_size (io_ainfo io ! k)"
            using len by linarith
          ultimately show False
            using io_addr_of_apart [OF wf k nz False _ _ y, of
                "snd (io_addr_of io k' j) + y - snd (io_addr_of io k i)"] ne by auto
        qed
        then show ?thesis by (auto simp: io_mem_write)
      qed
      with ne False show ?thesis
        by (auto simp: io_elem_def io_lseg_def io_read_def)
    qed
  qed
qed

lemma io_wf_write:
  assumes wf: "io_wf io" and k: "k < length (io_ainfo io)" and mp: "io_mapped io k i"
  shows "io_wf (io_write (io_addr_of io k i) v io)"
proof -
  have nz: "seg io k (io_lseg io k i) \<noteq> 0"
    using io_wfD(3) [OF wf k] mp by (simp add: io_mapped_def)
  have "q \<noteq> fst (io_addr_of io k i)" if "\<forall>k < length (io_ainfo io). \<forall>l. seg io k l \<noteq> Suc q" for q
    using that [rule_format, OF k, of "io_lseg io k i"] nz by (auto simp: io_addr_of_def)
  then show ?thesis
    using wf by (auto simp: io_wf_def io_seg_ok_def io_mem_write fun_eq_iff)
qed

definition io_array_wf :: "nat \<Rightarrow> grn_io \<Rightarrow> bool" where
  "io_array_wf k io \<longleftrightarrow> io_wf io \<and> k < length (io_ainfo io)"

definition io_cells :: "nat \<Rightarrow> grn_io \<Rightarrow> grn_id set" where
  "io_cells k io = {rid. io_mapped io k (unat rid)}"

definition io_rd :: "nat \<Rightarrow> grn_io \<Rightarrow> grn_id \<Rightarrow> byte list" where
  "io_rd k io rid = io_elem io k (unat rid)"

definition io_wr :: "nat \<Rightarrow> grn_id \<Rightarrow> byte list \<Rightarrow> grn_io \<Rightarrow> grn_io" where
  "io_wr k rid v io = io_write (io_addr_of io k (unat rid)) v io"

lemmas io_cell_defs = io_array_wf_def io_cells_def io_rd_def io_wr_def

interpretation ioa: cell_store "io_array_wf k" "io_cells k" "io_rd k" "io_wr k"
    "\<lambda>io. element_size (io_ainfo io ! k)" for k
  by unfold_locales (auto simp: io_cell_defs io_elem_write io_wf_write unat_inj)

section \<open>A bitmap array is a bit store\<close>

definition io_bitmap_wf :: "nat \<Rightarrow> grn_io \<Rightarrow> bool" where
  "io_bitmap_wf k io \<longleftrightarrow> io_array_wf k io \<and> element_size (io_ainfo io ! k) = 1"

definition io_has_bit :: "nat \<Rightarrow> grn_io \<Rightarrow> grn_id \<Rightarrow> bool" where
  "io_has_bit k io rid = io_mapped io k (unat (bitmap_byte_id rid))"

definition io_bit :: "nat \<Rightarrow> grn_io \<Rightarrow> grn_id \<Rightarrow> bool" where
  "io_bit k io rid \<longleftrightarrow> byte_get_bit (io_elem io k (unat (bitmap_byte_id rid)) ! 0) rid = 1"

definition io_set_bit :: "nat \<Rightarrow> grn_id \<Rightarrow> bool \<Rightarrow> grn_io \<Rightarrow> grn_io" where
  "io_set_bit k rid on io =
     io_write (io_addr_of io k (unat (bitmap_byte_id rid)))
       [byte_set_bit (io_elem io k (unat (bitmap_byte_id rid)) ! 0) rid on] io"

lemma bitmap_byte_same:
  "unat (bitmap_byte_id i) = unat (bitmap_byte_id j) \<Longrightarrow> unat (i AND 7) = unat (j AND 7) \<Longrightarrow> i = j"
  using bitmap_position_inj [of i j] by (simp add: bitmap_addr_of_def unat_inj)

interpretation iob: bit_store "io_bitmap_wf k" "io_has_bit k" "io_bit k" "io_set_bit k" for k
proof unfold_locales
  fix io :: grn_io and i j b
  assume wf: "io_bitmap_wf k io" and has: "io_has_bit k io i"
  note [simp] = io_elem_write [OF _ _ _ has [unfolded io_has_bit_def], of k]
  show "io_bit k (io_set_bit k i b io) j = (if j = i then b else io_bit k io j)"
    using wf bitmap_byte_same [of j i] bit_index_lt [of j]
    by (auto simp: io_bit_def io_set_bit_def io_bitmap_wf_def io_array_wf_def byte_get_bit_iff
        byte_set_bit_bit)
  show "io_bitmap_wf k (io_set_bit k i b io)"
    using wf has by (simp add: io_bitmap_wf_def io_array_wf_def io_set_bit_def io_has_bit_def io_wf_write)
  show "io_has_bit k (io_set_bit k i b io) j = io_has_bit k io j"
    by (simp add: io_has_bit_def io_set_bit_def)
qed

end
