(* ===== verification/GrnArray.thy ===== *)
theory GrnArray
  imports IoArray
begin

text \<open>
  The record table without keys, \<^verbatim>\<open>grn_array\<close> of \<^verbatim>\<open>lib/hash.c\<close>: records are numbered from 1, a
  bitmap says which are alive, and the ids of deleted records are kept for reuse, in a linked list
  threaded through the values when a value has room for an id and in a five-element buffer of
  the header otherwise.  The same operations run on two storages: a tiny array in memory and
  two segmented arrays of a file.

  The operations follow the code function by function.  Each takes an environment that decides
  what the machine below answers: allocations, segment mapping, the write-ahead log, closing
  and removing files.  A table pointer is never null here, so the null checks of the entry points
  have no counterpart.
\<close>

section \<open>State\<close>

text \<open>
  \<open>ar_n_entries\<close> and \<open>ar_n_garbages\<close> are what \<^verbatim>\<open>array->n_entries\<close> and \<^verbatim>\<open>array->n_garbages\<close> point
  at; \<open>ar_garbages\<close> is \<^verbatim>\<open>header->garbages\<close> of a file and \<^verbatim>\<open>array->garbages\<close> of a tiny array;
  \<open>ar_curr_rec\<close>, \<open>ar_status\<close> and the buffer are fields of the file's header.
\<close>

record grn_array =
  ar_flags :: u32
  ar_value_size :: nat
  ar_n_garbages :: u32
  ar_n_entries :: u32
  ar_garbages :: grn_id
  ar_io :: "grn_io option"
  ar_curr_rec :: grn_id
  ar_status :: u32
  ar_n_garbages_in_buffer :: u32
  ar_garbages_buffer :: "grn_id list"
  ar_wal_touched :: bool
  ar_array :: tiny_array
  ar_bitmap :: tiny_bitmap

record array_env =
  ae_alloc_array :: alloc_env
  ae_alloc_bitmap :: alloc_env
  ae_io :: io_env
  ae_wal_role_none :: bool
  ae_wal_touch_rc :: grn_rc
  ae_malloc_ok :: bool
  ae_io_create_ok :: bool
  ae_io_close_rc :: grn_rc
  ae_io_remove_rc :: grn_rc
  ae_wal_remove_rc :: grn_rc

definition GRN_ARRAY_TINY :: u32 where "GRN_ARRAY_TINY = 0x40"
definition GRN_ARRAY_STATUS_TRUNCATED :: u32 where "GRN_ARRAY_STATUS_TRUNCATED = 1"
definition GRN_ARRAY_STATUS_GARBAGES_BUFFER_INITIALIZED :: u32 where
  "GRN_ARRAY_STATUS_GARBAGES_BUFFER_INITIALIZED = 2"
definition GRN_ARRAY_GARBAGES_BUFFER_SIZE :: nat where "GRN_ARRAY_GARBAGES_BUFFER_SIZE = 5"
definition GRN_ARRAY_SEGMENT_SIZE :: nat where "GRN_ARRAY_SEGMENT_SIZE = 0x400000"
definition GRN_ARRAY_MAX :: grn_id where "GRN_ARRAY_MAX = GRN_ID_MAX - 8"
definition GRN_ARRAY_VALUE_SEGMENT :: nat where "GRN_ARRAY_VALUE_SEGMENT = 0"
definition GRN_ARRAY_BITMAP_SEGMENT :: nat where "GRN_ARRAY_BITMAP_SEGMENT = 1"

lemmas array_segments = GRN_ARRAY_VALUE_SEGMENT_def GRN_ARRAY_BITMAP_SEGMENT_def

definition grn_array_is_io_array :: "grn_array \<Rightarrow> bool" where
  "grn_array_is_io_array array \<longleftrightarrow> ar_io array \<noteq> None"

definition grn_array_can_use_value_for_garbage :: "grn_array \<Rightarrow> bool" where
  "grn_array_can_use_value_for_garbage array \<longleftrightarrow> 4 \<le> ar_value_size array"

text \<open>The file of an array that is known to have one.\<close>

definition the_io :: "grn_array \<Rightarrow> grn_io" where
  "the_io array = the (ar_io array)"

section \<open>Write-ahead log\<close>

definition grn_io_array_wal_touch :: "array_env \<Rightarrow> grn_array \<Rightarrow> grn_array \<times> grn_rc" where
  "grn_io_array_wal_touch env array =
     (if ar_wal_touched array then (array, GRN_SUCCESS)
      else if ae_wal_role_none env then (array, GRN_SUCCESS)
      else let rc = ae_wal_touch_rc env
           in (if rc = GRN_SUCCESS then array\<lparr>ar_wal_touched := True\<rparr> else array, rc))"

section \<open>Entries\<close>

text \<open>A pointer to an entry is an address in the storage of the table it belongs to.\<close>

datatype entry_ptr = TinyPtr tiny_addr | IoPtr io_addr

text \<open>The \<open>n\<close> bytes a pointer to an entry points at, and storing bytes through it.\<close>

fun entry_read :: "grn_array \<Rightarrow> entry_ptr \<Rightarrow> nat \<Rightarrow> byte list" where
  "entry_read array (TinyPtr p) n = take n (tiny_read (ar_array array) p)"
| "entry_read array (IoPtr p) n = io_read (the_io array) p n"

fun entry_write :: "entry_ptr \<Rightarrow> byte list \<Rightarrow> grn_array \<Rightarrow> grn_array" where
  "entry_write (TinyPtr p) v array =
     array\<lparr>ar_array := tiny_write p (v @ drop (length v) (tiny_read (ar_array array) p)) (ar_array array)\<rparr>"
| "entry_write (IoPtr p) v array = array\<lparr>ar_io := Some (io_write p v (the_io array))\<rparr>"

definition grn_array_io_entry_at ::
    "array_env \<Rightarrow> grn_array \<Rightarrow> grn_id \<Rightarrow> bool \<Rightarrow> grn_array \<times> entry_ptr option" where
  "grn_array_io_entry_at env array rid add =
     (case grn_io_array_at (ae_io env) (the_io array) GRN_ARRAY_VALUE_SEGMENT (unat rid) add of
        (io, p) \<Rightarrow> (array\<lparr>ar_io := Some io\<rparr>, map_option IoPtr p))"

definition grn_array_entry_at ::
    "array_env \<Rightarrow> grn_array \<Rightarrow> grn_id \<Rightarrow> bool \<Rightarrow> grn_array \<times> entry_ptr option" where
  "grn_array_entry_at env array rid add =
     (if grn_array_is_io_array array then grn_array_io_entry_at env array rid add
      else case grn_tiny_array_at (ae_alloc_array env) (ar_array array) rid of
             (ta, p) \<Rightarrow> (array\<lparr>ar_array := ta\<rparr>, map_option TinyPtr p))"

definition grn_array_bit_on :: "array_env \<Rightarrow> grn_array \<Rightarrow> grn_id \<Rightarrow> grn_array \<times> bool" where
  "grn_array_bit_on env array rid =
     (case grn_io_array_bit_on (ae_io env) (the_io array) GRN_ARRAY_BITMAP_SEGMENT rid of
        (io, p) \<Rightarrow> (array\<lparr>ar_io := Some io\<rparr>, p \<noteq> None))"

definition grn_array_bit_off :: "array_env \<Rightarrow> grn_array \<Rightarrow> grn_id \<Rightarrow> grn_array" where
  "grn_array_bit_off env array rid =
     (case grn_io_array_bit_off (ae_io env) (the_io array) GRN_ARRAY_BITMAP_SEGMENT rid of
        (io, p) \<Rightarrow> array\<lparr>ar_io := Some io\<rparr>)"

section \<open>Garbage\<close>

text \<open>Index of the first element of the buffer that satisfies the test: the \<^verbatim>\<open>for\<close> loops with \<^verbatim>\<open>break\<close>.\<close>

fun first_index :: "(grn_id \<Rightarrow> bool) \<Rightarrow> grn_id list \<Rightarrow> nat option" where
  "first_index P [] = None"
| "first_index P (x # xs) = (if P x then Some 0 else map_option Suc (first_index P xs))"

definition grn_array_put_garbage_to_buffer :: "grn_array \<Rightarrow> grn_id \<Rightarrow> grn_array" where
  "grn_array_put_garbage_to_buffer array garbage_id =
     (let array =
            (if ar_garbages array \<noteq> GRN_ID_NIL
                \<and> unat (ar_n_garbages_in_buffer array) < GRN_ARRAY_GARBAGES_BUFFER_SIZE
             then case first_index (\<lambda>g. g = GRN_ID_NIL) (ar_garbages_buffer array) of
                    None \<Rightarrow> array
                  | Some i \<Rightarrow>
                      array\<lparr>ar_garbages_buffer := (ar_garbages_buffer array)[i := ar_garbages array],
                            ar_n_garbages_in_buffer := ar_n_garbages_in_buffer array + 1,
                            ar_garbages := GRN_ID_NIL\<rparr>
             else array)
      in if ar_garbages array = GRN_ID_NIL then array\<lparr>ar_garbages := garbage_id\<rparr> else array)"

definition grn_array_bitmap_at :: "array_env \<Rightarrow> grn_array \<Rightarrow> grn_id \<Rightarrow> grn_array \<times> int" where
  "grn_array_bitmap_at env array rid =
     (if grn_array_is_io_array array then
        case grn_io_array_bit_at (ae_io env) (the_io array) GRN_ARRAY_BITMAP_SEGMENT rid of
          (io, b) \<Rightarrow>
            let array = array\<lparr>ar_io := Some io\<rparr>
            in (if b = 0 \<and> \<not> grn_array_can_use_value_for_garbage array
                then grn_array_put_garbage_to_buffer array rid else array, b)
      else case grn_tiny_bitmap_put (ae_alloc_bitmap env) (ar_bitmap array) rid of
             (bm, b) \<Rightarrow> (array\<lparr>ar_bitmap := bm\<rparr>, b))"

section \<open>Creation\<close>

definition grn_array_init_tiny_array ::
    "grn_array \<Rightarrow> bool \<Rightarrow> nat \<Rightarrow> u32 \<Rightarrow> grn_array \<times> grn_rc" where
  "grn_array_init_tiny_array array path value_size flags =
     (if path then (array, GRN_INVALID_ARGUMENT)
      else (array\<lparr>ar_flags := flags, ar_value_size := value_size,
                  ar_n_garbages := 0, ar_n_entries := 0, ar_io := None,
                  ar_status := 0, ar_garbages := GRN_ID_NIL,
                  ar_array := grn_tiny_array_init (value_size mod 2 ^ 16) True False,
                  ar_bitmap := grn_tiny_bitmap_init\<rparr>, GRN_SUCCESS))"

definition grn_array_create_io_array :: "array_env \<Rightarrow> nat \<Rightarrow> grn_io option" where
  "grn_array_create_io_array env value_size =
     (let w_of_element = log2_ceil value_size 0
      in if ae_io_create_ok env
         then grn_io_create_with_array GRN_ARRAY_SEGMENT_SIZE
                [\<lparr>spec_w_of_element = w_of_element,
                  spec_max_n_segments = 2 ^ (30 - (22 - w_of_element))\<rparr>,
                 \<lparr>spec_w_of_element = 0, spec_max_n_segments = 2 ^ (30 - (22 + 3))\<rparr>]
         else None)"

definition grn_array_init_io_array ::
    "array_env \<Rightarrow> grn_array \<Rightarrow> nat \<Rightarrow> u32 \<Rightarrow> grn_array \<times> grn_rc" where
  "grn_array_init_io_array env array value_size flags =
     (case grn_array_create_io_array env value_size of
        None \<Rightarrow> (array, GRN_NO_MEMORY_AVAILABLE)
      | Some io \<Rightarrow>
          (array\<lparr>ar_flags := flags, ar_value_size := value_size,
                 ar_n_garbages := 0, ar_n_entries := 0, ar_garbages := GRN_ID_NIL,
                 ar_io := Some io, ar_curr_rec := 0,
                 ar_status := GRN_ARRAY_STATUS_GARBAGES_BUFFER_INITIALIZED,
                 ar_n_garbages_in_buffer := 0,
                 ar_garbages_buffer := replicate GRN_ARRAY_GARBAGES_BUFFER_SIZE GRN_ID_NIL,
                 ar_wal_touched := False\<rparr>, GRN_SUCCESS))"

definition grn_array_init ::
    "array_env \<Rightarrow> grn_array \<Rightarrow> bool \<Rightarrow> nat \<Rightarrow> u32 \<Rightarrow> grn_array \<times> grn_rc" where
  "grn_array_init env array path value_size flags =
     (if flags AND GRN_ARRAY_TINY \<noteq> 0 then grn_array_init_tiny_array array path value_size flags
      else grn_array_init_io_array env array value_size flags)"

text \<open>What \<^verbatim>\<open>GRN_CALLOC\<close> delivers: all fields zero, all pointers null.\<close>

definition calloc_array :: grn_array where
  "calloc_array =
     \<lparr>ar_flags = 0, ar_value_size = 0, ar_n_garbages = 0, ar_n_entries = 0, ar_garbages = 0,
      ar_io = None, ar_curr_rec = 0, ar_status = 0, ar_n_garbages_in_buffer = 0,
      ar_garbages_buffer = replicate GRN_ARRAY_GARBAGES_BUFFER_SIZE 0, ar_wal_touched = False,
      ar_array = grn_tiny_array_init 0 False False, ar_bitmap = grn_tiny_bitmap_init\<rparr>"

definition grn_array_create :: "array_env \<Rightarrow> bool \<Rightarrow> nat \<Rightarrow> u32 \<Rightarrow> grn_array option" where
  "grn_array_create env path value_size flags =
     (if alloc_ok (ae_alloc_array env) 0 then
        case grn_array_init env calloc_array path value_size flags of
          (array, rc) \<Rightarrow> if rc = GRN_SUCCESS then Some array else None
      else None)"

section \<open>Size and truncation\<close>

definition grn_array_error_if_truncated :: "grn_array \<Rightarrow> grn_rc" where
  "grn_array_error_if_truncated array =
     (if ar_status array AND GRN_ARRAY_STATUS_TRUNCATED \<noteq> 0 then GRN_FILE_CORRUPT else GRN_SUCCESS)"

definition grn_array_remove :: "array_env \<Rightarrow> grn_rc" where
  "grn_array_remove env =
     (let wal_rc = ae_wal_remove_rc env;
          io_rc = ae_io_remove_rc env
      in if io_rc = GRN_SUCCESS then wal_rc else io_rc)"

definition grn_array_size :: "grn_array \<Rightarrow> u32" where
  "grn_array_size array =
     (if grn_array_error_if_truncated array \<noteq> GRN_SUCCESS then 0 else ar_n_entries array)"

definition grn_array_truncate :: "array_env \<Rightarrow> grn_array \<Rightarrow> bool \<Rightarrow> grn_array \<times> grn_rc" where
  "grn_array_truncate env array has_path =
     (let rc = grn_array_error_if_truncated array
      in if rc \<noteq> GRN_SUCCESS then (array, rc)
         else let path = grn_array_is_io_array array \<and> has_path
              in if path \<and> \<not> ae_malloc_ok env then (array, GRN_NO_MEMORY_AVAILABLE)
                 else let value_size = ar_value_size array;
                          flags = ar_flags array;
                          (array, rc) =
                            (if grn_array_is_io_array array then
                               let array = (if path
                                            then array\<lparr>ar_status := ar_status array OR GRN_ARRAY_STATUS_TRUNCATED\<rparr>
                                            else array);
                                   rc = ae_io_close_rc env
                               in if rc = GRN_SUCCESS
                                  then (array\<lparr>ar_io := None\<rparr>, if path then grn_array_remove env else rc)
                                  else (array, rc)
                             else (array, rc))
                      in if rc = GRN_SUCCESS then grn_array_init env array path value_size flags
                         else (array, rc))"

definition grn_array_get_max_id :: "grn_array \<Rightarrow> grn_id" where
  "grn_array_get_max_id array =
     (if grn_array_is_io_array array then ar_curr_rec array else ta_max (ar_array array))"

section \<open>Values\<close>

definition grn_array_get_value_inline ::
    "array_env \<Rightarrow> grn_array \<Rightarrow> grn_id \<Rightarrow> grn_array \<times> entry_ptr option" where
  "grn_array_get_value_inline env array rid =
     (if grn_array_error_if_truncated array \<noteq> GRN_SUCCESS then (array, None)
      else if ar_n_garbages array \<noteq> 0 then
        case grn_array_bitmap_at env array rid of
          (array, b) \<Rightarrow>
            if b \<noteq> 1 then (array, None) else grn_array_entry_at env array rid False
      else if rid = 0 \<or> grn_array_get_max_id array < rid then (array, None)
      else grn_array_entry_at env array rid False)"

definition grn_array_get_value ::
    "array_env \<Rightarrow> grn_array \<Rightarrow> grn_id \<Rightarrow> grn_array \<times> byte list option" where
  "grn_array_get_value env array rid =
     (case grn_array_get_value_inline env array rid of
        (array, None) \<Rightarrow> (array, None)
      | (array, Some value) \<Rightarrow> (array, Some (entry_read array value (ar_value_size array))))"

datatype set_flag = GRN_OBJ_SET | GRN_OBJ_INCR | GRN_OBJ_DECR | GRN_OBJ_SET_OTHER

definition set_flag_of :: "u32 \<Rightarrow> set_flag" where
  "set_flag_of flags =
     (let m = flags AND 7
      in if m = 1 then GRN_OBJ_SET else if m = 2 then GRN_OBJ_INCR
         else if m = 3 then GRN_OBJ_DECR else GRN_OBJ_SET_OTHER)"

text \<open>
  The integer updates \<^verbatim>\<open>*((int32_t *)entry) += *((int32_t *)value)\<close> and their 64-bit forms work on
  the stored bytes in two's complement.
\<close>

definition set_value_bytes :: "set_flag \<Rightarrow> nat \<Rightarrow> byte list \<Rightarrow> byte list \<Rightarrow> byte list option" where
  "set_value_bytes flag value_size entry value =
     (case flag of
        GRN_OBJ_SET \<Rightarrow> Some (take value_size value)
      | GRN_OBJ_INCR \<Rightarrow>
          if value_size = 4 then Some (u32_bytes (get_u32 entry + get_u32 value))
          else if value_size = 8 then Some (u64_bytes (get_u64 entry + get_u64 value))
          else None
      | GRN_OBJ_DECR \<Rightarrow>
          if value_size = 4 then Some (u32_bytes (get_u32 entry - get_u32 value))
          else if value_size = 8 then Some (u64_bytes (get_u64 entry - get_u64 value))
          else None
      | GRN_OBJ_SET_OTHER \<Rightarrow> None)"

definition grn_array_set_value_inline ::
    "array_env \<Rightarrow> grn_array \<Rightarrow> grn_id \<Rightarrow> byte list \<Rightarrow> u32 \<Rightarrow> grn_array \<times> grn_rc" where
  "grn_array_set_value_inline env array rid value flags =
     (case grn_array_entry_at env array rid False of
        (array, None) \<Rightarrow> (array, GRN_NO_MEMORY_AVAILABLE)
      | (array, Some entry) \<Rightarrow>
          (let (array, rc) = (if grn_array_is_io_array array then grn_io_array_wal_touch env array
                              else (array, GRN_SUCCESS))
           in if rc \<noteq> GRN_SUCCESS then (array, rc)
              else case set_value_bytes (set_flag_of flags) (ar_value_size array)
                          (entry_read array entry (ar_value_size array)) value of
                     None \<Rightarrow> (array, GRN_INVALID_ARGUMENT)
                   | Some v \<Rightarrow> (entry_write entry v array, GRN_SUCCESS)))"

definition grn_array_set_value ::
    "array_env \<Rightarrow> grn_array \<Rightarrow> grn_id \<Rightarrow> byte list \<Rightarrow> u32 \<Rightarrow> grn_array \<times> grn_rc" where
  "grn_array_set_value env array rid value flags =
     (let rc = grn_array_error_if_truncated array
      in if rc \<noteq> GRN_SUCCESS then (array, rc)
         else if ar_n_garbages array \<noteq> 0 then
           case grn_array_bitmap_at env array rid of
             (array, b) \<Rightarrow>
               if b \<noteq> 1 then (array, GRN_INVALID_ARGUMENT)
               else grn_array_set_value_inline env array rid value flags
         else if rid = 0 \<or> grn_array_get_max_id array < rid then (array, GRN_INVALID_ARGUMENT)
         else grn_array_set_value_inline env array rid value flags)"

section \<open>Deletion and lookup\<close>

definition count_deleted :: "grn_array \<Rightarrow> grn_array" where
  "count_deleted array =
     array\<lparr>ar_n_entries := ar_n_entries array - 1, ar_n_garbages := ar_n_garbages array + 1\<rparr>"

definition array_delete_io :: "array_env \<Rightarrow> grn_array \<Rightarrow> grn_id \<Rightarrow> grn_array \<times> grn_rc" where
  "array_delete_io env array rid =
     (case grn_io_array_wal_touch env array of
        (array, rc) \<Rightarrow>
          if rc \<noteq> GRN_SUCCESS then (array, rc)
          else if grn_array_can_use_value_for_garbage array then
            case grn_array_io_entry_at env array rid False of
              (array, None) \<Rightarrow> (array, GRN_INVALID_ARGUMENT)
            | (array, Some entry) \<Rightarrow>
                (let array = (entry_write entry (u32_bytes (ar_garbages array)) array)\<lparr>ar_garbages := rid\<rparr>
                 in (grn_array_bit_off env (count_deleted array) rid, GRN_SUCCESS))
          else (grn_array_bit_off env (count_deleted (grn_array_put_garbage_to_buffer array rid)) rid,
                GRN_SUCCESS))"

definition array_delete_tiny :: "grn_array \<Rightarrow> grn_id \<Rightarrow> grn_array \<times> grn_rc" where
  "array_delete_tiny array rid =
     (let (array, rc) =
            (if grn_array_can_use_value_for_garbage array then
               case grn_tiny_array_get (ar_array array) rid of
                 None \<Rightarrow> (array, GRN_INVALID_ARGUMENT)
               | Some entry \<Rightarrow>
                   ((entry_write (TinyPtr entry) (u32_bytes (ar_garbages array)) array)\<lparr>ar_garbages := rid\<rparr>,
                    GRN_SUCCESS)
             else (array, GRN_SUCCESS))
      in if rc = GRN_SUCCESS
         then (let array = count_deleted array
               in array\<lparr>ar_bitmap := fst (grn_tiny_bitmap_get_and_set (ar_bitmap array) rid False)\<rparr>, rc)
         else (array, rc))"

definition grn_array_delete_by_id :: "array_env \<Rightarrow> grn_array \<Rightarrow> grn_id \<Rightarrow> grn_array \<times> grn_rc" where
  "grn_array_delete_by_id env array rid =
     (let rc = grn_array_error_if_truncated array
      in if rc \<noteq> GRN_SUCCESS then (array, rc)
         else case grn_array_bitmap_at env array rid of
                (array, b) \<Rightarrow>
                  if b \<noteq> 1 then (array, GRN_INVALID_ARGUMENT)
                  else if grn_array_is_io_array array then array_delete_io env array rid
                  else array_delete_tiny array rid)"

definition grn_array_at :: "array_env \<Rightarrow> grn_array \<Rightarrow> grn_id \<Rightarrow> grn_array \<times> grn_id" where
  "grn_array_at env array rid =
     (if grn_array_error_if_truncated array \<noteq> GRN_SUCCESS then (array, GRN_ID_NIL)
      else if ar_n_garbages array \<noteq> 0 then
        case grn_array_bitmap_at env array rid of
          (array, b) \<Rightarrow> if b \<noteq> 1 then (array, GRN_ID_NIL) else (array, rid)
      else if grn_array_get_max_id array < rid then (array, GRN_ID_NIL)
      else (array, rid))"

section \<open>Adding a record\<close>

definition grn_array_add_to_tiny_array ::
    "array_env \<Rightarrow> grn_array \<Rightarrow> grn_array \<times> grn_id \<times> entry_ptr option" where
  "grn_array_add_to_tiny_array env array =
     (let rid = ar_garbages array
      in if rid \<noteq> GRN_ID_NIL then
           case grn_tiny_array_get (ar_array array) rid of
             None \<Rightarrow> (array, GRN_ID_NIL, None)
           | Some entry \<Rightarrow>
               (case grn_tiny_bitmap_get_and_set (ar_bitmap array) rid True of
                  (bm, None) \<Rightarrow> (array\<lparr>ar_bitmap := bm\<rparr>, GRN_ID_NIL, None)
                | (bm, Some _) \<Rightarrow>
                    let array = array\<lparr>ar_bitmap := bm,
                                      ar_garbages := get_u32 (tiny_read (ar_array array) entry)\<rparr>;
                        array = entry_write (TinyPtr entry) (replicate (ar_value_size array) 0) array
                    in (array\<lparr>ar_n_garbages := ar_n_garbages array - 1,
                              ar_n_entries := ar_n_entries array + 1\<rparr>, rid, Some (TinyPtr entry)))
         else
           let rid = ta_max (ar_array array) + 1
           in case grn_tiny_bitmap_put_and_set (ae_alloc_bitmap env) (ar_bitmap array) rid True of
                (bm, None) \<Rightarrow> (array\<lparr>ar_bitmap := bm\<rparr>, GRN_ID_NIL, None)
              | (bm, Some _) \<Rightarrow>
                  (case grn_tiny_array_put (ae_alloc_array env) (ar_array array) rid of
                     (ta, None) \<Rightarrow>
                       (array\<lparr>ar_array := ta,
                              ar_bitmap := fst (grn_tiny_bitmap_get_and_set bm rid False)\<rparr>,
                        GRN_ID_NIL, None)
                   | (ta, Some entry) \<Rightarrow>
                       (array\<lparr>ar_bitmap := bm, ar_array := ta\<lparr>ta_max := rid\<rparr>,
                              ar_n_entries := ar_n_entries array + 1\<rparr>, rid, Some (TinyPtr entry))))"

text \<open>The three ways an IO array finds a record: the linked list, the buffer, a new id.\<close>

definition array_reuse_linked ::
    "array_env \<Rightarrow> grn_array \<Rightarrow> grn_id \<Rightarrow> grn_array \<times> grn_id \<times> entry_ptr option" where
  "array_reuse_linked env array rid =
     (case grn_array_io_entry_at env array rid True of
        (array, None) \<Rightarrow> (array, GRN_ID_NIL, None)
      | (array, Some entry) \<Rightarrow>
          (let array = array\<lparr>ar_garbages := get_u32 (entry_read array entry 4)\<rparr>;
               array = entry_write entry (replicate (ar_value_size array) 0) array;
               array = array\<lparr>ar_n_garbages := ar_n_garbages array - 1\<rparr>
           in case grn_array_bit_on env array rid of
                (array, False) \<Rightarrow>
                  (let array = entry_write entry (u32_bytes (ar_garbages array)) array
                   in (array\<lparr>ar_garbages := rid, ar_n_garbages := ar_n_garbages array + 1\<rparr>,
                       GRN_ID_NIL, None))
              | (array, True) \<Rightarrow>
                  (array\<lparr>ar_n_entries := ar_n_entries array + 1\<rparr>, rid, Some entry)))"

definition take_garbage_from_buffer :: "grn_array \<Rightarrow> grn_array" where
  "take_garbage_from_buffer array =
     (if ar_n_garbages array \<noteq> 0 \<and> ar_n_garbages_in_buffer array \<noteq> 0
      then case first_index (\<lambda>g. g \<noteq> GRN_ID_NIL) (ar_garbages_buffer array) of
             None \<Rightarrow> array
           | Some i \<Rightarrow>
               array\<lparr>ar_garbages := ar_garbages_buffer array ! i,
                     ar_garbages_buffer := (ar_garbages_buffer array)[i := GRN_ID_NIL],
                     ar_n_garbages_in_buffer := ar_n_garbages_in_buffer array - 1\<rparr>
      else array)"

definition array_reuse_buffered ::
    "array_env \<Rightarrow> grn_array \<Rightarrow> grn_id \<Rightarrow> grn_array \<times> grn_id \<times> entry_ptr option" where
  "array_reuse_buffered env array rid =
     (case grn_array_io_entry_at env array rid True of
        (array, None) \<Rightarrow> (array, GRN_ID_NIL, None)
      | (array, Some entry) \<Rightarrow>
          (let array = array\<lparr>ar_garbages := GRN_ID_NIL, ar_n_garbages := ar_n_garbages array - 1\<rparr>
           in case grn_array_bit_on env array rid of
                (array, False) \<Rightarrow>
                  (array\<lparr>ar_garbages := rid, ar_n_garbages := ar_n_garbages array + 1\<rparr>, GRN_ID_NIL, None)
              | (array, True) \<Rightarrow>
                  (let array = take_garbage_from_buffer array
                   in (array\<lparr>ar_n_entries := ar_n_entries array + 1\<rparr>, rid, Some entry))))"

definition array_extend_io ::
    "array_env \<Rightarrow> grn_array \<Rightarrow> grn_array \<times> grn_id \<times> entry_ptr option" where
  "array_extend_io env array =
     (if GRN_ARRAY_MAX \<le> ar_curr_rec array then (array, GRN_ID_NIL, None)
      else let rid = ar_curr_rec array + 1
           in case grn_array_bit_on env array rid of
                (array, False) \<Rightarrow> (array, GRN_ID_NIL, None)
              | (array, True) \<Rightarrow>
                  (case grn_array_io_entry_at env array rid True of
                     (array, None) \<Rightarrow> (grn_array_bit_off env array rid, GRN_ID_NIL, None)
                   | (array, Some entry) \<Rightarrow>
                       (array\<lparr>ar_curr_rec := rid, ar_n_entries := ar_n_entries array + 1\<rparr>,
                        rid, Some entry)))"

definition grn_array_add_to_io_array ::
    "array_env \<Rightarrow> grn_array \<Rightarrow> grn_array \<times> grn_id \<times> entry_ptr option" where
  "grn_array_add_to_io_array env array =
     (if grn_array_error_if_truncated array \<noteq> GRN_SUCCESS then (array, GRN_ID_NIL, None)
      else case grn_io_array_wal_touch env array of
             (array, rc) \<Rightarrow>
               if rc \<noteq> GRN_SUCCESS then (array, GRN_ID_NIL, None)
               else let rid = ar_garbages array
                    in if rid \<noteq> GRN_ID_NIL then
                         if grn_array_can_use_value_for_garbage array
                         then array_reuse_linked env array rid
                         else array_reuse_buffered env array rid
                       else array_extend_io env array)"

definition grn_array_add ::
    "array_env \<Rightarrow> grn_array \<Rightarrow> grn_array \<times> grn_id \<times> entry_ptr option" where
  "grn_array_add env array =
     (if grn_array_is_io_array array then grn_array_add_to_io_array env array
      else grn_array_add_to_tiny_array env array)"

section \<open>Cursors\<close>

text \<open>\<^verbatim>\<open>cursor->dir\<close> is 1 or \<open>-1\<close>; \<^verbatim>\<open>(grn_id)((int64_t)curr_rec + dir)\<close> wraps in 32 bits.\<close>

datatype cursor_dir = Forward | Backward

fun dir_add :: "cursor_dir \<Rightarrow> grn_id \<Rightarrow> grn_id" where
  "dir_add Forward c = c + 1"
| "dir_add Backward c = c - 1"

fun dir_add_offset :: "cursor_dir \<Rightarrow> grn_id \<Rightarrow> int \<Rightarrow> grn_id" where
  "dir_add_offset Forward c offset = c + of_int offset"
| "dir_add_offset Backward c offset = c - of_int offset"

fun dir_dist :: "cursor_dir \<Rightarrow> grn_id \<Rightarrow> grn_id \<Rightarrow> nat" where
  "dir_dist Forward c tail = unat (tail - c)"
| "dir_dist Backward c tail = unat (c - tail)"

lemma dir_dist_less [termination_simp]:
  assumes "c \<noteq> tail"
  shows "dir_dist dir (dir_add dir c) tail < dir_dist dir c tail"
proof (cases dir)
  case Forward
  have "unat (tail - c - 1) < unat (tail - c)"
    using assms by (simp add: measure_unat)
  then show ?thesis by (simp add: Forward algebra_simps)
next
  case Backward
  have "unat (c - tail - 1) < unat (c - tail)"
    using assms by (simp add: measure_unat)
  then show ?thesis by (simp add: Backward algebra_simps)
qed

record grn_array_cursor =
  ac_curr_rec :: grn_id
  ac_tail :: grn_id
  ac_rest :: u32
  ac_dir :: cursor_dir

definition GRN_CURSOR_DESCENDING :: u32 where "GRN_CURSOR_DESCENDING = 1"
definition GRN_CURSOR_GT :: u32 where "GRN_CURSOR_GT = 2"
definition GRN_CURSOR_LT :: u32 where "GRN_CURSOR_LT = 4"

text \<open>\<^verbatim>\<open>while (offset && cursor->curr_rec != cursor->tail)\<close> of \<^verbatim>\<open>grn_array_cursor_open\<close>.\<close>

function (sequential) cursor_skip ::
    "array_env \<Rightarrow> grn_array \<Rightarrow> cursor_dir \<Rightarrow> grn_id \<Rightarrow> int \<Rightarrow> grn_id \<Rightarrow> grn_array \<times> grn_id" where
  "cursor_skip env array dir tail offset cur =
     (if offset = 0 \<or> cur = tail then (array, cur)
      else case grn_array_bitmap_at env array (dir_add dir cur) of
             (array, b) \<Rightarrow>
               cursor_skip env array dir tail (if b = 1 then offset - 1 else offset) (dir_add dir cur))"
  by pat_completeness auto
termination
  by (relation "measure (\<lambda>(env, array, dir, tail, offset, cur). dir_dist dir cur tail)")
    (auto simp: dir_dist_less)

declare cursor_skip.simps [simp del]

definition cursor_bounds :: "grn_array \<Rightarrow> grn_id \<Rightarrow> grn_id \<Rightarrow> u32 \<Rightarrow> cursor_dir \<times> grn_id \<times> grn_id" where
  "cursor_bounds array min_id max_id flags =
     (if flags AND GRN_CURSOR_DESCENDING \<noteq> 0 then
        let curr_rec = (if max_id \<noteq> 0 then if flags AND GRN_CURSOR_LT \<noteq> 0 then max_id else max_id + 1
                        else grn_array_get_max_id array + 1);
            tail = (if min_id \<noteq> 0 then if flags AND GRN_CURSOR_GT \<noteq> 0 then min_id + 1 else min_id
                    else GRN_ID_NIL + 1);
            tail = (if curr_rec < tail then curr_rec else tail)
        in (Backward, curr_rec, tail)
      else
        let curr_rec = (if min_id \<noteq> 0 then if flags AND GRN_CURSOR_GT \<noteq> 0 then min_id else min_id - 1
                        else GRN_ID_NIL);
            tail = (if max_id \<noteq> 0 then if flags AND GRN_CURSOR_LT \<noteq> 0 then max_id - 1 else max_id
                    else grn_array_get_max_id array);
            tail = (if tail < curr_rec then curr_rec else tail)
        in (Forward, curr_rec, tail))"

definition grn_array_cursor_open ::
    "array_env \<Rightarrow> grn_array \<Rightarrow> grn_id \<Rightarrow> grn_id \<Rightarrow> int \<Rightarrow> int \<Rightarrow> u32
       \<Rightarrow> grn_array \<times> grn_array_cursor option" where
  "grn_array_cursor_open env array min_id max_id offset limit flags =
     (if grn_array_error_if_truncated array \<noteq> GRN_SUCCESS then (array, None)
      else if \<not> ae_malloc_ok env then (array, None)
      else case cursor_bounds array min_id max_id flags of
             (dir, curr_rec, tail) \<Rightarrow>
               let (array, curr_rec) =
                     (if ar_n_garbages array \<noteq> 0 then cursor_skip env array dir tail offset curr_rec
                      else (array, dir_add_offset dir curr_rec offset))
               in (array, Some \<lparr>ac_curr_rec = curr_rec, ac_tail = tail,
                                ac_rest = (if limit < 0 then ar_n_entries array else of_int limit),
                                ac_dir = dir\<rparr>))"

text \<open>The loop of \<^verbatim>\<open>grn_array_cursor_next\<close>: the next live record, or none before the tail.\<close>

function (sequential) cursor_next_loop ::
    "array_env \<Rightarrow> grn_array \<Rightarrow> cursor_dir \<Rightarrow> grn_id \<Rightarrow> grn_id \<Rightarrow> grn_array \<times> grn_id \<times> bool" where
  "cursor_next_loop env array dir tail cur =
     (if cur = tail then (array, cur, False)
      else if ar_n_garbages array \<noteq> 0 then
        case grn_array_bitmap_at env array (dir_add dir cur) of
          (array, b) \<Rightarrow>
            if b \<noteq> 1 then cursor_next_loop env array dir tail (dir_add dir cur)
            else (array, dir_add dir cur, True)
      else (array, dir_add dir cur, True))"
  by pat_completeness auto
termination
  by (relation "measure (\<lambda>(env, array, dir, tail, cur). dir_dist dir cur tail)")
    (auto simp: dir_dist_less)

declare cursor_next_loop.simps [simp del]

definition grn_array_cursor_next ::
    "array_env \<Rightarrow> grn_array \<Rightarrow> grn_array_cursor \<Rightarrow> grn_array \<times> grn_array_cursor \<times> grn_id" where
  "grn_array_cursor_next env array cursor =
     (if ac_rest cursor \<noteq> 0 then
        case cursor_next_loop env array (ac_dir cursor) (ac_tail cursor) (ac_curr_rec cursor) of
          (array, curr_rec, found) \<Rightarrow>
            let cursor = cursor\<lparr>ac_curr_rec := curr_rec\<rparr>
            in if found then (array, cursor\<lparr>ac_rest := ac_rest cursor - 1\<rparr>, curr_rec)
               else (array, cursor, GRN_ID_NIL)
      else (array, cursor, GRN_ID_NIL))"

text \<open>\<^verbatim>\<open>while (++id <= max_id)\<close> of \<^verbatim>\<open>grn_array_next\<close>; \<^verbatim>\<open>++id\<close> wraps, so the loop as such may not end.\<close>

partial_function (option) array_next_loop ::
    "array_env \<Rightarrow> grn_array \<Rightarrow> grn_id \<Rightarrow> grn_id \<Rightarrow> (grn_array \<times> grn_id) option" where
  "array_next_loop env array max_id rid =
     (if rid + 1 \<le> max_id then
        if ar_n_garbages array = 0 then Some (array, rid + 1)
        else case grn_array_bitmap_at env array (rid + 1) of
               (array, b) \<Rightarrow>
                 if b = 1 then Some (array, rid + 1) else array_next_loop env array max_id (rid + 1)
      else Some (array, GRN_ID_NIL))"

definition grn_array_next :: "array_env \<Rightarrow> grn_array \<Rightarrow> grn_id \<Rightarrow> (grn_array \<times> grn_id) option" where
  "grn_array_next env array rid =
     (if grn_array_error_if_truncated array \<noteq> GRN_SUCCESS then Some (array, GRN_ID_NIL)
      else array_next_loop env array (grn_array_get_max_id array) rid)"

definition grn_array_cursor_get_value ::
    "array_env \<Rightarrow> grn_array \<Rightarrow> grn_array_cursor \<Rightarrow> grn_array \<times> entry_ptr option" where
  "grn_array_cursor_get_value env array cursor =
     grn_array_entry_at env array (ac_curr_rec cursor) False"

definition grn_array_cursor_set_value ::
    "array_env \<Rightarrow> grn_array \<Rightarrow> grn_array_cursor \<Rightarrow> byte list \<Rightarrow> u32 \<Rightarrow> grn_array \<times> grn_rc" where
  "grn_array_cursor_set_value env array cursor value flags =
     grn_array_set_value_inline env array (ac_curr_rec cursor) value flags"

definition grn_array_cursor_delete ::
    "array_env \<Rightarrow> grn_array \<Rightarrow> grn_array_cursor \<Rightarrow> grn_array \<times> grn_rc" where
  "grn_array_cursor_delete env array cursor = grn_array_delete_by_id env array (ac_curr_rec cursor)"

section \<open>Opening a file\<close>

text \<open>
  The header and the segments survive in the file; a freshly opened file has no segment
  mapped.  \<open>file\<close> stands for what \<^verbatim>\<open>grn_io_open\<close> finds: the state of the header and of the segments.
\<close>

definition io_unmapped :: "grn_io \<Rightarrow> grn_io" where
  "io_unmapped io = io\<lparr>io_ainfo := map (\<lambda>ai. ai\<lparr>addrs := (\<lambda>_. False)\<rparr>) (io_ainfo io)\<rparr>"

definition GRN_TABLE_NO_KEY :: u32 where "GRN_TABLE_NO_KEY = 0x33"

definition grn_array_open :: "array_env \<Rightarrow> u32 \<Rightarrow> grn_array \<Rightarrow> grn_array option" where
  "grn_array_open env io_type file =
     (if io_type = GRN_TABLE_NO_KEY \<and> alloc_ok (ae_alloc_array env) 0
         \<and> ar_flags file AND GRN_ARRAY_TINY = 0
      then let array = calloc_array\<lparr>ar_flags := ar_flags file, ar_value_size := ar_value_size file,
                 ar_n_garbages := ar_n_garbages file, ar_n_entries := ar_n_entries file,
                 ar_garbages := ar_garbages file, ar_io := map_option io_unmapped (ar_io file),
                 ar_curr_rec := ar_curr_rec file, ar_status := ar_status file,
                 ar_n_garbages_in_buffer := ar_n_garbages_in_buffer file,
                 ar_garbages_buffer := ar_garbages_buffer file\<rparr>
           in Some (if \<not> grn_array_can_use_value_for_garbage array
                       \<and> ar_status array AND GRN_ARRAY_STATUS_GARBAGES_BUFFER_INITIALIZED = 0
                    then array\<lparr>ar_n_garbages_in_buffer := 0,
                               ar_garbages_buffer := replicate GRN_ARRAY_GARBAGES_BUFFER_SIZE GRN_ID_NIL,
                               ar_status := ar_status array OR GRN_ARRAY_STATUS_GARBAGES_BUFFER_INITIALIZED\<rparr>
                    else array)
      else None)"

end
