(* ===== verification/ArrayPool.thy ===== *)
theory ArrayPool
  imports TinyArray
begin

text \<open>
  The allocation discipline of a record table, apart from how records are stored: a set of live
  ids, a list of deleted ones linked through their values, and the largest id handed out.
  \<open>pool_inv\<close> ties the head of the list, the largest id and the two counters to the records;
  the locale \<open>record_pool\<close> is the storage interface, and its lemmas are the three moves that
  change the pool: a new id at the end, a deleted id reused, a live id deleted.
\<close>

section \<open>The invariant of the pool\<close>

text \<open>
  \<open>linked\<close> says whether values are large enough to hold a link.  When they are not, deleted
  ids are counted but not kept.
\<close>

definition pool_inv ::
    "(grn_id \<Rightarrow> bool) \<Rightarrow> (grn_id \<Rightarrow> byte list) \<Rightarrow> bool \<Rightarrow> grn_id \<Rightarrow> grn_id \<Rightarrow> u32 \<Rightarrow> u32 \<Rightarrow> bool" where
  "pool_inv live val linked head mx ne ng \<longleftrightarrow>
     (\<exists>fs. chain (\<lambda>k. get_u32 (val k)) head fs \<and> distinct fs \<and> (\<forall>i \<in> set fs. \<not> live i) \<and>
        Collect live \<union> set fs \<subseteq> {1..mx} \<and> unat ne = card (Collect live) \<and>
        unat ne + unat ng = unat mx \<and> (if linked then unat ng = length fs else fs = []))"

lemma card_ids_upto: "card {1..mx :: grn_id} = unat mx"
proof -
  have "unat ` {1..mx} = {1..unat mx}"
  proof (intro equalityI subsetI)
    fix n assume "n \<in> {1..unat mx}"
    then have n: "1 \<le> n" "n \<le> unat mx" by auto
    then have un: "unat (of_nat n :: grn_id) = n"
      by (simp add: unat_of_nat take_bit_nat_eq_self_iff order_le_less_trans [OF _ unat_lt_2p32 [of mx]])
    then have "of_nat n \<in> {1..mx}"
      using n by (auto simp: word_le_nat_alt)
    then show "n \<in> unat ` {1..mx}"
      using un by (metis image_eqI)
  qed (auto simp: word_le_nat_alt)
  then have "card (unat ` {1..mx}) = unat mx" by simp
  moreover have "inj_on unat {1..mx}" by (simp add: inj_on_def unat_inj)
  ultimately show ?thesis by (simp add: card_image)
qed

lemma pool_live_bounds:
  assumes "pool_inv live val linked head mx ne ng" and "live i"
  shows "i \<noteq> GRN_ID_NIL" and "i \<le> mx"
proof -
  from assms have "i \<in> {1..mx}"
    unfolding pool_inv_def by blast
  then show "i \<le> mx" and "i \<noteq> GRN_ID_NIL" by auto
qed

lemma pool_no_garbage_all_live:
  assumes inv: "pool_inv live val linked head mx ne 0"
  shows "live i \<longleftrightarrow> i \<noteq> GRN_ID_NIL \<and> i \<le> mx"
proof -
  from inv have "Collect live \<subseteq> {1..mx}" and "card (Collect live) = card {1..mx}"
    unfolding pool_inv_def by (auto simp: card_ids_upto)
  then have "Collect live = {1..mx}"
    by (intro card_subset_eq) auto
  then show ?thesis
    by (auto simp: set_eq_iff word_le_nat_alt Suc_le_eq)
qed

lemma pool_inv_cong:
  assumes "\<And>i. live' i = live i" and "\<And>i. get_u32 (val' i) = get_u32 (val i)"
  shows "pool_inv live' val' linked head mx ne ng = pool_inv live val linked head mx ne ng"
proof -
  have "live' = live" and "(\<lambda>i. get_u32 (val' i)) = (\<lambda>i. get_u32 (val i))" using assms by auto
  then show ?thesis unfolding pool_inv_def by simp
qed

lemma pool_head:
  assumes "pool_inv live val linked head mx ne ng" and "head \<noteq> GRN_ID_NIL"
  shows "\<not> live head" and "head \<le> mx" and "linked" and "ng \<noteq> 0"
proof -
  from assms obtain fs where "chain (\<lambda>k. get_u32 (val k)) head fs" and fs: "\<forall>i \<in> set fs. \<not> live i"
    "Collect live \<union> set fs \<subseteq> {1..mx}" "if linked then unat ng = length fs else fs = []"
    unfolding pool_inv_def by blast
  then have "head \<in> set fs"
    using assms(2) chain_head_nonnil by fastforce
  with fs show "\<not> live head" "head \<le> mx" "linked" "ng \<noteq> 0"
    by (auto split: if_splits)
qed

lemma pool_init: "pool_inv (\<lambda>_. False) val linked GRN_ID_NIL 0 0 0"
  by (auto simp: pool_inv_def intro!: exI [of _ "[]"])

section \<open>The moves\<close>

lemma pool_extend:
  assumes inv: "pool_inv live val linked GRN_ID_NIL mx ne ng" and mx: "mx < mx + 1"
  shows "pool_inv (\<lambda>i. i = mx + 1 \<or> live i) val linked GRN_ID_NIL (mx + 1) (ne + 1) ng"
    and "\<not> live (mx + 1)"
proof -
  have ut: "unat (mx + 1) = Suc (unat mx)"
    using mx by (metis Suc_eq_plus1 less_imp_le unat_1 unat_plus_simple)
  show new: "\<not> live (mx + 1)"
    using pool_live_bounds(2) [OF inv] mx by (meson leD)
  from inv have sub: "Collect live \<subseteq> {1..mx}" and ne: "unat ne = card (Collect live)"
    and sum: "unat ne + unat ng = unat mx" and ng: "linked \<longrightarrow> unat ng = 0"
    unfolding pool_inv_def by (auto simp: chain_head_nil)
  have fin: "finite (Collect live)" by simp
  have "{i. i = mx + 1 \<or> live i} = insert (mx + 1) (Collect live)" by auto
  with new fin have card: "card {i. i = mx + 1 \<or> live i} = Suc (unat ne)" by (simp add: ne)
  have "unat ne < 2 ^ LENGTH(32) - 1"
    using ut sum unat_lt_2p32 [of "mx + 1"] by (simp del: unat_lt_2p32)
  then have "unat (ne + 1) = Suc (unat ne)" by (rule unat_Suc_no_wrap)
  moreover have "{i. i = mx + 1 \<or> live i} \<subseteq> {1..mx + 1}"
    using sub mx ut by (auto simp: word_le_nat_alt)
  ultimately show "pool_inv (\<lambda>i. i = mx + 1 \<or> live i) val linked GRN_ID_NIL (mx + 1) (ne + 1) ng"
    unfolding pool_inv_def using card sum ut ng by (intro exI [of _ "[]"]) auto
qed


lemma pool_reuse:
  assumes inv: "pool_inv live val linked head mx ne ng" and head: "head \<noteq> GRN_ID_NIL"
    and live': "\<And>j. live' j = (j = head \<or> live j)"
    and val': "\<And>j. j \<noteq> head \<Longrightarrow> val' j = val j"
  shows "pool_inv live' val' linked (get_u32 (val head)) mx (ne + 1) (ng - 1)"
proof -
  note hd = pool_head [OF inv head]
  from inv obtain fs where ch: "chain (\<lambda>k. get_u32 (val k)) head fs" and d: "distinct fs"
    and nl: "\<forall>i \<in> set fs. \<not> live i" and sub: "Collect live \<union> set fs \<subseteq> {1..mx}"
    and ne: "unat ne = card (Collect live)" and sum: "unat ne + unat ng = unat mx"
    and ng: "unat ng = length fs"
    using hd(3) unfolding pool_inv_def by auto
  from chain_head_nonnil [OF ch head] obtain gs where fs: "fs = head # gs"
    and tail: "chain (\<lambda>k. get_u32 (val k)) (get_u32 (val head)) gs" by blast
  have "chain (\<lambda>k. get_u32 (val' k)) (get_u32 (val head)) gs"
    using tail d fs
    by (subst chain_cong [of _ _ "\<lambda>k. get_u32 (val k)"]) (auto intro!: arg_cong [of _ _ get_u32] val')
  moreover have col: "Collect live' = insert head (Collect live)" using live' by auto
  moreover have "card (Collect live') = Suc (unat ne)"
    using hd(1) by (simp add: col ne)
  moreover have ne1: "unat (ne + 1) = Suc (unat ne)"
    using sum ng fs unat_lt_2p32 [of mx] by (intro unat_Suc_no_wrap) (simp del: unat_lt_2p32)
  moreover have "unat (ng - 1) = length gs"
    using ng fs by (simp add: unat_pred_no_wrap hd(4))
  ultimately show ?thesis
    unfolding pool_inv_def using d nl sub sum ng fs hd(3) live'
    by (intro exI [of _ gs]) auto
qed

lemma pool_delete:
  assumes inv: "pool_inv live val linked head mx ne ng" and live: "live i"
    and live': "\<And>j. live' j = (j \<noteq> i \<and> live j)"
    and val': "\<And>j. j \<noteq> i \<Longrightarrow> val' j = val j"
    and link: "linked \<Longrightarrow> get_u32 (val' i) = head \<and> head' = i" "\<not> linked \<Longrightarrow> head' = head"
  shows "pool_inv live' val' linked head' mx (ne - 1) (ng + 1)"
proof -
  from inv obtain fs where ch: "chain (\<lambda>k. get_u32 (val k)) head fs" and d: "distinct fs"
    and nl: "\<forall>i \<in> set fs. \<not> live i" and sub: "Collect live \<union> set fs \<subseteq> {1..mx}"
    and ne: "unat ne = card (Collect live)" and sum: "unat ne + unat ng = unat mx"
    and ng: "if linked then unat ng = length fs else fs = []"
    unfolding pool_inv_def by blast
  have i: "i \<notin> set fs" "i \<noteq> GRN_ID_NIL" using nl live pool_live_bounds(1) [OF inv live] by auto
  have "chain (\<lambda>k. get_u32 (val' k)) head fs"
    using ch i
    by (subst chain_cong [of _ _ "\<lambda>k. get_u32 (val k)"]) (auto intro!: arg_cong [of _ _ get_u32] val')
  then have ch': "chain (\<lambda>k. get_u32 (val' k)) head' (if linked then i # fs else [])"
    using link i ng by auto
  have col: "Collect live' = Collect live - {i}" using live' by auto
  have pos: "0 < card (Collect live)" using live by (auto simp: card_gt_0_iff)
  then have "0 < unat ne" using ne by linarith
  then have "ne \<noteq> 0" by simp
  then have ne1: "unat (ne - 1) = unat ne - 1" by (rule unat_pred_no_wrap)
  have "card (Collect live') = unat ne - 1" using live by (simp add: col ne)
  moreover have "unat (ng + 1) = Suc (unat ng)"
    using sum pos ne unat_lt_2p32 [of mx] by (intro unat_Suc_no_wrap) (simp del: unat_lt_2p32)
  ultimately show ?thesis
    unfolding pool_inv_def using d nl sub sum ng live' ch' ne1 i live pos ne
    by (intro exI [of _ "if linked then i # fs else []"]) (auto split: if_splits)
qed

lemma pool_set_value:
  assumes inv: "pool_inv live val linked head mx ne ng" and live: "live i"
    and val': "\<And>j. j \<noteq> i \<Longrightarrow> val' j = val j"
  shows "pool_inv live val' linked head mx ne ng"
proof -
  have "chain (\<lambda>k. get_u32 (val' k)) h fs = chain (\<lambda>k. get_u32 (val k)) h fs"
    if "\<forall>i \<in> set fs. \<not> live i" for h fs
    using that live by (intro chain_cong) (auto intro!: arg_cong [of _ _ get_u32] val')
  then show ?thesis
    using inv unfolding pool_inv_def by (metis (no_types, lifting))
qed

section \<open>Live ids in ascending order\<close>

text \<open>The live ids above \<open>c\<close> and up to \<open>t\<close>: what is left for a cursor at \<open>c\<close> with the tail \<open>t\<close>.\<close>

definition live_between :: "(grn_id \<Rightarrow> bool) \<Rightarrow> grn_id \<Rightarrow> grn_id \<Rightarrow> grn_id list" where
  "live_between live c t = sorted_list_of_set {j. c < j \<and> j \<le> t \<and> live j}"

lemma word_succ:
  assumes "(c :: grn_id) < t"
  shows "c + 1 \<le> t" and "c < j \<longleftrightarrow> c + 1 \<le> j" and "c < c + 1" and "c + 1 \<noteq> 0"
    and "unat (c + 1) = Suc (unat c)"
proof -
  have "unat c < unat t" using assms by (simp add: word_less_nat_alt)
  then have "unat c < 2 ^ LENGTH(32) - 1" using unat_lt_2p32 [of t] by (simp del: unat_lt_2p32)
  then show u: "unat (c + 1) = Suc (unat c)" by (rule unat_Suc_no_wrap)
  then show "c + 1 \<le> t" and "c < j \<longleftrightarrow> c + 1 \<le> j" and "c < c + 1" and "c + 1 \<noteq> 0"
    using \<open>unat c < unat t\<close> by (auto simp: word_less_nat_alt word_le_nat_alt Suc_le_eq)
qed

lemma live_between_step:
  assumes "c < t"
  shows "live_between live c t = (if live (c + 1) then (c + 1) # live_between live (c + 1) t else live_between live (c + 1) t)"
proof -
  note W = word_succ [OF assms]
  let ?S = "{j. c < j \<and> j \<le> t \<and> live j}" and ?T = "{j. c + 1 < j \<and> j \<le> t \<and> live j}"
  have T: "?S - {c + 1} = ?T" and ub: "\<forall>j \<in> ?S. c + 1 \<le> j" using W(2) by (auto simp: order_le_less)
  show ?thesis
  proof (cases "live (c + 1)")
    case True
    then have mem: "c + 1 \<in> ?S" using W by simp
    then have "Min ?S = c + 1" using ub by (intro Min_eqI) auto
    then have "sorted_list_of_set ?S = (c + 1) # sorted_list_of_set (?S - {c + 1})"
      using sorted_list_of_set_nonempty [of ?S] mem by auto
    then show ?thesis using True T by (simp add: live_between_def)
  next
    case False
    then have "?S = ?T" using T by auto
    then show ?thesis using False by (simp add: live_between_def)
  qed
qed

lemma live_between_empty: "live_between live t t = []"
proof -
  have "{j. t < j \<and> j \<le> t \<and> live j} = {}" by auto
  then show ?thesis by (simp add: live_between_def)
qed

section \<open>The storage interface\<close>

text \<open>
  \<open>grows s s'\<close>: the storage made room (a block, a segment) without changing what any record
  holds.
\<close>

locale record_pool = cell_store wf cells rd wr width + bit_store wf has_bit bit_of set_to
  for wf :: "'s \<Rightarrow> bool" and cells rd wr width has_bit bit_of set_to +
  fixes grows :: "'s \<Rightarrow> 's \<Rightarrow> bool"
  assumes grows_wf: "\<lbrakk>wf s; grows s s'\<rbrakk> \<Longrightarrow> wf s'"
    and grows_rd: "\<lbrakk>wf s; grows s s'\<rbrakk> \<Longrightarrow> rd s' j = rd s j"
    and grows_bit: "\<lbrakk>wf s; grows s s'\<rbrakk> \<Longrightarrow> bit_of s' j = bit_of s j"
    and grows_width: "\<lbrakk>wf s; grows s s'\<rbrakk> \<Longrightarrow> width s' = width s"
    and grows_has_bit: "\<lbrakk>wf s; grows s s'; has_bit s j\<rbrakk> \<Longrightarrow> has_bit s' j"
    and grows_cells: "\<lbrakk>wf s; grows s s'\<rbrakk> \<Longrightarrow> cells s \<subseteq> cells s'"
    and rd_set_to: "\<lbrakk>wf s; has_bit s i\<rbrakk> \<Longrightarrow> rd (set_to i b s) j = rd s j"
    and width_set_to: "\<lbrakk>wf s; has_bit s i\<rbrakk> \<Longrightarrow> width (set_to i b s) = width s"
    and bit_wr: "\<lbrakk>wf s; i \<in> cells s; length v = width s\<rbrakk> \<Longrightarrow> bit_of (wr i v s) j = bit_of s j"
    and width_wr: "\<lbrakk>wf s; i \<in> cells s; length v = width s\<rbrakk> \<Longrightarrow> width (wr i v s) = width s"
begin

lemma write_effect:
  assumes "wf s" and "grows s s1" and "i \<in> cells s1" and "length v = width s"
  shows "wf (wr i v s1)" and "rd (wr i v s1) j = (if j = i then v else rd s j)"
    and "bit_of (wr i v s1) j = bit_of s j" and "width (wr i v s1) = width s"
proof -
  have wf1: "wf s1" and w: "length v = width s1"
    using assms by (auto intro: grows_wf simp: grows_width [OF assms(1,2)])
  show "wf (wr i v s1)" by (rule wf_wr [OF wf1 assms(3) w])
  show "rd (wr i v s1) j = (if j = i then v else rd s j)"
    by (simp add: rd_wr [OF wf1 assms(3) w] grows_rd [OF assms(1,2)])
  show "bit_of (wr i v s1) j = bit_of s j"
    by (simp add: bit_wr [OF wf1 assms(3) w] grows_bit [OF assms(1,2)])
  show "width (wr i v s1) = width s"
    by (simp add: width_wr [OF wf1 assms(3) w] grows_width [OF assms(1,2)])
qed

lemma bit_effect:
  assumes "wf s" and "grows s s1" and "has_bit s1 i"
  shows "wf (set_to i b s1)" and "rd (set_to i b s1) j = rd s j"
    and "bit_of (set_to i b s1) j = (if j = i then b else bit_of s j)"
    and "width (set_to i b s1) = width s"
proof -
  note wf1 = grows_wf [OF assms(1,2)]
  show "wf (set_to i b s1)" by (rule bwf_set_to [OF wf1 assms(3)])
  show "rd (set_to i b s1) j = rd s j"
    by (simp add: rd_set_to [OF wf1 assms(3)] grows_rd [OF assms(1,2)])
  show "bit_of (set_to i b s1) j = (if j = i then b else bit_of s j)"
    by (simp add: bit_set_to [OF wf1 assms(3)] grows_bit [OF assms(1,2)])
  show "width (set_to i b s1) = width s"
    by (simp add: width_set_to [OF wf1 assms(3)] grows_width [OF assms(1,2)])
qed

lemma pool_inv_grows:
  "\<lbrakk>wf s; grows s s'\<rbrakk> \<Longrightarrow> pool_inv (bit_of s') (rd s') = pool_inv (bit_of s) (rd s)"
  by (intro ext pool_inv_cong) (simp_all add: grows_bit [of s s'] grows_rd [of s s'])

end

end
