(* ===== verification/ArrayCorrect.thy ===== *)
theory ArrayCorrect
  imports GrnArray ArrayPool
begin

text \<open>
  Correctness of \<^verbatim>\<open>grn_array\<close>.  A table is viewed as the records that are alive and the value of
  each (\<open>ar_contents\<close>), whichever storage it uses; the view makes the model's storage a
  \<open>record_pool\<close>, and the operations are shown to be the obvious operations on finite maps from
  ids to values.
\<close>

section \<open>The records of a table\<close>

definition array_capacity :: "grn_io \<Rightarrow> bool" where
  "array_capacity io \<longleftrightarrow>
     io_lseg io GRN_ARRAY_VALUE_SEGMENT (unat GRN_ARRAY_MAX) < max_n_segments (io_ainfo io ! GRN_ARRAY_VALUE_SEGMENT)
     \<and> io_lseg io GRN_ARRAY_BITMAP_SEGMENT (unat (bitmap_byte_id GRN_ARRAY_MAX))
         < max_n_segments (io_ainfo io ! GRN_ARRAY_BITMAP_SEGMENT)"

definition array_layout :: "nat \<Rightarrow> grn_io \<Rightarrow> bool" where
  "array_layout value_size io \<longleftrightarrow> io_wf io \<and> length (io_ainfo io) = 2
     \<and> value_size \<le> element_size (io_ainfo io ! GRN_ARRAY_VALUE_SEGMENT)
     \<and> element_size (io_ainfo io ! GRN_ARRAY_BITMAP_SEGMENT) = 1
     \<and> array_capacity io"

definition tiny_layout_ok :: "nat \<Rightarrow> tiny_array \<Rightarrow> bool" where
  "tiny_layout_ok value_size ta \<longleftrightarrow>
     tiny_wf ta \<and> ta_element_size ta = value_size \<and> (ta_use_malloc ta \<longrightarrow> ta_clear ta)"

definition ar_wf :: "grn_array \<Rightarrow> bool" where
  "ar_wf array = (case ar_io array of
     Some io \<Rightarrow> array_layout (ar_value_size array) io
   | None \<Rightarrow> tiny_layout_ok (ar_value_size array) (ar_array array) \<and> bitmap_wf (ar_bitmap array))"

definition ar_cells :: "grn_array \<Rightarrow> grn_id set" where
  "ar_cells array = (case ar_io array of
     Some io \<Rightarrow> io_cells GRN_ARRAY_VALUE_SEGMENT io | None \<Rightarrow> tiny_cells (ar_array array))"

definition ar_rd :: "grn_array \<Rightarrow> grn_id \<Rightarrow> byte list" where
  "ar_rd array rid = (case ar_io array of
     Some io \<Rightarrow> take (ar_value_size array) (io_rd GRN_ARRAY_VALUE_SEGMENT io rid)
   | None \<Rightarrow> tiny_rd (ar_array array) rid)"

definition ar_wr :: "grn_id \<Rightarrow> byte list \<Rightarrow> grn_array \<Rightarrow> grn_array" where
  "ar_wr rid v array = (case ar_io array of
     Some io \<Rightarrow> array\<lparr>ar_io := Some (io_wr GRN_ARRAY_VALUE_SEGMENT rid v io)\<rparr>
   | None \<Rightarrow> array\<lparr>ar_array := tiny_wr rid v (ar_array array)\<rparr>)"

definition ar_has_bit :: "grn_array \<Rightarrow> grn_id \<Rightarrow> bool" where
  "ar_has_bit array rid = (case ar_io array of
     Some io \<Rightarrow> io_has_bit GRN_ARRAY_BITMAP_SEGMENT io rid | None \<Rightarrow> bitmap_has (ar_bitmap array) rid)"

definition ar_bit :: "grn_array \<Rightarrow> grn_id \<Rightarrow> bool" where
  "ar_bit array rid = (case ar_io array of
     Some io \<Rightarrow> io_bit GRN_ARRAY_BITMAP_SEGMENT io rid | None \<Rightarrow> bitmap_bit (ar_bitmap array) rid)"

definition ar_set_bit :: "grn_id \<Rightarrow> bool \<Rightarrow> grn_array \<Rightarrow> grn_array" where
  "ar_set_bit rid b array = (case ar_io array of
     Some io \<Rightarrow> array\<lparr>ar_io := Some (io_set_bit GRN_ARRAY_BITMAP_SEGMENT rid b io)\<rparr>
   | None \<Rightarrow> array\<lparr>ar_bitmap := bitmap_set rid b (ar_bitmap array)\<rparr>)"

text \<open>The address of a record.\<close>

definition ar_ptr :: "grn_array \<Rightarrow> grn_id \<Rightarrow> entry_ptr" where
  "ar_ptr array rid = (case ar_io array of
     Some io \<Rightarrow> IoPtr (io_addr_of io GRN_ARRAY_VALUE_SEGMENT (unat rid))
   | None \<Rightarrow> TinyPtr (tiny_addr_of rid))"

text \<open>A record is backed when its value and its bit have memory behind them, mapped or not.\<close>

definition ar_backed :: "grn_array \<Rightarrow> grn_id \<Rightarrow> bool" where
  "ar_backed array rid = (case ar_io array of
     Some io \<Rightarrow> seg io GRN_ARRAY_VALUE_SEGMENT (io_lseg io GRN_ARRAY_VALUE_SEGMENT (unat rid)) \<noteq> 0
       \<and> seg io GRN_ARRAY_BITMAP_SEGMENT (io_lseg io GRN_ARRAY_BITMAP_SEGMENT (unat (bitmap_byte_id rid))) \<noteq> 0
   | None \<Rightarrow> rid \<in> tiny_cells (ar_array array) \<and> bitmap_has (ar_bitmap array) rid)"

lemmas ar_view_defs = ar_cells_def ar_rd_def ar_wr_def ar_has_bit_def ar_bit_def ar_set_bit_def

text \<open>Growth of the storage: what every record holds, and the bookkeeping, are as before.\<close>

definition ar_meta :: "grn_array \<Rightarrow> nat \<times> u32 \<times> u32 \<times> grn_id \<times> u32 \<times> u32 \<times> grn_id list \<times> bool" where
  "ar_meta array = (ar_value_size array, ar_n_garbages array, ar_n_entries array, ar_garbages array,
     ar_status array, ar_n_garbages_in_buffer array, ar_garbages_buffer array, ar_io array = None)"

definition ar_grows :: "grn_array \<Rightarrow> grn_array \<Rightarrow> bool" where
  "ar_grows a a' \<longleftrightarrow> ar_wf a' \<and> (\<forall>j. ar_rd a' j = ar_rd a j) \<and> (\<forall>j. ar_bit a' j = ar_bit a j)
     \<and> (\<forall>j. ar_has_bit a j \<longrightarrow> ar_has_bit a' j) \<and> ar_cells a \<subseteq> ar_cells a'
     \<and> (\<forall>j \<in> ar_cells a. ar_ptr a' j = ar_ptr a j) \<and> (\<forall>j. ar_backed a j \<longrightarrow> ar_backed a' j)
     \<and> ar_meta a' = ar_meta a \<and> grn_array_get_max_id a' = grn_array_get_max_id a"

lemma ar_grows_refl: "ar_wf a \<Longrightarrow> ar_grows a a"
  by (simp add: ar_grows_def)

lemma ar_grows_trans: "ar_grows a b \<Longrightarrow> ar_grows b c \<Longrightarrow> ar_grows a c"
  by (auto simp: ar_grows_def)

text \<open>The interpretation is what the lemmas on either storage promise.\<close>

lemma io_value_write:
  assumes "array_layout n io" and "i \<in> io_cells 0 io" and "length v = n"
  shows "array_layout n (io_wr 0 i v io)"
    and "take n (io_rd 0 (io_wr 0 i v io) j) = (if j = i then v else take n (io_rd 0 io j))"
    and "io_bit 1 (io_wr 0 i v io) j = io_bit 1 io j"
    and "io_has_bit 1 (io_wr 0 i v io) j = io_has_bit 1 io j"
    and "io_cells 0 (io_wr 0 i v io) = io_cells 0 io"
  using assms
  by (simp_all add: array_layout_def array_capacity_def io_lseg_def array_segments io_cell_defs
      io_wf_write io_elem_write unat_inj io_bit_def io_has_bit_def)

lemma io_bitmap_write:
  assumes "array_layout n io" and "io_has_bit 1 io i"
  shows "array_layout n (io_set_bit 1 i b io)"
    and "io_rd 0 (io_set_bit 1 i b io) j = io_rd 0 io j"
    and "io_bit 1 (io_set_bit 1 i b io) j = (if j = i then b else io_bit 1 io j)"
    and "io_has_bit 1 (io_set_bit 1 i b io) j = io_has_bit 1 io j"
proof -
  have "io_bitmap_wf 1 io"
    using assms(1) by (simp add: array_layout_def io_bitmap_wf_def io_array_wf_def array_segments)
  then show "io_bit 1 (io_set_bit 1 i b io) j = (if j = i then b else io_bit 1 io j)"
    "io_has_bit 1 (io_set_bit 1 i b io) j = io_has_bit 1 io j"
    using assms(2) by (simp_all add: iob.bit_set_to iob.has_bit_set_to)
  show "array_layout n (io_set_bit 1 i b io)" "io_rd 0 (io_set_bit 1 i b io) j = io_rd 0 io j"
    using assms
    by (simp_all add: array_layout_def array_capacity_def io_lseg_def array_segments io_cell_defs
        io_set_bit_def io_has_bit_def io_wf_write io_elem_write)
qed

lemma ar_write:
  assumes "ar_wf s" and "i \<in> ar_cells s" and "length v = ar_value_size s"
  shows "ar_wf (ar_wr i v s)" and "ar_rd (ar_wr i v s) j = (if j = i then v else ar_rd s j)"
    and "ar_cells (ar_wr i v s) = ar_cells s" and "ar_bit (ar_wr i v s) j = ar_bit s j"
    and "ar_value_size (ar_wr i v s) = ar_value_size s"
  using assms
  by (auto simp: ar_wf_def ar_view_defs io_value_write array_segments tiny_layout_ok_def
      ta.rd_wr ta.wf_wr ta.cells_wr simp del: One_nat_def split: option.splits)

lemma ar_set:
  assumes "ar_wf s" and "ar_has_bit s i"
  shows "ar_wf (ar_set_bit i b s)" and "ar_rd (ar_set_bit i b s) j = ar_rd s j"
    and "ar_bit (ar_set_bit i b s) j = (if j = i then b else ar_bit s j)"
    and "ar_has_bit (ar_set_bit i b s) j = ar_has_bit s j"
    and "ar_value_size (ar_set_bit i b s) = ar_value_size s"
  using assms
  by (auto simp: ar_wf_def ar_view_defs io_bitmap_write array_segments
      tb.bwf_set_to tb.bit_set_to tb.has_bit_set_to simp del: One_nat_def split: option.splits)

lemma ar_rd_length: "ar_wf s \<Longrightarrow> length (ar_rd s i) = ar_value_size s"
  by (auto simp: ar_wf_def ar_rd_def array_layout_def tiny_layout_ok_def io_rd_def ta.width_rd array_segments
      split: option.splits)

interpretation ar: record_pool ar_wf ar_cells ar_rd ar_wr ar_value_size ar_has_bit ar_bit ar_set_bit ar_grows
  by unfold_locales (simp_all add: ar_write ar_set ar_rd_length ar_grows_def ar_meta_def)

section \<open>The model's storage accesses in terms of the view\<close>

lemma io_write_full:
  assumes "length v \<le> n"
  shows "io_write p (v @ drop (length v) (io_read io p n)) io = io_write p v io"
proof -
  have "io_mem (io_write p (v @ drop (length v) (io_read io p n)) io) = io_mem (io_write p v io)"
    using assms by (intro ext) (auto simp: io_mem_write io_read_def nth_append)
  then show ?thesis by (simp add: io_write_def)
qed

lemma io_elem_mapped:
  assumes "io_wf io" and "k < length (io_ainfo io)" and "io_mapped io k i" and "n \<le> element_size (io_ainfo io ! k)"
  shows "io_read io (io_addr_of io k i) n = take n (io_elem io k i)"
  using io_wfD(3) [OF assms(1,2), of "io_lseg io k i"] assms(3,4)
  by (auto simp: io_mapped_def io_elem_def io_read_def take_map)

lemma entry_write_view:
  assumes wf: "ar_wf a" and rid: "rid \<in> ar_cells a" and len: "length v \<le> ar_value_size a"
  shows "entry_write (ar_ptr a rid) v a = ar_wr rid (v @ drop (length v) (ar_rd a rid)) a"
proof (cases "ar_io a")
  case None
  with rid show ?thesis
    by (simp add: ar_ptr_def ar_wr_def ar_rd_def ar_cells_def tiny_wr_def tiny_rd_def)
next
  case (Some io)
  with wf rid have "io_read io (io_addr_of io 0 (unat rid)) (ar_value_size a) = ar_rd a rid"
    by (simp add: ar_rd_def ar_wf_def array_layout_def ar_cells_def io_cells_def io_rd_def
        array_segments io_elem_mapped)
  with Some len io_write_full [OF len, of "io_addr_of io 0 (unat rid)" io] show ?thesis
    by (simp add: ar_ptr_def ar_wr_def io_wr_def the_io_def array_segments)
qed

lemma entry_read_view:
  assumes wf: "ar_wf a" and rid: "rid \<in> ar_cells a" and n: "n \<le> ar_value_size a"
  shows "entry_read a (ar_ptr a rid) n = take n (ar_rd a rid)"
proof (cases "ar_io a")
  case None
  with rid show ?thesis
    by (simp add: ar_ptr_def ar_rd_def ar_cells_def tiny_rd_def)
next
  case (Some io)
  with wf rid n show ?thesis
    by (simp add: ar_ptr_def ar_rd_def ar_wf_def array_layout_def ar_cells_def io_cells_def io_rd_def
        array_segments io_elem_mapped the_io_def min_absorb1)
qed

lemma same_contents_grows:
  assumes io: "ar_io a = Some io" and wf: "ar_wf a" and same: "same_contents io io'" and wf': "io_wf io'"
  shows "ar_grows a (a\<lparr>ar_io := Some io'\<rparr>)"
proof -
  from wf io have len: "length (io_ainfo io) = 2" by (simp add: ar_wf_def array_layout_def)
  then have k: "0 < length (io_ainfo io)" "1 < length (io_ainfo io)" by auto
  note D = same_contentsD [OF same]
  have mapped: "io_mapped io 0 i \<Longrightarrow> seg io 0 (io_lseg io 0 i) \<noteq> 0" for i
    using io_wfD(3) [OF _ k(1)] wf io by (auto simp: ar_wf_def array_layout_def io_mapped_def)
  show ?thesis
    using io wf wf' len D(1-4,6) [OF k(1)] D(1-4,6) [OF k(2)] D(5,7,8) [OF k(1)] D(5,8) [OF k(2)] mapped
    by (auto simp: ar_ptr_def ar_backed_def ar_has_bit_def io_has_bit_def ar_cells_def io_cells_def ar_grows_def ar_wf_def array_layout_def array_capacity_def io_lseg_def array_segments
        ar_rd_def io_rd_def ar_bit_def io_bit_def ar_meta_def grn_array_get_max_id_def
        grn_array_is_io_array_def)
qed

lemma io_entry_at_view:
  assumes io: "ar_io a \<noteq> None" and wf: "ar_wf a" and at: "grn_array_io_entry_at env a rid add = (a', p)"
  shows "ar_grows a a'" and "p = Some e \<Longrightarrow> e = ar_ptr a' rid \<and> rid \<in> ar_cells a'"
proof -
  from io obtain io0 where io0: "ar_io a = Some io0" by blast
  obtain io' q where q: "grn_io_array_at (ae_io env) io0 0 (unat rid) add = (io', q)" by fastforce
  from wf io0 have w: "io_wf io0" "0 < length (io_ainfo io0)" by (auto simp: ar_wf_def array_layout_def)
  note ok = grn_io_array_at_ok [OF q w]
  have a': "a' = a\<lparr>ar_io := Some io'\<rparr>" and p: "p = map_option IoPtr q"
    using at q io0 by (auto simp: grn_array_io_entry_at_def the_io_def array_segments)
  show "ar_grows a a'"
    unfolding a' by (rule same_contents_grows [OF io0 wf ok(2,1)])
  show "p = Some e \<Longrightarrow> e = ar_ptr a' rid \<and> rid \<in> ar_cells a'"
    using ok(3) by (auto simp: p a' ar_ptr_def ar_cells_def io_cells_def array_segments)
qed

lemma entry_at_view:
  assumes wf: "ar_wf a" and at: "grn_array_entry_at env a rid add = (a', p)"
    and le: "rid \<le> grn_array_get_max_id a"
  shows "ar_grows a a'" and "p = Some e \<Longrightarrow> e = ar_ptr a' rid \<and> rid \<in> ar_cells a'"
proof -
  have "ar_grows a a' \<and> (p = Some e \<longrightarrow> e = ar_ptr a' rid \<and> rid \<in> ar_cells a')"
  proof (cases "ar_io a")
    case (Some io)
    then show ?thesis
      using io_entry_at_view [OF _ wf] at by (auto simp: grn_array_entry_at_def grn_array_is_io_array_def)
  next
    case None
    obtain ta q where q: "grn_tiny_array_at (ae_alloc_array env) (ar_array a) rid = (ta, q)" by fastforce
    have a': "a' = a\<lparr>ar_array := ta\<rparr>" and p: "p = map_option TinyPtr q"
      using at q None by (auto simp: grn_array_entry_at_def grn_array_is_io_array_def)
    show ?thesis
    proof (cases "rid = GRN_ID_NIL \<or> q = None")
      case True
      then have "ta = ar_array a" "q = None"
        using q tiny_put_NoneD [of "ae_alloc_array env" "ar_array a" rid ta] wf None
        by (auto simp: grn_tiny_array_at_def ar_wf_def tiny_layout_ok_def split: if_splits)
      then show ?thesis by (simp add: a' p ar_grows_refl wf)
    next
      case False
      then obtain e' where e': "q = Some e'" and nz: "rid \<noteq> GRN_ID_NIL" by blast
      with q have put: "grn_tiny_array_put (ae_alloc_array env) (ar_array a) rid = (ta, Some e')"
        by (simp add: grn_tiny_array_at_def)
      have twf: "tiny_wf (ar_array a)" using wf None by (simp add: ar_wf_def tiny_layout_ok_def)
      note D = tiny_put_SomeD [OF put twf nz]
      have "ta_max ta = ta_max (ar_array a)"
        using D(6) le None by (simp add: grn_array_get_max_id_def grn_array_is_io_array_def max_absorb1)
      then show ?thesis
        using D(1-5,7-9) wf None
        by (auto simp: a' p e' ar_grows_def ar_backed_def ar_has_bit_def ar_wf_def tiny_layout_ok_def ar_rd_def ar_bit_def ar_meta_def
            grn_array_get_max_id_def grn_array_is_io_array_def ar_ptr_def ar_cells_def)
    qed
  qed
  then show "ar_grows a a'" and "p = Some e \<Longrightarrow> e = ar_ptr a' rid \<and> rid \<in> ar_cells a'" by auto
qed

lemma io_bit_read:
  assumes "array_layout n io" and "io_has_bit 1 io rid"
  shows "byte_get_bit (io_read io (io_addr_of io 1 (unat (bitmap_byte_id rid))) 1 ! 0) rid
           = (if io_bit 1 io rid then 1 else 0)"
proof -
  have "io_read io (io_addr_of io 1 (unat (bitmap_byte_id rid))) 1
          = take 1 (io_elem io 1 (unat (bitmap_byte_id rid)))"
    using assms by (intro io_elem_mapped) (auto simp: array_layout_def array_segments io_has_bit_def)
  then show ?thesis
    by (simp add: byte_get_bit_01 io_bit_def)
qed

lemma io_bitmap_at_view:
  assumes io: "ar_io a = Some io" and wf: "ar_wf a"
    and at: "grn_io_array_at env io 1 (unat (bitmap_byte_id rid)) add = (io', p)"
  shows "ar_grows a (a\<lparr>ar_io := Some io'\<rparr>)"
    and "p = Some e \<Longrightarrow> e = io_addr_of io' 1 (unat (bitmap_byte_id rid)) \<and> io_has_bit 1 io' rid"
    and "array_layout (ar_value_size a) io'"
proof -
  have w: "io_wf io" "1 < length (io_ainfo io)" using io wf by (auto simp: ar_wf_def array_layout_def)
  note ok = grn_io_array_at_ok [OF at w]
  show g: "ar_grows a (a\<lparr>ar_io := Some io'\<rparr>)" by (rule same_contents_grows [OF io wf ok(2,1)])
  show "p = Some e \<Longrightarrow> e = io_addr_of io' 1 (unat (bitmap_byte_id rid)) \<and> io_has_bit 1 io' rid"
    using ok(3) by (auto simp: io_has_bit_def)
  show "array_layout (ar_value_size a) io'"
    using g by (simp add: ar_grows_def ar_wf_def)
qed

lemma tiny_bitmap_grows:
  assumes "ar_io a = None" and "ar_wf a"
  shows "ar_grows a (a\<lparr>ar_bitmap := bitmap_grow (ar_bitmap a) rid\<rparr>)"
    and "ar_has_bit (a\<lparr>ar_bitmap := bitmap_grow (ar_bitmap a) rid\<rparr>) rid"
proof -
  have wf: "bitmap_wf (ar_bitmap a)" using assms by (simp add: ar_wf_def)
  note G = bitmap_grow_props [OF wf]
  show "ar_grows a (a\<lparr>ar_bitmap := bitmap_grow (ar_bitmap a) rid\<rparr>)"
    using assms G(1) [of rid]
    by (simp add: ar_grows_def ar_wf_def ar_view_defs ar_ptr_def ar_backed_def ar_meta_def grn_array_get_max_id_def
        grn_array_is_io_array_def G(3,4))
  show "ar_has_bit (a\<lparr>ar_bitmap := bitmap_grow (ar_bitmap a) rid\<rparr>) rid"
    using assms G(2) by (simp add: ar_has_bit_def)
qed

text \<open>Probing the bitmap reports the bit, or \<open>-1\<close> when the storage cannot be reached.\<close>

lemma bitmap_at_view:
  assumes wf: "ar_wf a" and at: "grn_array_bitmap_at env a rid = (a', b)"
    and link: "ar_io a \<noteq> None \<Longrightarrow> grn_array_can_use_value_for_garbage a"
  shows "ar_grows a a'" and "b \<noteq> - 1 \<Longrightarrow> b = (if ar_bit a rid then 1 else 0) \<and> ar_has_bit a' rid"
proof -
  have "ar_grows a a' \<and> (b \<noteq> - 1 \<longrightarrow> b = (if ar_bit a rid then 1 else 0) \<and> ar_has_bit a' rid)"
  proof (cases "ar_io a")
    case None
    have "bitmap_wf (ar_bitmap a)" using wf None by (simp add: ar_wf_def)
    then have at': "(a', b) = (if bitmap_has (ar_bitmap a) rid \<or> alloc_ok (ae_alloc_bitmap env) (fst (bitmap_addr_of rid))
        then (a\<lparr>ar_bitmap := bitmap_grow (ar_bitmap a) rid\<rparr>, if ar_bit a rid then 1 else 0) else (a, - 1))"
      unfolding at [symmetric]
      by (simp add: grn_array_bitmap_at_def grn_array_is_io_array_def None bitmap_put_eq ar_bit_def)
    then show ?thesis
      using tiny_bitmap_grows [OF None wf, of rid] ar_grows_refl [OF wf] by (auto split: if_splits)
  next
    case (Some io)
    obtain io' q where q: "grn_io_array_at (ae_io env) io 1 (unat (bitmap_byte_id rid)) False = (io', q)"
      by fastforce
    note V = io_bitmap_at_view [OF Some wf q]
    have a': "a' = a\<lparr>ar_io := Some io'\<rparr>"
      and b: "b = (case q of None \<Rightarrow> - 1 | Some ptr \<Rightarrow> byte_get_bit (io_read io' ptr 1 ! 0) rid)"
      using at Some link q
      by (auto simp: grn_array_bitmap_at_def grn_array_is_io_array_def grn_io_array_bit_at_def the_io_def
          array_segments grn_array_can_use_value_for_garbage_def Let_def split: option.splits)
    have "io_bit 1 io' rid = ar_bit a rid"
      using V(1) by (simp add: ar_grows_def ar_bit_def array_segments)
    then show ?thesis
      using V io_bit_read [OF V(3), of rid]
      by (auto simp: a' b ar_has_bit_def array_segments split: option.splits)
  qed
  then show "ar_grows a a'" and "b \<noteq> - 1 \<Longrightarrow> b = (if ar_bit a rid then 1 else 0) \<and> ar_has_bit a' rid"
    by auto
qed

lemma io_bit_on_view:
  assumes io: "ar_io a \<noteq> None" and wf: "ar_wf a" and on: "grn_array_bit_on env a rid = (a', ok)"
  shows "\<not> ok \<Longrightarrow> ar_grows a a'"
    and "ok \<Longrightarrow> \<exists>a1. ar_grows a a1 \<and> ar_has_bit a1 rid \<and> a' = ar_set_bit rid True a1"
proof -
  from io obtain io0 where io0: "ar_io a = Some io0" by blast
  obtain io' q where q: "grn_io_array_at (ae_io env) io0 1 (unat (bitmap_byte_id rid)) True = (io', q)"
    by fastforce
  note V = io_bitmap_at_view [OF io0 wf q]
  have *: "if ok then ar_has_bit (a\<lparr>ar_io := Some io'\<rparr>) rid \<and> a' = ar_set_bit rid True (a\<lparr>ar_io := Some io'\<rparr>)
      else a' = a\<lparr>ar_io := Some io'\<rparr>"
    using on q io0 V(2,3) io_elem_mapped [of io' 1 "unat (bitmap_byte_id rid)" 1]
    by (auto simp: grn_array_bit_on_def grn_io_array_bit_on_def the_io_def array_segments ar_has_bit_def
        ar_set_bit_def io_set_bit_def io_has_bit_def array_layout_def split: option.splits)
  then show "\<not> ok \<Longrightarrow> ar_grows a a'"
    and "ok \<Longrightarrow> \<exists>a1. ar_grows a a1 \<and> ar_has_bit a1 rid \<and> a' = ar_set_bit rid True a1"
    using V(1) by auto
qed

lemma io_bit_off_view:
  assumes io: "ar_io a \<noteq> None" and wf: "ar_wf a"
  shows "\<exists>a1. ar_grows a a1 \<and> (grn_array_bit_off env a rid = a1
           \<or> (ar_has_bit a1 rid \<and> grn_array_bit_off env a rid = ar_set_bit rid False a1))"
    and "ar_has_bit a rid \<Longrightarrow> unat (bitmap_byte_id rid) \<le> unat (bitmap_byte_id GRN_ARRAY_MAX) \<Longrightarrow>
         \<exists>a1. ar_grows a a1 \<and> ar_has_bit a1 rid \<and> grn_array_bit_off env a rid = ar_set_bit rid False a1"
proof -
  from io obtain io0 where io0: "ar_io a = Some io0" by blast
  obtain io' q where q: "grn_io_array_at (ae_io env) io0 1 (unat (bitmap_byte_id rid)) True = (io', q)"
    by fastforce
  note V = io_bitmap_at_view [OF io0 wf q]
  let ?a = "a\<lparr>ar_io := Some io'\<rparr>"
  have *: "if q = None then grn_array_bit_off env a rid = ?a
      else ar_has_bit ?a rid \<and> grn_array_bit_off env a rid = ar_set_bit rid False ?a"
    using q io0 V(2,3) io_elem_mapped [of io' 1 "unat (bitmap_byte_id rid)" 1]
    by (auto simp: grn_array_bit_off_def grn_io_array_bit_off_def the_io_def array_segments ar_has_bit_def
        ar_set_bit_def io_set_bit_def io_has_bit_def array_layout_def split: option.splits)
  with V(1) show "\<exists>a1. ar_grows a a1 \<and> (grn_array_bit_off env a rid = a1
           \<or> (ar_has_bit a1 rid \<and> grn_array_bit_off env a rid = ar_set_bit rid False a1))"
    by (metis (full_types))
  assume has: "ar_has_bit a rid" and le: "unat (bitmap_byte_id rid) \<le> unat (bitmap_byte_id GRN_ARRAY_MAX)"
  have w: "io_wf io0" "1 < length (io_ainfo io0)" "array_capacity io0"
    using io0 wf by (auto simp: ar_wf_def array_layout_def)
  have "q \<noteq> None"
  proof (rule grn_io_array_at_ok(4) [OF q w(1,2)])
    show "io_mapped io0 1 (unat (bitmap_byte_id rid))"
      using has io0 by (simp add: ar_has_bit_def io_has_bit_def array_segments)
    show "unat (bitmap_byte_id rid) div 2 ^ w_of_elm_in_a_segment (io_ainfo io0 ! 1)
        < max_n_segments (io_ainfo io0 ! 1)"
      using w(3) by (intro order_le_less_trans [OF div_le_mono [OF le]])
        (simp add: array_capacity_def io_lseg_def array_segments)
  qed
  with * V(1) show "\<exists>a1. ar_grows a a1 \<and> ar_has_bit a1 rid \<and> grn_array_bit_off env a rid = ar_set_bit rid False a1"
    by auto
qed

section \<open>The invariant and the contents of a table\<close>

text \<open>
  The ids kept for reuse are in the values themselves (\<open>linked\<close>) or, in a tiny array with short
  values, not kept at all; the buffer of a file with short values is treated apart.  Records that
  were never handed out read as zeros.
\<close>

definition array_ok :: "grn_array \<Rightarrow> bool" where
  "array_ok a \<longleftrightarrow> ar_wf a
     \<and> (ar_io a \<noteq> None \<longrightarrow> grn_array_can_use_value_for_garbage a \<and> grn_array_get_max_id a \<le> GRN_ARRAY_MAX)
     \<and> pool_inv (ar_bit a) (ar_rd a) (grn_array_can_use_value_for_garbage a) (ar_garbages a)
         (grn_array_get_max_id a) (ar_n_entries a) (ar_n_garbages a)
     \<and> (\<forall>j. grn_array_get_max_id a < j \<longrightarrow> ar_rd a j = replicate (ar_value_size a) 0)
     \<and> (\<forall>j. j \<noteq> GRN_ID_NIL \<and> j \<le> grn_array_get_max_id a \<longrightarrow> ar_backed a j)"

definition ar_contents :: "grn_array \<Rightarrow> grn_id \<Rightarrow> byte list option" where
  "ar_contents a rid = (if ar_bit a rid then Some (ar_rd a rid) else None)"

lemma array_okD:
  assumes "array_ok a"
  shows "ar_wf a"
    and "pool_inv (ar_bit a) (ar_rd a) (grn_array_can_use_value_for_garbage a) (ar_garbages a)
           (grn_array_get_max_id a) (ar_n_entries a) (ar_n_garbages a)"
    and "ar_io a \<noteq> None \<Longrightarrow> grn_array_can_use_value_for_garbage a"
    and "ar_io a \<noteq> None \<Longrightarrow> grn_array_get_max_id a \<le> GRN_ARRAY_MAX"
    and "grn_array_get_max_id a < j \<Longrightarrow> ar_rd a j = replicate (ar_value_size a) 0"
    and "j \<noteq> GRN_ID_NIL \<Longrightarrow> j \<le> grn_array_get_max_id a \<Longrightarrow> ar_backed a j"
  using assms by (simp_all add: array_ok_def)

lemma ar_contents_dom: "dom (ar_contents a) = Collect (ar_bit a)"
  by (auto simp: ar_contents_def dom_def)

lemma ar_metaD:
  assumes "ar_meta a' = ar_meta a"
  shows "ar_value_size a' = ar_value_size a" and "ar_n_garbages a' = ar_n_garbages a"
    and "ar_n_entries a' = ar_n_entries a" and "ar_garbages a' = ar_garbages a"
    and "ar_status a' = ar_status a" and "ar_io a' = None \<longleftrightarrow> ar_io a = None"
    and "grn_array_is_io_array a' = grn_array_is_io_array a"
    and "grn_array_can_use_value_for_garbage a' = grn_array_can_use_value_for_garbage a"
    and "grn_array_error_if_truncated a' = grn_array_error_if_truncated a"
  using assms
  by (auto simp: ar_meta_def grn_array_is_io_array_def grn_array_can_use_value_for_garbage_def
      grn_array_error_if_truncated_def)

lemma ar_growsD:
  assumes "ar_grows a a'"
  shows "ar_wf a'" and "ar_rd a' = ar_rd a" and "ar_bit a' = ar_bit a" and "ar_meta a' = ar_meta a"
    and "grn_array_get_max_id a' = grn_array_get_max_id a" and "ar_contents a' = ar_contents a"
    and "ar_has_bit a j \<Longrightarrow> ar_has_bit a' j" and "j \<in> ar_cells a \<Longrightarrow> j \<in> ar_cells a'"
    and "j \<in> ar_cells a \<Longrightarrow> ar_ptr a' j = ar_ptr a j" and "ar_backed a j \<Longrightarrow> ar_backed a' j"
  using assms by (auto simp: ar_grows_def ar_contents_def)

lemma array_ok_grows: "array_ok a \<Longrightarrow> ar_grows a a' \<Longrightarrow> array_ok a'"
  using ar_growsD [of a a'] ar_metaD [of a' a] by (simp add: array_ok_def)

lemma bitmap_has_set [simp]: "bitmap_has (bitmap_set i b s) j = bitmap_has s j"
  by (cases "fst (bitmap_addr_of i) < length (tb_blocks s)"; cases "fst (bitmap_addr_of j) = fst (bitmap_addr_of i)")
    (auto simp: bitmap_has_def bitmap_set_def bitmap_write_def list_update_beyond)

lemma ar_backed_updates [simp]:
  "ar_backed (ar_wr i v a) j = ar_backed a j" "ar_backed (ar_set_bit i b a) j = ar_backed a j"
  by (auto simp: ar_backed_def ar_wr_def io_wr_def ar_set_bit_def io_set_bit_def io_lseg_def tiny_cells_wr
      split: option.splits)

lemma ar_cell_backed:
  assumes "ar_wf a" and "rid \<in> ar_cells a" and "ar_has_bit a rid"
  shows "ar_backed a rid"
proof (cases "ar_io a")
  case None
  then show ?thesis using assms by (simp add: ar_backed_def ar_cells_def ar_has_bit_def)
next
  case (Some io)
  then have w: "io_wf io" "0 < length (io_ainfo io)" "1 < length (io_ainfo io)"
    using assms(1) by (auto simp: ar_wf_def array_layout_def)
  show ?thesis
    using Some assms(2,3) io_wfD(3) [OF w(1,2)] io_wfD(3) [OF w(1,3)]
    by (auto simp: ar_backed_def ar_cells_def io_cells_def ar_has_bit_def io_has_bit_def io_mapped_def
        array_segments)
qed

lemma array_ok_bitmap_at:
  assumes "array_ok a" and "grn_array_bitmap_at env a rid = (a', b)"
  shows "ar_grows a a'" and "b = 1 \<Longrightarrow> ar_bit a rid \<and> ar_has_bit a' rid" and "b \<noteq> 1 \<Longrightarrow> b = -1 \<or> \<not> ar_bit a rid"
  using bitmap_at_view [of a env rid a' b] assms by (auto simp: array_ok_def split: if_splits)

lemma wal_touch_meta:
  assumes "grn_io_array_wal_touch env a = (a', rc)"
  obtains t where "a' = a\<lparr>ar_wal_touched := t\<rparr>"
proof (cases "a' = a")
  case True
  then show ?thesis using that [of "ar_wal_touched a"] by simp
next
  case False
  with assms show ?thesis
    using that by (auto simp: grn_io_array_wal_touch_def Let_def split: if_splits)
qed

text \<open>The records depend on the storage only, not on the bookkeeping.\<close>

lemma ar_view_cong:
  assumes "ar_io a' = ar_io a" and "ar_array a' = ar_array a" and "ar_bitmap a' = ar_bitmap a"
    and "ar_value_size a' = ar_value_size a"
  shows "ar_wf a' = ar_wf a" and "ar_rd a' = ar_rd a" and "ar_bit a' = ar_bit a"
    and "ar_cells a' = ar_cells a" and "ar_has_bit a' = ar_has_bit a" and "ar_ptr a' = ar_ptr a"
    and "ar_backed a' = ar_backed a"
    and "grn_array_is_io_array a' = grn_array_is_io_array a"
    and "grn_array_can_use_value_for_garbage a' = grn_array_can_use_value_for_garbage a"
  using assms
  by (auto simp: ar_wf_def ar_view_defs ar_ptr_def ar_backed_def fun_eq_iff grn_array_is_io_array_def
      grn_array_can_use_value_for_garbage_def split: option.splits)

lemmas view_fields [simp] =
  ar_view_cong [where a' = "a\<lparr>ar_wal_touched := t\<rparr>" and a = a for a t, simplified]
  ar_view_cong [where a' = "a\<lparr>ar_garbages := t\<rparr>" and a = a for a t, simplified]
  ar_view_cong [where a' = "a\<lparr>ar_n_garbages := t\<rparr>" and a = a for a t, simplified]
  ar_view_cong [where a' = "a\<lparr>ar_n_entries := t\<rparr>" and a = a for a t, simplified]
  ar_view_cong [where a' = "a\<lparr>ar_curr_rec := t\<rparr>" and a = a for a t, simplified]

lemma max_id_fields [simp]:
  "grn_array_get_max_id (a\<lparr>ar_wal_touched := t\<rparr>) = grn_array_get_max_id a"
  "grn_array_get_max_id (a\<lparr>ar_garbages := g\<rparr>) = grn_array_get_max_id a"
  "grn_array_get_max_id (a\<lparr>ar_n_garbages := n\<rparr>) = grn_array_get_max_id a"
  "grn_array_get_max_id (a\<lparr>ar_n_entries := n\<rparr>) = grn_array_get_max_id a"
  by (simp_all add: grn_array_get_max_id_def grn_array_is_io_array_def)

lemma ar_wr_fields [simp]:
  "ar_meta (ar_wr i v a) = ar_meta a" "grn_array_get_max_id (ar_wr i v a) = grn_array_get_max_id a"
  by (auto simp: ar_wr_def ar_meta_def grn_array_get_max_id_def grn_array_is_io_array_def split: option.splits)

lemma ar_set_bit_fields [simp]:
  "ar_meta (ar_set_bit i b a) = ar_meta a" "grn_array_get_max_id (ar_set_bit i b a) = grn_array_get_max_id a"
  by (auto simp: ar_set_bit_def ar_meta_def grn_array_get_max_id_def grn_array_is_io_array_def
      split: option.splits)

lemma wal_touch_grows:
  assumes "grn_io_array_wal_touch env a = (a', rc)" and "ar_wf a"
  shows "ar_grows a a'" and "ar_ptr a' = ar_ptr a"
proof -
  from assms(1) obtain t where "a' = a\<lparr>ar_wal_touched := t\<rparr>" by (rule wal_touch_meta)
  with assms(2) show "ar_grows a a'" and "ar_ptr a' = ar_ptr a" by (simp_all add: ar_grows_def ar_meta_def)
qed

section \<open>Lookups\<close>

lemma array_ok_live:
  assumes "array_ok a" and "ar_n_garbages a = 0"
  shows "ar_bit a rid \<longleftrightarrow> rid \<noteq> GRN_ID_NIL \<and> rid \<le> grn_array_get_max_id a"
  using pool_no_garbage_all_live array_okD(2) [OF assms(1)] unfolding assms(2) .

lemma array_ok_live_le:
  assumes "array_ok a" and "ar_bit a rid"
  shows "rid \<noteq> GRN_ID_NIL" and "rid \<le> grn_array_get_max_id a"
  by (rule pool_live_bounds [OF array_okD(2) [OF assms(1)] assms(2)])+

lemma get_value_inline_ok:
  assumes ok: "array_ok a" and get: "grn_array_get_value_inline env a rid = (a', p)"
  shows "ar_grows a a'"
    and "p = Some e \<Longrightarrow> ar_bit a rid \<and> e = ar_ptr a' rid \<and> rid \<in> ar_cells a'"
proof -
  have wf: "ar_wf a" using ok by (simp add: array_ok_def)
  have at: "ar_grows a1 a' \<and> (p = Some e \<longrightarrow> e = ar_ptr a' rid \<and> rid \<in> ar_cells a')"
    if "grn_array_entry_at env a1 rid False = (a', p)" "ar_bit a rid" "ar_grows a a1" for a1
    using entry_at_view [OF ar_growsD(1) [OF that(3)] that(1)] array_ok_live_le(2) [OF ok that(2)]
      ar_growsD(5) [OF that(3)] by auto
  have "ar_grows a a' \<and> (p = Some e \<longrightarrow> ar_bit a rid \<and> e = ar_ptr a' rid \<and> rid \<in> ar_cells a')"
  proof (cases "ar_n_garbages a = 0")
    case True
    then show ?thesis
      using get at [OF _ _ ar_grows_refl [OF wf]] ar_grows_refl [OF wf] array_ok_live [OF ok True, of rid]
      by (auto simp: grn_array_get_value_inline_def split: if_splits)
  next
    case False
    obtain a1 b where b: "grn_array_bitmap_at env a rid = (a1, b)" by fastforce
    note B = array_ok_bitmap_at [OF ok b]
    show ?thesis
      using get False b B ar_grows_refl [OF wf] at [of a1]
      by (auto simp: grn_array_get_value_inline_def intro: ar_grows_trans split: if_splits)
  qed
  then show "ar_grows a a'"
    and "p = Some e \<Longrightarrow> ar_bit a rid \<and> e = ar_ptr a' rid \<and> rid \<in> ar_cells a'" by auto
qed

lemma get_value_ok:
  assumes ok: "array_ok a" and get: "grn_array_get_value env a rid = (a', v)"
  shows "array_ok a'" and "ar_contents a' = ar_contents a"
    and "v = Some bs \<Longrightarrow> ar_contents a rid = Some bs"
proof -
  obtain a1 p where p: "grn_array_get_value_inline env a rid = (a1, p)" by fastforce
  note G = get_value_inline_ok [OF ok p]
  have a': "a' = a1" using get p by (auto simp: grn_array_get_value_def split: option.splits)
  show "array_ok a'" "ar_contents a' = ar_contents a"
    using G(1) array_ok_grows [OF ok] ar_growsD(6) by (auto simp: a')
  show "v = Some bs \<Longrightarrow> ar_contents a rid = Some bs"
    using get p G(2) ar_growsD(1,2) [OF G(1)] entry_read_view [of a1 rid "ar_value_size a1"] ar_rd_length [of a1 rid]
    by (auto simp: grn_array_get_value_def ar_contents_def split: option.splits)
qed

section \<open>Storing a value\<close>

lemma array_ok_write:
  assumes ok: "array_ok a" and g: "ar_grows a a1" and live: "ar_bit a rid" and cell: "rid \<in> ar_cells a1"
    and v: "length v = ar_value_size a"
  shows "array_ok (ar_wr rid v a1)" and "ar_contents (ar_wr rid v a1) = (ar_contents a)(rid \<mapsto> v)"
proof -
  note W = ar.write_effect [OF array_okD(1) [OF ok] g cell v]
  note m = ar_metaD [OF trans [OF ar_wr_fields(1) [of rid v a1] ar_growsD(4) [OF g]]]
  have b: "ar_bit (ar_wr rid v a1) = ar_bit a" using W(3) by blast
  have mx: "grn_array_get_max_id a1 = grn_array_get_max_id a" using ar_growsD(5) [OF g] by simp
  have "pool_inv (ar_bit a) (ar_rd (ar_wr rid v a1)) (grn_array_can_use_value_for_garbage a) (ar_garbages a)
          (grn_array_get_max_id a) (ar_n_entries a) (ar_n_garbages a)"
    by (rule pool_set_value [OF array_okD(2) [OF ok] live]) (simp add: W(2))
  then show "array_ok (ar_wr rid v a1)"
    using W(1,2) array_okD(3-6) [OF ok] array_ok_live_le(2) [OF ok live] ar_growsD(10) [OF g]
    by (auto simp: array_ok_def m b mx)
  show "ar_contents (ar_wr rid v a1) = (ar_contents a)(rid \<mapsto> v)"
    using live by (auto simp: ar_contents_def W(2) b)
qed

text \<open>The outcome of the three store modes on the old and the given value.\<close>

lemma set_value_bytes_length:
  "set_value_bytes f n old value = Some v \<Longrightarrow> n \<le> length value \<Longrightarrow> length v = n"
  by (auto simp: set_value_bytes_def split: set_flag.splits if_splits)

lemma set_value_inline_ok:
  assumes ok: "array_ok a" and g: "ar_grows a a1" and live: "ar_bit a rid"
    and len: "ar_value_size a \<le> length value"
    and set: "grn_array_set_value_inline env a1 rid value flags = (a', rc)"
  shows "rc \<noteq> GRN_SUCCESS \<Longrightarrow> ar_grows a a'"
    and "rc = GRN_SUCCESS \<Longrightarrow> array_ok a' \<and>
      (\<exists>v. set_value_bytes (set_flag_of flags) (ar_value_size a) (ar_rd a rid) value = Some v
         \<and> ar_contents a' = (ar_contents a)(rid \<mapsto> v))"
proof -
  obtain a2 p where p: "grn_array_entry_at env a1 rid False = (a2, p)" by fastforce
  have le: "rid \<le> grn_array_get_max_id a1" using array_ok_live_le(2) [OF ok live] ar_growsD(5) [OF g] by simp
  note E = entry_at_view [OF ar_growsD(1) [OF g] p le]
  obtain a3 rc' where w: "(if grn_array_is_io_array a2 then grn_io_array_wal_touch env a2 else (a2, GRN_SUCCESS))
      = (a3, rc')" by fastforce
  have g3: "ar_grows a2 a3" and ptr: "ar_ptr a3 = ar_ptr a2"
    using w wal_touch_grows [of env a2 a3 rc'] ar_growsD(1) [OF E(1)] ar_grows_refl by (auto split: if_splits)
  have G: "ar_grows a a2" "ar_grows a a3" using g E(1) g3 by (auto intro: ar_grows_trans)
  have vs: "ar_value_size a3 = ar_value_size a" using ar_metaD(1) [OF ar_growsD(4) [OF G(2)]] .
  have rd: "p \<noteq> None \<Longrightarrow> entry_read a3 (ar_ptr a2 rid) (ar_value_size a) = ar_rd a rid"
    using entry_read_view [OF ar_growsD(1) [OF G(2)], of rid "ar_value_size a"] E(2) ar_growsD(8) [OF g3]
      ar_growsD(2) [OF G(2)] ar_rd_length [OF array_okD(1) [OF ok], of rid] by (auto simp: vs ptr)
  have eq: "(a', rc) = (case p of None \<Rightarrow> (a2, GRN_NO_MEMORY_AVAILABLE)
      | Some e \<Rightarrow> if rc' \<noteq> GRN_SUCCESS then (a3, rc')
          else case set_value_bytes (set_flag_of flags) (ar_value_size a) (entry_read a3 e (ar_value_size a)) value of
                 None \<Rightarrow> (a3, GRN_INVALID_ARGUMENT) | Some v \<Rightarrow> (entry_write e v a3, GRN_SUCCESS))"
    unfolding set [symmetric] grn_array_set_value_inline_def p prod.case
    by (cases p) (simp_all add: w vs)
  show "rc \<noteq> GRN_SUCCESS \<Longrightarrow> ar_grows a a'"
    using eq G by (auto split: option.splits if_splits)
  assume "rc = GRN_SUCCESS"
  then obtain v where cell: "p \<noteq> None" and v: "set_value_bytes (set_flag_of flags) (ar_value_size a) (ar_rd a rid) value = Some v"
    and a': "a' = entry_write (ar_ptr a3 rid) v a3"
    using eq rd E(2) by (auto simp: ptr split: option.splits if_splits)
  have lv: "length v = ar_value_size a" by (rule set_value_bytes_length [OF v len])
  have c: "rid \<in> ar_cells a3" using cell E(2) ar_growsD(8) [OF g3] by auto
  have "a' = ar_wr rid v a3"
    using entry_write_view [OF ar_growsD(1) [OF G(2)] c, of v] ar_rd_length [OF ar_growsD(1) [OF G(2)], of rid]
    by (simp add: a' lv vs)
  then show "array_ok a' \<and> (\<exists>v. set_value_bytes (set_flag_of flags) (ar_value_size a) (ar_rd a rid) value = Some v
         \<and> ar_contents a' = (ar_contents a)(rid \<mapsto> v))"
    using array_ok_write [OF ok G(2) live c lv] v by auto
qed

lemma set_value_ok:
  assumes ok: "array_ok a" and len: "ar_value_size a \<le> length value"
    and set: "grn_array_set_value env a rid value flags = (a', rc)"
  shows "array_ok a'" and "rc \<noteq> GRN_SUCCESS \<Longrightarrow> ar_contents a' = ar_contents a"
    and "rc = GRN_SUCCESS \<Longrightarrow> \<exists>old v. ar_contents a rid = Some old
      \<and> set_value_bytes (set_flag_of flags) (ar_value_size a) old value = Some v
      \<and> ar_contents a' = (ar_contents a)(rid \<mapsto> v)"
proof -
  have "ar_grows a a' \<and> rc \<noteq> GRN_SUCCESS \<or>
      (\<exists>a1. ar_grows a a1 \<and> ar_bit a rid \<and> grn_array_set_value_inline env a1 rid value flags = (a', rc))"
  proof (cases "ar_n_garbages a = 0")
    case True
    then show ?thesis
      using set ar_grows_refl [OF array_okD(1) [OF ok]] array_ok_live [OF ok True, of rid]
      by (auto simp: grn_array_set_value_def Let_def split: if_splits)
  next
    case False
    obtain a1 b where b: "grn_array_bitmap_at env a rid = (a1, b)" by fastforce
    note B = array_ok_bitmap_at [OF ok b]
    show ?thesis
      using set False b B(1,2) ar_grows_refl [OF array_okD(1) [OF ok]]
      by (auto simp: grn_array_set_value_def Let_def split: if_splits)
  qed
  then have "if rc = GRN_SUCCESS then array_ok a' \<and> (\<exists>old v. ar_contents a rid = Some old
      \<and> set_value_bytes (set_flag_of flags) (ar_value_size a) old value = Some v
      \<and> ar_contents a' = (ar_contents a)(rid \<mapsto> v)) else ar_grows a a'"
    using set_value_inline_ok [OF ok _ _ len] by (fastforce simp: ar_contents_def)
  then show "array_ok a'" and "rc \<noteq> GRN_SUCCESS \<Longrightarrow> ar_contents a' = ar_contents a"
    and "rc = GRN_SUCCESS \<Longrightarrow> \<exists>old v. ar_contents a rid = Some old
      \<and> set_value_bytes (set_flag_of flags) (ar_value_size a) old value = Some v
      \<and> ar_contents a' = (ar_contents a)(rid \<mapsto> v)"
    using array_ok_grows [OF ok] ar_growsD(6) by (auto split: if_splits)
qed

section \<open>Deleting a record\<close>

text \<open>
  What a state must look like after a deletion, stated on the view: the record is gone and the
  pool moved accordingly.
\<close>

lemma deleted_ok:
  assumes ok: "array_ok a" and live: "ar_bit a rid"
    and wf: "ar_wf a'" and mx: "grn_array_get_max_id a' = grn_array_get_max_id a"
    and vs: "ar_value_size a' = ar_value_size a" and io: "ar_io a' = None \<longleftrightarrow> ar_io a = None"
    and bits: "\<And>j. ar_bit a' j = (if j = rid then False else ar_bit a j)"
    and rd: "\<And>j. j \<noteq> rid \<Longrightarrow> ar_rd a' j = ar_rd a j"
    and cnt: "ar_n_entries a' = ar_n_entries a - 1" "ar_n_garbages a' = ar_n_garbages a + 1"
    and link: "grn_array_can_use_value_for_garbage a \<Longrightarrow> get_u32 (ar_rd a' rid) = ar_garbages a \<and> ar_garbages a' = rid"
      "\<not> grn_array_can_use_value_for_garbage a \<Longrightarrow> ar_garbages a' = ar_garbages a"
    and backed: "\<And>j. ar_backed a j \<Longrightarrow> ar_backed a' j"
  shows "array_ok a'" and "ar_contents a' = (ar_contents a)(rid := None)"
proof -
  have can: "grn_array_can_use_value_for_garbage a' = grn_array_can_use_value_for_garbage a"
    using vs by (simp add: grn_array_can_use_value_for_garbage_def)
  have "pool_inv (ar_bit a') (ar_rd a') (grn_array_can_use_value_for_garbage a) (ar_garbages a')
      (grn_array_get_max_id a) (ar_n_entries a - 1) (ar_n_garbages a + 1)"
    using rd link bits by (intro pool_delete [OF array_okD(2) [OF ok] live]) auto
  then show "array_ok a'"
    using wf rd array_okD(3-6) [OF ok] array_ok_live_le(2) [OF ok live] io backed
    by (auto simp: array_ok_def can cnt mx vs)
  show "ar_contents a' = (ar_contents a)(rid := None)"
    using bits rd by (auto simp: ar_contents_def)
qed

lemma put_link_length: "ar_wf a \<Longrightarrow> 4 \<le> ar_value_size a \<Longrightarrow> length (put_u32 g (ar_rd a rid)) = ar_value_size a"
  by (simp add: ar_rd_length)

lemma entry_write_link:
  assumes "ar_wf a" and "rid \<in> ar_cells a" and "4 \<le> ar_value_size a"
  shows "entry_write (ar_ptr a rid) (u32_bytes g) a = ar_wr rid (put_u32 g (ar_rd a rid)) a"
  using entry_write_view [OF assms(1,2), of "u32_bytes g"] assms(3) by (simp add: put_u32_def)

lemma delete_tiny_ok:
  assumes ok: "array_ok a" and io: "ar_io a = None" and live: "ar_bit a rid" and has: "ar_has_bit a rid"
    and del: "array_delete_tiny a rid = (a', rc)"
  shows "if rc = GRN_SUCCESS then array_ok a' \<and> ar_contents a' = (ar_contents a)(rid := None) else a' = a"
proof -
  have wf: "ar_wf a" and has': "bitmap_has (ar_bitmap a) rid"
    using ok has io by (auto simp: array_ok_def ar_has_bit_def)
  show ?thesis
  proof (cases "grn_array_can_use_value_for_garbage a")
    case False
    have a': "a' = count_deleted (ar_set_bit rid False a)" "rc = GRN_SUCCESS"
      using del False io has'
      by (auto simp: array_delete_tiny_def bitmap_get_and_set_eq count_deleted_def ar_set_bit_def Let_def)
    have "array_ok a' \<and> ar_contents a' = (ar_contents a)(rid := None)"
      using deleted_ok [OF ok live, of a'] ar_set [OF wf has, of False] False
      by (simp add: a'(1) count_deleted_def ar_metaD [OF ar_set_bit_fields(1)])
    then show ?thesis by (simp add: a')
  next
    case True
    show ?thesis
    proof (cases "rid \<in> ar_cells a")
      case False
      then have "grn_tiny_array_get (ar_array a) rid = None"
        using io array_ok_live_le(1) [OF ok live]
        by (auto simp: ar_cells_def tiny_cells_def grn_tiny_array_get_def Let_def split: option.splits)
      then show ?thesis using del True by (auto simp: array_delete_tiny_def)
    next
      case cell: True
      let ?v = "put_u32 (ar_garbages a) (ar_rd a rid)"
      have len: "length ?v = ar_value_size a"
        using True wf by (simp add: put_link_length grn_array_can_use_value_for_garbage_def)
      note W = ar_write [OF wf cell len]
      have "entry_write (TinyPtr (tiny_addr_of rid)) (u32_bytes (ar_garbages a)) a = ar_wr rid ?v a"
        using entry_write_link [OF wf cell, of "ar_garbages a"] True io
        by (simp add: ar_ptr_def grn_array_can_use_value_for_garbage_def)
      then have a': "a' = ar_set_bit rid False (count_deleted ((ar_wr rid ?v a)\<lparr>ar_garbages := rid\<rparr>))" "rc = GRN_SUCCESS"
        using del True io has' cell tiny_get_cell [of rid "ar_array a"]
        by (auto simp: array_delete_tiny_def bitmap_get_and_set_eq count_deleted_def ar_set_bit_def Let_def
            ar_wr_def ar_cells_def)
      let ?c = "count_deleted ((ar_wr rid ?v a)\<lparr>ar_garbages := rid\<rparr>)"
      have c: "ar_wf ?c" "ar_has_bit ?c rid"
        using W(1) has io by (simp_all add: count_deleted_def ar_has_bit_def ar_wr_def)
      have "array_ok a' \<and> ar_contents a' = (ar_contents a)(rid := None)"
        using deleted_ok [OF ok live, of a'] ar_set [OF c, of False] W True
        by (simp add: a'(1) ar_metaD [OF ar_set_bit_fields(1)] count_deleted_def ar_metaD [OF ar_wr_fields(1)]
            get_put_u32)
      then show ?thesis by (simp add: a')
    qed
  qed
qed

lemma bitmap_byte_mono: "i \<le> j \<Longrightarrow> unat (bitmap_byte_id i) \<le> unat (bitmap_byte_id j)"
  by (simp add: unat_bitmap_byte_id div_le_mono word_le_nat_alt)

lemma delete_io_ok:
  assumes ok: "array_ok a" and io: "ar_io a \<noteq> None" and live: "ar_bit a rid" and has: "ar_has_bit a rid"
    and del: "array_delete_io env a rid = (a', rc)"
  shows "if rc = GRN_SUCCESS then array_ok a' \<and> ar_contents a' = (ar_contents a)(rid := None) else ar_grows a a'"
proof -
  have wf: "ar_wf a" and can: "grn_array_can_use_value_for_garbage a"
    using ok io by (auto simp: array_ok_def)
  obtain a1 rc1 where w: "grn_io_array_wal_touch env a = (a1, rc1)" by fastforce
  note g1 = wal_touch_grows(1) [OF w wf]
  have io1: "ar_io a1 \<noteq> None" using ar_metaD(6) [OF ar_growsD(4) [OF g1]] io by simp
  obtain a2 p where p: "grn_array_io_entry_at env a1 rid False = (a2, p)" by fastforce
  note E = io_entry_at_view [OF io1 ar_growsD(1) [OF g1] p]
  have g2: "ar_grows a a2" using g1 E(1) by (rule ar_grows_trans)
  note m2 = ar_metaD [OF ar_growsD(4) [OF g2]]
  have can': "grn_array_can_use_value_for_garbage a1"
    using can ar_metaD(8) [OF ar_growsD(4) [OF g1]] by simp
  show ?thesis
  proof (cases "rc1 = GRN_SUCCESS \<and> p \<noteq> None")
    case False
    then have "ar_grows a a'" "rc \<noteq> GRN_SUCCESS"
      using del w p g1 g2 can' by (auto simp: array_delete_io_def split: if_splits)
    then show ?thesis by simp
  next
    case True
    then have cell: "rid \<in> ar_cells a2" and pe: "p = Some (ar_ptr a2 rid)" using E(2) by auto
    note wf2 = ar_growsD(1) [OF g2]
    let ?v = "put_u32 (ar_garbages a) (ar_rd a rid)"
    have len: "length ?v = ar_value_size a" "4 \<le> ar_value_size a2"
      using can wf by (simp_all add: put_link_length grn_array_can_use_value_for_garbage_def m2)
    note W = ar.write_effect [OF wf g2 cell len(1)]
    let ?c = "count_deleted ((ar_wr rid ?v a2)\<lparr>ar_garbages := rid\<rparr>)"
    have a': "a' = grn_array_bit_off env ?c rid" "rc = GRN_SUCCESS"
      using del w p pe True can' entry_write_link [OF wf2 cell len(2), of "ar_garbages a"] m2(4)
      by (auto simp: array_delete_io_def Let_def ar_growsD(2) [OF g2])
    have "ar_io (ar_wr rid ?v a2) \<noteq> None" "ar_has_bit (ar_wr rid ?v a2) rid"
      using io1 m2(6) io ar_growsD(7) [OF g2 has] cell wf2 len m2
      by (auto simp: ar_wr_def ar_has_bit_def ar_cells_def ar_wf_def array_segments io_value_write
          simp del: One_nat_def)
    then have c: "ar_io ?c \<noteq> None" "ar_wf ?c" "ar_has_bit ?c rid"
      using W(1) by (simp_all add: count_deleted_def)
    have "unat (bitmap_byte_id rid) \<le> unat (bitmap_byte_id GRN_ARRAY_MAX)"
      using bitmap_byte_mono order_trans [OF array_ok_live_le(2) [OF ok live] array_okD(4) [OF ok io]] by blast
    then obtain a3 where g3: "ar_grows ?c a3" "ar_has_bit a3 rid" and off: "a' = ar_set_bit rid False a3"
      using io_bit_off_view(2) [OF c(1,2), of rid env] c(3) a'(1) by auto
    note B = ar.bit_effect [OF c(2) g3, of False]
    have "ar_meta a' = ar_meta ?c" "grn_array_get_max_id a' = grn_array_get_max_id ?c"
      using ar_growsD(4,5) [OF g3(1)] by (simp_all add: off)
    note m = ar_metaD [OF this(1)] this(2)
    have bk: "ar_backed a j \<Longrightarrow> ar_backed a' j" for j
      using ar_growsD(10) [OF g2, of j] ar_growsD(10) [OF g3(1), of j] by (simp add: off count_deleted_def)
    have "array_ok a' \<and> ar_contents a' = (ar_contents a)(rid := None)"
      using deleted_ok [OF ok live, of a'] bk B W can m m2 ar_growsD(5) [OF g2]
      by (simp add: count_deleted_def ar_metaD [OF ar_wr_fields(1)] get_put_u32 flip: off)
    then show ?thesis by (simp add: a'(2))
  qed
qed

lemma delete_by_id_ok:
  assumes ok: "array_ok a" and del: "grn_array_delete_by_id env a rid = (a', rc)"
  shows "array_ok a'"
    and "rc = GRN_SUCCESS \<Longrightarrow> ar_contents a rid \<noteq> None \<and> ar_contents a' = (ar_contents a)(rid := None)"
    and "rc \<noteq> GRN_SUCCESS \<Longrightarrow> ar_contents a' = ar_contents a"
proof -
  have "if rc = GRN_SUCCESS then array_ok a' \<and> ar_bit a rid \<and> ar_contents a' = (ar_contents a)(rid := None)
      else ar_grows a a'"
  proof (cases "grn_array_error_if_truncated a = GRN_SUCCESS")
    case False
    then show ?thesis
      using del ar_grows_refl [OF array_okD(1) [OF ok]] by (auto simp: grn_array_delete_by_id_def Let_def)
  next
    case True
    obtain a1 b where b: "grn_array_bitmap_at env a rid = (a1, b)" by fastforce
    note B = array_ok_bitmap_at [OF ok b]
    have ok1: "array_ok a1" by (rule array_ok_grows [OF ok B(1)])
    note G = ar_growsD(3,6) [OF B(1)]
    have del': "(a', rc) = (if b \<noteq> 1 then (a1, GRN_INVALID_ARGUMENT)
        else if ar_io a1 \<noteq> None then array_delete_io env a1 rid else array_delete_tiny a1 rid)"
      unfolding del [symmetric] using True b by (simp add: grn_array_delete_by_id_def grn_array_is_io_array_def)
    show ?thesis
    proof (cases "b = 1")
      case False
      then show ?thesis using del' B(1) by simp
    next
      case True
      then have l: "ar_bit a1 rid" "ar_has_bit a1 rid" "ar_bit a rid" using B(2) G(1) by auto
      show ?thesis
        using del' True delete_tiny_ok [OF ok1 _ l(1,2), of a' rc] delete_io_ok [OF ok1 _ l(1,2), of env a' rc]
          G l(3) B(1) ar_grows_trans [OF B(1)] by (auto split: if_splits)
    qed
  qed
  then show "array_ok a'"
    and "rc = GRN_SUCCESS \<Longrightarrow> ar_contents a rid \<noteq> None \<and> ar_contents a' = (ar_contents a)(rid := None)"
    and "rc \<noteq> GRN_SUCCESS \<Longrightarrow> ar_contents a' = ar_contents a"
    using array_ok_grows [OF ok] ar_growsD(6) by (auto simp: ar_contents_def split: if_splits)
qed

section \<open>Adding a record\<close>

text \<open>The two outcomes of a successful addition on the view: a reused id and a new one.\<close>

lemma reused_ok:
  assumes ok: "array_ok a" and head: "ar_garbages a \<noteq> GRN_ID_NIL"
    and wf: "ar_wf a'" and mx: "grn_array_get_max_id a' = grn_array_get_max_id a"
    and vs: "ar_value_size a' = ar_value_size a" and io: "ar_io a' = None \<longleftrightarrow> ar_io a = None"
    and bits: "\<And>j. ar_bit a' j = (if j = ar_garbages a then True else ar_bit a j)"
    and rd: "\<And>j. ar_rd a' j = (if j = ar_garbages a then replicate (ar_value_size a) 0 else ar_rd a j)"
    and cnt: "ar_n_entries a' = ar_n_entries a + 1" "ar_n_garbages a' = ar_n_garbages a - 1"
    and link: "ar_garbages a' = get_u32 (ar_rd a (ar_garbages a))"
    and backed: "\<And>j. ar_backed a j \<Longrightarrow> ar_backed a' j"
  shows "array_ok a'" and "ar_contents a (ar_garbages a) = None"
    and "ar_contents a' = (ar_contents a)(ar_garbages a \<mapsto> replicate (ar_value_size a) 0)"
proof -
  note P = array_okD(2) [OF ok]
  have can: "grn_array_can_use_value_for_garbage a' = grn_array_can_use_value_for_garbage a"
    using vs by (simp add: grn_array_can_use_value_for_garbage_def)
  have "pool_inv (ar_bit a') (ar_rd a') (grn_array_can_use_value_for_garbage a) (ar_garbages a')
      (grn_array_get_max_id a) (ar_n_entries a + 1) (ar_n_garbages a - 1)"
    unfolding link using rd bits by (intro pool_reuse [OF P head]) auto
  then show "array_ok a'"
    using wf rd array_okD(3-6) [OF ok] io pool_head(2) [OF P head] backed
    by (auto simp: array_ok_def can cnt mx vs)
  show "ar_contents a (ar_garbages a) = None"
    using pool_head(1) [OF P head] by (simp add: ar_contents_def)
  show "ar_contents a' = (ar_contents a)(ar_garbages a \<mapsto> replicate (ar_value_size a) 0)"
    using bits rd by (auto simp: ar_contents_def)
qed

lemma extended_ok:
  assumes ok: "array_ok a" and head: "ar_garbages a = GRN_ID_NIL" and rid: "rid = grn_array_get_max_id a + 1"
    and lt: "grn_array_get_max_id a < rid" and cap: "ar_io a \<noteq> None \<Longrightarrow> rid \<le> GRN_ARRAY_MAX"
    and wf: "ar_wf a'" and mx: "grn_array_get_max_id a' = rid"
    and vs: "ar_value_size a' = ar_value_size a" and io: "ar_io a' = None \<longleftrightarrow> ar_io a = None"
    and bits: "\<And>j. ar_bit a' j = (if j = rid then True else ar_bit a j)"
    and rd: "\<And>j. ar_rd a' j = ar_rd a j"
    and cnt: "ar_n_entries a' = ar_n_entries a + 1" "ar_n_garbages a' = ar_n_garbages a"
    and link: "ar_garbages a' = GRN_ID_NIL"
    and backed: "\<And>j. ar_backed a j \<or> j = rid \<Longrightarrow> ar_backed a' j"
  shows "array_ok a'" and "ar_contents a rid = None"
    and "ar_contents a' = (ar_contents a)(rid \<mapsto> replicate (ar_value_size a) 0)"
proof -
  note P = array_okD(2) [OF ok, unfolded head]
  have can: "grn_array_can_use_value_for_garbage a' = grn_array_can_use_value_for_garbage a"
    using vs by (simp add: grn_array_can_use_value_for_garbage_def)
  note E = pool_extend [OF P, folded rid, OF lt]
  have eq: "ar_bit a' = (\<lambda>i. i = rid \<or> ar_bit a i)" "ar_rd a' = ar_rd a" using bits rd by (auto simp: fun_eq_iff)
  show "array_ok a'"
    using wf array_okD(3,5) [OF ok] io lt E(1) cap
  proof -
    have "ar_backed a' j" if "j \<noteq> GRN_ID_NIL" "j \<le> rid" for j
    proof (cases "j = rid")
      case False
      then have "j \<le> grn_array_get_max_id a" using that(2) rid lt inc_le [of "grn_array_get_max_id a" j]
        by (meson leI order_antisym)
      then show ?thesis using array_okD(6) [OF ok that(1)] backed by blast
    qed (simp add: backed)
    then show ?thesis
      using wf array_okD(3,5) [OF ok] io lt E(1) cap by (auto simp: array_ok_def can cnt mx vs link eq)
  qed
  show "ar_contents a rid = None" using E(2) by (simp add: ar_contents_def)
  show "ar_contents a' = (ar_contents a)(rid \<mapsto> replicate (ar_value_size a) 0)"
    using bits rd array_okD(5) [OF ok lt] by (auto simp: ar_contents_def)
qed

definition added :: "grn_array \<Rightarrow> grn_array \<Rightarrow> grn_id \<Rightarrow> entry_ptr option \<Rightarrow> bool" where
  "added a a' rid p \<longleftrightarrow> rid \<noteq> GRN_ID_NIL \<and> array_ok a' \<and> ar_contents a rid = None
     \<and> ar_contents a' = (ar_contents a)(rid \<mapsto> replicate (ar_value_size a) 0) \<and> p = Some (ar_ptr a' rid)"

lemma tiny_reuse_ok:
  assumes ok: "array_ok a" and io: "ar_io a = None" and head: "ar_garbages a \<noteq> GRN_ID_NIL"
    and add: "grn_array_add_to_tiny_array env a = (a', rid, p)"
  shows "added a a' rid p \<or> rid = GRN_ID_NIL \<and> p = None \<and> a' = a"
proof -
  let ?g = "ar_garbages a"
  have wf: "ar_wf a" using ok by (simp add: array_ok_def)
  have get: "grn_tiny_array_get (ar_array a) ?g = (if ?g \<in> ar_cells a then Some (tiny_addr_of ?g) else None)"
    using head io by (auto simp: ar_cells_def tiny_cells_def grn_tiny_array_get_def tiny_addr_of_def Let_def
        split: option.splits)
  show ?thesis
  proof (cases "?g \<in> ar_cells a \<and> ar_has_bit a ?g")
    case False
    then show ?thesis
      using add head io get by (auto simp: grn_array_add_to_tiny_array_def bitmap_get_and_set_eq ar_has_bit_def
          Let_def split: if_splits)
  next
    case True
    then have c: "?g \<in> ar_cells a" "ar_has_bit a ?g" by auto
    let ?s = "ar_set_bit ?g True a" and ?z = "replicate (ar_value_size a) (0 :: byte)"
    have can: "4 \<le> ar_value_size a"
      using pool_head(3) [OF array_okD(2) [OF ok] head] by (simp add: grn_array_can_use_value_for_garbage_def)
    note S = ar_set [OF wf c(2), of True]
    have cs: "?g \<in> ar_cells ?s" "ar_ptr ?s ?g = TinyPtr (tiny_addr_of ?g)" "ar_io ?s = None"
      using c(1) io by (simp_all add: ar_cells_def ar_set_bit_def ar_ptr_def)
    note W = ar_write [OF S(1) cs(1), of ?z]
    have rdt: "tiny_read (ar_array a) (tiny_addr_of ?g) = ar_rd a ?g"
      using c(1) io by (simp add: ar_rd_def tiny_rd_def ar_cells_def)
    have "drop (ar_value_size a) (ar_rd a ?g) = []" by (simp add: ar_rd_length [OF wf])
    then have a': "a' = (ar_wr ?g ?z ?s)\<lparr>ar_garbages := get_u32 (ar_rd a ?g),
        ar_n_garbages := ar_n_garbages a - 1, ar_n_entries := ar_n_entries a + 1\<rparr>"
      and r: "rid = ?g" "p = Some (TinyPtr (tiny_addr_of ?g))"
      using add head io get c
      by (auto simp: grn_array_add_to_tiny_array_def bitmap_get_and_set_eq ar_has_bit_def
          Let_def rdt ar_wr_def ar_set_bit_def tiny_write_def tiny_wr_def)
    note m = ar_metaD [OF trans [OF ar_wr_fields(1) [of ?g ?z ?s] ar_set_bit_fields(1) [of ?g True a]]]
    have "array_ok a'" "ar_contents a ?g = None" "ar_contents a' = (ar_contents a)(?g \<mapsto> ?z)"
      using reused_ok [OF ok head, of a'] W S m by (simp_all add: a')
    moreover have "ar_ptr a' ?g = TinyPtr (tiny_addr_of ?g)" using m(6) io by (simp add: a' ar_ptr_def)
    ultimately show ?thesis using head r by (simp add: added_def)
  qed
qed

lemma tiny_extend_ok:
  assumes ok: "array_ok a" and io: "ar_io a = None" and head: "ar_garbages a = GRN_ID_NIL"
    and lt: "grn_array_get_max_id a < grn_array_get_max_id a + 1"
    and add: "grn_array_add_to_tiny_array env a = (a', rid, p)"
  shows "added a a' rid p \<or> rid = GRN_ID_NIL \<and> p = None \<and> ar_grows a a'"
proof -
  have wf: "ar_wf a" and twf: "tiny_wf (ar_array a)"
    using ok io by (auto simp: array_ok_def ar_wf_def tiny_layout_ok_def)
  define n where "n = ta_max (ar_array a) + 1"
  have mx: "grn_array_get_max_id a = ta_max (ar_array a)"
    using io by (simp add: grn_array_get_max_id_def grn_array_is_io_array_def)
  have n: "n = grn_array_get_max_id a + 1" "ta_max (ar_array a) < n" "n \<noteq> GRN_ID_NIL"
    using lt by (auto simp: n_def mx)
  have dead: "\<not> ar_bit a n"
    using array_ok_live_le(2) [OF ok, of n] n(2) mx by auto
  let ?g = "a\<lparr>ar_bitmap := bitmap_grow (ar_bitmap a) n\<rparr>"
  note G = tiny_bitmap_grows [OF io wf, of n]
  note S = ar.bit_effect [OF wf G]
  obtain ta q where q: "grn_tiny_array_put (ae_alloc_array env) (ar_array a) n = (ta, q)" by fastforce
  define alloc where "alloc \<longleftrightarrow> bitmap_has (ar_bitmap a) n \<or> alloc_ok (ae_alloc_bitmap env) (fst (bitmap_addr_of n))"
  have eq: "(a', rid, p) = (if \<not> alloc then (a, GRN_ID_NIL, None) else case q of
      None \<Rightarrow> ((ar_set_bit n False (ar_set_bit n True ?g))\<lparr>ar_array := ta\<rparr>, GRN_ID_NIL, None)
    | Some e \<Rightarrow> ((ar_set_bit n True ?g)\<lparr>ar_array := ta\<lparr>ta_max := n\<rparr>, ar_n_entries := ar_n_entries a + 1\<rparr>,
                 n, Some (TinyPtr e)))"
  proof -
    have "bitmap_has (bitmap_set n True (bitmap_grow (ar_bitmap a) n)) n"
      using ar_set(4) [OF ar_growsD(1) [OF G(1)] G(2), of True n] G(2) io by (simp add: ar_has_bit_def ar_set_bit_def)
    then show ?thesis
      unfolding add [symmetric] grn_array_add_to_tiny_array_def alloc_def
      using head io q n(2) by (simp add: bitmap_put_and_set_eq bitmap_get_and_set_eq ar_set_bit_def
          n_def [symmetric] split: option.splits)
  qed
  show ?thesis
  proof (cases "alloc \<and> q \<noteq> None")
    case False
    show ?thesis
    proof (cases alloc)
      case True
      with False have qn: "q = None" by blast
      have ta: "ta = ar_array a" using tiny_put_NoneD [OF q [unfolded qn] twf n(3)] .
      let ?s = "ar_set_bit n True ?g"
      have "ar_has_bit ?s n" using ar_set(4) [OF ar_growsD(1) [OF G(1)] G(2)] G(2) by simp
      note S2 = ar_set [OF S(1) this, of False]
      have "a' = ar_set_bit n False ?s" "rid = GRN_ID_NIL" "p = None"
        using eq True qn ta io by (auto simp: ar_set_bit_def)
      moreover have "ar_grows a (ar_set_bit n False ?s)"
        using ar_growsD(10) [OF G(1)] S2 S dead ar_growsD(7,8) [OF G(1)] ar_set(4) [OF ar_growsD(1) [OF G(1)] G(2)] io
        by (auto simp: ar_grows_def ar_cells_def ar_ptr_def ar_set_bit_def ar_meta_def ar_backed_def
            grn_array_get_max_id_def grn_array_is_io_array_def)
      ultimately show ?thesis by simp
    next
      case False
      then show ?thesis using eq ar_grows_refl [OF wf] by simp
    qed
  next
    case True
    then obtain e where e: "q = Some e" by blast
    note D = tiny_put_SomeD [OF q [unfolded e] twf n(3)]
    have a': "a' = (ar_set_bit n True ?g)\<lparr>ar_array := ta\<lparr>ta_max := n\<rparr>, ar_n_entries := ar_n_entries a + 1\<rparr>"
      and r: "rid = n" "p = Some (TinyPtr e)"
      using eq True e by auto
    have "ta_use_malloc (ar_array a) \<longrightarrow> ta_clear (ar_array a)"
      using wf io by (simp add: ar_wf_def tiny_layout_ok_def)
    then have rd: "tiny_rd (ta\<lparr>ta_max := n\<rparr>) j = tiny_rd (ar_array a) j" for j
      using D(5) by (simp add: tiny_max_irrelevant)
    have view: "ar_wf a'" "grn_array_get_max_id a' = n" "ar_io a' = None" "ar_rd a' j = ar_rd a j"
      "ar_bit a' j = (if j = n then True else ar_bit a j)" "ar_ptr a' n = TinyPtr (tiny_addr_of n)" for j
      using S(1) [of True] S(3) [of True j] wf io D rd
      by (auto simp: a' ar_wf_def tiny_layout_ok_def tiny_wf_def ar_set_bit_def ar_rd_def ar_bit_def ar_ptr_def
          grn_array_get_max_id_def grn_array_is_io_array_def tiny_max_irrelevant)
    have "bitmap_has (bitmap_grow (ar_bitmap a) n) n" using G(2) io by (simp add: ar_has_bit_def)
    then have bk: "ar_backed a j \<or> j = n \<Longrightarrow> ar_backed a' j" for j
      using ar_growsD(10) [OF G(1), of j] D(3,4) io
      by (auto simp: a' ar_backed_def ar_set_bit_def tiny_max_irrelevant)
    have fields: "ar_value_size a' = ar_value_size a" "ar_n_entries a' = ar_n_entries a + 1"
      "ar_n_garbages a' = ar_n_garbages a" "ar_garbages a' = ar_garbages a"
      using io by (simp_all add: a' ar_set_bit_def)
    have "array_ok a'" "ar_contents a n = None" "ar_contents a' = (ar_contents a)(n \<mapsto> replicate (ar_value_size a) 0)"
      using extended_ok [OF ok head n(1), of a'] lt view io head n(2) bk fields by (simp_all add: mx)
    then show ?thesis using n(3) r view(6) D(1) by (simp add: added_def)
  qed
qed

lemma entry_write_n_garbages [simp]: "ar_n_garbages (entry_write e v a) = ar_n_garbages a"
  by (cases e) simp_all

lemma ar_ptr_updates [simp]:
  "ar_ptr (ar_wr i v a) = ar_ptr a" "ar_ptr (ar_set_bit i b a) = ar_ptr a"
  by (auto simp: fun_eq_iff ar_ptr_def ar_wr_def io_wr_def ar_set_bit_def io_set_bit_def split: option.splits)

lemma ar_set_bit_cells [simp]: "ar_cells (ar_set_bit i b a) = ar_cells a"
  by (auto simp: ar_cells_def ar_set_bit_def io_set_bit_def io_cells_def split: option.splits)

lemma ar_wr_garbages: "ar_wr i v (a\<lparr>ar_garbages := x\<rparr>) = (ar_wr i v a)\<lparr>ar_garbages := x\<rparr>"
  by (simp add: ar_wr_def split: option.splits)

text \<open>A failed reuse puts the link back; only bytes of a dead record differ.\<close>

lemma relinked_ok:
  assumes ok: "array_ok a" and dead: "\<not> ar_bit a g" and le: "g \<le> grn_array_get_max_id a"
    and wf: "ar_wf a'" and mx: "grn_array_get_max_id a' = grn_array_get_max_id a"
    and meta: "ar_value_size a' = ar_value_size a" "ar_io a' = None \<longleftrightarrow> ar_io a = None"
      "ar_n_entries a' = ar_n_entries a" "ar_n_garbages a' = ar_n_garbages a" "ar_garbages a' = ar_garbages a"
    and bits: "\<And>j. ar_bit a' j = ar_bit a j"
    and rd: "\<And>j. j \<noteq> g \<Longrightarrow> ar_rd a' j = ar_rd a j" and link: "get_u32 (ar_rd a' g) = get_u32 (ar_rd a g)"
    and backed: "\<And>j. ar_backed a j \<Longrightarrow> ar_backed a' j"
  shows "array_ok a'" and "ar_contents a' = ar_contents a"
proof -
  have "get_u32 (ar_rd a' j) = get_u32 (ar_rd a j)" for j using rd link by (cases "j = g") auto
  then have "pool_inv (ar_bit a') (ar_rd a') = pool_inv (ar_bit a) (ar_rd a)"
    using bits by (intro ext pool_inv_cong) auto
  then show "array_ok a'"
    using array_okD [OF ok] wf mx meta rd le backed
    by (auto simp: array_ok_def grn_array_can_use_value_for_garbage_def)
  show "ar_contents a' = ar_contents a"
  proof
    fix j show "ar_contents a' j = ar_contents a j"
      using bits rd dead by (cases "j = g") (auto simp: ar_contents_def)
  qed
qed

lemma io_reuse_ok:
  assumes ok: "array_ok a" and io: "ar_io a \<noteq> None" and head: "ar_garbages a \<noteq> GRN_ID_NIL"
    and add: "array_reuse_linked env a (ar_garbages a) = (a', rid, p)"
  shows "added a a' rid p \<or> rid = GRN_ID_NIL \<and> p = None \<and> array_ok a' \<and> ar_contents a' = ar_contents a"
proof -
  let ?g = "ar_garbages a" and ?z = "replicate (ar_value_size a) (0 :: byte)"
  have wf: "ar_wf a" and can: "4 \<le> ar_value_size a"
    using ok io by (auto simp: array_ok_def grn_array_can_use_value_for_garbage_def)
  obtain a1 q where q: "grn_array_io_entry_at env a ?g True = (a1, q)" by fastforce
  note E = io_entry_at_view [OF io wf q]
  show ?thesis
  proof (cases q)
    case None
    then show ?thesis
      using add q E(1) array_ok_grows [OF ok] ar_growsD(6) by (auto simp: array_reuse_linked_def)
  next
    case (Some e)
    then have e: "e = ar_ptr a1 ?g" and cell: "?g \<in> ar_cells a1" using E(2) by auto
    note wf1 = ar_growsD(1) [OF E(1)] and m1 = ar_metaD [OF ar_growsD(4) [OF E(1)]]
    have link: "get_u32 (entry_read a1 e 4) = get_u32 (ar_rd a ?g)"
      using entry_read_view [OF wf1 cell, of 4] can by (simp add: e m1 get_u32_def ar_growsD(2) [OF E(1)])
    have z: "entry_write e ?z (a1\<lparr>ar_garbages := x\<rparr>) = (ar_wr ?g ?z a1)\<lparr>ar_garbages := x\<rparr>" for x
      using entry_write_view [of "a1\<lparr>ar_garbages := x\<rparr>" ?g ?z] wf1 cell
      by (simp add: e m1 ar_rd_length [OF wf1] ar_wr_garbages)
    note W = ar.write_effect [OF wf E(1) cell, of ?z]
    let ?c = "(ar_wr ?g ?z a1)\<lparr>ar_garbages := get_u32 (ar_rd a ?g), ar_n_garbages := ar_n_garbages a - 1\<rparr>"
    note mw = ar_metaD [OF trans [OF ar_wr_fields(1) [of ?g ?z a1] ar_growsD(4) [OF E(1)]]]
    have c: "ar_wf ?c" "ar_io ?c \<noteq> None" using W(1) mw(6) io by auto
    have cg: "?g \<in> ar_cells ?c" using ar_write(3) [OF wf1 cell, of ?z] cell m1 by simp
    obtain a2 on where on: "grn_array_bit_on env ?c ?g = (a2, on)" by fastforce
    note B = io_bit_on_view [OF c(2,1) on]
    have eq: "(a', rid, p) = (if on then (a2\<lparr>ar_n_entries := ar_n_entries a2 + 1\<rparr>, ?g, Some e)
        else ((entry_write e (u32_bytes (ar_garbages a2)) a2)\<lparr>ar_garbages := ?g, ar_n_garbages := ar_n_garbages a2 + 1\<rparr>,
              GRN_ID_NIL, None))"
      unfolding add [symmetric] array_reuse_linked_def q Some prod.case option.case Let_def link
      using on m1 mw by (cases on) (simp_all add: z)
    show ?thesis
    proof (cases on)
      case True
      then obtain a3 where g3: "ar_grows ?c a3" "ar_has_bit a3 ?g" and a2: "a2 = ar_set_bit ?g True a3"
        using B(2) by auto
      note S = ar.bit_effect [OF c(1) g3, of True]
      note m2 = ar_metaD [OF trans [OF ar_set_bit_fields(1) [of ?g True a3] ar_growsD(4) [OF g3(1)]]]
      have a': "a' = a2\<lparr>ar_n_entries := ar_n_entries a2 + 1\<rparr>" "rid = ?g" "p = Some e" using eq True by auto
      have bk: "ar_backed a j \<Longrightarrow> ar_backed a3 j" for j
        using ar_growsD(10) [OF E(1), of j] ar_growsD(10) [OF g3(1), of j] by simp
      have "array_ok a'" "ar_contents a ?g = None" "ar_contents a' = (ar_contents a)(?g \<mapsto> ?z)"
        using reused_ok [OF ok head, of a'] bk S W m2 mw ar_growsD(5) [OF g3(1)] ar_growsD(5) [OF E(1)]
        by (simp_all add: a'(1) a2)
      moreover have "ar_ptr a' ?g = e"
        using ar_growsD(9) [OF g3(1), of ?g] cg by (simp add: a' a2 e)
      ultimately show ?thesis using head a' by (simp add: added_def)
    next
      case False
      note g2 = B(1) [OF False]
      note m2 = ar_metaD [OF ar_growsD(4) [OF g2]]
      have rd2: "ar_rd a2 j = (if j = ?g then ?z else ar_rd a j)" for j
        using W(2) ar_growsD(2) [OF g2] by simp
      have e2: "e = ar_ptr a2 ?g" and c2: "?g \<in> ar_cells a2"
        using ar_growsD(8,9) [OF g2 cg] by (simp_all add: e)
      let ?v = "put_u32 (ar_garbages a2) ?z"
      have w2: "entry_write e (u32_bytes (ar_garbages a2)) a2 = ar_wr ?g ?v a2"
        using entry_write_link [OF ar_growsD(1) [OF g2] c2, of "ar_garbages a2"] can m2 mw rd2 e2 by simp
      have vs2: "length ?v = ar_value_size a2" using can m2 mw by simp
      note W2 = ar_write [OF ar_growsD(1) [OF g2] c2 vs2]
      have a': "a' = (ar_wr ?g ?v a2)\<lparr>ar_garbages := ?g, ar_n_garbages := ar_n_garbages a2 + 1\<rparr>"
        "rid = GRN_ID_NIL" "p = None" using eq False w2 by auto
      have bk: "ar_backed a j \<Longrightarrow> ar_backed a2 j" for j
        using ar_growsD(10) [OF E(1), of j] ar_growsD(10) [OF g2, of j] by simp
      have "array_ok a' \<and> ar_contents a' = ar_contents a"
        using bk relinked_ok [OF ok pool_head(1,2) [OF array_okD(2) [OF ok] head], of a']
          W2 W m2 mw ar_metaD [OF ar_wr_fields(1) [of ?g ?v a2]] ar_growsD(3,5) [OF g2] ar_growsD(5) [OF E(1)] rd2
        by (simp add: a'(1) get_put_u32)
      then show ?thesis using a' by simp
    qed
  qed
qed

lemma id_succ_below_max:
  assumes "mx < GRN_ARRAY_MAX"
  shows "mx < mx + 1" and "mx + 1 \<le> GRN_ARRAY_MAX" and "mx + 1 \<noteq> GRN_ID_NIL"
proof -
  have "unat mx < unat GRN_ARRAY_MAX" using assms by (simp add: word_less_nat_alt)
  then have "unat mx < 1073741815" by (simp add: GRN_ARRAY_MAX_def)
  moreover from this have "unat (mx + 1) = Suc (unat mx)" by (intro unat_Suc_no_wrap) simp
  ultimately show "mx < mx + 1" "mx + 1 \<le> GRN_ARRAY_MAX" "mx + 1 \<noteq> GRN_ID_NIL"
    by (auto simp: word_less_nat_alt word_le_nat_alt GRN_ARRAY_MAX_def)
qed

lemma io_extend_ok:
  assumes ok: "array_ok a" and io: "ar_io a \<noteq> None" and head: "ar_garbages a = GRN_ID_NIL"
    and add: "array_extend_io env a = (a', rid, p)"
  shows "added a a' rid p \<or> rid = GRN_ID_NIL \<and> p = None \<and> ar_grows a a'"
proof (cases "GRN_ARRAY_MAX \<le> ar_curr_rec a")
  case True
  then show ?thesis
    using add ar_grows_refl [OF array_okD(1) [OF ok]] by (simp add: array_extend_io_def)
next
  case False
  let ?n = "ar_curr_rec a + 1"
  have mx: "grn_array_get_max_id a = ar_curr_rec a"
    using io by (simp add: grn_array_get_max_id_def grn_array_is_io_array_def)
  have n: "ar_curr_rec a < ?n" "?n \<le> GRN_ARRAY_MAX" "?n \<noteq> GRN_ID_NIL"
    using id_succ_below_max [of "ar_curr_rec a"] False by auto
  have dead: "\<not> ar_bit a ?n" using array_ok_live_le(2) [OF ok, of ?n] n(1) mx by auto
  have wf: "ar_wf a" using ok by (simp add: array_ok_def)
  obtain a1 on where on: "grn_array_bit_on env a ?n = (a1, on)" by fastforce
  note B = io_bit_on_view [OF io wf on]
  show ?thesis
  proof (cases on)
    case off: False
    then show ?thesis using add False on B(1) by (simp add: array_extend_io_def)
  next
    case True
    then obtain b1 where g1: "ar_grows a b1" "ar_has_bit b1 ?n" and a1: "a1 = ar_set_bit ?n True b1"
      using B(2) by auto
    note S = ar.bit_effect [OF wf g1, of True, folded a1]
    note m1 = ar_metaD [OF trans [OF ar_set_bit_fields(1) [of ?n True b1] ar_growsD(4) [OF g1(1)]], folded a1]
    have io1: "ar_io a1 \<noteq> None" using m1(6) io by simp
    obtain a2 q where q: "grn_array_io_entry_at env a1 ?n True = (a2, q)" by fastforce
    note E = io_entry_at_view [OF io1 S(1) q]
    note m2 = ar_metaD [OF ar_growsD(4) [OF E(1)]]
    have mx1: "grn_array_get_max_id a1 = grn_array_get_max_id a" using ar_growsD(5) [OF g1(1)] by (simp add: a1)
    have eq: "(a', rid, p) = (case q of None \<Rightarrow> (grn_array_bit_off env a2 ?n, GRN_ID_NIL, None)
        | Some e \<Rightarrow> (a2\<lparr>ar_curr_rec := ?n, ar_n_entries := ar_n_entries a2 + 1\<rparr>, ?n, Some e))"
      unfolding add [symmetric] array_extend_io_def using False on True q
      by (simp add: Let_def split: option.splits)
    show ?thesis
    proof (cases q)
      case None
      have hb: "ar_has_bit a2 ?n"
        using ar_growsD(7) [OF E(1)] ar_set(4) [OF ar_growsD(1) [OF g1(1)] g1(2), of True ?n] g1(2) by (simp add: a1)
      have "unat (bitmap_byte_id ?n) \<le> unat (bitmap_byte_id GRN_ARRAY_MAX)" using n(2) by (rule bitmap_byte_mono)
      then obtain a3 where g3: "ar_grows a2 a3" "ar_has_bit a3 ?n" and off: "grn_array_bit_off env a2 ?n = ar_set_bit ?n False a3"
        using io_bit_off_view(2) [OF _ ar_growsD(1) [OF E(1)] hb, of env] m2(6) io1 by auto
      note S3 = ar.bit_effect [OF ar_growsD(1) [OF E(1)] g3, of False]
      have bits: "ar_bit (ar_set_bit ?n False a3) j = ar_bit a j" "ar_rd (ar_set_bit ?n False a3) j = ar_rd a j" for j
        using S3(2,3) S(2,3) dead ar_growsD(2,3) [OF E(1)] by auto
      have has: "ar_has_bit a j \<Longrightarrow> ar_has_bit (ar_set_bit ?n False a3) j" for j
        using ar_growsD(7) [OF g1(1)] ar_growsD(7) [OF E(1)] ar_growsD(7) [OF g3(1)]
          ar_set(4) [OF ar_growsD(1) [OF g1(1)] g1(2)] ar_set(4) [OF ar_growsD(1) [OF g3(1)] g3(2)] a1 by auto
      have cells: "j \<in> ar_cells a \<Longrightarrow> j \<in> ar_cells a3 \<and> ar_ptr a3 j = ar_ptr a j" for j
        using ar_growsD(8,9) [OF g1(1), of j] ar_growsD(8,9) [OF E(1), of j] ar_growsD(8,9) [OF g3(1), of j]
        by (simp add: a1)
      have "ar_meta a3 = ar_meta a" "grn_array_get_max_id a3 = grn_array_get_max_id a"
        using ar_growsD(4,5) [OF g1(1)] ar_growsD(4,5) [OF E(1)] ar_growsD(4,5) [OF g3(1)] by (simp_all add: a1)
      moreover have "ar_backed a j \<Longrightarrow> ar_backed a3 j" for j
        using ar_growsD(10) [OF g1(1), of j] ar_growsD(10) [OF E(1), of j] ar_growsD(10) [OF g3(1), of j]
        by (simp add: a1)
      ultimately have "ar_grows a (ar_set_bit ?n False a3)"
        using bits has cells S3(1) by (auto simp: ar_grows_def)
      then show ?thesis using eq None off by simp
    next
      case (Some e)
      have a': "a' = a2\<lparr>ar_curr_rec := ?n, ar_n_entries := ar_n_entries a2 + 1\<rparr>" "rid = ?n" "p = Some e"
        using eq Some by auto
      have view: "ar_wf a'" "ar_io a' = None \<longleftrightarrow> ar_io a = None" "grn_array_get_max_id a' = ?n"
        "ar_bit a' = ar_bit a2" "ar_rd a' = ar_rd a2" "ar_ptr a' = ar_ptr a2"
        using ar_growsD(1) [OF E(1)] m2 m1 io
        by (auto simp: a' grn_array_get_max_id_def grn_array_is_io_array_def)
      have "ar_has_bit a2 ?n"
        using ar_growsD(7) [OF E(1)] ar_set(4) [OF ar_growsD(1) [OF g1(1)] g1(2), of True ?n] g1(2) by (simp add: a1)
      then have bk: "ar_backed a j \<or> j = ?n \<Longrightarrow> ar_backed a2 j" for j
        using ar_growsD(10) [OF g1(1), of j] ar_growsD(10) [OF E(1), of j] E(2) Some
          ar_cell_backed [OF ar_growsD(1) [OF E(1)], of ?n] by (auto simp: a1)
      have "array_ok a'" "ar_contents a ?n = None" "ar_contents a' = (ar_contents a)(?n \<mapsto> replicate (ar_value_size a) 0)"
        using extended_ok [OF ok head, of ?n a'] bk n view S ar_growsD(2,3) [OF E(1)] m1 m2 io head
        by (simp_all add: mx a')
      then show ?thesis using n(3) E(2) [of e] Some view(6) by (simp add: added_def a'(2,3))
    qed
  qed
qed

text \<open>
  Adding a record either fails and changes nothing, or hands out an id that was not in use, with a
  zeroed value.  A tiny array has no limit of its own; its ids must not wrap around.
\<close>

lemma add_ok:
  assumes ok: "array_ok a" and add: "grn_array_add env a = (a', rid, p)"
    and room: "ar_io a = None \<Longrightarrow> grn_array_get_max_id a < grn_array_get_max_id a + 1"
  shows "added a a' rid p \<or> rid = GRN_ID_NIL \<and> p = None \<and> array_ok a' \<and> ar_contents a' = ar_contents a"
proof (cases "ar_io a")
  case None
  have add': "grn_array_add_to_tiny_array env a = (a', rid, p)"
    using add None by (simp add: grn_array_add_def grn_array_is_io_array_def)
  show ?thesis
  proof (cases "ar_garbages a = GRN_ID_NIL")
    case True
    then show ?thesis
      using tiny_extend_ok [OF ok None True room [OF None] add'] array_ok_grows [OF ok] ar_growsD(6) by auto
  next
    case False
    then show ?thesis using tiny_reuse_ok [OF ok None False add'] ok by auto
  qed
next
  case (Some io)
  then have io: "ar_io a \<noteq> None" by simp
  obtain a1 rc where w: "grn_io_array_wal_touch env a = (a1, rc)" by fastforce
  note g1 = wal_touch_grows(1) [OF w array_okD(1) [OF ok]]
  have ok1: "array_ok a1" by (rule array_ok_grows [OF ok g1])
  note m1 = ar_metaD [OF ar_growsD(4) [OF g1]]
  have io1: "ar_io a1 \<noteq> None" using io m1(6) by simp
  have add': "(a', rid, p) = (if grn_array_error_if_truncated a \<noteq> GRN_SUCCESS then (a, GRN_ID_NIL, None)
      else if rc \<noteq> GRN_SUCCESS then (a1, GRN_ID_NIL, None)
      else if ar_garbages a1 \<noteq> GRN_ID_NIL then array_reuse_linked env a1 (ar_garbages a1) else array_extend_io env a1)"
    unfolding add [symmetric] using io w array_okD(3) [OF ok1 io1]
    by (simp add: grn_array_add_def grn_array_add_to_io_array_def grn_array_is_io_array_def Let_def)
  have "added a1 a' rid p \<Longrightarrow> added a a' rid p"
    using ar_growsD(6) [OF g1] m1(1) by (simp add: added_def)
  then show ?thesis
    using add' ok ok1 ar_growsD(6) [OF g1] io_reuse_ok [OF ok1 io1, of env a' rid p]
      io_extend_ok [OF ok1 io1, of env a' rid p] array_ok_grows [OF ok1, of a'] ar_growsD(6) [of a1 a']
    by (auto split: if_splits)
qed

section \<open>A responsive environment\<close>

text \<open>When every segment can be mapped and blocks can be allocated, probes answer.\<close>

definition responsive :: "array_env \<Rightarrow> bool" where
  "responsive env \<longleftrightarrow> (\<forall>s. seg_ref_ok (ae_io env) s) \<and> (\<forall>b. alloc_ok (ae_alloc_array env) b)
     \<and> (\<forall>b. alloc_ok (ae_alloc_bitmap env) b)"

lemma io_array_at_answers:
  assumes at: "grn_io_array_at env io k i add = (io', p)" and "\<forall>s. seg_ref_ok env s"
    and k: "k < length (io_ainfo io)"
    and "io_lseg io k i < max_n_segments (io_ainfo io ! k)" and nz: "seg io k (io_lseg io k i) \<noteq> 0"
  shows "p \<noteq> None"
proof -
  have "addrs (io_ainfo (grn_io_segment_alloc env io k (io_lseg io k i) add) ! k) (io_lseg io k i)"
    using assms(2) nz by (auto simp: grn_io_segment_alloc_def Let_def set_ainfo_nth k)
  then show ?thesis
    using at assms(4) by (auto simp: grn_io_array_at_def Let_def io_lseg_def split: if_splits)
qed

lemma array_lseg_bounds:
  assumes "array_layout n io" and "rid \<le> GRN_ARRAY_MAX"
  shows "io_lseg io 0 (unat rid) < max_n_segments (io_ainfo io ! 0)"
    and "io_lseg io 1 (unat (bitmap_byte_id rid)) < max_n_segments (io_ainfo io ! 1)"
proof -
  have "unat rid \<le> unat GRN_ARRAY_MAX" using assms(2) by (simp add: word_le_nat_alt)
  then have "io_lseg io 0 (unat rid) \<le> io_lseg io 0 (unat GRN_ARRAY_MAX)"
    "io_lseg io 1 (unat (bitmap_byte_id rid)) \<le> io_lseg io 1 (unat (bitmap_byte_id GRN_ARRAY_MAX))"
    using bitmap_byte_mono [OF assms(2)] by (auto simp: io_lseg_def div_le_mono)
  then show "io_lseg io 0 (unat rid) < max_n_segments (io_ainfo io ! 0)"
    "io_lseg io 1 (unat (bitmap_byte_id rid)) < max_n_segments (io_ainfo io ! 1)"
    using assms(1) by (auto simp: array_layout_def array_capacity_def array_segments)
qed

lemma bitmap_at_answers:
  assumes ok: "array_ok a" and env: "responsive env" and at: "grn_array_bitmap_at env a rid = (a', b)"
    and le: "rid \<noteq> GRN_ID_NIL" "rid \<le> grn_array_get_max_id a"
  shows "b = (if ar_bit a rid then 1 else 0)"
proof -
  have bk: "ar_backed a rid" using array_okD(6) [OF ok le] .
  have "b \<noteq> - 1"
  proof (cases "ar_io a")
    case None
    have "bitmap_wf (ar_bitmap a)" using array_okD(1) [OF ok] None by (simp add: ar_wf_def)
    then show ?thesis
      using at bk None env
      by (auto simp: grn_array_bitmap_at_def grn_array_is_io_array_def bitmap_put_eq ar_backed_def split: if_splits)
  next
    case (Some io)
    obtain io' q where q: "grn_io_array_at (ae_io env) io 1 (unat (bitmap_byte_id rid)) False = (io', q)"
      by fastforce
    have lay: "array_layout (ar_value_size a) io" using array_okD(1) [OF ok] Some by (simp add: ar_wf_def)
    then have k: "1 < length (io_ainfo io)" by (simp add: array_layout_def)
    have "rid \<le> GRN_ARRAY_MAX" using array_okD(4) [OF ok] Some le(2) by auto
    then have "q \<noteq> None"
      using io_array_at_answers [OF q _ k] env array_lseg_bounds(2) [OF lay] bk Some
      by (auto simp: responsive_def ar_backed_def array_segments)
    then show ?thesis
      using at Some q
      by (auto simp: grn_array_bitmap_at_def grn_array_is_io_array_def grn_io_array_bit_at_def the_io_def
          array_segments Let_def byte_get_bit_01 split: if_splits)
  qed
  then show ?thesis
    using bitmap_at_view(2) [OF array_okD(1) [OF ok] at] array_okD(3) [OF ok] by auto
qed

lemma entry_at_answers:
  assumes ok: "array_ok a" and env: "responsive env" and at: "grn_array_entry_at env a rid add = (a', p)"
    and le: "rid \<noteq> GRN_ID_NIL" "rid \<le> grn_array_get_max_id a"
  shows "p \<noteq> None"
proof -
  have bk: "ar_backed a rid" using array_okD(6) [OF ok le] .
  show ?thesis
  proof (cases "ar_io a")
    case None
    have "tiny_wf (ar_array a)" using array_okD(1) [OF ok] None by (simp add: ar_wf_def tiny_layout_ok_def)
    then show ?thesis
      using at None bk le(1) tiny_put_succeeds [of "ae_alloc_array env" rid "ar_array a"]
      by (auto simp: grn_array_entry_at_def grn_array_is_io_array_def grn_tiny_array_at_def ar_backed_def)
  next
    case (Some io)
    obtain io' q where q: "grn_io_array_at (ae_io env) io 0 (unat rid) add = (io', q)" by fastforce
    have lay: "array_layout (ar_value_size a) io" using array_okD(1) [OF ok] Some by (simp add: ar_wf_def)
    then have k: "0 < length (io_ainfo io)" by (simp add: array_layout_def)
    have "rid \<le> GRN_ARRAY_MAX" using array_okD(4) [OF ok] Some le(2) by auto
    then have "q \<noteq> None"
      using io_array_at_answers [OF q _ k] env array_lseg_bounds(1) [OF lay] bk Some
      by (auto simp: responsive_def ar_backed_def array_segments)
    then show ?thesis
      using at Some q
      by (auto simp: grn_array_entry_at_def grn_array_io_entry_at_def grn_array_is_io_array_def the_io_def
          array_segments)
  qed
qed

lemma get_value_answers:
  assumes ok: "array_ok a" and env: "responsive env" and tr: "grn_array_error_if_truncated a = GRN_SUCCESS"
    and live: "ar_contents a rid = Some bs" and get: "grn_array_get_value env a rid = (a', v)"
  shows "v = Some bs"
proof -
  have bit: "ar_bit a rid" using live by (simp add: ar_contents_def split: if_splits)
  note le = array_ok_live_le [OF ok bit]
  have "v \<noteq> None"
  proof (cases "ar_n_garbages a = 0")
    case True
    obtain a2 p where p: "grn_array_entry_at env a rid False = (a2, p)" by fastforce
    have "p \<noteq> None" by (rule entry_at_answers [OF ok env p le])
    then show ?thesis
      using get p True tr le
      by (auto simp: grn_array_get_value_def grn_array_get_value_inline_def split: if_splits)
  next
    case False
    obtain a1 b where b: "grn_array_bitmap_at env a rid = (a1, b)" by fastforce
    note g = array_ok_bitmap_at(1) [OF ok b]
    obtain a2 p where p: "grn_array_entry_at env a1 rid False = (a2, p)" by fastforce
    have "p \<noteq> None"
      using entry_at_answers [OF array_ok_grows [OF ok g] env p le(1)] le(2) ar_growsD(5) [OF g] by simp
    moreover have "b = 1" using bitmap_at_answers [OF ok env b le] bit by simp
    ultimately show ?thesis
      using get b p False tr
      by (auto simp: grn_array_get_value_def grn_array_get_value_inline_def split: if_splits)
  qed
  then show ?thesis using get_value_ok(3) [OF ok get] live by auto
qed

section \<open>Enumerating the records\<close>

text \<open>The live ids above \<open>c\<close> and up to \<open>t\<close>, in ascending order.\<close>

definition ids_between :: "grn_array \<Rightarrow> grn_id \<Rightarrow> grn_id \<Rightarrow> grn_id list" where
  "ids_between a c t = live_between (ar_bit a) c t"

lemma ids_between_cong: "ar_bit a' = ar_bit a \<Longrightarrow> ids_between a' c t = ids_between a c t"
  by (simp add: ids_between_def)

lemma ids_between_step:
  "c < t \<Longrightarrow> ids_between a c t = (if ar_bit a (c + 1) then (c + 1) # ids_between a (c + 1) t else ids_between a (c + 1) t)"
  unfolding ids_between_def by (rule live_between_step)

lemma ids_between_empty: "ids_between a t t = []"
  by (simp add: ids_between_def live_between_empty)

lemma next_loop_forward:
  assumes "array_ok a" and "responsive env" and "c \<le> t" and "t \<le> grn_array_get_max_id a"
    and "cursor_next_loop env a Forward t c = (a', c', found)"
  shows "ar_grows a a' \<and> c \<le> c' \<and> c' \<le> t \<and>
    (if found then c' \<noteq> GRN_ID_NIL \<and> ids_between a c t = c' # ids_between a c' t
     else ids_between a c t = [])"
  using assms
proof (induction env a "Forward" t c arbitrary: a' c' rule: cursor_next_loop.induct)
  case (1 env a t c)
  show ?case
  proof (cases "c = t")
    case True
    then show ?thesis
      using "1.prems" ar_grows_refl [OF array_okD(1)] by (simp add: cursor_next_loop.simps ids_between_empty)
  next
    case ne: False
    then have lt: "c < t" using "1.prems"(3) by simp
    note W = word_succ [OF lt]
    note nz = W(4)
    have le: "c + 1 \<le> grn_array_get_max_id a" using W(1) "1.prems"(4) by (rule order_trans)
    show ?thesis
    proof (cases "ar_n_garbages a = 0")
      case True
      then have "ar_bit a (c + 1)" using array_ok_live [OF "1.prems"(1) True] nz le by simp
      moreover have "a' = a" "c' = c + 1" found
        using "1.prems"(5) True ne by (simp_all add: cursor_next_loop.simps [of env a])
      ultimately show ?thesis
        using nz W(1,3) ids_between_step [OF lt, of a] ar_grows_refl [OF array_okD(1) [OF "1.prems"(1)]] by simp
    next
      case False
      obtain a1 b where b: "grn_array_bitmap_at env a (c + 1) = (a1, b)" by fastforce
      note g = array_ok_bitmap_at(1) [OF "1.prems"(1) b]
      have bit: "b = (if ar_bit a (c + 1) then 1 else 0)"
        by (rule bitmap_at_answers [OF "1.prems"(1,2) b nz le])
      show ?thesis
      proof (cases "ar_bit a (c + 1)")
        case True
        then have "a' = a1" "c' = c + 1" found
          using "1.prems"(5) ne False b bit by (simp_all add: cursor_next_loop.simps [of env a])
        then show ?thesis
          using True nz W(1,3) ids_between_step [OF lt, of a] g by simp
      next
        case dead: False
        have rec: "cursor_next_loop env a1 Forward t (c + 1) = (a', c', found)"
          using "1.prems"(5) ne False b bit dead by (simp add: cursor_next_loop.simps [of env a])
        have "ar_grows a1 a' \<and> c + 1 \<le> c' \<and> c' \<le> t \<and>
            (if found then c' \<noteq> GRN_ID_NIL \<and> ids_between a1 (c + 1) t = c' # ids_between a1 c' t
             else ids_between a1 (c + 1) t = [])"
          using "1.hyps" [of a1 b] ne False bit dead rec "1.prems"(2,4) W(1)
            array_ok_grows [OF "1.prems"(1) g] ar_growsD(5) [OF g] b by (simp split: if_splits)
        then show ?thesis
          using g ids_between_step [OF lt, of a] dead ids_between_cong [OF ar_growsD(3) [OF g]] W(3)
          by (auto intro: ar_grows_trans)
      qed
    qed
  qed
qed

lemma skip_forward:
  assumes "array_ok a" and "responsive env" and "c \<le> t" and "t \<le> grn_array_get_max_id a" and "0 \<le> k"
    and "cursor_skip env a Forward t k c = (a', c')"
  shows "ar_grows a a' \<and> c \<le> c' \<and> c' \<le> t \<and> ids_between a c' t = drop (nat k) (ids_between a c t)"
  using assms
proof (induction env a "Forward" t k c arbitrary: a' c' rule: cursor_skip.induct)
  case (1 env a t k c)
  note ok = "1.prems"(1)
  show ?case
  proof (cases "k = 0 \<or> c = t")
    case True
    then show ?thesis
      using "1.prems" ar_grows_refl [OF array_okD(1) [OF ok]]
      by (auto simp: cursor_skip.simps [of env a] ids_between_empty)
  next
    case False
    then have lt: "c < t" using "1.prems"(3) by auto
    note W = word_succ [OF lt]
    have le: "c + 1 \<le> grn_array_get_max_id a" using W(1) "1.prems"(4) by (rule order_trans)
    obtain a1 b where b: "grn_array_bitmap_at env a (c + 1) = (a1, b)" by fastforce
    note g = array_ok_bitmap_at(1) [OF ok b]
    have bit: "b = (if ar_bit a (c + 1) then 1 else 0)"
      by (rule bitmap_at_answers [OF ok "1.prems"(2) b W(4) le])
    define k' where "k' = (if b = 1 then k - 1 else k)"
    have k': "0 \<le> k'" using False "1.prems"(5) by (simp add: k'_def)
    have rec: "cursor_skip env a1 Forward t k' (c + 1) = (a', c')"
      using "1.prems"(6) False b by (simp add: cursor_skip.simps [of env a] k'_def)
    have "ar_grows a1 a' \<and> c + 1 \<le> c' \<and> c' \<le> t \<and>
        ids_between a1 c' t = drop (nat k') (ids_between a1 (c + 1) t)"
      using "1.hyps" [of a1 b a' c'] False rec "1.prems"(2,4) W(1) k' b
        array_ok_grows [OF ok g] ar_growsD(5) [OF g] by (simp flip: k'_def)
    moreover have "drop (nat k') (ids_between a (c + 1) t) = drop (nat k) (ids_between a c t)"
      using ids_between_step [OF lt, of a] bit False "1.prems"(5)
      by (auto simp: k'_def nat_diff_distrib drop_Cons' )
    ultimately show ?thesis
      using g ids_between_cong [OF ar_growsD(3) [OF g]] W(3) by (auto intro: ar_grows_trans)
  qed
qed

text \<open>With no deleted record, a cursor moves by arithmetic; the offset must stay within the range.\<close>

lemma ids_between_dense:
  assumes ok: "array_ok a" and ng: "ar_n_garbages a = 0" and "c \<le> t" and "t \<le> grn_array_get_max_id a"
    and "n \<le> unat t - unat c"
  shows "ids_between a (c + of_nat n) t = drop n (ids_between a c t) \<and> c \<le> c + of_nat n \<and> c + of_nat n \<le> t"
  using assms(3-)
proof (induction n arbitrary: c)
  case 0
  then show ?case by simp
next
  case (Suc n)
  then have lt: "c < t" by (simp add: word_less_nat_alt)
  note W = word_succ [OF lt]
  have "unat (c + 1) = Suc (unat c)"
    using lt unat_lt_2p32 [of t] by (intro unat_Suc_no_wrap) (simp add: word_less_nat_alt del: unat_lt_2p32)
  then have "n \<le> unat t - unat (c + 1)" using Suc.prems(3) by simp
  from Suc.IH [OF W(1) Suc.prems(2) this]
  have IH: "ids_between a (c + 1 + of_nat n) t = drop n (ids_between a (c + 1) t)"
    "c + 1 \<le> c + 1 + of_nat n" "c + 1 + of_nat n \<le> t" by auto
  have "ar_bit a (c + 1)" using array_ok_live [OF ok ng] W(1,4) Suc.prems(2) by auto
  then show ?case
    using IH ids_between_step [OF lt, of a] W(3) by (auto simp: algebra_simps)
qed

text \<open>Calling \<^verbatim>\<open>grn_array_cursor_next\<close> until it returns no record, at most \<open>n\<close> times.\<close>

fun cursor_take :: "array_env \<Rightarrow> nat \<Rightarrow> grn_array \<Rightarrow> grn_array_cursor \<Rightarrow> grn_array \<times> grn_id list" where
  "cursor_take env 0 a cur = (a, [])"
| "cursor_take env (Suc n) a cur =
     (case grn_array_cursor_next env a cur of
        (a, cur, rid) \<Rightarrow>
          if rid = GRN_ID_NIL then (a, [])
          else (case cursor_take env n a cur of (a, rids) \<Rightarrow> (a, rid # rids)))"

lemma cursor_take_forward:
  assumes "array_ok a" and "responsive env" and "ac_dir cur = Forward"
    and "ac_curr_rec cur \<le> ac_tail cur" and "ac_tail cur \<le> grn_array_get_max_id a"
    and "cursor_take env n a cur = (a', rids)"
  shows "ar_grows a a' \<and> rids = take (min n (unat (ac_rest cur))) (ids_between a (ac_curr_rec cur) (ac_tail cur))"
  using assms
proof (induction n arbitrary: a cur a' rids)
  case 0
  then show ?case using ar_grows_refl [OF array_okD(1)] by simp
next
  case (Suc n)
  obtain a1 c f where l: "cursor_next_loop env a Forward (ac_tail cur) (ac_curr_rec cur) = (a1, c, f)"
    by (metis prod_cases3)
  note N = next_loop_forward [OF Suc.prems(1,2,4,5) l]
  show ?case
  proof (cases "ac_rest cur \<noteq> 0 \<and> f")
    case False
    then show ?thesis
      using Suc.prems(1,3,6) l N ar_grows_refl [OF array_okD(1)]
      by (auto simp: grn_array_cursor_next_def Let_def split: if_splits)
  next
    case True
    let ?cur = "cur\<lparr>ac_curr_rec := c, ac_rest := ac_rest cur - 1\<rparr>"
    obtain a2 rs where rs: "cursor_take env n a1 ?cur = (a2, rs)" by fastforce
    have g: "ar_grows a a1" and c: "c \<noteq> GRN_ID_NIL" "c \<le> ac_tail cur"
      and ids: "ids_between a (ac_curr_rec cur) (ac_tail cur) = c # ids_between a c (ac_tail cur)"
      using N True by auto
    have r: "a' = a2" "rids = c # rs"
      using Suc.prems(3,6) l True c rs by (auto simp: grn_array_cursor_next_def)
    have "ar_grows a1 a2 \<and> rs = take (min n (unat (ac_rest cur - 1))) (ids_between a1 c (ac_tail cur))"
      using Suc.IH [OF array_ok_grows [OF Suc.prems(1) g] Suc.prems(2), of ?cur a2 rs]
        Suc.prems(3,5) c(2) ar_growsD(5) [OF g] rs by simp
    moreover have "unat (ac_rest cur) = Suc (unat (ac_rest cur - 1))"
      using True by (simp add: unat_pred_no_wrap)
    ultimately show ?thesis
      using g ids r ids_between_cong [OF ar_growsD(3) [OF g]] by (auto intro: ar_grows_trans)
  qed
qed

lemma ids_between_all:
  assumes "array_ok a"
  shows "ids_between a 0 (grn_array_get_max_id a) = sorted_list_of_set (dom (ar_contents a))"
proof -
  have "{j. 0 < j \<and> j \<le> grn_array_get_max_id a \<and> ar_bit a j} = dom (ar_contents a)"
    using array_ok_live_le [OF assms] by (auto simp: ar_contents_dom word_neq_0_conv)
  then show ?thesis by (simp add: ids_between_def live_between_def)
qed

lemma ids_between_length:
  assumes "array_ok a"
  shows "length (ids_between a 0 (grn_array_get_max_id a)) = unat (ar_n_entries a)"
  using array_okD(2) [OF assms]
  by (auto simp: ids_between_all [OF assms] ar_contents_dom pool_inv_def)

lemma cursor_scan_ok:
  assumes ok: "array_ok a" and env: "responsive env" and flags: "flags AND GRN_CURSOR_DESCENDING = 0"
    and off: "0 \<le> offset" "nat offset \<le> unat (ar_n_entries a)" and lim: "limit < 2 ^ 32"
    and open_cur: "grn_array_cursor_open env a GRN_ID_NIL GRN_ID_NIL offset limit flags = (a1, Some cur)"
    and scan: "cursor_take env n a1 cur = (a2, rids)" and n: "unat (ar_n_entries a) \<le> n"
  shows "array_ok a2" and "ar_contents a2 = ar_contents a"
    and "rids = take (if limit < 0 then n else nat limit) (drop (nat offset) (sorted_list_of_set (dom (ar_contents a))))"
proof -
  let ?mx = "grn_array_get_max_id a"
  have cur: "ac_dir cur = Forward" "ac_tail cur = ?mx"
    and rest: "ac_rest cur = (if limit < 0 then ar_n_entries a1 else of_int limit)"
    and st: "(a1, ac_curr_rec cur) = (if ar_n_garbages a \<noteq> 0 then cursor_skip env a Forward ?mx offset 0
        else (a, of_int offset))"
    using open_cur flags
    by (auto simp: grn_array_cursor_open_def cursor_bounds_def Let_def split: if_splits prod.splits)
  have st': "ar_grows a a1 \<and> ac_curr_rec cur \<le> ?mx
      \<and> ids_between a (ac_curr_rec cur) ?mx = drop (nat offset) (ids_between a 0 ?mx)"
  proof (cases "ar_n_garbages a = 0")
    case False
    then show ?thesis using skip_forward [OF ok env _ _ off(1), of 0 ?mx a1 "ac_curr_rec cur"] st by simp
  next
    case True
    have "unat (ar_n_entries a) = unat ?mx" using array_okD(2) [OF ok] True by (auto simp: pool_inv_def)
    then have "nat offset \<le> unat ?mx - unat (0 :: grn_id)" using off(2) by simp
    from ids_between_dense [OF ok True _ _ this] show ?thesis
      using st True off(1) ar_grows_refl [OF array_okD(1) [OF ok]] by (simp add: of_nat_nat)
  qed
  then have g: "ar_grows a a1" by simp
  have "ar_grows a1 a2 \<and> rids = take (min n (unat (ac_rest cur))) (ids_between a1 (ac_curr_rec cur) ?mx)"
    using cursor_take_forward [OF array_ok_grows [OF ok g] env cur(1) _ _ scan] st' cur(2) ar_growsD(5) [OF g] by simp
  then have g2: "ar_grows a a2" and rids: "rids = take (min n (unat (ac_rest cur))) (drop (nat offset) (ids_between a 0 ?mx))"
    using g st' ids_between_cong [OF ar_growsD(3) [OF g]] by (auto intro: ar_grows_trans)
  show "array_ok a2" "ar_contents a2 = ar_contents a"
    using array_ok_grows [OF ok g2] ar_growsD(6) [OF g2] by auto
  have len: "length (drop (nat offset) (ids_between a 0 ?mx)) \<le> unat (ar_n_entries a)"
    by (simp add: ids_between_length [OF ok])
  have "\<not> limit < 0 \<Longrightarrow> unat (ac_rest cur) = nat limit"
    using rest lim unat_of_int_no_wrap [of limit, where 'a = 32] by simp
  moreover have "limit < 0 \<Longrightarrow> unat (ac_rest cur) = unat (ar_n_entries a)"
    using rest ar_metaD(3) [OF ar_growsD(4) [OF g]] by simp
  ultimately show "rids = take (if limit < 0 then n else nat limit) (drop (nat offset) (sorted_list_of_set (dom (ar_contents a))))"
    using rids len n by (auto simp: ids_between_all [OF ok, symmetric] min_def)
qed

section \<open>The next record\<close>

lemma array_next_loop_ok:
  assumes "array_ok a" and "responsive env" and "mx = grn_array_get_max_id a" and "mx < mx + 1" and "rid \<le> mx"
  shows "\<exists>a' r. array_next_loop env a mx rid = Some (a', r) \<and> ar_grows a a' \<and>
    r = (case ids_between a rid mx of [] \<Rightarrow> GRN_ID_NIL | x # _ \<Rightarrow> x)"
  using assms
proof (induction "unat mx - unat rid" arbitrary: a rid)
  case 0
  then have "rid = mx" by (simp add: word_le_nat_alt word_unat_eq_iff)
  then show ?case
    using 0 ar_grows_refl [OF array_okD(1)]
    by (auto simp: array_next_loop.simps ids_between_empty)
next
  case (Suc d)
  note ok = Suc.prems(1)
  have lt: "rid < mx" using Suc.hyps(2) by (simp add: word_less_nat_alt)
  note W = word_succ [OF lt]
  have u: "unat (rid + 1) = Suc (unat rid)"
    using lt unat_lt_2p32 [of mx] by (intro unat_Suc_no_wrap) (simp add: word_less_nat_alt del: unat_lt_2p32)
  show ?case
  proof (cases "ar_n_garbages a = 0")
    case True
    then have "ar_bit a (rid + 1)" using array_ok_live [OF ok True] W Suc.prems(3) by simp
    then show ?thesis
      using True W ids_between_step [OF lt, of a] ar_grows_refl [OF array_okD(1) [OF ok]]
      by (simp add: array_next_loop.simps)
  next
    case False
    obtain a1 b where b: "grn_array_bitmap_at env a (rid + 1) = (a1, b)" by fastforce
    note g = array_ok_bitmap_at(1) [OF ok b]
    have bit: "b = (if ar_bit a (rid + 1) then 1 else 0)"
      using bitmap_at_answers [OF ok Suc.prems(2) b W(4)] W(1) Suc.prems(3) by simp
    show ?thesis
    proof (cases "ar_bit a (rid + 1)")
      case True
      then show ?thesis
        using False W b bit g ids_between_step [OF lt, of a] by (simp add: array_next_loop.simps)
    next
      case dead: False
      have "\<exists>a' r. array_next_loop env a1 mx (rid + 1) = Some (a', r) \<and> ar_grows a1 a' \<and>
          r = (case ids_between a1 (rid + 1) mx of [] \<Rightarrow> GRN_ID_NIL | x # _ \<Rightarrow> x)"
        using Suc.hyps(1) [of "rid + 1" a1] Suc.hyps(2) u W(1) Suc.prems(2-4) array_ok_grows [OF ok g]
          ar_growsD(5) [OF g] by simp
      then show ?thesis
        using False W(1) b bit dead ids_between_step [OF lt, of a] ids_between_cong [OF ar_growsD(3) [OF g]] g
        by (auto simp: array_next_loop.simps [of env a] intro: ar_grows_trans)
    qed
  qed
qed

section \<open>Creating and opening a table\<close>

lemma log2_ceil_ge: "sz \<le> 2 ^ log2_ceil sz w"
proof (induction sz w rule: log2_ceil.induct)
  case (1 sz w)
  then show ?case by (subst log2_ceil.simps) auto
qed

lemma log2_ceil_least: "w \<le> k \<Longrightarrow> sz \<le> 2 ^ k \<Longrightarrow> log2_ceil sz w \<le> k"
proof (induction sz w rule: log2_ceil.induct)
  case (1 sz w)
  show ?case
  proof (cases "2 ^ w < sz")
    case True
    then have "w \<noteq> k" using "1.prems"(2) by auto
    with True 1 show ?thesis by (subst log2_ceil.simps) auto
  next
    case False
    then show ?thesis using "1.prems"(1) by (subst log2_ceil.simps) simp
  qed
qed

lemma log2_ceil_power: "log2_ceil (2 ^ k) 0 = k"
proof (rule antisym)
  show "log2_ceil (2 ^ k) 0 \<le> k" by (rule log2_ceil_least) auto
  show "k \<le> log2_ceil (2 ^ k) 0"
    using log2_ceil_ge [of "2 ^ k" 0] by (simp add: power_increasing_iff)
qed

lemma segment_size_log2: "log2_ceil GRN_ARRAY_SEGMENT_SIZE 0 = 22"
  using log2_ceil_power [of 22] by (simp add: GRN_ARRAY_SEGMENT_SIZE_def)

text \<open>Every id up to \<^verbatim>\<open>GRN_ARRAY_MAX\<close> has a place in both arrays of the file.\<close>

lemma create_io_layout:
  assumes create: "grn_array_create_io_array env value_size = Some io" and size: "value_size \<le> 2 ^ 22"
  shows "array_layout value_size io"
proof -
  define w where "w = log2_ceil value_size 0"
  have w: "w \<le> 22" "value_size \<le> 2 ^ w"
    using log2_ceil_least [OF _ size, of 0] log2_ceil_ge [of value_size 0] by (auto simp: w_def)
  have io: "io_ainfo io = [array_init_info GRN_ARRAY_SEGMENT_SIZE
        \<lparr>spec_w_of_element = w, spec_max_n_segments = 2 ^ (30 - (22 - w))\<rparr>,
      array_init_info GRN_ARRAY_SEGMENT_SIZE \<lparr>spec_w_of_element = 0, spec_max_n_segments = 2 ^ (30 - (22 + 3))\<rparr>]"
    using create
    by (auto simp: grn_array_create_io_array_def grn_io_create_with_array_def Let_def w_def split: if_splits)
  have wf: "io_wf io"
    using create io_wf_create by (auto simp: grn_array_create_io_array_def Let_def split: if_splits)
  have "(2 :: nat) ^ (30 - (22 - w)) * 2 ^ (22 - w) = 2 ^ 30" using w(1) by (simp flip: power_add)
  then have "unat GRN_ARRAY_MAX < 2 ^ (30 - (22 - w)) * 2 ^ (22 - w)" by (simp add: GRN_ARRAY_MAX_def)
  then have "unat GRN_ARRAY_MAX div 2 ^ (22 - w) < 2 ^ (30 - (22 - w))" by (rule less_mult_imp_div_less)
  moreover have "unat (bitmap_byte_id GRN_ARRAY_MAX) div 4194304 < 32"
    by (simp add: unat_bitmap_byte_id GRN_ARRAY_MAX_def)
  ultimately show ?thesis
    using wf w by (simp add: array_layout_def array_capacity_def array_segments io io_lseg_def array_init_info_def
        segment_size_log2)
qed

lemma create_io_blank:
  assumes "grn_array_create_io_array env value_size = Some io"
  shows "io_elem io k i = replicate (element_size (io_ainfo io ! k)) 0 \<or> 2 \<le> k"
  using assms
  by (auto simp: grn_array_create_io_array_def grn_io_create_with_array_def Let_def io_elem_def
      array_init_info_def nth_Cons split: if_splits nat.splits)

lemma init_io_ok:
  assumes init: "grn_array_init_io_array env a value_size flags = (a', GRN_SUCCESS)"
    and size: "4 \<le> value_size" "value_size \<le> 2 ^ 22"
  shows "array_ok a'" and "ar_contents a' = Map.empty"
proof -
  obtain io where create: "grn_array_create_io_array env value_size = Some io"
    and a': "ar_io a' = Some io" "ar_value_size a' = value_size" "ar_n_garbages a' = 0" "ar_n_entries a' = 0"
      "ar_garbages a' = 0" "ar_curr_rec a' = 0"
    using init by (auto simp: grn_array_init_io_array_def split: option.splits)
  note lay = create_io_layout [OF create size(2)]
  have blank: "io_elem io 0 i = replicate (element_size (io_ainfo io ! 0)) 0"
    "io_elem io 1 i = replicate (element_size (io_ainfo io ! 1)) 0" for i
    using create_io_blank [OF create, of 0 i] create_io_blank [OF create, of 1 i] by auto
  have rd: "ar_rd a' j = replicate value_size 0" for j
    using lay by (simp add: ar_rd_def a' io_rd_def array_segments blank array_layout_def min_absorb1)
  have bits: "\<not> ar_bit a' j" for j
    using lay by (simp add: ar_bit_def a' io_bit_def array_segments blank array_layout_def byte_get_bit_def
        del: One_nat_def)
  have mx: "grn_array_get_max_id a' = 0" by (simp add: grn_array_get_max_id_def grn_array_is_io_array_def a')
  have "pool_inv (ar_bit a') (ar_rd a') True GRN_ID_NIL 0 0 0"
    using pool_init [of "ar_rd a'" True] pool_inv_cong [of "ar_bit a'" "\<lambda>_. False" "ar_rd a'" "ar_rd a'"] bits by simp
  then show "array_ok a'"
    using lay rd size(1)
    by (simp add: array_ok_def ar_wf_def a' mx grn_array_can_use_value_for_garbage_def)
  show "ar_contents a' = Map.empty" using bits by (auto simp: ar_contents_def)
qed

lemma init_tiny_ok:
  assumes init: "grn_array_init_tiny_array a path value_size flags = (a', GRN_SUCCESS)"
    and size: "value_size < 2 ^ 16"
  shows "array_ok a'" and "ar_contents a' = Map.empty"
proof -
  have a': "ar_io a' = None" "ar_value_size a' = value_size" "ar_n_garbages a' = 0" "ar_n_entries a' = 0"
      "ar_garbages a' = 0" "ar_array a' = grn_tiny_array_init value_size True False"
      "ar_bitmap a' = grn_tiny_bitmap_init"
    using init size by (auto simp: grn_array_init_tiny_array_def split: if_splits)
  have rd: "ar_rd a' j = replicate value_size 0" for j
    by (simp add: ar_rd_def a' tiny_rd_def tiny_cells_init) (simp add: grn_tiny_array_init_def)
  have bits: "\<not> ar_bit a' j" for j by (simp add: ar_bit_def a' bitmap_bit_init)
  have mx: "grn_array_get_max_id a' = 0"
    by (simp add: grn_array_get_max_id_def grn_array_is_io_array_def a' grn_tiny_array_init_def)
  have "pool_inv (ar_bit a') (ar_rd a') l GRN_ID_NIL 0 0 0" for l
    using pool_init [of "ar_rd a'" l] pool_inv_cong [of "ar_bit a'" "\<lambda>_. False" "ar_rd a'" "ar_rd a'"] bits by simp
  moreover have "ar_wf a'"
    by (simp add: ar_wf_def a' tiny_layout_ok_def tiny_wf_init bitmap_wf_init) (simp add: grn_tiny_array_init_def)
  ultimately show "array_ok a'"
    using rd by (simp add: array_ok_def a' mx)
  show "ar_contents a' = Map.empty" using bits by (auto simp: ar_contents_def)
qed

lemma unmapped_frame:
  assumes "k < length (io_ainfo io)"
  shows "seg (io_unmapped io) k = seg io k" and "io_lseg (io_unmapped io) k = io_lseg io k"
    and "element_size (io_ainfo (io_unmapped io) ! k) = element_size (io_ainfo io ! k)"
    and "max_n_segments (io_ainfo (io_unmapped io) ! k) = max_n_segments (io_ainfo io ! k)"
    and "io_elem (io_unmapped io) k = io_elem io k"
  using assms by (auto simp: io_unmapped_def io_lseg_def io_elem_def io_addr_of_def io_read_def fun_eq_iff)

lemma unmapped_layout: "array_layout n io \<Longrightarrow> array_layout n (io_unmapped io)"
proof -
  assume lay: "array_layout n io"
  have len: "length (io_ainfo (io_unmapped io)) = length (io_ainfo io)"
    and tail: "io_segment_tail (io_unmapped io) = io_segment_tail io" and mem: "io_mem (io_unmapped io) = io_mem io"
    by (simp_all add: io_unmapped_def)
  have addrs: "k < length (io_ainfo io) \<Longrightarrow> addrs (io_ainfo (io_unmapped io) ! k) = (\<lambda>_. False)" for k
    by (simp add: io_unmapped_def)
  have "io_wf (io_unmapped io)"
    using lay unfolding array_layout_def io_wf_def io_seg_ok_def
    by (simp add: unmapped_frame len tail mem addrs)
  then show ?thesis
    using lay by (simp add: array_layout_def array_capacity_def array_segments unmapped_frame len)
qed

lemma open_ok:
  assumes ok: "array_ok file" and io: "ar_io file \<noteq> None" and op: "grn_array_open env io_type file = Some a"
  shows "array_ok a" and "ar_contents a = ar_contents file"
proof -
  obtain io0 where io0: "ar_io file = Some io0" using io by blast
  have can: "4 \<le> ar_value_size file"
    using array_okD(3) [OF ok io] by (simp add: grn_array_can_use_value_for_garbage_def)
  have a: "ar_io a = Some (io_unmapped io0)" "ar_value_size a = ar_value_size file"
    "ar_n_garbages a = ar_n_garbages file" "ar_n_entries a = ar_n_entries file"
    "ar_garbages a = ar_garbages file" "ar_curr_rec a = ar_curr_rec file"
    using op io0 can
    by (auto simp: grn_array_open_def Let_def grn_array_can_use_value_for_garbage_def split: if_splits)
  have lay: "array_layout (ar_value_size file) io0" using array_okD(1) [OF ok] io0 by (simp add: ar_wf_def)
  then have k: "0 < length (io_ainfo io0)" "1 < length (io_ainfo io0)" by (auto simp: array_layout_def)
  have v: "ar_rd a = ar_rd file" "ar_bit a = ar_bit file" "ar_backed a = ar_backed file"
    by (auto simp: fun_eq_iff ar_rd_def ar_bit_def ar_backed_def a io0 io_rd_def io_bit_def array_segments
        unmapped_frame [OF k(1)] unmapped_frame [OF k(2), simplified])
  have mx: "grn_array_get_max_id a = grn_array_get_max_id file"
    using io0 by (simp add: grn_array_get_max_id_def grn_array_is_io_array_def a)
  show "array_ok a"
    using array_okD [OF ok] io0 unmapped_layout [OF lay]
    by (simp add: array_ok_def v a mx ar_wf_def grn_array_can_use_value_for_garbage_def)
  show "ar_contents a = ar_contents file" by (simp add: ar_contents_def fun_eq_iff v)
qed

end
