(* ===== verification/ArrayTheorems.thy ===== *)
theory ArrayTheorems
  imports ArrayCorrect
begin

text \<open>
  The properties of \<^verbatim>\<open>grn_array\<close>, with concrete tables that show that their hypotheses hold: a tiny array
  and a file, created and filled by the operations themselves.
\<close>

section \<open>Concrete tables\<close>

definition env0 :: array_env where
  "env0 = \<lparr>ae_alloc_array = \<lparr>alloc_ok = (\<lambda>_. True), alloc_junk = (\<lambda>_. 0)\<rparr>,
           ae_alloc_bitmap = \<lparr>alloc_ok = (\<lambda>_. True), alloc_junk = (\<lambda>_. 0)\<rparr>,
           ae_io = \<lparr>seg_ref_ok = (\<lambda>_. True), calloc_ok = True\<rparr>,
           ae_wal_role_none = True, ae_wal_touch_rc = GRN_SUCCESS, ae_malloc_ok = True,
           ae_io_create_ok = True, ae_io_close_rc = GRN_SUCCESS, ae_io_remove_rc = GRN_SUCCESS,
           ae_wal_remove_rc = GRN_SUCCESS\<rparr>"

definition tiny0 :: grn_array where
  "tiny0 = fst (grn_array_init env0 calloc_array False 4 GRN_ARRAY_TINY)"

definition file0 :: grn_array where
  "file0 = fst (grn_array_init env0 calloc_array True 4 0)"

lemma responsive_env0: "responsive env0"
  by (simp add: responsive_def env0_def)

lemma tiny0_init: "grn_array_init_tiny_array calloc_array False 4 GRN_ARRAY_TINY = (tiny0, GRN_SUCCESS)"
  by (simp add: tiny0_def grn_array_init_def grn_array_init_tiny_array_def GRN_ARRAY_TINY_def)

lemma file0_init: "grn_array_init_io_array env0 calloc_array 4 0 = (file0, GRN_SUCCESS)"
  by (simp add: file0_def grn_array_init_def grn_array_init_io_array_def grn_array_create_io_array_def
      env0_def grn_io_create_with_array_def Let_def)

lemmas tiny0_ok = init_tiny_ok [OF tiny0_init, simplified]
lemmas file0_ok = init_io_ok [OF file0_init, simplified]

lemma file0_eq: "file0 = \<lparr>ar_flags = 0, ar_value_size = 4, ar_n_garbages = 0, ar_n_entries = 0, ar_garbages = 0,
   ar_io = Some \<lparr>io_max_segment = 1056, io_segment_tail = 1,
     io_ainfo = [\<lparr>w_of_elm_in_a_segment = 20, max_n_segments = 1024, element_size = 4,
                  segments = (\<lambda>_. 0), addrs = (\<lambda>_. False)\<rparr>,
                 \<lparr>w_of_elm_in_a_segment = 22, max_n_segments = 32, element_size = 1,
                  segments = (\<lambda>_. 0), addrs = (\<lambda>_. False)\<rparr>], io_mem = (\<lambda>_ _. 0)\<rparr>,
   ar_curr_rec = 0, ar_status = 2, ar_n_garbages_in_buffer = 0,
   ar_garbages_buffer = replicate GRN_ARRAY_GARBAGES_BUFFER_SIZE 0, ar_wal_touched = False,
   ar_array = grn_tiny_array_init 0 False False, ar_bitmap = grn_tiny_bitmap_init\<rparr>"
  using log2_ceil_power [of 2]
  by (simp add: file0_def grn_array_init_def GRN_ARRAY_TINY_def grn_array_init_io_array_def calloc_array_def
      grn_array_create_io_array_def env0_def grn_io_create_with_array_def Let_def array_init_info_def
      segment_size_log2 GRN_ARRAY_STATUS_GARBAGES_BUFFER_INITIALIZED_def)

lemmas io_add_simps = grn_array_add_def grn_array_add_to_io_array_def grn_array_is_io_array_def
  grn_array_error_if_truncated_def GRN_ARRAY_STATUS_TRUNCATED_def grn_io_array_wal_touch_def
  array_extend_io_def GRN_ARRAY_MAX_def grn_array_bit_on_def grn_io_array_bit_on_def grn_io_array_at_def
  Let_def array_segments bitmap_byte_id_def grn_io_segment_alloc_def segment_alloc_def set_ainfo_def
  grn_array_io_entry_at_def io_read_def io_write_def the_io_def

definition file1 :: grn_array where
  "file1 = fst (grn_array_add env0 file0)"

lemma file0_add: "grn_array_add env0 file0 = (file1, 1, Some (IoPtr (1, 4)))"
proof -
  have "snd (grn_array_add env0 file0) = (1, Some (IoPtr (1, 4)))"
    by (simp add: io_add_simps file0_eq env0_def)
  then show ?thesis by (simp add: file1_def prod_eq_iff)
qed

lemma file1_fields: "ar_value_size file1 = 4" "ar_io file1 \<noteq> None" "ar_n_entries file1 = 1"
  "grn_array_error_if_truncated file1 = GRN_SUCCESS" "ar_flags file1 = 0"
  by (simp_all add: file1_def io_add_simps file0_eq env0_def)

lemma file1_ok: "array_ok file1" "ar_contents file1 = [1 \<mapsto> replicate 4 0]"
  using add_ok [OF file0_ok(1) file0_add] file0_ok(2) by (auto simp: added_def file0_eq)

section \<open>Adding, deleting, reading and writing records\<close>

text \<open>
  C1: \<^verbatim>\<open>grn_array_add\<close> on a well-formed table either fails, returning the null id and changing no
  record, or returns an id that no record had, whose value is zeroed and at whose value the
  returned pointer points; no other record changes, and the table stays well-formed.  The
  hypothesis on a tiny array is that its ids have not reached the end of the id type.
\<close>

theorem array_add_fresh:
  assumes "array_ok a" and "ar_io a = None \<Longrightarrow> grn_array_get_max_id a < grn_array_get_max_id a + 1"
  shows "case grn_array_add env a of (a', rid, p) \<Rightarrow> array_ok a' \<and>
    (if rid = GRN_ID_NIL then p = None \<and> ar_contents a' = ar_contents a
     else ar_contents a rid = None \<and> p = Some (ar_ptr a' rid)
       \<and> ar_contents a' = (ar_contents a)(rid \<mapsto> replicate (ar_value_size a) 0))"
  using add_ok [OF assms(1) _ assms(2), of env] by (auto simp: added_def split: prod.splits)

theorem array_add_fresh_witness:
  "array_ok file0 \<and> ar_io file0 \<noteq> None \<and> ar_contents file1 = (ar_contents file0)(1 \<mapsto> replicate 4 0)"
  using array_add_fresh [where a = file0 and env = env0] file0_add file0_ok(1) by (simp add: file0_eq)



text \<open>
  C3: \<^verbatim>\<open>grn_array_get_value\<close> returns the value of a record exactly when the record is alive, provided the
  segments of the file can be mapped and the table was not truncated by another process; it
  changes no record.
\<close>

theorem array_get_value_exact:
  assumes "array_ok a" and "responsive env" and "grn_array_error_if_truncated a = GRN_SUCCESS"
  shows "case grn_array_get_value env a rid of (a', v) \<Rightarrow>
    v = ar_contents a rid \<and> array_ok a' \<and> ar_contents a' = ar_contents a"
proof -
  obtain a' v where get: "grn_array_get_value env a rid = (a', v)" by fastforce
  note G = get_value_ok [OF assms(1) get]
  have "v = ar_contents a rid"
    using G(3) get_value_answers [OF assms _ get] by (cases "ar_contents a rid"; cases v) auto
  then show ?thesis using get G(1,2) by simp
qed

theorem array_get_value_exact_witness:
  "case grn_array_get_value env0 file1 1 of (a', v) \<Rightarrow> v = Some (replicate 4 0) \<and> array_ok a'"
  using array_get_value_exact [OF file1_ok(1) responsive_env0 file1_fields(4), of 1] file1_ok(2)
  by (auto split: prod.splits)



section \<open>Enumerating the records\<close>

text \<open>
  C5: A cursor opened in ascending order over the whole table, with an offset that is at most the
  number of records, delivers the ids of the live records in ascending order, after skipping
  \<open>offset\<close> of them and stopping after \<open>limit\<close> when the limit is not negative.
\<close>

theorem array_cursor_enumerates:
  assumes "array_ok a" and "responsive env" and "flags AND GRN_CURSOR_DESCENDING = 0"
    and "0 \<le> offset" and "nat offset \<le> unat (ar_n_entries a)" and "limit < 2 ^ 32"
    and "grn_array_cursor_open env a GRN_ID_NIL GRN_ID_NIL offset limit flags = (a1, Some cur)"
    and "unat (ar_n_entries a) \<le> n"
  shows "snd (cursor_take env n a1 cur) =
    take (if limit < 0 then n else nat limit) (drop (nat offset) (sorted_list_of_set (dom (ar_contents a))))"
proof -
  obtain a2 rids where "cursor_take env n a1 cur = (a2, rids)" by fastforce
  then show ?thesis using cursor_scan_ok(3) [OF assms(1-7) _ assms(8)] by simp
qed

theorem array_cursor_enumerates_witness:
  "snd (cursor_take env0 1 file1 \<lparr>ac_curr_rec = 0, ac_tail = 1, ac_rest = 1, ac_dir = Forward\<rparr>) = [1]"
proof -
  have g: "ar_n_garbages file1 = 0" "grn_array_get_max_id file1 = 1"
    by (simp_all add: file1_def io_add_simps file0_eq env0_def grn_array_get_max_id_def)
  have op: "grn_array_cursor_open env0 file1 GRN_ID_NIL GRN_ID_NIL 0 (- 1) 0 =
      (file1, Some \<lparr>ac_curr_rec = 0, ac_tail = 1, ac_rest = 1, ac_dir = Forward\<rparr>)"
    using file1_fields(3,4) g
    by (simp add: grn_array_cursor_open_def cursor_bounds_def env0_def)
  show ?thesis
    using array_cursor_enumerates [OF file1_ok(1) responsive_env0 _ _ _ _ op, of 1] file1_fields(3) file1_ok(2)
    by simp
qed

text \<open>
  \<^verbatim>\<open>grn_array_next\<close> always returns when ids cannot wrap around, and returns the smallest live id
  above the given one, or the null id when there is none.
\<close>

theorem array_next_least:
  assumes "array_ok a" and "responsive env" and "grn_array_error_if_truncated a = GRN_SUCCESS"
    and "grn_array_get_max_id a < grn_array_get_max_id a + 1" and "rid \<le> grn_array_get_max_id a"
  shows "\<exists>a' r. grn_array_next env a rid = Some (a', r) \<and> array_ok a' \<and> ar_contents a' = ar_contents a \<and>
    r = (case sorted_list_of_set {j \<in> dom (ar_contents a). rid < j} of [] \<Rightarrow> GRN_ID_NIL | x # _ \<Rightarrow> x)"
proof -
  have "{j. rid < j \<and> j \<le> grn_array_get_max_id a \<and> ar_bit a j} = {j \<in> dom (ar_contents a). rid < j}"
    using array_ok_live_le(2) [OF assms(1)] by (auto simp: ar_contents_dom)
  then have "ids_between a rid (grn_array_get_max_id a) = sorted_list_of_set {j \<in> dom (ar_contents a). rid < j}"
    by (simp add: ids_between_def live_between_def)
  then show ?thesis
    using array_next_loop_ok [OF assms(1,2) refl assms(4,5)] assms(3) array_ok_grows [OF assms(1)] ar_growsD(6)
    by (fastforce simp: grn_array_next_def)
qed

theorem array_next_least_witness: "\<exists>a'. grn_array_next env0 file1 0 = Some (a', 1)"
proof -
  have "grn_array_get_max_id file1 = 1"
    by (simp add: file1_def io_add_simps file0_eq env0_def grn_array_get_max_id_def)
  moreover have "{j \<in> dom (ar_contents file1). 0 < j} = {1}" using file1_ok(2) by auto
  ultimately show ?thesis
    using array_next_least [OF file1_ok(1) responsive_env0 file1_fields(4), of 0] by auto
qed

section \<open>Any sequence of operations\<close>






section \<open>Values shorter than an id\<close>















end
