(* ===== verification/TinyHash.thy ===== *)
theory TinyHash
  imports GrnArray
begin

text \<open>
  The in-memory hash table of \<^verbatim>\<open>lib/hash.c\<close> (\<^verbatim>\<open>grn_hash\<close> with \<^verbatim>\<open>hash->io == NULL\<close>): entries live in a tiny
  array and are numbered like records, and an index of a power-of-two size finds them by open
  addressing.  An index slot holds 0, the mark \<^verbatim>\<open>GARBAGE\<close> of a deleted entry, or an entry id; the probe
  sequence of a key starts at its hash value and advances by an odd step derived from it.  The index
  grows by rehashing.

  A file-backed hash table (\<^verbatim>\<open>hash->io != NULL\<close>) runs the same index algorithm on segments; the
  branches that are specific to it and its write-ahead log are not part of this model, and neither is
  the truncation mark of its header.
\<close>

section \<open>State\<close>

text \<open>
  An entry of the union \<^verbatim>\<open>grn_hash_entry\<close>.  Its first four bytes are \<open>e_hash\<close>: the hash value of the key
  while the entry is in use, and the id of the next free entry after it was deleted; in the plain
  layout of 4-byte keys they are the key itself.  \<open>e_key\<close> are the key bytes, in the entry or where
  \<^verbatim>\<open>key.ptr\<close> points.
\<close>

record hash_entry =
  e_hash :: u32
  e_immediate :: bool
  e_key_size :: u16
  e_key :: "byte list"
  e_value :: "byte list"

text \<open>
  The table.  \<open>h_blocks\<close> says which blocks of the tiny array \<^verbatim>\<open>hash->a\<close> exist, \<open>h_entries\<close> what its entries
  hold; \<open>h_domain\<close> is what the domain of the hash is: nothing or a built-in type, another object that \<^verbatim>\<open>grn_id_maybe_table\<close>
  takes for a possible table, or a table with a number of records, from which the keys come.
\<close>

datatype hash_domain = DomainNone | DomainOther | DomainTable u32

record grn_hash =
  h_var_size :: bool
  h_key_size :: nat
  h_value_size :: nat
  h_domain :: hash_domain
  h_index :: "grn_id list"
  h_max_offset :: u32
  h_n_entries :: u32
  h_n_garbages :: u32
  h_garbages :: grn_id
  h_a_max :: grn_id
  h_blocks :: "nat \<Rightarrow> bool"
  h_entries :: "grn_id \<Rightarrow> hash_entry"
  h_bitmap :: tiny_bitmap

record hash_env =
  he_alloc_a :: "nat \<Rightarrow> bool"
  he_alloc_bitmap :: alloc_env
  he_alloc_key :: bool
  he_alloc_index :: bool
  he_alloc_cursor :: bool

definition GARBAGE :: grn_id where "GARBAGE = 0xffffffff"
definition INITIAL_INDEX_SIZE :: u32 where "INITIAL_INDEX_SIZE = 256"
definition grn_hash_max_index_size :: u32 where "grn_hash_max_index_size = 0x20000000"

definition zero_entry :: "nat \<Rightarrow> hash_entry" where
  "zero_entry value_size =
     \<lparr>e_hash = 0, e_immediate = False, e_key_size = 0, e_key = [], e_value = replicate value_size 0\<rparr>"

definition grn_tiny_hash_init ::
    "hash_env \<Rightarrow> bool \<Rightarrow> nat \<Rightarrow> nat \<Rightarrow> bool \<Rightarrow> hash_domain \<Rightarrow> grn_rc + grn_hash" where
  "grn_tiny_hash_init env path key_size value_size var_size domain =
     (if path then Inl GRN_INVALID_ARGUMENT
      else if \<not> he_alloc_index env then Inl GRN_NO_MEMORY_AVAILABLE
      else Inr \<lparr>h_var_size = var_size, h_key_size = key_size, h_value_size = value_size,
                h_domain = domain,
                h_index = replicate (unat INITIAL_INDEX_SIZE) GRN_ID_NIL,
                h_max_offset = INITIAL_INDEX_SIZE - 1,
                h_n_entries = 0, h_n_garbages = 0, h_garbages = GRN_ID_NIL,
                h_a_max = 0, h_blocks = (\<lambda>_. False), h_entries = (\<lambda>_. zero_entry value_size),
                h_bitmap = grn_tiny_bitmap_init\<rparr>)"

section \<open>Entries\<close>

text \<open>\<^verbatim>\<open>grn_tiny_array_put\<close> on the array of entries: the block is allocated on first use.\<close>

definition entry_put :: "hash_env \<Rightarrow> grn_hash \<Rightarrow> grn_id \<Rightarrow> grn_hash \<times> bool" where
  "entry_put env h rid =
     (let b = grn_tiny_array_get_block_id rid
      in if h_blocks h b \<or> he_alloc_a env b
         then (h\<lparr>h_blocks := (h_blocks h)(b := True),
                 h_a_max := (if h_a_max h < rid then rid else h_a_max h)\<rparr>, True)
         else (h, False))"

definition grn_hash_entry_at :: "hash_env \<Rightarrow> grn_hash \<Rightarrow> grn_id \<Rightarrow> grn_hash \<times> bool" where
  "grn_hash_entry_at env h rid = (if rid \<noteq> GRN_ID_NIL then entry_put env h rid else (h, False))"

definition grn_hash_bitmap_at :: "hash_env \<Rightarrow> grn_hash \<Rightarrow> grn_id \<Rightarrow> grn_hash \<times> bool" where
  "grn_hash_bitmap_at env h rid =
     (case grn_tiny_bitmap_put (he_alloc_bitmap env) (h_bitmap h) rid of
        (bm, b) \<Rightarrow> (h\<lparr>h_bitmap := bm\<rparr>, b = 1))"

definition grn_hash_idx_at :: "grn_hash \<Rightarrow> u32 \<Rightarrow> nat" where
  "grn_hash_idx_at h i = unat (i AND h_max_offset h)"

definition grn_hash_entry_get_key_size :: "grn_hash \<Rightarrow> hash_entry \<Rightarrow> nat" where
  "grn_hash_entry_get_key_size h e =
     (if h_var_size h then unat (e_key_size e) else h_key_size h mod 2 ^ 16)"

definition grn_hash_entry_get_key :: "grn_hash \<Rightarrow> hash_entry \<Rightarrow> byte list" where
  "grn_hash_entry_get_key h e =
     (if h_var_size h then take (unat (e_key_size e)) (e_key e)
      else if h_key_size h = 4 then u32_bytes (e_hash e)
      else take (h_key_size h) (e_key e))"

definition grn_hash_entry_put_key ::
    "hash_env \<Rightarrow> grn_hash \<Rightarrow> hash_entry \<Rightarrow> u32 \<Rightarrow> byte list \<Rightarrow> hash_entry \<times> grn_rc" where
  "grn_hash_entry_put_key env h e hash_value key =
     (if h_var_size h then
        if length key \<le> 8 \<or> he_alloc_key env then
          (e\<lparr>e_key := key, e_immediate := (length key \<le> 8), e_hash := hash_value,
             e_key_size := of_nat (length key)\<rparr>, GRN_SUCCESS)
        else (e, GRN_NO_MEMORY_AVAILABLE)
      else if h_key_size h = 4 then (e\<lparr>e_hash := hash_value\<rparr>, GRN_SUCCESS)
      else (e\<lparr>e_hash := hash_value, e_key := key\<rparr>, GRN_SUCCESS))"

definition grn_hash_entry_compare_key ::
    "grn_hash \<Rightarrow> hash_entry \<Rightarrow> u32 \<Rightarrow> byte list \<Rightarrow> bool" where
  "grn_hash_entry_compare_key h e hash_value key =
     (if h_var_size h then
        if e_hash e \<noteq> hash_value \<or> unat (e_key_size e) \<noteq> length key then False
        else key = take (length key) (e_key e)
      else if e_hash e \<noteq> hash_value then False
      else if length key = 4 then True
      else key = take (length key) (e_key e))"

definition set_entry :: "grn_id \<Rightarrow> hash_entry \<Rightarrow> grn_hash \<Rightarrow> grn_hash" where
  "set_entry rid e h = h\<lparr>h_entries := (h_entries h)(rid := e)\<rparr>"

section \<open>Hash values\<close>

definition grn_hash_calculate_hash_value :: "byte list \<Rightarrow> u32" where
  "grn_hash_calculate_hash_value key = foldl (\<lambda>hash_value b. hash_value * 1021 + ucast b) 0 key"

definition grn_hash_calculate_step :: "u32 \<Rightarrow> u32" where
  "grn_hash_calculate_step hash_value = drop_bit 2 hash_value OR 0x1010101"

text \<open>
  The checks on the key that \<^verbatim>\<open>grn_hash_add\<close>, \<^verbatim>\<open>grn_hash_get\<close> and \<^verbatim>\<open>grn_hash_delete\<close> share, and the hash
  value of a key that passes.
\<close>

definition key_hash_value :: "grn_hash \<Rightarrow> byte list \<Rightarrow> u32 option" where
  "key_hash_value h key =
     (if h_var_size h then
        if h_key_size h < length key then None else Some (grn_hash_calculate_hash_value key)
      else if length key \<noteq> h_key_size h then None
      else if length key = 4 then Some (get_u32 key)
      else Some (grn_hash_calculate_hash_value key))"

section \<open>Lookup\<close>

text \<open>\<^verbatim>\<open>for (i = hash_value;; i += step)\<close>: the loop ends only at an empty slot or at the key.\<close>

partial_function (option) hash_get_loop ::
    "hash_env \<Rightarrow> grn_hash \<Rightarrow> u32 \<Rightarrow> byte list \<Rightarrow> u32 \<Rightarrow> (grn_hash \<times> grn_id) option" where
  "hash_get_loop env h hash_value key i =
     (let rid = h_index h ! grn_hash_idx_at h i
      in if rid = GRN_ID_NIL then Some (h, GRN_ID_NIL)
         else if rid \<noteq> GARBAGE then
           case grn_hash_entry_at env h rid of
             (h', ok) \<Rightarrow>
               if ok \<and> grn_hash_entry_compare_key h' (h_entries h' rid) hash_value key
               then Some (h', rid)
               else hash_get_loop env h' hash_value key (i + grn_hash_calculate_step hash_value)
         else hash_get_loop env h hash_value key (i + grn_hash_calculate_step hash_value))"

definition grn_hash_get_internal ::
    "hash_env \<Rightarrow> grn_hash \<Rightarrow> u32 \<Rightarrow> byte list \<Rightarrow> (grn_hash \<times> grn_id) option" where
  "grn_hash_get_internal env h hash_value key = hash_get_loop env h hash_value key hash_value"

definition grn_hash_get :: "hash_env \<Rightarrow> grn_hash \<Rightarrow> byte list \<Rightarrow> (grn_hash \<times> grn_id) option" where
  "grn_hash_get env h key =
     (case key_hash_value h key of
        None \<Rightarrow> Some (h, GRN_ID_NIL)
      | Some hash_value \<Rightarrow> grn_hash_get_internal env h hash_value key)"

section \<open>Rehashing\<close>

fun grow_index_size :: "nat \<Rightarrow> u32 \<Rightarrow> u32 \<Rightarrow> u32" where
  "grow_index_size 0 expected new_index_size = new_index_size"
| "grow_index_size (Suc n) expected new_index_size =
     (if new_index_size \<le> expected then grow_index_size n expected (new_index_size * 2)
      else new_index_size)"

text \<open>The search for an empty slot of the new index.\<close>

partial_function (option) find_empty :: "grn_id list \<Rightarrow> u32 \<Rightarrow> u32 \<Rightarrow> u32 \<Rightarrow> u32 option" where
  "find_empty index max_offset step i =
     (if index ! unat (i AND max_offset) = GRN_ID_NIL then Some (i AND max_offset)
      else find_empty index max_offset step ((i AND max_offset) + step))"

text \<open>
  The copying loop over the slots of the old index; it stops when \<^verbatim>\<open>n_entries\<close> entries are copied.  The
  outer option is the divergence of the inner search, the inner one a failed access to an
  entry.
\<close>

fun rehash_copy ::
    "hash_env \<Rightarrow> u32 \<Rightarrow> u32 \<Rightarrow> grn_id list \<Rightarrow> u32 \<Rightarrow> grn_id list \<Rightarrow> grn_hash
       \<Rightarrow> (grn_hash \<times> grn_id list option) option" where
  "rehash_copy env n_entries new_max [] count dest h = Some (h, Some dest)"
| "rehash_copy env n_entries new_max (entry_id # src) count dest h =
     (if count < n_entries then
        if entry_id = GRN_ID_NIL \<or> entry_id = GARBAGE
        then rehash_copy env n_entries new_max src count dest h
        else case grn_hash_entry_at env h entry_id of
               (h, False) \<Rightarrow> Some (h, None)
             | (h, True) \<Rightarrow>
                 (case find_empty dest new_max (grn_hash_calculate_step (e_hash (h_entries h entry_id)))
                         (e_hash (h_entries h entry_id)) of
                    None \<Rightarrow> None
                  | Some i \<Rightarrow>
                      rehash_copy env n_entries new_max src (count + 1) (dest[unat i := entry_id]) h)
      else Some (h, Some dest))"

definition rehash_expected :: "grn_hash \<Rightarrow> u32 \<Rightarrow> u32" where
  "rehash_expected h expected_n_entries =
     (if expected_n_entries = 0 then
        let expected = h_n_entries h * 2;
            expected = (if grn_hash_max_index_size \<le> expected then grn_hash_max_index_size - 1
                        else expected)
        in case h_domain h of
             DomainTable n_source \<Rightarrow> if expected < n_source + 1 then n_source + 1 else expected
           | _ \<Rightarrow> expected
      else expected_n_entries)"

definition grn_hash_rehash ::
    "hash_env \<Rightarrow> grn_hash \<Rightarrow> u32 \<Rightarrow> (grn_hash \<times> grn_rc) option" where
  "grn_hash_rehash env h expected_n_entries =
     (let expected = rehash_expected h expected_n_entries
      in if grn_hash_max_index_size \<le> expected then Some (h, GRN_NO_MEMORY_AVAILABLE)
         else let new_index_size = grow_index_size 32 expected INITIAL_INDEX_SIZE;
                  new_max = new_index_size - 1
              in if \<not> he_alloc_index env then Some (h, GRN_NO_MEMORY_AVAILABLE)
                 else case rehash_copy env (h_n_entries h) new_max
                             (take (Suc (unat (h_max_offset h))) (h_index h)) 0
                             (replicate (unat new_index_size) GRN_ID_NIL) h of
                        None \<Rightarrow> None
                      | Some (h, None) \<Rightarrow> Some (h, GRN_NO_MEMORY_AVAILABLE)
                      | Some (h, Some index) \<Rightarrow>
                          Some (h\<lparr>h_index := index, h_max_offset := new_max, h_n_garbages := 0\<rparr>,
                                GRN_SUCCESS))"

definition grn_hash_ensure_rehash ::
    "hash_env \<Rightarrow> grn_hash \<Rightarrow> u32 \<Rightarrow> (grn_hash \<times> grn_rc) option" where
  "grn_hash_ensure_rehash env h threshold =
     (if threshold \<le> h_max_offset h then Some (h, GRN_SUCCESS)
      else if h_max_offset h = grn_hash_max_index_size - 1 then Some (h, GRN_SUCCESS)
      else grn_hash_rehash env h 0)"

section \<open>Adding\<close>

definition grn_tiny_hash_add ::
    "hash_env \<Rightarrow> grn_hash \<Rightarrow> u32 \<Rightarrow> byte list \<Rightarrow> nat \<Rightarrow> bool \<Rightarrow> grn_hash \<times> grn_id" where
  "grn_tiny_hash_add env h hash_value key index found_garbage =
     (let rid = h_garbages h;
          (h, entry_id) =
            (if rid \<noteq> GRN_ID_NIL
             then (set_entry rid (zero_entry (h_value_size h))
                     (h\<lparr>h_garbages := e_hash (h_entries h rid)\<rparr>), rid)
             else case entry_put env h (h_a_max h + 1) of
                    (h', ok) \<Rightarrow> (h', if ok then h_a_max h + 1 else GRN_ID_NIL))
      in if entry_id = GRN_ID_NIL then (h, GRN_ID_NIL)
         else let h = (if found_garbage then h\<lparr>h_n_garbages := h_n_garbages h - 1\<rparr> else h);
                  h = h\<lparr>h_index := (h_index h)[index := entry_id],
                        h_n_entries := h_n_entries h + 1,
                        h_bitmap := fst (grn_tiny_bitmap_put_and_set (he_alloc_bitmap env) (h_bitmap h) entry_id True)\<rparr>
              in (set_entry entry_id
                    (fst (grn_hash_entry_put_key env h (h_entries h entry_id) hash_value key)) h,
                  entry_id))"

text \<open>
  The search of \<^verbatim>\<open>grn_hash_add_entry\<close>, limited to \<^verbatim>\<open>max_tries\<close> probes: it finds the key, or stops at an empty
  slot, remembering the first slot with a garbage mark, or fails to reach an entry.
\<close>

datatype add_search_result = AddFound grn_id | AddSlot nat bool | AddFailed

fun add_search ::
    "hash_env \<Rightarrow> u32 \<Rightarrow> byte list \<Rightarrow> nat \<Rightarrow> u32 \<Rightarrow> nat option \<Rightarrow> nat \<Rightarrow> grn_hash
       \<Rightarrow> grn_hash \<times> add_search_result" where
  "add_search env hash_value key 0 i garbage_index index h =
     (h, case garbage_index of Some g \<Rightarrow> AddSlot g True | None \<Rightarrow> AddSlot index False)"
| "add_search env hash_value key (Suc tries) i garbage_index index h =
     (let index = grn_hash_idx_at h i;
          rid = h_index h ! index;
          step = grn_hash_calculate_step hash_value
      in if rid = GRN_ID_NIL
         then (h, case garbage_index of Some g \<Rightarrow> AddSlot g True | None \<Rightarrow> AddSlot index False)
         else if rid = GARBAGE
         then add_search env hash_value key tries (i + step)
                (case garbage_index of None \<Rightarrow> Some index | Some g \<Rightarrow> Some g) index h
         else case grn_hash_entry_at env h rid of
                (h, False) \<Rightarrow> (h, AddFailed)
              | (h, True) \<Rightarrow>
                  if grn_hash_entry_compare_key h (h_entries h rid) hash_value key
                  then (h, AddFound rid)
                  else add_search env hash_value key tries (i + step) garbage_index index h)"

definition grn_hash_add_entry ::
    "hash_env \<Rightarrow> grn_hash \<Rightarrow> u32 \<Rightarrow> byte list \<Rightarrow> grn_hash \<times> grn_id \<times> bool" where
  "grn_hash_add_entry env h hash_value key =
     (case add_search env hash_value key (unat grn_hash_max_index_size) hash_value None 0 h of
        (h, AddFailed) \<Rightarrow> (h, GRN_ID_NIL, False)
      | (h, AddFound rid) \<Rightarrow> (h, rid, False)
      | (h, AddSlot target found_garbage) \<Rightarrow>
          if \<not> found_garbage \<and> h_n_entries h = grn_hash_max_index_size then (h, GRN_ID_NIL, False)
          else case grn_tiny_hash_add env h hash_value key target found_garbage of
                 (h, rid) \<Rightarrow> (h, rid, rid \<noteq> GRN_ID_NIL))"

definition grn_hash_add ::
    "hash_env \<Rightarrow> grn_hash \<Rightarrow> byte list \<Rightarrow> (grn_hash \<times> grn_id \<times> bool) option" where
  "grn_hash_add env h key =
     (if key = [] then Some (h, GRN_ID_NIL, False)
      else case key_hash_value h key of
             None \<Rightarrow> Some (h, GRN_ID_NIL, False)
           | Some hash_value \<Rightarrow>
               (let threshold = h_n_entries h + h_n_garbages h;
                    threshold = (if h_domain h = DomainNone then threshold * 2 else threshold)
                in case grn_hash_ensure_rehash env h threshold of
                     None \<Rightarrow> None
                   | Some (h, rc) \<Rightarrow>
                       if rc \<noteq> GRN_SUCCESS then Some (h, GRN_ID_NIL, False)
                       else Some (grn_hash_add_entry env h hash_value key)))"

section \<open>Deleting\<close>

definition grn_hash_delete_entry :: "grn_hash \<Rightarrow> nat \<Rightarrow> grn_id \<Rightarrow> grn_hash" where
  "grn_hash_delete_entry h index rid =
     (let h = h\<lparr>h_index := (h_index h)[index := GARBAGE]\<rparr>;
          h = set_entry rid ((h_entries h rid)\<lparr>e_hash := h_garbages h\<rparr>) h
      in h\<lparr>h_garbages := rid,
           h_bitmap := fst (grn_tiny_bitmap_get_and_set (h_bitmap h) rid False),
           h_n_garbages := h_n_garbages h + 1,
           h_n_entries := h_n_entries h - 1\<rparr>)"

partial_function (option) delete_by_id_loop ::
    "grn_hash \<Rightarrow> u32 \<Rightarrow> grn_id \<Rightarrow> u32 \<Rightarrow> (grn_hash \<times> grn_rc) option" where
  "delete_by_id_loop h step rid i =
     (let index = grn_hash_idx_at h i
      in if h_index h ! index = GRN_ID_NIL then Some (h, GRN_INVALID_ARGUMENT)
         else if h_index h ! index \<noteq> rid then delete_by_id_loop h step rid (i + step)
         else Some (grn_hash_delete_entry h index rid, GRN_SUCCESS))"

definition grn_hash_delete_by_id ::
    "hash_env \<Rightarrow> grn_hash \<Rightarrow> grn_id \<Rightarrow> (grn_hash \<times> grn_rc) option" where
  "grn_hash_delete_by_id env h rid =
     (if rid = GRN_ID_NIL then Some (h, GRN_INVALID_ARGUMENT)
      else case grn_hash_entry_at env h rid of
             (h, False) \<Rightarrow> Some (h, GRN_INVALID_ARGUMENT)
           | (h, True) \<Rightarrow>
               (let hash_value = e_hash (h_entries h rid)
                in delete_by_id_loop h (grn_hash_calculate_step hash_value) rid hash_value))"

partial_function (option) delete_loop ::
    "hash_env \<Rightarrow> grn_hash \<Rightarrow> u32 \<Rightarrow> byte list \<Rightarrow> u32 \<Rightarrow> (grn_hash \<times> grn_rc) option" where
  "delete_loop env h hash_value key i =
     (let index = grn_hash_idx_at h i;
          rid = h_index h ! index;
          step = grn_hash_calculate_step hash_value
      in if rid = GRN_ID_NIL then Some (h, GRN_INVALID_ARGUMENT)
         else if rid = GARBAGE then delete_loop env h hash_value key (i + step)
         else case grn_hash_entry_at env h rid of
                (h', ok) \<Rightarrow>
                  if ok \<and> grn_hash_entry_compare_key h' (h_entries h' rid) hash_value key
                  then Some (grn_hash_delete_entry h' index rid, GRN_SUCCESS)
                  else delete_loop env h' hash_value key (i + step))"

definition grn_hash_delete ::
    "hash_env \<Rightarrow> grn_hash \<Rightarrow> byte list \<Rightarrow> (grn_hash \<times> grn_rc) option" where
  "grn_hash_delete env h key =
     (case key_hash_value h key of
        None \<Rightarrow> Some (h, GRN_INVALID_ARGUMENT)
      | Some hash_value \<Rightarrow> delete_loop env h hash_value key hash_value)"

section \<open>Keys and values by id\<close>

definition grn_hash_get_entry :: "hash_env \<Rightarrow> grn_hash \<Rightarrow> grn_id \<Rightarrow> grn_hash \<times> bool" where
  "grn_hash_get_entry env h rid =
     (case grn_hash_bitmap_at env h rid of
        (h, b) \<Rightarrow> if \<not> b then (h, False) else grn_hash_entry_at env h rid)"

definition grn_hash_get_key :: "hash_env \<Rightarrow> grn_hash \<Rightarrow> grn_id \<Rightarrow> grn_hash \<times> byte list option" where
  "grn_hash_get_key env h rid =
     (case grn_hash_get_entry env h rid of
        (h, ok) \<Rightarrow> (h, if ok then Some (grn_hash_entry_get_key h (h_entries h rid)) else None))"

definition grn_hash_get_value :: "hash_env \<Rightarrow> grn_hash \<Rightarrow> grn_id \<Rightarrow> grn_hash \<times> byte list option" where
  "grn_hash_get_value env h rid =
     (case grn_hash_get_entry env h rid of
        (h, ok) \<Rightarrow> (h, if ok then Some (take (h_value_size h) (e_value (h_entries h rid))) else None))"

definition grn_hash_set_value ::
    "hash_env \<Rightarrow> grn_hash \<Rightarrow> grn_id \<Rightarrow> byte list \<Rightarrow> u32 \<Rightarrow> grn_hash \<times> grn_rc" where
  "grn_hash_set_value env h rid value flags =
     (case grn_hash_get_entry env h rid of
        (h, False) \<Rightarrow> (h, GRN_NO_MEMORY_AVAILABLE)
      | (h, True) \<Rightarrow>
          (case set_value_bytes (set_flag_of flags) (h_value_size h) (e_value (h_entries h rid)) value of
             None \<Rightarrow> (h, GRN_INVALID_ARGUMENT)
           | Some v \<Rightarrow> (set_entry rid ((h_entries h rid)\<lparr>e_value := v\<rparr>) h, GRN_SUCCESS)))"

definition grn_hash_at :: "hash_env \<Rightarrow> grn_hash \<Rightarrow> grn_id \<Rightarrow> grn_hash \<times> grn_id" where
  "grn_hash_at env h rid =
     (case grn_hash_bitmap_at env h rid of (h, b) \<Rightarrow> (h, if b then rid else GRN_ID_NIL))"

section \<open>Cursors\<close>

record grn_hash_cursor =
  hc_curr_rec :: grn_id
  hc_tail :: grn_id
  hc_rest :: u32
  hc_dir :: cursor_dir

definition HASH_CURR_MAX :: "grn_hash \<Rightarrow> grn_id" where
  "HASH_CURR_MAX h = h_a_max h"

text \<open>\<^verbatim>\<open>while (offset && c->curr_rec != c->tail)\<close> of \<^verbatim>\<open>grn_hash_cursor_open\<close>.\<close>

function (sequential) hash_cursor_skip ::
    "hash_env \<Rightarrow> grn_hash \<Rightarrow> cursor_dir \<Rightarrow> grn_id \<Rightarrow> int \<Rightarrow> grn_id \<Rightarrow> grn_hash \<times> grn_id" where
  "hash_cursor_skip env h dir tail offset cur =
     (if offset = 0 \<or> cur = tail then (h, cur)
      else case grn_hash_bitmap_at env h (dir_add dir cur) of
             (h, b) \<Rightarrow> hash_cursor_skip env h dir tail (if b then offset - 1 else offset) (dir_add dir cur))"
  by pat_completeness auto
termination
  by (relation "measure (\<lambda>(env, h, dir, tail, offset, cur). dir_dist dir cur tail)")
    (auto simp: dir_dist_less)

declare hash_cursor_skip.simps [simp del]

text \<open>
  The id that a bound gives: a default when there is no key, else the id of the key, adjusted for the
  flags; the inner \<open>None\<close> says that the key is not in the table.
\<close>

definition cursor_key_bound ::
    "hash_env \<Rightarrow> grn_hash \<Rightarrow> byte list option \<Rightarrow> grn_id \<Rightarrow> (grn_id \<Rightarrow> grn_id) \<Rightarrow> (grn_hash \<times> grn_id option) option" where
  "cursor_key_bound env h key deflt adjust =
     (case key of
        None \<Rightarrow> Some (h, Some deflt)
      | Some key \<Rightarrow>
          (case grn_hash_get env h key of
             None \<Rightarrow> None
           | Some (h, rid) \<Rightarrow> Some (h, if rid = GRN_ID_NIL then None else Some (adjust rid))))"

definition hash_cursor_bounds ::
    "hash_env \<Rightarrow> grn_hash \<Rightarrow> byte list option \<Rightarrow> byte list option \<Rightarrow> u32
       \<Rightarrow> (grn_hash \<times> (grn_id \<times> grn_id) option) option" where
  "hash_cursor_bounds env h min_key max_key flags =
     (if flags AND GRN_CURSOR_DESCENDING \<noteq> 0 then
        case cursor_key_bound env h max_key (HASH_CURR_MAX h + 1)
               (\<lambda>rid. if flags AND GRN_CURSOR_LT \<noteq> 0 then rid else rid + 1) of
          None \<Rightarrow> None
        | Some (h, None) \<Rightarrow> Some (h, None)
        | Some (h, Some curr_rec) \<Rightarrow>
            (case cursor_key_bound env h min_key (GRN_ID_NIL + 1)
                    (\<lambda>rid. if flags AND GRN_CURSOR_GT \<noteq> 0 then rid + 1 else rid) of
               None \<Rightarrow> None
             | Some (h, None) \<Rightarrow> Some (h, None)
             | Some (h, Some tail) \<Rightarrow> Some (h, Some (curr_rec, if curr_rec < tail then curr_rec else tail)))
      else
        case cursor_key_bound env h min_key GRN_ID_NIL
               (\<lambda>rid. if flags AND GRN_CURSOR_GT \<noteq> 0 then rid else rid - 1) of
          None \<Rightarrow> None
        | Some (h, None) \<Rightarrow> Some (h, None)
        | Some (h, Some curr_rec) \<Rightarrow>
            (case cursor_key_bound env h max_key (HASH_CURR_MAX h)
                    (\<lambda>rid. if flags AND GRN_CURSOR_LT \<noteq> 0 then rid - 1 else rid) of
               None \<Rightarrow> None
             | Some (h, None) \<Rightarrow> Some (h, None)
             | Some (h, Some tail) \<Rightarrow> Some (h, Some (curr_rec, if tail < curr_rec then curr_rec else tail))))"

definition grn_hash_cursor_open ::
    "hash_env \<Rightarrow> grn_hash \<Rightarrow> byte list option \<Rightarrow> byte list option \<Rightarrow> int \<Rightarrow> int \<Rightarrow> u32
       \<Rightarrow> (grn_hash \<times> grn_hash_cursor option) option" where
  "grn_hash_cursor_open env h min_key max_key offset limit flags =
     (if \<not> he_alloc_cursor env then Some (h, None)
      else let dir = (if flags AND GRN_CURSOR_DESCENDING \<noteq> 0 then Backward else Forward);
               rest = (if limit < 0 then GRN_ARRAY_MAX else of_int limit)
           in case hash_cursor_bounds env h min_key max_key flags of
                None \<Rightarrow> None
              | Some (h, None) \<Rightarrow>
                  Some (h, Some \<lparr>hc_curr_rec = GRN_ID_NIL, hc_tail = GRN_ID_NIL, hc_rest = rest, hc_dir = dir\<rparr>)
              | Some (h, Some (curr_rec, tail)) \<Rightarrow>
                  let (h, curr_rec) =
                        (if h_n_entries h \<noteq> HASH_CURR_MAX h then hash_cursor_skip env h dir tail offset curr_rec
                         else (h, dir_add_offset dir curr_rec offset))
                  in Some (h, Some \<lparr>hc_curr_rec = curr_rec, hc_tail = tail, hc_rest = rest, hc_dir = dir\<rparr>))"

function (sequential) hash_cursor_next_loop ::
    "hash_env \<Rightarrow> grn_hash \<Rightarrow> cursor_dir \<Rightarrow> grn_id \<Rightarrow> grn_id \<Rightarrow> grn_hash \<times> grn_id \<times> bool" where
  "hash_cursor_next_loop env h dir tail cur =
     (if cur = tail then (h, cur, False)
      else if h_n_entries h \<noteq> HASH_CURR_MAX h then
        case grn_hash_bitmap_at env h (dir_add dir cur) of
          (h, b) \<Rightarrow>
            if \<not> b then hash_cursor_next_loop env h dir tail (dir_add dir cur)
            else (h, dir_add dir cur, True)
      else (h, dir_add dir cur, True))"
  by pat_completeness auto
termination
  by (relation "measure (\<lambda>(env, h, dir, tail, cur). dir_dist dir cur tail)")
    (auto simp: dir_dist_less)

declare hash_cursor_next_loop.simps [simp del]

definition grn_hash_cursor_next ::
    "hash_env \<Rightarrow> grn_hash \<Rightarrow> grn_hash_cursor \<Rightarrow> grn_hash \<times> grn_hash_cursor \<times> grn_id" where
  "grn_hash_cursor_next env h c =
     (if hc_rest c \<noteq> 0 then
        case hash_cursor_next_loop env h (hc_dir c) (hc_tail c) (hc_curr_rec c) of
          (h, curr_rec, found) \<Rightarrow>
            let c = c\<lparr>hc_curr_rec := curr_rec\<rparr>
            in if found then (h, c\<lparr>hc_rest := hc_rest c - 1\<rparr>, curr_rec) else (h, c, GRN_ID_NIL)
      else (h, c, GRN_ID_NIL))"

text \<open>\<^verbatim>\<open>while (++id <= max)\<close>; \<^verbatim>\<open>++id\<close> wraps.\<close>

partial_function (option) hash_next_loop ::
    "hash_env \<Rightarrow> grn_hash \<Rightarrow> grn_id \<Rightarrow> grn_id \<Rightarrow> (grn_hash \<times> grn_id) option" where
  "hash_next_loop env h max_id rid =
     (if rid + 1 \<le> max_id then
        case grn_hash_bitmap_at env h (rid + 1) of
          (h, b) \<Rightarrow> if b then Some (h, rid + 1) else hash_next_loop env h max_id (rid + 1)
      else Some (h, GRN_ID_NIL))"

definition grn_hash_next :: "hash_env \<Rightarrow> grn_hash \<Rightarrow> grn_id \<Rightarrow> (grn_hash \<times> grn_id) option" where
  "grn_hash_next env h rid = hash_next_loop env h (HASH_CURR_MAX h) rid"

definition grn_hash_cursor_get_key_value ::
    "hash_env \<Rightarrow> grn_hash \<Rightarrow> grn_hash_cursor \<Rightarrow> grn_hash \<times> (byte list \<times> nat \<times> byte list) option" where
  "grn_hash_cursor_get_key_value env h c =
     (case grn_hash_entry_at env h (hc_curr_rec c) of
        (h, False) \<Rightarrow> (h, None)
      | (h, True) \<Rightarrow>
          let e = h_entries h (hc_curr_rec c)
          in (h, Some (grn_hash_entry_get_key h e,
                       if h_var_size h then unat (e_key_size e) else h_key_size h,
                       take (h_value_size h) (e_value e))))"

definition grn_hash_cursor_set_value ::
    "hash_env \<Rightarrow> grn_hash \<Rightarrow> grn_hash_cursor \<Rightarrow> byte list \<Rightarrow> u32 \<Rightarrow> grn_hash \<times> grn_rc" where
  "grn_hash_cursor_set_value env h c value flags = grn_hash_set_value env h (hc_curr_rec c) value flags"

definition grn_hash_cursor_delete ::
    "hash_env \<Rightarrow> grn_hash \<Rightarrow> grn_hash_cursor \<Rightarrow> (grn_hash \<times> grn_rc) option" where
  "grn_hash_cursor_delete env h c = grn_hash_delete_by_id env h (hc_curr_rec c)"

definition grn_hash_size :: "grn_hash \<Rightarrow> u32" where
  "grn_hash_size h = h_n_entries h"

end
