(* ===== verification/OpenAddressing.thy ===== *)
theory OpenAddressing
  imports TinyHash
begin

text \<open>
  The index of a hash table apart from its entries: slots found along probe sequences.  The locale
  \<open>probing\<close> asks of the sequences only that they stay in range and reach every slot; double hashing
  with an odd step over a power-of-two index satisfies it.  The lemmas say that an index with an empty
  slot lets every search end, and that putting an id at the end of its search, or replacing it by
  the garbage mark, keeps all other ids findable.
\<close>

section \<open>Searching an index\<close>

lemma nth_update_nth: "p < length xs \<Longrightarrow> xs[p := v] ! q = (if q = p then v else xs ! q)"
  by simp

definition live_slot :: "grn_id \<Rightarrow> bool" where
  "live_slot v \<longleftrightarrow> v \<noteq> GRN_ID_NIL \<and> v \<noteq> GARBAGE"

text \<open>\<open>pr\<close> is a probe sequence; slot \<open>p\<close> is found along it before an empty slot.\<close>

definition found_at :: "grn_id list \<Rightarrow> (nat \<Rightarrow> nat) \<Rightarrow> nat \<Rightarrow> bool" where
  "found_at idx pr p \<longleftrightarrow> (\<exists>n. pr n = p \<and> (\<forall>m < n. idx ! pr m \<noteq> GRN_ID_NIL))"

text \<open>The index holds exactly the ids of \<open>L\<close>, each once, where a search by its hash value finds it.\<close>

definition index_ok :: "grn_id list \<Rightarrow> (u32 \<Rightarrow> nat \<Rightarrow> nat) \<Rightarrow> (grn_id \<Rightarrow> u32) \<Rightarrow> grn_id set \<Rightarrow> bool" where
  "index_ok idx pr hv L \<longleftrightarrow>
     (\<forall>p < length idx. live_slot (idx ! p) \<longrightarrow> idx ! p \<in> L) \<and>
     (\<forall>rid \<in> L. live_slot rid \<and> (\<exists>p < length idx. idx ! p = rid \<and> found_at idx (pr (hv rid)) p)) \<and>
     (\<forall>p < length idx. \<forall>q < length idx. live_slot (idx ! p) \<longrightarrow> idx ! p = idx ! q \<longrightarrow> p = q)"

definition garbage_slots :: "grn_id list \<Rightarrow> nat" where
  "garbage_slots idx = card {p. p < length idx \<and> idx ! p = GARBAGE}"

lemma index_okD:
  assumes "index_ok idx pr hv L"
  shows "\<lbrakk>p < length idx; live_slot (idx ! p)\<rbrakk> \<Longrightarrow> idx ! p \<in> L"
    and "rid \<in> L \<Longrightarrow> live_slot rid"
    and "rid \<in> L \<Longrightarrow> \<exists>p < length idx. idx ! p = rid \<and> found_at idx (pr (hv rid)) p"
    and "\<lbrakk>p < length idx; q < length idx; live_slot (idx ! p); idx ! p = idx ! q\<rbrakk> \<Longrightarrow> p = q"
  using assms unfolding index_ok_def by blast+

lemma found_at_mono:
  assumes "found_at idx pr p" and "\<And>q. idx ! q \<noteq> GRN_ID_NIL \<Longrightarrow> idx' ! q \<noteq> GRN_ID_NIL"
  shows "found_at idx' pr p"
  using assms unfolding found_at_def by blast

text \<open>Every id occupies one slot, so the occupied slots are counted by the ids and the garbage marks.\<close>

lemma occupied_slots:
  assumes ok: "index_ok idx pr hv L"
  shows "card {p. p < length idx \<and> idx ! p \<noteq> GRN_ID_NIL} = card L + garbage_slots idx"
proof -
  let ?A = "{p. p < length idx \<and> live_slot (idx ! p)}" and ?G = "{p. p < length idx \<and> idx ! p = GARBAGE}"
  have "bij_betw (\<lambda>p. idx ! p) ?A L"
  proof (rule bij_betwI')
    fix p q assume "p \<in> ?A" "q \<in> ?A"
    then show "(idx ! p = idx ! q) = (p = q)" using index_okD(4) [OF ok, of p q] by auto
  next
    fix p assume "p \<in> ?A"
    then show "idx ! p \<in> L" using index_okD(1) [OF ok] by simp
  next
    fix rid assume "rid \<in> L"
    then show "\<exists>p \<in> ?A. rid = idx ! p" using index_okD(2,3) [OF ok, of rid] by auto
  qed
  then have "card ?A = card L" by (rule bij_betw_same_card)
  moreover have "{p. p < length idx \<and> idx ! p \<noteq> GRN_ID_NIL} = ?A \<union> ?G" "?A \<inter> ?G = {}"
    by (auto simp: live_slot_def GARBAGE_def)
  ultimately show ?thesis
    by (simp add: card_Un_disjoint garbage_slots_def)
qed

lemma empty_slot_exists:
  assumes "index_ok idx pr hv L" and "card L + garbage_slots idx < length idx"
  shows "\<exists>p < length idx. idx ! p = GRN_ID_NIL"
proof (rule ccontr)
  assume "\<not> ?thesis"
  then have "{p. p < length idx \<and> idx ! p \<noteq> GRN_ID_NIL} = {..<length idx}" by auto
  with occupied_slots [OF assms(1)] assms(2) show False by simp
qed

locale probing =
  fixes size :: nat and pr :: "u32 \<Rightarrow> nat \<Rightarrow> nat"
  assumes pr_lt: "pr v n < size"
    and pr_surj: "p < size \<Longrightarrow> \<exists>n < size. pr v n = p"
begin

text \<open>The number of probes before the first empty slot.\<close>

lemma search_ends:
  assumes "index_ok idx pr hv L" and "length idx = size" and "card L + garbage_slots idx < size"
  obtains n where "n < size" and "idx ! pr v n = GRN_ID_NIL" and "\<And>m. m < n \<Longrightarrow> idx ! pr v m \<noteq> GRN_ID_NIL"
proof -
  obtain p where "p < size" "idx ! p = GRN_ID_NIL" using empty_slot_exists [OF assms(1)] assms(2,3) by auto
  then obtain n where n: "n < size" "idx ! pr v n = GRN_ID_NIL" using pr_surj [of p v] by auto
  let ?n = "LEAST n. idx ! pr v n = GRN_ID_NIL"
  have "idx ! pr v ?n = GRN_ID_NIL" using n(2) by (rule LeastI)
  moreover have "?n < size" using Least_le [of "\<lambda>n. idx ! pr v n = GRN_ID_NIL" n] n by simp
  ultimately show thesis using that not_less_Least by blast
qed

text \<open>An id of the index is met before the first empty slot.\<close>

lemma found_before_end:
  assumes "index_ok idx pr hv L" and "rid \<in> L" and "idx ! pr (hv rid) n = GRN_ID_NIL"
  shows "\<exists>m < n. idx ! pr (hv rid) m = rid"
proof -
  obtain p m where "idx ! p = rid" "pr (hv rid) m = p" "\<forall>l < m. idx ! pr (hv rid) l \<noteq> GRN_ID_NIL"
    using index_okD(3) [OF assms(1,2)] unfolding found_at_def by blast
  moreover have "rid \<noteq> GRN_ID_NIL" using index_okD(2) [OF assms(1,2)] by (simp add: live_slot_def)
  ultimately have "m \<noteq> n" "\<not> n < m" using assms(3) by auto
  then have "m < n" by simp
  with \<open>idx ! p = rid\<close> \<open>pr (hv rid) m = p\<close> show ?thesis by auto
qed

lemma insert_ok:
  assumes ok: "index_ok idx pr hv L" and len: "length idx = size"
    and p: "p < size" "\<not> live_slot (idx ! p)" and f: "found_at idx (pr v) p"
    and rid: "live_slot rid" "rid \<notin> L" and hv': "hv' rid = v" "\<And>r. r \<in> L \<Longrightarrow> hv' r = hv r"
  shows "index_ok (idx[p := rid]) pr hv' (insert rid L)"
proof -
  have nth: "q < size \<Longrightarrow> idx[p := rid] ! q = (if q = p then rid else idx ! q)" for q
    using len by (auto simp: nth_list_update)
  have mono: "found_at idx s q \<Longrightarrow> found_at (idx[p := rid]) s q" for s q
    by (rule found_at_mono) (use rid(1) p(1) len in \<open>auto simp: live_slot_def nth_update_nth\<close>)
  have other: "q < size \<Longrightarrow> live_slot (idx ! q) \<Longrightarrow> idx ! q \<in> L" for q
    using index_okD(1) [OF ok] len by auto
  have old: "\<exists>q < size. idx[p := rid] ! q = r \<and> found_at (idx[p := rid]) (pr (hv' r)) q" if r: "r \<in> L" for r
  proof -
    obtain q where q: "q < size" "idx ! q = r" "found_at idx (pr (hv r)) q" "live_slot r"
      using index_okD(2,3) [OF ok r] len by auto
    then have "q \<noteq> p" using p(2) by auto
    then show ?thesis using q mono nth hv'(2) [OF r] by auto
  qed
  have new: "\<exists>q < size. idx[p := rid] ! q = rid \<and> found_at (idx[p := rid]) (pr (hv' rid)) q"
    using p(1) mono [OF f] nth hv'(1) by auto
  have uniq: "q = q'" if that: "q < size" "q' < size" "live_slot (idx[p := rid] ! q)"
    "idx[p := rid] ! q = idx[p := rid] ! q'" for q q'
  proof (cases "q = p \<or> q' = p")
    case True
    then show ?thesis using that other [of q] other [of q'] rid by (auto simp: nth split: if_splits)
  next
    case False
    then show ?thesis using that index_okD(4) [OF ok, of q q'] by (simp add: nth len)
  qed
  show ?thesis
    unfolding index_ok_def length_list_update len
  proof (intro conjI allI ballI impI)
    fix q assume "q < size" "live_slot (idx[p := rid] ! q)"
    then show "idx[p := rid] ! q \<in> insert rid L" using other [of q] by (auto simp: nth split: if_splits)
  next
    fix r assume "r \<in> insert rid L"
    then show "live_slot r" "\<exists>q < size. idx[p := rid] ! q = r \<and> found_at (idx[p := rid]) (pr (hv' r)) q"
      using rid(1) index_okD(2) [OF ok] old new by blast+
  qed (rule uniq)
qed

lemma remove_ok:
  assumes ok: "index_ok idx pr hv L" and len: "length idx = size"
    and p: "p < size" "idx ! p = rid" and rid: "rid \<in> L" and hv': "\<And>r. r \<in> L \<Longrightarrow> r \<noteq> rid \<Longrightarrow> hv' r = hv r"
  shows "index_ok (idx[p := GARBAGE]) pr hv' (L - {rid})"
proof -
  have nth: "q < size \<Longrightarrow> idx[p := GARBAGE] ! q = (if q = p then GARBAGE else idx ! q)" for q
    using len by (auto simp: nth_list_update)
  have mono: "found_at idx s q \<Longrightarrow> found_at (idx[p := GARBAGE]) s q" for s q
    by (rule found_at_mono) (use p(1) len in \<open>auto simp: GARBAGE_def nth_update_nth\<close>)
  have uniq: "q < size \<Longrightarrow> idx ! q = rid \<Longrightarrow> q = p" for q
    using index_okD(4) [OF ok, of p q] index_okD(2) [OF ok rid] p len by auto
  have old: "\<exists>q < size. idx[p := GARBAGE] ! q = r \<and> found_at (idx[p := GARBAGE]) (pr (hv' r)) q"
    if r: "r \<in> L" "r \<noteq> rid" for r
  proof -
    obtain q where q: "q < size" "idx ! q = r" "found_at idx (pr (hv r)) q"
      using index_okD(3) [OF ok r(1)] len by auto
    then have "q \<noteq> p" using p(2) r(2) by auto
    then show ?thesis using q mono nth hv' r by auto
  qed
  have inj: "q = q'" if that: "q < size" "q' < size" "live_slot (idx[p := GARBAGE] ! q)"
    "idx[p := GARBAGE] ! q = idx[p := GARBAGE] ! q'" for q q'
    using that index_okD(4) [OF ok, of q q'] len by (auto simp: nth live_slot_def split: if_splits)
  have other: "q < size \<Longrightarrow> live_slot (idx[p := GARBAGE] ! q) \<Longrightarrow> idx[p := GARBAGE] ! q \<in> L - {rid}" for q
    using index_okD(1) [OF ok, of q] uniq [of q] len by (auto simp: nth live_slot_def split: if_splits)
  show ?thesis
    unfolding index_ok_def length_list_update len
  proof (intro conjI allI ballI impI)
    fix r assume "r \<in> L - {rid}"
    then show "live_slot r" "\<exists>q < size. idx[p := GARBAGE] ! q = r \<and> found_at (idx[p := GARBAGE]) (pr (hv' r)) q"
      using index_okD(2) [OF ok] old by blast+
  qed (rule other inj, assumption+)+
qed

lemma empty_index_ok: "index_ok (replicate size GRN_ID_NIL) pr hv {}"
  by (simp add: index_ok_def live_slot_def)

end

lemma garbage_slots_update:
  assumes "p < length idx"
  shows "garbage_slots (idx[p := v]) =
    garbage_slots idx - (if idx ! p = GARBAGE then 1 else 0) + (if v = GARBAGE then 1 else 0)"
    and "idx ! p = GARBAGE \<Longrightarrow> 0 < garbage_slots idx"
proof -
  let ?G = "{q. q < length idx \<and> idx ! q = GARBAGE}"
  have "{q. q < length (idx[p := v]) \<and> idx[p := v] ! q = GARBAGE} = (if v = GARBAGE then insert p ?G else ?G - {p})"
    using assms by (auto simp: nth_update_nth split: if_splits)
  moreover have "card (?G - {p}) = card ?G - (if idx ! p = GARBAGE then 1 else 0)"
    using assms by (simp add: card_Diff_singleton_if)
  moreover have "card (insert p ?G) = card ?G - (if idx ! p = GARBAGE then 1 else 0) + 1"
    using assms card_gt_0_iff [of ?G] by (auto simp: card_insert_if)
  ultimately show "garbage_slots (idx[p := v]) =
    garbage_slots idx - (if idx ! p = GARBAGE then 1 else 0) + (if v = GARBAGE then 1 else 0)"
    by (simp add: garbage_slots_def)
  show "idx ! p = GARBAGE \<Longrightarrow> 0 < garbage_slots idx"
    using assms by (auto simp: garbage_slots_def card_gt_0_iff)
qed

section \<open>Double hashing\<close>

text \<open>The slot of the \<open>n\<close>-th probe in an index of \<open>2 ^ k\<close> slots.\<close>

definition probe :: "nat \<Rightarrow> u32 \<Rightarrow> nat \<Rightarrow> nat" where
  "probe k hash_value n = (unat hash_value + n * unat (grn_hash_calculate_step hash_value)) mod 2 ^ k"

lemma step_odd: "odd (unat (grn_hash_calculate_step v))"
proof -
  have "bit (grn_hash_calculate_step v) 0" by (simp add: grn_hash_calculate_step_def bit_simps)
  then have "odd (grn_hash_calculate_step v)" by (simp add: bit_0)
  then show ?thesis by (simp add: bit_0 [symmetric] bit_unsigned_iff)
qed

lemma odd_step_surj:
  fixes a s :: nat
  assumes "odd s" and "p < 2 ^ k"
  shows "\<exists>n < 2 ^ k. (a + n * s) mod 2 ^ k = p"
proof -
  let ?f = "\<lambda>n. (a + n * s) mod 2 ^ k"
  have "inj_on ?f {..<2 ^ k}"
  proof (rule linorder_inj_onI')
    fix n m assume nm: "n < m" "m \<in> {..<(2::nat) ^ k}"
    show "?f n \<noteq> ?f m"
    proof
      assume "?f n = ?f m"
      moreover have "a + n * s \<le> a + m * s" using nm(1) by simp
      ultimately have "2 ^ k dvd (a + m * s) - (a + n * s)" by (metis mod_eq_dvd_iff_nat)
      then have "2 ^ k dvd (m - n) * s" by (simp add: diff_mult_distrib)
      moreover have "coprime ((2::nat) ^ k) s" using assms(1) by (simp add: coprime_power_left_iff)
      ultimately have "2 ^ k dvd m - n" by (simp add: coprime_dvd_mult_left_iff)
      with nm show False by (auto dest!: dvd_imp_le)
    qed
  qed
  moreover have "?f ` {..<2 ^ k} \<subseteq> {..<2 ^ k}" by auto
  ultimately have "?f ` {..<2 ^ k} = {..<2 ^ k}" by (intro endo_inj_surj) auto
  with assms(2) show ?thesis by (metis (no_types, lifting) imageE lessThan_iff)
qed

interpretation dh: probing "2 ^ k" "probe k" for k
  by unfold_locales (auto simp: probe_def odd_step_surj [OF step_odd])

text \<open>The model's slot arithmetic on words is this probe sequence.\<close>

lemma mask_index:
  assumes "k \<le> 32"
  shows "unat (i AND mask k :: u32) = unat i mod 2 ^ k"
  by (simp only: take_bit_eq_mask [symmetric] unsigned_take_bit_eq) (simp only: take_bit_eq_mod)

lemma probe_word:
  assumes "k \<le> 32"
  shows "unat ((v + of_nat n * grn_hash_calculate_step v) AND mask k) = probe k v n"
proof -
  have "(2::nat) ^ k dvd 2 ^ 32" using assms by (rule le_imp_power_dvd)
  then have "unat (word_of_nat n :: u32) mod 2 ^ k = n mod 2 ^ k" by (simp add: unat_of_nat mod_mod_cancel)
  then have "(unat v + unat (word_of_nat n :: u32) * s) mod 2 ^ k = (unat v + n * s) mod 2 ^ k" for s
    by (metis mod_add_right_eq mod_mult_left_eq)
  with \<open>2 ^ k dvd 2 ^ 32\<close> show ?thesis
    by (simp only: mask_index [OF assms] probe_def) (simp add: unat_word_ariths mod_mod_cancel mod_simps)
qed

end
