(* ===== verification/HashCorrect.thy ===== *)
theory HashCorrect
  imports OpenAddressing ArrayCorrect
begin

text \<open>
  Correctness of the in-memory hash table.  A table is viewed as a finite map from ids to pairs of a
  key and a value (\<open>hash_contents\<close>); \<open>hash_ok\<close> says that its index finds exactly the live entries, that no
  two of them have the same key, that the counters agree with them, and that the free entries form a
  list apart from them.
\<close>

section \<open>The entries of a table\<close>

definition hash_live :: "grn_hash \<Rightarrow> grn_id set" where
  "hash_live h = {rid. bitmap_bit (h_bitmap h) rid}"

definition hash_key :: "grn_hash \<Rightarrow> grn_id \<Rightarrow> byte list" where
  "hash_key h rid = grn_hash_entry_get_key h (h_entries h rid)"

definition hash_contents :: "grn_hash \<Rightarrow> grn_id \<rightharpoonup> (byte list \<times> byte list)" where
  "hash_contents h rid =
     (if rid \<in> hash_live h then Some (hash_key h rid, e_value (h_entries h rid)) else None)"

definition hash_of :: "grn_hash \<Rightarrow> grn_id \<Rightarrow> u32" where
  "hash_of h rid = e_hash (h_entries h rid)"

text \<open>An entry in use holds the hash value of its key, and a value of the size of the table.\<close>

definition entry_wf :: "grn_hash \<Rightarrow> hash_entry \<Rightarrow> bool" where
  "entry_wf h e \<longleftrightarrow> key_hash_value h (grn_hash_entry_get_key h e) = Some (e_hash e)
     \<and> (h_var_size h \<longrightarrow> unat (e_key_size e) \<le> length (e_key e)) \<and> length (e_value e) = h_value_size h"

definition stored :: "grn_hash \<Rightarrow> grn_id \<Rightarrow> bool" where
  "stored h rid \<longleftrightarrow> rid \<noteq> GRN_ID_NIL \<and> rid \<le> h_a_max h \<and> h_blocks h (grn_tiny_array_get_block_id rid)"

definition entries_ok :: "grn_hash \<Rightarrow> bool" where
  "entries_ok h \<longleftrightarrow> bitmap_wf (h_bitmap h) \<and> h_key_size h < 2 ^ 16
     \<and> (\<forall>rid \<in> hash_live h. stored h rid \<and> entry_wf h (h_entries h rid))
     \<and> inj_on (hash_key h) (hash_live h)
     \<and> (\<forall>rid > h_a_max h. h_entries h rid = zero_entry (h_value_size h))"

definition free_ok :: "grn_hash \<Rightarrow> bool" where
  "free_ok h \<longleftrightarrow> (\<exists>fs. chain (hash_of h) (h_garbages h) fs \<and> distinct fs
     \<and> (\<forall>rid \<in> set fs. rid \<notin> hash_live h \<and> stored h rid))"

definition slots_ok :: "nat \<Rightarrow> grn_hash \<Rightarrow> bool" where
  "slots_ok k h \<longleftrightarrow> h_max_offset h = mask k \<and> length (h_index h) = 2 ^ k
     \<and> index_ok (h_index h) (probe k) (hash_of h) (hash_live h)
     \<and> unat (h_n_entries h) = card (hash_live h) \<and> unat (h_n_garbages h) = garbage_slots (h_index h)
     \<and> unat (h_n_entries h) + unat (h_n_garbages h) < 2 ^ k"

text \<open>The index has between \<open>2 ^ 8\<close> slots, its initial size, and \<open>2 ^ 28\<close>.\<close>

definition hash_ok :: "grn_hash \<Rightarrow> bool" where
  "hash_ok h \<longleftrightarrow> entries_ok h \<and> free_ok h \<and> (\<exists>k \<ge> 8. k \<le> 28 \<and> slots_ok k h)"

lemma hash_okE:
  assumes "hash_ok h"
  obtains k where "entries_ok h" and "free_ok h" and "8 \<le> k" and "k \<le> 28" and "slots_ok k h"
  using assms by (auto simp: hash_ok_def)

lemma hash_contents_live: "hash_contents h rid \<noteq> None \<longleftrightarrow> rid \<in> hash_live h"
  by (simp add: hash_contents_def)

lemma hash_live_has: "rid \<in> hash_live h \<Longrightarrow> bitmap_has (h_bitmap h) rid"
  by (simp add: hash_live_def bitmap_bit_has)

lemma u32_bytes_get: "length bs = 4 \<Longrightarrow> u32_bytes (get_u32 bs) = bs"
proof -
  assume "length bs = 4"
  then obtain a b c d where bs: "bs = [a, b, c, d]"
    by (auto simp: numeral_eq_Suc length_Suc_conv)
  let ?w = "get_u32 bs"
  have w: "bit ?w n \<longleftrightarrow> n < 32 \<and> (if n < 8 then bit a n else if n < 16 then bit b (n - 8)
      else if n < 24 then bit c (n - 16) else bit d (n - 24))" for n
    by (auto simp: bs get_u32_def bit_simps numeral_2_eq_2 numeral_3_eq_3 dest: bit_imp_le_length)
  have "ucast ?w = a" "ucast (drop_bit 8 ?w) = b" "ucast (drop_bit 16 ?w) = c" "ucast (drop_bit 24 ?w) = d"
    by (intro bit_word_eqI; simp add: bit_simps w)+
  then show "u32_bytes ?w = bs" by (simp add: u32_bytes_def bs)
qed

text \<open>Two keys are the same for \<^verbatim>\<open>grn_hash_entry_compare_key\<close> exactly when they are.\<close>

lemma compare_key_iff:
  assumes e: "entry_wf h e" and v: "key_hash_value h key = Some v"
  shows "grn_hash_entry_compare_key h e v key \<longleftrightarrow> grn_hash_entry_get_key h e = key"
proof (cases "\<not> h_var_size h \<and> h_key_size h = 4")
  case True
  then have "length key = 4" "v = get_u32 key" using v by (auto simp: key_hash_value_def split: if_splits)
  moreover have "(e_hash e = get_u32 key) = (u32_bytes (e_hash e) = key)"
    using u32_bytes_get [OF \<open>length key = 4\<close>] get_u32_bytes [of "e_hash e" "[]"] by auto
  ultimately show ?thesis using True
    by (simp add: grn_hash_entry_compare_key_def grn_hash_entry_get_key_def)
next
  case False
  then show ?thesis
    using e v by (auto simp: entry_wf_def grn_hash_entry_compare_key_def grn_hash_entry_get_key_def
        key_hash_value_def split: if_splits)
qed

lemma entry_at_stored: "stored h rid \<Longrightarrow> grn_hash_entry_at env h rid = (h, True)"
  by (auto simp: stored_def grn_hash_entry_at_def entry_put_def Let_def fun_upd_idem)

lemma entries_okD:
  assumes "entries_ok h"
  shows "rid \<in> hash_live h \<Longrightarrow> stored h rid" and "rid \<in> hash_live h \<Longrightarrow> entry_wf h (h_entries h rid)"
    and "inj_on (hash_key h) (hash_live h)" and "bitmap_wf (h_bitmap h)"
    and "rid > h_a_max h \<Longrightarrow> h_entries h rid = zero_entry (h_value_size h)" and "h_key_size h < 2 ^ 16"
  using assms unfolding entries_ok_def by blast+

lemma slots_okD:
  assumes "slots_ok k h"
  shows "h_max_offset h = mask k" and "length (h_index h) = 2 ^ k"
    and "index_ok (h_index h) (probe k) (hash_of h) (hash_live h)"
    and "unat (h_n_entries h) = card (hash_live h)" and "unat (h_n_garbages h) = garbage_slots (h_index h)"
    and "unat (h_n_entries h) + unat (h_n_garbages h) < 2 ^ k"
  using assms unfolding slots_ok_def by blast+

section \<open>Searching\<close>

text \<open>The slot of the \<open>n\<close>-th probe of a key, and the variable \<^verbatim>\<open>i\<close> of the loops then.\<close>

definition probe_pos :: "u32 \<Rightarrow> nat \<Rightarrow> u32" where
  "probe_pos v n = v + of_nat n * grn_hash_calculate_step v"

lemma probe_pos_0: "probe_pos v 0 = v"
  by (simp add: probe_pos_def)

lemma probe_pos_Suc: "probe_pos v n + grn_hash_calculate_step v = probe_pos v (Suc n)"
  by (simp add: probe_pos_def algebra_simps)

lemma probe_pos_Suc': "i + grn_hash_calculate_step v = probe_pos v (Suc n)" if "i = probe_pos v n"
  using that probe_pos_Suc by simp

lemma idx_at_probe: "slots_ok k h \<Longrightarrow> k \<le> 32 \<Longrightarrow> grn_hash_idx_at h (probe_pos v n) = probe k v n"
  by (simp add: grn_hash_idx_at_def slots_okD(1) probe_pos_def probe_word)

text \<open>The ids a search meets from its \<open>n\<close>-th probe to the first empty slot, the \<open>N\<close>-th.\<close>

definition met :: "nat \<Rightarrow> grn_hash \<Rightarrow> u32 \<Rightarrow> nat \<Rightarrow> nat \<Rightarrow> grn_id list" where
  "met k h v n N = map (\<lambda>m. h_index h ! probe k v m) [n..<N]"

lemma met_Nil: "met k h v N N = []"
  by (simp add: met_def)

lemma met_Cons: "n < N \<Longrightarrow> met k h v n N = h_index h ! probe k v n # met k h v (Suc n) N"
  by (simp add: met_def upt_conv_Cons)

definition ends_at :: "nat \<Rightarrow> grn_hash \<Rightarrow> u32 \<Rightarrow> nat \<Rightarrow> bool" where
  "ends_at k h v N \<longleftrightarrow> N < 2 ^ k \<and> h_index h ! probe k v N = GRN_ID_NIL
     \<and> (\<forall>m < N. h_index h ! probe k v m \<noteq> GRN_ID_NIL)"

lemma ends_atE:
  assumes "slots_ok k h"
  obtains N where "ends_at k h v N"
  using dh.search_ends [OF slots_okD(3,2) [OF assms], of v] slots_okD(4,5,6) [OF assms]
  unfolding ends_at_def by metis

lemma probe_lt: "probe k v n < 2 ^ k"
  by (simp add: probe_def)

lemma met_live:
  assumes "slots_ok k h" and "rid \<in> set (met k h v n N)" and "rid \<noteq> GRN_ID_NIL" and "rid \<noteq> GARBAGE"
  shows "rid \<in> hash_live h"
  using assms(2-) index_okD(1) [OF slots_okD(3) [OF assms(1)]] probe_lt [of k v]
  by (auto simp: met_def live_slot_def slots_okD(2) [OF assms(1)])

lemma live_met:
  assumes "slots_ok k h" and "ends_at k h (hash_of h rid) N" and "rid \<in> hash_live h"
  shows "rid \<in> set (met k h (hash_of h rid) 0 N)"
  using dh.found_before_end [OF slots_okD(3) [OF assms(1)] assms(3), of N] assms(2)
  by (auto simp: met_def ends_at_def image_iff intro: bexI [rotated])

definition id_with_key :: "grn_hash \<Rightarrow> byte list \<Rightarrow> grn_id list \<Rightarrow> grn_id option" where
  "id_with_key h key ids = find (\<lambda>rid. rid \<in> hash_live h \<and> hash_key h rid = key) ids"

lemma compare_live:
  assumes "entries_ok h" and "rid \<in> hash_live h" and "key_hash_value h key = Some v"
  shows "grn_hash_entry_compare_key h (h_entries h rid) v key \<longleftrightarrow> hash_key h rid = key"
  using compare_key_iff [OF entries_okD(2) [OF assms(1,2)] assms(3)] by (simp add: hash_key_def)

lemma key_hash: "entries_ok h \<Longrightarrow> rid \<in> hash_live h \<Longrightarrow> key_hash_value h (hash_key h rid) = Some (hash_of h rid)"
  using entries_okD(2) [of h rid] by (simp add: entry_wf_def hash_key_def hash_of_def)

text \<open>A search sees the entry of its key, if there is one.\<close>

lemma id_with_key_found:
  assumes s: "slots_ok k h" and e: "entries_ok h" and v: "key_hash_value h key = Some v" and N: "ends_at k h v N"
  shows "id_with_key h key (met k h v 0 N) = Some rid \<longleftrightarrow> rid \<in> hash_live h \<and> hash_key h rid = key"
proof
  assume "id_with_key h key (met k h v 0 N) = Some rid"
  then show "rid \<in> hash_live h \<and> hash_key h rid = key" by (auto simp: id_with_key_def find_Some_iff)
next
  assume r: "rid \<in> hash_live h \<and> hash_key h rid = key"
  then have "hash_of h rid = v" using key_hash [OF e, of rid] v by simp
  then have "rid \<in> set (met k h v 0 N)" using live_met [OF s, of rid N] N r by simp
  then obtain rid' where rid': "id_with_key h key (met k h v 0 N) = Some rid'"
    using r by (cases "id_with_key h key (met k h v 0 N)") (auto simp: id_with_key_def find_None_iff)
  then have "rid' \<in> hash_live h" "hash_key h rid' = key" by (auto simp: id_with_key_def find_Some_iff)
  with r entries_okD(3) [OF e] have "rid' = rid" by (simp add: inj_on_def)
  with rid' show "id_with_key h key (met k h v 0 N) = Some rid" by simp
qed

lemma id_with_key_none:
  assumes "slots_ok k h" and "entries_ok h" and "key_hash_value h key = Some v" and "ends_at k h v N"
  shows "id_with_key h key (met k h v 0 N) = None \<longleftrightarrow> (\<forall>rid \<in> hash_live h. hash_key h rid \<noteq> key)"
  using id_with_key_found [OF assms] by (metis not_None_eq)

lemma get_loop:
  assumes s: "slots_ok k h" "k \<le> 32" and e: "entries_ok h" and v: "key_hash_value h key = Some v" and N: "ends_at k h v N"
  shows "n \<le> N \<Longrightarrow> hash_get_loop env h v key (probe_pos v n) =
    Some (h, case id_with_key h key (met k h v n N) of None \<Rightarrow> GRN_ID_NIL | Some rid \<Rightarrow> rid)"
proof (induction "N - n" arbitrary: n)
  case 0
  then have "n = N" by simp
  then show ?case using N
    by (subst hash_get_loop.simps) (simp add: idx_at_probe [OF s] ends_at_def met_Nil id_with_key_def)
next
  case (Suc d)
  let ?rid = "h_index h ! probe k v n"
  have n: "n < N" and nz: "?rid \<noteq> GRN_ID_NIL" using Suc.hyps(2) N by (auto simp: ends_at_def)
  have IH: "hash_get_loop env h v key (probe_pos v (Suc n)) =
    Some (h, case id_with_key h key (met k h v (Suc n) N) of None \<Rightarrow> GRN_ID_NIL | Some rid \<Rightarrow> rid)"
    using Suc.hyps n by simp
  have g: "GARBAGE \<notin> hash_live h"
    using index_okD(2) [OF slots_okD(3) [OF s(1)]] by (auto simp: live_slot_def)
  show ?case
  proof (cases "?rid = GARBAGE")
    case True
    then show ?thesis using nz IH g
      by (subst hash_get_loop.simps) (simp add: idx_at_probe [OF s] met_Cons [OF n] id_with_key_def probe_pos_Suc Let_def)
  next
    case False
    then have live: "?rid \<in> hash_live h" using met_live [OF s(1), of ?rid v n N] nz by (simp add: met_Cons [OF n])
    show ?thesis using nz False IH live
      by (subst hash_get_loop.simps)
        (simp add: idx_at_probe [OF s] met_Cons [OF n] id_with_key_def probe_pos_Suc Let_def
          entry_at_stored [OF entries_okD(1) [OF e live]] compare_live [OF e live v])
  qed
qed

lemma hash_get_ok:
  assumes "hash_ok h"
  shows "\<exists>rid. grn_hash_get env h key = Some (h, rid) \<and>
    (if rid = GRN_ID_NIL then \<forall>r \<in> hash_live h. hash_key h r \<noteq> key
     else rid \<in> hash_live h \<and> hash_key h rid = key)"
proof (cases "key_hash_value h key")
  case None
  then show ?thesis using assms key_hash by (fastforce simp: grn_hash_get_def hash_ok_def)
next
  case (Some v)
  obtain k where k: "entries_ok h" "slots_ok k h" "k \<le> 32" using assms by (auto simp: hash_ok_def)
  obtain N where N: "ends_at k h v N" using ends_atE [OF k(2)] .
  let ?r = "id_with_key h key (met k h v 0 N)"
  have eq: "grn_hash_get env h key = Some (h, case ?r of None \<Rightarrow> GRN_ID_NIL | Some rid \<Rightarrow> rid)"
    using get_loop [OF k(2,3,1) Some N, of 0] by (simp add: grn_hash_get_def Some grn_hash_get_internal_def probe_pos_0)
  show ?thesis
  proof (cases ?r)
    case None
    then show ?thesis using eq id_with_key_none [OF k(2,1) Some N] by auto
  next
    case (Some rid)
    then have "rid \<in> hash_live h" "hash_key h rid = key" using id_with_key_found [OF k(2,1) \<open>key_hash_value h key = Some v\<close> N] by auto
    moreover then have "rid \<noteq> GRN_ID_NIL" using entries_okD(1) [OF k(1)] by (auto simp: stored_def)
    ultimately show ?thesis using eq Some by auto
  qed
qed

section \<open>Changing one entry\<close>

text \<open>\<open>h'\<close> differs from \<open>h\<close> at most in the entry \<open>rid\<close>, the index, the counters and the room for entries.\<close>

definition touches :: "grn_id \<Rightarrow> grn_hash \<Rightarrow> grn_hash \<Rightarrow> bool" where
  "touches rid h h' \<longleftrightarrow> h_var_size h' = h_var_size h \<and> h_key_size h' = h_key_size h
     \<and> h_value_size h' = h_value_size h \<and> h_domain h' = h_domain h \<and> h_a_max h \<le> h_a_max h'
     \<and> (\<forall>b. h_blocks h b \<longrightarrow> h_blocks h' b) \<and> (\<forall>r. r \<noteq> rid \<longrightarrow> h_entries h' r = h_entries h r)
     \<and> bitmap_wf (h_bitmap h') \<and> hash_live h' - {rid} = hash_live h - {rid}"

lemma touchesD:
  assumes "touches rid h h'"
  shows "r \<noteq> rid \<Longrightarrow> hash_key h' r = hash_key h r" and "r \<noteq> rid \<Longrightarrow> hash_of h' r = hash_of h r"
    and "stored h r \<Longrightarrow> stored h' r" and "entry_wf h' e = entry_wf h e"
    and "key_hash_value h' key = key_hash_value h key" and "bitmap_wf (h_bitmap h')"
    and "r \<noteq> rid \<Longrightarrow> r \<in> hash_live h' \<longleftrightarrow> r \<in> hash_live h" and "r \<noteq> rid \<Longrightarrow> h_entries h' r = h_entries h r"
    and "h_a_max h \<le> h_a_max h'" and "h_value_size h' = h_value_size h" and "h_key_size h' = h_key_size h"
    and "grn_hash_entry_get_key h' e = grn_hash_entry_get_key h e"
  using assms by (auto simp: touches_def hash_key_def hash_of_def stored_def entry_wf_def key_hash_value_def
      grn_hash_entry_get_key_def)

text \<open>What never changes of a table.\<close>

definition same_kind :: "grn_hash \<Rightarrow> grn_hash \<Rightarrow> bool" where
  "same_kind h h' \<longleftrightarrow> h_var_size h' = h_var_size h \<and> h_key_size h' = h_key_size h
     \<and> h_value_size h' = h_value_size h \<and> h_domain h' = h_domain h"

lemma same_kind_refl [simp]: "same_kind h h"
  by (simp add: same_kind_def)

lemma same_kind_trans: "same_kind h h1 \<Longrightarrow> same_kind h1 h2 \<Longrightarrow> same_kind h h2"
  by (simp add: same_kind_def)

lemma touches_kind: "touches rid h h' \<Longrightarrow> same_kind h h'"
  by (simp add: touches_def same_kind_def)

lemma touches_contents:
  "touches rid h h' \<Longrightarrow> hash_contents h' = (hash_contents h)(rid := hash_contents h' rid)"
  by (auto simp: fun_eq_iff hash_contents_def touchesD)

lemma touches_entries_ok:
  assumes e: "entries_ok h" and t: "touches rid h h'" and rid: "rid \<le> h_a_max h'"
    and live: "rid \<in> hash_live h' \<Longrightarrow> stored h' rid \<and> entry_wf h (h_entries h' rid)
      \<and> (\<forall>r \<in> hash_live h. r \<noteq> rid \<longrightarrow> hash_key h r \<noteq> hash_key h' rid)"
  shows "entries_ok h'"
  unfolding entries_ok_def
proof (intro conjI ballI allI impI)
  show "bitmap_wf (h_bitmap h')" "h_key_size h' < 2 ^ 16" using touchesD(6,11) [OF t] entries_okD(6) [OF e] by auto
next
  fix r assume "r \<in> hash_live h'"
  then show "stored h' r" "entry_wf h' (h_entries h' r)"
    using live entries_okD(1,2) [OF e, of r] touchesD(3,4,7,8) [OF t] by (cases "r = rid"; fastforce)+
next
  show "inj_on (hash_key h') (hash_live h')"
  proof (rule inj_onI)
    fix r q assume rq: "r \<in> hash_live h'" "q \<in> hash_live h'" "hash_key h' r = hash_key h' q"
    then show "r = q"
      using live touchesD(1,7) [OF t, of r] touchesD(1,7) [OF t, of q] inj_onD [OF entries_okD(3) [OF e], of r q]
      by (cases "r = rid"; cases "q = rid"; simp) metis+
  qed
next
  fix r assume "r > h_a_max h'"
  then show "h_entries h' r = zero_entry (h_value_size h')"
    using rid touchesD(8) [OF t, of r] touchesD(9,10) [OF t] entries_okD(5) [OF e, of r] by auto
qed

lemma touches_chain:
  "\<lbrakk>touches rid h h'; rid \<notin> set fs\<rbrakk> \<Longrightarrow> chain (hash_of h') x fs = chain (hash_of h) x fs"
  by (rule chain_cong) (metis touchesD(2))

section \<open>Deleting\<close>

lemma card_less_2p32: "k \<le> 28 \<Longrightarrow> (n::nat) < 2 ^ k \<Longrightarrow> n < 2 ^ LENGTH(32) - 1"
  using power_increasing [of k 28 "2::nat"] by simp

text \<open>Taking an entry out: its slot gets the garbage mark, its first bytes the head of the free list.\<close>

lemma delete_entry_fields:
  fixes h p rid
  defines "h' \<equiv> grn_hash_delete_entry h p rid"
  assumes e: "entries_ok h" and live: "rid \<in> hash_live h"
  shows "touches rid h h'" and "hash_live h' = hash_live h - {rid}" and "h_garbages h' = rid"
    and "h_index h' = (h_index h)[p := GARBAGE]" and "h_max_offset h' = h_max_offset h"
    and "h_n_entries h' = h_n_entries h - 1" and "h_n_garbages h' = h_n_garbages h + 1"
    and "hash_of h' rid = h_garbages h" and "h_a_max h' = h_a_max h"
proof -
  note has = hash_live_has [OF live] and wf = entries_okD(4) [OF e]
  have bm: "h_bitmap h' = bitmap_set rid False (h_bitmap h)" using has
    by (simp add: h'_def grn_hash_delete_entry_def Let_def set_entry_def bitmap_get_and_set_eq)
  show L: "hash_live h' = hash_live h - {rid}"
    by (auto simp: hash_live_def bm tb.bit_set_to [OF wf has])
  show "h_garbages h' = rid" "h_index h' = (h_index h)[p := GARBAGE]" "h_max_offset h' = h_max_offset h"
    "h_n_entries h' = h_n_entries h - 1" "h_n_garbages h' = h_n_garbages h + 1" "hash_of h' rid = h_garbages h"
    "h_a_max h' = h_a_max h"
    by (simp_all add: h'_def grn_hash_delete_entry_def Let_def set_entry_def hash_of_def)
  show "touches rid h h'"
    unfolding touches_def L bm
    using tb.bwf_set_to [OF wf has]
    by (simp add: h'_def grn_hash_delete_entry_def Let_def set_entry_def)
qed

lemma delete_entry_slots:
  assumes e: "entries_ok h" and s: "slots_ok k h" and k: "k \<le> 28" and live: "rid \<in> hash_live h"
    and p: "p < length (h_index h)" "h_index h ! p = rid"
  shows "slots_ok k (grn_hash_delete_entry h p rid)"
proof -
  let ?h = "grn_hash_delete_entry h p rid"
  note sl = slots_okD [OF s] and d = delete_entry_fields [OF e live, of p]
  have rid: "rid \<noteq> GARBAGE" using index_okD(2) [OF sl(3) live] by (simp add: live_slot_def)
  have pos: "0 < card (hash_live h)" using live by (auto simp: card_gt_0_iff)
  have "h_n_entries h \<noteq> 0" using pos sl(4) by auto
  then have "unat (h_n_entries h - 1) = card (hash_live h) - 1" using sl(4) by (simp add: unat_pred_no_wrap)
  moreover have "unat (h_n_garbages h + 1) = Suc (unat (h_n_garbages h))"
    using card_less_2p32 [OF k] sl(6) by (intro unat_Suc_no_wrap) simp
  moreover have "index_ok ((h_index h)[p := GARBAGE]) (probe k) (hash_of ?h) (hash_live h - {rid})"
    by (rule dh.remove_ok [OF sl(3,2) _ p(2) live]) (use p(1) sl(2) touchesD(2) [OF d(1)] in auto)
  ultimately show ?thesis
    unfolding slots_ok_def d using sl pos live p rid by (simp add: garbage_slots_update)
qed

lemma delete_entry_ok:
  assumes ok: "hash_ok h" and live: "rid \<in> hash_live h" and p: "p < length (h_index h)" "h_index h ! p = rid"
  shows "hash_ok (grn_hash_delete_entry h p rid)"
    and "hash_contents (grn_hash_delete_entry h p rid) = (hash_contents h)(rid := None)"
    and "same_kind h (grn_hash_delete_entry h p rid)"
proof -
  obtain k where e: "entries_ok h" and f: "free_ok h" and k: "8 \<le> k" "k \<le> 28" and s: "slots_ok k h"
    using hash_okE [OF ok] .
  let ?h = "grn_hash_delete_entry h p rid"
  note d = delete_entry_fields [OF e live, of p]
  have st: "stored h rid" by (rule entries_okD(1) [OF e live])
  have "entries_ok ?h"
    by (rule touches_entries_ok [OF e d(1)]) (use st d(2,9) in \<open>auto simp: stored_def\<close>)
  moreover have "free_ok ?h"
  proof -
    obtain fs where fs: "chain (hash_of h) (h_garbages h) fs" "distinct fs" "\<forall>r \<in> set fs. r \<notin> hash_live h \<and> stored h r"
      using f by (auto simp: free_ok_def)
    then have "rid \<notin> set fs" using live by auto
    with fs st show ?thesis
      unfolding free_ok_def d(2,3) using touches_chain [OF d(1), of fs] touchesD(3) [OF d(1)]
      by (intro exI [of _ "rid # fs"]) (auto simp: d(8) stored_def)
  qed
  moreover have "slots_ok k ?h" by (rule delete_entry_slots [OF e s k(2) live p])
  ultimately show "hash_ok ?h" using k by (auto simp: hash_ok_def)
  show "same_kind h ?h" by (rule touches_kind [OF d(1)])
  show "hash_contents ?h = (hash_contents h)(rid := None)"
    using touches_contents [OF d(1)] d(2) by (simp add: hash_contents_def [of ?h rid])
qed

lemma garbage_not_live: "slots_ok k h \<Longrightarrow> GARBAGE \<notin> hash_live h" "slots_ok k h \<Longrightarrow> GRN_ID_NIL \<notin> hash_live h"
  using index_okD(2) [OF slots_okD(3)] by (auto simp: live_slot_def)

lemma delete_loop:
  assumes s: "slots_ok k h" "k \<le> 32" and e: "entries_ok h" and v: "key_hash_value h key = Some v" and N: "ends_at k h v N"
  shows "n \<le> N \<Longrightarrow> case id_with_key h key (met k h v n N) of
      None \<Rightarrow> delete_loop env h v key (probe_pos v n) = Some (h, GRN_INVALID_ARGUMENT)
    | Some rid \<Rightarrow> \<exists>p < 2 ^ k. h_index h ! p = rid
        \<and> delete_loop env h v key (probe_pos v n) = Some (grn_hash_delete_entry h p rid, GRN_SUCCESS)"
proof (induction "N - n" arbitrary: n)
  case 0
  then have "n = N" by simp
  then show ?case using N
    by (subst delete_loop.simps) (simp add: idx_at_probe [OF s] ends_at_def met_Nil id_with_key_def)
next
  case (Suc d)
  let ?rid = "h_index h ! probe k v n"
  have n: "n < N" and nz: "?rid \<noteq> GRN_ID_NIL" using Suc.hyps(2) N by (auto simp: ends_at_def)
  note IH = Suc.hyps(1) [of "Suc n"]
  show ?case
  proof (cases "?rid = GARBAGE")
    case True
    then have "delete_loop env h v key (probe_pos v n) = delete_loop env h v key (probe_pos v (Suc n))"
      by (subst delete_loop.simps) (simp add: nz [unfolded True] idx_at_probe [OF s] probe_pos_Suc Let_def)
    then show ?thesis using IH Suc.hyps(2) n True garbage_not_live(1) [OF s(1)]
      by (auto simp: met_Cons [OF n] id_with_key_def split: option.splits)
  next
    case False
    then have live: "?rid \<in> hash_live h" using met_live [OF s(1), of ?rid v n N] nz by (simp add: met_Cons [OF n])
    have "delete_loop env h v key (probe_pos v n) = (if hash_key h ?rid = key
      then Some (grn_hash_delete_entry h (probe k v n) ?rid, GRN_SUCCESS)
      else delete_loop env h v key (probe_pos v (Suc n)))"
      using nz False
      by (subst delete_loop.simps)
        (simp add: idx_at_probe [OF s] probe_pos_Suc Let_def entry_at_stored [OF entries_okD(1) [OF e live]]
          compare_live [OF e live v])
    then show ?thesis using IH Suc.hyps(2) n live probe_lt [of k v n]
      by (auto simp add: met_Cons [OF n] id_with_key_def split: option.splits)
  qed
qed

lemma hash_delete_ok:
  assumes "hash_ok h"
  shows "\<exists>h' rc. grn_hash_delete env h key = Some (h', rc) \<and> hash_ok h' \<and> same_kind h h' \<and>
    (if rc = GRN_SUCCESS then \<exists>rid \<in> hash_live h. hash_key h rid = key \<and> hash_contents h' = (hash_contents h)(rid := None)
     else h' = h \<and> (\<forall>rid \<in> hash_live h. hash_key h rid \<noteq> key))"
proof (cases "key_hash_value h key")
  case None
  then show ?thesis using assms key_hash by (fastforce simp: grn_hash_delete_def hash_ok_def)
next
  case (Some v)
  obtain k where k: "entries_ok h" "slots_ok k h" "k \<le> 32" using assms by (auto simp: hash_ok_def)
  obtain N where N: "ends_at k h v N" using ends_atE [OF k(2)] .
  have eq: "grn_hash_delete env h key = delete_loop env h v key (probe_pos v 0)"
    by (simp add: grn_hash_delete_def Some probe_pos_0)
  note loop = delete_loop [OF k(2,3,1) Some N, of 0 env] and len = slots_okD(2) [OF k(2)]
  show ?thesis
  proof (cases "id_with_key h key (met k h v 0 N)")
    case None
    then show ?thesis using loop eq assms id_with_key_none [OF k(2,1) \<open>key_hash_value h key = Some v\<close> N] by auto
  next
    case (Some rid)
    then have rid: "rid \<in> hash_live h" "hash_key h rid = key"
      using id_with_key_found [OF k(2,1) \<open>key_hash_value h key = Some v\<close> N] by auto
    obtain p where p: "p < length (h_index h)" "h_index h ! p = rid"
      "delete_loop env h v key (probe_pos v 0) = Some (grn_hash_delete_entry h p rid, GRN_SUCCESS)"
      using loop Some len by auto
    then show ?thesis using eq rid delete_entry_ok [OF assms rid(1) p(1,2)] by auto
  qed
qed

lemma delete_by_id_loop:
  assumes s: "slots_ok k h" "k \<le> 32" and N: "ends_at k h v N" and rid: "rid \<noteq> GRN_ID_NIL"
  shows "n \<le> N \<Longrightarrow> if rid \<in> set (met k h v n N)
    then \<exists>p < 2 ^ k. h_index h ! p = rid \<and>
      delete_by_id_loop h (grn_hash_calculate_step v) rid (probe_pos v n) = Some (grn_hash_delete_entry h p rid, GRN_SUCCESS)
    else delete_by_id_loop h (grn_hash_calculate_step v) rid (probe_pos v n) = Some (h, GRN_INVALID_ARGUMENT)"
proof (induction "N - n" arbitrary: n)
  case 0
  then have "n = N" by simp
  then show ?case using N
    by (subst (1 2) delete_by_id_loop.simps) (simp add: idx_at_probe [OF s] ends_at_def met_Nil Let_def)
next
  case (Suc d)
  let ?rid = "h_index h ! probe k v n"
  have n: "n < N" and nz: "?rid \<noteq> GRN_ID_NIL" using Suc.hyps(2) N by (auto simp: ends_at_def)
  have "delete_by_id_loop h (grn_hash_calculate_step v) rid (probe_pos v n) =
    (if ?rid = rid then Some (grn_hash_delete_entry h (probe k v n) rid, GRN_SUCCESS)
     else delete_by_id_loop h (grn_hash_calculate_step v) rid (probe_pos v (Suc n)))"
    using nz by (subst delete_by_id_loop.simps) (simp add: idx_at_probe [OF s] probe_pos_Suc Let_def)
  then show ?case using Suc.hyps(1) [of "Suc n"] Suc.hyps(2) n probe_lt [of k v n] by (auto simp: met_Cons [OF n])
qed

text \<open>Reaching for an entry that is not stored only makes room for it.\<close>

lemma entry_at_room:
  assumes ok: "hash_ok h" and at: "grn_hash_entry_at env h rid = (h', b)"
  shows "hash_ok h'" and "hash_contents h' = hash_contents h" and "hash_live h' = hash_live h"
    and "hash_of h' = hash_of h" and "b \<Longrightarrow> stored h' rid" and "same_kind h h'"
proof -
  have L: "hash_live h' = hash_live h" and en: "h_entries h' = h_entries h" and ix: "h_index h' = h_index h"
    "h_max_offset h' = h_max_offset h" "h_n_entries h' = h_n_entries h" "h_n_garbages h' = h_n_garbages h"
    "h_garbages h' = h_garbages h" and same: "h_var_size h' = h_var_size h" "h_key_size h' = h_key_size h"
    "h_value_size h' = h_value_size h" "h_domain h' = h_domain h" "h_bitmap h' = h_bitmap h" "h_a_max h \<le> h_a_max h'"
    and bl: "\<And>b. h_blocks h b \<Longrightarrow> h_blocks h' b"
    using at by (auto simp: grn_hash_entry_at_def entry_put_def Let_def hash_live_def split: if_splits)
  obtain k where e: "entries_ok h" and f: "free_ok h" and k: "8 \<le> k" "k \<le> 28" and s: "slots_ok k h"
    using hash_okE [OF ok] .
  show of': "hash_of h' = hash_of h" by (simp add: hash_of_def fun_eq_iff en)
  show "hash_live h' = hash_live h" by (rule L)
  have t: "touches GRN_ID_NIL h h'" using entries_okD(4) [OF e] by (auto simp: touches_def L en same bl)
  have "entries_ok h'"
    by (rule touches_entries_ok [OF e t]) (use garbage_not_live(2) [OF s] L in auto)
  moreover have "free_ok h'" using f touchesD(3) [OF t] unfolding free_ok_def of' L ix by blast
  moreover have "slots_ok k h'" using s unfolding slots_ok_def L ix of' by simp
  ultimately show "hash_ok h'" using k by (auto simp: hash_ok_def)
  show "hash_contents h' = hash_contents h"
    by (auto simp: hash_contents_def fun_eq_iff L en hash_key_def grn_hash_entry_get_key_def same)
  show "same_kind h h'" by (rule touches_kind [OF t])
  show "b \<Longrightarrow> stored h' rid"
    using at by (auto simp: grn_hash_entry_at_def entry_put_def Let_def stored_def split: if_splits)
qed

lemma hash_delete_by_id_ok:
  assumes ok: "hash_ok h" and rid: "rid \<noteq> GARBAGE"
  shows "\<exists>h' rc. grn_hash_delete_by_id env h rid = Some (h', rc) \<and> hash_ok h' \<and> same_kind h h' \<and>
    (if rid \<in> hash_live h then rc = GRN_SUCCESS \<and> hash_contents h' = (hash_contents h)(rid := None)
     else rc = GRN_INVALID_ARGUMENT \<and> hash_contents h' = hash_contents h)"
proof (cases "rid = GRN_ID_NIL")
  case True
  then show ?thesis using ok garbage_not_live(2) by (auto simp: grn_hash_delete_by_id_def hash_ok_def)
next
  case False
  obtain h1 b where at: "grn_hash_entry_at env h rid = (h1, b)" by fastforce
  note room = entry_at_room [OF ok at]
  obtain k where s: "slots_ok k h1" "k \<le> 32" using room(1) by (auto simp: hash_ok_def)
  let ?v = "hash_of h1 rid"
  obtain N where N: "ends_at k h1 ?v N" using ends_atE [OF s(1)] .
  note loop = delete_by_id_loop [OF s N False, of 0]
  have eq: "grn_hash_delete_by_id env h rid = (if b
      then delete_by_id_loop h1 (grn_hash_calculate_step ?v) rid (probe_pos ?v 0) else Some (h1, GRN_INVALID_ARGUMENT))"
    using False by (simp add: grn_hash_delete_by_id_def at Let_def probe_pos_0 hash_of_def)
  show ?thesis
  proof (cases "rid \<in> hash_live h")
    case True
    then have b: b using at entry_at_stored [of h rid env] ok entries_okD(1) [of h rid] by (simp add: hash_ok_def)
    have live: "rid \<in> hash_live h1" using True room(3) by simp
    then obtain p where p: "p < length (h_index h1)" "h_index h1 ! p = rid"
      "grn_hash_delete_by_id env h rid = Some (grn_hash_delete_entry h1 p rid, GRN_SUCCESS)"
      using loop live_met [OF s(1) N] eq b slots_okD(2) [OF s(1)] by auto
    with True delete_entry_ok [OF room(1) live p(1,2)] room(2,6) show ?thesis by (auto intro: same_kind_trans)
  next
    case nl: False
    then have "rid \<notin> set (met k h1 ?v 0 N)" using met_live [OF s(1), of rid] False rid room(3) by blast
    then show ?thesis using loop eq nl room by auto
  qed
qed

end
