(* ===== verification/HashGrow.thy ===== *)
theory HashGrow
  imports HashCorrect
begin

text \<open>
  The two operations that fill an index: \<^verbatim>\<open>grn_hash_add\<close>, with its bounded search for a slot, and
  \<^verbatim>\<open>grn_hash_rehash\<close>, which copies the entries to a larger index.
\<close>

section \<open>The search for a slot\<close>

definition slot_for :: "nat \<Rightarrow> grn_hash \<Rightarrow> u32 \<Rightarrow> nat \<Rightarrow> bool \<Rightarrow> bool" where
  "slot_for k h v p found_garbage \<longleftrightarrow> p < 2 ^ k \<and> found_at (h_index h) (probe k v) p
     \<and> h_index h ! p = (if found_garbage then GARBAGE else GRN_ID_NIL)"

lemma slot_for_probe:
  assumes "ends_at k h v N" and "n \<le> N" and "h_index h ! probe k v n = (if g then GARBAGE else GRN_ID_NIL)"
  shows "slot_for k h v (probe k v n) g"
  using assms probe_lt [of k v n] unfolding slot_for_def found_at_def ends_at_def
  by (auto intro!: exI [of _ n])

lemma add_search:
  assumes s: "slots_ok k h" "k \<le> 32" and e: "entries_ok h" and v: "key_hash_value h key = Some v" and N: "ends_at k h v N"
  shows "\<lbrakk>n \<le> N; N < n + tries; \<And>p. g = Some p \<Longrightarrow> slot_for k h v p True\<rbrakk> \<Longrightarrow>
    case id_with_key h key (met k h v n N) of
      None \<Rightarrow> \<exists>p fg. add_search env v key tries (probe_pos v n) g idx h = (h, AddSlot p fg) \<and> slot_for k h v p fg
    | Some rid \<Rightarrow> add_search env v key tries (probe_pos v n) g idx h = (h, AddFound rid)"
proof (induction tries arbitrary: n g idx)
  case 0
  then show ?case by simp
next
  case (Suc tries)
  let ?rid = "h_index h ! probe k v n"
  show ?case
  proof (cases "n = N")
    case True
    then show ?thesis using N Suc.prems(3) slot_for_probe [OF N, of N False]
      by (auto simp: met_Nil id_with_key_def idx_at_probe [OF s] ends_at_def Let_def split: option.splits)
  next
    case False
    then have n: "n < N" and nz: "?rid \<noteq> GRN_ID_NIL" using Suc.prems(1) N by (auto simp: ends_at_def)
    note IH = Suc.IH [of "Suc n"]
    show ?thesis
    proof (cases "?rid = GARBAGE")
      case True
      let ?g = "case g of None \<Rightarrow> Some (probe k v n) | Some x \<Rightarrow> Some x"
      have "add_search env v key (Suc tries) (probe_pos v n) g idx h =
          add_search env v key tries (probe_pos v (Suc n)) ?g (probe k v n) h"
        using True nz by (auto simp: idx_at_probe [OF s] probe_pos_Suc Let_def split: option.splits)
      moreover have "\<And>p. ?g = Some p \<Longrightarrow> slot_for k h v p True"
        using Suc.prems(3) slot_for_probe [OF N, of n True] True n by (auto split: option.splits)
      ultimately show ?thesis
        using IH [of ?g "probe k v n"] Suc.prems(2) n True garbage_not_live(1) [OF s(1)]
        by (auto simp del: add_search.simps simp: met_Cons [OF n] id_with_key_def split: option.splits)
    next
      case False
      then have live: "?rid \<in> hash_live h" using met_live [OF s(1), of ?rid v n N] nz by (simp add: met_Cons [OF n])
      have "add_search env v key (Suc tries) (probe_pos v n) g idx h = (if hash_key h ?rid = key
        then (h, AddFound ?rid) else add_search env v key tries (probe_pos v (Suc n)) g (probe k v n) h)"
        using nz False
        by (simp add: idx_at_probe [OF s] probe_pos_Suc Let_def entry_at_stored [OF entries_okD(1) [OF e live]]
          compare_live [OF e live v])
      then show ?thesis using IH [of g "probe k v n"] Suc.prems n live
        by (auto simp del: add_search.simps simp: met_Cons [OF n] id_with_key_def split: option.splits)
    qed
  qed
qed

section \<open>Adding an entry\<close>

text \<open>Memory for keys and validity bits can be had; memory for blocks and the index may be refused.\<close>

definition reliable :: "hash_env \<Rightarrow> bool" where
  "reliable env \<longleftrightarrow> he_alloc_key env \<and> (\<forall>b. alloc_ok (he_alloc_bitmap env) b)"

definition generous :: "hash_env \<Rightarrow> bool" where
  "generous env \<longleftrightarrow> reliable env \<and> (\<forall>b. he_alloc_a env b) \<and> he_alloc_index env"

lemma put_key_wf:
  assumes "reliable env" and "key_hash_value h key = Some v" and "h_key_size h < 2 ^ 16"
    and "length (e_value e) = h_value_size h"
  shows "entry_wf h (fst (grn_hash_entry_put_key env h e v key))"
    and "grn_hash_entry_get_key h (fst (grn_hash_entry_put_key env h e v key)) = key"
    and "e_value (fst (grn_hash_entry_put_key env h e v key)) = e_value e"
    and "e_hash (fst (grn_hash_entry_put_key env h e v key)) = v"
proof -
  have len: "h_var_size h \<Longrightarrow> unat (of_nat (length key) :: u16) = length key"
    using assms(2,3) by (auto simp: key_hash_value_def unat_of_nat split: if_splits)
  show key: "grn_hash_entry_get_key h (fst (grn_hash_entry_put_key env h e v key)) = key"
    using assms(1,2) len u32_bytes_get [of key]
    by (auto simp: grn_hash_entry_put_key_def grn_hash_entry_get_key_def key_hash_value_def reliable_def split: if_splits)
  show "e_hash (fst (grn_hash_entry_put_key env h e v key)) = v"
    "e_value (fst (grn_hash_entry_put_key env h e v key)) = e_value e"
    using assms(1) by (auto simp: grn_hash_entry_put_key_def reliable_def)
  then show "entry_wf h (fst (grn_hash_entry_put_key env h e v key))"
    using assms key len by (auto simp: entry_wf_def grn_hash_entry_put_key_def reliable_def)
qed

text \<open>The id the new entry gets, and the table with room for it.\<close>

definition take_id :: "hash_env \<Rightarrow> grn_hash \<Rightarrow> grn_hash \<times> grn_id" where
  "take_id env h =
     (if h_garbages h \<noteq> GRN_ID_NIL
      then (set_entry (h_garbages h) (zero_entry (h_value_size h))
              (h\<lparr>h_garbages := e_hash (h_entries h (h_garbages h))\<rparr>), h_garbages h)
      else case entry_put env h (h_a_max h + 1) of
             (h', ok) \<Rightarrow> (h', if ok then h_a_max h + 1 else GRN_ID_NIL))"

lemma max_id_next:
  assumes "(m :: grn_id) < GRN_ID_MAX"
  shows "m < m + 1" and "m + 1 < GARBAGE" and "m + 1 \<noteq> GRN_ID_NIL"
proof -
  have "unat m < unat (0x3fffffff :: grn_id)" using assms by (simp only: word_less_nat_alt)
  then have "unat m < 0x3fffffff" by simp
  moreover then have "unat (m + 1) = Suc (unat m)" by (intro unat_Suc_no_wrap) simp
  ultimately show "m < m + 1" "m + 1 < GARBAGE" "m + 1 \<noteq> GRN_ID_NIL"
    by (auto simp: word_less_nat_alt GARBAGE_def simp flip: unat_inj)
qed

lemma take_id_fields:
  assumes "take_id env h = (h', rid)"
  shows "h_index h' = h_index h" and "h_max_offset h' = h_max_offset h" and "h_n_entries h' = h_n_entries h"
    and "h_n_garbages h' = h_n_garbages h" and "h_bitmap h' = h_bitmap h" and "hash_live h' = hash_live h"
    and "h_domain h' = h_domain h"
  using assms by (auto simp: take_id_def set_entry_def entry_put_def Let_def hash_live_def split: if_splits)

lemma take_id_ok:
  assumes e: "entries_ok h" and f: "free_ok h" and mx: "h_a_max h < GRN_ID_MAX"
    and t: "take_id env h = (h', rid)" and rid: "rid \<noteq> GRN_ID_NIL"
  shows "touches rid h h'" and "rid \<notin> hash_live h" and "stored h' rid" and "rid < GARBAGE"
    and "h_entries h' rid = zero_entry (h_value_size h)"
    and "\<exists>fs. chain (hash_of h') (h_garbages h') fs \<and> distinct fs \<and> (\<forall>r \<in> set fs. r \<noteq> rid \<and> r \<notin> hash_live h \<and> stored h' r)"
proof -
  obtain fs where fs: "chain (hash_of h) (h_garbages h) fs" "distinct fs" "\<forall>r \<in> set fs. r \<notin> hash_live h \<and> stored h r"
    using f by (auto simp: free_ok_def)
  note next_id = max_id_next [OF mx] and fields = take_id_fields [OF t]
  have "h_a_max h \<le> h_a_max h + 1" using next_id(1) by simp
  then show to: "touches rid h h'"
    using t entries_okD(4) [OF e]
    by (cases "h_garbages h = GRN_ID_NIL")
      (clarsimp simp: touches_def take_id_def set_entry_def entry_put_def Let_def hash_live_def split: if_splits)+
  have "rid \<notin> hash_live h \<and> stored h' rid \<and> rid < GARBAGE \<and> h_entries h' rid = zero_entry (h_value_size h)
    \<and> (\<exists>fs. chain (hash_of h') (h_garbages h') fs \<and> distinct fs \<and> (\<forall>r \<in> set fs. r \<noteq> rid \<and> r \<notin> hash_live h \<and> stored h' r))"
  proof (cases "h_garbages h = GRN_ID_NIL")
    case True
    then have "fs = []" using fs(1) by (simp add: chain_head_nil)
    have r: "rid = h_a_max h + 1" and h': "h' = fst (entry_put env h rid)" and ok: "snd (entry_put env h rid)"
      using t rid True by (auto simp: take_id_def split: prod.splits if_splits)
    have "rid \<notin> hash_live h" using r entries_okD(1) [OF e, of rid] next_id by (auto simp: stored_def)
    moreover have "stored h' rid" using h' ok rid by (auto simp: entry_put_def Let_def stored_def split: if_splits)
    moreover have "h_entries h' rid = zero_entry (h_value_size h)"
      using h' r entries_okD(5) [OF e] next_id by (simp add: entry_put_def Let_def)
    moreover have "h_garbages h' = GRN_ID_NIL" using True h' by (simp add: entry_put_def Let_def)
    ultimately show ?thesis using r next_id by (auto intro!: exI [of _ "[]"])
  next
    case False
    then obtain gs where gs: "fs = h_garbages h # gs" "chain (hash_of h) (hash_of h (h_garbages h)) gs"
      using chain_head_nonnil [OF fs(1)] by blast
    have r: "rid = h_garbages h" and h': "h' = set_entry rid (zero_entry (h_value_size h)) (h\<lparr>h_garbages := hash_of h rid\<rparr>)"
      using t False by (auto simp: take_id_def hash_of_def)
    then have st: "stored h rid" "rid \<notin> hash_live h" "rid \<notin> set gs" using fs gs by auto
    have "rid < GARBAGE" using st(1) next_id by (auto simp: stored_def)
    moreover have "chain (hash_of h') (h_garbages h') gs"
      using touches_chain [OF to st(3)] gs r h' by (simp add: set_entry_def)
    ultimately show ?thesis using st touchesD(3) [OF to] fs gs r h' by (auto simp: set_entry_def intro!: exI [of _ gs])
  qed
  then show "rid \<notin> hash_live h" "stored h' rid" "rid < GARBAGE" "h_entries h' rid = zero_entry (h_value_size h)"
    "\<exists>fs. chain (hash_of h') (h_garbages h') fs \<and> distinct fs \<and> (\<forall>r \<in> set fs. r \<noteq> rid \<and> r \<notin> hash_live h \<and> stored h' r)"
    by blast+
qed

text \<open>The table with a new entry in the slot \<open>p\<close>.\<close>

definition inserted :: "hash_env \<Rightarrow> u32 \<Rightarrow> byte list \<Rightarrow> nat \<Rightarrow> bool \<Rightarrow> grn_id \<Rightarrow> grn_hash \<Rightarrow> grn_hash" where
  "inserted env v key p fg rid h =
     (let h = (if fg then h\<lparr>h_n_garbages := h_n_garbages h - 1\<rparr> else h);
          h = h\<lparr>h_index := (h_index h)[p := rid], h_n_entries := h_n_entries h + 1,
                h_bitmap := fst (grn_tiny_bitmap_put_and_set (he_alloc_bitmap env) (h_bitmap h) rid True)\<rparr>
      in set_entry rid (fst (grn_hash_entry_put_key env h (h_entries h rid) v key)) h)"

lemma tiny_hash_add_eq:
  "grn_tiny_hash_add env h v key p fg =
     (case take_id env h of (h1, rid) \<Rightarrow>
        if rid = GRN_ID_NIL then (h1, GRN_ID_NIL) else (inserted env v key p fg rid h1, rid))"
  by (simp add: grn_tiny_hash_add_def take_id_def inserted_def Let_def split: prod.splits)

lemma inserted_fields:
  fixes env v key p fg rid h1
  defines "h' \<equiv> inserted env v key p fg rid h1"
  assumes rel: "reliable env" and wf: "bitmap_wf (h_bitmap h1)"
  shows "touches rid h1 h'" and "hash_live h' = insert rid (hash_live h1)"
    and "h_entries h' rid = fst (grn_hash_entry_put_key env h1 (h_entries h1 rid) v key)"
    and "h_index h' = (h_index h1)[p := rid]" and "h_n_entries h' = h_n_entries h1 + 1"
    and "h_n_garbages h' = h_n_garbages h1 - (if fg then 1 else 0)"
    and "h_garbages h' = h_garbages h1" and "h_max_offset h' = h_max_offset h1" and "h_a_max h' = h_a_max h1"
    and "h_blocks h' = h_blocks h1"
proof -
  note g = bitmap_grow_props [OF wf, where i = rid]
  have bm: "h_bitmap h' = bitmap_set rid True (bitmap_grow (h_bitmap h1) rid)"
    using rel by (simp add: h'_def inserted_def Let_def set_entry_def bitmap_put_and_set_eq reliable_def)
  show L: "hash_live h' = insert rid (hash_live h1)"
    by (auto simp: hash_live_def bm tb.bit_set_to [OF g(1,2)] g(4))
  show "h_index h' = (h_index h1)[p := rid]" "h_n_entries h' = h_n_entries h1 + 1"
    "h_n_garbages h' = h_n_garbages h1 - (if fg then 1 else 0)"
    "h_garbages h' = h_garbages h1" "h_max_offset h' = h_max_offset h1" "h_a_max h' = h_a_max h1"
    "h_blocks h' = h_blocks h1"
    "h_entries h' rid = fst (grn_hash_entry_put_key env h1 (h_entries h1 rid) v key)"
    by (simp_all add: h'_def inserted_def Let_def set_entry_def grn_hash_entry_put_key_def)
  show "touches rid h1 h'"
    unfolding touches_def L bm using tb.bwf_set_to [OF g(1,2)]
    by (simp add: h'_def inserted_def Let_def set_entry_def)
qed

lemma touches_trans:
  assumes "touches rid h h1" and "touches rid h1 h2"
  shows "touches rid h h2"
  using assms by (auto simp: touches_def)

text \<open>What the index is after \<open>rid\<close> was put in the slot \<open>p\<close>, whether or not an empty slot is left.\<close>

definition index_after :: "nat \<Rightarrow> grn_hash \<Rightarrow> nat \<Rightarrow> bool \<Rightarrow> grn_id \<Rightarrow> grn_hash \<Rightarrow> bool" where
  "index_after k h p fg rid h' \<longleftrightarrow> index_ok (h_index h') (probe k) (hash_of h') (hash_live h')
     \<and> hash_live h' = insert rid (hash_live h) \<and> h_index h' = (h_index h)[p := rid]
     \<and> h_n_entries h' = h_n_entries h + 1 \<and> h_n_garbages h' = h_n_garbages h - (if fg then 1 else 0)
     \<and> h_max_offset h' = h_max_offset h"

lemma index_afterD:
  assumes "index_after k h p fg rid h'"
  shows "index_ok (h_index h') (probe k) (hash_of h') (hash_live h')" and "hash_live h' = insert rid (hash_live h)"
    and "h_index h' = (h_index h)[p := rid]" and "h_n_entries h' = h_n_entries h + 1"
    and "h_n_garbages h' = h_n_garbages h - (if fg then 1 else 0)" and "h_max_offset h' = h_max_offset h"
  using assms unfolding index_after_def by blast+

lemma slot_for_free:
  assumes "slots_ok k h" and "slot_for k h v p fg"
  shows "p < length (h_index h)" and "\<not> live_slot (h_index h ! p)" and "fg \<longleftrightarrow> h_index h ! p = GARBAGE"
  using assms slots_okD(2) [OF assms(1)] by (auto simp: slot_for_def live_slot_def GARBAGE_def)

lemma inserted_index:
  assumes s: "slots_ok k h" and t: "touches rid h h'"
    and rid: "rid \<notin> hash_live h" "live_slot rid" and hv: "hash_of h' rid = v" and p: "slot_for k h v p fg"
    and f: "h_index h' = (h_index h)[p := rid]" "hash_live h' = insert rid (hash_live h)" "h_n_entries h' = h_n_entries h + 1"
      "h_n_garbages h' = h_n_garbages h - (if fg then 1 else 0)" "h_max_offset h' = h_max_offset h"
  shows "index_after k h p fg rid h'"
proof -
  note sl = slots_okD [OF s] and free = slot_for_free [OF s p]
  have "hash_of h' r = hash_of h r" if "r \<in> hash_live h" for r
    using that rid(1) touchesD(2) [OF t, of r] by metis
  then have "index_ok ((h_index h)[p := rid]) (probe k) (hash_of h') (insert rid (hash_live h))"
    using dh.insert_ok [OF sl(3,2) _ free(2) _ rid(2,1), of v "hash_of h'"] p hv sl(2) by (auto simp: slot_for_def)
  then show ?thesis using f by (simp add: index_after_def)
qed

lemma inserted_slots:
  assumes s: "slots_ok k h" and k: "k \<le> 28" and p: "slot_for k h v p fg" and rid: "rid \<notin> hash_live h" "live_slot rid"
    and room: "unat (h_n_entries h) + unat (h_n_garbages h) + 1 < 2 ^ k" and after: "index_after k h p fg rid h'"
  shows "slots_ok k h'"
proof -
  note sl = slots_okD [OF s] and f = index_afterD [OF after] and p' = slot_for_free [OF s p]
  have "unat (h_n_entries h + 1) = Suc (unat (h_n_entries h))"
    using card_less_2p32 [OF k] sl(6) by (intro unat_Suc_no_wrap) simp
  moreover have "fg \<Longrightarrow> h_n_garbages h \<noteq> 0"
    using garbage_slots_update(2) [OF p'(1)] p'(3) sl(5) by auto
  moreover from this have "unat (h_n_garbages h - (if fg then 1 else 0)) = garbage_slots ((h_index h)[p := rid])"
    using garbage_slots_update(1) [OF p'(1), of rid] p'(3) rid(2) sl(5)
    by (auto simp: live_slot_def unat_pred_no_wrap)
  moreover have "garbage_slots ((h_index h)[p := rid]) \<le> garbage_slots (h_index h)"
    using garbage_slots_update(1) [OF p'(1), of rid] rid(2) by (simp add: live_slot_def)
  ultimately show ?thesis
    unfolding slots_ok_def using f(1) unfolding f(2-6) using sl rid(1) room by simp
qed

lemma tiny_hash_add_effect:
  assumes ok: "hash_ok h" and rel: "reliable env" and mx: "h_a_max h < GRN_ID_MAX"
    and v: "key_hash_value h key = Some v" and new: "\<forall>r \<in> hash_live h. hash_key h r \<noteq> key"
    and s: "slots_ok k h" and p: "slot_for k h v p fg"
    and add: "grn_tiny_hash_add env h v key p fg = (h', rid)"
  shows "if rid = GRN_ID_NIL then h' = h
    else rid \<notin> hash_live h \<and> live_slot rid \<and> touches rid h h' \<and> entries_ok h' \<and> free_ok h' \<and> index_after k h p fg rid h'
      \<and> hash_contents h' = (hash_contents h)(rid \<mapsto> (key, replicate (h_value_size h) 0))"
proof -
  have e: "entries_ok h" and f: "free_ok h" using ok by (auto simp: hash_ok_def)
  obtain h1 r1 where t: "take_id env h = (h1, r1)" by fastforce
  show ?thesis
  proof (cases "r1 = GRN_ID_NIL")
    case True
    then show ?thesis using add t max_id_next(3) [OF mx]
      by (auto simp: tiny_hash_add_eq take_id_def entry_put_def Let_def split: if_splits)
  next
    case False
    then have eq: "h' = inserted env v key p fg rid h1" "r1 = rid" using add t by (auto simp: tiny_hash_add_eq)
    have rid: "rid \<noteq> GRN_ID_NIL" using False eq by simp
    note i = take_id_ok [OF e f mx t False, unfolded eq(2)] and tf = take_id_fields [OF t]
    note n = inserted_fields [OF rel touchesD(6) [OF i(1)], where v = v and key = key and p = p and fg = fg and rid = rid, folded eq(1)]
    have t1: "touches rid h h'" by (rule touches_trans [OF i(1) n(1)])
    have zl: "length (e_value (h_entries h1 rid)) = h_value_size h1"
      using i(5) touchesD(10) [OF i(1)] by (simp add: zero_entry_def)
    note pk = put_key_wf [OF rel, of h1 key v "h_entries h1 rid", unfolded touchesD(5,11,12) [OF i(1)], OF v entries_okD(6) [OF e] zl]
    have key: "hash_key h' rid = key" and hv: "hash_of h' rid = v"
      using pk touchesD(12) [OF t1] by (simp_all add: hash_key_def hash_of_def n(3))
    have st: "stored h' rid" using i(3) touchesD(3) [OF n(1)] by simp
    have ls: "live_slot rid" using i(4) rid by (auto simp: live_slot_def)
    have "entries_ok h'"
      by (rule touches_entries_ok [OF e t1])
        (use st pk(1) new key touchesD(4) [OF i(1)] n(3) in \<open>auto simp: stored_def\<close>)
    moreover have "free_ok h'"
      using i(6) touches_chain [OF n(1)] touchesD(3) [OF n(1)]
      unfolding free_ok_def n(2,7) tf(6) by (metis insert_iff)
    moreover have "index_after k h p fg rid h'"
      by (rule inserted_index [OF s t1 i(2) ls hv p]) (use n tf in auto)
    moreover have "hash_contents h' rid = Some (key, replicate (h_value_size h) 0)"
      using pk(3) i(5) by (simp add: hash_contents_def n(2,3) key zero_entry_def)
    ultimately show ?thesis
      using touches_contents [OF t1] i(2) rid t1 ls by auto
  qed
qed

lemma tiny_hash_add_ok:
  assumes ok: "hash_ok h" and rel: "reliable env" and mx: "h_a_max h < GRN_ID_MAX"
    and v: "key_hash_value h key = Some v" and new: "\<forall>r \<in> hash_live h. hash_key h r \<noteq> key"
    and s: "slots_ok k h" "8 \<le> k" "k \<le> 28" and p: "slot_for k h v p fg"
    and room: "unat (h_n_entries h) + unat (h_n_garbages h) + 1 < 2 ^ k"
    and add: "grn_tiny_hash_add env h v key p fg = (h', rid)"
  shows "if rid = GRN_ID_NIL then h' = h
    else hash_ok h' \<and> same_kind h h' \<and> rid \<notin> hash_live h
      \<and> hash_contents h' = (hash_contents h)(rid \<mapsto> (key, replicate (h_value_size h) 0))"
proof (cases "rid = GRN_ID_NIL")
  case True
  then show ?thesis using tiny_hash_add_effect [OF ok rel mx v new s(1) p add] by simp
next
  case False
  then have "rid \<notin> hash_live h" "live_slot rid" and after: "index_after k h p fg rid h'"
    and rest: "entries_ok h'" "free_ok h'" "same_kind h h'" "hash_contents h' = (hash_contents h)(rid \<mapsto> (key, replicate (h_value_size h) 0))"
    using tiny_hash_add_effect [OF ok rel mx v new s(1) p add] touches_kind by auto
  from inserted_slots [OF s(1,3) p this(1,2) room after] show ?thesis
    using False s(2,3) rest \<open>rid \<notin> hash_live h\<close> by (auto simp: hash_ok_def)
qed

section \<open>Rehashing\<close>

lemma unat_power_2: "i < 32 \<Longrightarrow> unat (2 ^ i :: u32) = 2 ^ i"
proof -
  assume "i < 32"
  then have "(2::nat) ^ i < 2 ^ 32" by (intro power_strict_increasing) auto
  moreover have "(2 ^ i :: u32) = of_nat (2 ^ i)" by simp
  ultimately show "unat (2 ^ i :: u32) = 2 ^ i" by (simp only: unat_of_nat) simp
qed

lemma unat_mask_u32: "i < 32 \<Longrightarrow> unat (mask i :: u32) = 2 ^ i - 1"
  using unat_pred_no_wrap [of "2 ^ i :: u32"] unat_power_2 [of i]
  by (cases "(2 ^ i :: u32) = 0") (auto simp: mask_eq_exp_minus_1)

lemma grow_index_size_power:
  assumes "unat expected < 2 ^ j" and "i \<le> j" and "j < 32" and "j - i \<le> n"
  shows "\<exists>k \<ge> i. k \<le> j \<and> grow_index_size n expected (2 ^ i) = 2 ^ k \<and> unat expected < 2 ^ k"
  using assms(2-)
proof (induction n arbitrary: i)
  case 0
  then show ?case using assms(1) by auto
next
  case (Suc n)
  have un: "unat (2 ^ i :: u32) = 2 ^ i" by (rule unat_power_2) (use Suc.prems in simp)
  show ?case
  proof (cases "2 ^ i \<le> expected")
    case True
    then have "(2::nat) ^ i \<le> unat expected" using un by (simp add: word_le_nat_alt)
    with assms(1) have "(2::nat) ^ i < 2 ^ j" by linarith
    then have "i < j" by simp
    moreover have "j - Suc i \<le> n" using Suc.prems(3) by linarith
    ultimately obtain k where "Suc i \<le> k" "k \<le> j" "grow_index_size n expected (2 * 2 ^ i) = 2 ^ k" "unat expected < 2 ^ k"
      using Suc.IH [of "Suc i"] Suc.prems by auto
    then show ?thesis using True by (intro exI [of _ k]) (simp add: mult.commute)
  next
    case False
    then have "unat expected < 2 ^ i" using un by (simp add: word_le_nat_alt)
    then show ?thesis using False Suc.prems by auto
  qed
qed

lemma find_empty_ok:
  assumes k: "k \<le> 32" and N: "index ! probe k v N = GRN_ID_NIL" "\<forall>m < N. index ! probe k v m \<noteq> GRN_ID_NIL"
  shows "\<lbrakk>n \<le> N; i AND mask k = probe_pos v n AND mask k\<rbrakk> \<Longrightarrow>
    \<exists>i'. find_empty index (mask k) (grn_hash_calculate_step v) i = Some i' \<and> unat i' = probe k v N"
proof (induction "N - n" arbitrary: n i)
  case 0
  then have "n = N" by simp
  then show ?case using N 0
    by (subst find_empty.simps) (simp add: probe_pos_def probe_word [OF k])
next
  case (Suc d)
  then have n: "n < N" by simp
  have "(i AND mask k) + grn_hash_calculate_step v AND mask k = probe_pos v (Suc n) AND mask k"
    using Suc.prems(2) by (metis mask_eqs(1) probe_pos_Suc)
  then obtain i' where "find_empty index (mask k) (grn_hash_calculate_step v) ((i AND mask k) + grn_hash_calculate_step v) = Some i'"
    "unat i' = probe k v N"
    using Suc.hyps(1) [of "Suc n"] Suc.hyps(2) n by fastforce
  moreover have "index ! unat (i AND mask k) \<noteq> GRN_ID_NIL"
    using Suc.prems(2) N(2) n by (simp add: probe_pos_def probe_word [OF k])
  ultimately show ?case
    by (subst find_empty.simps) simp
qed

text \<open>
  The copying loop: \<open>C\<close> are the ids copied so far, and the rest of the old index has the others, each
  once.
\<close>

lemma rehash_copy_ok:
  assumes k: "k \<le> 32" and L: "finite L" "card L < 2 ^ k" "unat ne = card L" "\<And>r. r \<in> L \<Longrightarrow> stored h r \<and> live_slot r"
  shows "\<lbrakk>index_ok dest (probe k) (hash_of h) C; length dest = 2 ^ k; garbage_slots dest = 0; C \<subseteq> L;
      unat count = card C; set (filter live_slot src) = L - C; distinct (filter live_slot src)\<rbrakk> \<Longrightarrow>
    \<exists>dest'. rehash_copy env ne (mask k) src count dest h = Some (h, Some dest') \<and>
      index_ok dest' (probe k) (hash_of h) L \<and> length dest' = 2 ^ k \<and> garbage_slots dest' = 0"
proof (induction src arbitrary: C count dest)
  case Nil
  then have "C = L" by auto
  with Nil show ?case by auto
next
  case (Cons x src)
  show ?case
  proof (cases "count < ne")
    case False
    then have "card L \<le> card C" using L(3) Cons.prems(5) by (simp add: word_less_nat_alt)
    then have "C = L" using L(1) Cons.prems(4) by (metis card_seteq)
    then show ?thesis using False Cons.prems by auto
  next
    case less: True
    show ?thesis
    proof (cases "live_slot x")
      case False
      then show ?thesis using less Cons.prems Cons.IH by (auto simp: live_slot_def)
    next
      case True
      then have x: "x \<in> L" "x \<notin> C" using Cons.prems(6) by auto
      have "card C < 2 ^ k" using Cons.prems(4) L(1,2) card_mono [of L C] by simp
      then obtain N where N: "N < 2 ^ k" "dest ! probe k (hash_of h x) N = GRN_ID_NIL"
        "\<And>m. m < N \<Longrightarrow> dest ! probe k (hash_of h x) m \<noteq> GRN_ID_NIL"
        using dh.search_ends [OF Cons.prems(1,2), of "hash_of h x"] Cons.prems(3) by auto
      let ?p = "probe k (hash_of h x) N"
      obtain i where i: "find_empty dest (mask k) (grn_hash_calculate_step (hash_of h x)) (hash_of h x) = Some i"
        "unat i = ?p"
        using find_empty_ok [OF k N(2), of 0 "hash_of h x"] N(3) by (auto simp: probe_pos_0)
      have step: "rehash_copy env ne (mask k) (x # src) count dest h =
          rehash_copy env ne (mask k) src (count + 1) (dest[?p := x]) h"
        using less True L(4) [OF x(1)] i by (simp add: live_slot_def entry_at_stored hash_of_def)
      have "unat (count + 1) = card (insert x C)"
      proof -
        have "unat count < unat ne" using less by (simp add: word_less_nat_alt)
        then have "unat (count + 1) = Suc (unat count)"
          using unat_lt_2p32 [of ne] by (intro unat_Suc_no_wrap) (simp del: unat_lt_2p32)
        then show ?thesis using x(2) Cons.prems(4,5) L(1) finite_subset [of C L] by simp
      qed
      moreover have "index_ok (dest[?p := x]) (probe k) (hash_of h) (insert x C)"
        by (rule dh.insert_ok [OF Cons.prems(1,2) probe_lt])
          (use N True x in \<open>auto simp: live_slot_def found_at_def\<close>)
      moreover have "garbage_slots (dest[?p := x]) = 0"
        using garbage_slots_update(1) [of ?p dest x] probe_lt [of k] Cons.prems(2,3) True N(2)
        by (simp add: live_slot_def)
      moreover have "set (filter live_slot src) = L - insert x C" "distinct (filter live_slot src)"
        using Cons.prems(6,7) True by auto
      ultimately show ?thesis
        unfolding step using Cons.prems(2,4) x by (intro Cons.IH [of _ "insert x C"]) auto
    qed
  qed
qed

lemma index_live_slots:
  assumes "index_ok idx pr hv L"
  shows "set (filter live_slot idx) = L" and "distinct (filter live_slot idx)"
proof -
  show "set (filter live_slot idx) = L"
    using index_okD(1-3) [OF assms] by (fastforce simp: in_set_conv_nth)
  show "distinct (filter live_slot idx)"
  proof -
    let ?is = "filter (live_slot \<circ> (!) idx) [0..<length idx]"
    have "filter live_slot idx = map ((!) idx) ?is" by (metis filter_map map_nth)
    moreover have "inj_on ((!) idx) (set ?is)" using index_okD(4) [OF assms] by (auto simp: inj_on_def)
    ultimately show ?thesis by (simp add: distinct_map)
  qed
qed

lemma hash_rehash_ok:
  assumes ok: "hash_ok h" and src: "h_domain h = DomainNone" and ne: "unat (h_n_entries h) < 2 ^ 27"
  shows "\<exists>h' rc. grn_hash_rehash env h 0 = Some (h', rc) \<and> hash_ok h' \<and> hash_contents h' = hash_contents h
    \<and> hash_live h' = hash_live h \<and> touches GRN_ID_NIL h h' \<and> h_a_max h' = h_a_max h \<and> h_n_entries h' = h_n_entries h
    \<and> (if rc = GRN_SUCCESS
       then \<exists>k \<ge> 8. k \<le> 28 \<and> slots_ok k h' \<and> unat (h_n_entries h') + unat (h_n_garbages h') + 1 < 2 ^ k
         \<and> h_n_garbages h' = 0 \<and> 2 * unat (h_n_entries h') < 2 ^ k
       else h' = h) \<and> (rc = GRN_SUCCESS \<longleftrightarrow> he_alloc_index env)"
proof -
  obtain k0 where e: "entries_ok h" and f: "free_ok h" and k0: "8 \<le> k0" "k0 \<le> 28" and s: "slots_ok k0 h"
    using hash_okE [OF ok] .
  note sl = slots_okD [OF s]
  have refl: "touches GRN_ID_NIL h h" using entries_okD(4) [OF e] by (simp add: touches_def)
  have "unat (h_n_entries h * 2) = unat (h_n_entries h) * 2"
    using ne by (subst unat_mult_lem [THEN iffD1]) auto
  then have ex: "unat (h_n_entries h * 2) = 2 * unat (h_n_entries h)" "unat (h_n_entries h * 2) < 2 ^ 28" using ne by auto
  then have small: "\<not> grn_hash_max_index_size \<le> h_n_entries h * 2"
    by (simp add: grn_hash_max_index_size_def word_le_nat_alt)
  then have expected: "rehash_expected h 0 = h_n_entries h * 2" by (simp add: rehash_expected_def src Let_def)
  obtain k where k: "8 \<le> k" "k \<le> 28" "grow_index_size 32 (h_n_entries h * 2) INITIAL_INDEX_SIZE = 2 ^ k"
    "unat (h_n_entries h * 2) < 2 ^ k"
    using grow_index_size_power [OF ex(2), of 8 32] by (auto simp: INITIAL_INDEX_SIZE_def)
  have un: "unat (2 ^ k :: u32) = 2 ^ k" by (rule unat_power_2) (use k in simp)
  have len: "Suc (unat (h_max_offset h)) = length (h_index h)"
    using sl(1,2) k0 by (simp add: unat_mask_u32)
  note ls = index_live_slots [OF sl(3)]
  have "card (hash_live h) < 2 ^ k" using k(4) ex(1) sl(4) by linarith
  then obtain idx where copy: "rehash_copy env (h_n_entries h) (mask k) (h_index h) 0 (replicate (2 ^ k) GRN_ID_NIL) h = Some (h, Some idx)"
    and idx: "index_ok idx (probe k) (hash_of h) (hash_live h)" "length idx = 2 ^ k" "garbage_slots idx = 0"
    using rehash_copy_ok [where L = "hash_live h" and h = h and src = "h_index h" and k = k and C = "{}"
        and ne = "h_n_entries h" and env = env and count = 0 and dest = "replicate (2 ^ k) GRN_ID_NIL"]
      dh.empty_index_ok [of k "hash_of h"] ls k(2) sl(4) entries_okD(1) [OF e] index_okD(2) [OF sl(3)]
    by (auto simp: garbage_slots_def GARBAGE_def)
  let ?h = "h\<lparr>h_index := idx, h_max_offset := mask k, h_n_garbages := 0\<rparr>"
  have eq: "grn_hash_rehash env h 0 = Some (if he_alloc_index env then (?h, GRN_SUCCESS) else (h, GRN_NO_MEMORY_AVAILABLE))"
    using small copy un by (simp add: grn_hash_rehash_def expected k(3) Let_def len mask_eq_exp_minus_1 sl(2))
  have same: "hash_live ?h = hash_live h" "hash_of ?h = hash_of h" "hash_contents ?h = hash_contents h"
    by (auto simp: hash_live_def hash_of_def fun_eq_iff hash_contents_def hash_key_def grn_hash_entry_get_key_def)
  have t: "touches GRN_ID_NIL h ?h" using refl by (simp add: touches_def same)
  have "entries_ok ?h" by (rule touches_entries_ok [OF e t]) (use garbage_not_live(2) [OF s] same in auto)
  moreover have "free_ok ?h" using f by (simp add: free_ok_def same stored_def)
  moreover have "slots_ok k ?h" using idx sl(4) k(4) ex(1) by (simp add: slots_ok_def same)
  ultimately have "hash_ok ?h" using k by (auto simp: hash_ok_def)
  moreover have "unat (h_n_entries h) + 1 < 2 ^ k"
    using k(4) ex(1) power_increasing [OF k(1), of "2::nat"] by simp
  moreover have "2 * unat (h_n_entries h) < 2 ^ k" using k(4) ex(1) by linarith
  ultimately show ?thesis using eq ok same t refl k \<open>slots_ok k ?h\<close> by auto
qed

section \<open>Adding a key\<close>

text \<open>\<open>key_added h key h' rid new\<close>: \<open>(h', rid, new)\<close> is a correct answer to adding \<open>key\<close> to \<open>h\<close>.\<close>

definition key_added :: "grn_hash \<Rightarrow> byte list \<Rightarrow> grn_hash \<Rightarrow> grn_id \<Rightarrow> bool \<Rightarrow> bool" where
  "key_added h key h' rid new \<longleftrightarrow> hash_ok h' \<and> same_kind h h' \<and>
     (if new then rid \<noteq> GRN_ID_NIL \<and> hash_contents h rid = None \<and> (\<forall>r \<in> hash_live h. hash_key h r \<noteq> key)
        \<and> hash_contents h' = (hash_contents h)(rid \<mapsto> (key, replicate (h_value_size h) 0))
      else hash_contents h' = hash_contents h
        \<and> (rid \<noteq> GRN_ID_NIL \<longrightarrow> rid \<in> hash_live h \<and> hash_key h rid = key))"

text \<open>A key in the table is found; a new one gets an entry in the slot that the search ends with.\<close>

lemma add_entry_search:
  assumes ok: "hash_ok h" and v: "key_hash_value h key = Some v" and s: "slots_ok k h" "k \<le> 28"
  shows "\<lbrakk>rid \<in> hash_live h; hash_key h rid = key\<rbrakk> \<Longrightarrow> grn_hash_add_entry env h v key = (h, rid, False)"
    and "\<forall>r \<in> hash_live h. hash_key h r \<noteq> key \<Longrightarrow> \<exists>p fg h' rid. slot_for k h v p fg
      \<and> grn_tiny_hash_add env h v key p fg = (h', rid) \<and> grn_hash_add_entry env h v key = (h', rid, rid \<noteq> GRN_ID_NIL)"
proof -
  have e: "entries_ok h" and k: "k \<le> 32" using ok s by (auto simp: hash_ok_def)
  obtain N where N: "ends_at k h v N" using ends_atE [OF s(1)] .
  have small: "(2::nat) ^ k \<le> 2 ^ 28" using s(2) by (intro power_increasing) auto
  then have tries: "N < unat grn_hash_max_index_size" using N by (simp add: ends_at_def grn_hash_max_index_size_def)
  note search = add_search [OF s(1) k e v N, of 0 "unat grn_hash_max_index_size" None env 0, unfolded probe_pos_0]
  show "grn_hash_add_entry env h v key = (h, rid, False)" if "rid \<in> hash_live h" "hash_key h rid = key"
    using search id_with_key_found [OF s(1) e v N, of rid] tries that by (simp add: grn_hash_add_entry_def)
  assume "\<forall>r \<in> hash_live h. hash_key h r \<noteq> key"
  then have "id_with_key h key (met k h v 0 N) = None" using id_with_key_none [OF s(1) e v N] by simp
  then obtain p fg where p: "slot_for k h v p fg"
    and a: "add_search env v key (unat grn_hash_max_index_size) v None 0 h = (h, AddSlot p fg)"
    using search tries by auto
  obtain h' rid where add: "grn_tiny_hash_add env h v key p fg = (h', rid)" by fastforce
  have "h_n_entries h \<noteq> grn_hash_max_index_size"
    using slots_okD(6) [OF s(1)] small by (auto simp: grn_hash_max_index_size_def)
  then have "grn_hash_add_entry env h v key = (h', rid, rid \<noteq> GRN_ID_NIL)"
    using a add by (simp add: grn_hash_add_entry_def)
  with p add show "\<exists>p fg h' rid. slot_for k h v p fg
      \<and> grn_tiny_hash_add env h v key p fg = (h', rid) \<and> grn_hash_add_entry env h v key = (h', rid, rid \<noteq> GRN_ID_NIL)"
    by blast
qed

lemma tiny_hash_add_a_max:
  "grn_tiny_hash_add env h v key p fg = (h', rid) \<Longrightarrow> h_a_max h' = h_a_max h \<or> h_a_max h' = h_a_max h + 1"
  by (auto simp: tiny_hash_add_eq take_id_def entry_put_def inserted_def set_entry_def Let_def
      split: if_splits)

lemma generous_adds:
  assumes "generous env" and "h_a_max h < GRN_ID_MAX" and "grn_tiny_hash_add env h v key p fg = (h', rid)"
  shows "rid \<noteq> GRN_ID_NIL"
  using assms max_id_next(3) [OF assms(2)]
  by (auto simp: tiny_hash_add_eq take_id_def entry_put_def generous_def Let_def split: if_splits)

lemma add_entry_ok:
  assumes ok: "hash_ok h" and rel: "reliable env" and mx: "h_a_max h < GRN_ID_MAX"
    and v: "key_hash_value h key = Some v" and s: "slots_ok k h" "8 \<le> k" "k \<le> 28"
    and room: "unat (h_n_entries h) + unat (h_n_garbages h) + 1 < 2 ^ k"
  shows "case grn_hash_add_entry env h v key of (h', rid, new) \<Rightarrow>
    key_added h key h' rid new \<and> (generous env \<longrightarrow> rid \<noteq> GRN_ID_NIL)"
proof (cases "\<exists>rid \<in> hash_live h. hash_key h rid = key")
  case True
  then obtain rid where rid: "rid \<in> hash_live h" "hash_key h rid = key" by auto
  moreover have "rid \<noteq> GRN_ID_NIL" using garbage_not_live(2) [OF s(1)] rid(1) by auto
  ultimately show ?thesis
    using ok by (simp add: add_entry_search(1) [OF ok v s(1,3) rid] key_added_def)
next
  case False
  then have new: "\<forall>r \<in> hash_live h. hash_key h r \<noteq> key" by auto
  obtain p fg h' rid where p: "slot_for k h v p fg" and add: "grn_tiny_hash_add env h v key p fg = (h', rid)"
    and eq: "grn_hash_add_entry env h v key = (h', rid, rid \<noteq> GRN_ID_NIL)"
    using add_entry_search(2) [OF ok v s(1,3) new, of env] by blast
  show ?thesis
    using tiny_hash_add_ok [OF ok rel mx v new s p room add] new ok generous_adds [OF _ mx add]
    by (auto simp: eq key_added_def hash_contents_def [of h rid] split: if_splits)
qed

lemma hash_add_ok:
  assumes ok: "hash_ok h" and rel: "reliable env" and src: "h_domain h = DomainNone"
    and ne: "unat (h_n_entries h) < 2 ^ 27" and mx: "h_a_max h < GRN_ID_MAX"
  shows "\<exists>h' rid new. grn_hash_add env h key = Some (h', rid, new) \<and> key_added h key h' rid new
    \<and> (generous env \<and> key \<noteq> [] \<and> key_hash_value h key \<noteq> None \<longrightarrow> rid \<noteq> GRN_ID_NIL)"
proof (cases "key = [] \<or> key_hash_value h key = None")
  case True
  then have "grn_hash_add env h key = Some (h, GRN_ID_NIL, False)" by (auto simp: grn_hash_add_def)
  then show ?thesis using ok True
    by (intro exI [of _ h] exI [of _ GRN_ID_NIL] exI [of _ False]) (auto simp: key_added_def)
next
  case False
  then obtain v where v: "key_hash_value h key = Some v" and nn: "key \<noteq> []" by auto
  obtain k where s: "slots_ok k h" "8 \<le> k" "k \<le> 28" using ok by (auto simp: hash_ok_def)
  let ?t = "(h_n_entries h + h_n_garbages h) * 2"
  have "(2::nat) ^ k \<le> 2 ^ 28" using s(3) by (intro power_increasing) auto
  then have b: "unat (h_n_entries h) + unat (h_n_garbages h) < 2 ^ 28" using slots_okD(6) [OF s(1)] by simp
  then have "unat (h_n_entries h + h_n_garbages h) = unat (h_n_entries h) + unat (h_n_garbages h)"
    by (subst unat_add_lem [THEN iffD1]) auto
  then have t: "unat ?t = 2 * (unat (h_n_entries h) + unat (h_n_garbages h))"
    using b by (subst unat_mult_lem [THEN iffD1]) auto
  have mo: "unat (h_max_offset h) = 2 ^ k - 1" using slots_okD(1) [OF s(1)] s(3) by (simp add: unat_mask_u32)
  have eq: "grn_hash_add env h key = (case grn_hash_ensure_rehash env h ?t of None \<Rightarrow> None
    | Some (h, rc) \<Rightarrow> if rc \<noteq> GRN_SUCCESS then Some (h, GRN_ID_NIL, False) else Some (grn_hash_add_entry env h v key))"
    using nn by (simp add: grn_hash_add_def v Let_def src)
  show ?thesis
  proof (cases "?t \<le> h_max_offset h")
    case True
    then have "2 * (unat (h_n_entries h) + unat (h_n_garbages h)) \<le> 2 ^ k - 1"
      unfolding word_le_nat_alt t mo .
    then have "unat (h_n_entries h) + unat (h_n_garbages h) + 1 < 2 ^ k"
      using power_increasing [OF s(2), of "2::nat"] by simp
    then show ?thesis using add_entry_ok [OF ok rel mx v s] True
      by (auto simp: eq grn_hash_ensure_rehash_def split: prod.splits)
  next
    case False
    have "h_max_offset h \<noteq> grn_hash_max_index_size - 1"
      using mo \<open>(2::nat) ^ k \<le> 2 ^ 28\<close> by (auto simp: grn_hash_max_index_size_def)
    then have ens: "grn_hash_ensure_rehash env h ?t = grn_hash_rehash env h 0"
      using False by (simp add: grn_hash_ensure_rehash_def)
    obtain h1 rc where r: "grn_hash_rehash env h 0 = Some (h1, rc)" "hash_ok h1" "hash_contents h1 = hash_contents h"
      "hash_live h1 = hash_live h" "touches GRN_ID_NIL h h1" "h_a_max h1 = h_a_max h" 
      "if rc = GRN_SUCCESS then \<exists>k \<ge> 8. k \<le> 28 \<and> slots_ok k h1 \<and> unat (h_n_entries h1) + unat (h_n_garbages h1) + 1 < 2 ^ k
        \<and> h_n_garbages h1 = 0 \<and> 2 * unat (h_n_entries h1) < 2 ^ k else h1 = h"
      "rc = GRN_SUCCESS \<longleftrightarrow> he_alloc_index env"
      using hash_rehash_ok [OF ok src ne, of env] by blast
    have key: "rid \<in> hash_live h \<Longrightarrow> hash_key h1 rid = hash_key h rid" for rid
      using fun_cong [OF r(3), of rid] r(4) by (simp add: hash_contents_def)
    have tr: "key_added h1 key h' rid new \<Longrightarrow> key_added h key h' rid new" for h' rid new
      using r(3,4) key touchesD(10) [OF r(5)] same_kind_trans [OF touches_kind [OF r(5)]]
      by (auto simp: key_added_def split: if_splits)
    show ?thesis
    proof (cases "rc = GRN_SUCCESS")
      case True
      obtain k where "8 \<le> k" "k \<le> 28" "slots_ok k h1" "unat (h_n_entries h1) + unat (h_n_garbages h1) + 1 < 2 ^ k"
        using r(7) True by auto
      then show ?thesis
        using add_entry_ok [OF r(2) rel, of key v k] tr touchesD(5) [OF r(5), of key] v mx r(1,6) True ens
        by (auto simp: eq split: prod.splits)
    next
      case False
      then show ?thesis using r ens ok by (auto simp: eq key_added_def generous_def)
    qed
  qed
qed

end
