(* ===== verification/HashAccess.thy ===== *)
theory HashAccess
  imports HashGrow
begin

text \<open>
  Creating a hash table, reading and writing its entries by id, and enumerating them with a cursor or
  \<^verbatim>\<open>grn_hash_next\<close>.
\<close>

section \<open>Operations that keep the contents\<close>

text \<open>\<open>same_table h h'\<close>: \<open>h'\<close> holds what \<open>h\<close> holds, perhaps with more room.\<close>

definition same_table :: "grn_hash \<Rightarrow> grn_hash \<Rightarrow> bool" where
  "same_table h h' \<longleftrightarrow> hash_ok h' \<and> hash_contents h' = hash_contents h \<and> hash_live h' = hash_live h
     \<and> h_n_entries h' = h_n_entries h \<and> h_a_max h' = h_a_max h \<and> h_value_size h' = h_value_size h
     \<and> h_entries h' = h_entries h \<and> same_kind h h'"

lemma same_table_refl: "hash_ok h \<Longrightarrow> same_table h h"
  by (simp add: same_table_def)

lemma same_table_trans: "same_table h h1 \<Longrightarrow> same_table h1 h2 \<Longrightarrow> same_table h h2"
  by (auto simp: same_table_def intro: same_kind_trans)

lemma same_tableD:
  assumes "same_table h h'"
  shows "hash_ok h'" and "hash_contents h' = hash_contents h" and "hash_live h' = hash_live h"
    and "h_n_entries h' = h_n_entries h" and "h_a_max h' = h_a_max h" and "h_value_size h' = h_value_size h"
    and "h_entries h' = h_entries h" and "same_kind h h'"
  using assms by (simp_all add: same_table_def)

lemma hash_bitmap_at_ok:
  assumes ok: "hash_ok h" and at: "grn_hash_bitmap_at env h rid = (h', b)"
  shows "same_table h h'" and "b \<Longrightarrow> rid \<in> hash_live h" and "reliable env \<Longrightarrow> b \<longleftrightarrow> rid \<in> hash_live h"
proof -
  obtain k where e: "entries_ok h" and f: "free_ok h" and k: "8 \<le> k" "k \<le> 28" and s: "slots_ok k h"
    using hash_okE [OF ok] .
  note wf = entries_okD(4) [OF e]
  note put = bitmap_put_eq [OF wf, of "he_alloc_bitmap env" rid] and g = bitmap_grow_props [OF wf, where i = rid]
  show b: "b \<Longrightarrow> rid \<in> hash_live h" "reliable env \<Longrightarrow> b \<longleftrightarrow> rid \<in> hash_live h"
    using at put by (auto simp: grn_hash_bitmap_at_def hash_live_def reliable_def split: if_splits)
  have bm: "h' = h\<lparr>h_bitmap := h_bitmap h'\<rparr>" "bitmap_wf (h_bitmap h')" and L: "hash_live h' = hash_live h"
    using at put g wf by (auto simp: grn_hash_bitmap_at_def hash_live_def split: if_splits)
  have f': "h_entries h' = h_entries h" "h_index h' = h_index h" "h_max_offset h' = h_max_offset h"
    "h_n_entries h' = h_n_entries h" "h_n_garbages h' = h_n_garbages h" "h_garbages h' = h_garbages h"
    "h_a_max h' = h_a_max h" "h_blocks h' = h_blocks h" "h_var_size h' = h_var_size h"
    "h_key_size h' = h_key_size h" "h_value_size h' = h_value_size h" "h_domain h' = h_domain h"
    by (subst bm(1), simp)+
  have of': "hash_of h' = hash_of h" by (simp add: hash_of_def fun_eq_iff f')
  have t: "touches GRN_ID_NIL h h'" using bm(2) by (simp add: touches_def L f')
  have "entries_ok h'" by (rule touches_entries_ok [OF e t]) (use garbage_not_live(2) [OF s] L in auto)
  moreover have "free_ok h'" using f by (simp add: free_ok_def L of' f' stored_def)
  moreover have "slots_ok k h'" using s by (simp add: slots_ok_def L of' f')
  ultimately have "hash_ok h'" using k by (auto simp: hash_ok_def)
  then show "same_table h h'"
    by (auto simp: same_table_def same_kind_def L f' hash_contents_def fun_eq_iff hash_key_def grn_hash_entry_get_key_def)
qed

lemma hash_get_entry_ok:
  assumes ok: "hash_ok h" and get: "grn_hash_get_entry env h rid = (h', b)"
  shows "same_table h h'" and "b \<Longrightarrow> rid \<in> hash_live h" and "reliable env \<Longrightarrow> b \<longleftrightarrow> rid \<in> hash_live h"
proof -
  obtain h1 b1 where at: "grn_hash_bitmap_at env h rid = (h1, b1)" by fastforce
  note B = hash_bitmap_at_ok [OF ok at]
  have st: "b1 \<Longrightarrow> stored h1 rid"
    using B same_tableD(1,3) [OF B(1)] entries_okD(1) [of h1 rid] by (auto simp: hash_ok_def)
  then have eq: "h' = h1" "b = b1"
    using get at entry_at_stored [of h1 rid env] by (auto simp: grn_hash_get_entry_def split: if_splits)
  show "same_table h h'" "b \<Longrightarrow> rid \<in> hash_live h" "reliable env \<Longrightarrow> b \<longleftrightarrow> rid \<in> hash_live h"
    using B eq by auto
qed

lemma value_length: "hash_ok h \<Longrightarrow> rid \<in> hash_live h \<Longrightarrow> length (e_value (h_entries h rid)) = h_value_size h"
  using entries_okD(2) [of h rid] by (auto simp: hash_ok_def entry_wf_def)

lemma get_key_value_ok:
  assumes ok: "hash_ok h"
  shows "case grn_hash_get_key env h rid of (h', v) \<Rightarrow> same_table h h' \<and>
      (v \<noteq> None \<or> reliable env \<longrightarrow> v = map_option fst (hash_contents h rid))"
    and "case grn_hash_get_value env h rid of (h', v) \<Rightarrow> same_table h h' \<and>
      (v \<noteq> None \<or> reliable env \<longrightarrow> v = map_option snd (hash_contents h rid))"
proof -
  obtain h' b where g: "grn_hash_get_entry env h rid = (h', b)" by fastforce
  note G = hash_get_entry_ok [OF ok g]
  have key: "rid \<in> hash_live h \<Longrightarrow> hash_key h' rid = hash_key h rid"
    using fun_cong [OF same_tableD(2) [OF G(1)], of rid] same_tableD(3) [OF G(1)] by (simp add: hash_contents_def)
  show "case grn_hash_get_key env h rid of (h', v) \<Rightarrow> same_table h h' \<and>
      (v \<noteq> None \<or> reliable env \<longrightarrow> v = map_option fst (hash_contents h rid))"
    using G key by (auto simp: grn_hash_get_key_def g hash_contents_def hash_key_def [of h'])
  show "case grn_hash_get_value env h rid of (h', v) \<Rightarrow> same_table h h' \<and>
      (v \<noteq> None \<or> reliable env \<longrightarrow> v = map_option snd (hash_contents h rid))"
    using G value_length [OF ok] same_tableD(6,7) [OF G(1)] by (auto simp: grn_hash_get_value_def g hash_contents_def)
qed

section \<open>Setting a value\<close>

lemma set_entry_value_ok:
  assumes ok: "hash_ok h" and live: "rid \<in> hash_live h" and len: "length v = h_value_size h"
  defines "h' \<equiv> set_entry rid ((h_entries h rid)\<lparr>e_value := v\<rparr>) h"
  shows "hash_ok h'" and "hash_contents h' = (hash_contents h)(rid \<mapsto> (hash_key h rid, v))" and "same_kind h h'"
proof -
  obtain k where e: "entries_ok h" and f: "free_ok h" and k: "8 \<le> k" "k \<le> 28" and s: "slots_ok k h"
    using hash_okE [OF ok] .
  have L: "hash_live h' = hash_live h" and of': "hash_of h' = hash_of h" and key: "hash_key h' r = hash_key h r" for r
    by (auto simp: h'_def set_entry_def hash_live_def hash_of_def fun_eq_iff hash_key_def grn_hash_entry_get_key_def)
  have t: "touches rid h h'" using entries_okD(4) [OF e] by (auto simp: touches_def h'_def set_entry_def hash_live_def)
  show "same_kind h h'" by (rule touches_kind [OF t])
  have st: "stored h rid" by (rule entries_okD(1) [OF e live])
  have "entries_ok h'"
  proof (rule touches_entries_ok [OF e t])
    show "rid \<le> h_a_max h'" using st by (simp add: stored_def h'_def set_entry_def)
    have "hash_key h r \<noteq> hash_key h' rid" if "r \<in> hash_live h" "r \<noteq> rid" for r
      using inj_onD [OF entries_okD(3) [OF e], of r rid] that live key by auto
    then show "stored h' rid \<and> entry_wf h (h_entries h' rid) \<and> (\<forall>r \<in> hash_live h. r \<noteq> rid \<longrightarrow> hash_key h r \<noteq> hash_key h' rid)"
      using touchesD(3) [OF t st] entries_okD(2) [OF e live] len
      by (auto simp: entry_wf_def h'_def set_entry_def grn_hash_entry_get_key_def)
  qed
  moreover have "free_ok h'" using f unfolding free_ok_def L of' by (simp add: h'_def set_entry_def stored_def)
  moreover have "slots_ok k h'" using s unfolding slots_ok_def L of' by (simp add: h'_def set_entry_def)
  ultimately show "hash_ok h'" using k by (auto simp: hash_ok_def)
  have "hash_contents h' rid = Some (hash_key h rid, v)"
    using live by (simp add: hash_contents_def L key) (simp add: h'_def set_entry_def)
  then show "hash_contents h' = (hash_contents h)(rid \<mapsto> (hash_key h rid, v))"
    using touches_contents [OF t] by simp
qed

lemma hash_set_value_ok:
  assumes ok: "hash_ok h" and len: "h_value_size h \<le> length bs"
  shows "case grn_hash_set_value env h rid bs flags of (h', rc) \<Rightarrow> hash_ok h' \<and> same_kind h h' \<and>
    (if rc = GRN_SUCCESS
     then \<exists>key old v. hash_contents h rid = Some (key, old)
       \<and> set_value_bytes (set_flag_of flags) (h_value_size h) old bs = Some v
       \<and> hash_contents h' = (hash_contents h)(rid \<mapsto> (key, v))
     else hash_contents h' = hash_contents h)"
proof -
  obtain h1 b where g: "grn_hash_get_entry env h rid = (h1, b)" by fastforce
  note G = hash_get_entry_ok [OF ok g] and S = same_tableD [OF hash_get_entry_ok(1) [OF ok g]]
  let ?sv = "set_value_bytes (set_flag_of flags) (h_value_size h) (e_value (h_entries h rid)) bs"
  show ?thesis
  proof (cases "b \<and> ?sv \<noteq> None")
    case False
    then show ?thesis using g S by (auto simp: grn_hash_set_value_def split: bool.splits)
  next
    case True
    then obtain v where v: "?sv = Some v" and live: "rid \<in> hash_live h" "rid \<in> hash_live h1" using G(2) S(3) by auto
    have key: "hash_key h1 rid = hash_key h rid" using fun_cong [OF S(2), of rid] live by (simp add: hash_contents_def)
    have "length v = h_value_size h1" using set_value_bytes_length [OF v len] S(6) by simp
    from set_entry_value_ok [OF S(1) live(2) this] show ?thesis
      using True g v live key S by (auto simp: grn_hash_set_value_def hash_contents_def [of h rid] intro: same_kind_trans)
  qed
qed

section \<open>A new table\<close>

lemma hash_init_ok:
  assumes "grn_tiny_hash_init env path key_size value_size var_size domain = Inr h" and "key_size < 2 ^ 16"
  shows "hash_ok h" and "hash_contents h = Map.empty" and "h_domain h = domain" and "h_a_max h = 0" and "h_n_entries h = 0"
    and "h_value_size h = value_size" and "h_key_size h = key_size" and "h_var_size h = var_size"
    and "slots_ok 8 h" and "h_n_garbages h = 0"
proof -
  have h: "h_index h = replicate (2 ^ 8) GRN_ID_NIL" "h_max_offset h = mask 8" "h_bitmap h = grn_tiny_bitmap_init"
    "h_n_entries h = 0" "h_n_garbages h = 0" "h_garbages h = GRN_ID_NIL" "h_key_size h = key_size"
    "h_value_size h = value_size" "h_domain h = domain" "h_a_max h = 0" "h_entries h = (\<lambda>_. zero_entry value_size)"
    "h_var_size h = var_size"
    using assms(1) by (auto simp: grn_tiny_hash_init_def INITIAL_INDEX_SIZE_def mask_eq_exp_minus_1 split: if_splits)
  have L: "hash_live h = {}" by (simp add: hash_live_def h bitmap_bit_init)
  have "entries_ok h" using assms(2) by (simp add: entries_ok_def L h bitmap_wf_init)
  moreover have "free_ok h" by (auto simp: free_ok_def h intro!: exI [of _ "[]"])
  moreover show "slots_ok 8 h"
    using dh.empty_index_ok [of 8 "hash_of h"] by (simp add: slots_ok_def L h garbage_slots_def GARBAGE_def)
  ultimately show "hash_ok h" by (auto simp: hash_ok_def)
  show "hash_contents h = Map.empty" by (simp add: hash_contents_def L fun_eq_iff)
qed (use assms in \<open>auto simp: grn_tiny_hash_init_def split: if_splits\<close>)

section \<open>Enumerating the entries\<close>

abbreviation hash_between :: "grn_hash \<Rightarrow> grn_id \<Rightarrow> grn_id \<Rightarrow> grn_id list" where
  "hash_between h c t \<equiv> live_between (\<lambda>rid. rid \<in> hash_live h) c t"

lemma hash_live_bounds: "hash_ok h \<Longrightarrow> rid \<in> hash_live h \<Longrightarrow> rid \<noteq> GRN_ID_NIL \<and> rid \<le> h_a_max h"
  using entries_okD(1) [of h rid] by (auto simp: hash_ok_def stored_def)

text \<open>When the table has as many entries as ids, every id is in use.\<close>

lemma dense_all_live:
  assumes ok: "hash_ok h" and d: "h_n_entries h = h_a_max h" and rid: "rid \<noteq> GRN_ID_NIL" "rid \<le> h_a_max h"
  shows "rid \<in> hash_live h"
proof -
  have "hash_live h \<subseteq> {1..h_a_max h}"
    using hash_live_bounds [OF ok] by (auto simp: word_le_nat_alt Suc_le_eq)
  moreover have "card (hash_live h) = card {1..h_a_max h}"
    using ok d slots_okD(4) [of _ h] by (auto simp: hash_ok_def card_ids_upto)
  ultimately have "hash_live h = {1..h_a_max h}" by (intro card_subset_eq) auto
  with rid show ?thesis by (auto simp: word_le_nat_alt Suc_le_eq)
qed

lemma hash_next_loop_forward:
  assumes "hash_ok h" and "reliable env" and "c \<le> t" and "t \<le> h_a_max h"
    and "hash_cursor_next_loop env h Forward t c = (h', c', found)"
  shows "same_table h h' \<and> c \<le> c' \<and> c' \<le> t \<and>
    (if found then c' \<noteq> GRN_ID_NIL \<and> hash_between h c t = c' # hash_between h c' t else hash_between h c t = [])"
  using assms
proof (induction "unat t - unat c" arbitrary: h c)
  case 0
  then have "c = t" by (simp add: word_le_nat_alt word_unat_eq_iff)
  then show ?case
    using 0 same_table_refl by (auto simp: hash_cursor_next_loop.simps live_between_empty)
next
  case (Suc d)
  note ok = Suc.prems(1) and eq = Suc.prems(5)
  have lt: "c < t" using Suc.hyps(2) by (simp add: word_less_nat_alt)
  note W = word_succ [OF lt]
  note step = live_between_step [OF lt, of "\<lambda>rid. rid \<in> hash_live h"]
  have ne: "c \<noteq> t" using lt by auto
  show ?case
  proof (cases "h_n_entries h = HASH_CURR_MAX h")
    case True
    then have "c + 1 \<in> hash_live h"
      using dense_all_live [OF ok, of "c + 1"] W(1,4) Suc.prems(4) by (simp add: HASH_CURR_MAX_def)
    then show ?thesis using True ne W(1,3,4) step eq same_table_refl [OF ok]
      by (auto simp: hash_cursor_next_loop.simps [of env h])
  next
    case False
    obtain h1 b where b: "grn_hash_bitmap_at env h (c + 1) = (h1, b)" by fastforce
    note B = hash_bitmap_at_ok [OF ok b]
    show ?thesis
    proof (cases b)
      case True
      then show ?thesis using False ne W(1,3,4) step eq B Suc.prems(2) b
        by (auto simp: hash_cursor_next_loop.simps [of env h])
    next
      case dead: False
      then have eq1: "hash_cursor_next_loop env h1 Forward t (c + 1) = (h', c', found)"
        using eq False ne b by (simp add: hash_cursor_next_loop.simps [of env h])
      have IH: "same_table h1 h' \<and> c + 1 \<le> c' \<and> c' \<le> t \<and>
        (if found then c' \<noteq> GRN_ID_NIL \<and> hash_between h1 (c + 1) t = c' # hash_between h1 c' t
         else hash_between h1 (c + 1) t = [])"
        using Suc.hyps(1) [of "c + 1" h1] Suc.hyps(2) W(1,5) Suc.prems(2,4) same_tableD(1,5) [OF B(1)] eq1 by simp
      moreover have "c \<le> c'" using IH W(3) by (meson less_imp_le order_trans)
      moreover have "same_table h h'" using IH B(1) same_table_trans by blast
      moreover have "c + 1 \<notin> hash_live h" using B(3) dead Suc.prems(2) by simp
      ultimately show ?thesis using step unfolding same_tableD(3) [OF B(1)] by (simp split: if_splits)
    qed
  qed
qed

text \<open>Calling \<^verbatim>\<open>grn_hash_cursor_next\<close> until it returns no entry, at most \<open>n\<close> times.\<close>

fun hash_cursor_take :: "hash_env \<Rightarrow> nat \<Rightarrow> grn_hash \<Rightarrow> grn_hash_cursor \<Rightarrow> grn_hash \<times> grn_id list" where
  "hash_cursor_take env 0 h c = (h, [])"
| "hash_cursor_take env (Suc n) h c =
     (case grn_hash_cursor_next env h c of
        (h, c, rid) \<Rightarrow>
          if rid = GRN_ID_NIL then (h, [])
          else (case hash_cursor_take env n h c of (h, rids) \<Rightarrow> (h, rid # rids)))"

lemma hash_cursor_take_forward:
  assumes "hash_ok h" and "reliable env" and "hc_dir c = Forward" and "hc_curr_rec c \<le> hc_tail c" and "hc_tail c \<le> h_a_max h"
    and "hash_cursor_take env n h c = (h', rids)"
  shows "same_table h h' \<and> rids = take (min n (unat (hc_rest c))) (hash_between h (hc_curr_rec c) (hc_tail c))"
  using assms
proof (induction n arbitrary: h c h' rids)
  case 0
  then show ?case using same_table_refl by simp
next
  case (Suc n)
  obtain h1 x f where l: "hash_cursor_next_loop env h Forward (hc_tail c) (hc_curr_rec c) = (h1, x, f)"
    by (metis prod_cases3)
  note N = hash_next_loop_forward [OF Suc.prems(1,2,4,5) l]
  show ?case
  proof (cases "hc_rest c \<noteq> 0 \<and> f")
    case False
    then show ?thesis
      using Suc.prems(1,3,6) l N same_table_refl by (auto simp: grn_hash_cursor_next_def Let_def split: if_splits)
  next
    case True
    let ?c = "c\<lparr>hc_curr_rec := x, hc_rest := hc_rest c - 1\<rparr>"
    obtain h2 rs where rs: "hash_cursor_take env n h1 ?c = (h2, rs)" by fastforce
    have g: "same_table h h1" and x: "x \<noteq> GRN_ID_NIL" "x \<le> hc_tail c"
      and ids: "hash_between h (hc_curr_rec c) (hc_tail c) = x # hash_between h x (hc_tail c)" using N True by auto
    have r: "h' = h2" "rids = x # rs" using Suc.prems(3,6) l True x rs by (auto simp: grn_hash_cursor_next_def)
    have "same_table h1 h2 \<and> rs = take (min n (unat (hc_rest c - 1))) (hash_between h1 x (hc_tail c))"
      using Suc.IH [OF same_tableD(1) [OF g] Suc.prems(2), of ?c h2 rs] Suc.prems(3,5) x(2) same_tableD(5) [OF g] rs by simp
    moreover have "unat (hc_rest c) = Suc (unat (hc_rest c - 1))" using True by (simp add: unat_pred_no_wrap)
    ultimately show ?thesis using g ids r same_tableD(3) [OF g] by (auto intro: same_table_trans)
  qed
qed

lemma hash_between_all:
  assumes "hash_ok h"
  shows "hash_between h GRN_ID_NIL (h_a_max h) = sorted_list_of_set (dom (hash_contents h))"
proof -
  have "{j. GRN_ID_NIL < j \<and> j \<le> h_a_max h \<and> j \<in> hash_live h} = dom (hash_contents h)"
    using hash_live_bounds [OF assms] by (auto simp: hash_contents_def dom_def word_neq_0_conv split: if_splits)
  then show ?thesis by (simp add: live_between_def)
qed

lemma hash_next_ok:
  assumes "hash_ok h" and "reliable env" and "mx = h_a_max h" and "mx < mx + 1" and "rid \<le> mx"
  shows "\<exists>h' r. hash_next_loop env h mx rid = Some (h', r) \<and> same_table h h' \<and>
    r = (case hash_between h rid mx of [] \<Rightarrow> GRN_ID_NIL | x # _ \<Rightarrow> x)"
  using assms
proof (induction "unat mx - unat rid" arbitrary: h rid)
  case 0
  then have "rid = mx" by (simp add: word_le_nat_alt word_unat_eq_iff)
  then show ?case using 0 same_table_refl by (auto simp: hash_next_loop.simps live_between_empty)
next
  case (Suc d)
  note ok = Suc.prems(1)
  have lt: "rid < mx" using Suc.hyps(2) by (simp add: word_less_nat_alt)
  note W = word_succ [OF lt] and step = live_between_step [OF lt, of "\<lambda>rid. rid \<in> hash_live h"]
  obtain h1 b where b: "grn_hash_bitmap_at env h (rid + 1) = (h1, b)" by fastforce
  note B = hash_bitmap_at_ok [OF ok b]
  show ?case
  proof (cases b)
    case True
    then show ?thesis using W(1,3,4) b B Suc.prems(2) step by (simp add: hash_next_loop.simps [of env h])
  next
    case dead: False
    have "\<exists>h' r. hash_next_loop env h1 mx (rid + 1) = Some (h', r) \<and> same_table h1 h' \<and>
        r = (case hash_between h1 (rid + 1) mx of [] \<Rightarrow> GRN_ID_NIL | x # _ \<Rightarrow> x)"
      using Suc.hyps(1) [of "rid + 1" h1] Suc.hyps(2) W(1,5) Suc.prems(2-4) same_tableD(1,5) [OF B(1)] by simp
    then show ?thesis
      using W(1) b B Suc.prems(2) dead step same_tableD(3) [OF B(1)]
      by (auto simp: hash_next_loop.simps [of env h] intro: same_table_trans)
  qed
qed

section \<open>A full index\<close>

text \<open>A search for an absent key in an index with no empty slot does not end.\<close>

lemma get_loop_diverges:
  assumes e: "entries_ok h" and k: "k \<le> 32" "h_max_offset h = mask k" "length (h_index h) = 2 ^ k"
    and full: "\<And>p. p < 2 ^ k \<Longrightarrow> h_index h ! p = GARBAGE \<or> h_index h ! p \<in> hash_live h"
    and absent: "\<forall>rid \<in> hash_live h. hash_key h rid \<noteq> key" and v: "key_hash_value h key = Some v"
  shows "hash_get_loop env h v key (probe_pos v n) = None"
proof -
  have step: "(if rid \<noteq> GARBAGE then
         case grn_hash_entry_at env' h rid of (h', ok) \<Rightarrow>
           if ok \<and> grn_hash_entry_compare_key h' (h_entries h' rid) v key then Some (h', rid) else loop h'
       else loop h) = loop h" if "rid = GARBAGE \<or> rid \<in> hash_live h" for env' rid loop
    using that absent entries_okD(1) [OF e] compare_live [OF e _ v] by (auto simp: entry_at_stored)
  have slot: "h_index h ! grn_hash_idx_at h (probe_pos v n) = h_index h ! probe k v n" for n
    by (simp add: grn_hash_idx_at_def k(2) probe_pos_def probe_word [OF k(1)])
  have never: "\<not> (h0 = h \<and> v0 = v \<and> key0 = key \<and> (\<exists>n. i0 = probe_pos v n))"
    if "hash_get_loop env0 h0 v0 key0 i0 = Some r" for env0 h0 v0 key0 i0 r
    using that
  proof (induct rule: hash_get_loop.raw_induct [rotated, consumes 1, case_names body])
    case (body loop env' h' v' key' i' y)
    show ?case
    proof
      assume "h' = h \<and> v' = v \<and> key' = key \<and> (\<exists>n. i' = probe_pos v n)"
      then obtain n where eq: "h' = h" "v' = v" "key' = key" "i' = probe_pos v n" by auto
      let ?rid = "h_index h ! probe k v n"
      have rid: "?rid = GARBAGE \<or> ?rid \<in> hash_live h" using full probe_lt by blast
      then have "?rid \<noteq> GRN_ID_NIL" using entries_okD(1) [OF e, of ?rid] by (auto simp: GARBAGE_def stored_def)
      then have "loop env' h v key (probe_pos v (Suc n)) = Some y"
        using body(2) [unfolded eq slot probe_pos_Suc Let_def] step [OF rid, of "\<lambda>h'. loop env' h' v key (probe_pos v (Suc n))" env']
        by simp
      from body(1) [OF this] show False by auto
    qed
  qed
  show ?thesis
  proof (cases "hash_get_loop env h v key (probe_pos v n)")
    case (Some r)
    from never [OF this] show ?thesis by blast
  qed
qed

text \<open>
  With a domain that may be a table, \<^verbatim>\<open>grn_hash_add\<close> compares the number of occupied slots itself, not its
  double, with the largest offset, so it does not rehash while an empty slot is left.
\<close>

lemma add_table_domain:
  assumes ok: "hash_ok h" and dom: "h_domain h \<noteq> DomainNone" and s: "slots_ok k h" "k \<le> 28"
    and v: "key_hash_value h key = Some v" and key: "key \<noteq> []"
  shows "grn_hash_add env h key = Some (grn_hash_add_entry env h v key)"
proof -
  have "(2::nat) ^ k \<le> 2 ^ 28" using s(2) by (intro power_increasing) auto
  then have "unat (h_n_entries h) + unat (h_n_garbages h) < 2 ^ 28" using slots_okD(6) [OF s(1)] by simp
  then have "unat (h_n_entries h + h_n_garbages h) = unat (h_n_entries h) + unat (h_n_garbages h)"
    by (subst unat_add_lem [THEN iffD1]) auto
  moreover have "unat (h_max_offset h) = 2 ^ k - 1" using slots_okD(1) [OF s(1)] s(2) by (simp add: unat_mask_u32)
  ultimately have "h_n_entries h + h_n_garbages h \<le> h_max_offset h"
    using slots_okD(6) [OF s(1)] by (simp add: word_le_nat_alt)
  then show ?thesis using key dom by (simp add: grn_hash_add_def v Let_def grn_hash_ensure_rehash_def)
qed

lemma full_index_diverges:
  assumes ok: "hash_ok h" and dom: "h_domain h \<noteq> DomainNone" and env: "generous env" and mx: "h_a_max h < GRN_ID_MAX"
    and s: "slots_ok k h" "k \<le> 28" and full: "unat (h_n_entries h) + 1 = 2 ^ k" "h_n_garbages h = 0"
    and key: "key_hash_value h key = Some v" "key \<noteq> []" "\<forall>r \<in> hash_live h. hash_key h r \<noteq> key"
    and key2: "key_hash_value h key2 = Some v2" "key2 \<noteq> key" "\<forall>r \<in> hash_live h. hash_key h r \<noteq> key2"
  shows "\<exists>h' rid. grn_hash_add env h key = Some (h', rid, True) \<and> grn_hash_get env h' key2 = None"
proof -
  have rel: "reliable env" using env by (simp add: generous_def)
  obtain p fg h' rid where p: "slot_for k h v p fg" and add: "grn_tiny_hash_add env h v key p fg = (h', rid)"
    and eq: "grn_hash_add_entry env h v key = (h', rid, rid \<noteq> GRN_ID_NIL)"
    using add_entry_search(2) [OF ok key(1) s key(3), of env] by blast
  have rid: "rid \<noteq> GRN_ID_NIL" by (rule generous_adds [OF env mx add])
  have e: "entries_ok h'" and t: "touches rid h h'" and after: "index_after k h p fg rid h'" "rid \<notin> hash_live h"
    and con: "hash_contents h' = (hash_contents h)(rid \<mapsto> (key, replicate (h_value_size h) 0))"
    using tiny_hash_add_effect [OF ok rel mx key(1,3) s(1) p add] rid by auto
  note a = index_afterD [OF after(1)]
  have len: "length (h_index h') = 2 ^ k" using a(3) slots_okD(2) [OF s(1)] by simp
  have "card (hash_live h') = 2 ^ k" using full(1) a(2) after(2) slots_okD(4) [OF s(1)] by simp
  then have card: "card {p. p < length (h_index h') \<and> h_index h' ! p \<noteq> GRN_ID_NIL} \<ge> card {..<length (h_index h')}"
    using occupied_slots [OF a(1)] len by simp
  have "{p. p < length (h_index h') \<and> h_index h' ! p \<noteq> GRN_ID_NIL} = {..<length (h_index h')}"
    by (rule card_seteq [OF _ _ card]) auto
  then have slots: "h_index h' ! q \<noteq> GRN_ID_NIL" if "q < 2 ^ k" for q using that len by auto
  have absent: "\<forall>r \<in> hash_live h'. hash_key h' r \<noteq> key2"
  proof
    fix r assume r: "r \<in> hash_live h'"
    then have "hash_contents h' r = Some (hash_key h' r, e_value (h_entries h' r))" by (simp add: hash_contents_def)
    with r show "hash_key h' r \<noteq> key2"
      using con key2 a(2) by (cases "r = rid") (auto simp: hash_contents_def split: if_splits)
  qed
  have "h_index h' ! q = GARBAGE \<or> h_index h' ! q \<in> hash_live h'" if "q < 2 ^ k" for q
    using slots [OF that] index_okD(1) [OF a(1), of q] that len by (auto simp: live_slot_def)
  then have "hash_get_loop env h' v2 key2 (probe_pos v2 0) = None"
    using s(2) a(6) len absent key2(1) touchesD(5) [OF t] slots_okD(1) [OF s(1)]
    by (intro get_loop_diverges [OF e, of k]) simp_all
  then have "grn_hash_get env h' key2 = None"
    using key2(1) touchesD(5) [OF t] by (simp add: grn_hash_get_def grn_hash_get_internal_def probe_pos_0)
  then show ?thesis using add_table_domain [OF ok dom s key(1,2), of env] eq rid by auto
qed

end
