(* ===== verification/HashTheorems.thy ===== *)
theory HashTheorems
  imports HashAccess
begin

text \<open>
  The properties of the in-memory hash table, with concrete tables that show that their hypotheses
  hold: a new table, and tables filled by \<^verbatim>\<open>grn_hash_add\<close>.
\<close>

section \<open>Concrete tables\<close>

definition henv0 :: hash_env where
  "henv0 = \<lparr>he_alloc_a = (\<lambda>_. True), he_alloc_bitmap = \<lparr>alloc_ok = (\<lambda>_. True), alloc_junk = (\<lambda>_. 0)\<rparr>,
            he_alloc_key = True, he_alloc_index = True, he_alloc_cursor = True\<rparr>"

definition hash0 :: "hash_domain \<Rightarrow> grn_hash" where
  "hash0 d = projr (grn_tiny_hash_init henv0 False 4 4 False d)"

definition key1 :: "byte list" where "key1 = [1, 2, 3, 4]"

definition hash1 :: grn_hash where "hash1 = fst (the (grn_hash_add henv0 (hash0 DomainNone) key1))"

definition rid1 :: grn_id where "rid1 = fst (snd (the (grn_hash_add henv0 (hash0 DomainNone) key1)))"

lemma generous_henv0: "generous henv0" "reliable henv0"
  by (simp_all add: generous_def reliable_def henv0_def)

lemma hash0_init: "grn_tiny_hash_init henv0 False 4 4 False d = Inr (hash0 d)"
  by (simp add: hash0_def grn_tiny_hash_init_def henv0_def)

lemmas hash0_ok = hash_init_ok [OF hash0_init, simplified]

lemma hash0_live: "hash_live (hash0 d) = {}"
  using hash0_ok(2) [of d] hash_contents_live [of "hash0 d"] by auto

lemma key_hash_fixed4:
  "h_var_size h = False \<Longrightarrow> h_key_size h = 4 \<Longrightarrow> length key = 4 \<Longrightarrow> key_hash_value h key = Some (get_u32 key)"
  by (simp add: key_hash_value_def)

lemma hash0_add: "grn_hash_add henv0 (hash0 DomainNone) key1 = Some (hash1, rid1, True)"
  and hash1_added: "key_added (hash0 DomainNone) key1 hash1 rid1 True"
proof -
  obtain h' rid new where a: "grn_hash_add henv0 (hash0 DomainNone) key1 = Some (h', rid, new)"
    "key_added (hash0 DomainNone) key1 h' rid new" "rid \<noteq> GRN_ID_NIL"
    using hash_add_ok [OF hash0_ok(1) generous_henv0(2) hash0_ok(3), of key1] hash0_ok(4,5,7,8) generous_henv0
    by (auto simp: key1_def key_hash_fixed4)
  then have new using hash0_live by (auto simp: key_added_def split: if_splits)
  with a show "grn_hash_add henv0 (hash0 DomainNone) key1 = Some (hash1, rid1, True)"
    "key_added (hash0 DomainNone) key1 hash1 rid1 True"
    by (simp_all add: hash1_def rid1_def)
qed

lemma hash1_ok: "hash_ok hash1" "hash_contents hash1 = [rid1 \<mapsto> (key1, [0, 0, 0, 0])]" "rid1 \<noteq> GRN_ID_NIL"
  "same_kind (hash0 DomainNone) hash1"
  using hash1_added hash0_ok(2,6) by (simp_all add: key_added_def numeral_eq_Suc)

lemma hash1_live: "hash_live hash1 = {rid1}" "hash_key hash1 rid1 = key1"
  using hash1_ok(2) hash_contents_live [of hash1] by (auto simp: hash_contents_def fun_eq_iff split: if_splits)

lemma hash1_sizes: "h_value_size hash1 = 4" "h_domain hash1 = DomainNone"
  using hash1_ok(4) hash0_ok by (simp_all add: same_kind_def)

lemma hash1_a_max: "h_a_max hash1 = 0 \<or> h_a_max hash1 = 1"
proof -
  let ?h = "hash0 DomainNone"
  have v: "key_hash_value ?h key1 = Some (get_u32 key1)" by (rule key_hash_fixed4) (simp_all add: hash0_ok key1_def)
  have "grn_hash_add henv0 ?h key1 = Some (grn_hash_add_entry henv0 ?h (get_u32 key1) key1)"
    by (simp add: grn_hash_add_def v hash0_ok grn_hash_ensure_rehash_def) (simp add: key1_def)
  moreover obtain p fg h' rid where "grn_tiny_hash_add henv0 ?h (get_u32 key1) key1 p fg = (h', rid)"
    "grn_hash_add_entry henv0 ?h (get_u32 key1) key1 = (h', rid, rid \<noteq> GRN_ID_NIL)"
    using add_entry_search(2) [OF hash0_ok(1) v hash0_ok(9), of henv0] hash0_live by auto
  ultimately show ?thesis using hash0_add tiny_hash_add_a_max [of henv0 ?h] by (fastforce simp: hash0_ok)
qed

lemma contents_key:
  shows "(\<exists>val. hash_contents h rid = Some (key, val)) \<longleftrightarrow> rid \<in> hash_live h \<and> hash_key h rid = key"
    and "(\<forall>r val. hash_contents h r \<noteq> Some (key, val)) \<longleftrightarrow> (\<forall>r \<in> hash_live h. hash_key h r \<noteq> key)"
    and "hash_contents h rid = None \<longleftrightarrow> rid \<notin> hash_live h"
proof -
  show key: "(\<exists>val. hash_contents h rid = Some (key, val)) \<longleftrightarrow> rid \<in> hash_live h \<and> hash_key h rid = key" for rid
    by (simp add: hash_contents_def)
  show "(\<forall>r val. hash_contents h r \<noteq> Some (key, val)) \<longleftrightarrow> (\<forall>r \<in> hash_live h. hash_key h r \<noteq> key)"
    using key by blast
qed (simp add: hash_contents_def)

section \<open>Finding, adding and deleting keys\<close>

text \<open>
  C8: \<^verbatim>\<open>grn_hash_get\<close> on a well-formed table always returns, changes nothing, and returns the id of the
  entry with the key, or the null id exactly when no entry has it.
\<close>

theorem hash_get_finds:
  assumes "hash_ok h"
  shows "\<exists>rid. grn_hash_get env h key = Some (h, rid) \<and>
    (if rid = GRN_ID_NIL then \<forall>r value. hash_contents h r \<noteq> Some (key, value)
     else \<exists>value. hash_contents h rid = Some (key, value))"
  using hash_get_ok [OF assms, of env key] unfolding contents_key .

theorem hash_get_finds_witness: "grn_hash_get henv0 hash1 key1 = Some (hash1, rid1)"
proof -
  obtain rid where rid: "grn_hash_get henv0 hash1 key1 = Some (hash1, rid)"
    "if rid = GRN_ID_NIL then \<forall>r value. hash_contents hash1 r \<noteq> Some (key1, value)
     else \<exists>value. hash_contents hash1 rid = Some (key1, value)"
    using hash_get_finds [OF hash1_ok(1), of henv0 key1] by auto
  then have "rid = rid1" using hash1_ok(2) by (auto split: if_splits)
  with rid show ?thesis by simp
qed

text \<open>
  C9: \<^verbatim>\<open>grn_hash_add\<close> on a well-formed table always returns.  If the key is in the table it returns the id
  of its entry; if it is new, it returns an id that no entry had, whose entry holds the key and a
  zeroed value; when memory is refused or the key is empty or of a wrong size it returns the null id.
  No other entry changes and the table stays well-formed, also when the index was rehashed.  The table
  has fewer than \<open>2 ^ 27\<close> entries and its domain is not a table.
\<close>

theorem hash_add_inserts:
  assumes "hash_ok h" and "reliable env" and "h_domain h = DomainNone"
    and "unat (h_n_entries h) < 2 ^ 27" and "h_a_max h < GRN_ID_MAX"
  shows "\<exists>h' rid new. grn_hash_add env h key = Some (h', rid, new) \<and> hash_ok h' \<and>
    (if new then rid \<noteq> GRN_ID_NIL \<and> hash_contents h rid = None \<and> (\<forall>r value. hash_contents h r \<noteq> Some (key, value))
       \<and> hash_contents h' = (hash_contents h)(rid \<mapsto> (key, replicate (h_value_size h) 0))
     else hash_contents h' = hash_contents h \<and> (rid \<noteq> GRN_ID_NIL \<longrightarrow> (\<exists>value. hash_contents h rid = Some (key, value)))) \<and>
    (generous env \<and> key \<noteq> [] \<and> key_hash_value h key \<noteq> None \<longrightarrow> rid \<noteq> GRN_ID_NIL)"
proof -
  obtain h' rid new where a: "grn_hash_add env h key = Some (h', rid, new)" "key_added h key h' rid new"
    "generous env \<and> key \<noteq> [] \<and> key_hash_value h key \<noteq> None \<longrightarrow> rid \<noteq> GRN_ID_NIL"
    using hash_add_ok [OF assms, of key] by blast
  then show ?thesis unfolding key_added_def contents_key by (intro exI [of _ h'] exI [of _ rid] exI [of _ new]) auto
qed

theorem hash_add_inserts_witness:
  "\<exists>h' rid new. grn_hash_add henv0 (hash0 DomainNone) key1 = Some (h', rid, new) \<and> rid \<noteq> GRN_ID_NIL \<and> hash_ok h'"
  using hash_add_inserts [OF hash0_ok(1) generous_henv0(2) hash0_ok(3), of key1] hash0_ok(4,5,7,8) generous_henv0
  by (auto simp: key1_def key_hash_fixed4)

lemma delete_by_key_removes:
  assumes "hash_ok h"
  shows "\<exists>h' rc. grn_hash_delete env h key = Some (h', rc) \<and> hash_ok h' \<and>
    (if rc = GRN_SUCCESS
     then \<exists>rid value. hash_contents h rid = Some (key, value) \<and> hash_contents h' = (hash_contents h)(rid := None)
     else h' = h \<and> (\<forall>rid value. hash_contents h rid \<noteq> Some (key, value)))"
proof -
  obtain h' rc where "grn_hash_delete env h key = Some (h', rc)" "hash_ok h'"
    "if rc = GRN_SUCCESS then \<exists>rid \<in> hash_live h. hash_key h rid = key \<and> hash_contents h' = (hash_contents h)(rid := None)
     else h' = h \<and> (\<forall>rid \<in> hash_live h. hash_key h rid \<noteq> key)"
    using hash_delete_ok [OF assms, of env key] by blast
  then show ?thesis
    unfolding ex_simps(1) [symmetric] contents_key
    by (intro exI [of _ h'] exI [of _ rc]) (auto simp: contents_key split: if_splits)
qed

lemma delete_by_id_removes:
  assumes "hash_ok h" and "rid \<noteq> GARBAGE"
  shows "\<exists>h' rc. grn_hash_delete_by_id env h rid = Some (h', rc) \<and> hash_ok h' \<and>
    (rc = GRN_SUCCESS \<longleftrightarrow> hash_contents h rid \<noteq> None) \<and> hash_contents h' = (hash_contents h)(rid := None)"
proof -
  obtain h' rc where d: "grn_hash_delete_by_id env h rid = Some (h', rc)" "hash_ok h'"
    "if rid \<in> hash_live h then rc = GRN_SUCCESS \<and> hash_contents h' = (hash_contents h)(rid := None)
     else rc = GRN_INVALID_ARGUMENT \<and> hash_contents h' = hash_contents h"
    using hash_delete_by_id_ok [OF assms, of env] by blast
  then show ?thesis using contents_key(3) [of h rid]
    by (intro exI [of _ h'] exI [of _ rc]) (auto simp: fun_upd_idem split: if_splits)
qed

text \<open>
  C10: deletions always return.  \<^verbatim>\<open>grn_hash_delete\<close> succeeds exactly when the key is in the table, and then removes the entry of
  the key and no other; \<^verbatim>\<open>grn_hash_delete_by_id\<close> succeeds exactly on the id of an entry, and removes that entry and no other.
  The id with all bits set, which an index slot uses as its garbage mark, is excluded.
\<close>

theorem hash_delete_removes:
  assumes "hash_ok h" and "rid \<noteq> GARBAGE"
  shows "(\<exists>h' rc. grn_hash_delete env h key = Some (h', rc) \<and> hash_ok h' \<and>
    (if rc = GRN_SUCCESS
     then \<exists>rid value. hash_contents h rid = Some (key, value) \<and> hash_contents h' = (hash_contents h)(rid := None)
     else h' = h \<and> (\<forall>rid value. hash_contents h rid \<noteq> Some (key, value)))) \<and>
   (\<exists>h' rc. grn_hash_delete_by_id env h rid = Some (h', rc) \<and> hash_ok h' \<and>
    (rc = GRN_SUCCESS \<longleftrightarrow> hash_contents h rid \<noteq> None) \<and> hash_contents h' = (hash_contents h)(rid := None))"
  using delete_by_key_removes [OF assms(1), of env key] delete_by_id_removes [OF assms, of env] by blast

theorem hash_delete_removes_witness:
  "(\<exists>h'. grn_hash_delete henv0 hash1 key1 = Some (h', GRN_SUCCESS) \<and> hash_contents h' = Map.empty) \<and>
   rid1 \<noteq> GARBAGE \<and> (\<exists>h'. grn_hash_delete_by_id henv0 hash1 rid1 = Some (h', GRN_SUCCESS) \<and> hash_contents h' = Map.empty)"
proof -
  obtain k where k: "slots_ok k hash1" using hash1_ok(1) by (auto simp: hash_ok_def)
  have g: "rid1 \<noteq> GARBAGE" using hash1_live(1) garbage_not_live(1) [OF k] by auto
  note d = hash_delete_removes [OF hash1_ok(1) g, of henv0 key1]
  obtain h' rc where "grn_hash_delete henv0 hash1 key1 = Some (h', rc)"
    "if rc = GRN_SUCCESS
     then \<exists>rid value. hash_contents hash1 rid = Some (key1, value) \<and> hash_contents h' = (hash_contents hash1)(rid := None)
     else h' = hash1 \<and> (\<forall>rid value. hash_contents hash1 rid \<noteq> Some (key1, value))"
    using d by blast
  then have "\<exists>h'. grn_hash_delete henv0 hash1 key1 = Some (h', GRN_SUCCESS) \<and> hash_contents h' = Map.empty"
    using hash1_ok(2) by (auto split: if_splits)
  then show ?thesis using d g hash1_ok(2) by auto
qed

text \<open>
  C11: \<^verbatim>\<open>grn_hash_rehash\<close> on a table with fewer than \<open>2 ^ 27\<close> entries always returns: it succeeds when the new
  index can be allocated, keeps every entry under its id, and leaves an index without garbage marks
  that is less than half full; otherwise it changes nothing.
\<close>

theorem hash_rehash_keeps:
  assumes "hash_ok h" and "h_domain h = DomainNone" and "unat (h_n_entries h) < 2 ^ 27"
  shows "\<exists>h' rc. grn_hash_rehash env h 0 = Some (h', rc) \<and> hash_ok h' \<and> hash_contents h' = hash_contents h \<and>
    (rc = GRN_SUCCESS \<longleftrightarrow> he_alloc_index env) \<and>
    (if rc = GRN_SUCCESS then h_n_garbages h' = 0 \<and> 2 * unat (h_n_entries h') < length (h_index h') else h' = h)"
proof -
  obtain h' rc where r: "grn_hash_rehash env h 0 = Some (h', rc)" "hash_ok h'" "hash_contents h' = hash_contents h"
    "if rc = GRN_SUCCESS then \<exists>k. slots_ok k h' \<and> h_n_garbages h' = 0 \<and> 2 * unat (h_n_entries h') < 2 ^ k else h' = h"
    "rc = GRN_SUCCESS \<longleftrightarrow> he_alloc_index env"
    using hash_rehash_ok [OF assms, of env] by (metis (no_types, lifting))
  then show ?thesis using slots_okD(2) by (intro exI [of _ h'] exI [of _ rc]) (auto split: if_splits)
qed

theorem hash_rehash_keeps_witness:
  "\<exists>h'. grn_hash_rehash henv0 (hash0 DomainNone) 0 = Some (h', GRN_SUCCESS) \<and> hash_contents h' = Map.empty"
  using hash_rehash_keeps [OF hash0_ok(1,3), of henv0] hash0_ok(2,5) generous_henv0(1) by (auto simp: generous_def)

text \<open>
  C14: When the domain of a hash table may be a table, \<^verbatim>\<open>grn_hash_add\<close> fills the index to its last slot
  before it rehashes: the key that takes the last empty slot is added, and after that \<^verbatim>\<open>grn_hash_get\<close> of a
  key that is not in the table never returns.
\<close>

theorem hash_get_full_index_diverges:
  assumes "hash_ok h" and "h_domain h \<noteq> DomainNone" and "generous env" and "h_a_max h < GRN_ID_MAX"
    and "unat (h_n_entries h) + 1 = length (h_index h)" and "h_n_garbages h = 0"
    and "key \<noteq> []" and "key_hash_value h key \<noteq> None" and "\<forall>r value. hash_contents h r \<noteq> Some (key, value)"
    and "key2 \<noteq> key" and "key_hash_value h key2 \<noteq> None" and "\<forall>r value. hash_contents h r \<noteq> Some (key2, value)"
  shows "\<exists>h' rid. grn_hash_add env h key = Some (h', rid, True) \<and> grn_hash_get env h' key2 = None"
proof -
  obtain k where s: "slots_ok k h" "k \<le> 28" using assms(1) by (auto simp: hash_ok_def)
  obtain v v2 where v: "key_hash_value h key = Some v" "key_hash_value h key2 = Some v2" using assms(8,11) by auto
  have "\<forall>r \<in> hash_live h. hash_key h r \<noteq> key" "\<forall>r \<in> hash_live h. hash_key h r \<noteq> key2"
    using assms(9,12) unfolding contents_key by auto
  then show ?thesis
    using full_index_diverges [OF assms(1-4) s _ assms(6) v(1) assms(7) _ v(2) assms(10)] slots_okD(2) [OF s(1)] assms(5)
    by simp
qed

text \<open>Filling a table with the domain \<open>DomainOther\<close> with the keys \<open>u32_bytes 0, u32_bytes 1, \<dots>\<close>.\<close>

lemma u32_bytes_inj: "u32_bytes a = u32_bytes b \<longleftrightarrow> a = b"
  by (metis append_Nil2 get_u32_bytes)

lemma fill_step:
  assumes ok: "hash_ok h" and s: "slots_ok 8 h" and kind: "same_kind (hash0 DomainOther) h" and ng: "h_n_garbages h = 0"
    and ne: "unat (h_n_entries h) = n" "n < 255" and mx: "unat (h_a_max h) \<le> n"
    and keys: "hash_key h ` hash_live h = (\<lambda>i. u32_bytes (of_nat i)) ` {..<n}"
  shows "\<exists>h'. hash_ok h' \<and> slots_ok 8 h' \<and> same_kind (hash0 DomainOther) h' \<and> h_n_garbages h' = 0
     \<and> unat (h_n_entries h') = Suc n \<and> unat (h_a_max h') \<le> Suc n
     \<and> hash_key h' ` hash_live h' = (\<lambda>i. u32_bytes (of_nat i)) ` {..<Suc n}"
proof -
  let ?key = "u32_bytes (of_nat n)"
  have v: "key_hash_value h ?key = Some (get_u32 ?key)"
    using kind hash0_ok(7,8) [of DomainOther] by (intro key_hash_fixed4) (auto simp: same_kind_def)
  have "?key \<notin> hash_key h ` hash_live h"
  proof
    assume "?key \<in> hash_key h ` hash_live h"
    then obtain i where i: "i < n" "(of_nat n :: u32) = of_nat i" by (auto simp: keys u32_bytes_inj)
    then have "unat (of_nat n :: u32) = unat (of_nat i :: u32)" by simp
    with i(1) ne(2) show False by (simp add: unat_of_nat)
  qed
  then have new: "\<forall>r \<in> hash_live h. hash_key h r \<noteq> ?key" by (metis imageI)
  have mx': "h_a_max h < GRN_ID_MAX" using mx ne by (simp add: word_less_nat_alt)
  obtain p fg h' rid where p: "slot_for 8 h (get_u32 ?key) p fg" and add: "grn_tiny_hash_add henv0 h (get_u32 ?key) ?key p fg = (h', rid)"
    using add_entry_search(2) [OF ok v s _ new, of henv0] by auto
  have rid: "rid \<noteq> GRN_ID_NIL" by (rule generous_adds [OF generous_henv0(1) mx' add])
  have e: "entries_ok h'" "free_ok h'" and t: "touches rid h h'" and after: "index_after 8 h p fg rid h'"
    and nl: "rid \<notin> hash_live h" "live_slot rid"
    and con: "hash_contents h' = (hash_contents h)(rid \<mapsto> (?key, replicate (h_value_size h) 0))"
    using tiny_hash_add_effect [OF ok generous_henv0(2) mx' v new s p add] rid by auto
  note a = index_afterD [OF after]
  have s': "slots_ok 8 h'" by (rule inserted_slots [OF s _ p nl _ after]) (use ne ng in auto)
  have "\<not> fg" using garbage_slots_update(2) slot_for_free [OF s p] slots_okD(5) [OF s] ng by fastforce
  moreover have "unat (h_n_entries h') = Suc n"
    using slots_okD(4) [OF s'] slots_okD(4) [OF s] a(2) nl(1) ne by simp
  moreover have "unat (h_a_max h') \<le> Suc n"
    using tiny_hash_add_a_max [OF add] mx ne(2) unat_Suc_no_wrap [of "h_a_max h"] by auto
  moreover have "hash_key h' ` hash_live h' = insert ?key (hash_key h ` hash_live h)"
  proof -
    have "hash_key h' rid = ?key" using fun_cong [OF con, of rid] a(2) by (simp add: hash_contents_def)
    moreover have "hash_key h' r = hash_key h r" if "r \<in> hash_live h" for r
      using touchesD(1) [OF t, of r] that nl(1) by auto
    ultimately show ?thesis by (simp add: a(2))
  qed
  moreover have "hash_ok h'" using s' e by (auto simp: hash_ok_def)
  moreover have "same_kind (hash0 DomainOther) h'" using kind touches_kind [OF t] by (rule same_kind_trans)
  ultimately show ?thesis
    using s' a(5) ng by (intro exI [of _ h']) (simp add: keys lessThan_Suc)
qed

lemma filled_table:
  "n \<le> 255 \<Longrightarrow> \<exists>h. hash_ok h \<and> slots_ok 8 h \<and> same_kind (hash0 DomainOther) h \<and> h_n_garbages h = 0
     \<and> unat (h_n_entries h) = n \<and> unat (h_a_max h) \<le> n
     \<and> hash_key h ` hash_live h = (\<lambda>i. u32_bytes (of_nat i)) ` {..<n}"
proof (induction n)
  case 0
  then show ?case using hash0_ok [of DomainOther] hash0_live by (intro exI [of _ "hash0 DomainOther"]) simp
next
  case (Suc n)
  then obtain h where h: "hash_ok h" "slots_ok 8 h" "same_kind (hash0 DomainOther) h" "h_n_garbages h = 0"
    "unat (h_n_entries h) = n" "unat (h_a_max h) \<le> n" "hash_key h ` hash_live h = (\<lambda>i. u32_bytes (of_nat i)) ` {..<n}"
    by auto
  show ?case by (rule fill_step [OF h(1-5) _ h(6,7)]) (use Suc.prems in simp)
qed

theorem hash_get_full_index_diverges_witness:
  "\<exists>h h' rid. hash_ok h \<and> grn_hash_add henv0 h (u32_bytes 255) = Some (h', rid, True)
     \<and> grn_hash_get henv0 h' (u32_bytes 256) = None"
proof -
  obtain h where h: "hash_ok h" "slots_ok 8 h" "same_kind (hash0 DomainOther) h" "h_n_garbages h = 0"
    "unat (h_n_entries h) = 255" "unat (h_a_max h) \<le> 255"
    "hash_key h ` hash_live h = (\<lambda>i. u32_bytes (of_nat i)) ` {..<255}"
    using filled_table [of 255] by auto
  have kv: "key_hash_value h (u32_bytes w) \<noteq> None" for w
    using h(3) hash0_ok(7,8) [of DomainOther] key_hash_fixed4 [of h "u32_bytes w"] by (simp add: same_kind_def)
  have absent: "\<forall>r val. hash_contents h r \<noteq> Some (u32_bytes w, val)" if "255 \<le> unat w" for w
  proof -
    have "u32_bytes w \<notin> hash_key h ` hash_live h"
      using that unfolding h(7) by (auto simp: u32_bytes_inj unat_of_nat)
    then show ?thesis unfolding contents_key by (metis imageI)
  qed
  have "\<exists>h' rid. grn_hash_add henv0 h (u32_bytes 255) = Some (h', rid, True) \<and> grn_hash_get henv0 h' (u32_bytes 256) = None"
  proof (rule hash_get_full_index_diverges [OF h(1) _ generous_henv0(1) _ _ h(4)])
    show "h_domain h \<noteq> DomainNone" using h(3) hash0_ok(3) [of DomainOther] by (simp add: same_kind_def)
    show "h_a_max h < GRN_ID_MAX" using h(6) by (simp add: word_less_nat_alt)
    show "unat (h_n_entries h) + 1 = length (h_index h)" using slots_okD(2) [OF h(2)] h(5) by simp
    show "u32_bytes 255 \<noteq> []" by (simp add: u32_bytes_def)
    show "u32_bytes 256 \<noteq> u32_bytes 255" by (simp add: u32_bytes_inj)
  qed (use kv absent [of 255] absent [of 256] in simp_all)
  with h(1) show ?thesis by auto
qed

section \<open>Runs of operations\<close>








section \<open>Values and enumeration\<close>

text \<open>
  C15: \<^verbatim>\<open>grn_hash_get_key\<close> and \<^verbatim>\<open>grn_hash_get_value\<close> return the key and the value of an id exactly when it is the
  id of an entry, and change no entry.
\<close>

theorem hash_get_key_value_exact:
  assumes "hash_ok h" and "reliable env"
  shows "snd (grn_hash_get_key env h rid) = map_option fst (hash_contents h rid)
    \<and> snd (grn_hash_get_value env h rid) = map_option snd (hash_contents h rid)
    \<and> hash_contents (fst (grn_hash_get_key env h rid)) = hash_contents h
    \<and> hash_contents (fst (grn_hash_get_value env h rid)) = hash_contents h"
  using get_key_value_ok [OF assms(1), of env rid] assms(2) same_tableD(2) by (auto split: prod.splits)

theorem hash_get_key_value_exact_witness:
  "snd (grn_hash_get_key henv0 hash1 rid1) = Some key1 \<and> snd (grn_hash_get_value henv0 hash1 rid1) = Some [0, 0, 0, 0]"
  using hash_get_key_value_exact [OF hash1_ok(1) generous_henv0(2), of rid1] hash1_ok(2) by simp

text \<open>
  \<^verbatim>\<open>grn_hash_set_value\<close> succeeds only on the id of an entry and a mode that fits the value size, and
  then replaces the value of that entry and nothing else.
\<close>

theorem hash_set_value_effect:
  assumes "hash_ok h" and "h_value_size h \<le> length bs"
  shows "case grn_hash_set_value env h rid bs flags of (h', rc) \<Rightarrow> hash_ok h' \<and>
    (if rc = GRN_SUCCESS
     then \<exists>key old v. hash_contents h rid = Some (key, old)
       \<and> set_value_bytes (set_flag_of flags) (h_value_size h) old bs = Some v
       \<and> hash_contents h' = (hash_contents h)(rid \<mapsto> (key, v))
     else hash_contents h' = hash_contents h)"
  using hash_set_value_ok [OF assms, where env = env and rid = rid and flags = flags] by (auto split: prod.splits)

theorem hash_set_value_effect_witness:
  "case grn_hash_set_value henv0 hash1 rid1 [5, 6, 7, 8] 1 of (h', rc) \<Rightarrow> hash_ok h' \<and>
    (rc = GRN_SUCCESS \<longrightarrow> hash_contents h' = [rid1 \<mapsto> (key1, [5, 6, 7, 8])])"
  using hash_set_value_effect [OF hash1_ok(1), where bs = "[5, 6, 7, 8]" and env = henv0 and rid = rid1 and flags = 1] hash1_sizes(1) hash1_ok(2)
  by (auto simp: set_flag_of_def set_value_bytes_def Let_def split: prod.splits)

text \<open>
  C16: A cursor over the whole table in ascending order, without an offset, delivers the ids of all
  entries in ascending order, up to the limit, if one is given; without one it delivers all, when the
  ids stay below \<^verbatim>\<open>GRN_ARRAY_MAX\<close>.
\<close>

theorem hash_cursor_enumerates:
  assumes "hash_ok h" and "reliable env" and "he_alloc_cursor env" and "flags AND GRN_CURSOR_DESCENDING = 0"
    and "limit < 2 ^ 32" and "h_a_max h < GRN_ARRAY_MAX" and "card (dom (hash_contents h)) \<le> n"
  shows "\<exists>h1 c. grn_hash_cursor_open env h None None 0 limit flags = Some (h1, Some c) \<and>
    snd (hash_cursor_take env n h1 c) =
      (if limit < 0 then sorted_list_of_set (dom (hash_contents h))
       else take (nat limit) (sorted_list_of_set (dom (hash_contents h))))"
proof -
  let ?rest = "if limit < 0 then GRN_ARRAY_MAX else of_int limit"
  let ?c = "\<lparr>hc_curr_rec = GRN_ID_NIL, hc_tail = h_a_max h, hc_rest = ?rest, hc_dir = Forward\<rparr>"
  let ?ids = "sorted_list_of_set (dom (hash_contents h))"
  have op: "grn_hash_cursor_open env h None None 0 limit flags = Some (h, Some ?c)"
    using assms(3,4) by (simp add: grn_hash_cursor_open_def hash_cursor_bounds_def cursor_key_bound_def
        HASH_CURR_MAX_def Let_def hash_cursor_skip.simps)
  have "snd (hash_cursor_take env n h ?c) = take (min n (unat ?rest)) ?ids"
    using hash_cursor_take_forward [OF assms(1,2), of ?c n] hash_between_all [OF assms(1)]
    by (cases "hash_cursor_take env n h ?c") simp
  moreover have len: "length ?ids \<le> n" using assms(7) by simp
  moreover have "length ?ids \<le> unat GRN_ARRAY_MAX"
  proof -
    have "dom (hash_contents h) = hash_live h" by (auto simp: hash_contents_def dom_def split: if_splits)
    moreover have "hash_live h \<subseteq> {1..h_a_max h}"
      using hash_live_bounds [OF assms(1)] by (auto simp: word_le_nat_alt Suc_le_eq)
    ultimately have "card (dom (hash_contents h)) \<le> unat (h_a_max h)"
      using card_mono [of "{1..h_a_max h}" "hash_live h"] by (simp add: card_ids_upto)
    then show ?thesis using assms(6) by (simp add: word_less_nat_alt)
  qed
  moreover have "\<not> limit < 0 \<Longrightarrow> unat (of_int limit :: u32) = nat limit"
    using assms(5) unat_of_int_no_wrap [of limit, where 'a = 32] by simp
  ultimately show ?thesis using op by (auto simp: min_def)
qed

theorem hash_cursor_enumerates_witness:
  "\<exists>h1 c. grn_hash_cursor_open henv0 hash1 None None 0 (- 1) 0 = Some (h1, Some c) \<and> snd (hash_cursor_take henv0 1 h1 c) = [rid1]"
proof -
  have "h_a_max hash1 < GRN_ARRAY_MAX" using hash1_a_max by (auto simp: GRN_ARRAY_MAX_def)
  then show ?thesis
    using hash_cursor_enumerates [OF hash1_ok(1) generous_henv0(2), of 0 "- 1" 1] hash1_ok(2) by (simp add: henv0_def)
qed

text \<open>
  \<^verbatim>\<open>grn_hash_next\<close> always returns when ids cannot wrap around, and returns the smallest id of an entry
  above the given one, or the null id when there is none.
\<close>

theorem hash_next_least:
  assumes "hash_ok h" and "reliable env" and "h_a_max h < GRN_ID_MAX" and "rid \<le> h_a_max h"
  shows "\<exists>h' r. grn_hash_next env h rid = Some (h', r) \<and> hash_contents h' = hash_contents h \<and>
    r = (case sorted_list_of_set {j \<in> dom (hash_contents h). rid < j} of [] \<Rightarrow> GRN_ID_NIL | x # _ \<Rightarrow> x)"
proof -
  have "{j. rid < j \<and> j \<le> h_a_max h \<and> j \<in> hash_live h} = {j \<in> dom (hash_contents h). rid < j}"
    using hash_live_bounds [OF assms(1)] by (auto simp: hash_contents_def dom_def split: if_splits)
  then have "hash_between h rid (h_a_max h) = sorted_list_of_set {j \<in> dom (hash_contents h). rid < j}"
    by (simp add: live_between_def)
  then show ?thesis
    using hash_next_ok [OF assms(1,2) refl max_id_next(1) [OF assms(3)] assms(4)] same_tableD(2)
    by (fastforce simp: grn_hash_next_def HASH_CURR_MAX_def)
qed

theorem hash_next_least_witness: "\<exists>h'. grn_hash_next henv0 (hash0 DomainNone) 0 = Some (h', GRN_ID_NIL)"
  using hash_next_least [OF hash0_ok(1) generous_henv0(2), of DomainNone 0] hash0_ok(2,4) by auto

end
