(* ===== verification/Pack.thy ===== *)
theory Pack
  imports Prelude
begin

text \<open>
  Fixed-width packing of numbers, from the codec of posting lists in \<^verbatim>\<open>lib/ii.cpp\<close>: the straight-line routines \<^verbatim>\<open>pack_1\<close> to
  \<^verbatim>\<open>pack_32\<close> that write eight numbers of a width, their inverses \<^verbatim>\<open>unpack_1\<close> to \<^verbatim>\<open>unpack_32\<close>, and the loops over what is left when
  there are fewer than eight.  A pointer into the numbers or the bytes is the list of what it points to.
\<close>

unbundle bit_operations_syntax

abbreviation (input) lo :: "u32 \<Rightarrow> byte" where
  "lo \<equiv> ucast"

abbreviation (input) up :: "byte \<Rightarrow> u32" where
  "up \<equiv> ucast"

section \<open>Eight numbers at a time\<close>

definition pack_1 :: "u32 list \<Rightarrow> byte list" where
  "pack_1 p =
     (let v = lo (push_bit 7 (p ! 0)); v = v + lo (push_bit 6 (p ! 1)); v = v + lo (push_bit 5 (p ! 2));
          v = v + lo (push_bit 4 (p ! 3)); v = v + lo (push_bit 3 (p ! 4)); v = v + lo (push_bit 2 (p ! 5));
          v = v + lo (push_bit 1 (p ! 6)); r0 = v + lo (p ! 7)
      in [r0])"

definition unpack_1 :: "byte list \<Rightarrow> u32 list" where
  "unpack_1 dp =
     (let q0 = drop_bit 7 (up (dp ! 0)); q1 = drop_bit 6 (up (dp ! 0)) AND 0x1; q2 = drop_bit 5 (up (dp ! 0)) AND 0x1;
          q3 = drop_bit 4 (up (dp ! 0)) AND 0x1; q4 = drop_bit 3 (up (dp ! 0)) AND 0x1; q5 = drop_bit 2 (up (dp ! 0)) AND 0x1;
          q6 = drop_bit 1 (up (dp ! 0)) AND 0x1; q7 = up (dp ! 0) AND 0x1
      in [q0, q1, q2, q3, q4, q5, q6, q7])"

definition pack_2 :: "u32 list \<Rightarrow> byte list" where
  "pack_2 p =
     (let v = lo (push_bit 6 (p ! 0)); v = v + lo (push_bit 4 (p ! 1)); v = v + lo (push_bit 2 (p ! 2)); r0 = v + lo (p ! 3);
          v = lo (push_bit 6 (p ! 4)); v = v + lo (push_bit 4 (p ! 5)); v = v + lo (push_bit 2 (p ! 6)); r1 = v + lo (p ! 7)
      in [r0, r1])"

definition unpack_2 :: "byte list \<Rightarrow> u32 list" where
  "unpack_2 dp =
     (let q0 = drop_bit 6 (up (dp ! 0)); q1 = drop_bit 4 (up (dp ! 0)) AND 0x3; q2 = drop_bit 2 (up (dp ! 0)) AND 0x3;
          q3 = up (dp ! 0) AND 0x3; q4 = drop_bit 6 (up (dp ! 1)); q5 = drop_bit 4 (up (dp ! 1)) AND 0x3;
          q6 = drop_bit 2 (up (dp ! 1)) AND 0x3; q7 = up (dp ! 1) AND 0x3
      in [q0, q1, q2, q3, q4, q5, q6, q7])"

definition pack_3 :: "u32 list \<Rightarrow> byte list" where
  "pack_3 p =
     (let v = lo (push_bit 5 (p ! 0)); v = v + lo (push_bit 2 (p ! 1)); r0 = v + lo (drop_bit 1 (p ! 2));
          v = lo (push_bit 7 (p ! 2)); v = v + lo (push_bit 4 (p ! 3)); v = v + lo (push_bit 1 (p ! 4));
          r1 = v + lo (drop_bit 2 (p ! 5)); v = lo (push_bit 6 (p ! 5)); v = v + lo (push_bit 3 (p ! 6)); r2 = v + lo (p ! 7)
      in [r0, r1, r2])"

definition unpack_3 :: "byte list \<Rightarrow> u32 list" where
  "unpack_3 dp =
     (let q0 = drop_bit 5 (up (dp ! 0)); q1 = drop_bit 2 (up (dp ! 0)) AND 0x7; v = push_bit 1 (up (dp ! 0)) AND 0x7;
          q2 = v + drop_bit 7 (up (dp ! 1)); q3 = drop_bit 4 (up (dp ! 1)) AND 0x7; q4 = drop_bit 1 (up (dp ! 1)) AND 0x7;
          v = push_bit 2 (up (dp ! 1)) AND 0x7; q5 = v + drop_bit 6 (up (dp ! 2)); q6 = drop_bit 3 (up (dp ! 2)) AND 0x7;
          q7 = up (dp ! 2) AND 0x7
      in [q0, q1, q2, q3, q4, q5, q6, q7])"

definition pack_4 :: "u32 list \<Rightarrow> byte list" where
  "pack_4 p =
     (let v = lo (push_bit 4 (p ! 0)); r0 = v + lo (p ! 1); v = lo (push_bit 4 (p ! 2)); r1 = v + lo (p ! 3);
          v = lo (push_bit 4 (p ! 4)); r2 = v + lo (p ! 5); v = lo (push_bit 4 (p ! 6)); r3 = v + lo (p ! 7)
      in [r0, r1, r2, r3])"

definition unpack_4 :: "byte list \<Rightarrow> u32 list" where
  "unpack_4 dp =
     (let q0 = drop_bit 4 (up (dp ! 0)); q1 = up (dp ! 0) AND 0xf; q2 = drop_bit 4 (up (dp ! 1)); q3 = up (dp ! 1) AND 0xf;
          q4 = drop_bit 4 (up (dp ! 2)); q5 = up (dp ! 2) AND 0xf; q6 = drop_bit 4 (up (dp ! 3)); q7 = up (dp ! 3) AND 0xf
      in [q0, q1, q2, q3, q4, q5, q6, q7])"

definition pack_5 :: "u32 list \<Rightarrow> byte list" where
  "pack_5 p =
     (let v = lo (push_bit 3 (p ! 0)); r0 = v + lo (drop_bit 2 (p ! 1)); v = lo (push_bit 6 (p ! 1));
          v = v + lo (push_bit 1 (p ! 2)); r1 = v + lo (drop_bit 4 (p ! 3)); v = lo (push_bit 4 (p ! 3));
          r2 = v + lo (drop_bit 1 (p ! 4)); v = lo (push_bit 7 (p ! 4)); v = v + lo (push_bit 2 (p ! 5));
          r3 = v + lo (drop_bit 3 (p ! 6)); v = lo (push_bit 5 (p ! 6)); r4 = v + lo (p ! 7)
      in [r0, r1, r2, r3, r4])"

definition unpack_5 :: "byte list \<Rightarrow> u32 list" where
  "unpack_5 dp =
     (let q0 = drop_bit 3 (up (dp ! 0)); v = push_bit 2 (up (dp ! 0)) AND 0x1f; q1 = v + drop_bit 6 (up (dp ! 1));
          q2 = drop_bit 1 (up (dp ! 1)) AND 0x1f; v = push_bit 4 (up (dp ! 1)) AND 0x1f; q3 = v + drop_bit 4 (up (dp ! 2));
          v = push_bit 1 (up (dp ! 2)) AND 0x1f; q4 = v + drop_bit 7 (up (dp ! 3)); q5 = drop_bit 2 (up (dp ! 3)) AND 0x1f;
          v = push_bit 3 (up (dp ! 3)) AND 0x1f; q6 = v + drop_bit 5 (up (dp ! 4)); q7 = up (dp ! 4) AND 0x1f
      in [q0, q1, q2, q3, q4, q5, q6, q7])"

definition pack_6 :: "u32 list \<Rightarrow> byte list" where
  "pack_6 p =
     (let v = lo (push_bit 2 (p ! 0)); r0 = v + lo (drop_bit 4 (p ! 1)); v = lo (push_bit 4 (p ! 1));
          r1 = v + lo (drop_bit 2 (p ! 2)); v = lo (push_bit 6 (p ! 2)); r2 = v + lo (p ! 3); v = lo (push_bit 2 (p ! 4));
          r3 = v + lo (drop_bit 4 (p ! 5)); v = lo (push_bit 4 (p ! 5)); r4 = v + lo (drop_bit 2 (p ! 6));
          v = lo (push_bit 6 (p ! 6)); r5 = v + lo (p ! 7)
      in [r0, r1, r2, r3, r4, r5])"

definition unpack_6 :: "byte list \<Rightarrow> u32 list" where
  "unpack_6 dp =
     (let q0 = drop_bit 2 (up (dp ! 0)); v = push_bit 4 (up (dp ! 0)) AND 0x3f; q1 = v + drop_bit 4 (up (dp ! 1));
          v = push_bit 2 (up (dp ! 1)) AND 0x3f; q2 = v + drop_bit 6 (up (dp ! 2)); q3 = up (dp ! 2) AND 0x3f;
          q4 = drop_bit 2 (up (dp ! 3)); v = push_bit 4 (up (dp ! 3)) AND 0x3f; q5 = v + drop_bit 4 (up (dp ! 4));
          v = push_bit 2 (up (dp ! 4)) AND 0x3f; q6 = v + drop_bit 6 (up (dp ! 5)); q7 = up (dp ! 5) AND 0x3f
      in [q0, q1, q2, q3, q4, q5, q6, q7])"

definition pack_7 :: "u32 list \<Rightarrow> byte list" where
  "pack_7 p =
     (let v = lo (push_bit 1 (p ! 0)); r0 = v + lo (drop_bit 6 (p ! 1)); v = lo (push_bit 2 (p ! 1));
          r1 = v + lo (drop_bit 5 (p ! 2)); v = lo (push_bit 3 (p ! 2)); r2 = v + lo (drop_bit 4 (p ! 3));
          v = lo (push_bit 4 (p ! 3)); r3 = v + lo (drop_bit 3 (p ! 4)); v = lo (push_bit 5 (p ! 4));
          r4 = v + lo (drop_bit 2 (p ! 5)); v = lo (push_bit 6 (p ! 5)); r5 = v + lo (drop_bit 1 (p ! 6));
          v = lo (push_bit 7 (p ! 6)); r6 = v + lo (p ! 7)
      in [r0, r1, r2, r3, r4, r5, r6])"

definition unpack_7 :: "byte list \<Rightarrow> u32 list" where
  "unpack_7 dp =
     (let q0 = drop_bit 1 (up (dp ! 0)); v = push_bit 6 (up (dp ! 0)) AND 0x7f; q1 = v + drop_bit 2 (up (dp ! 1));
          v = push_bit 5 (up (dp ! 1)) AND 0x7f; q2 = v + drop_bit 3 (up (dp ! 2)); v = push_bit 4 (up (dp ! 2)) AND 0x7f;
          q3 = v + drop_bit 4 (up (dp ! 3)); v = push_bit 3 (up (dp ! 3)) AND 0x7f; q4 = v + drop_bit 5 (up (dp ! 4));
          v = push_bit 2 (up (dp ! 4)) AND 0x7f; q5 = v + drop_bit 6 (up (dp ! 5)); v = push_bit 1 (up (dp ! 5)) AND 0x7f;
          q6 = v + drop_bit 7 (up (dp ! 6)); q7 = up (dp ! 6) AND 0x7f
      in [q0, q1, q2, q3, q4, q5, q6, q7])"

definition pack_8 :: "u32 list \<Rightarrow> byte list" where
  "pack_8 p =
     (let r0 = lo (p ! 0); r1 = lo (p ! 1); r2 = lo (p ! 2); r3 = lo (p ! 3); r4 = lo (p ! 4); r5 = lo (p ! 5);
          r6 = lo (p ! 6); r7 = lo (p ! 7)
      in [r0, r1, r2, r3, r4, r5, r6, r7])"

definition unpack_8 :: "byte list \<Rightarrow> u32 list" where
  "unpack_8 dp =
     (let q0 = up (dp ! 0); q1 = up (dp ! 1); q2 = up (dp ! 2); q3 = up (dp ! 3); q4 = up (dp ! 4); q5 = up (dp ! 5);
          q6 = up (dp ! 6); q7 = up (dp ! 7)
      in [q0, q1, q2, q3, q4, q5, q6, q7])"

definition pack_9 :: "u32 list \<Rightarrow> byte list" where
  "pack_9 p =
     (let r0 = lo (drop_bit 1 (p ! 0)); v = lo (push_bit 7 (p ! 0)); r1 = v + lo (drop_bit 2 (p ! 1));
          v = lo (push_bit 6 (p ! 1)); r2 = v + lo (drop_bit 3 (p ! 2)); v = lo (push_bit 5 (p ! 2));
          r3 = v + lo (drop_bit 4 (p ! 3)); v = lo (push_bit 4 (p ! 3)); r4 = v + lo (drop_bit 5 (p ! 4));
          v = lo (push_bit 3 (p ! 4)); r5 = v + lo (drop_bit 6 (p ! 5)); v = lo (push_bit 2 (p ! 5));
          r6 = v + lo (drop_bit 7 (p ! 6)); v = lo (push_bit 1 (p ! 6)); r7 = v + lo (drop_bit 8 (p ! 7)); r8 = lo (p ! 7)
      in [r0, r1, r2, r3, r4, r5, r6, r7, r8])"

definition unpack_9 :: "byte list \<Rightarrow> u32 list" where
  "unpack_9 dp =
     (let v = push_bit 1 (up (dp ! 0)); q0 = v + drop_bit 7 (up (dp ! 1)); v = push_bit 2 (up (dp ! 1)) AND 0x1ff;
          q1 = v + drop_bit 6 (up (dp ! 2)); v = push_bit 3 (up (dp ! 2)) AND 0x1ff; q2 = v + drop_bit 5 (up (dp ! 3));
          v = push_bit 4 (up (dp ! 3)) AND 0x1ff; q3 = v + drop_bit 4 (up (dp ! 4)); v = push_bit 5 (up (dp ! 4)) AND 0x1ff;
          q4 = v + drop_bit 3 (up (dp ! 5)); v = push_bit 6 (up (dp ! 5)) AND 0x1ff; q5 = v + drop_bit 2 (up (dp ! 6));
          v = push_bit 7 (up (dp ! 6)) AND 0x1ff; q6 = v + drop_bit 1 (up (dp ! 7)); v = push_bit 8 (up (dp ! 7)) AND 0x1ff;
          q7 = v + up (dp ! 8)
      in [q0, q1, q2, q3, q4, q5, q6, q7])"

definition pack_10 :: "u32 list \<Rightarrow> byte list" where
  "pack_10 p =
     (let r0 = lo (drop_bit 2 (p ! 0)); v = lo (push_bit 6 (p ! 0)); r1 = v + lo (drop_bit 4 (p ! 1));
          v = lo (push_bit 4 (p ! 1)); r2 = v + lo (drop_bit 6 (p ! 2)); v = lo (push_bit 2 (p ! 2));
          r3 = v + lo (drop_bit 8 (p ! 3)); r4 = lo (p ! 3); r5 = lo (drop_bit 2 (p ! 4)); v = lo (push_bit 6 (p ! 4));
          r6 = v + lo (drop_bit 4 (p ! 5)); v = lo (push_bit 4 (p ! 5)); r7 = v + lo (drop_bit 6 (p ! 6));
          v = lo (push_bit 2 (p ! 6)); r8 = v + lo (drop_bit 8 (p ! 7)); r9 = lo (p ! 7)
      in [r0, r1, r2, r3, r4, r5, r6, r7, r8, r9])"

definition unpack_10 :: "byte list \<Rightarrow> u32 list" where
  "unpack_10 dp =
     (let v = push_bit 2 (up (dp ! 0)); q0 = v + drop_bit 6 (up (dp ! 1)); v = push_bit 4 (up (dp ! 1)) AND 0x3ff;
          q1 = v + drop_bit 4 (up (dp ! 2)); v = push_bit 6 (up (dp ! 2)) AND 0x3ff; q2 = v + drop_bit 2 (up (dp ! 3));
          v = push_bit 8 (up (dp ! 3)) AND 0x3ff; q3 = v + up (dp ! 4); v = push_bit 2 (up (dp ! 5));
          q4 = v + drop_bit 6 (up (dp ! 6)); v = push_bit 4 (up (dp ! 6)) AND 0x3ff; q5 = v + drop_bit 4 (up (dp ! 7));
          v = push_bit 6 (up (dp ! 7)) AND 0x3ff; q6 = v + drop_bit 2 (up (dp ! 8)); v = push_bit 8 (up (dp ! 8)) AND 0x3ff;
          q7 = v + up (dp ! 9)
      in [q0, q1, q2, q3, q4, q5, q6, q7])"

definition pack_11 :: "u32 list \<Rightarrow> byte list" where
  "pack_11 p =
     (let r0 = lo (drop_bit 3 (p ! 0)); v = lo (push_bit 5 (p ! 0)); r1 = v + lo (drop_bit 6 (p ! 1));
          v = lo (push_bit 2 (p ! 1)); r2 = v + lo (drop_bit 9 (p ! 2)); r3 = lo (drop_bit 1 (p ! 2));
          v = lo (push_bit 7 (p ! 2)); r4 = v + lo (drop_bit 4 (p ! 3)); v = lo (push_bit 4 (p ! 3));
          r5 = v + lo (drop_bit 7 (p ! 4)); v = lo (push_bit 1 (p ! 4)); r6 = v + lo (drop_bit 10 (p ! 5));
          r7 = lo (drop_bit 2 (p ! 5)); v = lo (push_bit 6 (p ! 5)); r8 = v + lo (drop_bit 5 (p ! 6));
          v = lo (push_bit 3 (p ! 6)); r9 = v + lo (drop_bit 8 (p ! 7)); r10 = lo (p ! 7)
      in [r0, r1, r2, r3, r4, r5, r6, r7, r8, r9, r10])"

definition unpack_11 :: "byte list \<Rightarrow> u32 list" where
  "unpack_11 dp =
     (let v = push_bit 3 (up (dp ! 0)); q0 = v + drop_bit 5 (up (dp ! 1)); v = push_bit 6 (up (dp ! 1)) AND 0x7ff;
          q1 = v + drop_bit 2 (up (dp ! 2)); v = push_bit 9 (up (dp ! 2)) AND 0x7ff; v = v + push_bit 1 (up (dp ! 3));
          q2 = v + drop_bit 7 (up (dp ! 4)); v = push_bit 4 (up (dp ! 4)) AND 0x7ff; q3 = v + drop_bit 4 (up (dp ! 5));
          v = push_bit 7 (up (dp ! 5)) AND 0x7ff; q4 = v + drop_bit 1 (up (dp ! 6)); v = push_bit 10 (up (dp ! 6)) AND 0x7ff;
          v = v + push_bit 2 (up (dp ! 7)); q5 = v + drop_bit 6 (up (dp ! 8)); v = push_bit 5 (up (dp ! 8)) AND 0x7ff;
          q6 = v + drop_bit 3 (up (dp ! 9)); v = push_bit 8 (up (dp ! 9)) AND 0x7ff; q7 = v + up (dp ! 10)
      in [q0, q1, q2, q3, q4, q5, q6, q7])"

definition pack_12 :: "u32 list \<Rightarrow> byte list" where
  "pack_12 p =
     (let r0 = lo (drop_bit 4 (p ! 0)); v = lo (push_bit 4 (p ! 0)); r1 = v + lo (drop_bit 8 (p ! 1)); r2 = lo (p ! 1);
          r3 = lo (drop_bit 4 (p ! 2)); v = lo (push_bit 4 (p ! 2)); r4 = v + lo (drop_bit 8 (p ! 3)); r5 = lo (p ! 3);
          r6 = lo (drop_bit 4 (p ! 4)); v = lo (push_bit 4 (p ! 4)); r7 = v + lo (drop_bit 8 (p ! 5)); r8 = lo (p ! 5);
          r9 = lo (drop_bit 4 (p ! 6)); v = lo (push_bit 4 (p ! 6)); r10 = v + lo (drop_bit 8 (p ! 7)); r11 = lo (p ! 7)
      in [r0, r1, r2, r3, r4, r5, r6, r7, r8, r9, r10, r11])"

definition unpack_12 :: "byte list \<Rightarrow> u32 list" where
  "unpack_12 dp =
     (let v = push_bit 4 (up (dp ! 0)); q0 = v + drop_bit 4 (up (dp ! 1)); v = push_bit 8 (up (dp ! 1)) AND 0xfff;
          q1 = v + up (dp ! 2); v = push_bit 4 (up (dp ! 3)); q2 = v + drop_bit 4 (up (dp ! 4));
          v = push_bit 8 (up (dp ! 4)) AND 0xfff; q3 = v + up (dp ! 5); v = push_bit 4 (up (dp ! 6));
          q4 = v + drop_bit 4 (up (dp ! 7)); v = push_bit 8 (up (dp ! 7)) AND 0xfff; q5 = v + up (dp ! 8);
          v = push_bit 4 (up (dp ! 9)); q6 = v + drop_bit 4 (up (dp ! 10)); v = push_bit 8 (up (dp ! 10)) AND 0xfff;
          q7 = v + up (dp ! 11)
      in [q0, q1, q2, q3, q4, q5, q6, q7])"

definition pack_13 :: "u32 list \<Rightarrow> byte list" where
  "pack_13 p =
     (let r0 = lo (drop_bit 5 (p ! 0)); v = lo (push_bit 3 (p ! 0)); r1 = v + lo (drop_bit 10 (p ! 1));
          r2 = lo (drop_bit 2 (p ! 1)); v = lo (push_bit 6 (p ! 1)); r3 = v + lo (drop_bit 7 (p ! 2));
          v = lo (push_bit 1 (p ! 2)); r4 = v + lo (drop_bit 12 (p ! 3)); r5 = lo (drop_bit 4 (p ! 3));
          v = lo (push_bit 4 (p ! 3)); r6 = v + lo (drop_bit 9 (p ! 4)); r7 = lo (drop_bit 1 (p ! 4));
          v = lo (push_bit 7 (p ! 4)); r8 = v + lo (drop_bit 6 (p ! 5)); v = lo (push_bit 2 (p ! 5));
          r9 = v + lo (drop_bit 11 (p ! 6)); r10 = lo (drop_bit 3 (p ! 6)); v = lo (push_bit 5 (p ! 6));
          r11 = v + lo (drop_bit 8 (p ! 7)); r12 = lo (p ! 7)
      in [r0, r1, r2, r3, r4, r5, r6, r7, r8, r9, r10, r11, r12])"

definition unpack_13 :: "byte list \<Rightarrow> u32 list" where
  "unpack_13 dp =
     (let v = push_bit 5 (up (dp ! 0)); q0 = v + drop_bit 3 (up (dp ! 1)); v = push_bit 10 (up (dp ! 1)) AND 0x1fff;
          v = v + push_bit 2 (up (dp ! 2)); q1 = v + drop_bit 6 (up (dp ! 3)); v = push_bit 7 (up (dp ! 3)) AND 0x1fff;
          q2 = v + drop_bit 1 (up (dp ! 4)); v = push_bit 12 (up (dp ! 4)) AND 0x1fff; v = v + push_bit 4 (up (dp ! 5));
          q3 = v + drop_bit 4 (up (dp ! 6)); v = push_bit 9 (up (dp ! 6)) AND 0x1fff; v = v + push_bit 1 (up (dp ! 7));
          q4 = v + drop_bit 7 (up (dp ! 8)); v = push_bit 6 (up (dp ! 8)) AND 0x1fff; q5 = v + drop_bit 2 (up (dp ! 9));
          v = push_bit 11 (up (dp ! 9)) AND 0x1fff; v = v + push_bit 3 (up (dp ! 10)); q6 = v + drop_bit 5 (up (dp ! 11));
          v = push_bit 8 (up (dp ! 11)) AND 0x1fff; q7 = v + up (dp ! 12)
      in [q0, q1, q2, q3, q4, q5, q6, q7])"

definition pack_14 :: "u32 list \<Rightarrow> byte list" where
  "pack_14 p =
     (let r0 = lo (drop_bit 6 (p ! 0)); v = lo (push_bit 2 (p ! 0)); r1 = v + lo (drop_bit 12 (p ! 1));
          r2 = lo (drop_bit 4 (p ! 1)); v = lo (push_bit 4 (p ! 1)); r3 = v + lo (drop_bit 10 (p ! 2));
          r4 = lo (drop_bit 2 (p ! 2)); v = lo (push_bit 6 (p ! 2)); r5 = v + lo (drop_bit 8 (p ! 3)); r6 = lo (p ! 3);
          r7 = lo (drop_bit 6 (p ! 4)); v = lo (push_bit 2 (p ! 4)); r8 = v + lo (drop_bit 12 (p ! 5));
          r9 = lo (drop_bit 4 (p ! 5)); v = lo (push_bit 4 (p ! 5)); r10 = v + lo (drop_bit 10 (p ! 6));
          r11 = lo (drop_bit 2 (p ! 6)); v = lo (push_bit 6 (p ! 6)); r12 = v + lo (drop_bit 8 (p ! 7)); r13 = lo (p ! 7)
      in [r0, r1, r2, r3, r4, r5, r6, r7, r8, r9, r10, r11, r12, r13])"

definition unpack_14 :: "byte list \<Rightarrow> u32 list" where
  "unpack_14 dp =
     (let v = push_bit 6 (up (dp ! 0)); q0 = v + drop_bit 2 (up (dp ! 1)); v = push_bit 12 (up (dp ! 1)) AND 0x3fff;
          v = v + push_bit 4 (up (dp ! 2)); q1 = v + drop_bit 4 (up (dp ! 3)); v = push_bit 10 (up (dp ! 3)) AND 0x3fff;
          v = v + push_bit 2 (up (dp ! 4)); q2 = v + drop_bit 6 (up (dp ! 5)); v = push_bit 8 (up (dp ! 5)) AND 0x3fff;
          q3 = v + up (dp ! 6); v = push_bit 6 (up (dp ! 7)); q4 = v + drop_bit 2 (up (dp ! 8));
          v = push_bit 12 (up (dp ! 8)) AND 0x3fff; v = v + push_bit 4 (up (dp ! 9)); q5 = v + drop_bit 4 (up (dp ! 10));
          v = push_bit 10 (up (dp ! 10)) AND 0x3fff; v = v + push_bit 2 (up (dp ! 11)); q6 = v + drop_bit 6 (up (dp ! 12));
          v = push_bit 8 (up (dp ! 12)) AND 0x3fff; q7 = v + up (dp ! 13)
      in [q0, q1, q2, q3, q4, q5, q6, q7])"

definition pack_15 :: "u32 list \<Rightarrow> byte list" where
  "pack_15 p =
     (let r0 = lo (drop_bit 7 (p ! 0)); v = lo (push_bit 1 (p ! 0)); r1 = v + lo (drop_bit 14 (p ! 1));
          r2 = lo (drop_bit 6 (p ! 1)); v = lo (push_bit 2 (p ! 1)); r3 = v + lo (drop_bit 13 (p ! 2));
          r4 = lo (drop_bit 5 (p ! 2)); v = lo (push_bit 3 (p ! 2)); r5 = v + lo (drop_bit 12 (p ! 3));
          r6 = lo (drop_bit 4 (p ! 3)); v = lo (push_bit 4 (p ! 3)); r7 = v + lo (drop_bit 11 (p ! 4));
          r8 = lo (drop_bit 3 (p ! 4)); v = lo (push_bit 5 (p ! 4)); r9 = v + lo (drop_bit 10 (p ! 5));
          r10 = lo (drop_bit 2 (p ! 5)); v = lo (push_bit 6 (p ! 5)); r11 = v + lo (drop_bit 9 (p ! 6));
          r12 = lo (drop_bit 1 (p ! 6)); v = lo (push_bit 7 (p ! 6)); r13 = v + lo (drop_bit 8 (p ! 7)); r14 = lo (p ! 7)
      in [r0, r1, r2, r3, r4, r5, r6, r7, r8, r9, r10, r11, r12, r13, r14])"

definition unpack_15 :: "byte list \<Rightarrow> u32 list" where
  "unpack_15 dp =
     (let v = push_bit 7 (up (dp ! 0)); q0 = v + drop_bit 1 (up (dp ! 1)); v = push_bit 14 (up (dp ! 1)) AND 0x7fff;
          v = v + push_bit 6 (up (dp ! 2)); q1 = v + drop_bit 2 (up (dp ! 3)); v = push_bit 13 (up (dp ! 3)) AND 0x7fff;
          v = v + push_bit 5 (up (dp ! 4)); q2 = v + drop_bit 3 (up (dp ! 5)); v = push_bit 12 (up (dp ! 5)) AND 0x7fff;
          v = v + push_bit 4 (up (dp ! 6)); q3 = v + drop_bit 4 (up (dp ! 7)); v = push_bit 11 (up (dp ! 7)) AND 0x7fff;
          v = v + push_bit 3 (up (dp ! 8)); q4 = v + drop_bit 5 (up (dp ! 9)); v = push_bit 10 (up (dp ! 9)) AND 0x7fff;
          v = v + push_bit 2 (up (dp ! 10)); q5 = v + drop_bit 6 (up (dp ! 11)); v = push_bit 9 (up (dp ! 11)) AND 0x7fff;
          v = v + push_bit 1 (up (dp ! 12)); q6 = v + drop_bit 7 (up (dp ! 13)); v = push_bit 8 (up (dp ! 13)) AND 0x7fff;
          q7 = v + up (dp ! 14)
      in [q0, q1, q2, q3, q4, q5, q6, q7])"

definition pack_16 :: "u32 list \<Rightarrow> byte list" where
  "pack_16 p =
     (let r0 = lo (drop_bit 8 (p ! 0)); r1 = lo (p ! 0); r2 = lo (drop_bit 8 (p ! 1)); r3 = lo (p ! 1);
          r4 = lo (drop_bit 8 (p ! 2)); r5 = lo (p ! 2); r6 = lo (drop_bit 8 (p ! 3)); r7 = lo (p ! 3);
          r8 = lo (drop_bit 8 (p ! 4)); r9 = lo (p ! 4); r10 = lo (drop_bit 8 (p ! 5)); r11 = lo (p ! 5);
          r12 = lo (drop_bit 8 (p ! 6)); r13 = lo (p ! 6); r14 = lo (drop_bit 8 (p ! 7)); r15 = lo (p ! 7)
      in [r0, r1, r2, r3, r4, r5, r6, r7, r8, r9, r10, r11, r12, r13, r14, r15])"

definition unpack_16 :: "byte list \<Rightarrow> u32 list" where
  "unpack_16 dp =
     (let v = push_bit 8 (up (dp ! 0)); q0 = v + up (dp ! 1); v = push_bit 8 (up (dp ! 2)); q1 = v + up (dp ! 3);
          v = push_bit 8 (up (dp ! 4)); q2 = v + up (dp ! 5); v = push_bit 8 (up (dp ! 6)); q3 = v + up (dp ! 7);
          v = push_bit 8 (up (dp ! 8)); q4 = v + up (dp ! 9); v = push_bit 8 (up (dp ! 10)); q5 = v + up (dp ! 11);
          v = push_bit 8 (up (dp ! 12)); q6 = v + up (dp ! 13); v = push_bit 8 (up (dp ! 14)); q7 = v + up (dp ! 15)
      in [q0, q1, q2, q3, q4, q5, q6, q7])"

definition pack_17 :: "u32 list \<Rightarrow> byte list" where
  "pack_17 p =
     (let r0 = lo (drop_bit 9 (p ! 0)); r1 = lo (drop_bit 1 (p ! 0)); v = lo (push_bit 7 (p ! 0));
          r2 = v + lo (drop_bit 10 (p ! 1)); r3 = lo (drop_bit 2 (p ! 1)); v = lo (push_bit 6 (p ! 1));
          r4 = v + lo (drop_bit 11 (p ! 2)); r5 = lo (drop_bit 3 (p ! 2)); v = lo (push_bit 5 (p ! 2));
          r6 = v + lo (drop_bit 12 (p ! 3)); r7 = lo (drop_bit 4 (p ! 3)); v = lo (push_bit 4 (p ! 3));
          r8 = v + lo (drop_bit 13 (p ! 4)); r9 = lo (drop_bit 5 (p ! 4)); v = lo (push_bit 3 (p ! 4));
          r10 = v + lo (drop_bit 14 (p ! 5)); r11 = lo (drop_bit 6 (p ! 5)); v = lo (push_bit 2 (p ! 5));
          r12 = v + lo (drop_bit 15 (p ! 6)); r13 = lo (drop_bit 7 (p ! 6)); v = lo (push_bit 1 (p ! 6));
          r14 = v + lo (drop_bit 16 (p ! 7)); r15 = lo (drop_bit 8 (p ! 7)); r16 = lo (p ! 7)
      in [r0, r1, r2, r3, r4, r5, r6, r7, r8, r9, r10, r11, r12, r13, r14, r15, r16])"

definition unpack_17 :: "byte list \<Rightarrow> u32 list" where
  "unpack_17 dp =
     (let v = push_bit 9 (up (dp ! 0)); v = v + push_bit 1 (up (dp ! 1)); q0 = v + drop_bit 7 (up (dp ! 2));
          v = push_bit 10 (up (dp ! 2)) AND 0x1ffff; v = v + push_bit 2 (up (dp ! 3)); q1 = v + drop_bit 6 (up (dp ! 4));
          v = push_bit 11 (up (dp ! 4)) AND 0x1ffff; v = v + push_bit 3 (up (dp ! 5)); q2 = v + drop_bit 5 (up (dp ! 6));
          v = push_bit 12 (up (dp ! 6)) AND 0x1ffff; v = v + push_bit 4 (up (dp ! 7)); q3 = v + drop_bit 4 (up (dp ! 8));
          v = push_bit 13 (up (dp ! 8)) AND 0x1ffff; v = v + push_bit 5 (up (dp ! 9)); q4 = v + drop_bit 3 (up (dp ! 10));
          v = push_bit 14 (up (dp ! 10)) AND 0x1ffff; v = v + push_bit 6 (up (dp ! 11)); q5 = v + drop_bit 2 (up (dp ! 12));
          v = push_bit 15 (up (dp ! 12)) AND 0x1ffff; v = v + push_bit 7 (up (dp ! 13)); q6 = v + drop_bit 1 (up (dp ! 14));
          v = push_bit 16 (up (dp ! 14)) AND 0x1ffff; v = v + push_bit 8 (up (dp ! 15)); q7 = v + up (dp ! 16)
      in [q0, q1, q2, q3, q4, q5, q6, q7])"

definition pack_18 :: "u32 list \<Rightarrow> byte list" where
  "pack_18 p =
     (let r0 = lo (drop_bit 10 (p ! 0)); r1 = lo (drop_bit 2 (p ! 0)); v = lo (push_bit 6 (p ! 0));
          r2 = v + lo (drop_bit 12 (p ! 1)); r3 = lo (drop_bit 4 (p ! 1)); v = lo (push_bit 4 (p ! 1));
          r4 = v + lo (drop_bit 14 (p ! 2)); r5 = lo (drop_bit 6 (p ! 2)); v = lo (push_bit 2 (p ! 2));
          r6 = v + lo (drop_bit 16 (p ! 3)); r7 = lo (drop_bit 8 (p ! 3)); r8 = lo (p ! 3); r9 = lo (drop_bit 10 (p ! 4));
          r10 = lo (drop_bit 2 (p ! 4)); v = lo (push_bit 6 (p ! 4)); r11 = v + lo (drop_bit 12 (p ! 5));
          r12 = lo (drop_bit 4 (p ! 5)); v = lo (push_bit 4 (p ! 5)); r13 = v + lo (drop_bit 14 (p ! 6));
          r14 = lo (drop_bit 6 (p ! 6)); v = lo (push_bit 2 (p ! 6)); r15 = v + lo (drop_bit 16 (p ! 7));
          r16 = lo (drop_bit 8 (p ! 7)); r17 = lo (p ! 7)
      in [r0, r1, r2, r3, r4, r5, r6, r7, r8, r9, r10, r11, r12, r13, r14, r15, r16, r17])"

definition unpack_18 :: "byte list \<Rightarrow> u32 list" where
  "unpack_18 dp =
     (let v = push_bit 10 (up (dp ! 0)); v = v + push_bit 2 (up (dp ! 1)); q0 = v + drop_bit 6 (up (dp ! 2));
          v = push_bit 12 (up (dp ! 2)) AND 0x3ffff; v = v + push_bit 4 (up (dp ! 3)); q1 = v + drop_bit 4 (up (dp ! 4));
          v = push_bit 14 (up (dp ! 4)) AND 0x3ffff; v = v + push_bit 6 (up (dp ! 5)); q2 = v + drop_bit 2 (up (dp ! 6));
          v = push_bit 16 (up (dp ! 6)) AND 0x3ffff; v = v + push_bit 8 (up (dp ! 7)); q3 = v + up (dp ! 8);
          v = push_bit 10 (up (dp ! 9)); v = v + push_bit 2 (up (dp ! 10)); q4 = v + drop_bit 6 (up (dp ! 11));
          v = push_bit 12 (up (dp ! 11)) AND 0x3ffff; v = v + push_bit 4 (up (dp ! 12)); q5 = v + drop_bit 4 (up (dp ! 13));
          v = push_bit 14 (up (dp ! 13)) AND 0x3ffff; v = v + push_bit 6 (up (dp ! 14)); q6 = v + drop_bit 2 (up (dp ! 15));
          v = push_bit 16 (up (dp ! 15)) AND 0x3ffff; v = v + push_bit 8 (up (dp ! 16)); q7 = v + up (dp ! 17)
      in [q0, q1, q2, q3, q4, q5, q6, q7])"

definition pack_19 :: "u32 list \<Rightarrow> byte list" where
  "pack_19 p =
     (let r0 = lo (drop_bit 11 (p ! 0)); r1 = lo (drop_bit 3 (p ! 0)); v = lo (push_bit 5 (p ! 0));
          r2 = v + lo (drop_bit 14 (p ! 1)); r3 = lo (drop_bit 6 (p ! 1)); v = lo (push_bit 2 (p ! 1));
          r4 = v + lo (drop_bit 17 (p ! 2)); r5 = lo (drop_bit 9 (p ! 2)); r6 = lo (drop_bit 1 (p ! 2));
          v = lo (push_bit 7 (p ! 2)); r7 = v + lo (drop_bit 12 (p ! 3)); r8 = lo (drop_bit 4 (p ! 3));
          v = lo (push_bit 4 (p ! 3)); r9 = v + lo (drop_bit 15 (p ! 4)); r10 = lo (drop_bit 7 (p ! 4));
          v = lo (push_bit 1 (p ! 4)); r11 = v + lo (drop_bit 18 (p ! 5)); r12 = lo (drop_bit 10 (p ! 5));
          r13 = lo (drop_bit 2 (p ! 5)); v = lo (push_bit 6 (p ! 5)); r14 = v + lo (drop_bit 13 (p ! 6));
          r15 = lo (drop_bit 5 (p ! 6)); v = lo (push_bit 3 (p ! 6)); r16 = v + lo (drop_bit 16 (p ! 7));
          r17 = lo (drop_bit 8 (p ! 7)); r18 = lo (p ! 7)
      in [r0, r1, r2, r3, r4, r5, r6, r7, r8, r9, r10, r11, r12, r13, r14, r15, r16, r17, r18])"

definition unpack_19 :: "byte list \<Rightarrow> u32 list" where
  "unpack_19 dp =
     (let v = push_bit 11 (up (dp ! 0)); v = v + push_bit 3 (up (dp ! 1)); q0 = v + drop_bit 5 (up (dp ! 2));
          v = push_bit 14 (up (dp ! 2)) AND 0x7ffff; v = v + push_bit 6 (up (dp ! 3)); q1 = v + drop_bit 2 (up (dp ! 4));
          v = push_bit 17 (up (dp ! 4)) AND 0x7ffff; v = v + push_bit 9 (up (dp ! 5)); v = v + push_bit 1 (up (dp ! 6));
          q2 = v + drop_bit 7 (up (dp ! 7)); v = push_bit 12 (up (dp ! 7)) AND 0x7ffff; v = v + push_bit 4 (up (dp ! 8));
          q3 = v + drop_bit 4 (up (dp ! 9)); v = push_bit 15 (up (dp ! 9)) AND 0x7ffff; v = v + push_bit 7 (up (dp ! 10));
          q4 = v + drop_bit 1 (up (dp ! 11)); v = push_bit 18 (up (dp ! 11)) AND 0x7ffff; v = v + push_bit 10 (up (dp ! 12));
          v = v + push_bit 2 (up (dp ! 13)); q5 = v + drop_bit 6 (up (dp ! 14)); v = push_bit 13 (up (dp ! 14)) AND 0x7ffff;
          v = v + push_bit 5 (up (dp ! 15)); q6 = v + drop_bit 3 (up (dp ! 16)); v = push_bit 16 (up (dp ! 16)) AND 0x7ffff;
          v = v + push_bit 8 (up (dp ! 17)); q7 = v + up (dp ! 18)
      in [q0, q1, q2, q3, q4, q5, q6, q7])"

definition pack_20 :: "u32 list \<Rightarrow> byte list" where
  "pack_20 p =
     (let r0 = lo (drop_bit 12 (p ! 0)); r1 = lo (drop_bit 4 (p ! 0)); v = lo (push_bit 4 (p ! 0));
          r2 = v + lo (drop_bit 16 (p ! 1)); r3 = lo (drop_bit 8 (p ! 1)); r4 = lo (p ! 1); r5 = lo (drop_bit 12 (p ! 2));
          r6 = lo (drop_bit 4 (p ! 2)); v = lo (push_bit 4 (p ! 2)); r7 = v + lo (drop_bit 16 (p ! 3));
          r8 = lo (drop_bit 8 (p ! 3)); r9 = lo (p ! 3); r10 = lo (drop_bit 12 (p ! 4)); r11 = lo (drop_bit 4 (p ! 4));
          v = lo (push_bit 4 (p ! 4)); r12 = v + lo (drop_bit 16 (p ! 5)); r13 = lo (drop_bit 8 (p ! 5)); r14 = lo (p ! 5);
          r15 = lo (drop_bit 12 (p ! 6)); r16 = lo (drop_bit 4 (p ! 6)); v = lo (push_bit 4 (p ! 6));
          r17 = v + lo (drop_bit 16 (p ! 7)); r18 = lo (drop_bit 8 (p ! 7)); r19 = lo (p ! 7)
      in [r0, r1, r2, r3, r4, r5, r6, r7, r8, r9, r10, r11, r12, r13, r14, r15, r16, r17, r18, r19])"

definition unpack_20 :: "byte list \<Rightarrow> u32 list" where
  "unpack_20 dp =
     (let v = push_bit 12 (up (dp ! 0)); v = v + push_bit 4 (up (dp ! 1)); q0 = v + drop_bit 4 (up (dp ! 2));
          v = push_bit 16 (up (dp ! 2)) AND 0xfffff; v = v + push_bit 8 (up (dp ! 3)); q1 = v + up (dp ! 4);
          v = push_bit 12 (up (dp ! 5)); v = v + push_bit 4 (up (dp ! 6)); q2 = v + drop_bit 4 (up (dp ! 7));
          v = push_bit 16 (up (dp ! 7)) AND 0xfffff; v = v + push_bit 8 (up (dp ! 8)); q3 = v + up (dp ! 9);
          v = push_bit 12 (up (dp ! 10)); v = v + push_bit 4 (up (dp ! 11)); q4 = v + drop_bit 4 (up (dp ! 12));
          v = push_bit 16 (up (dp ! 12)) AND 0xfffff; v = v + push_bit 8 (up (dp ! 13)); q5 = v + up (dp ! 14);
          v = push_bit 12 (up (dp ! 15)); v = v + push_bit 4 (up (dp ! 16)); q6 = v + drop_bit 4 (up (dp ! 17));
          v = push_bit 16 (up (dp ! 17)) AND 0xfffff; v = v + push_bit 8 (up (dp ! 18)); q7 = v + up (dp ! 19)
      in [q0, q1, q2, q3, q4, q5, q6, q7])"

definition pack_21 :: "u32 list \<Rightarrow> byte list" where
  "pack_21 p =
     (let r0 = lo (drop_bit 13 (p ! 0)); r1 = lo (drop_bit 5 (p ! 0)); v = lo (push_bit 3 (p ! 0));
          r2 = v + lo (drop_bit 18 (p ! 1)); r3 = lo (drop_bit 10 (p ! 1)); r4 = lo (drop_bit 2 (p ! 1));
          v = lo (push_bit 6 (p ! 1)); r5 = v + lo (drop_bit 15 (p ! 2)); r6 = lo (drop_bit 7 (p ! 2));
          v = lo (push_bit 1 (p ! 2)); r7 = v + lo (drop_bit 20 (p ! 3)); r8 = lo (drop_bit 12 (p ! 3));
          r9 = lo (drop_bit 4 (p ! 3)); v = lo (push_bit 4 (p ! 3)); r10 = v + lo (drop_bit 17 (p ! 4));
          r11 = lo (drop_bit 9 (p ! 4)); r12 = lo (drop_bit 1 (p ! 4)); v = lo (push_bit 7 (p ! 4));
          r13 = v + lo (drop_bit 14 (p ! 5)); r14 = lo (drop_bit 6 (p ! 5)); v = lo (push_bit 2 (p ! 5));
          r15 = v + lo (drop_bit 19 (p ! 6)); r16 = lo (drop_bit 11 (p ! 6)); r17 = lo (drop_bit 3 (p ! 6));
          v = lo (push_bit 5 (p ! 6)); r18 = v + lo (drop_bit 16 (p ! 7)); r19 = lo (drop_bit 8 (p ! 7)); r20 = lo (p ! 7)
      in [r0, r1, r2, r3, r4, r5, r6, r7, r8, r9, r10, r11, r12, r13, r14, r15, r16, r17, r18, r19, r20])"

definition unpack_21 :: "byte list \<Rightarrow> u32 list" where
  "unpack_21 dp =
     (let v = push_bit 13 (up (dp ! 0)); v = v + push_bit 5 (up (dp ! 1)); q0 = v + drop_bit 3 (up (dp ! 2));
          v = push_bit 18 (up (dp ! 2)) AND 0x1fffff; v = v + push_bit 10 (up (dp ! 3)); v = v + push_bit 2 (up (dp ! 4));
          q1 = v + drop_bit 6 (up (dp ! 5)); v = push_bit 15 (up (dp ! 5)) AND 0x1fffff; v = v + push_bit 7 (up (dp ! 6));
          q2 = v + drop_bit 1 (up (dp ! 7)); v = push_bit 20 (up (dp ! 7)) AND 0x1fffff; v = v + push_bit 12 (up (dp ! 8));
          v = v + push_bit 4 (up (dp ! 9)); q3 = v + drop_bit 4 (up (dp ! 10)); v = push_bit 17 (up (dp ! 10)) AND 0x1fffff;
          v = v + push_bit 9 (up (dp ! 11)); v = v + push_bit 1 (up (dp ! 12)); q4 = v + drop_bit 7 (up (dp ! 13));
          v = push_bit 14 (up (dp ! 13)) AND 0x1fffff; v = v + push_bit 6 (up (dp ! 14)); q5 = v + drop_bit 2 (up (dp ! 15));
          v = push_bit 19 (up (dp ! 15)) AND 0x1fffff; v = v + push_bit 11 (up (dp ! 16)); v = v + push_bit 3 (up (dp ! 17));
          q6 = v + drop_bit 5 (up (dp ! 18)); v = push_bit 16 (up (dp ! 18)) AND 0x1fffff; v = v + push_bit 8 (up (dp ! 19));
          q7 = v + up (dp ! 20)
      in [q0, q1, q2, q3, q4, q5, q6, q7])"

definition pack_22 :: "u32 list \<Rightarrow> byte list" where
  "pack_22 p =
     (let r0 = lo (drop_bit 14 (p ! 0)); r1 = lo (drop_bit 6 (p ! 0)); v = lo (push_bit 2 (p ! 0));
          r2 = v + lo (drop_bit 20 (p ! 1)); r3 = lo (drop_bit 12 (p ! 1)); r4 = lo (drop_bit 4 (p ! 1));
          v = lo (push_bit 4 (p ! 1)); r5 = v + lo (drop_bit 18 (p ! 2)); r6 = lo (drop_bit 10 (p ! 2));
          r7 = lo (drop_bit 2 (p ! 2)); v = lo (push_bit 6 (p ! 2)); r8 = v + lo (drop_bit 16 (p ! 3));
          r9 = lo (drop_bit 8 (p ! 3)); r10 = lo (p ! 3); r11 = lo (drop_bit 14 (p ! 4)); r12 = lo (drop_bit 6 (p ! 4));
          v = lo (push_bit 2 (p ! 4)); r13 = v + lo (drop_bit 20 (p ! 5)); r14 = lo (drop_bit 12 (p ! 5));
          r15 = lo (drop_bit 4 (p ! 5)); v = lo (push_bit 4 (p ! 5)); r16 = v + lo (drop_bit 18 (p ! 6));
          r17 = lo (drop_bit 10 (p ! 6)); r18 = lo (drop_bit 2 (p ! 6)); v = lo (push_bit 6 (p ! 6));
          r19 = v + lo (drop_bit 16 (p ! 7)); r20 = lo (drop_bit 8 (p ! 7)); r21 = lo (p ! 7)
      in [r0, r1, r2, r3, r4, r5, r6, r7, r8, r9, r10, r11, r12, r13, r14, r15, r16, r17, r18, r19, r20, r21])"

definition unpack_22 :: "byte list \<Rightarrow> u32 list" where
  "unpack_22 dp =
     (let v = push_bit 14 (up (dp ! 0)); v = v + push_bit 6 (up (dp ! 1)); q0 = v + drop_bit 2 (up (dp ! 2));
          v = push_bit 20 (up (dp ! 2)) AND 0x3fffff; v = v + push_bit 12 (up (dp ! 3)); v = v + push_bit 4 (up (dp ! 4));
          q1 = v + drop_bit 4 (up (dp ! 5)); v = push_bit 18 (up (dp ! 5)) AND 0x3fffff; v = v + push_bit 10 (up (dp ! 6));
          v = v + push_bit 2 (up (dp ! 7)); q2 = v + drop_bit 6 (up (dp ! 8)); v = push_bit 16 (up (dp ! 8)) AND 0x3fffff;
          v = v + push_bit 8 (up (dp ! 9)); q3 = v + up (dp ! 10); v = push_bit 14 (up (dp ! 11));
          v = v + push_bit 6 (up (dp ! 12)); q4 = v + drop_bit 2 (up (dp ! 13)); v = push_bit 20 (up (dp ! 13)) AND 0x3fffff;
          v = v + push_bit 12 (up (dp ! 14)); v = v + push_bit 4 (up (dp ! 15)); q5 = v + drop_bit 4 (up (dp ! 16));
          v = push_bit 18 (up (dp ! 16)) AND 0x3fffff; v = v + push_bit 10 (up (dp ! 17)); v = v + push_bit 2 (up (dp ! 18));
          q6 = v + drop_bit 6 (up (dp ! 19)); v = push_bit 16 (up (dp ! 19)) AND 0x3fffff; v = v + push_bit 8 (up (dp ! 20));
          q7 = v + up (dp ! 21)
      in [q0, q1, q2, q3, q4, q5, q6, q7])"

definition pack_23 :: "u32 list \<Rightarrow> byte list" where
  "pack_23 p =
     (let r0 = lo (drop_bit 15 (p ! 0)); r1 = lo (drop_bit 7 (p ! 0)); v = lo (push_bit 1 (p ! 0));
          r2 = v + lo (drop_bit 22 (p ! 1)); r3 = lo (drop_bit 14 (p ! 1)); r4 = lo (drop_bit 6 (p ! 1));
          v = lo (push_bit 2 (p ! 1)); r5 = v + lo (drop_bit 21 (p ! 2)); r6 = lo (drop_bit 13 (p ! 2));
          r7 = lo (drop_bit 5 (p ! 2)); v = lo (push_bit 3 (p ! 2)); r8 = v + lo (drop_bit 20 (p ! 3));
          r9 = lo (drop_bit 12 (p ! 3)); r10 = lo (drop_bit 4 (p ! 3)); v = lo (push_bit 4 (p ! 3));
          r11 = v + lo (drop_bit 19 (p ! 4)); r12 = lo (drop_bit 11 (p ! 4)); r13 = lo (drop_bit 3 (p ! 4));
          v = lo (push_bit 5 (p ! 4)); r14 = v + lo (drop_bit 18 (p ! 5)); r15 = lo (drop_bit 10 (p ! 5));
          r16 = lo (drop_bit 2 (p ! 5)); v = lo (push_bit 6 (p ! 5)); r17 = v + lo (drop_bit 17 (p ! 6));
          r18 = lo (drop_bit 9 (p ! 6)); r19 = lo (drop_bit 1 (p ! 6)); v = lo (push_bit 7 (p ! 6));
          r20 = v + lo (drop_bit 16 (p ! 7)); r21 = lo (drop_bit 8 (p ! 7)); r22 = lo (p ! 7)
      in [r0, r1, r2, r3, r4, r5, r6, r7, r8, r9, r10, r11, r12, r13, r14, r15, r16, r17, r18, r19, r20, r21, r22])"

definition unpack_23 :: "byte list \<Rightarrow> u32 list" where
  "unpack_23 dp =
     (let v = push_bit 15 (up (dp ! 0)); v = v + push_bit 7 (up (dp ! 1)); q0 = v + drop_bit 1 (up (dp ! 2));
          v = push_bit 22 (up (dp ! 2)) AND 0x7fffff; v = v + push_bit 14 (up (dp ! 3)); v = v + push_bit 6 (up (dp ! 4));
          q1 = v + drop_bit 2 (up (dp ! 5)); v = push_bit 21 (up (dp ! 5)) AND 0x7fffff; v = v + push_bit 13 (up (dp ! 6));
          v = v + push_bit 5 (up (dp ! 7)); q2 = v + drop_bit 3 (up (dp ! 8)); v = push_bit 20 (up (dp ! 8)) AND 0x7fffff;
          v = v + push_bit 12 (up (dp ! 9)); v = v + push_bit 4 (up (dp ! 10)); q3 = v + drop_bit 4 (up (dp ! 11));
          v = push_bit 19 (up (dp ! 11)) AND 0x7fffff; v = v + push_bit 11 (up (dp ! 12)); v = v + push_bit 3 (up (dp ! 13));
          q4 = v + drop_bit 5 (up (dp ! 14)); v = push_bit 18 (up (dp ! 14)) AND 0x7fffff; v = v + push_bit 10 (up (dp ! 15));
          v = v + push_bit 2 (up (dp ! 16)); q5 = v + drop_bit 6 (up (dp ! 17)); v = push_bit 17 (up (dp ! 17)) AND 0x7fffff;
          v = v + push_bit 9 (up (dp ! 18)); v = v + push_bit 1 (up (dp ! 19)); q6 = v + drop_bit 7 (up (dp ! 20));
          v = push_bit 16 (up (dp ! 20)) AND 0x7fffff; v = v + push_bit 8 (up (dp ! 21)); q7 = v + up (dp ! 22)
      in [q0, q1, q2, q3, q4, q5, q6, q7])"

definition pack_24 :: "u32 list \<Rightarrow> byte list" where
  "pack_24 p =
     (let r0 = lo (drop_bit 16 (p ! 0)); r1 = lo (drop_bit 8 (p ! 0)); r2 = lo (p ! 0); r3 = lo (drop_bit 16 (p ! 1));
          r4 = lo (drop_bit 8 (p ! 1)); r5 = lo (p ! 1); r6 = lo (drop_bit 16 (p ! 2)); r7 = lo (drop_bit 8 (p ! 2));
          r8 = lo (p ! 2); r9 = lo (drop_bit 16 (p ! 3)); r10 = lo (drop_bit 8 (p ! 3)); r11 = lo (p ! 3);
          r12 = lo (drop_bit 16 (p ! 4)); r13 = lo (drop_bit 8 (p ! 4)); r14 = lo (p ! 4); r15 = lo (drop_bit 16 (p ! 5));
          r16 = lo (drop_bit 8 (p ! 5)); r17 = lo (p ! 5); r18 = lo (drop_bit 16 (p ! 6)); r19 = lo (drop_bit 8 (p ! 6));
          r20 = lo (p ! 6); r21 = lo (drop_bit 16 (p ! 7)); r22 = lo (drop_bit 8 (p ! 7)); r23 = lo (p ! 7)
      in [r0, r1, r2, r3, r4, r5, r6, r7, r8, r9, r10, r11, r12, r13, r14, r15, r16, r17, r18, r19, r20, r21, r22, r23])"

definition unpack_24 :: "byte list \<Rightarrow> u32 list" where
  "unpack_24 dp =
     (let v = push_bit 16 (up (dp ! 0)); v = v + push_bit 8 (up (dp ! 1)); q0 = v + up (dp ! 2);
          v = push_bit 16 (up (dp ! 3)); v = v + push_bit 8 (up (dp ! 4)); q1 = v + up (dp ! 5);
          v = push_bit 16 (up (dp ! 6)); v = v + push_bit 8 (up (dp ! 7)); q2 = v + up (dp ! 8);
          v = push_bit 16 (up (dp ! 9)); v = v + push_bit 8 (up (dp ! 10)); q3 = v + up (dp ! 11);
          v = push_bit 16 (up (dp ! 12)); v = v + push_bit 8 (up (dp ! 13)); q4 = v + up (dp ! 14);
          v = push_bit 16 (up (dp ! 15)); v = v + push_bit 8 (up (dp ! 16)); q5 = v + up (dp ! 17);
          v = push_bit 16 (up (dp ! 18)); v = v + push_bit 8 (up (dp ! 19)); q6 = v + up (dp ! 20);
          v = push_bit 16 (up (dp ! 21)); v = v + push_bit 8 (up (dp ! 22)); q7 = v + up (dp ! 23)
      in [q0, q1, q2, q3, q4, q5, q6, q7])"

definition pack_25 :: "u32 list \<Rightarrow> byte list" where
  "pack_25 p =
     (let r0 = lo (drop_bit 17 (p ! 0)); r1 = lo (drop_bit 9 (p ! 0)); r2 = lo (drop_bit 1 (p ! 0));
          v = lo (push_bit 7 (p ! 0)); r3 = v + lo (drop_bit 18 (p ! 1)); r4 = lo (drop_bit 10 (p ! 1));
          r5 = lo (drop_bit 2 (p ! 1)); v = lo (push_bit 6 (p ! 1)); r6 = v + lo (drop_bit 19 (p ! 2));
          r7 = lo (drop_bit 11 (p ! 2)); r8 = lo (drop_bit 3 (p ! 2)); v = lo (push_bit 5 (p ! 2));
          r9 = v + lo (drop_bit 20 (p ! 3)); r10 = lo (drop_bit 12 (p ! 3)); r11 = lo (drop_bit 4 (p ! 3));
          v = lo (push_bit 4 (p ! 3)); r12 = v + lo (drop_bit 21 (p ! 4)); r13 = lo (drop_bit 13 (p ! 4));
          r14 = lo (drop_bit 5 (p ! 4)); v = lo (push_bit 3 (p ! 4)); r15 = v + lo (drop_bit 22 (p ! 5));
          r16 = lo (drop_bit 14 (p ! 5)); r17 = lo (drop_bit 6 (p ! 5)); v = lo (push_bit 2 (p ! 5));
          r18 = v + lo (drop_bit 23 (p ! 6)); r19 = lo (drop_bit 15 (p ! 6)); r20 = lo (drop_bit 7 (p ! 6));
          v = lo (push_bit 1 (p ! 6)); r21 = v + lo (drop_bit 24 (p ! 7)); r22 = lo (drop_bit 16 (p ! 7));
          r23 = lo (drop_bit 8 (p ! 7)); r24 = lo (p ! 7)
      in [r0, r1, r2, r3, r4, r5, r6, r7, r8, r9, r10, r11,
          r12, r13, r14, r15, r16, r17, r18, r19, r20, r21, r22, r23, r24])"

definition unpack_25 :: "byte list \<Rightarrow> u32 list" where
  "unpack_25 dp =
     (let v = push_bit 17 (up (dp ! 0)); v = v + push_bit 9 (up (dp ! 1)); v = v + push_bit 1 (up (dp ! 2));
          q0 = v + drop_bit 7 (up (dp ! 3)); v = push_bit 18 (up (dp ! 3)) AND 0x1ffffff; v = v + push_bit 10 (up (dp ! 4));
          v = v + push_bit 2 (up (dp ! 5)); q1 = v + drop_bit 6 (up (dp ! 6)); v = push_bit 19 (up (dp ! 6)) AND 0x1ffffff;
          v = v + push_bit 11 (up (dp ! 7)); v = v + push_bit 3 (up (dp ! 8)); q2 = v + drop_bit 5 (up (dp ! 9));
          v = push_bit 20 (up (dp ! 9)) AND 0x1ffffff; v = v + push_bit 12 (up (dp ! 10)); v = v + push_bit 4 (up (dp ! 11));
          q3 = v + drop_bit 4 (up (dp ! 12)); v = push_bit 21 (up (dp ! 12)) AND 0x1ffffff;
          v = v + push_bit 13 (up (dp ! 13)); v = v + push_bit 5 (up (dp ! 14)); q4 = v + drop_bit 3 (up (dp ! 15));
          v = push_bit 22 (up (dp ! 15)) AND 0x1ffffff; v = v + push_bit 14 (up (dp ! 16)); v = v + push_bit 6 (up (dp ! 17));
          q5 = v + drop_bit 2 (up (dp ! 18)); v = push_bit 23 (up (dp ! 18)) AND 0x1ffffff;
          v = v + push_bit 15 (up (dp ! 19)); v = v + push_bit 7 (up (dp ! 20)); q6 = v + drop_bit 1 (up (dp ! 21));
          v = push_bit 24 (up (dp ! 21)) AND 0x1ffffff; v = v + push_bit 16 (up (dp ! 22)); v = v + push_bit 8 (up (dp ! 23));
          q7 = v + up (dp ! 24)
      in [q0, q1, q2, q3, q4, q5, q6, q7])"

definition pack_26 :: "u32 list \<Rightarrow> byte list" where
  "pack_26 p =
     (let r0 = lo (drop_bit 18 (p ! 0)); r1 = lo (drop_bit 10 (p ! 0)); r2 = lo (drop_bit 2 (p ! 0));
          v = lo (push_bit 6 (p ! 0)); r3 = v + lo (drop_bit 20 (p ! 1)); r4 = lo (drop_bit 12 (p ! 1));
          r5 = lo (drop_bit 4 (p ! 1)); v = lo (push_bit 4 (p ! 1)); r6 = v + lo (drop_bit 22 (p ! 2));
          r7 = lo (drop_bit 14 (p ! 2)); r8 = lo (drop_bit 6 (p ! 2)); v = lo (push_bit 2 (p ! 2));
          r9 = v + lo (drop_bit 24 (p ! 3)); r10 = lo (drop_bit 16 (p ! 3)); r11 = lo (drop_bit 8 (p ! 3)); r12 = lo (p ! 3);
          r13 = lo (drop_bit 18 (p ! 4)); r14 = lo (drop_bit 10 (p ! 4)); r15 = lo (drop_bit 2 (p ! 4));
          v = lo (push_bit 6 (p ! 4)); r16 = v + lo (drop_bit 20 (p ! 5)); r17 = lo (drop_bit 12 (p ! 5));
          r18 = lo (drop_bit 4 (p ! 5)); v = lo (push_bit 4 (p ! 5)); r19 = v + lo (drop_bit 22 (p ! 6));
          r20 = lo (drop_bit 14 (p ! 6)); r21 = lo (drop_bit 6 (p ! 6)); v = lo (push_bit 2 (p ! 6));
          r22 = v + lo (drop_bit 24 (p ! 7)); r23 = lo (drop_bit 16 (p ! 7)); r24 = lo (drop_bit 8 (p ! 7)); r25 = lo (p ! 7)
      in [r0, r1, r2, r3, r4, r5, r6, r7, r8, r9, r10, r11, r12,
          r13, r14, r15, r16, r17, r18, r19, r20, r21, r22, r23, r24, r25])"

definition unpack_26 :: "byte list \<Rightarrow> u32 list" where
  "unpack_26 dp =
     (let v = push_bit 18 (up (dp ! 0)); v = v + push_bit 10 (up (dp ! 1)); v = v + push_bit 2 (up (dp ! 2));
          q0 = v + drop_bit 6 (up (dp ! 3)); v = push_bit 20 (up (dp ! 3)) AND 0x3ffffff; v = v + push_bit 12 (up (dp ! 4));
          v = v + push_bit 4 (up (dp ! 5)); q1 = v + drop_bit 4 (up (dp ! 6)); v = push_bit 22 (up (dp ! 6)) AND 0x3ffffff;
          v = v + push_bit 14 (up (dp ! 7)); v = v + push_bit 6 (up (dp ! 8)); q2 = v + drop_bit 2 (up (dp ! 9));
          v = push_bit 24 (up (dp ! 9)) AND 0x3ffffff; v = v + push_bit 16 (up (dp ! 10)); v = v + push_bit 8 (up (dp ! 11));
          q3 = v + up (dp ! 12); v = push_bit 18 (up (dp ! 13)); v = v + push_bit 10 (up (dp ! 14));
          v = v + push_bit 2 (up (dp ! 15)); q4 = v + drop_bit 6 (up (dp ! 16)); v = push_bit 20 (up (dp ! 16)) AND 0x3ffffff;
          v = v + push_bit 12 (up (dp ! 17)); v = v + push_bit 4 (up (dp ! 18)); q5 = v + drop_bit 4 (up (dp ! 19));
          v = push_bit 22 (up (dp ! 19)) AND 0x3ffffff; v = v + push_bit 14 (up (dp ! 20)); v = v + push_bit 6 (up (dp ! 21));
          q6 = v + drop_bit 2 (up (dp ! 22)); v = push_bit 24 (up (dp ! 22)) AND 0x3ffffff;
          v = v + push_bit 16 (up (dp ! 23)); v = v + push_bit 8 (up (dp ! 24)); q7 = v + up (dp ! 25)
      in [q0, q1, q2, q3, q4, q5, q6, q7])"

definition pack_27 :: "u32 list \<Rightarrow> byte list" where
  "pack_27 p =
     (let r0 = lo (drop_bit 19 (p ! 0)); r1 = lo (drop_bit 11 (p ! 0)); r2 = lo (drop_bit 3 (p ! 0));
          v = lo (push_bit 5 (p ! 0)); r3 = v + lo (drop_bit 22 (p ! 1)); r4 = lo (drop_bit 14 (p ! 1));
          r5 = lo (drop_bit 6 (p ! 1)); v = lo (push_bit 2 (p ! 1)); r6 = v + lo (drop_bit 25 (p ! 2));
          r7 = lo (drop_bit 17 (p ! 2)); r8 = lo (drop_bit 9 (p ! 2)); r9 = lo (drop_bit 1 (p ! 2));
          v = lo (push_bit 7 (p ! 2)); r10 = v + lo (drop_bit 20 (p ! 3)); r11 = lo (drop_bit 12 (p ! 3));
          r12 = lo (drop_bit 4 (p ! 3)); v = lo (push_bit 4 (p ! 3)); r13 = v + lo (drop_bit 23 (p ! 4));
          r14 = lo (drop_bit 15 (p ! 4)); r15 = lo (drop_bit 7 (p ! 4)); v = lo (push_bit 1 (p ! 4));
          r16 = v + lo (drop_bit 26 (p ! 5)); r17 = lo (drop_bit 18 (p ! 5)); r18 = lo (drop_bit 10 (p ! 5));
          r19 = lo (drop_bit 2 (p ! 5)); v = lo (push_bit 6 (p ! 5)); r20 = v + lo (drop_bit 21 (p ! 6));
          r21 = lo (drop_bit 13 (p ! 6)); r22 = lo (drop_bit 5 (p ! 6)); v = lo (push_bit 3 (p ! 6));
          r23 = v + lo (drop_bit 24 (p ! 7)); r24 = lo (drop_bit 16 (p ! 7)); r25 = lo (drop_bit 8 (p ! 7)); r26 = lo (p ! 7)
      in [r0, r1, r2, r3, r4, r5, r6, r7, r8, r9, r10, r11, r12,
          r13, r14, r15, r16, r17, r18, r19, r20, r21, r22, r23, r24, r25, r26])"

definition unpack_27 :: "byte list \<Rightarrow> u32 list" where
  "unpack_27 dp =
     (let v = push_bit 19 (up (dp ! 0)); v = v + push_bit 11 (up (dp ! 1)); v = v + push_bit 3 (up (dp ! 2));
          q0 = v + drop_bit 5 (up (dp ! 3)); v = push_bit 22 (up (dp ! 3)) AND 0x7ffffff; v = v + push_bit 14 (up (dp ! 4));
          v = v + push_bit 6 (up (dp ! 5)); q1 = v + drop_bit 2 (up (dp ! 6)); v = push_bit 25 (up (dp ! 6)) AND 0x7ffffff;
          v = v + push_bit 17 (up (dp ! 7)); v = v + push_bit 9 (up (dp ! 8)); v = v + push_bit 1 (up (dp ! 9));
          q2 = v + drop_bit 7 (up (dp ! 10)); v = push_bit 20 (up (dp ! 10)) AND 0x7ffffff;
          v = v + push_bit 12 (up (dp ! 11)); v = v + push_bit 4 (up (dp ! 12)); q3 = v + drop_bit 4 (up (dp ! 13));
          v = push_bit 23 (up (dp ! 13)) AND 0x7ffffff; v = v + push_bit 15 (up (dp ! 14)); v = v + push_bit 7 (up (dp ! 15));
          q4 = v + drop_bit 1 (up (dp ! 16)); v = push_bit 26 (up (dp ! 16)) AND 0x7ffffff;
          v = v + push_bit 18 (up (dp ! 17)); v = v + push_bit 10 (up (dp ! 18)); v = v + push_bit 2 (up (dp ! 19));
          q5 = v + drop_bit 6 (up (dp ! 20)); v = push_bit 21 (up (dp ! 20)) AND 0x7ffffff;
          v = v + push_bit 13 (up (dp ! 21)); v = v + push_bit 5 (up (dp ! 22)); q6 = v + drop_bit 3 (up (dp ! 23));
          v = push_bit 24 (up (dp ! 23)) AND 0x7ffffff; v = v + push_bit 16 (up (dp ! 24)); v = v + push_bit 8 (up (dp ! 25));
          q7 = v + up (dp ! 26)
      in [q0, q1, q2, q3, q4, q5, q6, q7])"

definition pack_28 :: "u32 list \<Rightarrow> byte list" where
  "pack_28 p =
     (let r0 = lo (drop_bit 20 (p ! 0)); r1 = lo (drop_bit 12 (p ! 0)); r2 = lo (drop_bit 4 (p ! 0));
          v = lo (push_bit 4 (p ! 0)); r3 = v + lo (drop_bit 24 (p ! 1)); r4 = lo (drop_bit 16 (p ! 1));
          r5 = lo (drop_bit 8 (p ! 1)); r6 = lo (p ! 1); r7 = lo (drop_bit 20 (p ! 2)); r8 = lo (drop_bit 12 (p ! 2));
          r9 = lo (drop_bit 4 (p ! 2)); v = lo (push_bit 4 (p ! 2)); r10 = v + lo (drop_bit 24 (p ! 3));
          r11 = lo (drop_bit 16 (p ! 3)); r12 = lo (drop_bit 8 (p ! 3)); r13 = lo (p ! 3); r14 = lo (drop_bit 20 (p ! 4));
          r15 = lo (drop_bit 12 (p ! 4)); r16 = lo (drop_bit 4 (p ! 4)); v = lo (push_bit 4 (p ! 4));
          r17 = v + lo (drop_bit 24 (p ! 5)); r18 = lo (drop_bit 16 (p ! 5)); r19 = lo (drop_bit 8 (p ! 5)); r20 = lo (p ! 5);
          r21 = lo (drop_bit 20 (p ! 6)); r22 = lo (drop_bit 12 (p ! 6)); r23 = lo (drop_bit 4 (p ! 6));
          v = lo (push_bit 4 (p ! 6)); r24 = v + lo (drop_bit 24 (p ! 7)); r25 = lo (drop_bit 16 (p ! 7));
          r26 = lo (drop_bit 8 (p ! 7)); r27 = lo (p ! 7)
      in [r0, r1, r2, r3, r4, r5, r6, r7, r8, r9, r10, r11, r12, r13,
          r14, r15, r16, r17, r18, r19, r20, r21, r22, r23, r24, r25, r26, r27])"

definition unpack_28 :: "byte list \<Rightarrow> u32 list" where
  "unpack_28 dp =
     (let v = push_bit 20 (up (dp ! 0)); v = v + push_bit 12 (up (dp ! 1)); v = v + push_bit 4 (up (dp ! 2));
          q0 = v + drop_bit 4 (up (dp ! 3)); v = push_bit 24 (up (dp ! 3)) AND 0xfffffff; v = v + push_bit 16 (up (dp ! 4));
          v = v + push_bit 8 (up (dp ! 5)); q1 = v + up (dp ! 6); v = push_bit 20 (up (dp ! 7));
          v = v + push_bit 12 (up (dp ! 8)); v = v + push_bit 4 (up (dp ! 9)); q2 = v + drop_bit 4 (up (dp ! 10));
          v = push_bit 24 (up (dp ! 10)) AND 0xfffffff; v = v + push_bit 16 (up (dp ! 11)); v = v + push_bit 8 (up (dp ! 12));
          q3 = v + up (dp ! 13); v = push_bit 20 (up (dp ! 14)); v = v + push_bit 12 (up (dp ! 15));
          v = v + push_bit 4 (up (dp ! 16)); q4 = v + drop_bit 4 (up (dp ! 17)); v = push_bit 24 (up (dp ! 17)) AND 0xfffffff;
          v = v + push_bit 16 (up (dp ! 18)); v = v + push_bit 8 (up (dp ! 19)); q5 = v + up (dp ! 20);
          v = push_bit 20 (up (dp ! 21)); v = v + push_bit 12 (up (dp ! 22)); v = v + push_bit 4 (up (dp ! 23));
          q6 = v + drop_bit 4 (up (dp ! 24)); v = push_bit 24 (up (dp ! 24)) AND 0xfffffff;
          v = v + push_bit 16 (up (dp ! 25)); v = v + push_bit 8 (up (dp ! 26)); q7 = v + up (dp ! 27)
      in [q0, q1, q2, q3, q4, q5, q6, q7])"

definition pack_29 :: "u32 list \<Rightarrow> byte list" where
  "pack_29 p =
     (let r0 = lo (drop_bit 21 (p ! 0)); r1 = lo (drop_bit 13 (p ! 0)); r2 = lo (drop_bit 5 (p ! 0));
          v = lo (push_bit 3 (p ! 0)); r3 = v + lo (drop_bit 26 (p ! 1)); r4 = lo (drop_bit 18 (p ! 1));
          r5 = lo (drop_bit 10 (p ! 1)); r6 = lo (drop_bit 2 (p ! 1)); v = lo (push_bit 6 (p ! 1));
          r7 = v + lo (drop_bit 23 (p ! 2)); r8 = lo (drop_bit 15 (p ! 2)); r9 = lo (drop_bit 7 (p ! 2));
          v = lo (push_bit 1 (p ! 2)); r10 = v + lo (drop_bit 28 (p ! 3)); r11 = lo (drop_bit 20 (p ! 3));
          r12 = lo (drop_bit 12 (p ! 3)); r13 = lo (drop_bit 4 (p ! 3)); v = lo (push_bit 4 (p ! 3));
          r14 = v + lo (drop_bit 25 (p ! 4)); r15 = lo (drop_bit 17 (p ! 4)); r16 = lo (drop_bit 9 (p ! 4));
          r17 = lo (drop_bit 1 (p ! 4)); v = lo (push_bit 7 (p ! 4)); r18 = v + lo (drop_bit 22 (p ! 5));
          r19 = lo (drop_bit 14 (p ! 5)); r20 = lo (drop_bit 6 (p ! 5)); v = lo (push_bit 2 (p ! 5));
          r21 = v + lo (drop_bit 27 (p ! 6)); r22 = lo (drop_bit 19 (p ! 6)); r23 = lo (drop_bit 11 (p ! 6));
          r24 = lo (drop_bit 3 (p ! 6)); v = lo (push_bit 5 (p ! 6)); r25 = v + lo (drop_bit 24 (p ! 7));
          r26 = lo (drop_bit 16 (p ! 7)); r27 = lo (drop_bit 8 (p ! 7)); r28 = lo (p ! 7)
      in [r0, r1, r2, r3, r4, r5, r6, r7, r8, r9, r10, r11, r12, r13,
          r14, r15, r16, r17, r18, r19, r20, r21, r22, r23, r24, r25, r26, r27, r28])"

definition unpack_29 :: "byte list \<Rightarrow> u32 list" where
  "unpack_29 dp =
     (let v = push_bit 21 (up (dp ! 0)); v = v + push_bit 13 (up (dp ! 1)); v = v + push_bit 5 (up (dp ! 2));
          q0 = v + drop_bit 3 (up (dp ! 3)); v = push_bit 26 (up (dp ! 3)) AND 0x1fffffff; v = v + push_bit 18 (up (dp ! 4));
          v = v + push_bit 10 (up (dp ! 5)); v = v + push_bit 2 (up (dp ! 6)); q1 = v + drop_bit 6 (up (dp ! 7));
          v = push_bit 23 (up (dp ! 7)) AND 0x1fffffff; v = v + push_bit 15 (up (dp ! 8)); v = v + push_bit 7 (up (dp ! 9));
          q2 = v + drop_bit 1 (up (dp ! 10)); v = push_bit 28 (up (dp ! 10)) AND 0x1fffffff;
          v = v + push_bit 20 (up (dp ! 11)); v = v + push_bit 12 (up (dp ! 12)); v = v + push_bit 4 (up (dp ! 13));
          q3 = v + drop_bit 4 (up (dp ! 14)); v = push_bit 25 (up (dp ! 14)) AND 0x1fffffff;
          v = v + push_bit 17 (up (dp ! 15)); v = v + push_bit 9 (up (dp ! 16)); v = v + push_bit 1 (up (dp ! 17));
          q4 = v + drop_bit 7 (up (dp ! 18)); v = push_bit 22 (up (dp ! 18)) AND 0x1fffffff;
          v = v + push_bit 14 (up (dp ! 19)); v = v + push_bit 6 (up (dp ! 20)); q5 = v + drop_bit 2 (up (dp ! 21));
          v = push_bit 27 (up (dp ! 21)) AND 0x1fffffff; v = v + push_bit 19 (up (dp ! 22));
          v = v + push_bit 11 (up (dp ! 23)); v = v + push_bit 3 (up (dp ! 24)); q6 = v + drop_bit 5 (up (dp ! 25));
          v = push_bit 24 (up (dp ! 25)) AND 0x1fffffff; v = v + push_bit 16 (up (dp ! 26));
          v = v + push_bit 8 (up (dp ! 27)); q7 = v + up (dp ! 28)
      in [q0, q1, q2, q3, q4, q5, q6, q7])"

definition pack_30 :: "u32 list \<Rightarrow> byte list" where
  "pack_30 p =
     (let r0 = lo (drop_bit 22 (p ! 0)); r1 = lo (drop_bit 14 (p ! 0)); r2 = lo (drop_bit 6 (p ! 0));
          v = lo (push_bit 2 (p ! 0)); r3 = v + lo (drop_bit 28 (p ! 1)); r4 = lo (drop_bit 20 (p ! 1));
          r5 = lo (drop_bit 12 (p ! 1)); r6 = lo (drop_bit 4 (p ! 1)); v = lo (push_bit 4 (p ! 1));
          r7 = v + lo (drop_bit 26 (p ! 2)); r8 = lo (drop_bit 18 (p ! 2)); r9 = lo (drop_bit 10 (p ! 2));
          r10 = lo (drop_bit 2 (p ! 2)); v = lo (push_bit 6 (p ! 2)); r11 = v + lo (drop_bit 24 (p ! 3));
          r12 = lo (drop_bit 16 (p ! 3)); r13 = lo (drop_bit 8 (p ! 3)); r14 = lo (p ! 3); r15 = lo (drop_bit 22 (p ! 4));
          r16 = lo (drop_bit 14 (p ! 4)); r17 = lo (drop_bit 6 (p ! 4)); v = lo (push_bit 2 (p ! 4));
          r18 = v + lo (drop_bit 28 (p ! 5)); r19 = lo (drop_bit 20 (p ! 5)); r20 = lo (drop_bit 12 (p ! 5));
          r21 = lo (drop_bit 4 (p ! 5)); v = lo (push_bit 4 (p ! 5)); r22 = v + lo (drop_bit 26 (p ! 6));
          r23 = lo (drop_bit 18 (p ! 6)); r24 = lo (drop_bit 10 (p ! 6)); r25 = lo (drop_bit 2 (p ! 6));
          v = lo (push_bit 6 (p ! 6)); r26 = v + lo (drop_bit 24 (p ! 7)); r27 = lo (drop_bit 16 (p ! 7));
          r28 = lo (drop_bit 8 (p ! 7)); r29 = lo (p ! 7)
      in [r0, r1, r2, r3, r4, r5, r6, r7, r8, r9, r10, r11, r12, r13, r14,
          r15, r16, r17, r18, r19, r20, r21, r22, r23, r24, r25, r26, r27, r28, r29])"

definition unpack_30 :: "byte list \<Rightarrow> u32 list" where
  "unpack_30 dp =
     (let v = push_bit 22 (up (dp ! 0)); v = v + push_bit 14 (up (dp ! 1)); v = v + push_bit 6 (up (dp ! 2));
          q0 = v + drop_bit 2 (up (dp ! 3)); v = push_bit 28 (up (dp ! 3)) AND 0x3fffffff; v = v + push_bit 20 (up (dp ! 4));
          v = v + push_bit 12 (up (dp ! 5)); v = v + push_bit 4 (up (dp ! 6)); q1 = v + drop_bit 4 (up (dp ! 7));
          v = push_bit 26 (up (dp ! 7)) AND 0x3fffffff; v = v + push_bit 18 (up (dp ! 8)); v = v + push_bit 10 (up (dp ! 9));
          v = v + push_bit 2 (up (dp ! 10)); q2 = v + drop_bit 6 (up (dp ! 11));
          v = push_bit 24 (up (dp ! 11)) AND 0x3fffffff; v = v + push_bit 16 (up (dp ! 12));
          v = v + push_bit 8 (up (dp ! 13)); q3 = v + up (dp ! 14); v = push_bit 22 (up (dp ! 15));
          v = v + push_bit 14 (up (dp ! 16)); v = v + push_bit 6 (up (dp ! 17)); q4 = v + drop_bit 2 (up (dp ! 18));
          v = push_bit 28 (up (dp ! 18)) AND 0x3fffffff; v = v + push_bit 20 (up (dp ! 19));
          v = v + push_bit 12 (up (dp ! 20)); v = v + push_bit 4 (up (dp ! 21)); q5 = v + drop_bit 4 (up (dp ! 22));
          v = push_bit 26 (up (dp ! 22)) AND 0x3fffffff; v = v + push_bit 18 (up (dp ! 23));
          v = v + push_bit 10 (up (dp ! 24)); v = v + push_bit 2 (up (dp ! 25)); q6 = v + drop_bit 6 (up (dp ! 26));
          v = push_bit 24 (up (dp ! 26)) AND 0x3fffffff; v = v + push_bit 16 (up (dp ! 27));
          v = v + push_bit 8 (up (dp ! 28)); q7 = v + up (dp ! 29)
      in [q0, q1, q2, q3, q4, q5, q6, q7])"

definition pack_31 :: "u32 list \<Rightarrow> byte list" where
  "pack_31 p =
     (let r0 = lo (drop_bit 23 (p ! 0)); r1 = lo (drop_bit 15 (p ! 0)); r2 = lo (drop_bit 7 (p ! 0));
          v = lo (push_bit 1 (p ! 0)); r3 = v + lo (drop_bit 30 (p ! 1)); r4 = lo (drop_bit 22 (p ! 1));
          r5 = lo (drop_bit 14 (p ! 1)); r6 = lo (drop_bit 6 (p ! 1)); v = lo (push_bit 2 (p ! 1));
          r7 = v + lo (drop_bit 29 (p ! 2)); r8 = lo (drop_bit 21 (p ! 2)); r9 = lo (drop_bit 13 (p ! 2));
          r10 = lo (drop_bit 5 (p ! 2)); v = lo (push_bit 3 (p ! 2)); r11 = v + lo (drop_bit 28 (p ! 3));
          r12 = lo (drop_bit 20 (p ! 3)); r13 = lo (drop_bit 12 (p ! 3)); r14 = lo (drop_bit 4 (p ! 3));
          v = lo (push_bit 4 (p ! 3)); r15 = v + lo (drop_bit 27 (p ! 4)); r16 = lo (drop_bit 19 (p ! 4));
          r17 = lo (drop_bit 11 (p ! 4)); r18 = lo (drop_bit 3 (p ! 4)); v = lo (push_bit 5 (p ! 4));
          r19 = v + lo (drop_bit 26 (p ! 5)); r20 = lo (drop_bit 18 (p ! 5)); r21 = lo (drop_bit 10 (p ! 5));
          r22 = lo (drop_bit 2 (p ! 5)); v = lo (push_bit 6 (p ! 5)); r23 = v + lo (drop_bit 25 (p ! 6));
          r24 = lo (drop_bit 17 (p ! 6)); r25 = lo (drop_bit 9 (p ! 6)); r26 = lo (drop_bit 1 (p ! 6));
          v = lo (push_bit 7 (p ! 6)); r27 = v + lo (drop_bit 24 (p ! 7)); r28 = lo (drop_bit 16 (p ! 7));
          r29 = lo (drop_bit 8 (p ! 7)); r30 = lo (p ! 7)
      in [r0, r1, r2, r3, r4, r5, r6, r7, r8, r9, r10, r11, r12, r13, r14,
          r15, r16, r17, r18, r19, r20, r21, r22, r23, r24, r25, r26, r27, r28, r29, r30])"

definition unpack_31 :: "byte list \<Rightarrow> u32 list" where
  "unpack_31 dp =
     (let v = push_bit 23 (up (dp ! 0)); v = v + push_bit 15 (up (dp ! 1)); v = v + push_bit 7 (up (dp ! 2));
          q0 = v + drop_bit 1 (up (dp ! 3)); v = push_bit 30 (up (dp ! 3)) AND 0x7fffffff; v = v + push_bit 22 (up (dp ! 4));
          v = v + push_bit 14 (up (dp ! 5)); v = v + push_bit 6 (up (dp ! 6)); q1 = v + drop_bit 2 (up (dp ! 7));
          v = push_bit 29 (up (dp ! 7)) AND 0x7fffffff; v = v + push_bit 21 (up (dp ! 8)); v = v + push_bit 13 (up (dp ! 9));
          v = v + push_bit 5 (up (dp ! 10)); q2 = v + drop_bit 3 (up (dp ! 11));
          v = push_bit 28 (up (dp ! 11)) AND 0x7fffffff; v = v + push_bit 20 (up (dp ! 12));
          v = v + push_bit 12 (up (dp ! 13)); v = v + push_bit 4 (up (dp ! 14)); q3 = v + drop_bit 4 (up (dp ! 15));
          v = push_bit 27 (up (dp ! 15)) AND 0x7fffffff; v = v + push_bit 19 (up (dp ! 16));
          v = v + push_bit 11 (up (dp ! 17)); v = v + push_bit 3 (up (dp ! 18)); q4 = v + drop_bit 5 (up (dp ! 19));
          v = push_bit 26 (up (dp ! 19)) AND 0x7fffffff; v = v + push_bit 18 (up (dp ! 20));
          v = v + push_bit 10 (up (dp ! 21)); v = v + push_bit 2 (up (dp ! 22)); q5 = v + drop_bit 6 (up (dp ! 23));
          v = push_bit 25 (up (dp ! 23)) AND 0x7fffffff; v = v + push_bit 17 (up (dp ! 24));
          v = v + push_bit 9 (up (dp ! 25)); v = v + push_bit 1 (up (dp ! 26)); q6 = v + drop_bit 7 (up (dp ! 27));
          v = push_bit 24 (up (dp ! 27)) AND 0x7fffffff; v = v + push_bit 16 (up (dp ! 28));
          v = v + push_bit 8 (up (dp ! 29)); q7 = v + up (dp ! 30)
      in [q0, q1, q2, q3, q4, q5, q6, q7])"

definition pack_32 :: "u32 list \<Rightarrow> byte list" where
  "pack_32 p =
     (let r0 = lo (drop_bit 24 (p ! 0)); r1 = lo (drop_bit 16 (p ! 0)); r2 = lo (drop_bit 8 (p ! 0)); r3 = lo (p ! 0);
          r4 = lo (drop_bit 24 (p ! 1)); r5 = lo (drop_bit 16 (p ! 1)); r6 = lo (drop_bit 8 (p ! 1)); r7 = lo (p ! 1);
          r8 = lo (drop_bit 24 (p ! 2)); r9 = lo (drop_bit 16 (p ! 2)); r10 = lo (drop_bit 8 (p ! 2)); r11 = lo (p ! 2);
          r12 = lo (drop_bit 24 (p ! 3)); r13 = lo (drop_bit 16 (p ! 3)); r14 = lo (drop_bit 8 (p ! 3)); r15 = lo (p ! 3);
          r16 = lo (drop_bit 24 (p ! 4)); r17 = lo (drop_bit 16 (p ! 4)); r18 = lo (drop_bit 8 (p ! 4)); r19 = lo (p ! 4);
          r20 = lo (drop_bit 24 (p ! 5)); r21 = lo (drop_bit 16 (p ! 5)); r22 = lo (drop_bit 8 (p ! 5)); r23 = lo (p ! 5);
          r24 = lo (drop_bit 24 (p ! 6)); r25 = lo (drop_bit 16 (p ! 6)); r26 = lo (drop_bit 8 (p ! 6)); r27 = lo (p ! 6);
          r28 = lo (drop_bit 24 (p ! 7)); r29 = lo (drop_bit 16 (p ! 7)); r30 = lo (drop_bit 8 (p ! 7)); r31 = lo (p ! 7)
      in [r0, r1, r2, r3, r4, r5, r6, r7, r8, r9, r10, r11, r12, r13, r14, r15,
          r16, r17, r18, r19, r20, r21, r22, r23, r24, r25, r26, r27, r28, r29, r30, r31])"

definition unpack_32 :: "byte list \<Rightarrow> u32 list" where
  "unpack_32 dp =
     (let v = push_bit 24 (up (dp ! 0)); v = v + push_bit 16 (up (dp ! 1)); v = v + push_bit 8 (up (dp ! 2));
          q0 = v + up (dp ! 3); v = push_bit 24 (up (dp ! 4)); v = v + push_bit 16 (up (dp ! 5));
          v = v + push_bit 8 (up (dp ! 6)); q1 = v + up (dp ! 7); v = push_bit 24 (up (dp ! 8));
          v = v + push_bit 16 (up (dp ! 9)); v = v + push_bit 8 (up (dp ! 10)); q2 = v + up (dp ! 11);
          v = push_bit 24 (up (dp ! 12)); v = v + push_bit 16 (up (dp ! 13)); v = v + push_bit 8 (up (dp ! 14));
          q3 = v + up (dp ! 15); v = push_bit 24 (up (dp ! 16)); v = v + push_bit 16 (up (dp ! 17));
          v = v + push_bit 8 (up (dp ! 18)); q4 = v + up (dp ! 19); v = push_bit 24 (up (dp ! 20));
          v = v + push_bit 16 (up (dp ! 21)); v = v + push_bit 8 (up (dp ! 22)); q5 = v + up (dp ! 23);
          v = push_bit 24 (up (dp ! 24)); v = v + push_bit 16 (up (dp ! 25)); v = v + push_bit 8 (up (dp ! 26));
          q6 = v + up (dp ! 27); v = push_bit 24 (up (dp ! 28)); v = v + push_bit 16 (up (dp ! 29));
          v = v + push_bit 8 (up (dp ! 30)); q7 = v + up (dp ! 31)
      in [q0, q1, q2, q3, q4, q5, q6, q7])"

section \<open>Any number of numbers\<close>

text \<open>
  The widths of a switch; the code has no case for other widths.
\<close>

definition pack_unit :: "nat \<Rightarrow> u32 list \<Rightarrow> byte list" where
  "pack_unit w p =
     (if w = 1 then pack_1 p else if w = 2 then pack_2 p else if w = 3 then pack_3 p else if w = 4 then pack_4 p else
      if w = 5 then pack_5 p else if w = 6 then pack_6 p else if w = 7 then pack_7 p else if w = 8 then pack_8 p else
      if w = 9 then pack_9 p else if w = 10 then pack_10 p else if w = 11 then pack_11 p else
      if w = 12 then pack_12 p else if w = 13 then pack_13 p else if w = 14 then pack_14 p else
      if w = 15 then pack_15 p else if w = 16 then pack_16 p else if w = 17 then pack_17 p else
      if w = 18 then pack_18 p else if w = 19 then pack_19 p else if w = 20 then pack_20 p else
      if w = 21 then pack_21 p else if w = 22 then pack_22 p else if w = 23 then pack_23 p else
      if w = 24 then pack_24 p else if w = 25 then pack_25 p else if w = 26 then pack_26 p else
      if w = 27 then pack_27 p else if w = 28 then pack_28 p else if w = 29 then pack_29 p else
      if w = 30 then pack_30 p else if w = 31 then pack_31 p else if w = 32 then pack_32 p else [])"

text \<open>
  The loop over fewer than eight numbers: \<open>b\<close> is the distance of the number from the end of the byte \<open>v\<close> that is being filled.
\<close>

function pack_rest :: "nat \<Rightarrow> int \<Rightarrow> byte \<Rightarrow> u32 list \<Rightarrow> byte list" where
  "pack_rest w b v [] = (if b + int w \<noteq> 8 then [v] else [])"
| "pack_rest w b v (x # p) =
     (if 0 < b then pack_rest w (b - int w) (v + lo (push_bit (nat b) x)) p
      else if b < 0 then (v + lo (drop_bit (nat (- b)) x)) # pack_rest w (b + 8) 0 (x # p)
      else (v + lo x) # pack_rest w (8 - int w) 0 p)"
  by pat_completeness auto
termination
  by (relation "measures [\<lambda>(w, b, v, p). length p, \<lambda>(w, b, v, p). nat (- b)]") auto

function pack_values :: "nat \<Rightarrow> u32 list \<Rightarrow> byte list" where
  "pack_values w p =
     (if 8 \<le> length p then pack_unit w (take 8 p) @ pack_values w (drop 8 p)
      else pack_rest w (8 - int w) 0 p)"
  by pat_completeness auto
termination
  by (relation "measure (\<lambda>(w, p). length p)") auto

declare pack_values.simps [simp del]

text \<open>
  The bytes to decode are \<open>data\<close>, a pointer into them is an index \<open>dp\<close>, which may be one past the end, and the end \<^verbatim>\<open>dpe\<close> is
  \<open>length data\<close>.  The numbers are written over the \<open>old\<close> contents of their place, and \<open>m\<close> is the mask of the width.
\<close>

datatype codec_error = FILE_CORRUPT | OUT_OF_BOUNDS | NO_MEMORY

definition unpack_unit :: "nat \<Rightarrow> byte list \<Rightarrow> u32 list" where
  "unpack_unit w dp =
     (if w = 1 then unpack_1 dp else if w = 2 then unpack_2 dp else if w = 3 then unpack_3 dp else
      if w = 4 then unpack_4 dp else if w = 5 then unpack_5 dp else if w = 6 then unpack_6 dp else
      if w = 7 then unpack_7 dp else if w = 8 then unpack_8 dp else if w = 9 then unpack_9 dp else
      if w = 10 then unpack_10 dp else if w = 11 then unpack_11 dp else if w = 12 then unpack_12 dp else
      if w = 13 then unpack_13 dp else if w = 14 then unpack_14 dp else if w = 15 then unpack_15 dp else
      if w = 16 then unpack_16 dp else if w = 17 then unpack_17 dp else if w = 18 then unpack_18 dp else
      if w = 19 then unpack_19 dp else if w = 20 then unpack_20 dp else if w = 21 then unpack_21 dp else
      if w = 22 then unpack_22 dp else if w = 23 then unpack_23 dp else if w = 24 then unpack_24 dp else
      if w = 25 then unpack_25 dp else if w = 26 then unpack_26 dp else if w = 27 then unpack_27 dp else
      if w = 28 then unpack_28 dp else if w = 29 then unpack_29 dp else if w = 30 then unpack_30 dp else
      if w = 31 then unpack_31 dp else if w = 32 then unpack_32 dp else [])"

function unpack_rest :: "nat \<Rightarrow> u32 \<Rightarrow> byte list \<Rightarrow> int \<Rightarrow> u32 \<Rightarrow> nat \<Rightarrow> u32 list \<Rightarrow> u32 list \<times> nat" where
  "unpack_rest w m data b v dp old =
     (if old \<noteq> [] \<and> dp < length data then
        if 0 < b then
          let (p, dp') = unpack_rest w m data (b - int w) 0 dp (tl old)
          in ((v + (drop_bit (nat b) (up (data ! dp)) AND m)) # p, dp')
        else if b < 0 then
          unpack_rest w m data (b + 8) (v + (push_bit (nat (- b)) (up (data ! dp)) AND m)) (dp + 1) old
        else
          let (p, dp') = unpack_rest w m data (8 - int w) 0 (dp + 1) (tl old)
          in ((v + (up (data ! dp) AND m)) # p, dp')
      else (old, if b + int w \<noteq> 8 then dp + 1 else dp))"
  by pat_completeness auto
termination
  by (relation "measures [\<lambda>(w, m, data, b, v, dp, old). length old, \<lambda>(w, m, data, b, v, dp, old). length data - dp]") auto

declare unpack_rest.simps [simp del]

function unpack_values :: "nat \<Rightarrow> u32 \<Rightarrow> byte list \<Rightarrow> nat \<Rightarrow> u32 list \<Rightarrow> codec_error + u32 list \<times> nat" where
  "unpack_values w m data dp old =
     (if 8 \<le> length old then
        if length data < dp + w then Inl FILE_CORRUPT
        else let (p, dp) = (if w \<le> 32 then (unpack_unit w (drop dp data), dp + w) else (take 8 old, dp))
             in case unpack_values w m data dp (drop 8 old) of Inl e \<Rightarrow> Inl e | Inr (q, dp) \<Rightarrow> Inr (p @ q, dp)
      else Inr (unpack_rest w m data (8 - int w) 0 dp old))"
  by pat_completeness auto
termination
  by (relation "measure (\<lambda>(w, m, data, dp, old). length old)") auto

declare unpack_values.simps [simp del]

section \<open>The units are the loop\<close>

text \<open>
  Each straight-line routine does what the loop does on eight numbers.  What is proved of the loop for any width then holds
  for all of them.
\<close>

lemmas pack_defs = pack_1_def pack_2_def pack_3_def pack_4_def pack_5_def pack_6_def pack_7_def pack_8_def pack_9_def
  pack_10_def pack_11_def pack_12_def pack_13_def pack_14_def pack_15_def pack_16_def pack_17_def pack_18_def
  pack_19_def pack_20_def pack_21_def pack_22_def pack_23_def pack_24_def pack_25_def pack_26_def pack_27_def
  pack_28_def pack_29_def pack_30_def pack_31_def pack_32_def
lemmas unpack_defs = unpack_1_def unpack_2_def unpack_3_def unpack_4_def unpack_5_def unpack_6_def unpack_7_def
  unpack_8_def unpack_9_def unpack_10_def unpack_11_def unpack_12_def unpack_13_def unpack_14_def unpack_15_def
  unpack_16_def unpack_17_def unpack_18_def unpack_19_def unpack_20_def unpack_21_def unpack_22_def unpack_23_def
  unpack_24_def unpack_25_def unpack_26_def unpack_27_def unpack_28_def unpack_29_def unpack_30_def unpack_31_def
  unpack_32_def

lemma list_of_8:
  assumes "length p = 8"
  obtains a b c d e f g h where "p = [a, b, c, d, e, f, g, h]"
  using assms by (auto simp: numeral_eq_Suc length_Suc_conv)

lemma pack_units:
  "list_all (\<lambda>w. pack_unit w [a, b, c, d, e, f, g, h] = pack_rest w (8 - int w) 0 [a, b, c, d, e, f, g, h]) [1..<33]"
  by (simp add: upt_rec pack_unit_def pack_defs)

lemma pack_unit_loop:
  assumes "length p = 8" and "1 \<le> w" and "w \<le> 32"
  shows "pack_unit w p = pack_rest w (8 - int w) 0 p"
proof -
  obtain a b c d e f g h where p: "p = [a, b, c, d, e, f, g, h]" using assms(1) by (rule list_of_8)
  show ?thesis unfolding p using pack_units [of a b c d e f g h] assms(2,3) by (auto simp: list_all_iff)
qed

lemma unpack_rest_steps:
  assumes "old \<noteq> []" and "dp < length data"
  shows "0 < b \<Longrightarrow> unpack_rest w m data b v dp old =
      (let (p, dp') = unpack_rest w m data (b - int w) 0 dp (tl old)
       in ((v + (drop_bit (nat b) (up (data ! dp)) AND m)) # p, dp'))"
    and "b < 0 \<Longrightarrow> unpack_rest w m data b v dp old =
      unpack_rest w m data (b + 8) (v + (push_bit (nat (- b)) (up (data ! dp)) AND m)) (dp + 1) old"
    and "b = 0 \<Longrightarrow> unpack_rest w m data b v dp old =
      (let (p, dp') = unpack_rest w m data (8 - int w) 0 (dp + 1) (tl old)
       in ((v + (up (data ! dp) AND m)) # p, dp'))"
  using assms by (simp_all add: unpack_rest.simps [of w m data _ v dp old])

lemma unpack_rest_Nil: "unpack_rest w m data b v dp [] = ([], if b + int w \<noteq> 8 then dp + 1 else dp)"
  by (simp add: unpack_rest.simps)

lemma set_upt_33: "set [1..<33] = {1, 2, 3, 4, 5, 6, 7, 8, 9, 10, 11, 12, 13, 14, 15, 16, 17, 18, 19, 20, 21, 22, 23, 24,
    25, 26, 27, 28, 29, 30, 31, 32 :: nat}"
  by (auto simp: upt_rec)

lemma AND_byte_absorb:
  fixes x y m :: u32
  assumes "y AND m = y" and "x = x AND y"
  shows "x AND m = x"
  using assms by (metis and.assoc)

lemma up_AND:
  "drop_bit b 0xff AND m = drop_bit b 0xff \<Longrightarrow> drop_bit b (up d) AND m = drop_bit b (up d)"
  "push_bit b 0xff AND m = push_bit b 0xff \<Longrightarrow> push_bit b (up d) AND m = push_bit b (up d)"
  "0x1fe AND m = 0x1fe \<Longrightarrow> up d * 2 AND m = up d * 2"
  "0xff AND m = 0xff \<Longrightarrow> up d AND m = up d"
proof -
  have d: "up d AND 0xff = up d"
  proof -
    have "up d AND mask 8 = up d" by (rule bit_word_eqI) (auto simp: bit_simps dest: bit_imp_le_length)
    then show ?thesis by (simp add: mask_numeral)
  qed
  show "0xff AND m = 0xff \<Longrightarrow> up d AND m = up d" by (erule AND_byte_absorb) (simp add: d)
  show "drop_bit b 0xff AND m = drop_bit b 0xff \<Longrightarrow> drop_bit b (up d) AND m = drop_bit b (up d)"
    by (erule AND_byte_absorb) (simp only: d flip: drop_bit_and)
  show "push_bit b 0xff AND m = push_bit b 0xff \<Longrightarrow> push_bit b (up d) AND m = push_bit b (up d)"
    by (erule AND_byte_absorb) (simp only: d flip: push_bit_and)
  have "push_bit 1 (up d) AND push_bit 1 0xff = push_bit 1 (up d)" by (simp only: d flip: push_bit_and)
  then show "0x1fe AND m = 0x1fe \<Longrightarrow> up d * 2 AND m = up d * 2" by (elim AND_byte_absorb) simp
qed

lemmas unpack_unit_steps =
  unpack_unit_def unpack_defs unpack_rest_steps unpack_rest_Nil up_AND mask_numeral numeral_2_eq_2 [symmetric]

lemma unpack_units_1:
  assumes "w \<in> {1, 2, 3, 4 :: nat}" and "w \<le> length ds" and "ds \<noteq> []"
  shows "unpack_rest w (mask w) ds (8 - int w) 0 0 [a, b, c, d, e, f, g, h] = (unpack_unit w ds, w)"
  using assms by (elim insertE emptyE) (simp_all add: unpack_unit_steps)

lemma unpack_units_5:
  assumes "w \<in> {5, 6, 7, 8 :: nat}" and "w \<le> length ds" and "ds \<noteq> []"
  shows "unpack_rest w (mask w) ds (8 - int w) 0 0 [a, b, c, d, e, f, g, h] = (unpack_unit w ds, w)"
  using assms by (elim insertE emptyE) (simp_all add: unpack_unit_steps)

lemma unpack_units_9:
  assumes "w \<in> {9, 10, 11, 12 :: nat}" and "w \<le> length ds" and "ds \<noteq> []"
  shows "unpack_rest w (mask w) ds (8 - int w) 0 0 [a, b, c, d, e, f, g, h] = (unpack_unit w ds, w)"
  using assms by (elim insertE emptyE) (simp_all add: unpack_unit_steps)

lemma unpack_units_13:
  assumes "w \<in> {13, 14, 15, 16 :: nat}" and "w \<le> length ds" and "ds \<noteq> []"
  shows "unpack_rest w (mask w) ds (8 - int w) 0 0 [a, b, c, d, e, f, g, h] = (unpack_unit w ds, w)"
  using assms by (elim insertE emptyE) (simp_all add: unpack_unit_steps)

lemma unpack_units_17:
  assumes "w \<in> {17, 18, 19, 20 :: nat}" and "w \<le> length ds" and "ds \<noteq> []"
  shows "unpack_rest w (mask w) ds (8 - int w) 0 0 [a, b, c, d, e, f, g, h] = (unpack_unit w ds, w)"
  using assms by (elim insertE emptyE) (simp_all add: unpack_unit_steps)

lemma unpack_units_21:
  assumes "w \<in> {21, 22, 23, 24 :: nat}" and "w \<le> length ds" and "ds \<noteq> []"
  shows "unpack_rest w (mask w) ds (8 - int w) 0 0 [a, b, c, d, e, f, g, h] = (unpack_unit w ds, w)"
  using assms by (elim insertE emptyE) (simp_all add: unpack_unit_steps)

lemma unpack_units_25:
  assumes "w \<in> {25, 26, 27, 28 :: nat}" and "w \<le> length ds" and "ds \<noteq> []"
  shows "unpack_rest w (mask w) ds (8 - int w) 0 0 [a, b, c, d, e, f, g, h] = (unpack_unit w ds, w)"
  using assms by (elim insertE emptyE) (simp_all add: unpack_unit_steps)

lemma unpack_units_29:
  assumes "w \<in> {29, 30, 31, 32 :: nat}" and "w \<le> length ds" and "ds \<noteq> []"
  shows "unpack_rest w (mask w) ds (8 - int w) 0 0 [a, b, c, d, e, f, g, h] = (unpack_unit w ds, w)"
  using assms by (elim insertE emptyE) (simp_all add: unpack_unit_steps)

lemmas unpack_units_by_width = unpack_units_1 unpack_units_5 unpack_units_9 unpack_units_13 unpack_units_17 unpack_units_21 unpack_units_25 unpack_units_29

lemma unpack_units:
  assumes "w \<in> set [1..<33]" and "w \<le> length ds" and "ds \<noteq> []"
  shows "unpack_rest w (mask w) ds (8 - int w) 0 0 [a, b, c, d, e, f, g, h] = (unpack_unit w ds, w)"
proof -
  have "w \<in> {1, 2, 3, 4} \<or> w \<in> {5, 6, 7, 8} \<or> w \<in> {9, 10, 11, 12} \<or> w \<in> {13, 14, 15, 16} \<or>
    w \<in> {17, 18, 19, 20} \<or> w \<in> {21, 22, 23, 24} \<or> w \<in> {25, 26, 27, 28} \<or> w \<in> {29, 30, 31, 32}"
    using assms(1) unfolding set_upt_33 by blast
  then show ?thesis by (elim disjE) (rule unpack_units_by_width [OF _ assms(2,3)], assumption)+
qed

lemma unpack_unit_loop:
  assumes "length old = 8" and "1 \<le> w" and "w \<le> 32" and "w \<le> length ds"
  shows "unpack_rest w (mask w) ds (8 - int w) 0 0 old = (unpack_unit w ds, w)"
proof -
  obtain a b c d e f g h where p: "old = [a, b, c, d, e, f, g, h]" using assms(1) by (rule list_of_8)
  have "ds \<noteq> []" using assms(2,4) by auto
  with assms show ?thesis unfolding p by (intro unpack_units) auto
qed

end
