(* ===== verification/BitStream.thy ===== *)
theory BitStream
  imports Pack
begin

text \<open>
  The bytes that the packing routines write, as a stream of bits with the most significant bit first: packing numbers of a
  width writes their bits one after the other and fills up the last byte with zeros, and unpacking takes them out again.
\<close>

primrec be :: "nat \<Rightarrow> 'a::len word \<Rightarrow> bool list" where
  "be 0 x = []"
| "be (Suc n) x = bit x n # be n x"

definition stream :: "byte list \<Rightarrow> bool list" where
  "stream bs = concat (map (be 8) bs)"

lemma length_be [simp]: "length (be n x) = n"
  by (induction n) simp_all

lemma be_append: "be (m + n) x = be m (drop_bit n x) @ be n x"
  by (induction m) (simp_all add: bit_simps add.commute)

lemma be_cong: "(\<And>i. i < n \<Longrightarrow> bit x i = bit y i) \<Longrightarrow> be n x = be n y"
  by (induction n) simp_all

lemma be_eq_bits: "be n x = be n y \<Longrightarrow> i < n \<Longrightarrow> bit x i = bit y i"
  by (induction n) (auto simp: less_Suc_eq)

lemma be_zero: "be n 0 = replicate n False"
  by (induction n) simp_all

lemma stream_simps [simp]:
  "stream [] = []"
  "stream (b # bs) = be 8 b @ stream bs"
  "stream (bs @ cs) = stream bs @ stream cs"
  by (simp_all add: stream_def)

lemma length_stream [simp]: "length (stream bs) = 8 * length bs"
  by (induction bs) simp_all

lemma length_concat_be [simp]: "length (concat (map (be w) xs)) = w * length xs"
  by (induction xs) simp_all

lemma concat_map_Nil [simp]: "concat (map (\<lambda>x. []) xs) = []"
  by (induction xs) simp_all

lemma bit_imp_less: "unat x < 2 ^ n \<Longrightarrow> bit (x :: 'a::len word) i \<Longrightarrow> i < n"
  by (metis bit_take_bit_iff take_bit_nat_eq_self unsigned_take_bit_eq word_unat_eq_iff)

section \<open>Filling a byte\<close>

lemma fill_byte:
  fixes v :: byte and y :: u32
  assumes "used + n \<le> 8" and "take_bit (8 - used) v = 0" and "used = 0 \<or> unat y < 2 ^ n"
  defines "b \<equiv> 8 - used - n"
  defines "c \<equiv> v + lo (push_bit b y)"
  shows "be (used + n) (drop_bit b c) = be used (drop_bit (8 - used) v) @ be n y" and "take_bit b c = 0"
proof -
  have low: "\<not> bit v i" if "i < 8 - used" for i
    using that assms(2) bit_take_bit_iff [of "8 - used" v i] by simp
  have high: "\<not> bit (lo (push_bit b y)) i" if "8 - used \<le> i" "used \<noteq> 0" for i
    using that assms(1,3) bit_imp_less [of y n "i - b"] by (auto simp: bit_simps b_def)
  have v0: "v = 0" if "used = 0"
    using that low by (intro bit_word_eqI) simp
  have "v AND lo (push_bit b y) = 0"
    using low high v0 by (intro bit_word_eqI) (metis and_zero_eq bit_and_iff bit_0_eq bot_apply linorder_not_less)
  then have c: "c = v OR lo (push_bit b y)"
    unfolding c_def by (rule disjunctive_add_eq_or)
  have c_high: "bit c i = bit v i" if "8 - used \<le> i" for i
    using that high [of i] by (cases "used = 0") (auto simp: c bit_or_iff dest: bit_imp_le_length)
  have c_low: "bit c (b + i) = bit y i" if "i < n" for i
    using that assms(1) low by (auto simp: c b_def bit_simps)
  have "be used (drop_bit n (drop_bit b c)) = be used (drop_bit (8 - used) v)"
    using assms(1) by (intro be_cong) (simp add: bit_drop_bit_eq c_high b_def)
  moreover have "be n (drop_bit b c) = be n y"
    by (intro be_cong) (simp add: bit_drop_bit_eq c_low)
  ultimately show "be (used + n) (drop_bit b c) = be used (drop_bit (8 - used) v) @ be n y"
    by (simp only: be_append)
  show "take_bit b c = 0"
    using low by (intro bit_word_eqI) (auto simp: c b_def bit_simps)
qed

section \<open>The packing loop\<close>

text \<open>
  In the loop \<open>used\<close> bits of the byte are taken and \<open>rem\<close> bits of the current number are left to write.
\<close>

lemma pack_rest_stream:
  assumes "b = 8 - int used - int rem" and "used < 8" and "0 < rem" and "rem \<le> w" and "used = 0 \<or> rem = w"
    and "p = [] \<Longrightarrow> rem = w" and "take_bit (8 - used) v = 0" and "\<And>x. x \<in> set p \<Longrightarrow> unat x < 2 ^ w"
  shows "\<exists>k < 8. stream (pack_rest w b v p) =
    be used (drop_bit (8 - used) v) @ (case p of [] \<Rightarrow> [] | x # q \<Rightarrow> be rem x @ concat (map (be w) q)) @ replicate k False"
  using assms
proof (induction w b v p arbitrary: used rem rule: pack_rest.induct)
  case (1 w b v)
  show ?case
  proof (cases "used = 0")
    case False
    have "be (8 - used) v = be (8 - used) 0"
      using 1 by (intro be_cong) (metis bit_0_eq bit_take_bit_iff bot_apply)
    then have "be 8 v = be used (drop_bit (8 - used) v) @ replicate (8 - used) False"
      using be_append [of used "8 - used" v] 1 by (simp add: be_zero)
    then show ?thesis using False 1 by (intro exI [of _ "8 - used"]) simp
  qed (use 1 in simp)
next
  case (2 w b v x p)
  let ?rest = "concat (map (be w) p)"
  have rest: "(case p of [] \<Rightarrow> [] | y # q \<Rightarrow> be w y @ concat (map (be w) q)) = ?rest" by (cases p) simp_all
  have x: "unat x < 2 ^ w" and p: "\<And>y. y \<in> set p \<Longrightarrow> unat y < 2 ^ w" and w: "0 < w" using "2.prems" by auto
  consider "0 < b" | "b < 0" | "b = 0" by linarith
  then show ?case
  proof cases
    case 1
    let ?c = "v + lo (push_bit (nat b) x)" and ?u = "used + rem"
    have nb: "nat b = 8 - used - rem" and u: "?u < 8" using 1 "2.prems" by auto
    have f: "be ?u (drop_bit (8 - ?u) ?c) = be used (drop_bit (8 - used) v) @ be rem x" "take_bit (8 - ?u) ?c = 0"
      using fill_byte [of used rem v x] nb u x "2.prems" by auto
    have "\<exists>k<8. stream (pack_rest w (b - int w) ?c p) = be ?u (drop_bit (8 - ?u) ?c) @ ?rest @ replicate k False"
      using "2.IH"(1) [of ?u w] 1 "2.prems" u f(2) w p rest by simp
    then show ?thesis using 1 f(1) by simp
  next
    case 2
    let ?r = "used + rem - 8" and ?n = "8 - used"
    let ?y = "drop_bit ?r x"
    have nb: "nat (- b) = ?r" and r: "0 < ?r" "?r \<le> w" and rem: "rem = ?n + ?r" using 2 "2.prems" by auto
    have "used = 0 \<or> unat ?y < 2 ^ ?n"
      using "2.prems" x rem by (auto simp: unat_drop_bit less_mult_imp_div_less mult.commute simp flip: power_add)
    then have f: "be 8 (v + lo ?y) = be used (drop_bit ?n v) @ be ?n ?y"
      using fill_byte [of used ?n v ?y] "2.prems" by simp
    have "\<exists>k<8. stream (pack_rest w (b + 8) 0 (x # p)) = be ?r x @ ?rest @ replicate k False"
      using "2.IH"(2) [of 0 ?r] 2 "2.prems" r by simp
    moreover have "be rem x = be ?n ?y @ be ?r x" by (rule be_append [of ?n ?r x, folded rem])
    ultimately show ?thesis using 2 f nb by auto
  next
    case 3
    have "used = 0 \<or> unat x < 2 ^ rem" "used + rem = 8" using "2.prems" x 3 by auto
    then have f: "be 8 (v + lo x) = be used (drop_bit (8 - used) v) @ be rem x"
      using fill_byte [of used rem v x] "2.prems" by simp
    have "\<exists>k<8. stream (pack_rest w (8 - int w) 0 p) = ?rest @ replicate k False"
      using "2.IH"(3) [of 0 w] 3 w p rest by simp
    then show ?thesis using 3 f by auto
  qed
qed

section \<open>The unpacking loop\<close>

lemma take_byte:
  fixes d :: byte and y :: u32
  assumes "be n (drop_bit (8 - pos - n) d) = be n y" and "pos + n \<le> 8" and "pos = 0 \<or> n + s = w" and "n + s \<le> w"
  shows "push_bit s (drop_bit (8 - pos - n) (up d)) AND mask w = push_bit s (take_bit n y)"
proof (rule bit_word_eqI)
  fix i
  assume i: "i < LENGTH(32)"
  have eq: "bit d (8 - pos - n + j) = bit y j" if "j < n" for j
    using be_eq_bits [OF assms(1) that] by (simp add: bit_drop_bit_eq)
  have "\<not> bit d (8 - pos - n + (i - s))" if "n \<le> i - s" "pos = 0"
    using that assms(2) bit_imp_le_length [of d "8 - pos - n + (i - s)"] by auto
  then show "bit (push_bit s (drop_bit (8 - pos - n) (up d)) AND mask w) i = bit (push_bit s (take_bit n y)) i"
    using i eq [of "i - s"] assms(2,3,4)
    by (cases "i - s < n") (auto simp: bit_and_iff bit_push_bit_iff bit_drop_bit_eq bit_take_bit_iff bit_ucast_iff bit_mask_iff)
qed

lemma drop_stream:
  assumes "dp < length data" and "pos \<le> 8"
  shows "drop pos (stream (drop dp data)) = be (8 - pos) (data ! dp) @ stream (drop (Suc dp) data)"
proof -
  have "be 8 (data ! dp) = be pos (drop_bit (8 - pos) (data ! dp)) @ be (8 - pos) (data ! dp)"
    using be_append [of pos "8 - pos" "data ! dp"] assms(2) by simp
  then show ?thesis using assms by (simp add: Cons_nth_drop_Suc [symmetric])
qed

lemma push_drop_bit_split:
  fixes x :: "'a::len word"
  shows "push_bit (r + n) (drop_bit (r + n) x) + push_bit r (take_bit n (drop_bit r x)) = push_bit r (drop_bit r x)"
proof -
  have "push_bit r (drop_bit r x) = push_bit r (push_bit n (drop_bit n (drop_bit r x)) + take_bit n (drop_bit r x))"
    by (simp only: bits_ident)
  then show ?thesis by (simp add: push_bit_add add.commute)
qed

lemma unpack_rest_stream:
  assumes "b = 8 - int pos - int rem" and "pos < 8" and "0 < rem" and "rem \<le> w" and "pos = 0 \<or> rem = w"
    and "ys = [] \<Longrightarrow> rem = w" and "length old = length ys" and "\<And>y. y \<in> set ys \<Longrightarrow> unat y < 2 ^ w"
    and "\<And>x q. ys = x # q \<Longrightarrow> v = push_bit rem (drop_bit rem x)"
    and "drop pos (stream (drop dp data)) = (case ys of [] \<Rightarrow> [] | x # q \<Rightarrow> be rem x @ concat (map (be w) q)) @ r"
    and "m = mask w"
  shows "unpack_rest w m data b v dp old =
    (ys, dp + (pos + (case ys of [] \<Rightarrow> 0 | x # q \<Rightarrow> rem + w * length q) + 7) div 8)"
  using assms
proof (induction w m data b v dp old arbitrary: pos rem ys rule: unpack_rest.induct)
  case (1 w m data b v dp old)
  show ?case
  proof (cases ys)
    case Nil
    then show ?thesis using "1.prems" by (auto simp: unpack_rest_Nil)
  next
    case (Cons x q)
    let ?d = "data ! dp" and ?rest = "concat (map (be w) q)"
    have rest: "(case q of [] \<Rightarrow> [] | y # q \<Rightarrow> be w y @ concat (map (be w) q)) = ?rest" by (cases q) simp_all
    have cnt: "(case q of [] \<Rightarrow> 0 | y # q \<Rightarrow> w + w * length q) = w * length q" by (cases q) simp_all
    have x: "unat x < 2 ^ w" and q: "\<And>y. y \<in> set q \<Longrightarrow> unat y < 2 ^ w" and w: "0 < w"
      and v: "v = push_bit rem (drop_bit rem x)" and str: "drop pos (stream (drop dp data)) = be rem x @ ?rest @ r"
      using "1.prems" Cons by auto
    have m: "m = mask w" using "1.prems" by simp
    have z: "push_bit w (drop_bit w y) = 0" if "y \<in> set q" for y :: u32
      using bit_imp_less [OF q [OF that]] by (intro bit_word_eqI) (fastforce simp: bit_simps)
    have old: "old \<noteq> []" "length (tl old) = length q" using "1.prems" Cons by auto
    have dp: "dp < length data" using arg_cong [OF str, of length] "1.prems"(3) by (simp del: length_concat_be)
    note str' = str [unfolded drop_stream [OF dp less_imp_le [OF "1.prems"(2)]]]
    note go = unpack_rest_steps [OF old(1) dp]
    have next_value: "unpack_rest w m data b' 0 dp' (tl old) = (q, dp' + (pos' + w * length q + 7) div 8)"
      if "b' = 8 - int pos' - int w" "pos' < 8" "drop pos' (stream (drop dp' data)) = ?rest @ r"
        "\<And>pos rem ys. b' = 8 - int pos - int rem \<Longrightarrow> pos < 8 \<Longrightarrow> 0 < rem \<Longrightarrow> rem \<le> w \<Longrightarrow> pos = 0 \<or> rem = w \<Longrightarrow>
          (ys = [] \<Longrightarrow> rem = w) \<Longrightarrow> length (tl old) = length ys \<Longrightarrow> (\<And>y. y \<in> set ys \<Longrightarrow> unat y < 2 ^ w) \<Longrightarrow>
          (\<And>x q. ys = x # q \<Longrightarrow> 0 = push_bit rem (drop_bit rem x)) \<Longrightarrow>
          drop pos (stream (drop dp' data)) = (case ys of [] \<Rightarrow> [] | x # q \<Rightarrow> be rem x @ concat (map (be w) q)) @ r \<Longrightarrow>
          m = mask w \<Longrightarrow> unpack_rest w m data b' 0 dp' (tl old) =
            (ys, dp' + (pos + (case ys of [] \<Rightarrow> 0 | x # q \<Rightarrow> rem + w * length q) + 7) div 8)" for b' dp' pos'
      using that(4) [of pos' w q] that(1,2,3) old(2) q w z m rest cnt by simp
    consider "0 < b" | "b < 0" | "b = 0" by linarith
    then show ?thesis
    proof cases
      case 1
      then have nb: "nat b = 8 - pos - rem" and u: "pos + rem < 8" using "1.prems" by auto
      have "be (8 - pos) ?d = be rem (drop_bit (8 - pos - rem) ?d) @ be (8 - (pos + rem)) ?d"
        using be_append [of rem "8 - pos - rem" ?d] u by simp
      then have d: "be rem (drop_bit (8 - pos - rem) ?d) = be rem x"
        and s: "be (8 - (pos + rem)) ?d @ stream (drop (Suc dp) data) = ?rest @ r"
        using str' by simp_all
      have "drop_bit (nat b) (up ?d) AND m = take_bit rem x"
        using take_byte [OF d, of 0 w] u "1.prems" nb by simp
      then have "v + (drop_bit (nat b) (up ?d) AND m) = x" unfolding v by (simp add: bits_ident)
      moreover have "unpack_rest w m data (b - int w) 0 dp (tl old) = (q, dp + (pos + rem + w * length q + 7) div 8)"
        by (rule next_value [OF _ u _ "1.IH"(1)]) (use "1.prems"(1) u s old dp 1 drop_stream [OF dp, of "pos + rem"] in simp_all)
      ultimately show ?thesis using go(1) [OF 1] Cons by (simp add: add.assoc)
    next
      case 2
      let ?n = "8 - pos" and ?r = "pos + rem - 8"
      have nb: "nat (- b) = ?r" and r: "0 < ?r" "?r \<le> w" and rem: "rem = ?n + ?r" using 2 "1.prems" by auto
      have "be rem x = be ?n (drop_bit ?r x) @ be ?r x" by (rule be_append [of ?n ?r x, folded rem])
      then have d: "be ?n ?d = be ?n (drop_bit ?r x)" and s: "stream (drop (Suc dp) data) = be ?r x @ ?rest @ r"
        using str' by simp_all
      have "push_bit ?r (up ?d) AND m = push_bit ?r (take_bit ?n (drop_bit ?r x))"
        using take_byte [of ?n pos ?d "drop_bit ?r x" ?r w] d "1.prems" r by auto
      moreover have "v + push_bit ?r (take_bit ?n (drop_bit ?r x)) = push_bit ?r (drop_bit ?r x)"
        unfolding v using push_drop_bit_split [of ?r ?n x] by (simp only: add.commute [of ?r] flip: rem)
      ultimately have v': "v + (push_bit (nat (- b)) (up ?d) AND m) = push_bit ?r (drop_bit ?r x)" using nb by simp
      have "unpack_rest w m data (b + 8) (v + (push_bit (nat (- b)) (up ?d) AND m)) (dp + 1) old =
        (ys, dp + 1 + (?r + w * length q + 7) div 8)"
        using "1.IH"(2) [of 0 ?r ys] "1.prems" 2 r Cons v' s old dp by simp
      then show ?thesis using go(2) [OF 2] Cons r by simp
    next
      case 3
      then have u: "pos + rem = 8" and p: "8 - pos = rem" using "1.prems" by auto
      have d: "be rem ?d = be rem x" and s: "stream (drop (Suc dp) data) = ?rest @ r"
        using str' unfolding p by simp_all
      have "up ?d AND m = take_bit rem x" using take_byte [of rem pos ?d x 0 w] d u "1.prems" by auto
      then have "v + (up ?d AND m) = x" unfolding v by (simp add: bits_ident)
      moreover have "unpack_rest w m data (8 - int w) 0 (dp + 1) (tl old) = (q, dp + 1 + (0 + w * length q + 7) div 8)"
        by (rule next_value [OF _ _ _ "1.IH"(3)]) (use s old dp 3 in simp_all)
      ultimately show ?thesis using go(3) [OF 3] Cons u by simp
    qed
  qed
qed

section \<open>Packing and unpacking\<close>

lemma pack_rest_loop_stream:
  assumes "0 < w" and "\<And>x. x \<in> set p \<Longrightarrow> unat x < 2 ^ w"
  shows "\<exists>k<8. stream (pack_rest w (8 - int w) 0 p) = concat (map (be w) p) @ replicate k False"
proof -
  have "(case p of [] \<Rightarrow> [] | x # q \<Rightarrow> be w x @ concat (map (be w) q)) = concat (map (be w) p)" by (cases p) simp_all
  then show ?thesis using pack_rest_stream [of "8 - int w" 0 w w p 0] assms by simp
qed

lemma pack_rest_width_0: "pack_rest 0 8 0 p = []"
proof (induction p)
  case (Cons x p)
  have "lo (push_bit 8 x) = 0" by (rule bit_word_eqI) (auto simp: bit_simps)
  with Cons show ?case by simp
qed simp

lemma pack_unit_stream:
  assumes "length p = 8" and "1 \<le> w" and "w \<le> 32" and "\<And>x. x \<in> set p \<Longrightarrow> unat x < 2 ^ w"
  shows "stream (pack_unit w p) = concat (map (be w) p)" and "length (pack_unit w p) = w"
proof -
  obtain k where k: "k < 8" "stream (pack_unit w p) = concat (map (be w) p) @ replicate k False"
    using pack_rest_loop_stream [of w p] assms by (auto simp: pack_unit_loop)
  from arg_cong [OF k(2), of length] have len: "8 * length (pack_unit w p) = 8 * w + k" using assms(1) by simp
  with k(1) have "k = 0" by presburger
  with k(2) len show "stream (pack_unit w p) = concat (map (be w) p)" "length (pack_unit w p) = w" by simp_all
qed

lemma pack_values_stream:
  assumes "w \<le> 32" and "\<And>x. x \<in> set p \<Longrightarrow> unat x < 2 ^ w"
  shows "\<exists>k<8. stream (pack_values w p) = concat (map (be w) p) @ replicate k False"
  using assms
proof (induction w p rule: pack_values.induct)
  case (1 w p)
  show ?case
  proof (cases "8 \<le> length p")
    case True
    have "\<exists>k<8. stream (pack_values w (drop 8 p)) = concat (map (be w) (drop 8 p)) @ replicate k False"
      using 1 True by (auto dest: in_set_dropD)
    moreover have "stream (pack_unit w (take 8 p)) = concat (map (be w) (take 8 p))"
    proof (cases "w = 0")
      case True
      then show ?thesis by (simp add: pack_unit_def)
    qed (use 1 True in \<open>auto intro!: pack_unit_stream dest: in_set_takeD\<close>)
    moreover have "concat (map (be w) p) = concat (map (be w) (take 8 p)) @ concat (map (be w) (drop 8 p))"
      by (simp flip: concat_append map_append)
    ultimately show ?thesis using True by (simp add: pack_values.simps [of w p])
  next
    case False
    show ?thesis using False pack_rest_loop_stream [of w p] 1
      by (cases "w = 0") (auto simp: pack_values.simps [of _ p] pack_rest_width_0)
  qed
qed

lemma length_pack_values:
  assumes "w \<le> 32" and "\<And>x. x \<in> set p \<Longrightarrow> unat x < 2 ^ w"
  shows "length (pack_values w p) = (w * length p + 7) div 8"
proof -
  obtain k where "k < 8" "stream (pack_values w p) = concat (map (be w) p) @ replicate k False"
    using pack_values_stream [OF assms] by auto
  then have "8 * length (pack_values w p) = w * length p + k" "k < 8"
    using length_stream [of "pack_values w p"] by simp_all
  moreover have "l = (n + 7) div 8" if "8 * l = n + k" "k < 8" for l n :: nat using that by simp
  ultimately show ?thesis by simp
qed

lemma unpack_loop_stream:
  assumes "0 < w" and "length old = length p" and "\<And>x. x \<in> set p \<Longrightarrow> unat x < 2 ^ w"
    and "stream (drop dp data) = concat (map (be w) p) @ r"
  shows "unpack_rest w (mask w) data (8 - int w) 0 dp old = (p, dp + (w * length p + 7) div 8)"
proof -
  have "(case p of [] \<Rightarrow> [] | x # q \<Rightarrow> be w x @ concat (map (be w) q)) = concat (map (be w) p)"
    "(case p of [] \<Rightarrow> 0 | x # q \<Rightarrow> w + w * length q) = w * length p" by (cases p; simp)+
  moreover have "0 = push_bit w (drop_bit w x)" if "p = x # q" for x q
    using bit_imp_less [OF assms(3), of x] that by (intro bit_word_eqI) (fastforce simp: bit_simps)
  ultimately show ?thesis
    using unpack_rest_stream [of "8 - int w" 0 w w p old 0 dp data r "mask w"] assms by simp
qed

lemma unpack_values_pack:
  assumes "1 \<le> w" and "w \<le> 32" and "\<And>x. x \<in> set p \<Longrightarrow> unat x < 2 ^ w" and "length old = length p"
    and "drop dp data = pack_values w p @ r" and "m = mask w \<or> 8 dvd length p"
  shows "unpack_values w m data dp old = Inr (p, dp + length (pack_values w p))"
  using assms
proof (induction w p arbitrary: dp old rule: pack_values.induct)
  case (1 w p)
  show ?case
  proof (cases "8 \<le> length p")
    case True
    let ?u = "take 8 p" and ?q = "drop 8 p"
    have u: "stream (pack_unit w ?u) = concat (map (be w) ?u)" "length (pack_unit w ?u) = w"
      by (rule pack_unit_stream; use True "1.prems" in \<open>auto dest: in_set_takeD\<close>)+
    have data: "drop dp data = pack_unit w ?u @ pack_values w ?q @ r"
      using "1.prems"(5) True by (simp add: pack_values.simps [of w p])
    have len: "dp + w \<le> length data" using arg_cong [OF data, of length] u(2) "1.prems"(1) by simp
    have "unpack_rest w (mask w) (drop dp data) (8 - int w) 0 0 (take 8 old) = (?u, 0 + (w * length ?u + 7) div 8)"
      by (rule unpack_loop_stream [where r = "stream (pack_values w ?q @ r)"])
        (use True "1.prems" data u in \<open>auto dest: in_set_takeD\<close>)
    moreover have "unpack_rest w (mask w) (drop dp data) (8 - int w) 0 0 (take 8 old) = (unpack_unit w (drop dp data), w)"
      by (rule unpack_unit_loop) (use True "1.prems"(1,2,4) len in auto)
    ultimately have v: "unpack_unit w (drop dp data) = ?u" by simp
    have "drop (dp + w) data = pack_values w ?q @ r"
      using data u(2) by (metis add.commute append_eq_conv_conj drop_drop)
    then have "unpack_values w m data (dp + w) (drop 8 old) = Inr (?q, dp + w + length (pack_values w ?q))"
      by (intro "1.IH" [OF True]) (use "1.prems" in \<open>auto dest: in_set_dropD simp: dvd_diff_nat\<close>)
    then show ?thesis
      using True "1.prems" len v u(2)
      by (simp add: unpack_values.simps [of w m data dp old] pack_values.simps [of w p])
  next
    case False
    obtain k where "stream (pack_values w p) = concat (map (be w) p) @ replicate k False"
      using pack_values_stream "1.prems" by blast
    then have str: "stream (drop dp data) = concat (map (be w) p) @ replicate k False @ stream r"
      using "1.prems"(5) by simp
    have "unpack_rest w m data (8 - int w) 0 dp old = (p, dp + (w * length p + 7) div 8)"
    proof (cases "p = []")
      case True
      then show ?thesis using "1.prems" by (simp add: unpack_rest_Nil)
    next
      case p: False
      then have "\<not> 8 dvd length p" using False by (auto dest: dvd_imp_le)
      then show ?thesis using unpack_loop_stream [OF _ _ _ str, of old] "1.prems" by simp
    qed
    then show ?thesis
      using False "1.prems" length_pack_values [of w p] by (simp add: unpack_values.simps [of w m data dp old])
  qed
qed

end
