(* ===== verification/StrCode.thy ===== *)
theory StrCode
  imports Prelude
begin

text \<open>
  The compact encodings of numbers: record ids in five characters (\<^verbatim>\<open>grn_itob\<close>, \<^verbatim>\<open>grn_btoi\<close>), 64-bit numbers in
  thirteen characters that sort like the numbers (\<^verbatim>\<open>grn_lltob32h\<close>, \<^verbatim>\<open>grn_ulltob32h\<close>), all of \<^verbatim>\<open>lib/str.c\<close>, and the
  variable length code of 32-bit numbers that the posting lists use (\<^verbatim>\<open>GRN_B_ENC\<close> and its companions of
  \<^verbatim>\<open>lib/grn_io.h\<close>).  Buffers are lists of bytes; a read past the end of a buffer is \<open>None\<close>.
\<close>

section \<open>Ids in five characters\<close>

definition i2b_chars :: "byte list" where
  "i2b_chars =
    [0x41, 0x42, 0x43, 0x44, 0x45, 0x46, 0x47, 0x48, 0x49, 0x4a, 0x4b, 0x4c, 0x4d, 0x4e, 0x4f, 0x50,
     0x51, 0x52, 0x53, 0x54, 0x55, 0x56, 0x57, 0x58, 0x59, 0x5a, 0x61, 0x62, 0x63, 0x64, 0x65, 0x66,
     0x67, 0x68, 0x69, 0x6a, 0x6b, 0x6c, 0x6d, 0x6e, 0x6f, 0x70, 0x71, 0x72, 0x73, 0x74, 0x75, 0x76,
     0x77, 0x78, 0x79, 0x7a, 0x30, 0x31, 0x32, 0x33, 0x34, 0x35, 0x36, 0x37, 0x38, 0x39, 0x2b, 0x2f]"

definition b2i_codes :: "byte list" where
  "b2i_codes =
    [0x3e, 0xff, 0xff, 0xff, 0x3f, 0x34, 0x35, 0x36, 0x37, 0x38, 0x39, 0x3a, 0x3b, 0x3c, 0x3d, 0xff,
     0xff, 0xff, 0xff, 0xff, 0xff, 0xff, 0x0, 0x1, 0x2, 0x3, 0x4, 0x5, 0x6, 0x7, 0x8, 0x9,
     0xa, 0xb, 0xc, 0xd, 0xe, 0xf, 0x10, 0x11, 0x12, 0x13, 0x14, 0x15, 0x16, 0x17, 0x18, 0x19,
     0xff, 0xff, 0xff, 0xff, 0xff, 0xff, 0x1a, 0x1b, 0x1c, 0x1d, 0x1e, 0x1f, 0x20, 0x21, 0x22, 0x23,
     0x24, 0x25, 0x26, 0x27, 0x28, 0x29, 0x2a, 0x2b, 0x2c, 0x2d, 0x2e, 0x2f, 0x30, 0x31, 0x32, 0x33]"

definition I2B :: "u32 \<Rightarrow> byte" where
  "I2B i = i2b_chars ! unat (i AND 0x3f)"

definition B2I :: "byte \<Rightarrow> byte" where
  "B2I b = (if b < 0x2b \<or> 0x7a < b then 0xff else b2i_codes ! unat (b - 0x2b))"

definition MASK :: u32 where "MASK = 0x34d34d34"

definition grn_itob :: "u32 \<Rightarrow> byte list" where
  "grn_itob i =
     (let i = i XOR MASK
      in [I2B (drop_bit 24 i), I2B (drop_bit 18 i), I2B (drop_bit 12 i), I2B (drop_bit 6 i), I2B i])"

text \<open>The loop of \<^verbatim>\<open>grn_btoi\<close>; the id 0 reports a character that is no code.\<close>

fun btoi_loop :: "nat \<Rightarrow> u32 \<Rightarrow> byte list \<Rightarrow> u32 option" where
  "btoi_loop 0 i b = Some (i XOR MASK)"
| "btoi_loop (Suc len) i [] = None"
| "btoi_loop (Suc len) i (c # b) =
     (if B2I c = 0xff then Some 0 else btoi_loop len (push_bit 6 i + ucast (B2I c)) b)"

definition grn_btoi :: "byte list \<Rightarrow> u32 option" where
  "grn_btoi b = btoi_loop 5 0 b"

section \<open>Numbers in thirteen characters\<close>

definition i2b32h_chars :: "byte list" where
  "i2b32h_chars =
    [0x30, 0x31, 0x32, 0x33, 0x34, 0x35, 0x36, 0x37, 0x38, 0x39, 0x41, 0x42, 0x43, 0x44, 0x45, 0x46,
     0x47, 0x48, 0x49, 0x4a, 0x4b, 0x4c, 0x4d, 0x4e, 0x4f, 0x50, 0x51, 0x52, 0x53, 0x54, 0x55, 0x56]"

definition I2B32H :: "u64 \<Rightarrow> byte" where
  "I2B32H i = i2b32h_chars ! unat (i AND 0x1f)"

definition grn_lltob32h :: "u64 \<Rightarrow> byte list" where
  "grn_lltob32h i =
     (let u = i + 0x8000000000000000
      in map (\<lambda>k. I2B32H (drop_bit k u)) [60, 55, 50, 45, 40, 35, 30, 25, 20, 15, 10, 5, 0])"

definition grn_ulltob32h :: "u64 \<Rightarrow> byte list" where
  "grn_ulltob32h i =
     (let lb = ucast (drop_bit 59 i AND 0x10); i = i + 0x8000000000000000
      in (lb + I2B32H (drop_bit 60 i)) #
         map (\<lambda>k. I2B32H (drop_bit k i)) [55, 50, 45, 40, 35, 30, 25, 20, 15, 10, 5, 0])"

section \<open>The variable length code\<close>

definition GRN_B_ENC :: "u32 \<Rightarrow> byte list" where
  "GRN_B_ENC v =
     (if v < 0x8f then [ucast v]
      else if v < 0x408f then
        let v = v - 0x8f in [ucast (0xc0 + drop_bit 8 v), ucast (v AND 0xff)]
      else if v < 0x20408f then
        let v = v - 0x408f
        in [ucast (0xa0 + drop_bit 16 v), ucast (drop_bit 8 v AND 0xff), ucast (v AND 0xff)]
      else if v < 0x1020408f then
        let v = v - 0x20408f
        in [ucast (0x90 + drop_bit 24 v), ucast (drop_bit 16 v AND 0xff), ucast (drop_bit 8 v AND 0xff), ucast (v AND 0xff)]
      else 0x8f # u32_bytes v)"

definition GRN_B_ENC_SIZE :: "u32 \<Rightarrow> nat" where
  "GRN_B_ENC_SIZE v =
     (if v < 0x8f then 1 else if v < 0x408f then 2 else if v < 0x20408f then 3 else if v < 0x1020408f then 4 else 5)"

fun GRN_B_DEC :: "byte list \<Rightarrow> (u32 \<times> byte list) option" where
  "GRN_B_DEC [] = None"
| "GRN_B_DEC (b # p) =
     (let v = ucast b; k = unat (drop_bit 4 v)
      in if k = 8 then
           if v = 0x8f then if length p < 4 then None else Some (get_u32 p, drop 4 p) else Some (v, p)
         else if k = 9 then
           (case p of b1 # b2 # b3 # p \<Rightarrow>
              Some ((((v - 0x90) * 0x100 + ucast b1) * 0x100 + ucast b2) * 0x100 + ucast b3 + 0x20408f, p) | _ \<Rightarrow> None)
         else if k = 10 \<or> k = 11 then
           (case p of b1 # b2 # p \<Rightarrow> Some (((v - 0xa0) * 0x100 + ucast b1) * 0x100 + ucast b2 + 0x408f, p) | _ \<Rightarrow> None)
         else if k = 12 \<or> k = 13 \<or> k = 14 \<or> k = 15 then
           (case p of b1 # p \<Rightarrow> Some ((v - 0xc0) * 0x100 + ucast b1 + 0x8f, p) | _ \<Rightarrow> None)
         else Some (v, p))"

text \<open>
  \<^verbatim>\<open>GRN_B_SKIP\<close> and \<^verbatim>\<open>GRN_B_COPY\<close> look at the first byte only.  \<^verbatim>\<open>GRN_B_SKIP\<close> does not read what it skips: a
  skip past the end of the buffer leaves the pointer outside of it, which is \<open>None\<close> as well.
\<close>

definition skip_bytes :: "nat \<Rightarrow> byte list \<Rightarrow> byte list option" where
  "skip_bytes n p = (if length p < n then None else Some (drop n p))"

fun GRN_B_SKIP :: "byte list \<Rightarrow> byte list option" where
  "GRN_B_SKIP [] = None"
| "GRN_B_SKIP (b # p) =
     (let v = (ucast b :: u32); k = unat (drop_bit 4 v)
      in if k = 8 then skip_bytes (if v = 0x8f then 4 else 0) p
         else if k = 9 then skip_bytes 3 p
         else if k = 10 \<or> k = 11 then skip_bytes 2 p
         else if k = 12 \<or> k = 13 \<or> k = 14 \<or> k = 15 then skip_bytes 1 p
         else Some p)"

fun copy_bytes :: "nat \<Rightarrow> byte list \<Rightarrow> byte list \<Rightarrow> (byte list \<times> byte list) option" where
  "copy_bytes 0 p2 p1 = Some (p2, p1)"
| "copy_bytes (Suc n) p2 [] = None"
| "copy_bytes (Suc n) p2 (b # p1) = copy_bytes n (p2 @ [b]) p1"

fun GRN_B_COPY :: "byte list \<Rightarrow> (byte list \<times> byte list) option" where
  "GRN_B_COPY [] = None"
| "GRN_B_COPY (b # p1) =
     (let v = (ucast b :: u32); k = unat (drop_bit 4 v);
          n = (if k = 8 then if v = 0x8f then 4 else 0
               else if k = 9 then 3
               else if k = 10 \<or> k = 11 then 2
               else if k = 12 \<or> k = 13 \<or> k = 14 \<or> k = 15 then 1
               else 0)
      in copy_bytes n [b] p1)"

section \<open>Ids: decoding inverts encoding\<close>

lemma b2i_i2b_table: "list_all (\<lambda>n. B2I (i2b_chars ! n) = of_nat n \<and> B2I (i2b_chars ! n) \<noteq> 0xff) [0..<64]"
  by code_simp

lemma and_63: "i AND 0x3f = take_bit 6 (i :: u32)"
  by (simp add: take_bit_eq_mask mask_eq_exp_minus_1)

lemma B2I_I2B: "ucast (B2I (I2B i)) = take_bit 6 i" and B2I_I2B_valid: "B2I (I2B i) \<noteq> 0xff"
proof -
  have lt: "unat (take_bit 6 i) < 64" unfolding unat_take_bit by simp
  then have "unat (take_bit 6 i) \<in> set [0..<64]" by simp
  with b2i_i2b_table have t: "B2I (I2B i) = of_nat (unat (take_bit 6 i)) \<and> B2I (I2B i) \<noteq> 0xff"
    unfolding list_all_iff I2B_def and_63 by (rule bspec)
  then show "B2I (I2B i) \<noteq> 0xff" by (rule conjunct2)
  have "unat (ucast (B2I (I2B i)) :: u32) = unat (take_bit 6 i)"
    using t lt by (simp only: unat_ucast_byte unat_of_nat) simp
  then show "ucast (B2I (I2B i)) = take_bit 6 i" by (simp only: unat_inj)
qed

lemma btoi_step: "btoi_loop (Suc len) (drop_bit (k + 6) i) (I2B (drop_bit k i) # b) = btoi_loop len (drop_bit k i) b"
proof -
  have "drop_bit (k + 6) i = drop_bit 6 (drop_bit k i)" by (simp add: add.commute)
  then show ?thesis using bits_ident [of 6 "drop_bit k i"] by (simp add: B2I_I2B B2I_I2B_valid)
qed

lemma btoi_digits:
  assumes "drop_bit 30 j = 0"
  shows "btoi_loop 5 0 [I2B (drop_bit 24 j), I2B (drop_bit 18 j), I2B (drop_bit 12 j), I2B (drop_bit 6 j), I2B j] = Some (j XOR MASK)"
proof -
  have "btoi_loop 5 0 (I2B (drop_bit 24 j) # b) = btoi_loop 4 (drop_bit 24 j) b" for b
    using btoi_step [of 4 24 j b] assms by simp
  moreover have "btoi_loop 4 (drop_bit 24 j) (I2B (drop_bit 18 j) # b) = btoi_loop 3 (drop_bit 18 j) b" for b
    using btoi_step [of 3 18 j b] by simp
  moreover have "btoi_loop 3 (drop_bit 18 j) (I2B (drop_bit 12 j) # b) = btoi_loop 2 (drop_bit 12 j) b" for b
    using btoi_step [of 2 12 j b] by simp
  moreover have "btoi_loop 2 (drop_bit 12 j) (I2B (drop_bit 6 j) # b) = btoi_loop (Suc 0) (drop_bit 6 j) b" for b
    using btoi_step [of "Suc 0" 6 j b] by (simp add: numeral_2_eq_2 del: btoi_loop.simps(3))
  ultimately show ?thesis using btoi_step [of 0 0 j "[]"] by (simp del: btoi_loop.simps(3))
qed

text \<open>Ids are at most \<^verbatim>\<open>GRN_ID_MAX\<close>, 30 bits, and so is the mask.\<close>

lemma btoi_itob:
  assumes "i < 2 ^ 30"
  shows "grn_btoi (grn_itob i) = Some i"
proof -
  have "unat i < 2 ^ 30" using assms by (simp add: word_less_nat_alt)
  then have "unat (take_bit 30 i) = unat i" unfolding unat_take_bit by simp
  then have "take_bit 30 i = i" by (simp only: unat_inj)
  then have "take_bit 30 (i XOR MASK) = i XOR MASK" by (simp add: MASK_def)
  then have "unat (i XOR MASK) < 2 ^ 30" by (metis unat_take_bit mod_less_divisor zero_less_numeral zero_less_power)
  then have "unat (drop_bit 30 (i XOR MASK)) = 0" by (simp only: unat_drop_bit) simp
  then have "drop_bit 30 (i XOR MASK) = 0" by (simp only: unat_eq_0)
  then show ?thesis using btoi_digits [of "i XOR MASK"] by (simp add: grn_btoi_def grn_itob_def Let_def xor.assoc del: drop_bit_xor)
qed

section \<open>Thirteen characters sort like the numbers\<close>

text \<open>The order of \<^verbatim>\<open>memcmp\<close> on byte strings of the same length.\<close>

fun bytes_less :: "byte list \<Rightarrow> byte list \<Rightarrow> bool" where
  "bytes_less (x # xs) (y # ys) \<longleftrightarrow> x < y \<or> (x = y \<and> bytes_less xs ys)"
| "bytes_less _ _ \<longleftrightarrow> False"

lemma b32h_table: "list_all (\<lambda>m. list_all (\<lambda>n. (i2b32h_chars ! m < i2b32h_chars ! n) = (m < n)) [0..<32]) [0..<32]"
  by code_simp

lemma b32h_chars_mono:
  assumes "m < 32" "n < 32"
  shows "i2b32h_chars ! m < i2b32h_chars ! n \<longleftrightarrow> m < n"
proof -
  have "m \<in> set [0..<32]" "n \<in> set [0..<32]" using assms by simp_all
  with b32h_table show ?thesis unfolding list_all_iff by blast
qed

lemma I2B32H_eq: "I2B32H (drop_bit k u) = i2b32h_chars ! (unat u div 2 ^ k mod 32)"
proof -
  have "drop_bit k u AND 0x1f = take_bit 5 (drop_bit k u)" by (simp add: take_bit_eq_mask mask_eq_exp_minus_1)
  then have "unat (drop_bit k u AND 0x1f) = unat u div 2 ^ k mod 2 ^ 5" by (simp only: unat_take_bit unat_drop_bit)
  then show ?thesis by (simp add: I2B32H_def)
qed

text \<open>The last \<open>n\<close> digits.\<close>

definition b32h_tail :: "nat \<Rightarrow> u64 \<Rightarrow> byte list" where
  "b32h_tail n u = map (\<lambda>k. I2B32H (drop_bit (5 * k) u)) (rev [0..<n])"

lemma b32h_tail_Suc: "b32h_tail (Suc n) u = I2B32H (drop_bit (5 * n) u) # b32h_tail n u"
  by (simp add: b32h_tail_def)

lemma lex_of_div_mod:
  assumes "x < m" "y < m"
  shows "m * a + x < m * b + y \<longleftrightarrow> a < b \<or> a = b \<and> x < (y :: nat)"
proof -
  have "(m * a + x) div m = a" "(m * a + x) mod m = x" "(m * b + y) div m = b" "(m * b + y) mod m = y"
    using assms by simp_all
  moreover have "m * a + x < m * b + y" if "a < b"
    using mult_le_mono2 [of "Suc a" b m] that assms by simp
  moreover have "m * b + y < m * a + x" if "b < a"
    using mult_le_mono2 [of "Suc b" a m] that assms by simp
  ultimately show ?thesis by (cases a b rule: linorder_cases) auto
qed

lemma b32h_tail_order:
  "bytes_less (b32h_tail n u) (b32h_tail n v) \<longleftrightarrow> unat u mod 32 ^ n < unat v mod 32 ^ n"
proof (induction n)
  case 0
  then show ?case by (simp add: b32h_tail_def)
next
  case (Suc n)
  define a b where "a = unat u div 32 ^ n mod 32" and "b = unat v div 32 ^ n mod 32"
  have p: "(2 :: nat) ^ (5 * n) = 32 ^ n" by (simp add: power_mult)
  have ab: "a < 32" "b < 32" by (simp_all add: a_def b_def)
  have "unat u mod 32 ^ Suc n = 32 ^ n * a + unat u mod 32 ^ n" "unat v mod 32 ^ Suc n = 32 ^ n * b + unat v mod 32 ^ n"
    using mod_mult2_eq [of _ "32 ^ n" 32] by (simp_all add: a_def b_def mult.commute)
  moreover have "32 ^ n * a + x < 32 ^ n * b + y \<longleftrightarrow> a < b \<or> a = b \<and> x < y" if "x < 32 ^ n" "y < 32 ^ n" for x y :: nat
    using that lex_of_div_mod [of x "32 ^ n" y a b] by simp
  moreover have "bytes_less (b32h_tail (Suc n) u) (b32h_tail (Suc n) v) \<longleftrightarrow> a < b \<or> a = b \<and> unat u mod 32 ^ n < unat v mod 32 ^ n"
    using Suc b32h_chars_mono [OF ab] b32h_chars_mono [OF ab(2,1)] ab
    by (auto simp: b32h_tail_Suc I2B32H_eq p simp flip: a_def b_def)
  ultimately show ?case by simp
qed

lemma biased_order: "unat (i + 0x8000000000000000 :: u64) < unat (j + 0x8000000000000000) \<longleftrightarrow> i <s j"
proof -
  have "sint k = uint (k + 0x8000000000000000) - 2 ^ 63" for k :: u64
  proof -
    have "sint k = signed_take_bit (LENGTH(64) - 1) (uint k)" by (simp add: sint_uint)
    also have "\<dots> = take_bit 64 (uint k + 2 ^ 63) - 2 ^ 63" by (simp add: signed_take_bit_eq_take_bit_shift)
    also have "take_bit 64 (uint k + 2 ^ 63) = uint (k + 0x8000000000000000)"
      by (simp add: uint_word_ariths take_bit_eq_mod)
    finally show ?thesis .
  qed
  then show ?thesis by (simp add: word_sless_alt flip: word_less_nat_alt word_less_def)
qed

lemma lltob32h_order: "bytes_less (grn_lltob32h i) (grn_lltob32h j) \<longleftrightarrow> i <s j"
proof -
  have "grn_lltob32h k = b32h_tail 13 (k + 0x8000000000000000)" for k
    by (simp add: grn_lltob32h_def b32h_tail_def upt_rec Let_def)
  moreover have "unat w mod 32 ^ 13 = unat w" for w :: u64
  proof -
    have "unat w < 2 ^ LENGTH(64)" by (rule unsigned_less)
    then show ?thesis by (intro mod_less) simp
  qed
  ultimately show ?thesis by (simp only: b32h_tail_order biased_order)
qed

section \<open>The variable length code is a prefix code\<close>

lemma unat_and_ff: "unat (v AND 0xff :: u32) = unat v mod 256"
proof -
  have "v AND 0xff = take_bit 8 v" by (simp add: take_bit_eq_mask mask_eq_exp_minus_1)
  then have "unat (v AND 0xff) = unat v mod 2 ^ 8" by (simp only: unat_take_bit)
  then show ?thesis by simp
qed

lemma of_nat_drop_bit: "n < 2 ^ 32 \<Longrightarrow> drop_bit k (of_nat n :: u32) = of_nat (n div 2 ^ k)"
proof -
  assume n: "n < 2 ^ 32"
  have "n div 2 ^ k < 2 ^ 32" using n by (rule le_less_trans [OF div_le_dividend])
  then have "unat (drop_bit k (of_nat n :: u32)) = unat (of_nat (n div 2 ^ k) :: u32)"
    using n unfolding unat_drop_bit by (simp add: unat_of_nat)
  then show ?thesis by (simp only: unat_inj)
qed

lemma of_nat_and_ff: "n < 2 ^ 32 \<Longrightarrow> (of_nat n :: u32) AND 0xff = of_nat (n mod 256)"
proof -
  assume "n < 2 ^ 32"
  moreover have "n mod 256 < 2 ^ 32" by (rule less_trans [OF mod_less_divisor]) simp_all
  ultimately have "unat ((of_nat n :: u32) AND 0xff) = unat (of_nat (n mod 256) :: u32)"
    unfolding unat_and_ff by (simp add: unat_of_nat)
  then show ?thesis by (simp only: unat_inj)
qed

lemma ucast_of_nat_byte: "n < 256 \<Longrightarrow> ucast (of_nat n :: u32) = (of_nat n :: byte)"
proof -
  assume "n < 256"
  then have "unat (ucast (of_nat n :: u32) :: byte) = unat (of_nat n :: byte)"
    by (simp add: unsigned_ucast_eq unat_of_nat take_bit_eq_mod)
  then show ?thesis by (simp only: unat_inj)
qed

lemma unat_nibble: "unat (drop_bit 4 (ucast (b :: byte) :: u32)) = unat b div 16"
  by (simp only: unat_drop_bit unat_ucast_byte) simp

text \<open>How many bytes follow the first one.\<close>

definition b_rest_size :: "byte \<Rightarrow> nat" where
  "b_rest_size b =
     (let k = unat b div 16
      in if k = 8 then if b = 0x8f then 4 else 0 else if k = 9 then 3 else if k = 10 \<or> k = 11 then 2
         else if k = 12 \<or> k = 13 \<or> k = 14 \<or> k = 15 then 1 else 0)"

lemma ucast_byte_8f: "(ucast (b :: byte) :: u32) = 0x8f \<longleftrightarrow> b = 0x8f"
proof -
  have "(ucast b :: u32) = 0x8f \<longleftrightarrow> unat (ucast b :: u32) = unat (0x8f :: u32)" by (simp only: unat_inj)
  also have "\<dots> \<longleftrightarrow> unat b = unat (0x8f :: byte)" by simp
  finally show ?thesis by (simp only: unat_inj)
qed

lemma GRN_B_SKIP_eq: "GRN_B_SKIP (b # p) = skip_bytes (b_rest_size b) p"
  by (simp add: b_rest_size_def unat_nibble ucast_byte_8f Let_def skip_bytes_def)

lemma copy_bytes_eq: "copy_bytes n q p = (if length p < n then None else Some (q @ take n p, drop n p))"
  by (induction n q p rule: copy_bytes.induct) auto

lemma GRN_B_COPY_eq:
  "GRN_B_COPY (b # p) = (if length p < b_rest_size b then None else Some (b # take (b_rest_size b) p, drop (b_rest_size b) p))"
  by (simp add: b_rest_size_def unat_nibble ucast_byte_8f Let_def copy_bytes_eq)

lemma GRN_B_ENC_1: "unat v < 0x8f \<Longrightarrow> GRN_B_ENC v = [of_nat (unat v)]"
  using ucast_of_nat_byte [of "unat v"] by (simp add: GRN_B_ENC_def word_less_nat_alt)

lemma word_minus_of_nat: "k \<le> unat v \<Longrightarrow> v - of_nat k = (of_nat (unat v - k) :: u32)"
  by (simp add: of_nat_diff)

lemma GRN_B_ENC_2:
  assumes "0x8f \<le> unat v" "unat v < 0x408f"
  shows "GRN_B_ENC v = (let n = unat v - 0x8f in [of_nat (0xc0 + n div 256), of_nat (n mod 256)])"
proof -
  define n where "n = unat v - 0x8f"
  have v: "v - 0x8f = of_nat n" using word_minus_of_nat [OF assms(1)] by (simp add: n_def)
  have n: "n < 0x4000" using assms by (simp add: n_def)
  have "0xc0 + drop_bit 8 (of_nat n) = (of_nat (0xc0 + n div 256) :: u32)" using n by (simp add: of_nat_drop_bit)
  moreover have "0xc0 + n div 256 < 256" using n by linarith
  ultimately show ?thesis using assms n v ucast_of_nat_byte [of "0xc0 + n div 256"] ucast_of_nat_byte [of "n mod 256"]
    by (simp add: GRN_B_ENC_def word_less_nat_alt of_nat_and_ff Let_def flip: n_def del: of_nat_add)
qed

lemma GRN_B_ENC_3:
  assumes "0x408f \<le> unat v" "unat v < 0x20408f"
  shows "GRN_B_ENC v =
    (let n = unat v - 0x408f in [of_nat (0xa0 + n div 65536), of_nat (n div 256 mod 256), of_nat (n mod 256)])"
proof -
  define n where "n = unat v - 0x408f"
  have v: "v - 0x408f = of_nat n" using word_minus_of_nat [OF assms(1)] by (simp add: n_def)
  have n: "n < 0x200000" using assms by (simp add: n_def)
  have "0xa0 + drop_bit 16 (of_nat n) = (of_nat (0xa0 + n div 65536) :: u32)" using n by (simp add: of_nat_drop_bit)
  moreover have "0xa0 + n div 65536 < 256" "n div 256 < 4294967296" using n by linarith+
  ultimately show ?thesis
    using assms n v ucast_of_nat_byte [of "0xa0 + n div 65536"] ucast_of_nat_byte [of "n div 256 mod 256"] ucast_of_nat_byte [of "n mod 256"]
    by (simp add: GRN_B_ENC_def word_less_nat_alt of_nat_and_ff of_nat_drop_bit Let_def flip: n_def del: of_nat_add)
qed

lemma GRN_B_ENC_4:
  assumes "0x20408f \<le> unat v" "unat v < 0x1020408f"
  shows "GRN_B_ENC v =
    (let n = unat v - 0x20408f
     in [of_nat (0x90 + n div 16777216), of_nat (n div 65536 mod 256), of_nat (n div 256 mod 256), of_nat (n mod 256)])"
proof -
  define n where "n = unat v - 0x20408f"
  have v: "v - 0x20408f = of_nat n" using word_minus_of_nat [OF assms(1)] by (simp add: n_def)
  have n: "n < 0x10000000" using assms by (simp add: n_def)
  have "0x90 + drop_bit 24 (of_nat n) = (of_nat (0x90 + n div 16777216) :: u32)" using n by (simp add: of_nat_drop_bit)
  moreover have "0x90 + n div 16777216 < 256" "n div 256 < 4294967296" "n div 65536 < 4294967296" using n by linarith+
  ultimately show ?thesis
    using assms n v ucast_of_nat_byte [of "0x90 + n div 16777216"] ucast_of_nat_byte [of "n div 65536 mod 256"]
      ucast_of_nat_byte [of "n div 256 mod 256"] ucast_of_nat_byte [of "n mod 256"]
    by (simp add: GRN_B_ENC_def word_less_nat_alt of_nat_and_ff of_nat_drop_bit Let_def flip: n_def del: of_nat_add)
qed

lemma GRN_B_ENC_5: "0x1020408f \<le> unat v \<Longrightarrow> GRN_B_ENC v = 0x8f # u32_bytes v"
  by (simp add: GRN_B_ENC_def word_less_nat_alt)

lemma b_enc_cases:
  obtains "unat v < 0x8f" | "0x8f \<le> unat v" "unat v < 0x408f" | "0x408f \<le> unat v" "unat v < 0x20408f"
    | "0x20408f \<le> unat v" "unat v < 0x1020408f" | "0x1020408f \<le> unat (v :: u32)"
  by linarith

lemma byte_of_nat:
  assumes "n < 256"
  shows "unat (of_nat n :: byte) = n" and "(ucast (of_nat n :: byte) :: u32) = of_nat n"
proof -
  show u: "unat (of_nat n :: byte) = n" using assms by (simp add: unat_of_nat)
  have "unat (ucast (of_nat n :: byte) :: u32) = unat (of_nat n :: u32)"
    using assms u by (simp only: unat_ucast_byte) (simp add: unat_of_nat)
  then show "(ucast (of_nat n :: byte) :: u32) = of_nat n" by (simp only: unat_inj)
qed

lemma b_enc_length: "length (GRN_B_ENC v) = GRN_B_ENC_SIZE v"
  by (simp add: GRN_B_ENC_def GRN_B_ENC_SIZE_def Let_def)

lemma b_enc_first:
  "\<exists>b bs. GRN_B_ENC v = b # bs \<and> b_rest_size b = length bs"
proof (cases v rule: b_enc_cases)
  case 1
  then have "unat (of_nat (unat v) :: byte) = unat v" by (intro byte_of_nat) simp
  moreover from this have "of_nat (unat v) \<noteq> (0x8f :: byte)" using 1 by auto
  moreover have "unat v div 16 \<le> 8" using 1 by linarith
  ultimately show ?thesis using 1 by (simp add: GRN_B_ENC_1 b_rest_size_def Let_def)
next
  case 2
  define n where "n = unat v - 0x8f"
  have n: "n < 0x4000" using 2 by (simp add: n_def)
  then have "0xc0 + n div 256 < 256" by linarith
  moreover have "(0xc0 + n div 256) div 16 \<in> {12, 13, 14, 15}" using n by auto
  ultimately show ?thesis using GRN_B_ENC_2 [OF 2] byte_of_nat(1) [of "0xc0 + n div 256"]
    by (auto simp add: b_rest_size_def Let_def simp flip: n_def)
next
  case 3
  define n where "n = unat v - 0x408f"
  have n: "n < 0x200000" using 3 by (simp add: n_def)
  then have "0xa0 + n div 65536 < 256" by linarith
  moreover have "(0xa0 + n div 65536) div 16 \<in> {10, 11}" using n by auto
  ultimately show ?thesis using GRN_B_ENC_3 [OF 3] byte_of_nat(1) [of "0xa0 + n div 65536"]
    by (auto simp add: b_rest_size_def Let_def simp flip: n_def)
next
  case 4
  define n where "n = unat v - 0x20408f"
  have n: "n < 0x10000000" using 4 by (simp add: n_def)
  then have "0x90 + n div 16777216 < 256" by linarith
  moreover have "(0x90 + n div 16777216) div 16 = 9" using n by auto
  ultimately show ?thesis using GRN_B_ENC_4 [OF 4] byte_of_nat(1) [of "0x90 + n div 16777216"]
    by (auto simp add: b_rest_size_def Let_def simp flip: n_def)
next
  case 5
  then show ?thesis by (simp add: GRN_B_ENC_5 b_rest_size_def)
qed

lemma div_256_twice: "(n :: nat) div 65536 = n div 256 div 256"
  by (simp flip: div_mult2_eq)

lemma div_256_thrice: "(n :: nat) div 16777216 = n div 256 div 256 div 256"
  by (simp flip: div_mult2_eq)

text \<open>Decoding by the first nibble.\<close>

lemma GRN_B_DEC_nibble:
  "unat b div 16 \<in> {12, 13, 14, 15} \<Longrightarrow> GRN_B_DEC (b # b1 # p) = Some ((ucast b - 0xc0) * 0x100 + ucast b1 + 0x8f, p)"
  "unat b div 16 \<in> {10, 11} \<Longrightarrow>
     GRN_B_DEC (b # b1 # b2 # p) = Some (((ucast b - 0xa0) * 0x100 + ucast b1) * 0x100 + ucast b2 + 0x408f, p)"
  "unat b div 16 = 9 \<Longrightarrow>
     GRN_B_DEC (b # b1 # b2 # b3 # p) =
       Some ((((ucast b - 0x90) * 0x100 + ucast b1) * 0x100 + ucast b2) * 0x100 + ucast b3 + 0x20408f, p)"
  by (auto simp only: GRN_B_DEC.simps Let_def unat_nibble insert_iff empty_iff list.case) simp_all

lemma b_dec_enc_2:
  assumes "0x8f \<le> unat v" "unat v < 0x408f"
  shows "GRN_B_DEC (GRN_B_ENC v @ r) = Some (v, r)"
proof -
  define n where "n = unat v - 0x8f"
  have n: "n < 0x4000" "v = of_nat (n + 0x8f)" using assms by (simp_all add: n_def)
  have lt: "0xc0 + n div 256 < 256" using n(1) by linarith
  have k: "(0xc0 + n div 256) div 16 \<in> {12, 13, 14, 15}" using n(1) by auto
  have "(of_nat (0xc0 + n div 256) - 0xc0) * 0x100 + of_nat (n mod 256) + 0x8f = (of_nat (n div 256 * 256 + n mod 256 + 0x8f) :: u32)"
    by (simp only: of_nat_add of_nat_mult of_nat_numeral add_diff_cancel_left')
  then have "(of_nat (0xc0 + n div 256) - 0xc0) * 0x100 + of_nat (n mod 256) + 0x8f = v" using n(2) by (simp only: div_mult_mod_eq)
  then show ?thesis using GRN_B_ENC_2 [OF assms] byte_of_nat [OF lt] byte_of_nat [of "n mod 256"] k
    by (simp add: GRN_B_DEC_nibble(1) Let_def flip: n_def del: of_nat_add GRN_B_DEC.simps)
qed

lemma b_dec_enc_3:
  assumes "0x408f \<le> unat v" "unat v < 0x20408f"
  shows "GRN_B_DEC (GRN_B_ENC v @ r) = Some (v, r)"
proof -
  define n where "n = unat v - 0x408f"
  have n: "n < 0x200000" "v = of_nat (n + 0x408f)" using assms by (simp_all add: n_def)
  have lt: "0xa0 + n div 65536 < 256" using n(1) by linarith
  have k: "(0xa0 + n div 65536) div 16 \<in> {10, 11}" using n(1) by auto
  have "((of_nat (0xa0 + n div 65536) - 0xa0) * 0x100 + of_nat (n div 256 mod 256)) * 0x100 + of_nat (n mod 256) + 0x408f
      = (of_nat ((n div 65536 * 256 + n div 256 mod 256) * 256 + n mod 256 + 0x408f) :: u32)"
    by (simp only: of_nat_add of_nat_mult of_nat_numeral add_diff_cancel_left')
  moreover have "(n div 65536 * 256 + n div 256 mod 256) * 256 + n mod 256 = n"
    by (simp only: div_256_twice div_256_thrice div_mult_mod_eq)
  ultimately have "((of_nat (0xa0 + n div 65536) - 0xa0) * 0x100 + of_nat (n div 256 mod 256)) * 0x100 + of_nat (n mod 256) + 0x408f = v"
    using n(2) by (simp only:)
  then show ?thesis using GRN_B_ENC_3 [OF assms] byte_of_nat [OF lt] byte_of_nat [of "n mod 256"] byte_of_nat [of "n div 256 mod 256"] k
    by (simp add: GRN_B_DEC_nibble(2) Let_def flip: n_def del: of_nat_add GRN_B_DEC.simps)
qed

lemma b_dec_enc_4:
  assumes "0x20408f \<le> unat v" "unat v < 0x1020408f"
  shows "GRN_B_DEC (GRN_B_ENC v @ r) = Some (v, r)"
proof -
  define n where "n = unat v - 0x20408f"
  have n: "n < 0x10000000" "v = of_nat (n + 0x20408f)" using assms by (simp_all add: n_def)
  have lt: "0x90 + n div 16777216 < 256" using n(1) by linarith
  have k: "(0x90 + n div 16777216) div 16 = 9" using n(1) by auto
  have "(((of_nat (0x90 + n div 16777216) - 0x90) * 0x100 + of_nat (n div 65536 mod 256)) * 0x100 + of_nat (n div 256 mod 256)) * 0x100
        + of_nat (n mod 256) + 0x20408f
      = (of_nat (((n div 16777216 * 256 + n div 65536 mod 256) * 256 + n div 256 mod 256) * 256 + n mod 256 + 0x20408f) :: u32)"
    by (simp only: of_nat_add of_nat_mult of_nat_numeral add_diff_cancel_left')
  moreover have "((n div 16777216 * 256 + n div 65536 mod 256) * 256 + n div 256 mod 256) * 256 + n mod 256 = n"
    by (simp only: div_256_twice div_256_thrice div_mult_mod_eq)
  ultimately have "(((of_nat (0x90 + n div 16777216) - 0x90) * 0x100 + of_nat (n div 65536 mod 256)) * 0x100 + of_nat (n div 256 mod 256)) * 0x100
        + of_nat (n mod 256) + 0x20408f = v"
    using n(2) by (simp only:)
  then show ?thesis
    using GRN_B_ENC_4 [OF assms] byte_of_nat [OF lt] byte_of_nat [of "n mod 256"] byte_of_nat [of "n div 256 mod 256"]
      byte_of_nat [of "n div 65536 mod 256"] k
    by (simp add: GRN_B_DEC_nibble(3) Let_def flip: n_def del: of_nat_add GRN_B_DEC.simps)
qed

lemma b_dec_enc: "GRN_B_DEC (GRN_B_ENC v @ r) = Some (v, r)"
proof (cases v rule: b_enc_cases)
  case 1
  have "unat (drop_bit 4 v) \<le> 8" using 1 unfolding unat_drop_bit by simp
  moreover have "(ucast (of_nat (unat v) :: byte) :: u32) = v"
    using byte_of_nat [of "unat v"] 1 by simp
  moreover have "v \<noteq> 0x8f" using 1 by auto
  ultimately show ?thesis using 1 by (simp add: GRN_B_ENC_1 Let_def del: of_nat_unat)
next
  case 5
  then show ?thesis by (simp add: GRN_B_ENC_5 unat_nibble get_u32_bytes Let_def)
qed (auto intro: b_dec_enc_2 b_dec_enc_3 b_dec_enc_4)

lemma b_skip_enc: "GRN_B_SKIP (GRN_B_ENC v @ r) = Some r"
  using b_enc_first [of v] by (auto simp: GRN_B_SKIP_eq skip_bytes_def simp del: GRN_B_SKIP.simps)

lemma b_copy_enc: "GRN_B_COPY (GRN_B_ENC v @ r) = Some (GRN_B_ENC v, r)"
  using b_enc_first [of v] by (auto simp: GRN_B_COPY_eq simp del: GRN_B_COPY.simps)

end
