(* ===== verification/PFor.thy ===== *)
theory PFor
  imports BitStream StrCode
begin

text \<open>
  The patched frame of reference code of posting lists, from \<^verbatim>\<open>lib/ii.cpp\<close>: \<^verbatim>\<open>pack\<close> and \<^verbatim>\<open>unpack\<close> for a unit of up to 128
  numbers, \<^verbatim>\<open>grn_enc_p_for\<close> and \<^verbatim>\<open>grn_dec_p_for\<close> for any number of them, and \<^verbatim>\<open>grn_enc_byte\<close> and \<^verbatim>\<open>grn_dec_byte\<close>, the code
  without packing.  Most numbers of a unit are packed in a common width; the few that need more bits are exceptions, listed
  behind the packed numbers.  Their places are linked through the packed numbers when an index fits there, and are
  written next to them otherwise.

  A decoder fails with \<open>FILE_CORRUPT\<close> where the code returns a null pointer, and with \<open>OUT_OF_BOUNDS\<close> where the code would read
  behind the input or access a number outside of the unit.
\<close>

abbreviation PFOR_UNIT_SIZE :: nat where
  "PFOR_UNIT_SIZE \<equiv> 0x80"

section \<open>Numbers one by one\<close>

definition grn_enc_byte :: "u32 list \<Rightarrow> byte list" where
  "grn_enc_byte values = concat (map GRN_B_ENC values)"

definition grn_dec_byte_check :: "byte list \<Rightarrow> nat \<Rightarrow> codec_error + u32 \<times> nat" where
  "grn_dec_byte_check data dp =
     (if length data \<le> dp then Inl FILE_CORRUPT
      else
        let v = up (data ! dp); dp = dp + 1; k = unat (drop_bit 4 v); byte_at = (\<lambda>j. up (data ! (dp + j)))
        in if k = 8 then
             if v = 0x8f then
               if length data < dp + 4 then Inl FILE_CORRUPT else Inr (get_u32 (drop dp data), dp + 4)
             else Inr (v, dp)
           else if k = 9 then
             if length data < dp + 3 then Inl FILE_CORRUPT
             else Inr ((((v - 0x90) * 0x100 + byte_at 0) * 0x100 + byte_at 1) * 0x100 + byte_at 2 + 0x20408f, dp + 3)
           else if k = 10 \<or> k = 11 then
             if length data < dp + 2 then Inl FILE_CORRUPT
             else Inr (((v - 0xa0) * 0x100 + byte_at 0) * 0x100 + byte_at 1 + 0x408f, dp + 2)
           else if k = 12 \<or> k = 13 \<or> k = 14 \<or> k = 15 then
             if length data < dp + 1 then Inl FILE_CORRUPT
             else Inr ((v - 0xc0) * 0x100 + byte_at 0 + 0x8f, dp + 1)
           else Inr (v, dp))"

fun grn_dec_byte :: "byte list \<Rightarrow> nat \<Rightarrow> nat \<Rightarrow> codec_error + u32 list \<times> nat" where
  "grn_dec_byte data dp 0 = Inr ([], dp)"
| "grn_dec_byte data dp (Suc n) =
     (case grn_dec_byte_check data dp of
        Inl e \<Rightarrow> Inl e
      | Inr (v, dp) \<Rightarrow>
          (case grn_dec_byte data dp n of Inl e \<Rightarrow> Inl e | Inr (vs, dp) \<Rightarrow> Inr (v # vs, dp)))"

definition grn_enc_estimate_byte :: "nat \<Rightarrow> nat" where
  "grn_enc_estimate_byte n_values = 5 * n_values"

section \<open>Packing a unit\<close>

text \<open>
  \<^verbatim>\<open>freq\<close> counts the numbers of each width in \<^verbatim>\<open>uint8_t\<close>s.
\<close>

definition freq_add :: "byte list \<Rightarrow> u32 \<Rightarrow> byte list" where
  "freq_add freq x =
     (if x \<noteq> 0 then let w = GRN_BIT_SCAN_REV x in freq[w + 1 := freq ! (w + 1) + 1]
      else freq[0 := freq ! 0 + 1])"

definition unit_freq :: "u32 list \<Rightarrow> byte list" where
  "unit_freq values = foldl freq_add (replicate 33 0) values"

fun pack_width :: "nat \<Rightarrow> nat \<Rightarrow> nat \<Rightarrow> byte list \<Rightarrow> nat \<times> nat" where
  "pack_width th w s [] = (w, s)"
| "pack_width th w s (f # freq) =
     (let s = s + unat f in if th \<le> s then (w, s) else pack_width th (w + 1) s freq)"

text \<open>
  The exceptions of a width with room for an index: the place of each one holds the index of the next one, and \<open>link\<close> (\<^verbatim>\<open>last\<close>) is the
  place to write the index to, at first the variable \<^verbatim>\<open>first\<close>.
\<close>

definition link_exception ::
    "u32 \<Rightarrow> u32 list \<times> u32 \<times> nat option \<times> byte list \<Rightarrow> nat \<Rightarrow> u32 list \<times> u32 \<times> nat option \<times> byte list" where
  "link_exception r st k =
     (case st of (p, first, link, ep) \<Rightarrow>
        if r \<le> p ! k then
          let ep = ep @ GRN_B_ENC (p ! k - r)
          in case link of None \<Rightarrow> (p, of_nat k, Some k, ep) | Some l \<Rightarrow> (p[l := of_nat k], first, Some k, ep)
        else (p, first, link, ep))"

definition link_exceptions :: "u32 \<Rightarrow> u32 list \<Rightarrow> u32 list \<times> u32 \<times> byte list" where
  "link_exceptions r p =
     (case foldl (link_exception r) (p, 0, None, []) [0..<length p] of
        (p, first, None, ep) \<Rightarrow> (p, 0, ep)
      | (p, first, Some l, ep) \<Rightarrow> (p[l := 0], first, ep))"

definition cut_exception :: "u32 \<Rightarrow> u32 list \<times> byte list \<Rightarrow> nat \<Rightarrow> u32 list \<times> byte list" where
  "cut_exception r st k =
     (case st of (p, ep) \<Rightarrow>
        if r \<le> p ! k then (p[k := 0], (ep @ [of_nat k]) @ GRN_B_ENC (p ! k - r)) else (p, ep))"

text \<open>
  The exceptions of a unit: what is written in front of the packed numbers, the numbers to pack, and the contents of \<^verbatim>\<open>ebuf\<close>.
\<close>

definition split_exceptions :: "u32 \<Rightarrow> u32 list \<Rightarrow> byte list \<times> u32 list \<times> byte list" where
  "split_exceptions r p =
     (if 0x80 \<le> r then
        let (p, first, ep) = link_exceptions r p in ([lo first], p, ep)
      else
        let (p, ep) = foldl (cut_exception r) (p, []) [0..<length p] in ([], p, ep))"

definition pack :: "u32 list \<Rightarrow> byte list \<Rightarrow> byte list" where
  "pack p freq =
     (let i = length p; (w, s) = pack_width (i - i div 8) 0 0 freq
      in if i = s then of_nat w # pack_values w p
         else
           let r = push_bit w 1; (first, p, ep) = split_exceptions r p
           in [of_nat w + 0x80, of_nat i - of_nat s] @ first @ pack_values w p @ ep)"

section \<open>Unpacking a unit\<close>

text \<open>
  The shift \<^verbatim>\<open>1 << w\<close> of an \<^verbatim>\<open>int\<close> has no defined value when \<open>w\<close> is 32 or more; it is then the parameter \<open>wide w\<close>.
\<close>

definition shift_one :: "(nat \<Rightarrow> u32) \<Rightarrow> nat \<Rightarrow> u32" where
  "shift_one wide w = (if w < 32 then push_bit w 1 else wide w)"

definition unpack_header :: "(nat \<Rightarrow> u32) \<Rightarrow> byte list \<Rightarrow> nat \<Rightarrow> codec_error + nat \<times> u32 \<times> nat \<times> byte \<times> nat" where
  "unpack_header wide data dp =
     (if length data \<le> dp then Inl OUT_OF_BOUNDS
      else if data ! dp AND 0x80 \<noteq> 0 then
        let w = unat (data ! dp - 0x80); m = shift_one wide w - 1
        in if length data \<le> dp + 1 then Inl OUT_OF_BOUNDS
           else if 0x7f \<le> m then
             if length data \<le> dp + 2 then Inl OUT_OF_BOUNDS
             else Inr (w, m, unat (data ! (dp + 1)), data ! (dp + 2), dp + 3)
           else Inr (w, m, unat (data ! (dp + 1)), 0, dp + 2)
      else let w = unat (data ! dp) in Inr (w, shift_one wide w - 1, 0, 0, dp + 1))"

fun unpack_linked :: "u32 \<Rightarrow> byte list \<Rightarrow> nat \<Rightarrow> byte \<Rightarrow> nat \<Rightarrow> u32 list \<Rightarrow> codec_error + u32 list \<times> nat" where
  "unpack_linked m data 0 k dp rp = Inr (rp, dp)"
| "unpack_linked m data (Suc ne) k dp rp =
     (if unat k < length rp then
        case grn_dec_byte_check data dp of
          Inl e \<Rightarrow> Inl e
        | Inr (v, dp) \<Rightarrow> unpack_linked m data ne (lo (rp ! unat k)) dp (rp[unat k := v + (m + 1)])
      else Inl OUT_OF_BOUNDS)"

fun unpack_patched :: "u32 \<Rightarrow> byte list \<Rightarrow> nat \<Rightarrow> nat \<Rightarrow> u32 list \<Rightarrow> codec_error + u32 list \<times> nat" where
  "unpack_patched m data 0 dp rp = Inr (rp, dp)"
| "unpack_patched m data (Suc ne) dp rp =
     (if dp < length data \<and> unat (data ! dp) < length rp then
        case grn_dec_byte_check data (dp + 1) of
          Inl e \<Rightarrow> Inl e
        | Inr (v, dp') \<Rightarrow> unpack_patched m data ne dp' (rp[unat (data ! dp) := v + (m + 1)])
      else Inl OUT_OF_BOUNDS)"

definition unpack :: "(nat \<Rightarrow> u32) \<Rightarrow> byte list \<Rightarrow> nat \<Rightarrow> u32 list \<Rightarrow> codec_error + u32 list \<times> nat" where
  "unpack wide data dp rp =
     (case unpack_header wide data dp of
        Inl e \<Rightarrow> Inl e
      | Inr (w, m, ne, k, dp) \<Rightarrow>
          (case (if w \<noteq> 0 then unpack_values w m data dp rp else Inr (replicate (length rp) 0, dp)) of
             Inl e \<Rightarrow> Inl e
           | Inr (rp, dp) \<Rightarrow>
               if 0x7f \<le> m then unpack_linked m data ne k dp rp else unpack_patched m data ne dp rp))"

section \<open>Any number of units\<close>

definition PACK_MAX_SIZE :: nat where
  "PACK_MAX_SIZE = (PFOR_UNIT_SIZE div 8) * 32 + (PFOR_UNIT_SIZE * 5)"

definition grn_enc_estimate_p_for :: "nat \<Rightarrow> nat" where
  "grn_enc_estimate_p_for n_values = PACK_MAX_SIZE * (n_values div PFOR_UNIT_SIZE + 1)"

function grn_enc_p_for :: "u32 list \<Rightarrow> byte list" where
  "grn_enc_p_for values =
     (if PFOR_UNIT_SIZE \<le> length values then
        let unit = take PFOR_UNIT_SIZE values in pack unit (unit_freq unit) @ grn_enc_p_for (drop PFOR_UNIT_SIZE values)
      else if 0 < length values then pack values (unit_freq values)
      else [])"
  by pat_completeness auto
termination
  by (relation "measure length") auto

declare grn_enc_p_for.simps [simp del]

function grn_dec_p_for :: "(nat \<Rightarrow> u32) \<Rightarrow> byte list \<Rightarrow> nat \<Rightarrow> u32 list \<Rightarrow> codec_error + u32 list \<times> nat" where
  "grn_dec_p_for wide data dp old =
     (if PFOR_UNIT_SIZE \<le> length old then
        case unpack wide data dp (take PFOR_UNIT_SIZE old) of
          Inl e \<Rightarrow> Inl e
        | Inr (unit, dp) \<Rightarrow>
            (case grn_dec_p_for wide data dp (drop PFOR_UNIT_SIZE old) of
               Inl e \<Rightarrow> Inl e
             | Inr (vs, dp) \<Rightarrow> Inr (unit @ vs, dp))
      else if 0 < length old then unpack wide data dp old
      else Inr ([], dp))"
  by pat_completeness auto
termination
  by (relation "measure (\<lambda>(wide, data, dp, old). length old)") auto

declare grn_dec_p_for.simps [simp del]

end
