(* ===== verification/PForCorrect.thy ===== *)
theory PForCorrect
  imports PFor
begin

text \<open>
  Decoding what was encoded: the variable length code with checks, the choice of the width, the two ways of listing exceptions,
  a unit, and any number of units, with the sizes of what is written.
\<close>

section \<open>Numbers one by one\<close>

lemma dec_byte_check_eq:
  "grn_dec_byte_check data dp =
     (case GRN_B_DEC (drop dp data) of None \<Rightarrow> Inl FILE_CORRUPT | Some (v, p) \<Rightarrow> Inr (v, length data - length p))"
proof (cases "dp < length data")
  case True
  then obtain pre b p where data: "data = pre @ b # p" "length pre = dp"
    by (metis id_take_nth_drop length_take min.absorb4)
  consider "p = []" | b1 where "p = [b1]" | b1 b2 where "p = [b1, b2]" | b1 b2 b3 where "p = [b1, b2, b3]"
    | b1 b2 b3 b4 q where "p = b1 # b2 # b3 # b4 # q"
    by (metis list.exhaust)
  then show ?thesis
    by cases (simp_all add: data(1) grn_dec_byte_check_def Let_def nth_append flip: data(2))
qed (simp add: grn_dec_byte_check_def)

lemma b_enc_size: "1 \<le> length (GRN_B_ENC v)" "length (GRN_B_ENC v) \<le> 5"
  by (simp_all add: b_enc_length GRN_B_ENC_SIZE_def)

lemma dec_byte_check_enc:
  assumes "drop dp data = GRN_B_ENC v @ r"
  shows "grn_dec_byte_check data dp = Inr (v, dp + length (GRN_B_ENC v))"
proof -
  have "length data - dp = length (GRN_B_ENC v) + length r" "1 \<le> length (GRN_B_ENC v)"
    using arg_cong [OF assms, of length] b_enc_size(1) by simp_all
  then show ?thesis unfolding dec_byte_check_eq assms b_dec_enc by simp
qed

lemma drop_step: "drop dp data = a @ r \<Longrightarrow> drop (dp + length a) data = r"
  by (metis add.commute append_eq_conv_conj drop_drop)

lemma drop_eq_Cons: "drop dp data = a # r \<Longrightarrow> dp < length data \<and> data ! dp = a"
  using Cons_nth_drop_Suc [of dp data] by (cases "dp < length data") auto

lemma dec_byte_enc:
  assumes "drop dp data = grn_enc_byte vs @ r"
  shows "grn_dec_byte data dp (length vs) = Inr (vs, dp + length (grn_enc_byte vs))"
  using assms
proof (induction vs arbitrary: dp)
  case (Cons v vs)
  then have d: "drop dp data = GRN_B_ENC v @ grn_enc_byte vs @ r" by (simp add: grn_enc_byte_def)
  show ?case
    using Cons.IH [OF drop_step [OF d]] dec_byte_check_enc [OF d] by (simp add: grn_enc_byte_def add.assoc)
qed (simp add: grn_enc_byte_def)

lemma enc_byte_size: "length (grn_enc_byte vs) \<le> grn_enc_estimate_byte (length vs)" "length vs \<le> length (grn_enc_byte vs)"
proof -
  have "length vs \<le> length (grn_enc_byte vs) \<and> length (grn_enc_byte vs) \<le> 5 * length vs"
  proof (induction vs)
    case (Cons v vs)
    then show ?case using b_enc_size [of v] by (simp add: grn_enc_byte_def)
  qed (simp add: grn_enc_byte_def)
  then show "length (grn_enc_byte vs) \<le> grn_enc_estimate_byte (length vs)" "length vs \<le> length (grn_enc_byte vs)"
    by (simp_all add: grn_enc_estimate_byte_def)
qed

section \<open>The width\<close>

definition value_width :: "u32 \<Rightarrow> nat" where
  "value_width x = (if x = 0 then 0 else GRN_BIT_SCAN_REV x + 1)"

lemma value_width_le: "value_width x \<le> w \<longleftrightarrow> unat x < 2 ^ w"
proof (cases "x = 0")
  case False
  note r = GRN_BIT_SCAN_REV_range [OF False]
  show ?thesis
  proof
    assume "value_width x \<le> w"
    then have "(2::nat) ^ Suc (GRN_BIT_SCAN_REV x) \<le> 2 ^ w" using False by (intro power_increasing) (simp_all add: value_width_def)
    with r(2) show "unat x < 2 ^ w" by simp
  next
    assume "unat x < 2 ^ w"
    with r(1) have "(2::nat) ^ GRN_BIT_SCAN_REV x < 2 ^ w" by (rule le_less_trans)
    then have "GRN_BIT_SCAN_REV x < w" by (rule power_less_imp_less_exp [rotated]) simp
    then show "value_width x \<le> w" by (simp add: value_width_def)
  qed
qed (simp add: value_width_def)

lemma value_width_32: "value_width x \<le> 32"
  unfolding value_width_le by simp

lemma freq_add_eq: "freq_add freq x = freq[value_width x := freq ! value_width x + 1]"
  by (simp add: freq_add_def value_width_def Let_def)

lemma unit_freq_count:
  assumes "length vs < 256"
  shows "length (unit_freq vs) = 33 \<and> (\<forall>j \<le> 32. unat (unit_freq vs ! j) = length (filter (\<lambda>x. value_width x = j) vs))"
  using assms
proof (induction vs rule: rev_induct)
  case (snoc x vs)
  let ?f = "unit_freq vs"
  have f: "length ?f = 33" "\<And>j. j \<le> 32 \<Longrightarrow> unat (?f ! j) = length (filter (\<lambda>x. value_width x = j) vs)"
    using snoc by auto
  have "unat (?f ! value_width x + 1) = Suc (unat (?f ! value_width x))"
  proof (rule unat_Suc_no_wrap)
    have "unat (?f ! value_width x) \<le> length vs" using f(2) [OF value_width_32] by simp
    then show "unat (?f ! value_width x) < 2 ^ LENGTH(8) - 1" using snoc.prems by simp
  qed
  then show ?case
    using f value_width_32 [of x] by (auto simp: unit_freq_def freq_add_eq nth_list_update)
qed (simp add: unit_freq_def)

lemma pack_width_spec:
  assumes "th \<le> s + sum_list (map unat freq)" and "freq \<noteq> []"
  shows "\<exists>j < length freq. pack_width th w s freq = (w + j, s + sum_list (map unat (take (Suc j) freq))) \<and>
    th \<le> s + sum_list (map unat (take (Suc j) freq)) \<and> (\<forall>i < j. s + sum_list (map unat (take (Suc i) freq)) < th)"
  using assms
proof (induction th w s freq rule: pack_width.induct)
  case (2 th w s f freq)
  show ?case
  proof (cases "th \<le> s + unat f")
    case False
    with 2 obtain j where "j < length freq"
      "pack_width th (w + 1) (s + unat f) freq = (w + 1 + j, s + unat f + sum_list (map unat (take (Suc j) freq)))"
      "th \<le> s + unat f + sum_list (map unat (take (Suc j) freq))"
      "\<forall>i < j. s + unat f + sum_list (map unat (take (Suc i) freq)) < th"
      by (cases "freq = []") auto
    then show ?thesis using False by (intro exI [of _ "Suc j"]) (auto simp: less_Suc_eq_0_disj)
  qed (auto intro: exI [of _ 0])
qed simp

lemma length_filter_split:
  assumes "\<And>x. x \<in> set xs \<Longrightarrow> R x = (P x \<or> Q x)" and "\<And>x. x \<in> set xs \<Longrightarrow> \<not> (P x \<and> Q x)"
  shows "length (filter R xs) = length (filter P xs) + length (filter Q xs)"
  using assms by (induction xs) auto

lemma freq_sum:
  assumes "length vs < 256" and "j \<le> 32"
  shows "sum_list (map unat (take (Suc j) (unit_freq vs))) = length (filter (\<lambda>x. unat x < 2 ^ j) vs)"
  using assms(2)
proof (induction j)
  case 0
  have "unit_freq vs \<noteq> []" using unit_freq_count [OF assms(1)] by auto
  then have "sum_list (map unat (take (Suc 0) (unit_freq vs))) = unat (unit_freq vs ! 0)"
    by (cases "unit_freq vs") simp_all
  then show ?case using unit_freq_count [OF assms(1)] by (simp add: value_width_le [of _ 0, symmetric, simplified])
next
  case (Suc j)
  have "length (filter (\<lambda>x. unat x < 2 ^ Suc j) vs) =
      length (filter (\<lambda>x. unat x < 2 ^ j) vs) + length (filter (\<lambda>x. value_width x = Suc j) vs)"
    by (rule length_filter_split) (simp_all only: value_width_le [symmetric], auto)
  moreover have "take (Suc (Suc j)) (unit_freq vs) = take (Suc j) (unit_freq vs) @ [unit_freq vs ! Suc j]"
    using unit_freq_count [OF assms(1)] Suc.prems by (simp add: take_Suc_conv_app_nth)
  ultimately show ?case using unit_freq_count [OF assms(1)] Suc by simp
qed

lemma unit_width:
  assumes "length p \<le> PFOR_UNIT_SIZE"
  obtains w s where "w \<le> 32" and "pack_width (length p - length p div 8) 0 0 (unit_freq p) = (w, s)"
    and "s = length (filter (\<lambda>x. unat x < 2 ^ w) p)" and "length p - s \<le> length p div 8"
    and "\<And>j. (\<And>x. x \<in> set p \<Longrightarrow> unat x < 2 ^ j) \<Longrightarrow> w \<le> j"
proof -
  have p: "length p < 256" using assms by simp
  have len: "length (unit_freq p) = 33" using unit_freq_count [OF p] by simp
  let ?th = "length p - length p div 8" and ?n = "\<lambda>j. length (filter (\<lambda>x. unat x < 2 ^ j) p)"
  have "sum_list (map unat (unit_freq p)) = ?n 32" using freq_sum [OF p, of 32] len by simp
  then have "?th \<le> 0 + sum_list (map unat (unit_freq p))" by simp
  from pack_width_spec [OF this, of 0] len obtain w where w: "w \<le> 32" "pack_width ?th 0 0 (unit_freq p) = (w, ?n w)"
    "?th \<le> ?n w" "\<And>j. j < w \<Longrightarrow> ?n j < ?th"
    using freq_sum [OF p] by fastforce
  have "w \<le> j" if "\<And>x. x \<in> set p \<Longrightarrow> unat x < 2 ^ j" for j
    using w(4) [of j] that by (cases "w \<le> j") (auto simp: not_le)
  then show thesis by (intro that [OF w(1,2) refl]) (use w(3) in linarith, blast)
qed

section \<open>The exceptions\<close>

definition exceptions :: "u32 \<Rightarrow> u32 list \<Rightarrow> nat \<Rightarrow> nat list" where
  "exceptions r p j = filter (\<lambda>k. r \<le> p ! k) [0..<j]"

lemma exceptions_simps [simp]:
  "exceptions r p 0 = []"
  "exceptions r p (Suc j) = (if r \<le> p ! j then exceptions r p j @ [j] else exceptions r p j)"
  "k \<in> set (exceptions r p j) \<longleftrightarrow> k < j \<and> r \<le> p ! k"
  "distinct (exceptions r p j)"
  by (auto simp: exceptions_def)

lemma length_exceptions: "length (exceptions r p (length p)) = length (filter (\<lambda>x. r \<le> x) p)"
proof -
  have "filter (\<lambda>x. r \<le> x) p = map ((!) p) (exceptions r p (length p))"
    unfolding exceptions_def by (subst map_nth [of p, symmetric]) (simp add: filter_map o_def)
  then show ?thesis by simp
qed

fun linked :: "u32 list \<Rightarrow> u32 \<Rightarrow> nat list \<Rightarrow> bool" where
  "linked p k [] = True"
| "linked p k (e # es) = (k = of_nat e \<and> e < length p \<and> linked p (p ! e) es)"

lemma linked_update: "e \<notin> set es \<Longrightarrow> linked (p[e := v]) k es = linked p k es"
  by (induction es arbitrary: k) auto

lemma linked_update_last: "linked p k es \<Longrightarrow> distinct es \<Longrightarrow> linked (p[last es := v]) k es"
proof (induction es arbitrary: k)
  case (Cons e es)
  then have "es \<noteq> [] \<Longrightarrow> last es \<noteq> e" using last_in_set [of es] by auto
  with Cons show ?case by (cases "es = []") auto
qed simp

lemma linked_snoc:
  "linked p k es \<Longrightarrow> es \<noteq> [] \<Longrightarrow> distinct (es @ [e]) \<Longrightarrow> e < length p \<Longrightarrow> linked (p[last es := of_nat e]) k (es @ [e])"
proof (induction es arbitrary: k)
  case (Cons a es)
  then have "es \<noteq> [] \<Longrightarrow> last es \<noteq> a" using last_in_set [of es] by auto
  with Cons show ?case by (cases "es = []") auto
qed simp

lemma linked_next: "linked p k es \<Longrightarrow> e \<in> set es \<Longrightarrow> e \<noteq> last es \<Longrightarrow> \<exists>e' \<in> set es. p ! e = of_nat e'"
proof (induction es arbitrary: k)
  case (Cons a es)
  then show ?case by (cases es) (auto split: if_splits)
qed simp

abbreviation exception_bytes :: "u32 \<Rightarrow> u32 list \<Rightarrow> nat list \<Rightarrow> byte list" where
  "exception_bytes r p es \<equiv> concat (map (\<lambda>k. GRN_B_ENC (p ! k - r)) es)"

lemma link_fold:
  assumes "j \<le> length p"
  shows "\<exists>p' first. foldl (link_exception r) (p, 0, None, []) [0..<j] =
      (p', first, if exceptions r p j = [] then None else Some (last (exceptions r p j)), exception_bytes r p (exceptions r p j)) \<and>
    length p' = length p \<and> linked p' first (exceptions r p j) \<and>
    (\<forall>k < length p. k \<notin> set (exceptions r p j) \<or> k = last (exceptions r p j) \<longrightarrow> p' ! k = p ! k)"
  using assms
proof (induction j)
  case (Suc j)
  let ?es = "exceptions r p j"
  from Suc obtain p' first where IH: "foldl (link_exception r) (p, 0, None, []) [0..<j] =
      (p', first, if ?es = [] then None else Some (last ?es), exception_bytes r p ?es)"
    "length p' = length p" "linked p' first ?es" "\<And>k. k < length p \<Longrightarrow> k \<notin> set ?es \<or> k = last ?es \<Longrightarrow> p' ! k = p ! k"
    by auto
  have pj: "p' ! j = p ! j" using IH(4) [of j] Suc.prems by simp
  have step: "foldl (link_exception r) (p, 0, None, []) [0..<Suc j] =
      link_exception r (p', first, if ?es = [] then None else Some (last ?es), exception_bytes r p ?es) j"
    using IH(1) by simp
  show ?case
  proof (cases "r \<le> p ! j")
    case True
    show ?thesis
    proof (cases "?es = []")
      case False
      then have l: "last ?es \<in> set ?es" by (rule last_in_set)
      then have "last ?es < j" by simp
      have "linked (p'[last ?es := of_nat j]) first (?es @ [j])"
        using IH(2,3) False Suc.prems by (intro linked_snoc) simp_all
      moreover have "p'[last ?es := of_nat j] ! k = p ! k" if "k < length p" "k \<notin> set (?es @ [j]) \<or> k = j" for k
        using IH(4) [of k] that \<open>last ?es < j\<close> l pj by (cases "k = last ?es") auto
      ultimately show ?thesis unfolding step using False True pj IH(2) by (simp add: link_exception_def Let_def)
    qed (unfold step, use True pj IH(2-) Suc.prems in \<open>simp add: link_exception_def Let_def\<close>)
  qed (unfold step, use pj IH(2-) in \<open>auto simp: link_exception_def\<close>)
qed simp

lemma link_exceptions_ok:
  assumes "exceptions r p (length p) \<noteq> []" and "link_exceptions r p = (p', first, ep)"
  shows "length p' = length p" and "linked p' first (exceptions r p (length p))"
    and "ep = exception_bytes r p (exceptions r p (length p))"
    and "k < length p \<Longrightarrow> \<not> r \<le> p ! k \<Longrightarrow> p' ! k = p ! k"
    and "k < length p \<Longrightarrow> r \<le> p ! k \<Longrightarrow> p' ! k = 0 \<or> (\<exists>e < length p. p' ! k = of_nat e)"
proof -
  let ?es = "exceptions r p (length p)"
  obtain q where q: "p' = q[last ?es := 0]" "length q = length p" "linked q first ?es" "ep = exception_bytes r p ?es"
    "\<And>k. k < length p \<Longrightarrow> k \<notin> set ?es \<or> k = last ?es \<Longrightarrow> q ! k = p ! k"
    using link_fold [of "length p" p r] assms unfolding link_exceptions_def by auto
  have l: "last ?es \<in> set ?es" using assms(1) by (rule last_in_set)
  show "length p' = length p" "ep = exception_bytes r p ?es" using q by simp_all
  show "linked p' first ?es" using q by (simp add: linked_update_last)
  show "k < length p \<Longrightarrow> \<not> r \<le> p ! k \<Longrightarrow> p' ! k = p ! k" using q(1,2,5) l by (auto simp: nth_list_update)
  show "p' ! k = 0 \<or> (\<exists>e < length p. p' ! k = of_nat e)" if "k < length p" "r \<le> p ! k"
    using linked_next [OF q(3), of k] that q(1,2) by (cases "k = last ?es") auto
qed

lemma cut_fold:
  assumes "j \<le> length p"
  shows "foldl (cut_exception r) (p, []) [0..<j] =
    (map (\<lambda>k. if k < j \<and> r \<le> p ! k then 0 else p ! k) [0..<length p],
     concat (map (\<lambda>k. of_nat k # GRN_B_ENC (p ! k - r)) (exceptions r p j)))"
  using assms
proof (induction j)
  case 0
  show ?case by (simp add: map_nth)
next
  case (Suc j)
  have "map (\<lambda>k. if k < Suc j \<and> r \<le> p ! k then 0 else p ! k) [0..<length p] =
      (map (\<lambda>k. if k < j \<and> r \<le> p ! k then 0 else p ! k) [0..<length p])[j := 0]" if "r \<le> p ! j"
    using that Suc.prems by (intro nth_equalityI) (auto simp: nth_list_update less_Suc_eq)
  moreover have "map (\<lambda>k. if k < Suc j \<and> r \<le> p ! k then 0 else p ! k) [0..<length p] =
      map (\<lambda>k. if k < j \<and> r \<le> p ! k then 0 else p ! k) [0..<length p]" if "\<not> r \<le> p ! j"
    using that by (auto simp: less_Suc_eq)
  ultimately show ?case using Suc by (simp add: cut_exception_def)
qed

section \<open>Restoring the exceptions\<close>

abbreviation restore :: "u32 list \<Rightarrow> u32 list \<Rightarrow> nat list \<Rightarrow> u32 list" where
  "restore p rp es \<equiv> foldl (\<lambda>rp e. rp[e := p ! e]) rp es"

lemma length_restore [simp]: "length (restore p rp es) = length rp"
  by (induction es arbitrary: rp) simp_all

lemma nth_restore: "k < length rp \<Longrightarrow> restore p rp es ! k = (if k \<in> set es then p ! k else rp ! k)"
  by (induction es arbitrary: rp) (auto simp: nth_list_update)

lemma restore_exceptions:
  assumes "length rp = length p" and "\<And>k. k < length p \<Longrightarrow> \<not> r \<le> p ! k \<Longrightarrow> rp ! k = p ! k"
  shows "restore p rp (exceptions r p (length p)) = p"
  using assms by (intro nth_equalityI) (auto simp: nth_restore)

lemma unpack_linked_ok:
  assumes "linked rp k es" and "distinct es" and "length rp \<le> PFOR_UNIT_SIZE"
    and "drop dp data = exception_bytes r p es @ rest" and "r = m + 1"
  shows "unpack_linked m data (length es) (lo k) dp rp = Inr (restore p rp es, dp + length (exception_bytes r p es))"
  using assms
proof (induction es arbitrary: k dp rp)
  case (Cons e es)
  have e: "unat (lo k) = e" "e < length rp" using Cons.prems by (simp_all add: ucast_of_nat_byte unat_of_nat)
  have d: "drop dp data = GRN_B_ENC (p ! e - r) @ exception_bytes r p es @ rest" using Cons.prems(4) by simp
  have v: "p ! e - r + (m + 1) = p ! e" using Cons.prems(5) by simp
  have "linked (rp[e := p ! e]) (rp ! e) es" using Cons.prems by (simp add: linked_update)
  then show ?case
    using Cons.IH [OF _ _ _ drop_step [OF d], of "rp[e := p ! e]" "rp ! e"] Cons.prems dec_byte_check_enc [OF d] e v
    by (simp add: add.assoc)
qed simp

lemma unpack_patched_ok:
  assumes "\<And>e. e \<in> set es \<Longrightarrow> e < length rp" and "length rp \<le> PFOR_UNIT_SIZE"
    and "drop dp data = concat (map (\<lambda>k. of_nat k # GRN_B_ENC (p ! k - r)) es) @ rest" and "r = m + 1"
  shows "unpack_patched m data (length es) dp rp =
    Inr (restore p rp es, dp + length (concat (map (\<lambda>k. of_nat k # GRN_B_ENC (p ! k - r) :: byte list) es)))"
  using assms
proof (induction es arbitrary: dp rp)
  case (Cons e es)
  have e: "e < length rp" "e < 256" using Cons.prems(1) [of e] Cons.prems(2) by auto
  have d: "drop dp data = [of_nat e] @ GRN_B_ENC (p ! e - r) @ concat (map (\<lambda>k. of_nat k # GRN_B_ENC (p ! k - r)) es) @ rest"
    using Cons.prems(3) by simp
  have dp: "dp < length data" "data ! dp = of_nat e"
    using drop_eq_Cons [of dp data "of_nat e"] d by simp_all
  have v: "p ! e - r + (m + 1) = p ! e" using Cons.prems(4) by simp
  note d' = drop_step [OF d]
  have k: "unat (data ! dp) = e" using dp(2) e(2) by (simp add: unat_of_nat)
  show ?case
    using Cons.IH [OF _ _ drop_step [OF d'], of "rp[e := p ! e]"] Cons.prems dec_byte_check_enc [OF d'] e dp(1) v k
    by (simp add: add.assoc)
qed simp

section \<open>A unit\<close>

lemma byte_high_bit:
  assumes "w < 0x80"
  shows "(of_nat w :: byte) AND 0x80 = 0" and "(of_nat w + 0x80 :: byte) AND 0x80 \<noteq> 0" and "unat (of_nat w :: byte) = w"
proof -
  have bit7: "x AND 0x80 = 0 \<longleftrightarrow> \<not> odd (unat x div 2 ^ 7)" for x :: byte
    using push_bit_1_and_nonzero [of 7 x] bit_iff_odd [of "unat x" 7]
    by (simp add: and.commute bit_unsigned_iff)
  show w: "unat (of_nat w :: byte) = w" using assms by (simp add: unat_of_nat)
  then show "(of_nat w :: byte) AND 0x80 = 0" using bit7 [of "of_nat w"] assms by simp
  have "unat (of_nat w + 0x80 :: byte) = w + 0x80" using assms w by (simp add: unat_word_ariths)
  then show "(of_nat w + 0x80 :: byte) AND 0x80 \<noteq> 0" using bit7 [of "of_nat w + 0x80"] assms by (simp add: div_add_self2)
qed

lemma width_mask:
  assumes "w < 32"
  shows "unat (push_bit w 1 :: u32) = 2 ^ w" and "push_bit w 1 - 1 = (mask w :: u32)"
    and "0x80 \<le> (push_bit w 1 :: u32) \<longleftrightarrow> 7 \<le> w" and "0x7f \<le> (mask w :: u32) \<longleftrightarrow> 7 \<le> w"
proof -
  have "(2 :: nat) ^ w < 2 ^ 32" using assms by (intro power_strict_increasing) simp_all
  moreover have "push_bit w 1 = (of_nat (2 ^ w) :: u32)" by simp
  ultimately show u: "unat (push_bit w 1 :: u32) = 2 ^ w" by (simp only: unat_of_nat) simp
  show m: "push_bit w 1 - 1 = (mask w :: u32)" by (simp add: mask_eq_exp_minus_1)
  have pow: "(0x80 :: nat) \<le> 2 ^ w \<longleftrightarrow> 7 \<le> w" using power_increasing_iff [of "2 :: nat" 7 w] by simp
  with u show "0x80 \<le> (push_bit w 1 :: u32) \<longleftrightarrow> 7 \<le> w" by (simp only: word_le_nat_alt) simp
  have "push_bit w 1 \<noteq> (0 :: u32)" using u by (metis power_not_zero unat_0 zero_neq_numeral)
  then have "unat (mask w :: u32) = 2 ^ w - 1" unfolding m [symmetric] using unat_pred_no_wrap u by metis
  then show "0x7f \<le> (mask w :: u32) \<longleftrightarrow> 7 \<le> w" using pow by (simp only: word_le_nat_alt) (simp, linarith)
qed

lemma exception_count:
  assumes "w < 32" and "s = length (filter (\<lambda>x. unat x < 2 ^ w) p)" and "length p - s \<le> 255" 
  shows "length (exceptions (push_bit w 1) p (length p)) = length p - s" and "unat (of_nat (length p) - of_nat s :: byte) = length p - s"
proof -
  have "length p = s + length (filter (\<lambda>x. push_bit w 1 \<le> x) p)"
    unfolding assms(2) using sum_length_filter_compl [of "\<lambda>x. unat x < 2 ^ w" p]
    by (simp add: word_le_nat_alt width_mask(1) [OF assms(1)] not_less del: push_bit_of_1)
  then show c: "length (exceptions (push_bit w 1) p (length p)) = length p - s"
    unfolding length_exceptions by linarith
  have "s \<le> length p" using assms(2) by simp
  then have "of_nat (length p) - of_nat s = (of_nat (length p - s) :: byte)" by (simp add: of_nat_diff)
  then show "unat (of_nat (length p) - of_nat s :: byte) = length p - s"
    using assms(3) by (simp add: unat_of_nat)
qed

lemma unpack_plain:
  assumes "drop dp data = (of_nat w # pack_values w p) @ rest" and "w \<le> 32" and "\<And>x. x \<in> set p \<Longrightarrow> unat x < 2 ^ w"
    and "length old = length p" and "w < 32 \<or> wide 32 = 0 \<or> 8 dvd length p"
  shows "unpack wide data dp old = Inr (p, dp + length (of_nat w # pack_values w p :: byte list))"
proof -
  note d = drop_eq_Cons [of dp data "of_nat w" "pack_values w p @ rest", OF assms(1) [simplified]]
  have dp: "drop (dp + 1) data = pack_values w p @ rest"
    using drop_step [of dp data "[of_nat w]" "pack_values w p @ rest"] assms(1) by simp
  have "shift_one wide w - 1 = mask w \<or> 8 dvd length p"
    using assms(2,5) width_mask(2) [of w] by (cases "w = 32") (auto simp: shift_one_def mask_numeral)
  then have v: "unpack_values w (shift_one wide w - 1) data (dp + 1) old = Inr (p, dp + 1 + length (pack_values w p))" if "w \<noteq> 0"
    using that assms(2,3,4) dp by (intro unpack_values_pack) auto
  have "p = replicate (length p) 0" if "w = 0"
    using that assms(3) by (intro replicate_eqI) (auto simp: unat_eq_zero)
  moreover have "pack_values 0 p = []" if "w = 0"
    using length_pack_values [of 0 p] that assms(3) by simp
  ultimately show ?thesis
    using d byte_high_bit [of w] assms(2,4) v by (cases "w = 0") (auto simp: unpack_def unpack_header_def Let_def)
qed

lemma below_width: "w < 32 \<Longrightarrow> \<not> push_bit w 1 \<le> (x :: u32) \<longleftrightarrow> unat x < 2 ^ w"
  unfolding word_le_nat_alt by (simp only: width_mask(1) not_le)

lemma link_small:
  assumes "w < 32" and "7 \<le> w" and "length p \<le> PFOR_UNIT_SIZE" and "exceptions (push_bit w 1) p (length p) \<noteq> []"
    and "link_exceptions (push_bit w 1) p = (p', first, ep)" and "x \<in> set p'"
  shows "unat x < 2 ^ w"
proof -
  note ok = link_exceptions_ok [OF assms(4,5)]
  obtain k where k: "k < length p" "x = p' ! k" using assms(6) ok(1) by (auto simp: in_set_conv_nth)
  have "(128 :: nat) \<le> 2 ^ w" using power_increasing [OF assms(2), of "2 :: nat"] by simp
  then show ?thesis
    using ok(4) [of k] ok(5) [of k] below_width [OF assms(1), of "p ! k"] k assms(3)
    by (cases "push_bit w 1 \<le> p ! k") (auto simp: unat_of_nat)
qed

lemma cut_small:
  fixes p :: "u32 list"
  assumes "w < 32" and "x \<in> set (map (\<lambda>k. if k < length p \<and> push_bit w 1 \<le> p ! k then 0 else p ! k) [0..<length p])"
  shows "unat x < 2 ^ w"
proof -
  have "x = 0 \<or> \<not> push_bit w 1 \<le> x" using assms(2) by auto
  then show ?thesis using below_width [OF assms(1), of x] by (elim disjE) simp_all
qed

lemma unpack_excepted:
  assumes w: "w < 32" and s: "s = length (filter (\<lambda>x. unat x < 2 ^ w) p)" "length p \<noteq> s"
    and p: "length p \<le> PFOR_UNIT_SIZE" "length old = length p" and r: "r = push_bit w 1"
    and body: "body = (case split_exceptions r p of (first, p, ep) \<Rightarrow> first @ pack_values w p @ ep)"
    and d: "drop dp data = ([of_nat w + 0x80, of_nat (length p) - of_nat s] @ body) @ rest"
  shows "unpack wide data dp old = Inr (p, dp + length ([of_nat w + 0x80, of_nat (length p) - of_nat s] @ body))"
proof -
  let ?es = "exceptions r p (length p)" and ?m = "mask w :: u32" and ?ne = "of_nat (length p) - of_nat s :: byte"
  have cnt: "length ?es = length p - s" "unat ?ne = length ?es"
    using exception_count [OF w s(1)] p(1) by (simp_all add: r)
  have m: "shift_one wide w - 1 = ?m" "r = ?m + 1" "r - 1 = ?m"
    using width_mask(2) [OF w] by (simp_all add: shift_one_def w r algebra_simps)
  note d1 = drop_eq_Cons [of dp data "of_nat w + 0x80" "?ne # body @ rest", OF d [simplified]]
  have d2: "drop (dp + 1) data = ?ne # body @ rest" "drop (dp + 2) data = body @ rest"
    using drop_step [of dp data "[of_nat w + 0x80]" "?ne # body @ rest"]
      drop_step [of dp data "[of_nat w + 0x80, ?ne]" "body @ rest"] d by simp_all
  note d3 = drop_eq_Cons [OF d2(1)]
  have wb: "unat (of_nat w + 0x80 - 0x80 :: byte) = w" "(of_nat w + 0x80 :: byte) AND 0x80 \<noteq> 0"
    using byte_high_bit [of w] w by simp_all
  show ?thesis
  proof (cases "7 \<le> w")
    case True
    obtain p' first ep where l: "link_exceptions r p = (p', first, ep)" by (cases "link_exceptions r p")
    have b: "body = [lo first] @ pack_values w p' @ ep" using body width_mask(3) [OF w] True l by (simp add: r split_exceptions_def)
    have "s \<le> length p" using s(1) by simp
    then have "?es \<noteq> []" using cnt(1) s(2) by auto
    note ok = link_exceptions_ok [OF \<open>?es \<noteq> []\<close> l]
    note small = link_small [OF w True p(1) \<open>?es \<noteq> []\<close> [unfolded r] l [unfolded r]]
    have d4: "drop (dp + 3) data = pack_values w p' @ ep @ rest"
      using drop_step [of "dp + 2" data "[lo first]" "pack_values w p' @ ep @ rest"] d2(2) b
      by (simp add: eval_nat_numeral)
    have d5: "dp + 2 < length data \<and> data ! (dp + 2) = lo first"
      using drop_eq_Cons [of "dp + 2" data "lo first"] d2(2) b by simp
    have v: "unpack_values w ?m data (dp + 3) old = Inr (p', dp + 3 + length (pack_values w p'))"
      using True w small d4 ok(1) p(2) by (intro unpack_values_pack) auto
    have "unpack_linked ?m data (length ?es) (lo first) (dp + 3 + length (pack_values w p')) p' =
        Inr (restore p p' ?es, dp + 3 + length (pack_values w p') + length ep)"
      using drop_step [OF d4] ok p(1) m(2) by (simp add: unpack_linked_ok)
    moreover have "restore p p' ?es = p" using ok(1,4) by (intro restore_exceptions) auto
    ultimately show ?thesis
      using d1 d3 d5 wb cnt m v True width_mask(4) [OF w] b
      by (simp add: unpack_def unpack_header_def Let_def)
  next
    case False
    let ?p = "map (\<lambda>k. if k < length p \<and> r \<le> p ! k then 0 else p ! k) [0..<length p]"
    let ?ep = "concat (map (\<lambda>k. of_nat k # GRN_B_ENC (p ! k - r)) ?es) :: byte list"
    have "\<not> 0x80 \<le> r" using width_mask(3) [OF w] False by (simp only: r not_False_eq_True)
    then have b: "body = pack_values w ?p @ ?ep"
      unfolding body split_exceptions_def cut_fold [OF order_refl] by (simp only: if_False prod.case Let_def append_Nil)
    note small = cut_small [OF w, of _ p, folded r]
    have d4: "drop (dp + 2 + length (pack_values w ?p)) data = ?ep @ rest"
      using drop_step [of "dp + 2" data "pack_values w ?p" "?ep @ rest"] d2(2) b by simp
    have v: "(if w \<noteq> 0 then unpack_values w ?m data (dp + 2) old else Inr (replicate (length old) 0, dp + 2)) =
        Inr (?p, dp + 2 + length (pack_values w ?p))"
    proof (cases "w = 0")
      case True
      then have "?p = replicate (length p) 0" using small by (intro replicate_eqI) (auto simp: unat_eq_zero)
      then show ?thesis using True length_pack_values [of 0 ?p] small p(2) by simp
    next
      case False
      then show ?thesis using unpack_values_pack [of w ?p old "dp + 2" data "?ep @ rest" ?m] w small d2(2) b p(2) by simp
    qed
    have "unpack_patched ?m data (length ?es) (dp + 2 + length (pack_values w ?p)) ?p =
        Inr (restore p ?p ?es, dp + 2 + length (pack_values w ?p) + length ?ep)"
      using d4 p(1) m(2) by (intro unpack_patched_ok) auto
    moreover have "restore p ?p ?es = p" by (intro restore_exceptions) auto
    moreover have nm: "\<not> 0x7f \<le> ?m" using width_mask(4) [OF w] False by simp
    moreover have h: "unpack_header wide data dp = Inr (w, ?m, length ?es, 0, dp + 2)"
      using d1 d3 wb cnt m(1) nm by (simp add: unpack_header_def Let_def)
    ultimately show ?thesis unfolding unpack_def h sum.case prod.case v b by (simp del: map_eq_conv)
  qed
qed

lemma unpack_pack:
  assumes "length p \<le> PFOR_UNIT_SIZE" and "length old = length p" and "drop dp data = pack p (unit_freq p) @ rest"
    and "wide 32 = 0 \<or> 8 dvd length p \<or> (\<forall>x \<in> set p. unat x < 2 ^ 31)"
  shows "unpack wide data dp old = Inr (p, dp + length (pack p (unit_freq p)))"
proof -
  obtain w s where w: "w \<le> 32" "pack_width (length p - length p div 8) 0 0 (unit_freq p) = (w, s)"
    "s = length (filter (\<lambda>x. unat x < 2 ^ w) p)" "\<And>j. (\<And>x. x \<in> set p \<Longrightarrow> unat x < 2 ^ j) \<Longrightarrow> w \<le> j"
    using unit_width [OF assms(1)] by metis
  show ?thesis
  proof (cases "length p = s")
    case True
    then have pk: "pack p (unit_freq p) = of_nat w # pack_values w p" using w(2) by (simp add: pack_def)
    have "unat x < 2 ^ w" if "x \<in> set p" for x
      using length_filter_less [OF that, of "\<lambda>x. unat x < 2 ^ w"] True w(3) by auto
    moreover have "w < 32 \<or> wide 32 = 0 \<or> 8 dvd length p" using assms(4) w(4) [of 31] by auto
    ultimately show ?thesis using assms(2,3) w(1) unfolding pk by (intro unpack_plain) auto
  next
    case False
    then have "w < 32" using w(1,3) by (cases "w = 32") auto
    then have pk: "pack p (unit_freq p) = [of_nat w + 0x80, of_nat (length p) - of_nat s] @
        (case split_exceptions (push_bit w 1) p of (first, p, ep) \<Rightarrow> first @ pack_values w p @ ep)"
      using w(2) False by (simp add: pack_def Let_def split: prod.split)
    show ?thesis using unpack_excepted [OF \<open>w < 32\<close> w(3) False assms(1,2) refl refl assms(3) [unfolded pk]] unfolding pk .
  qed
qed

section \<open>Sizes\<close>

lemma exception_bytes_size: "length (exception_bytes r p es) \<le> 5 * length es"
proof (induction es)
  case (Cons e es)
  then show ?case using b_enc_size(2) [of "p ! e - r"] by simp
qed simp

lemma patched_bytes_size: "length (concat (map (\<lambda>k. of_nat k # GRN_B_ENC (p ! k - r) :: byte list) es)) \<le> 6 * length es"
proof (induction es)
  case (Cons e es)
  then show ?case using b_enc_size(2) [of "p ! e - r"] by simp
qed simp

lemma split_exceptions_size:
  assumes "length p \<le> PFOR_UNIT_SIZE" and "pack_width (length p - length p div 8) 0 0 (unit_freq p) = (w, s)"
    and "length p \<noteq> s" and "split_exceptions (push_bit w 1) p = (first, p', ep)"
  shows "length first \<le> 1" and "length (pack_values w p') \<le> 512" and "length ep \<le> 96"
proof -
  let ?r = "push_bit w 1" and ?es = "exceptions (push_bit w 1) p (length p)"
  have w: "w \<le> 32" "s = length (filter (\<lambda>x. unat x < 2 ^ w) p)" "length p - s \<le> length p div 8"
    using unit_width [OF assms(1)] assms(2) by (metis prod.inject)+
  then have w32: "w < 32" using assms(3) by (cases "w = 32") auto
  have cnt: "length ?es = length p - s" using exception_count(1) [OF w32 w(2)] w(3) assms(1) by simp
  have "s \<le> length p" using w(2) by simp
  then have "0 < length ?es" using cnt assms(3) by linarith
  then have es: "length ?es \<le> 16" "?es \<noteq> []" using cnt w(3) assms(1) by auto
  have "(\<forall>x \<in> set p'. unat x < 2 ^ w) \<and> length p' = length p \<and> length first \<le> 1 \<and> length ep \<le> 6 * length ?es"
  proof (cases "7 \<le> w")
    case True
    then obtain k where l: "link_exceptions ?r p = (p', k, ep)" "first = [lo k]"
      using assms(4) width_mask(3) [OF w32] by (auto simp: split_exceptions_def Let_def simp del: push_bit_of_1 split: prod.splits)
    show ?thesis
      using link_small [OF w32 True assms(1) es(2) l(1)] link_exceptions_ok(1,3) [OF es(2) l(1)] l(2)
        exception_bytes_size [of p ?r ?es] by simp
  next
    case False
    then have "\<not> 0x80 \<le> (?r :: u32)" using width_mask(3) [OF w32] by (simp only: not_False_eq_True)
    then have f: "first = []" "p' = map (\<lambda>k. if k < length p \<and> ?r \<le> p ! k then 0 else p ! k) [0..<length p]"
      "ep = concat (map (\<lambda>k. of_nat k # GRN_B_ENC (p ! k - ?r)) ?es)"
      using assms(4) unfolding split_exceptions_def cut_fold [OF order_refl] by (simp_all only: if_False prod.case Let_def prod.inject)
    have "\<forall>x \<in> set p'. unat x < 2 ^ w" unfolding f(2) using cut_small [OF w32, of _ p] by blast
    moreover have "length p' = length p" unfolding f(2) by (simp only: length_map length_upt diff_zero)
    moreover have "length ep \<le> 6 * length ?es" unfolding f(3) by (rule patched_bytes_size)
    ultimately show ?thesis using f(1) by simp
  qed
  note * = this
  have "length (pack_values w p') = (w * length p' + 7) div 8" using * w(1) by (intro length_pack_values) auto
  moreover have "w * length p' \<le> 32 * 128" using * w(1) assms(1) by (intro mult_le_mono) auto
  ultimately show "length (pack_values w p') \<le> 512" by simp
  show "length first \<le> 1" "length ep \<le> 96" using * es(1) by auto
qed

lemma pack_size:
  assumes "length p \<le> PFOR_UNIT_SIZE"
  shows "length (pack p (unit_freq p)) \<le> PACK_MAX_SIZE"
proof -
  obtain w s where w: "w \<le> 32" "pack_width (length p - length p div 8) 0 0 (unit_freq p) = (w, s)"
    "s = length (filter (\<lambda>x. unat x < 2 ^ w) p)"
    using unit_width [OF assms] by metis
  show ?thesis
  proof (cases "length p = s")
    case True
    have "unat x < 2 ^ w" if "x \<in> set p" for x
      using length_filter_less [OF that, of "\<lambda>x. unat x < 2 ^ w"] True w(3) by auto
    then have "length (pack_values w p) = (w * length p + 7) div 8" using w(1) by (rule length_pack_values [rotated])
    moreover have "w * length p \<le> 32 * 128" using w(1) assms by (intro mult_le_mono)
    ultimately have "length (pack_values w p) \<le> 512" by simp
    then show ?thesis using True w(2) by (simp add: pack_def PACK_MAX_SIZE_def)
  next
    case False
    obtain first p' ep where sp: "split_exceptions (push_bit w 1) p = (first, p', ep)" by (cases "split_exceptions (push_bit w 1) p")
    note sz = split_exceptions_size [OF assms w(2) False sp]
    have "pack p (unit_freq p) = [of_nat w + 0x80, of_nat (length p) - of_nat s] @ first @ pack_values w p' @ ep"
      using w(2) False sp by (simp add: pack_def Let_def)
    then show ?thesis using sz by (simp add: PACK_MAX_SIZE_def)
  qed
qed

section \<open>Any number of units\<close>

lemma dec_p_for_enc:
  assumes "length old = length vs" and "drop dp data = grn_enc_p_for vs @ rest"
    and "wide 32 = 0 \<or> 8 dvd length vs \<or> (\<forall>x \<in> set vs. unat x < 2 ^ 31)"
  shows "grn_dec_p_for wide data dp old = Inr (vs, dp + length (grn_enc_p_for vs))"
  using assms
proof (induction vs arbitrary: dp old rule: grn_enc_p_for.induct)
  case (1 vs)
  show ?case
  proof (cases "PFOR_UNIT_SIZE \<le> length vs")
    case True
    let ?u = "take PFOR_UNIT_SIZE vs" and ?r = "drop PFOR_UNIT_SIZE vs"
    have e: "grn_enc_p_for vs = pack ?u (unit_freq ?u) @ grn_enc_p_for ?r"
      using True by (simp add: grn_enc_p_for.simps [of vs] Let_def)
    have d: "drop dp data = pack ?u (unit_freq ?u) @ grn_enc_p_for ?r @ rest" using "1.prems"(2) e by simp
    have u: "unpack wide data dp (take PFOR_UNIT_SIZE old) = Inr (?u, dp + length (pack ?u (unit_freq ?u)))"
      using True d "1.prems"(1,3) by (intro unpack_pack) (auto dest: in_set_takeD)
    have "grn_dec_p_for wide data (dp + length (pack ?u (unit_freq ?u))) (drop PFOR_UNIT_SIZE old) =
        Inr (?r, dp + length (pack ?u (unit_freq ?u)) + length (grn_enc_p_for ?r))"
      using True drop_step [OF d] "1.prems"(1,3) by (intro "1.IH") (auto dest: in_set_dropD intro: dvd_diff_nat)
    then show ?thesis using True u e "1.prems"(1) by (simp add: grn_dec_p_for.simps [of wide data dp old])
  next
    case False
    then show ?thesis
      using unpack_pack [of vs old dp data rest wide] "1.prems"
      by (simp add: grn_dec_p_for.simps [of wide data dp old] grn_enc_p_for.simps [of vs])
  qed
qed

lemma enc_p_for_size: "length (grn_enc_p_for vs) \<le> grn_enc_estimate_p_for (length vs)"
proof (induction vs rule: grn_enc_p_for.induct)
  case (1 vs)
  show ?case
  proof (cases "PFOR_UNIT_SIZE \<le> length vs")
    case True
    let ?u = "take PFOR_UNIT_SIZE vs" and ?r = "drop PFOR_UNIT_SIZE vs"
    have "length (pack ?u (unit_freq ?u)) \<le> PACK_MAX_SIZE" using True by (intro pack_size) simp
    moreover have "length (grn_enc_p_for ?r) \<le> grn_enc_estimate_p_for (length ?r)" using 1 True by simp
    moreover have "length vs div PFOR_UNIT_SIZE = Suc (length ?r div PFOR_UNIT_SIZE)" using True by (simp add: le_div_geq)
    ultimately show ?thesis
      using True by (simp add: grn_enc_p_for.simps [of vs] Let_def grn_enc_estimate_p_for_def)
  next
    case False
    then show ?thesis
      using pack_size [of vs] by (simp add: grn_enc_p_for.simps [of vs] grn_enc_estimate_p_for_def)
  qed
qed

end
