(* ===== verification/DataVec.thy ===== *)
theory DataVec
  imports PForCorrect
begin

text \<open>
  The vectors of a posting list and their encoding, from \<^verbatim>\<open>lib/ii.cpp\<close>: a list of postings is stored by elements, first all
  record ids, then all section ids if the index has them, all term frequencies, all weights, and last all positions, of which
  there may be more than postings.  \<^verbatim>\<open>grn_encv\<close> writes the vectors one after the other behind a header that says how each one
  is encoded; \<^verbatim>\<open>grn_decv\<close> reads them back into one buffer.  A pointer \<^verbatim>\<open>data\<close> is the list of what is in memory from there.
\<close>

section \<open>The vectors\<close>

definition DATA_USE_P_FOR_ENC :: u32 where
  "DATA_USE_P_FOR_ENC = push_bit 0 1"

definition DATA_ODD :: u32 where
  "DATA_ODD = push_bit 2 1"

record datavec =
  dv_data :: "u32 list"
  dv_data_size :: nat
  dv_flags :: u32

record ii_flags =
  with_section :: bool
  with_weight :: bool
  with_position :: bool

abbreviation uses_p_for :: "datavec \<Rightarrow> bool" where
  "uses_p_for d \<equiv> dv_flags d AND DATA_USE_P_FOR_ENC \<noteq> 0"

definition dv_values :: "datavec \<Rightarrow> u32 list" where
  "dv_values d = take (dv_data_size d) (dv_data d)"

definition data_records_use_p_for_enc :: "u32 \<Rightarrow> u32 \<Rightarrow> bool" where
  "data_records_use_p_for_enc n_records max_record_id \<longleftrightarrow> 16 \<le> n_records \<and> drop_bit 8 max_record_id < n_records"

definition data_sections_use_p_for_enc :: "u32 \<Rightarrow> bool" where
  "data_sections_use_p_for_enc n_records \<longleftrightarrow> 3 \<le> n_records"

definition data_positions_use_p_for_enc :: "u32 \<Rightarrow> u32 \<Rightarrow> bool" where
  "data_positions_use_p_for_enc n_positions max_position \<longleftrightarrow> 32 \<le> n_positions \<and> drop_bit 13 max_position < n_positions"

definition resize :: "u32 \<Rightarrow> bool \<Rightarrow> datavec \<Rightarrow> datavec" where
  "resize sz use d =
     d\<lparr>dv_data_size := unat sz,
       dv_flags := (if use then dv_flags d OR DATA_USE_P_FOR_ENC else dv_flags d AND NOT DATA_USE_P_FOR_ENC)\<rparr>"

definition set_element :: "u32 \<Rightarrow> bool \<Rightarrow> datavec list \<times> nat \<Rightarrow> datavec list \<times> nat" where
  "set_element sz use st = (case st of (dv, i) \<Rightarrow> (dv[i := resize sz use (dv ! i)], i + 1))"

definition datavec_set_data_size ::
    "ii_flags \<Rightarrow> datavec list \<Rightarrow> u32 \<Rightarrow> u32 \<Rightarrow> u32 \<Rightarrow> u32 \<Rightarrow> datavec list" where
  "datavec_set_data_size ii dv n_records max_record_id n_positions max_position =
     (let sections = data_sections_use_p_for_enc n_records;
          st = set_element n_records (data_records_use_p_for_enc n_records max_record_id) (dv, 0);
          st = (if with_section ii then set_element n_records sections st else st);
          st = set_element n_records sections st;
          st = (if with_weight ii then set_element n_records sections st else st);
          st = (if with_position ii
                then set_element n_positions (data_positions_use_p_for_enc n_positions max_position) st else st)
      in fst st)"

section \<open>Encoding\<close>

fun encv_flags :: "nat \<Rightarrow> datavec list \<Rightarrow> u32" where
  "encv_flags l [] = 0"
| "encv_flags l (d # dv) = (if uses_p_for d then push_bit l 1 else 0) + encv_flags (l + 1) dv"

fun encv_valid :: "nat \<Rightarrow> datavec list \<Rightarrow> bool" where
  "encv_valid df [] \<longleftrightarrow> True"
| "encv_valid df (d # dv) \<longleftrightarrow>
     \<not> (dv_data_size d < df \<or> (df < dv_data_size d \<and> dv \<noteq> [])) \<and> encv_valid df dv"

definition encv_element :: "datavec \<Rightarrow> byte list" where
  "encv_element d = (if uses_p_for d then grn_enc_p_for (dv_values d) else grn_enc_byte (dv_values d))"

definition encv_gap :: "datavec list \<Rightarrow> u32" where
  "encv_gap dv = of_nat (sum_list (map dv_data_size dv)) - of_nat (dv_data_size (hd dv)) * of_nat (length dv)"

text \<open>
  With a buffer \<^verbatim>\<open>grn_encv\<close> writes the bytes and returns their number, \<open>None\<close> being the result -1; without one it returns an estimate.
\<close>

definition grn_encv :: "datavec list \<Rightarrow> byte list option" where
  "grn_encv dv =
     (let df = dv_data_size (hd dv); flags = encv_flags 0 dv
      in if df = 0 then Some []
         else if \<not> encv_valid df dv then None
         else if flags = 0 then
           Some (GRN_B_ENC (push_bit 1 (of_nat df) + 1) @ concat (map (\<lambda>d. grn_enc_byte (dv_values d)) dv))
         else
           Some (grn_enc_byte [push_bit 1 flags, of_nat df] @
                 (if dv_flags (last dv) AND DATA_ODD \<noteq> 0 then grn_enc_byte [encv_gap dv] else []) @
                 concat (map encv_element dv)))"

definition grn_encv_estimate :: "datavec list \<Rightarrow> nat option" where
  "grn_encv_estimate dv =
     (let df = dv_data_size (hd dv)
      in if df = 0 then Some 0
         else if \<not> encv_valid df dv then None
         else if encv_flags 0 dv = 0 then
           Some (grn_enc_estimate_byte 1 + sum_list (map (\<lambda>d. grn_enc_estimate_byte (dv_data_size d)) dv))
         else
           Some (grn_enc_estimate_byte 2 +
                 (if dv_flags (last dv) AND DATA_ODD \<noteq> 0 then grn_enc_estimate_byte 1 else 0) +
                 sum_list (map (\<lambda>d. if uses_p_for d then grn_enc_estimate_p_for (dv_data_size d)
                                    else grn_enc_estimate_byte (dv_data_size d)) dv)))"

section \<open>Decoding\<close>

lemma dec_byte_check_forward: "grn_dec_byte_check data dp = Inr (v, dp') \<Longrightarrow> dp < dp' \<and> dp' \<le> length data"
  by (auto simp: grn_dec_byte_check_def Let_def split: if_splits)

function dec_byte_to_end :: "byte list \<Rightarrow> nat \<Rightarrow> codec_error + u32 list" where
  "dec_byte_to_end data dp =
     (if dp < length data then
        case grn_dec_byte_check data dp of
          Inl e \<Rightarrow> Inl e
        | Inr (v, dp) \<Rightarrow> (case dec_byte_to_end data dp of Inl e \<Rightarrow> Inl e | Inr vs \<Rightarrow> Inr (v # vs))
      else Inr [])"
  by pat_completeness auto
termination
  by (relation "measure (\<lambda>(data, dp). length data - dp)") (auto dest: dec_byte_check_forward)

declare dec_byte_to_end.simps [simp del]

text \<open>
  The numbers are decoded into one buffer with room for \<open>cap\<close> numbers, which is replaced when it is too small; \<open>malloc\<close> says whether
  a new one is available.  \<open>junk\<close> is what is in the buffer before, and an element that does not fit is \<open>OUT_OF_BOUNDS\<close>.
\<close>

record decv_env =
  de_wide :: "nat \<Rightarrow> u32"
  de_malloc :: "nat \<Rightarrow> bool"
  de_junk :: "nat \<Rightarrow> u32"

definition decv_buffer :: "decv_env \<Rightarrow> nat \<Rightarrow> nat \<Rightarrow> codec_error + nat" where
  "decv_buffer env cap sz =
     (if cap < sz then if de_malloc env sz then Inr sz else Inl NO_MEMORY else Inr cap)"

definition put_element :: "nat \<Rightarrow> nat \<Rightarrow> u32 list \<Rightarrow> datavec \<Rightarrow> codec_error + datavec" where
  "put_element cap rp vs d =
     (if cap < rp + length vs then Inl OUT_OF_BOUNDS else Inr (d\<lparr>dv_data := vs, dv_data_size := length vs\<rparr>))"

fun decv_plain :: "byte list \<Rightarrow> nat \<Rightarrow> nat \<Rightarrow> nat \<Rightarrow> nat \<Rightarrow> datavec list \<Rightarrow> codec_error + datavec list \<times> nat" where
  "decv_plain data df cap rp dp [] = Inr ([], rp)"
| "decv_plain data df cap rp dp (d # dv) =
     (case (if dv = [] then map_sum id (\<lambda>vs. (vs, length data)) (dec_byte_to_end data dp) else grn_dec_byte data dp df) of
        Inl e \<Rightarrow> Inl e
      | Inr (vs, dp) \<Rightarrow>
          (case put_element cap rp vs d of
             Inl e \<Rightarrow> Inl e
           | Inr d \<Rightarrow>
               (case decv_plain data df cap (rp + length vs) dp dv of
                  Inl e \<Rightarrow> Inl e
                | Inr (dv, rp) \<Rightarrow> Inr (d # dv, rp))))"

definition decv_flag :: "u32 \<Rightarrow> nat \<Rightarrow> datavec \<Rightarrow> datavec" where
  "decv_flag flags l d =
     d\<lparr>dv_flags := (if flags AND push_bit l 1 \<noteq> 0 then dv_flags d OR DATA_USE_P_FOR_ENC
                     else dv_flags d AND NOT DATA_USE_P_FOR_ENC)\<rparr>"

fun decv_packed ::
    "decv_env \<Rightarrow> byte list \<Rightarrow> u32 \<Rightarrow> u32 \<Rightarrow> u32 \<Rightarrow> nat \<Rightarrow> nat \<Rightarrow> nat \<Rightarrow> nat \<Rightarrow> datavec list \<Rightarrow>
     codec_error + datavec list \<times> nat \<times> nat" where
  "decv_packed env data flags df rest l cap rp dp [] = Inr ([], rp, dp)"
| "decv_packed env data flags df rest l cap rp dp (d # dv) =
     (let n = unat (if dv = [] then df + rest else df); d = decv_flag flags l d
      in case (if cap < rp + n then Inl OUT_OF_BOUNDS
               else if uses_p_for d then grn_dec_p_for (de_wide env) data dp (map (de_junk env) [rp..<rp + n])
               else grn_dec_byte data dp n) of
           Inl e \<Rightarrow> Inl e
         | Inr (vs, dp) \<Rightarrow>
             (case decv_packed env data flags df rest (l + 1) cap (rp + n) dp dv of
                Inl e \<Rightarrow> Inl e
              | Inr (dv, rp, dp) \<Rightarrow> Inr (d\<lparr>dv_data := vs, dv_data_size := n\<rparr> # dv, rp, dp)))"

text \<open>
  The result is the number of decoded numbers, the vectors and the room in the buffer.
\<close>

definition decv_packed_head :: "byte list \<Rightarrow> nat \<Rightarrow> datavec list \<Rightarrow> codec_error + u32 \<times> u32 \<times> nat" where
  "decv_packed_head data dp dv =
     (case grn_dec_byte_check data dp of
        Inl e \<Rightarrow> Inl e
      | Inr (df, dp) \<Rightarrow>
          if dv_flags (last dv) AND DATA_ODD \<noteq> 0
          then map_sum id (\<lambda>(rest, dp). (df, rest, dp)) (grn_dec_byte_check data dp)
          else Inr (df, 0, dp))"

definition grn_decv :: "decv_env \<Rightarrow> byte list \<Rightarrow> nat \<Rightarrow> datavec list \<Rightarrow> codec_error + nat \<times> datavec list \<times> nat" where
  "grn_decv env data cap dv =
     (if data = [] then Inr (0, dv[0 := (dv ! 0)\<lparr>dv_data_size := 0\<rparr>], cap)
      else case grn_dec_byte_check data 0 of
        Inl e \<Rightarrow> Inl e
      | Inr (df, dp) \<Rightarrow>
          if df AND 1 \<noteq> 0 then
            (case decv_buffer env cap (length data) of
               Inl e \<Rightarrow> Inl e
             | Inr cap \<Rightarrow>
                 map_sum id (\<lambda>(dv, rp). (rp, dv, cap)) (decv_plain data (unat (drop_bit 1 df)) cap 0 dp dv))
          else
            (case decv_packed_head data dp dv of
               Inl e \<Rightarrow> Inl e
             | Inr (n, rest, dp) \<Rightarrow>
                 (case decv_buffer env cap (unat (n * of_nat (length dv) + rest)) of
                    Inl e \<Rightarrow> Inl e
                  | Inr cap \<Rightarrow>
                      (case decv_packed env data (drop_bit 1 df) n rest 0 cap 0 dp dv of
                         Inl e \<Rightarrow> Inl e
                       | Inr (dv, rp, dp) \<Rightarrow> if dp \<noteq> length data then Inl FILE_CORRUPT else Inr (rp, dv, cap)))))"

section \<open>Plain arrays\<close>

definition grn_b_enc :: "u32 list \<Rightarrow> byte list" where
  "grn_b_enc data = GRN_B_ENC (of_nat (length data)) @ concat (map GRN_B_ENC data)"

fun b_dec_loop :: "nat \<Rightarrow> byte list \<Rightarrow> u32 list option" where
  "b_dec_loop 0 dp = Some []"
| "b_dec_loop (Suc i) dp =
     (case GRN_B_DEC dp of
        None \<Rightarrow> None
      | Some (v, dp) \<Rightarrow> (case b_dec_loop i dp of None \<Rightarrow> None | Some vs \<Rightarrow> Some (v # vs)))"

definition grn_b_dec :: "byte list \<Rightarrow> u32 list option" where
  "grn_b_dec data = (case GRN_B_DEC data of None \<Rightarrow> None | Some (orig_size, dp) \<Rightarrow> b_dec_loop (unat orig_size) dp)"

end
