(* ===== verification/DataVecCorrect.thy ===== *)
theory DataVecCorrect
  imports DataVec
begin

text \<open>
  Decoding an encoded list of postings gives its vectors back, and the estimate of the encoded size is large enough.
\<close>

section \<open>The flags\<close>

lemma uses_p_for_flags [simp]:
  "DATA_USE_P_FOR_ENC \<noteq> 0"
  "(x AND NOT DATA_USE_P_FOR_ENC) AND DATA_USE_P_FOR_ENC = 0"
  by (simp_all add: DATA_USE_P_FOR_ENC_def and.assoc)

lemma uses_p_for_decv_flag: "uses_p_for (decv_flag flags l d) \<longleftrightarrow> bit flags l"
proof -
  have "flags AND push_bit l 1 \<noteq> 0 \<longleftrightarrow> bit flags l" using push_bit_1_and_nonzero [of l flags] by (simp only: and.commute)
  then show ?thesis by (simp add: decv_flag_def del: push_bit_of_1)
qed

lemma encv_flags_bit:
  assumes "l + length dv \<le> 32"
  shows "bit (encv_flags l dv) j \<longleftrightarrow> l \<le> j \<and> j - l < length dv \<and> uses_p_for (dv ! (j - l))"
  using assms
proof (induction dv arbitrary: l j)
  case (Cons d dv)
  let ?r = "encv_flags (l + 1) dv"
  have r: "bit ?r j \<longleftrightarrow> l + 1 \<le> j \<and> j - (l + 1) < length dv \<and> uses_p_for (dv ! (j - (l + 1)))" for j
    using Cons by simp
  have "push_bit l 1 AND ?r = 0" using push_bit_1_and_nonzero [of l ?r] r [of l] by auto
  then have sum: "push_bit l 1 + ?r = push_bit l 1 OR ?r" by (rule disjunctive_add_eq_or)
  have p: "bit (push_bit l 1 :: u32) j \<longleftrightarrow> j = l" if "l < 32" for j
    using that by (auto simp: bit_push_bit_iff bit_1_iff simp del: push_bit_of_1)
  consider "j < l" | "j = l" | k where "j = Suc (l + k)" by (metis less_imp_Suc_add linorder_neqE_nat)
  then show ?case
    using r [of j] p [of j] Cons.prems sum by cases (auto simp: bit_or_iff simp del: push_bit_of_1)
qed simp

lemma encv_flags_zero:
  assumes "length dv \<le> 32"
  shows "encv_flags 0 dv = 0 \<longleftrightarrow> (\<forall>d \<in> set dv. \<not> uses_p_for d)"
proof -
  have "encv_flags 0 dv = 0 \<longleftrightarrow> (\<forall>j. \<not> bit (encv_flags 0 dv) j)" by (auto intro!: bit_word_eqI)
  also have "\<dots> \<longleftrightarrow> (\<forall>j < length dv. \<not> uses_p_for (dv ! j))" using encv_flags_bit [of 0 dv] assms by auto
  finally show ?thesis by (simp add: all_set_conv_all_nth)
qed

section \<open>The vectors\<close>

definition dv_ok :: "datavec list \<Rightarrow> bool" where
  "dv_ok dv \<longleftrightarrow> (\<forall>d \<in> set dv. dv_data_size d \<le> length (dv_data d))"

lemma length_dv_values: "dv_data_size d \<le> length (dv_data d) \<Longrightarrow> length (dv_values d) = dv_data_size d"
  by (simp add: dv_values_def)

lemma encv_valid_Cons2: "encv_valid df (d # d' # dv) \<longleftrightarrow> dv_data_size d = df \<and> encv_valid df (d' # dv)"
  by auto

lemma dec_to_end_enc:
  assumes "drop dp data = grn_enc_byte vs"
  shows "dec_byte_to_end data dp = Inr vs"
  using assms
proof (induction vs arbitrary: dp)
  case Nil
  then show ?case by (simp add: grn_enc_byte_def dec_byte_to_end.simps)
next
  case (Cons v vs)
  then have d: "drop dp data = GRN_B_ENC v @ grn_enc_byte vs" by (simp add: grn_enc_byte_def)
  have "dp < length data" using d b_enc_size(1) [of v] by (cases "dp < length data") auto
  then show ?case using Cons.IH [OF drop_step [OF d]] dec_byte_check_enc [OF d] by (simp add: dec_byte_to_end.simps [of data dp])
qed

abbreviation decoded :: "datavec \<Rightarrow> datavec \<Rightarrow> datavec" where
  "decoded d s \<equiv> d\<lparr>dv_data := dv_values s, dv_data_size := dv_data_size s\<rparr>"

lemma decv_plain_enc:
  assumes "length dst = length src" and "dv_ok src" and "encv_valid df src" and "rp + sum_list (map dv_data_size src) \<le> cap"
    and "drop dp data = concat (map (\<lambda>d. grn_enc_byte (dv_values d)) src)"
  shows "decv_plain data df cap rp dp dst = Inr (map2 decoded dst src, rp + sum_list (map dv_data_size src))"
  using assms
proof (induction dst src arbitrary: rp dp rule: list_induct2)
  case (Cons d dst s src)
  let ?vs = "dv_values s"
  have len: "length ?vs = dv_data_size s" using Cons.prems(1) by (simp add: dv_ok_def length_dv_values)
  have put: "put_element cap rp ?vs d = Inr (decoded d s)" using Cons.prems(3) len by (simp add: put_element_def)
  show ?case
  proof (cases src)
    case Nil
    then have "dst = []" using Cons.hyps by simp
    then show ?thesis using Nil Cons.prems(4) put len dec_to_end_enc [of dp data ?vs] by simp
  next
    case (Cons s' src')
    then have dst: "dst \<noteq> []" using Cons.hyps by auto
    have df: "dv_data_size s = df" "encv_valid df src" using Cons.prems(2) Cons by (auto simp: encv_valid_Cons2)
    have d: "drop dp data = grn_enc_byte ?vs @ concat (map (\<lambda>d. grn_enc_byte (dv_values d)) src)" using Cons.prems(4) by simp
    have "grn_dec_byte data dp df = Inr (?vs, dp + length (grn_enc_byte ?vs))"
      using dec_byte_enc [OF d] len df(1) by simp
    then show ?thesis
      using Cons.IH [OF _ df(2) _ drop_step [OF d], of "rp + dv_data_size s"] Cons.prems put len dst
      by (simp add: dv_ok_def add.assoc)
  qed
qed simp

abbreviation decoded_flags :: "datavec \<Rightarrow> datavec \<Rightarrow> datavec" where
  "decoded_flags d s \<equiv> decoded d s\<lparr>dv_flags := (if uses_p_for s then dv_flags d OR DATA_USE_P_FOR_ENC
     else dv_flags d AND NOT DATA_USE_P_FOR_ENC)\<rparr>"

lemma decv_flag_eq: "decv_flag flags l d = d\<lparr>dv_flags := (if bit flags l then dv_flags d OR DATA_USE_P_FOR_ENC
    else dv_flags d AND NOT DATA_USE_P_FOR_ENC)\<rparr>"
proof -
  have "flags AND push_bit l 1 \<noteq> 0 \<longleftrightarrow> bit flags l" using push_bit_1_and_nonzero [of l flags] by (simp only: and.commute)
  then show ?thesis by (simp add: decv_flag_def del: push_bit_of_1)
qed

definition narrow :: "(nat \<Rightarrow> u32) \<Rightarrow> datavec \<Rightarrow> bool" where
  "narrow wide d \<longleftrightarrow> uses_p_for d \<longrightarrow>
     wide 32 = 0 \<or> 8 dvd dv_data_size d \<or> (\<forall>x \<in> set (dv_values d). unat x < 2 ^ 31)"

lemma dec_element_enc:
  assumes "dv_data_size s \<le> length (dv_data s)" and "narrow wide s" and "drop dp data = encv_element s @ r"
    and "length old = dv_data_size s"
  shows "(if uses_p_for s then grn_dec_p_for wide data dp old else grn_dec_byte data dp (dv_data_size s)) =
    Inr (dv_values s, dp + length (encv_element s))"
proof (cases "uses_p_for s")
  case True
  then show ?thesis
    using dec_p_for_enc [of old "dv_values s" dp data r wide] assms length_dv_values [OF assms(1)]
    by (simp add: encv_element_def narrow_def)
next
  case False
  then show ?thesis
    using dec_byte_enc [of dp data "dv_values s" r] assms(3) length_dv_values [OF assms(1)] by (simp add: encv_element_def)
qed

lemma decv_packed_enc:
  assumes "length dst = length src" and "dv_ok src" and "encv_valid (unat df) src" and "rp + sum_list (map dv_data_size src) \<le> cap"
    and "src \<noteq> [] \<Longrightarrow> dv_data_size (last src) = unat (df + rest)" and "\<And>s. s \<in> set src \<Longrightarrow> narrow (de_wide env) s"
    and "\<And>k. k < length src \<Longrightarrow> bit flags (l + k) = uses_p_for (src ! k)"
    and "drop dp data = concat (map encv_element src) @ r"
  shows "decv_packed env data flags df rest l cap rp dp dst =
    Inr (map2 decoded_flags dst src, rp + sum_list (map dv_data_size src), dp + length (concat (map encv_element src)))"
  using assms
proof (induction dst src arbitrary: l rp dp rule: list_induct2)
  case (Cons d dst s src)
  let ?n = "unat (if dst = [] then df + rest else df)"
  have n: "?n = dv_data_size s" and v: "encv_valid (unat df) src"
    using Cons.prems(2,4) Cons.hyps by (cases src; auto simp: encv_valid_Cons2 simp del: encv_valid.simps(2))+
  have s: "dv_data_size s \<le> length (dv_data s)" "narrow (de_wide env) s" using Cons.prems(1,5) by (simp_all add: dv_ok_def)
  have d: "drop dp data = encv_element s @ concat (map encv_element src) @ r" using Cons.prems(7) by simp
  have b: "bit flags l = uses_p_for s" using Cons.prems(6) [of 0] by simp
  have f: "uses_p_for (decv_flag flags l d) = uses_p_for s" using uses_p_for_decv_flag b by simp
  have e: "(if uses_p_for s then grn_dec_p_for (de_wide env) data dp (map (de_junk env) [rp..<rp + dv_data_size s])
      else grn_dec_byte data dp (dv_data_size s)) = Inr (dv_values s, dp + length (encv_element s))"
    by (rule dec_element_enc [OF s d]) simp
  have IH: "decv_packed env data flags df rest (l + 1) cap (rp + dv_data_size s) (dp + length (encv_element s)) dst =
      Inr (map2 decoded_flags dst src, rp + dv_data_size s + sum_list (map dv_data_size src),
        dp + length (encv_element s) + length (concat (map encv_element src)))"
    by (rule Cons.IH [OF _ v _ _ _ _ drop_step [OF d]])
      (use Cons.prems(1,3,4,5) Cons.prems(6) [of "Suc _"] in \<open>auto simp: dv_ok_def\<close>)
  show ?case
    unfolding decv_packed.simps Let_def n f using e IH Cons.prems(3) b by (simp add: add.assoc decv_flag_eq)
qed simp

section \<open>A list of postings\<close>

lemma encv_valid_sum:
  "encv_valid df dv \<Longrightarrow> dv \<noteq> [] \<Longrightarrow>
    df \<le> dv_data_size (last dv) \<and> sum_list (map dv_data_size dv) = df * length dv + (dv_data_size (last dv) - df)"
proof (induction dv)
  case (Cons d dv)
  show ?case
  proof (cases dv)
    case Nil
    then show ?thesis using Cons.prems by auto
  next
    case (Cons d' dv')
    then show ?thesis using Cons.IH Cons.prems by (auto simp: encv_valid_Cons2 simp del: encv_valid.simps(2))
  qed
qed simp

lemma unat_mult_add:
  assumes "a * b + c < 2 ^ 32"
  shows "unat (of_nat a * of_nat b + of_nat c :: u32) = a * b + c"
proof -
  have "of_nat a * of_nat b + of_nat c = (of_nat (a * b + c) :: u32)" by simp
  then show ?thesis using assms by (simp only: unat_of_nat) simp
qed

lemma encv_gap_eq:
  assumes "encv_valid (dv_data_size (hd dv)) dv" and "dv \<noteq> []"
  shows "encv_gap dv = of_nat (dv_data_size (last dv) - dv_data_size (hd dv))"
  unfolding encv_gap_def using encv_valid_sum [OF assms] by simp

lemma plain_head:
  assumes "df < 2 ^ 31"
  shows "(push_bit 1 (of_nat df) + 1 :: u32) AND 1 \<noteq> 0" and "unat (drop_bit 1 (push_bit 1 (of_nat df) + 1 :: u32)) = df"
proof -
  have u: "unat (push_bit 1 (of_nat df) + 1 :: u32) = 2 * df + 1" 
    using assms by (simp add: unat_word_ariths unat_of_nat)
  then show "unat (drop_bit 1 (push_bit 1 (of_nat df) + 1 :: u32)) = df" by (simp add: unat_drop_bit)
  show "(push_bit 1 (of_nat df) + 1 :: u32) AND 1 \<noteq> 0" by (simp add: and_one_eq mod_2_eq_odd)
qed

lemma drop_push_bit:
  fixes x :: u32
  assumes "\<And>i. 32 - n \<le> i \<Longrightarrow> \<not> bit x i"
  shows "drop_bit n (push_bit n x) = x"
proof (rule bit_word_eqI)
  fix i
  show "bit (drop_bit n (push_bit n x)) i = bit x i"
    using assms [of i] by (cases "n + i < 32") (auto simp: bit_drop_bit_eq bit_push_bit_iff)
qed

lemma packed_head:
  assumes "length dv \<le> 31"
  shows "push_bit 1 (encv_flags 0 dv) AND 1 = 0" and "drop_bit 1 (push_bit 1 (encv_flags 0 dv)) = encv_flags 0 dv"
proof -
  show "push_bit 1 (encv_flags 0 dv) AND 1 = 0" by (simp add: and_one_eq mod_2_eq_odd)
  show "drop_bit 1 (push_bit 1 (encv_flags 0 dv)) = encv_flags 0 dv"
    using encv_flags_bit [of 0 dv] assms by (intro drop_push_bit) auto
qed

lemma plain_size:
  assumes "dv_ok dv"
  shows "sum_list (map dv_data_size dv) \<le> length (concat (map (\<lambda>d. grn_enc_byte (dv_values d)) dv))"
  using assms
proof (induction dv)
  case (Cons d dv)
  then show ?case using enc_byte_size(2) [of "dv_values d"] by (simp add: dv_ok_def length_dv_values)
qed simp

lemma decv_buffer_ok:
  assumes "\<And>n. de_malloc env n"
  obtains cap' where "decv_buffer env cap n = Inr cap'" and "n \<le> cap'"
  using assms by (cases "cap < n") (simp_all add: decv_buffer_def)

lemma decv_encv_plain:
  assumes src: "src \<noteq> []" "length src \<le> 31" "dv_ok src" and df: "0 < dv_data_size (hd src)" "sum_list (map dv_data_size src) < 2 ^ 31"
    and enc: "grn_encv src = Some bytes" and flags: "encv_flags 0 src = 0" and malloc: "\<And>n. de_malloc env n" and dst: "length dst = length src"
  shows "\<exists>cap'. grn_decv env bytes cap dst = Inr (sum_list (map dv_data_size src), map2 decoded dst src, cap')"
proof -
  let ?df = "dv_data_size (hd src)" and ?body = "concat (map (\<lambda>d. grn_enc_byte (dv_values d)) src)"
  let ?v = "push_bit 1 (of_nat ?df) + 1 :: u32"
  have v: "encv_valid ?df src" and b: "bytes = GRN_B_ENC ?v @ ?body"
    using enc df(1) flags by (auto simp: grn_encv_def Let_def split: if_splits)
  have "?df \<le> sum_list (map dv_data_size src)" using src(1) by (cases src) simp_all
  then have "?df < 2 ^ 31" using df(2) by linarith
  note h = plain_head [OF this]
  have d: "drop 0 bytes = GRN_B_ENC ?v @ ?body" using b by simp
  note c = dec_byte_check_enc [OF d, simplified]
  obtain cap' where cap': "decv_buffer env cap (length bytes) = Inr cap'" "length bytes \<le> cap'"
    using malloc by (rule decv_buffer_ok)
  have "0 + sum_list (map dv_data_size src) \<le> cap'" using plain_size [OF src(3)] cap'(2) b by simp
  then have "decv_plain bytes ?df cap' 0 (length (GRN_B_ENC ?v)) dst =
      Inr (map2 decoded dst src, 0 + sum_list (map dv_data_size src))"
    using decv_plain_enc [OF dst src(3) v _ drop_step [OF d], of 0 cap'] by simp
  then show ?thesis using c h cap'(1) b b_enc_size(1) [of ?v] by (auto simp: grn_decv_def)
qed

lemma decv_encv_packed:
  assumes src: "src \<noteq> []" "length src \<le> 31" "dv_ok src" and df: "0 < dv_data_size (hd src)" "sum_list (map dv_data_size src) < 2 ^ 31"
    and enc: "grn_encv src = Some bytes" and flags: "encv_flags 0 src \<noteq> 0" and malloc: "\<And>n. de_malloc env n" and dst: "length dst = length src"
    and odd: "dv_flags (last dst) AND DATA_ODD = dv_flags (last src) AND DATA_ODD"
      "dv_flags (last src) AND DATA_ODD = 0 \<Longrightarrow> dv_data_size (last src) = dv_data_size (hd src)"
    and wide: "\<And>s. s \<in> set src \<Longrightarrow> narrow (de_wide env) s"
  shows "\<exists>cap'. grn_decv env bytes cap dst = Inr (sum_list (map dv_data_size src), map2 decoded_flags dst src, cap')"
proof -
  let ?df = "dv_data_size (hd src)" and ?body = "concat (map encv_element src)" and ?sum = "sum_list (map dv_data_size src)"
  let ?rest = "dv_data_size (last src) - ?df" and ?v = "push_bit 1 (encv_flags 0 src)"
  let ?gap = "if dv_flags (last src) AND DATA_ODD \<noteq> 0 then grn_enc_byte [encv_gap src] else []"
  have v: "encv_valid ?df src" and b: "bytes = GRN_B_ENC ?v @ GRN_B_ENC (of_nat ?df) @ ?gap @ ?body"
    using enc df(1) flags by (auto simp: grn_encv_def Let_def grn_enc_byte_def split: if_splits)
  note sum = encv_valid_sum [OF v src(1)]
  have lt: "?df < 2 ^ 32" "?rest < 2 ^ 32" "?df + ?rest < 2 ^ 32" "?df * length src + ?rest < 2 ^ 32"
    using sum df(2) src(1) by (cases src; simp)+
  have d0: "drop 0 bytes = GRN_B_ENC ?v @ GRN_B_ENC (of_nat ?df) @ ?gap @ ?body" using b by simp
  note d1 = drop_step [OF d0]
  note d2 = drop_step [OF d1]
  let ?dp = "length (GRN_B_ENC ?v) + length (GRN_B_ENC (of_nat ?df))"
  have head: "decv_packed_head bytes (length (GRN_B_ENC ?v)) dst = Inr (of_nat ?df, of_nat ?rest, ?dp + length ?gap)"
  proof (cases "dv_flags (last src) AND DATA_ODD = 0")
    case True
    then show ?thesis using dec_byte_check_enc [OF d1] odd by (simp add: decv_packed_head_def)
  next
    case False
    then have "drop ?dp bytes = GRN_B_ENC (of_nat ?rest) @ ?body"
      using d2 encv_gap_eq [OF v src(1)] by (simp add: grn_enc_byte_def)
    from dec_byte_check_enc [OF this] show ?thesis
      using dec_byte_check_enc [OF d1] False odd(1) encv_gap_eq [OF v src(1)] by (simp add: decv_packed_head_def grn_enc_byte_def)
  qed
  have total: "unat (of_nat ?df * of_nat (length dst) + of_nat ?rest :: u32) = ?sum"
    using unat_mult_add [OF lt(4)] sum dst by simp
  obtain cap' where cap': "decv_buffer env cap ?sum = Inr cap'" "?sum \<le> cap'" using malloc by (rule decv_buffer_ok)
  have u: "unat (of_nat ?df :: u32) = ?df" "unat (of_nat ?df + of_nat ?rest :: u32) = dv_data_size (last src)"
    using lt sum unat_of_nat [where 'a = 32, of ?df] unat_of_nat [where 'a = 32, of "?df + ?rest"] by simp_all
  have "drop (?dp + length ?gap) bytes = ?body @ []" using drop_step [OF d2] by simp
  then have "decv_packed env bytes (encv_flags 0 src) (of_nat ?df) (of_nat ?rest) 0 cap' 0 (?dp + length ?gap) dst =
      Inr (map2 decoded_flags dst src, 0 + ?sum, ?dp + length ?gap + length ?body)"
    using dst src(3) v cap'(2) u wide encv_flags_bit [of 0 src] src(2) by (intro decv_packed_enc) auto
  moreover have "?dp + length ?gap + length ?body = length bytes" using b by simp
  ultimately show ?thesis
    using dec_byte_check_enc [OF d0] packed_head [OF src(2)] head total cap'(1) b b_enc_size(1) [of ?v]
    by (auto simp: grn_decv_def)
qed

section \<open>The size of the encoding\<close>

lemma encv_element_size:
  assumes "dv_data_size d \<le> length (dv_data d)"
  shows "length (encv_element d) \<le>
    (if uses_p_for d then grn_enc_estimate_p_for (dv_data_size d) else grn_enc_estimate_byte (dv_data_size d))"
  using enc_p_for_size [of "dv_values d"] enc_byte_size(1) [of "dv_values d"] length_dv_values [OF assms]
  by (simp add: encv_element_def)

lemma encv_size:
  assumes "dv_ok dv" and "grn_encv dv = Some bytes"
  shows "\<exists>n. grn_encv_estimate dv = Some n \<and> length bytes \<le> n"
proof -
  have e: "length (concat (map encv_element dv)) \<le> sum_list (map (\<lambda>d. if uses_p_for d
      then grn_enc_estimate_p_for (dv_data_size d) else grn_enc_estimate_byte (dv_data_size d)) dv)"
    using assms(1) 
  proof (induction dv)
    case (Cons d dv)
    then show ?case using encv_element_size [of d] by (simp add: dv_ok_def)
  qed simp
  have p: "length (concat (map (\<lambda>d. grn_enc_byte (dv_values d)) dv)) \<le> sum_list (map (\<lambda>d. grn_enc_estimate_byte (dv_data_size d)) dv)"
    using assms(1) 
  proof (induction dv)
    case (Cons d dv)
    then show ?case using enc_byte_size(1) [of "dv_values d"] by (simp add: dv_ok_def length_dv_values)
  qed simp
  have h: "length (grn_enc_byte vs) \<le> grn_enc_estimate_byte (length vs)" for vs by (rule enc_byte_size(1))
  show ?thesis
    using assms(2) e p h [of "[push_bit 1 (encv_flags 0 dv), of_nat (dv_data_size (hd dv))]"] h [of "[encv_gap dv]"]
      b_enc_size(2) [of "push_bit 1 (of_nat (dv_data_size (hd dv))) + 1"]
    by (auto simp: grn_encv_def grn_encv_estimate_def Let_def grn_enc_estimate_byte_def split: if_splits)
qed

section \<open>Plain arrays\<close>

lemma b_dec_loop_enc: "b_dec_loop (length vs) (concat (map GRN_B_ENC vs) @ r) = Some vs"
  by (induction vs) (simp_all add: b_dec_enc)

lemma b_dec_b_enc:
  assumes "length data < 2 ^ 32"
  shows "grn_b_dec (grn_b_enc data @ r) = Some data"
  using assms b_dec_loop_enc [of data r] unat_of_nat [where 'a = 32, of "length data"]
  by (simp add: grn_b_dec_def grn_b_enc_def b_dec_enc)

lemma b_enc_bound:
  assumes "data \<noteq> []"
  shows "length (grn_b_enc data) \<le> 4 * length data * 2"
proof -
  let ?h = "length (GRN_B_ENC (of_nat (length data)))"
  have "length (concat (map GRN_B_ENC data)) \<le> 5 * length data"
    using enc_byte_size(1) [of data] by (simp add: grn_enc_byte_def grn_enc_estimate_byte_def)
  moreover have "?h \<le> 3 * length data"
  proof (cases "length data = 1")
    case False
    then have "2 \<le> length data" using assms by (cases data) (auto simp: Suc_le_eq)
    then show ?thesis using b_enc_size(2) [of "of_nat (length data)"] by simp
  qed (simp add: b_enc_length GRN_B_ENC_SIZE_def)
  ultimately show ?thesis by (simp add: grn_b_enc_def)
qed

end
