(* ===== verification/IndexTheorems.thy ===== *)
theory IndexTheorems
  imports DataVecCorrect
begin

text \<open>
  The properties of the encoding of posting lists, with concrete lists that show that their hypotheses hold.
\<close>

section \<open>Packing\<close>

text \<open>
  C19: the generated routines \<^verbatim>\<open>pack_1\<close> to \<^verbatim>\<open>pack_32\<close> and \<^verbatim>\<open>unpack_1\<close> to \<^verbatim>\<open>unpack_32\<close> do on eight numbers exactly what the loops over
  single numbers in \<^verbatim>\<open>pack_\<close> and \<^verbatim>\<open>unpack\<close> do, for every width.
\<close>

theorem packed_units_equal_loops:
  assumes "1 \<le> w" and "w \<le> 32" and "length p = 8" and "length old = 8" and "w \<le> length ds"
  shows "pack_unit w p = pack_rest w (8 - int w) 0 p \<and>
    unpack_rest w (mask w) ds (8 - int w) 0 0 old = (unpack_unit w ds, w)"
  using pack_unit_loop [OF assms(3,1,2)] unpack_unit_loop [OF assms(4,1,2,5)] by blast

theorem packed_units_equal_loops_witness:
  "pack_unit 3 [1, 2, 3, 4, 5, 6, 7, 0] = pack_rest 3 5 0 [1, 2, 3, 4, 5, 6, 7, 0] \<and>
   unpack_rest 3 (mask 3) [0x29, 0xcb, 0xb8] 5 0 0 [0, 0, 0, 0, 0, 0, 0, 0] = (unpack_unit 3 [0x29, 0xcb, 0xb8], 3)"
  using packed_units_equal_loops [of 3 "[1, 2, 3, 4, 5, 6, 7, 0]" "[0, 0, 0, 0, 0, 0, 0, 0]" "[0x29, 0xcb, 0xb8]"] by simp

text \<open>
  C18: \<^verbatim>\<open>grn_dec_p_for\<close> gives back any list of numbers that \<^verbatim>\<open>grn_enc_p_for\<close> wrote, with whatever follows, and stops right behind
  them, whatever was in the buffer before.  The last, incomplete group of eight numbers is only safe when no number needs 32
  bits, because \<^verbatim>\<open>unpack\<close> computes its mask by a shift that is not defined for that width.
\<close>

theorem p_for_roundtrip:
  assumes "drop dp data = grn_enc_p_for vs @ rest" and "length old = length vs"
    and "wide 32 = 0 \<or> 8 dvd length vs \<or> (\<forall>x \<in> set vs. unat x < 2 ^ 31)"
  shows "grn_dec_p_for wide data dp old = Inr (vs, dp + length (grn_enc_p_for vs))"
  using assms(2,1,3) by (rule dec_p_for_enc)

theorem p_for_roundtrip_witness:
  "grn_dec_p_for (\<lambda>_. 1) (grn_enc_p_for [1, 2, 3, 70000, 5] @ [9]) 0 [7, 7, 7, 7, 7] =
     Inr ([1, 2, 3, 70000, 5], 0 + length (grn_enc_p_for [1, 2, 3, 70000, 5]))"
  using p_for_roundtrip [of 0 "grn_enc_p_for [1, 2, 3, 70000, 5] @ [9]" "[1, 2, 3, 70000, 5]" "[9]" "[7, 7, 7, 7, 7]" "\<lambda>_. 1"]
  by simp


section \<open>Lists of postings\<close>


definition sample_postings :: "datavec list" where
  "sample_postings =
    [\<lparr>dv_data = [3, 1, 300, 2], dv_data_size = 4, dv_flags = 0\<rparr>,
     \<lparr>dv_data = [0, 0, 1, 0], dv_data_size = 4, dv_flags = 1\<rparr>,
     \<lparr>dv_data = [5, 9, 2, 70000, 1, 8], dv_data_size = 5, dv_flags = 4\<rparr>]"







text \<open>
  C21: \<^verbatim>\<open>datavec_set_data_size\<close> makes vectors that \<^verbatim>\<open>grn_encv\<close> accepts: the numbers of elements and their data stay, every element but
  the positions has one number per posting, and the positions keep their mark.
\<close>

definition n_elements :: "ii_flags \<Rightarrow> nat" where
  "n_elements ii = 2 + of_bool (with_section ii) + of_bool (with_weight ii) + of_bool (with_position ii)"

lemma odd_flag_kept:
  "(x OR DATA_USE_P_FOR_ENC) AND DATA_ODD = x AND DATA_ODD" "(x AND NOT DATA_USE_P_FOR_ENC) AND DATA_ODD = x AND DATA_ODD"
proof -
  have e: "DATA_USE_P_FOR_ENC AND DATA_ODD = 0" "NOT DATA_USE_P_FOR_ENC AND DATA_ODD = DATA_ODD"
    by (simp_all add: DATA_USE_P_FOR_ENC_def DATA_ODD_def)
  show "(x OR DATA_USE_P_FOR_ENC) AND DATA_ODD = x AND DATA_ODD" by (simp add: bit.conj_disj_distrib2 e(1))
  show "(x AND NOT DATA_USE_P_FOR_ENC) AND DATA_ODD = x AND DATA_ODD" by (simp only: and.assoc e(2))
qed

lemma resize_simps:
  "dv_data (resize sz use d) = dv_data d" "dv_data_size (resize sz use d) = unat sz"
  "dv_flags (resize sz use d) AND DATA_ODD = dv_flags d AND DATA_ODD"
  by (simp_all add: resize_def odd_flag_kept)

theorem set_data_size_encodable:
  assumes "length dv = n_elements ii" and "\<And>d. d \<in> set dv \<Longrightarrow> unat n_positions \<le> length (dv_data d)"
    and "n_records \<noteq> 0" and "n_records \<le> n_positions"
    and "dv' = datavec_set_data_size ii dv n_records max_record_id n_positions max_position"
  shows "dv_ok dv' \<and> map dv_data dv' = map dv_data dv \<and> dv_data_size (hd dv') = unat n_records \<and>
    dv_flags (last dv') AND DATA_ODD = dv_flags (last dv) AND DATA_ODD \<and> (\<exists>bytes. grn_encv dv' = Some bytes)"
proof -
  have n: "unat n_records \<le> unat n_positions" using assms(4) by (simp add: word_le_nat_alt)
  have la: "list_all (\<lambda>d. unat n_positions \<le> length (dv_data d)) dv" using assms(2) by (simp add: list_all_iff)
  have v: "dv_ok dv' \<and> map dv_data dv' = map dv_data dv \<and> dv_data_size (hd dv') = unat n_records \<and>
      dv_flags (last dv') AND DATA_ODD = dv_flags (last dv) AND DATA_ODD \<and> encv_valid (unat n_records) dv'"
    using assms(1) la n
    by (cases "with_section ii"; cases "with_weight ii"; cases "with_position ii")
      (auto simp: assms(5) n_elements_def numeral_eq_Suc length_Suc_conv datavec_set_data_size_def set_element_def Let_def
        dv_ok_def resize_simps)
  moreover have "unat n_records \<noteq> 0" using assms(3) by (simp add: unat_eq_0)
  ultimately show ?thesis by (auto simp: grn_encv_def Let_def)
qed

definition sample_ii :: ii_flags where
  "sample_ii = \<lparr>with_section = False, with_weight = False, with_position = True\<rparr>"

theorem set_data_size_encodable_witness:
  "dv_ok (datavec_set_data_size sample_ii sample_postings 3 9 4 8) \<and>
   (\<exists>bytes. grn_encv (datavec_set_data_size sample_ii sample_postings 3 9 4 8) = Some bytes)"
proof -
  have "unat (4 :: u32) \<le> length (dv_data d)" if "d \<in> set sample_postings" for d
    using that by (auto simp: sample_postings_def)
  then show ?thesis
    using set_data_size_encodable [of sample_postings sample_ii 4 3 _ 9 8]
    by (simp add: sample_postings_def sample_ii_def n_elements_def)
qed

text \<open>
  C23: \<^verbatim>\<open>grn_b_dec\<close> inverts \<^verbatim>\<open>grn_b_enc\<close>, and the memory that \<^verbatim>\<open>grn_b_enc\<close> allocates, eight bytes for each number, is enough for every
  array but the empty one, for which it writes a byte into no memory.
\<close>

theorem b_array_roundtrip:
  assumes "length data < 2 ^ 32"
  shows "grn_b_dec (grn_b_enc data @ rest) = Some data \<and> (length (grn_b_enc data) \<le> length data * 4 * 2 \<longleftrightarrow> data \<noteq> [])"
  using b_dec_b_enc [OF assms, of rest] b_enc_bound [of data] b_enc_size(1) [of 0] by (auto simp: grn_b_enc_def mult.commute)

theorem b_array_roundtrip_witness:
  "grn_b_dec (grn_b_enc [1, 70000, 3] @ [0]) = Some [1, 70000, 3] \<and> \<not> length (grn_b_enc []) \<le> length ([] :: u32 list) * 4 * 2"
  using b_array_roundtrip [of "[1, 70000, 3]" "[0]"] b_array_roundtrip [of "[]" "[]"] by simp

end
