(* ===== verification/StrNumber.thy ===== *)
theory StrNumber
  imports Prelude "HOL-Library.Signed_Division"
begin

text \<open>
  Numbers in text, from \<^verbatim>\<open>lib/str.c\<close>: the readers \<^verbatim>\<open>grn_atoi8\<close> to \<^verbatim>\<open>grn_atoull\<close> and \<^verbatim>\<open>grn_htoui\<close>, and the printers
  \<^verbatim>\<open>grn_itoa\<close>, \<^verbatim>\<open>grn_itoa_padded\<close>, \<^verbatim>\<open>grn_lltoa\<close>, \<^verbatim>\<open>grn_ulltoa\<close> and \<^verbatim>\<open>grn_itoh\<close>.  A text from \<^verbatim>\<open>p\<close> up to \<^verbatim>\<open>end\<close> is a list of
  bytes, and the pointer that a reader leaves in \<^verbatim>\<open>*rest\<close> is the list of the bytes from there on.  The
  readers detect an overflow by looking at the wrapped result only; arithmetic on \<^verbatim>\<open>int\<close> and \<^verbatim>\<open>int64_t\<close> that
  leaves their range, undefined in C, wraps here, as it does on the machines the code runs on.
\<close>

section \<open>Digits\<close>

abbreviation ch_minus :: byte where "ch_minus \<equiv> 0x2d"
abbreviation ch_0 :: byte where "ch_0 \<equiv> 0x30"

definition is_digit :: "byte \<Rightarrow> bool" where
  "is_digit c \<longleftrightarrow> 0x30 \<le> c \<and> c \<le> 0x39"

definition digit_of :: "byte \<Rightarrow> nat" where
  "digit_of c = unat (c - 0x30)"

text \<open>The reference: the number that a list of digits denotes, and the digits of a number.\<close>

definition number_of :: "byte list \<Rightarrow> nat" where
  "number_of ds = foldl (\<lambda>n d. 10 * n + digit_of d) 0 ds"

fun decimal :: "nat \<Rightarrow> byte list" where
  "decimal n = (if n < 10 then [of_nat n + 0x30] else decimal (n div 10) @ [of_nat (n mod 10) + 0x30])"

declare decimal.simps [simp del]

lemma digit_of_lt: "is_digit c \<Longrightarrow> digit_of c < 10"
proof -
  assume "is_digit c"
  then have "unat (0x30 :: byte) \<le> unat c" "unat c \<le> unat (0x39 :: byte)" by (simp_all add: is_digit_def word_le_nat_alt)
  then have "48 \<le> unat c" "unat c \<le> 57" by simp_all
  then show ?thesis by (simp add: digit_of_def unat_sub word_le_nat_alt)
qed

lemma digit_char:
  assumes "n < 10"
  shows "is_digit (of_nat n + 0x30)" and "digit_of (of_nat n + 0x30) = n"
proof -
  have u: "unat (of_nat n :: byte) = n" using assms by (simp add: unat_of_nat)
  then have "unat (of_nat n + 0x30 :: byte) = n + 48" using assms by (subst unat_add_lem [THEN iffD1]) auto
  then show "is_digit (of_nat n + 0x30)" using assms by (simp add: is_digit_def word_le_nat_alt)
  show "digit_of (of_nat n + 0x30) = n" using u by (simp add: digit_of_def)
qed

lemma number_of_snoc: "number_of (ds @ [d]) = 10 * number_of ds + digit_of d"
  by (simp add: number_of_def)

lemma number_of_Nil [simp]: "number_of [] = 0"
  by (simp add: number_of_def)

lemma decimal_digits: "c \<in> set (decimal n) \<Longrightarrow> is_digit c"
proof (induction n rule: decimal.induct)
  case (1 n)
  then show ?case using digit_char(1) [of n] digit_char(1) [of "n mod 10"]
    by (subst (asm) (2) decimal.simps) (auto split: if_splits)
qed

lemma decimal_nonempty: "decimal n \<noteq> []"
  by (subst decimal.simps) simp

lemma number_of_decimal: "number_of (decimal n) = n"
proof (induction n rule: decimal.induct)
  case (1 n)
  show ?case
  proof (cases "n < 10")
    case True
    then show ?thesis using digit_char(2) [of n] by (subst decimal.simps) (simp add: number_of_def)
  next
    case False
    then show ?thesis using 1 digit_char(2) [of "n mod 10"] by (subst decimal.simps) (simp add: number_of_snoc)
  qed
qed

section \<open>Reading signed numbers\<close>

text \<open>The loop of \<^verbatim>\<open>grn_atoi8\<close>, \<^verbatim>\<open>grn_atoi16\<close> and \<^verbatim>\<open>grn_atoi\<close>; it accumulates the negated number.\<close>

fun atoi_loop :: "bool \<Rightarrow> 'a::len word \<Rightarrow> bool \<Rightarrow> byte list \<Rightarrow> 'a word \<times> bool \<times> byte list" where
  "atoi_loop n v s [] = (v, s, [])"
| "atoi_loop n v s (c # p) =
     (if is_digit c then
        let t = v * 10 - ucast (c - 0x30)
        in if v <s t \<or> (\<not> n \<and> t = - (2 ^ (LENGTH('a) - 1))) then (0, s, c # p)
           else atoi_loop n t False p
      else (v, s, c # p))"

definition atoi_signed :: "byte list \<Rightarrow> 'a::len word \<times> byte list" where
  "atoi_signed nptr =
     (let (n, p) = (case nptr of c # p \<Rightarrow> if c = ch_minus then (True, p) else (False, nptr) | [] \<Rightarrow> (False, nptr));
          (v, s, p) = atoi_loop n 0 n p
      in (if n then v else - v, if s then nptr else p))"

definition grn_atoi8 :: "byte list \<Rightarrow> 8 word \<times> byte list" where "grn_atoi8 = atoi_signed"
definition grn_atoi16 :: "byte list \<Rightarrow> 16 word \<times> byte list" where "grn_atoi16 = atoi_signed"
definition grn_atoi :: "byte list \<Rightarrow> 32 word \<times> byte list" where "grn_atoi = atoi_signed"

text \<open>\<^verbatim>\<open>grn_atoll\<close> has a loop for each sign.\<close>

fun atoll_neg_loop :: "u64 \<Rightarrow> bool \<Rightarrow> byte list \<Rightarrow> u64 \<times> bool \<times> byte list" where
  "atoll_neg_loop v s [] = (v, s, [])"
| "atoll_neg_loop v s (c # p) =
     (if is_digit c then
        let t = v * 10 - ucast (c - 0x30)
        in if v <s t then (0, s, c # p) else atoll_neg_loop t False p
      else (v, s, c # p))"

fun atoll_pos_loop :: "u64 \<Rightarrow> byte list \<Rightarrow> u64 \<times> byte list" where
  "atoll_pos_loop v [] = (v, [])"
| "atoll_pos_loop v (c # p) =
     (if is_digit c then
        let t = v * 10 + ucast (c - 0x30)
        in if t <s v then (0, c # p) else atoll_pos_loop t p
      else (v, c # p))"

definition grn_atoll :: "byte list \<Rightarrow> u64 \<times> byte list" where
  "grn_atoll nptr =
     (if nptr \<noteq> [] \<and> hd nptr = ch_minus
      then case atoll_neg_loop 0 True (tl nptr) of (v, s, p) \<Rightarrow> (v, if s then nptr else p)
      else atoll_pos_loop 0 nptr)"

section \<open>Reading unsigned numbers\<close>

fun atoui_loop :: "'a::len word \<Rightarrow> byte list \<Rightarrow> 'a word \<times> byte list" where
  "atoui_loop v [] = (v, [])"
| "atoui_loop v (c # p) =
     (if is_digit c then
        let t = v * 10 + ucast (c - 0x30)
        in if t < v then (0, c # p) else atoui_loop t p
      else (v, c # p))"

definition grn_atoui8 :: "byte list \<Rightarrow> 8 word \<times> byte list" where "grn_atoui8 = atoui_loop 0"
definition grn_atoui16 :: "byte list \<Rightarrow> 16 word \<times> byte list" where "grn_atoui16 = atoui_loop 0"
definition grn_atoui :: "byte list \<Rightarrow> 32 word \<times> byte list" where "grn_atoui = atoui_loop 0"
definition grn_atoull :: "byte list \<Rightarrow> 64 word \<times> byte list" where "grn_atoull = atoui_loop 0"

definition hex_value :: "byte \<Rightarrow> u32 option" where
  "hex_value c =
     (if 0x30 \<le> c \<and> c \<le> 0x39 then Some (ucast (c - 0x30))
      else if 0x61 \<le> c \<and> c \<le> 0x66 then Some (ucast (c - 0x61) + 10)
      else if 0x41 \<le> c \<and> c \<le> 0x46 then Some (ucast (c - 0x41) + 10)
      else None)"

text \<open>A digit that overflows is consumed before the test, one that is not a digit is not.\<close>

fun htoui_loop :: "u32 \<Rightarrow> byte list \<Rightarrow> u32 \<times> byte list" where
  "htoui_loop v [] = (v, [])"
| "htoui_loop v (c # p) =
     (case hex_value c of
        None \<Rightarrow> (0, c # p)
      | Some x \<Rightarrow> let t = v * 16 + x in if t < v then (0, p) else htoui_loop t p)"

definition grn_htoui :: "byte list \<Rightarrow> u32 \<times> byte list" where
  "grn_htoui nptr = htoui_loop 0 nptr"

section \<open>Printing\<close>

text \<open>
  The printers write to a buffer of \<open>cap\<close> bytes and return the result code and all the bytes they wrote
  from \<^verbatim>\<open>p\<close> on, so that a list longer than \<open>cap\<close> is a write past \<^verbatim>\<open>end\<close>.  The digits are produced from the last
  to the first and then reversed in place; on an error they are left as they are.  \<^verbatim>\<open>/\<close> and \<^verbatim>\<open>%\<close> of C truncate.
\<close>

fun itoa_digits :: "nat \<Rightarrow> int \<Rightarrow> byte list \<Rightarrow> grn_rc \<times> byte list" where
  "itoa_digits 0 i q = (GRN_INVALID_ARGUMENT, q)"
| "itoa_digits (Suc room) i q =
     (let q = q @ [of_int (i smod 10) + 0x30]
      in if 0 < i sdiv 10 then itoa_digits room (i sdiv 10) q else (GRN_SUCCESS, q))"

definition finish_digits :: "byte list \<Rightarrow> grn_rc \<times> byte list \<Rightarrow> grn_rc \<times> byte list" where
  "finish_digits sign r = (fst r, sign @ (if fst r = GRN_SUCCESS then rev (snd r) else snd r))"

definition grn_itoa :: "int \<Rightarrow> nat \<Rightarrow> grn_rc \<times> byte list" where
  "grn_itoa i cap =
     (if cap = 0 then (GRN_INVALID_ARGUMENT, [])
      else if i < 0 then
        if i = - (2 ^ 31) then
          if cap = 1 then (GRN_INVALID_ARGUMENT, [ch_minus])
          else finish_digits [ch_minus]
                 (itoa_digits (cap - 2) (- (i sdiv 10)) [of_int (- (i smod 10)) + 0x30])
        else finish_digits [ch_minus] (itoa_digits (cap - 1) (- i) [])
      else finish_digits [] (itoa_digits cap i []))"

definition grn_lltoa :: "int \<Rightarrow> nat \<Rightarrow> grn_rc \<times> byte list" where
  "grn_lltoa i cap =
     (if cap = 0 then (GRN_INVALID_ARGUMENT, [])
      else if i < 0 then
        if i = - (2 ^ 63) then
          finish_digits [ch_minus]
            (itoa_digits (cap - 2) (- (i sdiv 10)) [of_int (- (i smod 10)) + 0x30])
        else finish_digits [ch_minus] (itoa_digits (cap - 1) (- i) [])
      else finish_digits [] (itoa_digits cap i []))"

definition grn_ulltoa :: "u64 \<Rightarrow> nat \<Rightarrow> grn_rc \<times> byte list" where
  "grn_ulltoa i cap =
     (if cap = 0 then (GRN_INVALID_ARGUMENT, []) else finish_digits [] (itoa_digits cap (uint i) []))"

text \<open>
  \<^verbatim>\<open>grn_itoa_padded\<close> fills the whole buffer: the sign, then the padding, then the digits, which are written
  from the end of the buffer backwards into the \<open>room\<close> bytes left for them.
\<close>

fun padded_digits :: "nat \<Rightarrow> byte \<Rightarrow> int \<Rightarrow> byte list \<Rightarrow> byte list option" where
  "padded_digits 0 ch i q = None"
| "padded_digits (Suc room) ch i q =
     (let q = (of_int (i smod 10) + 0x30) # q
      in if 0 < i sdiv 10 then padded_digits room ch (i sdiv 10) q else Some (replicate room ch @ q))"

definition grn_itoa_padded :: "int \<Rightarrow> nat \<Rightarrow> byte \<Rightarrow> byte list option" where
  "grn_itoa_padded i cap ch =
     (if cap = 0 then None
      else if i < 0 then
        if i = - (2 ^ 31) then
          if cap = 1 then None
          else map_option (\<lambda>ds. ch_minus # (of_int (- (i smod 10)) + 0x30) # ds)
                 (padded_digits (cap - 2) ch (- (i sdiv 10)) [])
        else map_option (\<lambda>ds. ch_minus # ds) (padded_digits (cap - 1) ch (- i) [])
      else padded_digits cap ch i [])"

definition hex_char :: "u32 \<Rightarrow> byte" where
  "hex_char i = (let d = i AND 0xf in if d < 10 then ucast d + 0x30 else ucast (d - 10) + 0x41)"

fun grn_itoh :: "u32 \<Rightarrow> nat \<Rightarrow> byte list" where
  "grn_itoh i 0 = []"
| "grn_itoh i (Suc len) = grn_itoh (drop_bit 4 i) len @ [hex_char i]"

section \<open>The readers are exact on numbers that fit\<close>

definition number_from :: "nat \<Rightarrow> byte list \<Rightarrow> nat" where
  "number_from n ds = foldl (\<lambda>n d. 10 * n + digit_of d) n ds"

text \<open>\<open>ends_number r\<close>: the text after the digits does not start with another digit.\<close>

definition ends_number :: "byte list \<Rightarrow> bool" where
  "ends_number r \<longleftrightarrow> r = [] \<or> \<not> is_digit (hd r)"

lemma number_from_simps [simp]:
  "number_from n [] = n" "number_from n (d # ds) = number_from (10 * n + digit_of d) ds"
  by (simp_all add: number_from_def)

lemma number_from_0: "number_from 0 ds = number_of ds"
  by (simp add: number_from_def number_of_def)

lemma number_from_ge: "n \<le> number_from n ds"
proof (induction ds arbitrary: n)
  case (Cons d ds)
  show ?case using Cons [of "10 * n + digit_of d"] by simp
qed simp

lemma digit_ucast: "ucast (c - 0x30 :: byte) = (of_nat (digit_of c) :: 'a::len word)"
  by (simp add: digit_of_def)

lemma of_nat_le_word:
  assumes "m \<le> n" "n < 2 ^ LENGTH('a)"
  shows "(of_nat m :: 'a::len word) \<le> of_nat n"
  using assms by (simp add: word_le_nat_alt unat_of_nat)

lemma ends_number_loops:
  assumes "ends_number r"
  shows "atoui_loop v r = (v, r)" and "atoi_loop n w s r = (w, s, r)"
    and "atoll_neg_loop x s r = (x, s, r)" and "atoll_pos_loop x r = (x, r)"
  using assms by (cases r; simp add: ends_number_def)+

lemma plus_step: "of_nat n * 10 + of_nat d = (of_nat (10 * n + d) :: 'a::len word)"
  by (simp add: algebra_simps)

lemma atoui_loop_exact:
  assumes "\<forall>d \<in> set ds. is_digit d" "ends_number r" "number_from n ds < 2 ^ LENGTH('a)"
  shows "atoui_loop (of_nat n :: 'a::len word) (ds @ r) = (of_nat (number_from n ds), r)"
  using assms
proof (induction ds arbitrary: n)
  case Nil
  then show ?case by (simp add: ends_number_loops)
next
  case (Cons d ds)
  let ?m = "10 * n + digit_of d"
  have "\<not> (of_nat ?m :: 'a word) < of_nat n"
    using number_from_ge [of ?m ds] Cons.prems(3) by (subst not_less, intro of_nat_le_word) auto
  then have "atoui_loop (of_nat n :: 'a word) ((d # ds) @ r) = atoui_loop (of_nat ?m) (ds @ r)"
    using Cons.prems(1) unfolding append_Cons atoui_loop.simps Let_def digit_ucast plus_step by simp
  then show ?case using Cons.IH [of ?m] Cons.prems by simp
qed

lemma sint_minus_of_nat:
  assumes "n \<le> 2 ^ (LENGTH('a) - 1)"
  shows "sint (- of_nat n :: 'a::len word) = - int n"
proof -
  have "int n \<le> int (2 ^ (LENGTH('a) - 1))" using assms by (simp only: of_nat_le_iff)
  then have "int n \<le> 2 ^ (LENGTH('a) - 1)" "(0::int) < 2 ^ (LENGTH('a) - 1)" by simp_all
  then have "signed_take_bit (LENGTH('a) - 1) (- int n) = - int n"
    by (intro signed_take_bit_int_eq_self) linarith+
  then have "sint (of_int (- int n) :: 'a word) = - int n" by (simp only: sint_sbintrunc')
  then show ?thesis by simp
qed

lemma minus_of_nat_order:
  assumes "m \<le> n" "n \<le> 2 ^ (LENGTH('a) - 1)"
  shows "\<not> (- of_nat m :: 'a::len word) <s - of_nat n"
    and "(- of_nat n :: 'a word) = - (2 ^ (LENGTH('a) - 1)) \<longleftrightarrow> n = 2 ^ (LENGTH('a) - 1)"
proof -
  show "\<not> (- of_nat m :: 'a word) <s - of_nat n"
    using assms sint_minus_of_nat [of n, where 'a = 'a] sint_minus_of_nat [of m, where 'a = 'a]
    by (simp add: word_sless_alt)
  have "(- of_nat n :: 'a word) = - (of_nat (2 ^ (LENGTH('a) - 1))) \<longleftrightarrow> n = 2 ^ (LENGTH('a) - 1)"
    using sint_minus_of_nat [OF assms(2)] sint_minus_of_nat [of "2 ^ (LENGTH('a) - 1)", where 'a = 'a]
    by (metis neg_equal_iff_equal of_nat_eq_iff order_refl)
  then show "(- of_nat n :: 'a word) = - (2 ^ (LENGTH('a) - 1)) \<longleftrightarrow> n = 2 ^ (LENGTH('a) - 1)" by simp
qed

text \<open>What is left of a number that may be negative: one more negative value than positive ones.\<close>

definition fits_signed :: "nat \<Rightarrow> bool \<Rightarrow> nat \<Rightarrow> bool" where
  "fits_signed l neg n \<longleftrightarrow> (if neg then n \<le> 2 ^ (l - 1) else n < 2 ^ (l - 1))"

lemma minus_step: "- of_nat n * 10 - of_nat d = (- of_nat (10 * n + d) :: 'a::len word)"
  by (simp add: algebra_simps)

lemma atoi_loop_exact:
  assumes "\<forall>d \<in> set ds. is_digit d" "ends_number r" "fits_signed (LENGTH('a)) neg (number_from n ds)"
  shows "atoi_loop neg (- of_nat n :: 'a::len word) s (ds @ r) =
           (- of_nat (number_from n ds), s \<and> ds = [], r)"
  using assms
proof (induction ds arbitrary: n s)
  case Nil
  then show ?case by (simp add: ends_number_loops)
next
  case (Cons d ds)
  let ?m = "10 * n + digit_of d"
  have m: "?m \<le> number_from n (d # ds)" using number_from_ge [of ?m ds] by simp
  then have le: "?m \<le> 2 ^ (LENGTH('a) - 1)" and lt: "\<not> neg \<Longrightarrow> ?m \<noteq> 2 ^ (LENGTH('a) - 1)"
    using Cons.prems(3) by (auto simp: fits_signed_def split: if_splits)
  have "atoi_loop neg (- of_nat n :: 'a word) s ((d # ds) @ r) = atoi_loop neg (- of_nat ?m) False (ds @ r)"
    using minus_of_nat_order(1) [of n ?m, where 'a = 'a] minus_of_nat_order(2) [of n ?m, where 'a = 'a] le lt Cons.prems(1)
    unfolding append_Cons atoi_loop.simps Let_def digit_ucast minus_step by auto
  then show ?case using Cons.IH [of ?m False] Cons.prems by simp
qed

text \<open>The value a signed reader returns for digits with an optional sign.\<close>

definition sign_text :: "bool \<Rightarrow> byte list" where
  "sign_text neg = (if neg then [ch_minus] else [])"

definition signed_number :: "bool \<Rightarrow> byte list \<Rightarrow> int" where
  "signed_number neg ds = (if neg then - int (number_of ds) else int (number_of ds))"

lemma digit_not_minus [simp]: "is_digit c \<Longrightarrow> c \<noteq> ch_minus"
  by (auto simp: is_digit_def)

lemma sint_of_nat_small:
  assumes "n < 2 ^ (LENGTH('a) - 1)"
  shows "sint (of_nat n :: 'a::len word) = int n"
proof -
  have "int n < int (2 ^ (LENGTH('a) - 1))" using assms by (simp only: of_nat_less_iff)
  then have "int n < 2 ^ (LENGTH('a) - 1)" "(0::int) < 2 ^ (LENGTH('a) - 1)" by simp_all
  then have "signed_take_bit (LENGTH('a) - 1) (int n) = int n"
    by (intro signed_take_bit_int_eq_self) linarith+
  then have "sint (of_int (int n) :: 'a word) = int n" by (simp only: sint_sbintrunc')
  then show ?thesis by simp
qed

lemma atoi_signed_exact:
  assumes "\<forall>d \<in> set ds. is_digit d" "ds \<noteq> []" "ends_number r"
    and "fits_signed (LENGTH('a)) neg (number_of ds)"
  shows "sint (fst (atoi_signed (sign_text neg @ ds @ r) :: 'a::len word \<times> byte list)) = signed_number neg ds"
    and "snd (atoi_signed (sign_text neg @ ds @ r) :: 'a::len word \<times> byte list) = r"
proof -
  obtain d ds' where ds: "ds = d # ds'" using assms(2) by (cases ds) auto
  have d: "d \<noteq> ch_minus" using assms(1) ds digit_not_minus by auto
  have "atoi_loop neg (- of_nat 0 :: 'a word) neg (ds @ r) = (- of_nat (number_of ds), False, r)"
    using atoi_loop_exact [of ds r neg 0 neg] assms by (simp add: number_from_0)
  then have "atoi_loop neg (0 :: 'a word) neg (ds @ r) = (- of_nat (number_of ds), False, r)" by simp
  then have "atoi_signed (sign_text neg @ ds @ r) =
      (if neg then - of_nat (number_of ds) else (of_nat (number_of ds) :: 'a word), r)"
    using d by (cases neg) (simp_all add: atoi_signed_def sign_text_def ds Let_def del: atoi_loop.simps)
  then show "sint (fst (atoi_signed (sign_text neg @ ds @ r) :: 'a word \<times> byte list)) = signed_number neg ds"
      "snd (atoi_signed (sign_text neg @ ds @ r) :: 'a word \<times> byte list) = r"
    using assms(4) sint_minus_of_nat [of "number_of ds", where 'a = 'a] sint_of_nat_small [of "number_of ds", where 'a = 'a]
    by (auto simp: signed_number_def fits_signed_def)
qed

lemma atoll_neg_loop_exact:
  assumes "\<forall>d \<in> set ds. is_digit d" "ends_number r" "number_from n ds \<le> 2 ^ 63"
  shows "atoll_neg_loop (- of_nat n) s (ds @ r) = (- of_nat (number_from n ds), s \<and> ds = [], r)"
  using assms
proof (induction ds arbitrary: n s)
  case Nil
  then show ?case by (simp add: ends_number_loops)
next
  case (Cons d ds)
  let ?m = "10 * n + digit_of d"
  have "?m \<le> 2 ^ (LENGTH(64) - 1)" using number_from_ge [of ?m ds] Cons.prems(3) by simp
  then have "\<not> (- of_nat n :: u64) <s - of_nat ?m" by (intro minus_of_nat_order) simp_all
  then have "atoll_neg_loop (- of_nat n) s ((d # ds) @ r) = atoll_neg_loop (- of_nat ?m) False (ds @ r)"
    using Cons.prems(1) unfolding append_Cons atoll_neg_loop.simps Let_def digit_ucast minus_step by simp
  then show ?case using Cons.IH [of ?m False] Cons.prems by simp
qed

lemma atoll_pos_loop_exact:
  assumes "\<forall>d \<in> set ds. is_digit d" "ends_number r" "number_from n ds < 2 ^ 63"
  shows "atoll_pos_loop (of_nat n) (ds @ r) = (of_nat (number_from n ds), r)"
  using assms
proof (induction ds arbitrary: n)
  case Nil
  then show ?case by (simp add: ends_number_loops)
next
  case (Cons d ds)
  let ?m = "10 * n + digit_of d"
  have "?m < 2 ^ (LENGTH(64) - 1)" "n < 2 ^ (LENGTH(64) - 1)" using number_from_ge [of ?m ds] Cons.prems(3) by simp_all
  then have "\<not> (of_nat ?m :: u64) <s of_nat n"
    unfolding word_sless_alt using sint_of_nat_small [of n, where 'a = 64] sint_of_nat_small [of ?m, where 'a = 64] by simp
  then have "atoll_pos_loop (of_nat n) ((d # ds) @ r) = atoll_pos_loop (of_nat ?m) (ds @ r)"
    using Cons.prems(1) unfolding append_Cons atoll_pos_loop.simps Let_def digit_ucast plus_step by simp
  then show ?case using Cons.IH [of ?m] Cons.prems by simp
qed

lemma grn_atoll_exact:
  assumes "\<forall>d \<in> set ds. is_digit d" "ds \<noteq> []" "ends_number r" "fits_signed 64 neg (number_of ds)"
  shows "sint (fst (grn_atoll (sign_text neg @ ds @ r))) = signed_number neg ds \<and> snd (grn_atoll (sign_text neg @ ds @ r)) = r"
proof (cases neg)
  case True
  have "number_of ds \<le> 2 ^ (LENGTH(64) - 1)" using assms(4) True by (simp add: fits_signed_def)
  then show ?thesis
    using True assms atoll_neg_loop_exact [of ds r 0 True] sint_minus_of_nat [of "number_of ds", where 'a = 64]
    by (simp add: grn_atoll_def sign_text_def signed_number_def number_from_0)
next
  case False
  have "number_of ds < 2 ^ (LENGTH(64) - 1)" using assms(4) False by (simp add: fits_signed_def)
  moreover have "hd (ds @ r) \<noteq> ch_minus" using assms(1,2) digit_not_minus by (cases ds) auto
  ultimately show ?thesis
    using False assms atoll_pos_loop_exact [of ds r 0] sint_of_nat_small [of "number_of ds", where 'a = 64]
    by (simp add: grn_atoll_def sign_text_def signed_number_def number_from_0)
qed

section \<open>The printers write the decimal text\<close>

definition int_text :: "int \<Rightarrow> byte list" where
  "int_text i = sign_text (i < 0) @ decimal (nat \<bar>i\<bar>)"

text \<open>\<open>prints cap r t\<close>: \<open>r\<close> reports success and is \<open>t\<close> when \<open>t\<close> fits in \<open>cap\<close> bytes, and reports an error without
  writing past the buffer otherwise.\<close>

definition prints :: "nat \<Rightarrow> grn_rc \<times> byte list \<Rightarrow> byte list \<Rightarrow> bool" where
  "prints cap r t \<longleftrightarrow>
     (if length t \<le> cap then r = (GRN_SUCCESS, t) else fst r = GRN_INVALID_ARGUMENT \<and> length (snd r) \<le> cap)"

lemma nat_sdiv_smod: "int n sdiv 10 = int (n div 10)" "int n smod 10 = int (n mod 10)"
  by (cases "n = 0"; simp add: signed_divide_int_def signed_modulo_int_def zdiv_int zmod_int)+

lemma decimal_rec: "10 \<le> n \<Longrightarrow> decimal n = decimal (n div 10) @ [of_nat (n mod 10) + 0x30]"
  by (subst decimal.simps) simp

lemma decimal_small: "n < 10 \<Longrightarrow> decimal n = [of_nat n + 0x30]"
  by (subst decimal.simps) simp

lemma itoa_digits_decimal:
  "itoa_digits room (int n) q =
     (if length (decimal n) \<le> room then (GRN_SUCCESS, q @ rev (decimal n))
      else (GRN_INVALID_ARGUMENT, q @ take room (rev (decimal n))))"
proof (induction room arbitrary: n q)
  case 0
  then show ?case using decimal_nonempty [of n] by simp
next
  case (Suc room)
  show ?case
  proof (cases "n < 10")
    case True
    then show ?thesis by (simp add: nat_sdiv_smod decimal_small)
  next
    case False
    then have "0 < n div 10" by simp
    then show ?thesis using False unfolding itoa_digits.simps nat_sdiv_smod Suc by (simp add: decimal_rec [of n] Let_def)
  qed
qed

lemma finish_digits_prints:
  assumes "length sg \<le> cap"
  shows "prints cap (finish_digits sg (itoa_digits (cap - length sg) (int n) [])) (sg @ decimal n)"
  using assms by (auto simp: prints_def finish_digits_def itoa_digits_decimal)

text \<open>The smallest number has no negation of its type: its last digit is written first, from the negative number.\<close>

lemma finish_digits_prints_least:
  assumes "2 \<le> cap" "i \<le> - 10"
  shows "prints cap
    (finish_digits [ch_minus] (itoa_digits (cap - 2) (- (i sdiv 10)) [of_int (- (i smod 10)) + 0x30])) (int_text i)"
proof -
  define n where "n = nat \<bar>i\<bar>"
  have i: "i = - int n" "10 \<le> n" using assms(2) by (simp_all add: n_def)
  have "- (- int n sdiv 10) = int (n div 10)" "- (- int n smod 10) = int (n mod 10)"
    using nat_sdiv_smod [of n] by (simp_all add: signed_divide_int_def signed_modulo_int_def)
  moreover have "int_text i = ch_minus # decimal (n div 10) @ [of_nat (n mod 10) + 0x30]"
    using i by (simp add: int_text_def sign_text_def decimal_rec)
  ultimately show ?thesis using assms(1) i(1)
    by (auto simp: prints_def finish_digits_def itoa_digits_decimal)
qed

lemma grn_itoa_prints:
  assumes "- (2 ^ 31) \<le> i" "i < 2 ^ 31"
  shows "prints cap (grn_itoa i cap) (int_text i)"
proof -
  consider "cap = 0" | "0 < cap" "0 \<le> i" | "0 < cap" "i < 0" "i \<noteq> - (2 ^ 31)" | "cap = 1" "i = - (2 ^ 31)"
    | "2 \<le> cap" "i = - (2 ^ 31)" by linarith
  then show ?thesis
  proof cases
    case 1
    then show ?thesis by (simp add: prints_def grn_itoa_def int_text_def decimal_nonempty)
  next
    case 2
    then show ?thesis using finish_digits_prints [of "[]" cap "nat i"] by (simp add: grn_itoa_def int_text_def sign_text_def)
  next
    case 3
    then show ?thesis using finish_digits_prints [of "[ch_minus]" cap "nat \<bar>i\<bar>"]
      by (simp add: grn_itoa_def int_text_def sign_text_def)
  next
    case 4
    then show ?thesis using decimal_nonempty by (simp add: prints_def grn_itoa_def int_text_def sign_text_def)
  next
    case 5
    then have "cap \<noteq> 0" "cap \<noteq> 1" "i < 0" "i \<le> - 10" by simp_all
    then show ?thesis using finish_digits_prints_least [of cap i] 5 by (simp only: grn_itoa_def if_True if_False simp_thms)
  qed
qed

lemma grn_lltoa_prints:
  assumes "- (2 ^ 63) \<le> i" "i < 2 ^ 63" "i = - (2 ^ 63) \<longrightarrow> cap \<noteq> 1"
  shows "prints cap (grn_lltoa i cap) (int_text i)"
proof -
  consider "cap = 0" | "0 < cap" "0 \<le> i" | "0 < cap" "i < 0" "i \<noteq> - (2 ^ 63)" | "2 \<le> cap" "i = - (2 ^ 63)"
    using assms(3) by linarith
  then show ?thesis
  proof cases
    case 1
    then show ?thesis by (simp add: prints_def grn_lltoa_def int_text_def decimal_nonempty)
  next
    case 2
    then show ?thesis using finish_digits_prints [of "[]" cap "nat i"] by (simp add: grn_lltoa_def int_text_def sign_text_def)
  next
    case 3
    then show ?thesis using finish_digits_prints [of "[ch_minus]" cap "nat \<bar>i\<bar>"]
      by (simp add: grn_lltoa_def int_text_def sign_text_def)
  next
    case 4
    then have "cap \<noteq> 0" "i < 0" "i \<le> - 10" by simp_all
    then show ?thesis using finish_digits_prints_least [of cap i] 4 by (simp only: grn_lltoa_def if_True if_False simp_thms)
  qed
qed

lemma grn_ulltoa_prints: "prints cap (grn_ulltoa i cap) (decimal (unat i))"
proof (cases "cap = 0")
  case True
  then show ?thesis by (simp add: prints_def grn_ulltoa_def decimal_nonempty)
next
  case False
  have "uint i = int (unat i)" by simp
  then show ?thesis using False finish_digits_prints [of "[]" cap "unat i"] by (simp add: grn_ulltoa_def)
qed

lemma padded_digits_decimal:
  "padded_digits room ch (int n) q =
     (if length (decimal n) \<le> room then Some (replicate (room - length (decimal n)) ch @ decimal n @ q) else None)"
proof (induction room arbitrary: n q)
  case 0
  then show ?case using decimal_nonempty [of n] by simp
next
  case (Suc room)
  show ?case
  proof (cases "n < 10")
    case True
    then show ?thesis by (simp add: nat_sdiv_smod decimal_small)
  next
    case False
    then have "0 < n div 10" by simp
    then show ?thesis using False unfolding padded_digits.simps nat_sdiv_smod Suc by (simp add: decimal_rec [of n] Let_def)
  qed
qed

lemma grn_itoa_padded_fills:
  assumes "- (2 ^ 31) < i"
  shows "grn_itoa_padded i cap ch =
    (if length (int_text i) \<le> cap
     then Some (sign_text (i < 0) @ replicate (cap - length (int_text i)) ch @ decimal (nat \<bar>i\<bar>)) else None)"
proof -
  consider "cap = 0" | "0 < cap" "0 \<le> i" | "0 < cap" "i < 0" "i \<noteq> - (2 ^ 31)" using assms by linarith
  then show ?thesis
  proof cases
    case 1
    then show ?thesis by (simp add: grn_itoa_padded_def int_text_def decimal_nonempty)
  next
    case 2
    then show ?thesis using padded_digits_decimal [of cap ch "nat i" "[]"] by (simp add: grn_itoa_padded_def int_text_def sign_text_def)
  next
    case 3
    then show ?thesis using padded_digits_decimal [of "cap - 1" ch "nat (- i)" "[]"]
      by (auto simp add: grn_itoa_padded_def int_text_def sign_text_def)
  qed
qed

lemma unat_low_nibble: "unat (i AND 0xf :: u32) = unat i mod 16"
proof -
  have "i AND 0xf = take_bit 4 i" by (simp add: take_bit_eq_mask mask_eq_exp_minus_1)
  then show ?thesis by (simp only: unat_take_bit) simp
qed

lemma hex_value_digits: "list_all (\<lambda>n. hex_value (hex_char (of_nat n)) = Some (of_nat n)) [0..<16]"
  by (simp add: hex_char_def hex_value_def upt_rec)

lemma hex_value_char: "hex_value (hex_char i) = Some (i AND 0xf)"
proof -
  define n where "n = unat (i AND 0xf)"
  have "n < 16" by (simp add: n_def unat_low_nibble)
  then have "hex_value (hex_char (of_nat n)) = Some (of_nat n)"
    using hex_value_digits by (simp add: list_all_iff)
  then show ?thesis by (simp add: n_def hex_char_def)
qed

lemma htoui_loop_itoh:
  assumes "len \<le> 8"
  shows "htoui_loop 0 (grn_itoh i len @ r) = htoui_loop (take_bit (4 * len) i) r"
  using assms
proof (induction len arbitrary: i r)
  case (Suc len)
  let ?v = "take_bit (4 * len) (drop_bit 4 i)" and ?t = "take_bit (4 * Suc len) i"
  have u: "unat ?v = unat i div 16 mod 2 ^ (4 * len)" "unat ?t = unat i mod (16 * 2 ^ (4 * len))" "unat (i AND 0xf) = unat i mod 16"
    by (simp_all only: unat_take_bit unat_drop_bit unat_low_nibble) (simp_all add: power_add)
  have eq: "unat ?t = unat ?v * 16 + unat (i AND 0xf)" unfolding u by (simp add: mod_mult2_eq)
  then have "unat (?v * 16 + (i AND 0xf)) = unat ?t"
    using unat_lt_2p32 [of ?t] by (simp add: unat_word_ariths)
  then have t: "?v * 16 + (i AND 0xf) = ?t" by (simp only: word_unat_eq_iff)
  moreover have "\<not> ?t < ?v" using eq by (simp add: word_less_nat_alt)
  ultimately show ?case using Suc by (simp add: hex_value_char Let_def)
qed simp

end
