(* ===== verification/Bulk.thy ===== *)
theory Bulk
  imports StrNumber StrCode
begin

text \<open>
  The growing byte buffer \<^verbatim>\<open>grn_bulk\<close> that all output goes through: the macros \<^verbatim>\<open>GRN_BULK_*\<close> of
  \<^verbatim>\<open>include/groonga/groonga.h\<close> and the functions \<^verbatim>\<open>grn_bulk_*\<close> and \<^verbatim>\<open>grn_text_*toa\<close> of \<^verbatim>\<open>lib/str.c\<close>.  Up to 24 bytes are
  stored in place, in the object itself, with their number in the low bits of the header's flags; larger
  contents are stored in a block of the heap.  A write past the block makes \<open>bk_mem\<close> longer than the capacity,
  so that the invariant \<open>bulk_ok\<close> rules out all of them.  \<^verbatim>\<open>size_t\<close> has 64 bits and its arithmetic wraps.
\<close>

section \<open>The buffer and the allocator\<close>

text \<open>The allocator grants a request or not, and the bytes of a new block are arbitrary.\<close>

record bulk_env =
  be_alloc :: "nat \<Rightarrow> bool"
  be_byte :: "nat \<Rightarrow> byte"

text \<open>\<open>bk_curr\<close> and \<open>bk_tail\<close> are the distances of \<^verbatim>\<open>u.b.curr\<close> and \<^verbatim>\<open>u.b.tail\<close> from \<^verbatim>\<open>u.b.head\<close>; they mean nothing in place.\<close>

record grn_bulk =
  bk_outp :: bool
  bk_flags :: u32
  bk_mem :: "byte list"
  bk_curr :: nat
  bk_tail :: nat

definition GRN_BULK_BUFSIZE :: nat where "GRN_BULK_BUFSIZE = 24"
definition UNIT_SIZE :: nat where "UNIT_SIZE = 4096"

definition size_wrap :: "nat \<Rightarrow> nat" where
  "size_wrap n = n mod 2 ^ 64"

definition size_diff :: "nat \<Rightarrow> nat \<Rightarrow> nat" where
  "size_diff m n = (m + 2 ^ 64 - n) mod 2 ^ 64"

definition bulk_init :: "bool \<Rightarrow> grn_bulk" where
  "bulk_init outp =
     \<lparr> bk_outp = outp, bk_flags = 0, bk_mem = (if outp then [] else replicate GRN_BULK_BUFSIZE 0), bk_curr = 0, bk_tail = 0 \<rparr>"

definition GRN_BULK_SIZE_IN_FLAGS :: "u32 \<Rightarrow> nat" where
  "GRN_BULK_SIZE_IN_FLAGS f = unat (f AND 0x1f)"

definition GRN_BULK_REWIND :: "grn_bulk \<Rightarrow> grn_bulk" where
  "GRN_BULK_REWIND b = (if bk_outp b then b\<lparr> bk_curr := 0 \<rparr> else b\<lparr> bk_flags := bk_flags b AND NOT 0x1f \<rparr>)"

definition GRN_BULK_SET_CURR :: "grn_bulk \<Rightarrow> nat \<Rightarrow> grn_bulk" where
  "GRN_BULK_SET_CURR b p = (if bk_outp b then b\<lparr> bk_curr := p \<rparr> else b\<lparr> bk_flags := of_nat p \<rparr>)"

definition GRN_BULK_INCR_LEN :: "grn_bulk \<Rightarrow> nat \<Rightarrow> grn_bulk" where
  "GRN_BULK_INCR_LEN b len =
     (if bk_outp b then b\<lparr> bk_curr := bk_curr b + len \<rparr> else b\<lparr> bk_flags := bk_flags b + of_nat len \<rparr>)"

text \<open>\<^verbatim>\<open>GRN_BULK_INCR_LEN(buf, -len)\<close>, which takes back what was just written.\<close>

definition bulk_decr_len :: "grn_bulk \<Rightarrow> nat \<Rightarrow> grn_bulk" where
  "bulk_decr_len b len =
     (if bk_outp b then b\<lparr> bk_curr := bk_curr b - len \<rparr> else b\<lparr> bk_flags := bk_flags b - of_nat len \<rparr>)"

definition GRN_BULK_WSIZE :: "grn_bulk \<Rightarrow> nat" where
  "GRN_BULK_WSIZE b = (if bk_outp b then bk_tail b else GRN_BULK_BUFSIZE)"

definition GRN_BULK_REST :: "grn_bulk \<Rightarrow> nat" where
  "GRN_BULK_REST b =
     (if bk_outp b then size_diff (bk_tail b) (bk_curr b)
      else size_diff GRN_BULK_BUFSIZE (GRN_BULK_SIZE_IN_FLAGS (bk_flags b)))"

definition GRN_BULK_VSIZE :: "grn_bulk \<Rightarrow> nat" where
  "GRN_BULK_VSIZE b = (if bk_outp b then bk_curr b else GRN_BULK_SIZE_IN_FLAGS (bk_flags b))"

text \<open>\<^verbatim>\<open>memcpy\<close> and \<^verbatim>\<open>memset\<close> to the block at a distance from its head.\<close>

definition put_bytes :: "nat \<Rightarrow> byte list \<Rightarrow> byte list \<Rightarrow> byte list" where
  "put_bytes k s m = take k m @ s @ drop (k + length s) m"

definition bulk_put :: "grn_bulk \<Rightarrow> byte list \<Rightarrow> grn_bulk" where
  "bulk_put b s = b\<lparr> bk_mem := put_bytes (GRN_BULK_VSIZE b) s (bk_mem b) \<rparr>"

section \<open>Growing\<close>

definition grown_block :: "bulk_env \<Rightarrow> nat \<Rightarrow> byte list \<Rightarrow> byte list" where
  "grown_block env n s = take n s @ map (be_byte env) [length s..<n]"

definition grn_bulk_resize :: "bulk_env \<Rightarrow> grn_bulk \<Rightarrow> nat \<Rightarrow> grn_rc \<times> grn_bulk" where
  "grn_bulk_resize env b new_size =
     (let new_size = size_wrap (new_size + 1)
      in if \<not> bk_outp b \<and> new_size \<le> GRN_BULK_BUFSIZE then (GRN_SUCCESS, b)
         else
           let rounded_new_size = size_wrap (new_size + (UNIT_SIZE - 1)) div UNIT_SIZE * UNIT_SIZE
           in if rounded_new_size < new_size then (GRN_NOT_ENOUGH_SPACE, b)
              else if \<not> be_alloc env rounded_new_size then (GRN_NO_MEMORY_AVAILABLE, b)
              else if bk_outp b then
                (GRN_SUCCESS, b\<lparr> bk_mem := grown_block env rounded_new_size (bk_mem b), bk_tail := rounded_new_size \<rparr>)
              else
                (GRN_SUCCESS, b\<lparr> bk_mem := grown_block env rounded_new_size (take (GRN_BULK_VSIZE b) (bk_mem b)),
                   bk_curr := GRN_BULK_VSIZE b, bk_tail := rounded_new_size, bk_outp := True \<rparr>))"

definition grn_bulk_reinit :: "bulk_env \<Rightarrow> grn_bulk \<Rightarrow> nat \<Rightarrow> grn_rc \<times> grn_bulk" where
  "grn_bulk_reinit env b n = grn_bulk_resize env (GRN_BULK_REWIND b) n"

definition grn_bulk_compute_new_size :: "grn_bulk \<Rightarrow> nat \<Rightarrow> nat" where
  "grn_bulk_compute_new_size b new_size =
     (let new_size = size_wrap new_size
      in if (bk_outp b \<or> GRN_BULK_BUFSIZE < size_wrap (new_size + 1)) \<and> new_size < (2 ^ 32 - 1) div 2 then new_size * 2
         else new_size)"

definition grn_bulk_reserve :: "bulk_env \<Rightarrow> grn_bulk \<Rightarrow> nat \<Rightarrow> grn_rc \<times> grn_bulk" where
  "grn_bulk_reserve env b len =
     (if GRN_BULK_REST b < len
      then grn_bulk_resize env b (grn_bulk_compute_new_size b (GRN_BULK_VSIZE b + len))
      else (GRN_SUCCESS, b))"

section \<open>Writing\<close>

definition grn_bulk_write :: "bulk_env \<Rightarrow> grn_bulk \<Rightarrow> byte list \<Rightarrow> grn_rc \<times> grn_bulk" where
  "grn_bulk_write env b str =
     (let (rc, b) = (if GRN_BULK_REST b < length str
                     then grn_bulk_resize env b (grn_bulk_compute_new_size b (GRN_BULK_VSIZE b + length str))
                     else (GRN_SUCCESS, b))
      in if rc \<noteq> GRN_SUCCESS then (rc, b)
         else (rc, if 0 < length str then GRN_BULK_INCR_LEN (bulk_put b str) (length str) else b))"

definition grn_bulk_space :: "bulk_env \<Rightarrow> grn_bulk \<Rightarrow> nat \<Rightarrow> grn_rc \<times> grn_bulk" where
  "grn_bulk_space env b len =
     (let (rc, b) = grn_bulk_reserve env b len
      in if rc = GRN_SUCCESS then (rc, GRN_BULK_INCR_LEN b len) else (rc, b))"

definition grn_bulk_space_clear :: "bulk_env \<Rightarrow> grn_bulk \<Rightarrow> nat \<Rightarrow> grn_rc \<times> grn_bulk" where
  "grn_bulk_space_clear env b len =
     (let (rc, b) = grn_bulk_reserve env b len
      in if rc = GRN_SUCCESS then (rc, GRN_BULK_INCR_LEN (bulk_put b (replicate len 0)) len) else (rc, b))"

definition grn_bulk_truncate :: "bulk_env \<Rightarrow> grn_bulk \<Rightarrow> nat \<Rightarrow> grn_rc \<times> grn_bulk" where
  "grn_bulk_truncate env b len =
     (if bk_outp b then
        if bk_tail b < len then grn_bulk_space_clear env b (size_diff len (GRN_BULK_VSIZE b))
        else
          let b = (if GRN_BULK_VSIZE b < len then bulk_put b (replicate (len - GRN_BULK_VSIZE b) 0) else b)
          in (GRN_SUCCESS, b\<lparr> bk_curr := len \<rparr>)
      else
        if GRN_BULK_BUFSIZE < len then grn_bulk_space_clear env b (size_diff len (GRN_BULK_VSIZE b))
        else
          let b = (if GRN_BULK_VSIZE b < len then bulk_put b (replicate (len - GRN_BULK_VSIZE b) 0) else b)
          in (GRN_SUCCESS, b\<lparr> bk_flags := (bk_flags b AND NOT 0x1f) + of_nat len \<rparr>))"

definition grn_bulk_write_from :: "bulk_env \<Rightarrow> grn_bulk \<Rightarrow> byte list \<Rightarrow> nat \<Rightarrow> grn_rc \<times> grn_bulk" where
  "grn_bulk_write_from env b str start =
     (let (rc, b) = grn_bulk_truncate env b start
      in if rc = GRN_SUCCESS then grn_bulk_write env b str else (rc, b))"

definition GRN_TEXT_PUTC :: "bulk_env \<Rightarrow> grn_bulk \<Rightarrow> byte \<Rightarrow> grn_bulk" where
  "GRN_TEXT_PUTC env b c = snd (grn_bulk_write env b [c])"

definition GRN_TEXT_PUT :: "bulk_env \<Rightarrow> grn_bulk \<Rightarrow> byte list \<Rightarrow> grn_bulk" where
  "GRN_TEXT_PUT env b s = snd (grn_bulk_write env b s)"

definition grn_bulk_is_zero :: "grn_bulk \<Rightarrow> bool" where
  "grn_bulk_is_zero b = list_all (\<lambda>c. c = 0) (take (GRN_BULK_VSIZE b) (bk_mem b))"

section \<open>Numbers\<close>

text \<open>
  The loop of \<^verbatim>\<open>grn_text_itoa\<close>, \<^verbatim>\<open>grn_text_lltoa\<close> and \<^verbatim>\<open>grn_text_ulltoa\<close>: print into the free part of the buffer, and on
  an error grow the buffer and try again.  A failed attempt leaves its bytes in the free part.
\<close>

partial_function (option) text_number_loop ::
  "bulk_env \<Rightarrow> (nat \<Rightarrow> grn_rc \<times> byte list) \<Rightarrow> grn_bulk \<Rightarrow> (grn_rc \<times> grn_bulk) option" where
  "text_number_loop env pr b =
     (let (rc, s) = pr (GRN_BULK_WSIZE b - GRN_BULK_VSIZE b); b1 = bulk_put b s
      in if rc = GRN_SUCCESS then Some (GRN_SUCCESS, GRN_BULK_SET_CURR b1 (GRN_BULK_VSIZE b + length s))
         else
           let (rc, b2) = grn_bulk_resize env b1 (grn_bulk_compute_new_size b1 (GRN_BULK_WSIZE b1 + UNIT_SIZE))
           in if rc \<noteq> GRN_SUCCESS then Some (rc, b2) else text_number_loop env pr b2)"

definition grn_text_itoa :: "bulk_env \<Rightarrow> grn_bulk \<Rightarrow> int \<Rightarrow> (grn_rc \<times> grn_bulk) option" where
  "grn_text_itoa env b i = text_number_loop env (grn_itoa i) b"

definition grn_text_lltoa :: "bulk_env \<Rightarrow> grn_bulk \<Rightarrow> int \<Rightarrow> (grn_rc \<times> grn_bulk) option" where
  "grn_text_lltoa env b i = text_number_loop env (grn_lltoa i) b"

definition grn_text_ulltoa :: "bulk_env \<Rightarrow> grn_bulk \<Rightarrow> u64 \<Rightarrow> (grn_rc \<times> grn_bulk) option" where
  "grn_text_ulltoa env b i = text_number_loop env (grn_ulltoa i) b"

definition grn_text_itoa_padded :: "bulk_env \<Rightarrow> grn_bulk \<Rightarrow> int \<Rightarrow> byte \<Rightarrow> nat \<Rightarrow> grn_rc \<times> grn_bulk" where
  "grn_text_itoa_padded env b i c len =
     (let (rc, b) = grn_bulk_reserve env b len
      in if rc \<noteq> GRN_SUCCESS then (rc, b)
         else case grn_itoa_padded i len c of
           Some s \<Rightarrow> (rc, GRN_BULK_SET_CURR (bulk_put b s) (GRN_BULK_VSIZE b + len))
         | None \<Rightarrow> (rc, b))"

text \<open>\<^verbatim>\<open>grn_text_itoh\<close>, \<^verbatim>\<open>grn_text_itob\<close> and \<^verbatim>\<open>grn_text_lltob32h\<close> write a fixed number of bytes.\<close>

definition grn_text_itoh :: "bulk_env \<Rightarrow> grn_bulk \<Rightarrow> u32 \<Rightarrow> nat \<Rightarrow> grn_rc \<times> grn_bulk" where
  "grn_text_itoh env b i len =
     (let (rc, b) = (if GRN_BULK_REST b < len
                     then grn_bulk_resize env b (grn_bulk_compute_new_size b (GRN_BULK_VSIZE b + len)) else (GRN_SUCCESS, b))
      in if rc \<noteq> GRN_SUCCESS then (rc, b) else (rc, GRN_BULK_INCR_LEN (bulk_put b (grn_itoh i len)) len))"

definition grn_text_itob :: "bulk_env \<Rightarrow> grn_bulk \<Rightarrow> u32 \<Rightarrow> grn_rc \<times> grn_bulk" where
  "grn_text_itob env b i =
     (let len = 5;
          (rc, b) = (if GRN_BULK_REST b < len
                     then grn_bulk_resize env b (grn_bulk_compute_new_size b (GRN_BULK_VSIZE b + len)) else (GRN_SUCCESS, b))
      in if rc \<noteq> GRN_SUCCESS then (rc, b) else (rc, GRN_BULK_INCR_LEN (bulk_put b (grn_itob i)) len))"

definition grn_text_lltob32h :: "bulk_env \<Rightarrow> grn_bulk \<Rightarrow> u64 \<Rightarrow> grn_rc \<times> grn_bulk" where
  "grn_text_lltob32h env b i =
     (let len = 13;
          (rc, b) = (if GRN_BULK_REST b < len
                     then grn_bulk_resize env b (grn_bulk_compute_new_size b (GRN_BULK_VSIZE b + len)) else (GRN_SUCCESS, b))
      in if rc \<noteq> GRN_SUCCESS then (rc, b) else (rc, GRN_BULK_INCR_LEN (bulk_put b (grn_lltob32h i)) len))"

definition grn_text_benc :: "bulk_env \<Rightarrow> grn_bulk \<Rightarrow> u32 \<Rightarrow> grn_rc \<times> grn_bulk" where
  "grn_text_benc env b v =
     (let required_size = 5;
          (rc, b) = (if GRN_BULK_REST b < required_size
                     then grn_bulk_resize env b (grn_bulk_compute_new_size b (GRN_BULK_VSIZE b + required_size))
                     else (GRN_SUCCESS, b))
      in if rc \<noteq> GRN_SUCCESS then (rc, b)
         else (rc, GRN_BULK_SET_CURR (bulk_put b (GRN_B_ENC v)) (GRN_BULK_VSIZE b + length (GRN_B_ENC v))))"

section \<open>The invariant\<close>

definition bulk_text :: "grn_bulk \<Rightarrow> byte list" where
  "bulk_text b = take (GRN_BULK_VSIZE b) (bk_mem b)"

definition bulk_ok :: "grn_bulk \<Rightarrow> bool" where
  "bulk_ok b \<longleftrightarrow> length (bk_mem b) = GRN_BULK_WSIZE b \<and> GRN_BULK_VSIZE b \<le> GRN_BULK_WSIZE b \<and> GRN_BULK_WSIZE b < 2 ^ 63"

lemma bulk_init_ok: "bulk_ok (bulk_init outp) \<and> bulk_text (bulk_init outp) = []"
  by (simp add: bulk_ok_def bulk_init_def bulk_text_def GRN_BULK_WSIZE_def GRN_BULK_VSIZE_def GRN_BULK_SIZE_IN_FLAGS_def GRN_BULK_BUFSIZE_def)

lemma length_bulk_text [simp]: "bulk_ok b \<Longrightarrow> length (bulk_text b) = GRN_BULK_VSIZE b"
  by (simp add: bulk_text_def bulk_ok_def)

lemma size_in_flags: "GRN_BULK_SIZE_IN_FLAGS f = unat f mod 32"
proof -
  have "f AND 0x1f = take_bit 5 f" by (simp add: take_bit_eq_mask mask_eq_exp_minus_1)
  then have "unat (f AND 0x1f) = unat f mod 2 ^ 5" by (simp only: unat_take_bit)
  then show ?thesis by (simp add: GRN_BULK_SIZE_IN_FLAGS_def)
qed

lemma size_in_flags_add: "GRN_BULK_SIZE_IN_FLAGS (f + of_nat n) = (GRN_BULK_SIZE_IN_FLAGS f + n) mod 32"
proof -
  have "unat (f + of_nat n) = (unat f + n) mod 4294967296" by (simp add: unat_word_ariths unat_of_nat mod_simps)
  then show ?thesis by (simp add: size_in_flags mod_simps mod_mod_cancel)
qed

lemma size_in_flags_clear: "GRN_BULK_SIZE_IN_FLAGS (f AND NOT 0x1f) = 0"
  by (simp add: GRN_BULK_SIZE_IN_FLAGS_def and.assoc)

lemma size_in_flags_of_nat: "n < 32 \<Longrightarrow> GRN_BULK_SIZE_IN_FLAGS (of_nat n) = n"
  by (simp add: size_in_flags unat_of_nat)

lemma size_diff_le: "n \<le> m \<Longrightarrow> m < 2 ^ 64 \<Longrightarrow> size_diff m n = m - n"
proof -
  assume a: "n \<le> m" "m < 2 ^ 64"
  then have "m + 2 ^ 64 - n = (m - n) + 2 ^ 64" by simp
  then have "size_diff m n = ((m - n) + 2 ^ 64) mod 2 ^ 64" by (simp only: size_diff_def)
  also have "\<dots> = (m - n) mod 2 ^ 64" by (rule mod_add_self2)
  also have "\<dots> = m - n" using a by (intro mod_less) linarith
  finally show ?thesis .
qed

lemma bulk_rest: "bulk_ok b \<Longrightarrow> GRN_BULK_REST b = GRN_BULK_WSIZE b - GRN_BULK_VSIZE b"
  by (simp add: GRN_BULK_REST_def GRN_BULK_WSIZE_def GRN_BULK_VSIZE_def bulk_ok_def size_diff_le split: if_splits)

lemma put_bytes_length: "k + length s \<le> length m \<Longrightarrow> length (put_bytes k s m) = length m"
  by (simp add: put_bytes_def)

lemma put_bytes_take: "k + length s \<le> length m \<Longrightarrow> take (k + length s) (put_bytes k s m) = take k m @ s"
  by (simp add: put_bytes_def)

text \<open>Appending to the free part, by \<^verbatim>\<open>GRN_BULK_INCR_LEN\<close> or \<^verbatim>\<open>GRN_BULK_SET_CURR\<close>.\<close>

lemma bulk_put_sizes [simp]:
  "GRN_BULK_VSIZE (bulk_put b s) = GRN_BULK_VSIZE b" "GRN_BULK_WSIZE (bulk_put b s) = GRN_BULK_WSIZE b"
  "bk_mem (bulk_put b s) = put_bytes (GRN_BULK_VSIZE b) s (bk_mem b)" "bk_outp (bulk_put b s) = bk_outp b"
  by (simp_all add: bulk_put_def GRN_BULK_VSIZE_def GRN_BULK_WSIZE_def)

lemma bulk_move_sizes [simp]:
  "bk_mem (GRN_BULK_INCR_LEN b n) = bk_mem b" "GRN_BULK_WSIZE (GRN_BULK_INCR_LEN b n) = GRN_BULK_WSIZE b"
  "bk_mem (GRN_BULK_SET_CURR b n) = bk_mem b" "GRN_BULK_WSIZE (GRN_BULK_SET_CURR b n) = GRN_BULK_WSIZE b"
  by (simp_all add: GRN_BULK_INCR_LEN_def GRN_BULK_SET_CURR_def GRN_BULK_WSIZE_def)

lemma bulk_incr_vsize:
  "bulk_ok b \<Longrightarrow> GRN_BULK_VSIZE b + n \<le> GRN_BULK_WSIZE b \<Longrightarrow> GRN_BULK_VSIZE (GRN_BULK_INCR_LEN b n) = GRN_BULK_VSIZE b + n"
  by (simp add: GRN_BULK_INCR_LEN_def GRN_BULK_VSIZE_def GRN_BULK_WSIZE_def GRN_BULK_BUFSIZE_def size_in_flags_add split: if_splits)

lemma bulk_set_vsize:
  "n \<le> GRN_BULK_WSIZE b \<Longrightarrow> GRN_BULK_VSIZE (GRN_BULK_SET_CURR b n) = n"
  by (simp add: GRN_BULK_SET_CURR_def GRN_BULK_VSIZE_def GRN_BULK_WSIZE_def GRN_BULK_BUFSIZE_def size_in_flags_of_nat split: if_splits)

lemma bulk_append:
  assumes "bulk_ok b" "GRN_BULK_VSIZE b + length s \<le> GRN_BULK_WSIZE b"
  shows "bulk_ok (GRN_BULK_INCR_LEN (bulk_put b s) (length s))"
    and "bulk_text (GRN_BULK_INCR_LEN (bulk_put b s) (length s)) = bulk_text b @ s"
    and "bulk_ok (GRN_BULK_SET_CURR (bulk_put b s) (GRN_BULK_VSIZE b + length s))"
    and "bulk_text (GRN_BULK_SET_CURR (bulk_put b s) (GRN_BULK_VSIZE b + length s)) = bulk_text b @ s"
proof -
  have l: "length (bk_mem b) = GRN_BULK_WSIZE b" using assms(1) by (simp add: bulk_ok_def)
  have ok: "bulk_ok (bulk_put b s)" using assms l by (simp add: bulk_ok_def put_bytes_length)
  show "bulk_ok (GRN_BULK_INCR_LEN (bulk_put b s) (length s))"
      "bulk_ok (GRN_BULK_SET_CURR (bulk_put b s) (GRN_BULK_VSIZE b + length s))"
    using bulk_incr_vsize [OF ok] bulk_set_vsize [of _ "bulk_put b s"] ok assms by (simp_all add: bulk_ok_def)
  show "bulk_text (GRN_BULK_INCR_LEN (bulk_put b s) (length s)) = bulk_text b @ s"
      "bulk_text (GRN_BULK_SET_CURR (bulk_put b s) (GRN_BULK_VSIZE b + length s)) = bulk_text b @ s"
    using bulk_incr_vsize [OF ok] bulk_set_vsize [of _ "bulk_put b s"] assms l by (simp_all add: bulk_text_def put_bytes_take)
qed

section \<open>Growing makes room and keeps the contents\<close>

text \<open>\<open>grown b n b'\<close>: \<open>b'\<close> has the contents of \<open>b\<close> and room for \<open>n\<close> more bytes.\<close>

definition grown :: "grn_bulk \<Rightarrow> nat \<Rightarrow> grn_bulk \<Rightarrow> bool" where
  "grown b n b' \<longleftrightarrow>
     bulk_ok b' \<and> bulk_text b' = bulk_text b \<and> GRN_BULK_VSIZE b' = GRN_BULK_VSIZE b \<and> GRN_BULK_VSIZE b + n \<le> GRN_BULK_WSIZE b'"

lemma round_up_unit:
  assumes "n < 2 ^ 63"
  shows "n \<le> size_wrap (n + (UNIT_SIZE - 1)) div UNIT_SIZE * UNIT_SIZE"
    and "size_wrap (n + (UNIT_SIZE - 1)) div UNIT_SIZE * UNIT_SIZE \<le> n + 4095"
proof -
  let ?r = "size_wrap (n + (UNIT_SIZE - 1)) div UNIT_SIZE * UNIT_SIZE"
  have "size_wrap (n + (UNIT_SIZE - 1)) = n + 4095" using assms by (simp add: size_wrap_def UNIT_SIZE_def)
  then have r: "?r = (n + 4095) div 4096 * 4096" by (simp add: UNIT_SIZE_def)
  then show "?r \<le> n + 4095" by simp
  show "n \<le> ?r" unfolding r using div_mult_mod_eq [of "n + 4095" 4096] mod_less_divisor [of 4096 "n + 4095"] by simp
qed

lemma grown_block_length: "length (grown_block env n s) = n"
  by (simp add: grown_block_def)

lemma take_grown_block: "k \<le> n \<Longrightarrow> k \<le> length s \<Longrightarrow> take k (grown_block env n s) = take k s"
  by (simp add: grown_block_def)

lemma bulk_resize_grown:
  assumes "bulk_ok b" "GRN_BULK_VSIZE b + k \<le> n" "n < 2 ^ 62" "grn_bulk_resize env b n = (rc, b')"
  shows "if rc = GRN_SUCCESS then grown b k b' else b' = b \<and> rc = GRN_NO_MEMORY_AVAILABLE"
    and "\<forall>m. be_alloc env m \<Longrightarrow> rc = GRN_SUCCESS"
proof -
  let ?r = "size_wrap (Suc n + (UNIT_SIZE - 1)) div UNIT_SIZE * UNIT_SIZE"
  have n: "size_wrap (n + 1) = Suc n" using assms(3) by (simp add: size_wrap_def)
  have r: "Suc n \<le> ?r" "?r \<le> Suc n + 4095" using round_up_unit [of "Suc n"] assms(3) by simp_all
  have v: "GRN_BULK_VSIZE b \<le> length (bk_mem b)" using assms(1) by (simp add: bulk_ok_def)
  show "if rc = GRN_SUCCESS then grown b k b' else b' = b \<and> rc = GRN_NO_MEMORY_AVAILABLE"
    using assms n r v
    by (auto simp: grn_bulk_resize_def Let_def grown_def bulk_ok_def bulk_text_def GRN_BULK_WSIZE_def GRN_BULK_VSIZE_def
        grown_block_length take_grown_block split: if_splits)
  show "\<forall>m. be_alloc env m \<Longrightarrow> rc = GRN_SUCCESS"
    using assms n r by (auto simp: grn_bulk_resize_def Let_def split: if_splits)
qed

lemma compute_new_size_bounds:
  assumes "n < 2 ^ 62"
  shows "n \<le> grn_bulk_compute_new_size b n" and "grn_bulk_compute_new_size b n < 2 ^ 62"
  using assms by (auto simp: grn_bulk_compute_new_size_def size_wrap_def Let_def)

lemma bulk_reserve_grown:
  assumes "bulk_ok b" "GRN_BULK_VSIZE b + len < 2 ^ 62" "grn_bulk_reserve env b len = (rc, b')"
  shows "if rc = GRN_SUCCESS then grown b len b' else b' = b \<and> rc = GRN_NO_MEMORY_AVAILABLE"
    and "\<forall>m. be_alloc env m \<Longrightarrow> rc = GRN_SUCCESS"
proof -
  let ?n = "grn_bulk_compute_new_size b (GRN_BULK_VSIZE b + len)"
  note n = compute_new_size_bounds [OF assms(2), of b]
  show "if rc = GRN_SUCCESS then grown b len b' else b' = b \<and> rc = GRN_NO_MEMORY_AVAILABLE"
  proof (cases "GRN_BULK_REST b < len")
    case True
    then show ?thesis using assms(3) bulk_resize_grown(1) [OF assms(1) n, of env rc b'] by (simp add: grn_bulk_reserve_def)
  next
    case False
    then show ?thesis using assms bulk_rest [OF assms(1)] by (auto simp: grn_bulk_reserve_def grown_def bulk_ok_def)
  qed
  show "\<forall>m. be_alloc env m \<Longrightarrow> rc = GRN_SUCCESS"
    using assms(3) bulk_resize_grown(2) [OF assms(1) n, of env rc b'] by (auto simp: grn_bulk_reserve_def split: if_splits)
qed

lemma reserve_fold:
  "(if GRN_BULK_REST b < len then grn_bulk_resize env b (grn_bulk_compute_new_size b (GRN_BULK_VSIZE b + len))
    else (GRN_SUCCESS, b)) = grn_bulk_reserve env b len"
  by (simp add: grn_bulk_reserve_def)

section \<open>Writers append or change nothing\<close>

text \<open>\<open>appends env b s r\<close>: the outcome \<open>r\<close> of a writer that appends \<open>s\<close> to \<open>b\<close>.\<close>

definition appends :: "bulk_env \<Rightarrow> grn_bulk \<Rightarrow> byte list \<Rightarrow> grn_rc \<times> grn_bulk \<Rightarrow> bool" where
  "appends env b s r \<longleftrightarrow>
     (if fst r = GRN_SUCCESS then bulk_ok (snd r) \<and> bulk_text (snd r) = bulk_text b @ s
      else snd r = b \<and> fst r = GRN_NO_MEMORY_AVAILABLE) \<and>
     ((\<forall>m. be_alloc env m) \<longrightarrow> fst r = GRN_SUCCESS)"

lemma grown_append:
  assumes "grown b (length s) b'"
  shows "bulk_ok (GRN_BULK_INCR_LEN (bulk_put b' s) (length s))"
    and "bulk_text (GRN_BULK_INCR_LEN (bulk_put b' s) (length s)) = bulk_text b @ s"
    and "bulk_ok (GRN_BULK_SET_CURR (bulk_put b' s) (GRN_BULK_VSIZE b' + length s))"
    and "bulk_text (GRN_BULK_SET_CURR (bulk_put b' s) (GRN_BULK_VSIZE b' + length s)) = bulk_text b @ s"
  using assms bulk_append [of b' s] by (auto simp: grown_def)

lemma reserve_then_append:
  assumes "bulk_ok b" "GRN_BULK_VSIZE b + len < 2 ^ 62" "length s = len"
  shows "appends env b s (let (rc, b') = grn_bulk_reserve env b len
           in if rc \<noteq> GRN_SUCCESS then (rc, b') else (rc, GRN_BULK_INCR_LEN (bulk_put b' s) len))"
proof -
  obtain rc b' where r: "grn_bulk_reserve env b len = (rc, b')" by (cases "grn_bulk_reserve env b len")
  show ?thesis using bulk_reserve_grown [OF assms(1,2) r] grown_append [of b s b'] assms(3) r by (auto simp: appends_def)
qed

lemma bulk_write_appends:
  assumes "bulk_ok b" "GRN_BULK_VSIZE b + length s < 2 ^ 62"
  shows "appends env b s (grn_bulk_write env b s)"
proof -
  obtain rc b' where r: "grn_bulk_reserve env b (length s) = (rc, b')" by (cases "grn_bulk_reserve env b (length s)")
  show ?thesis using bulk_reserve_grown [OF assms r] grown_append [of b s b'] r
    by (auto simp: appends_def grn_bulk_write_def reserve_fold grown_def)
qed

lemma bulk_space_clear_appends:
  assumes "bulk_ok b" "GRN_BULK_VSIZE b + len < 2 ^ 62"
  shows "appends env b (replicate len 0) (grn_bulk_space_clear env b len)"
  using reserve_then_append [OF assms, of "replicate len 0" env]
  by (simp add: grn_bulk_space_clear_def split: prod.splits if_splits)

lemma length_itoh [simp]: "length (grn_itoh i len) = len"
  by (induction len arbitrary: i) simp_all

lemma text_itoh_appends:
  assumes "bulk_ok b" "GRN_BULK_VSIZE b + len < 2 ^ 62"
  shows "appends env b (grn_itoh i len) (grn_text_itoh env b i len)"
  using reserve_then_append [OF assms] unfolding grn_text_itoh_def reserve_fold by simp

lemma text_itob_appends:
  assumes "bulk_ok b" "GRN_BULK_VSIZE b + 5 < 2 ^ 62"
  shows "appends env b (grn_itob i) (grn_text_itob env b i)"
  using reserve_then_append [OF assms, of "grn_itob i" env]
  unfolding grn_text_itob_def Let_def [of 5] reserve_fold by (simp add: grn_itob_def Let_def)

lemma text_lltob32h_appends:
  assumes "bulk_ok b" "GRN_BULK_VSIZE b + 13 < 2 ^ 62"
  shows "appends env b (grn_lltob32h i) (grn_text_lltob32h env b i)"
  using reserve_then_append [OF assms, of "grn_lltob32h i" env]
  unfolding grn_text_lltob32h_def Let_def [of 13] reserve_fold by (simp add: grn_lltob32h_def Let_def)

text \<open>\<^verbatim>\<open>grn_text_benc\<close> asks for the longest code and uses what it needs.\<close>

lemma text_benc_appends:
  assumes "bulk_ok b" "GRN_BULK_VSIZE b + 5 < 2 ^ 62"
  shows "appends env b (GRN_B_ENC v) (grn_text_benc env b v)"
proof -
  obtain rc b' where r: "grn_bulk_reserve env b 5 = (rc, b')" by (cases "grn_bulk_reserve env b 5")
  have "length (GRN_B_ENC v) \<le> 5" by (simp add: b_enc_length GRN_B_ENC_SIZE_def)
  then have "grown b 5 b' \<Longrightarrow> grown b (length (GRN_B_ENC v)) b'" by (simp add: grown_def)
  then show ?thesis using bulk_reserve_grown [OF assms r] grown_append [of b "GRN_B_ENC v" b'] r
    unfolding grn_text_benc_def Let_def [of 5] reserve_fold by (auto simp: appends_def)
qed

section \<open>Truncation\<close>

text \<open>\<^verbatim>\<open>grn_bulk_truncate\<close> sets the length: it cuts the contents or extends them by zeros.\<close>

definition resized :: "nat \<Rightarrow> byte list \<Rightarrow> byte list" where
  "resized n s = take n s @ replicate (n - length s) 0"

lemma bulk_truncate_within:
  assumes "bulk_ok b" "len \<le> GRN_BULK_WSIZE b"
  shows "fst (grn_bulk_truncate env b len) = GRN_SUCCESS" and "bulk_ok (snd (grn_bulk_truncate env b len))"
    and "bulk_text (snd (grn_bulk_truncate env b len)) = resized len (bulk_text b)"
proof -
  define b1 where "b1 = (if GRN_BULK_VSIZE b < len then bulk_put b (replicate (len - GRN_BULK_VSIZE b) 0) else b)"
  define b2 where "b2 = snd (grn_bulk_truncate env b len)"
  have b2: "b2 = (if bk_outp b then b1\<lparr> bk_curr := len \<rparr> else b1\<lparr> bk_flags := (bk_flags b AND NOT 0x1f) + of_nat len \<rparr>)"
    and rc: "fst (grn_bulk_truncate env b len) = GRN_SUCCESS"
    using assms(2) by (auto simp: b2_def b1_def grn_bulk_truncate_def GRN_BULK_WSIZE_def Let_def bulk_put_def split: if_splits)
  have outp: "bk_outp b1 = bk_outp b" and "GRN_BULK_WSIZE b1 = GRN_BULK_WSIZE b" by (simp_all add: b1_def)
  have l: "length (bk_mem b1) = GRN_BULK_WSIZE b" using assms by (auto simp: b1_def bulk_ok_def put_bytes_length)
  have m: "take len (bk_mem b1) = resized len (bulk_text b)"
  proof (cases "GRN_BULK_VSIZE b < len")
    case True
    then show ?thesis using assms put_bytes_take [of "GRN_BULK_VSIZE b" "replicate (len - GRN_BULK_VSIZE b) 0" "bk_mem b"]
      by (simp add: b1_def resized_def bulk_text_def bulk_ok_def)
  next
    case False
    then show ?thesis using assms by (simp add: b1_def resized_def bulk_text_def min_def bulk_ok_def)
  qed
  have w: "GRN_BULK_WSIZE b2 = GRN_BULK_WSIZE b" "bk_mem b2 = bk_mem b1"
    using outp \<open>GRN_BULK_WSIZE b1 = GRN_BULK_WSIZE b\<close> by (simp_all add: b2 GRN_BULK_WSIZE_def split: if_splits)
  have v: "GRN_BULK_VSIZE b2 = len"
    using assms(2) outp size_in_flags_clear [of "bk_flags b"]
    by (auto simp: b2 GRN_BULK_VSIZE_def GRN_BULK_WSIZE_def GRN_BULK_BUFSIZE_def size_in_flags_add split: if_splits)
  show "fst (grn_bulk_truncate env b len) = GRN_SUCCESS" by (rule rc)
  show "bulk_ok (snd (grn_bulk_truncate env b len))" "bulk_text (snd (grn_bulk_truncate env b len)) = resized len (bulk_text b)"
    using v w l m assms unfolding b2_def [symmetric] by (simp_all add: bulk_ok_def bulk_text_def)
qed

lemma bulk_truncate_resizes:
  assumes "bulk_ok b" "len < 2 ^ 62" "\<forall>m. be_alloc env m"
  shows "fst (grn_bulk_truncate env b len) = GRN_SUCCESS" and "bulk_ok (snd (grn_bulk_truncate env b len))"
    and "bulk_text (snd (grn_bulk_truncate env b len)) = resized len (bulk_text b)"
proof -
  have "fst (grn_bulk_truncate env b len) = GRN_SUCCESS \<and> bulk_ok (snd (grn_bulk_truncate env b len)) \<and>
      bulk_text (snd (grn_bulk_truncate env b len)) = resized len (bulk_text b)"
  proof (cases "len \<le> GRN_BULK_WSIZE b")
    case True
    then show ?thesis using bulk_truncate_within [OF assms(1)] by blast
  next
    case False
    then have v: "GRN_BULK_VSIZE b \<le> len" using assms(1) by (simp add: bulk_ok_def)
    then have "size_diff len (GRN_BULK_VSIZE b) = len - GRN_BULK_VSIZE b" using assms(2) by (simp add: size_diff_le)
    then have t: "grn_bulk_truncate env b len = grn_bulk_space_clear env b (len - GRN_BULK_VSIZE b)"
      using False by (auto simp: grn_bulk_truncate_def GRN_BULK_WSIZE_def split: if_splits)
    have "appends env b (replicate (len - GRN_BULK_VSIZE b) 0) (grn_bulk_space_clear env b (len - GRN_BULK_VSIZE b))"
      using v assms by (intro bulk_space_clear_appends) simp_all
    then show ?thesis unfolding t using assms v by (simp add: appends_def resized_def)
  qed
  then show "fst (grn_bulk_truncate env b len) = GRN_SUCCESS" "bulk_ok (snd (grn_bulk_truncate env b len))"
    "bulk_text (snd (grn_bulk_truncate env b len)) = resized len (bulk_text b)" by blast+
qed

lemma bulk_write_from_ok:
  assumes "bulk_ok b" "start + length s < 2 ^ 62" "\<forall>m. be_alloc env m"
  shows "fst (grn_bulk_write_from env b s start) = GRN_SUCCESS \<and> bulk_ok (snd (grn_bulk_write_from env b s start)) \<and>
    bulk_text (snd (grn_bulk_write_from env b s start)) = resized start (bulk_text b) @ s"
proof -
  have st: "start < 2 ^ 62" using assms(2) by simp
  define b1 where "b1 = snd (grn_bulk_truncate env b start)"
  note t = bulk_truncate_resizes [OF assms(1) st assms(3), folded b1_def]
  have "GRN_BULK_VSIZE b1 = start" using length_bulk_text [OF t(2)] t(3) by (simp add: resized_def)
  then have "appends env b1 s (grn_bulk_write env b1 s)" using assms(2) t(2) by (intro bulk_write_appends) simp_all
  moreover have "grn_bulk_write_from env b s start = grn_bulk_write env b1 s"
    using t(1) by (cases "grn_bulk_truncate env b start") (simp add: grn_bulk_write_from_def b1_def)
  ultimately show ?thesis using assms(3) t(3) by (simp add: appends_def)
qed

section \<open>Numbers are printed in full\<close>

lemma bulk_put_partial:
  assumes "bulk_ok b" "GRN_BULK_VSIZE b + length s \<le> GRN_BULK_WSIZE b"
  shows "bulk_ok (bulk_put b s)" and "bulk_text (bulk_put b s) = bulk_text b"
  using assms by (simp_all add: bulk_ok_def bulk_text_def put_bytes_length) (simp add: put_bytes_def)

text \<open>
  The loop returns: the first attempt fails at most for lack of room, and the buffer then grows by more than any
  number needs.
\<close>

lemma text_number_loop_fits:
  assumes "bulk_ok b" "prints (GRN_BULK_WSIZE b - GRN_BULK_VSIZE b) (pr (GRN_BULK_WSIZE b - GRN_BULK_VSIZE b)) t"
    and "GRN_BULK_VSIZE b + length t \<le> GRN_BULK_WSIZE b"
  shows "\<exists>b'. text_number_loop env pr b = Some (GRN_SUCCESS, b') \<and> bulk_ok b' \<and> bulk_text b' = bulk_text b @ t"
proof -
  have "pr (GRN_BULK_WSIZE b - GRN_BULK_VSIZE b) = (GRN_SUCCESS, t)" using assms by (auto simp: prints_def)
  then show ?thesis using bulk_append(3,4) [OF assms(1,3)] by (subst text_number_loop.simps) simp
qed

lemma text_number_loop_prints:
  assumes "bulk_ok b" "GRN_BULK_WSIZE b + 4096 < 2 ^ 62" "length t \<le> 4096"
    and "prints (GRN_BULK_WSIZE b - GRN_BULK_VSIZE b) (pr (GRN_BULK_WSIZE b - GRN_BULK_VSIZE b)) t"
    and "\<And>cap. 4096 \<le> cap \<Longrightarrow> prints cap (pr cap) t"
  shows "\<exists>rc b'. text_number_loop env pr b = Some (rc, b') \<and> bulk_ok b' \<and>
    bulk_text b' = bulk_text b @ (if rc = GRN_SUCCESS then t else []) \<and> ((\<forall>m. be_alloc env m) \<longrightarrow> rc = GRN_SUCCESS)"
proof (cases "GRN_BULK_VSIZE b + length t \<le> GRN_BULK_WSIZE b")
  case True
  then show ?thesis using text_number_loop_fits [of b pr t env] assms(1,4) by auto
next
  case False
  obtain s where s: "pr (GRN_BULK_WSIZE b - GRN_BULK_VSIZE b) = (GRN_INVALID_ARGUMENT, s)"
      "GRN_BULK_VSIZE b + length s \<le> GRN_BULK_WSIZE b"
    using False assms(1,4) by (cases "pr (GRN_BULK_WSIZE b - GRN_BULK_VSIZE b)") (auto simp: prints_def bulk_ok_def split: if_splits)
  define b1 where "b1 = bulk_put b s"
  note b1 = bulk_put_partial [OF assms(1) s(2), folded b1_def]
  have sz: "GRN_BULK_WSIZE b1 = GRN_BULK_WSIZE b" "GRN_BULK_VSIZE b1 = GRN_BULK_VSIZE b" by (simp_all add: b1_def)
  obtain rc b2 where r: "grn_bulk_resize env b1 (grn_bulk_compute_new_size b1 (GRN_BULK_WSIZE b1 + UNIT_SIZE)) = (rc, b2)"
    by (cases "grn_bulk_resize env b1 (grn_bulk_compute_new_size b1 (GRN_BULK_WSIZE b1 + UNIT_SIZE))")
  have n: "GRN_BULK_WSIZE b1 + UNIT_SIZE < 2 ^ 62" using assms(2) by (simp add: UNIT_SIZE_def sz)
  have "GRN_BULK_VSIZE b1 + 4096 \<le> GRN_BULK_WSIZE b1 + UNIT_SIZE" using b1(1) by (simp add: UNIT_SIZE_def bulk_ok_def)
  then have v: "GRN_BULK_VSIZE b1 + 4096 \<le> grn_bulk_compute_new_size b1 (GRN_BULK_WSIZE b1 + UNIT_SIZE)"
    using compute_new_size_bounds(1) [OF n] by (rule order_trans)
  note g = bulk_resize_grown [OF b1(1) v compute_new_size_bounds(2) [OF n] r]
  have loop: "text_number_loop env pr b = (if rc \<noteq> GRN_SUCCESS then Some (rc, b2) else text_number_loop env pr b2)"
    using s(1) r unfolding b1_def by (subst text_number_loop.simps) simp
  show ?thesis
  proof (cases "rc = GRN_SUCCESS")
    case True
    then have b2: "grown b1 4096 b2" using g(1) by simp
    have "bulk_ok b2" "bulk_text b2 = bulk_text b" using b2 b1(2) by (simp_all add: grown_def)
    moreover have room: "GRN_BULK_VSIZE b2 + 4096 \<le> GRN_BULK_WSIZE b2" using b2 by (simp add: grown_def)
    moreover have "4096 \<le> GRN_BULK_WSIZE b2 - GRN_BULK_VSIZE b2" using room by linarith
    moreover have "GRN_BULK_VSIZE b2 + length t \<le> GRN_BULK_WSIZE b2" using room assms(3) by linarith
    ultimately show ?thesis using text_number_loop_fits [of b2 pr t env] assms(5) [of "GRN_BULK_WSIZE b2 - GRN_BULK_VSIZE b2"] loop True by auto
  next
    case False
    then show ?thesis using g loop b1 by auto
  qed
qed

section \<open>The buffer as a sink of text\<close>

text \<open>
  What the functions that produce text need of the buffer: while it is \<open>ample\<close> for the bytes to come, a write succeeds
  and appends.  \<open>emits\<close> composes: it is what each of those functions is shown to do.
\<close>

definition emits :: "('b \<Rightarrow> nat \<Rightarrow> bool) \<Rightarrow> ('b \<Rightarrow> byte list) \<Rightarrow> 'b \<Rightarrow> byte list \<Rightarrow> 'b \<Rightarrow> bool" where
  "emits ample contents b s b' \<longleftrightarrow> (\<forall>n. ample b (length s + n) \<longrightarrow> contents b' = contents b @ s \<and> ample b' n)"

locale text_sink =
  fixes put :: "'b \<Rightarrow> byte list \<Rightarrow> grn_rc \<times> 'b"
    and contents :: "'b \<Rightarrow> byte list"
    and ample :: "'b \<Rightarrow> nat \<Rightarrow> bool"
  assumes write_succeeds: "ample b (length s + n) \<Longrightarrow> fst (put b s) = GRN_SUCCESS"
    and write_appends: "ample b (length s + n) \<Longrightarrow> contents (snd (put b s)) = contents b @ s"
    and write_keeps_ample: "ample b (length s + n) \<Longrightarrow> ample (snd (put b s)) n"
    and ample_less: "ample b n \<Longrightarrow> m \<le> n \<Longrightarrow> ample b m"
begin

lemma emits_Nil: "emits ample contents b [] b"
  by (simp add: emits_def)

lemma emits_write: "emits ample contents b s (snd (put b s))"
  using write_appends write_keeps_ample by (simp add: emits_def)

lemma emits_append:
  assumes "emits ample contents b s b'" "emits ample contents b' t b''"
  shows "emits ample contents b (s @ t) b''"
  using assms by (auto simp: emits_def add.assoc)

lemma emits_Cons:
  assumes "emits ample contents b [c] b'" "emits ample contents b' t b''"
  shows "emits ample contents b (c # t) b''"
  using emits_append [OF assms] by simp

lemma emitsI:
  assumes "ample b (length s) \<Longrightarrow> emits ample contents b s b'"
  shows "emits ample contents b s b'"
  using assms ample_less by (auto simp: emits_def)

lemma emits_all:
  assumes "\<And>b x. emits ample contents b (g x) (f b x)"
  shows "emits ample contents b (concat (map g xs)) (foldl f b xs)"
  using assms by (induction xs arbitrary: b) (auto intro: emits_append emits_Nil)

end

definition bulk_ample :: "bulk_env \<Rightarrow> grn_bulk \<Rightarrow> nat \<Rightarrow> bool" where
  "bulk_ample env b n \<longleftrightarrow> bulk_ok b \<and> GRN_BULK_VSIZE b + n < 2 ^ 62 \<and> (\<forall>m. be_alloc env m)"

lemma appends_ample:
  assumes "bulk_ample env b (length s + n)" "appends env b s r"
  shows "fst r = GRN_SUCCESS" "bulk_text (snd r) = bulk_text b @ s" "bulk_ample env (snd r) n"
proof -
  show s: "fst r = GRN_SUCCESS" using assms by (simp add: bulk_ample_def appends_def)
  show t: "bulk_text (snd r) = bulk_text b @ s" using assms(2) s by (simp add: appends_def)
  have ok: "bulk_ok (snd r)" using assms(2) s by (simp add: appends_def)
  have "GRN_BULK_VSIZE (snd r) = GRN_BULK_VSIZE b + length s"
    using length_bulk_text [OF ok] t assms(1) by (simp add: bulk_ample_def)
  then show "bulk_ample env (snd r) n" using ok assms(1) by (simp add: bulk_ample_def)
qed

lemma bulk_write_ample: "bulk_ample env b (length s + n) \<Longrightarrow> appends env b s (grn_bulk_write env b s)"
  by (rule bulk_write_appends) (simp_all add: bulk_ample_def)

interpretation bulk: text_sink "grn_bulk_write env" bulk_text "bulk_ample env" for env
proof unfold_locales
  fix b :: grn_bulk and s :: "byte list" and n
  assume a: "bulk_ample env b (length s + n)"
  note r = appends_ample [OF a bulk_write_ample [OF a]]
  show "fst (grn_bulk_write env b s) = GRN_SUCCESS" "bulk_text (snd (grn_bulk_write env b s)) = bulk_text b @ s"
    "bulk_ample env (snd (grn_bulk_write env b s)) n" by (rule r)+
next
  fix b n m
  assume "bulk_ample env b n" "m \<le> n"
  then show "bulk_ample env b m" by (simp add: bulk_ample_def)
qed

abbreviation emits_bulk :: "bulk_env \<Rightarrow> grn_bulk \<Rightarrow> byte list \<Rightarrow> grn_bulk \<Rightarrow> bool" where
  "emits_bulk env \<equiv> emits (bulk_ample env) bulk_text"

lemma emits_PUTC: "emits_bulk env b [c] (GRN_TEXT_PUTC env b c)"
  unfolding GRN_TEXT_PUTC_def by (rule bulk.emits_write)

lemma emits_PUT: "emits_bulk env b s (GRN_TEXT_PUT env b s)"
  unfolding GRN_TEXT_PUT_def by (rule bulk.emits_write)

lemma text_itoh_ample: "bulk_ample env b (len + n) \<Longrightarrow> appends env b (grn_itoh i len) (grn_text_itoh env b i len)"
  by (rule text_itoh_appends) (simp_all add: bulk_ample_def)

lemma emits_itoh: "emits_bulk env b (grn_itoh i len) (snd (grn_text_itoh env b i len))"
proof -
  have "bulk_text (snd (grn_text_itoh env b i len)) = bulk_text b @ grn_itoh i len \<and> bulk_ample env (snd (grn_text_itoh env b i len)) n"
    if "bulk_ample env b (length (grn_itoh i len) + n)" for n
    using appends_ample [OF that text_itoh_ample] that by simp
  then show ?thesis by (simp add: emits_def)
qed

end
