(* ===== verification/StrText.thy ===== *)
theory StrText
  imports Bulk
begin

text \<open>
  Characters and text, from \<^verbatim>\<open>lib/str.c\<close>: the length of a character in each encoding, and the functions that escape
  and unescape text into a \<^verbatim>\<open>grn_bulk\<close>: strings of JSON and of the query syntax, XML, URLs and CGI parameters.  A text
  from a pointer up to \<^verbatim>\<open>end\<close> is the list of its bytes; a string that ends with a NUL is the list of the bytes before
  the NUL, and a read at its end reads 0.  Log messages are left out.
\<close>

section \<open>Encodings\<close>

datatype grn_encoding =
    GRN_ENC_DEFAULT
  | GRN_ENC_NONE
  | GRN_ENC_EUC_JP
  | GRN_ENC_UTF8
  | GRN_ENC_SJIS
  | GRN_ENC_LATIN1
  | GRN_ENC_KOI8R

fun grn_encoding_to_string :: "grn_encoding \<Rightarrow> string" where
  "grn_encoding_to_string GRN_ENC_DEFAULT = ''default''"
| "grn_encoding_to_string GRN_ENC_NONE = ''none''"
| "grn_encoding_to_string GRN_ENC_EUC_JP = ''euc_jp''"
| "grn_encoding_to_string GRN_ENC_UTF8 = ''utf8''"
| "grn_encoding_to_string GRN_ENC_SJIS = ''sjis''"
| "grn_encoding_to_string GRN_ENC_LATIN1 = ''latin1''"
| "grn_encoding_to_string GRN_ENC_KOI8R = ''koi8r''"

text \<open>The table is searched from its end; an unknown name is UTF-8.\<close>

definition grn_encoding_parse :: "string \<Rightarrow> grn_encoding" where
  "grn_encoding_parse str =
     foldl (\<lambda>e enc. if str = grn_encoding_to_string enc then enc else e) GRN_ENC_UTF8
       [GRN_ENC_KOI8R, GRN_ENC_LATIN1, GRN_ENC_SJIS, GRN_ENC_UTF8, GRN_ENC_EUC_JP, GRN_ENC_NONE, GRN_ENC_DEFAULT]"

section \<open>The length of a character\<close>

definition utf8_lead_len :: "byte \<Rightarrow> nat" where
  "utf8_lead_len c = 31 - GRN_BIT_SCAN_REV (NOT (push_bit 24 (ucast c)))"

definition is_trail :: "byte \<Rightarrow> bool" where
  "is_trail c \<longleftrightarrow> c AND 0xc0 = 0x80"

fun grn_str_charlen_utf8 :: "byte list \<Rightarrow> nat" where
  "grn_str_charlen_utf8 [] = 0"
| "grn_str_charlen_utf8 (c # p) =
     (if c = 0 then 0
      else if c AND 0x80 \<noteq> 0 then
        let len = utf8_lead_len c
        in if len \<noteq> 2 \<and> len \<noteq> 3 \<and> len \<noteq> 4 then 0
           else if length (c # p) < len then 0
           else if list_all is_trail (take (len - 1) p) then len
           else 0
      else 1)"

text \<open>The same for a NUL-terminated string: \<open>utf8_width\<close> counts the ones below the top bit, \<open>trail_loop\<close> reads the rest.\<close>

fun utf8_width :: "nat \<Rightarrow> byte \<Rightarrow> nat" where
  "utf8_width 0 c = (if bit c 0 then 1 else 0)"
| "utf8_width (Suc n) c = (if bit c (Suc n) then Suc (utf8_width n c) else 0)"

fun trail_loop :: "nat \<Rightarrow> nat \<Rightarrow> byte list \<Rightarrow> nat" where
  "trail_loop 0 sz p = sz"
| "trail_loop (Suc w) sz [] = 0"
| "trail_loop (Suc w) sz (c # p) = (if c = 0 \<or> \<not> is_trail c then 0 else trail_loop w (Suc sz) p)"

definition nth_or_0 :: "byte list \<Rightarrow> nat \<Rightarrow> byte" where
  "nth_or_0 s i = (if i < length s then s ! i else 0)"

definition grn_str_charlen :: "byte list \<Rightarrow> grn_encoding \<Rightarrow> nat" where
  "grn_str_charlen s enc =
     (let c = nth_or_0 s 0
      in if c = 0 then 0
         else case enc of
           GRN_ENC_EUC_JP \<Rightarrow>
             if c AND 0x80 \<noteq> 0 then if nth_or_0 s 1 \<noteq> 0 then 2 else 0 else 1
         | GRN_ENC_UTF8 \<Rightarrow>
             if c AND 0x80 \<noteq> 0 then
               let w = utf8_width 6 c in if w = 0 then 0 else trail_loop w 1 (tl s)
             else 1
         | GRN_ENC_SJIS \<Rightarrow>
             if c AND 0x80 \<noteq> 0 then
               if 0xa0 \<le> c \<and> c \<le> 0xdf then 1 else if nth_or_0 s 1 = 0 then 0 else 2
             else 1
         | _ \<Rightarrow> 1)"

fun grn_charlen_enc :: "byte list \<Rightarrow> grn_encoding \<Rightarrow> nat" where
  "grn_charlen_enc [] enc = 0"
| "grn_charlen_enc (c # p) enc =
     (case enc of
        GRN_ENC_EUC_JP \<Rightarrow> if c AND 0x80 \<noteq> 0 then if p \<noteq> [] then 2 else 0 else 1
      | GRN_ENC_UTF8 \<Rightarrow> grn_str_charlen_utf8 (c # p)
      | GRN_ENC_SJIS \<Rightarrow>
          if c AND 0x80 \<noteq> 0 then
            if 0xa0 \<le> c \<and> c \<le> 0xdf then 1 else if p = [] then 0 else 2
          else 1
      | _ \<Rightarrow> 1)"

definition grn_charlen :: "grn_encoding \<Rightarrow> byte list \<Rightarrow> nat" where
  "grn_charlen enc s = grn_charlen_enc s enc"

function grn_str_len_loop :: "grn_encoding \<Rightarrow> nat \<Rightarrow> byte list \<Rightarrow> nat \<times> byte list" where
  "grn_str_len_loop enc len s =
     (if s = [] then (len, s)
      else let tlen = grn_charlen_enc s enc
           in if tlen = 0 then (len, s) else grn_str_len_loop enc (Suc len) (drop tlen s))"
  by pat_completeness auto
termination
  by (relation "measure (\<lambda>(enc, len, s). length s)") auto

declare grn_str_len_loop.simps [simp del]

definition grn_str_len :: "byte list \<Rightarrow> grn_encoding \<Rightarrow> nat \<times> byte list" where
  "grn_str_len s enc = grn_str_len_loop enc 0 s"

definition grn_isspace :: "byte list \<Rightarrow> grn_encoding \<Rightarrow> nat" where
  "grn_isspace s enc =
     (let c = nth_or_0 s 0
      in if c = 0x20 \<or> c = 0x0c \<or> c = 0x0a \<or> c = 0x0d \<or> c = 0x09 \<or> c = 0x0b then 1
         else if c = 0x81 \<and> enc = GRN_ENC_SJIS \<and> nth_or_0 s 1 = 0x40 then 2
         else if c = 0xa1 \<and> enc = GRN_ENC_EUC_JP \<and> nth_or_0 s 1 = 0xa1 then 2
         else if c = 0xe3 \<and> enc = GRN_ENC_UTF8 \<and> nth_or_0 s 1 = 0x80 \<and> nth_or_0 s 2 = 0x80 then 3
         else 0)"

section \<open>Splitting\<close>

text \<open>\<^verbatim>\<open>grn_str_tok\<close> stores the ends of the tokens, here their distances from the start, and leaves the last position in \<^verbatim>\<open>*rest\<close>.\<close>

fun str_tok_loop :: "byte \<Rightarrow> nat \<Rightarrow> nat \<Rightarrow> byte list \<Rightarrow> nat list \<times> nat" where
  "str_tok_loop delim room k [] = ([k], k)"
| "str_tok_loop delim room k (c # s) =
     (if delim = c then
        if room = 1 then ([k], k)
        else case str_tok_loop delim (room - 1) (Suc k) s of (toks, r) \<Rightarrow> (k # toks, r)
      else str_tok_loop delim room (Suc k) s)"

definition grn_str_tok :: "byte list \<Rightarrow> byte \<Rightarrow> nat \<Rightarrow> nat list \<times> nat" where
  "grn_str_tok s delim buf_size = (if 0 < buf_size then str_tok_loop delim buf_size 0 s else ([], 0))"

section \<open>Code points\<close>

definition code_point_fixed :: "u32 \<Rightarrow> u32" where
  "code_point_fixed cp = (if cp = 0 \<or> 0x10ffff < cp \<or> (0xd800 \<le> cp \<and> cp \<le> 0xdfff) then 0xfffd else cp)"

text \<open>With another encoding the error is set and the character is written all the same.\<close>

definition grn_text_code_point :: "bulk_env \<Rightarrow> grn_encoding \<Rightarrow> grn_bulk \<Rightarrow> u32 \<Rightarrow> grn_rc \<times> grn_bulk" where
  "grn_text_code_point env enc b code_point =
     (let rc = (if enc \<noteq> GRN_ENC_UTF8 then GRN_FUNCTION_NOT_IMPLEMENTED else GRN_SUCCESS);
          cp = code_point_fixed code_point
      in if cp \<le> 0x7f then (rc, GRN_TEXT_PUTC env b (ucast cp))
         else if cp \<le> 0x7ff then
           let b = GRN_TEXT_PUTC env b (ucast (drop_bit 6 (cp AND 0x0007c0) OR 0xc0))
           in (rc, GRN_TEXT_PUTC env b (ucast ((cp AND 0x00003f) OR 0x80)))
         else if cp \<le> 0xffff then
           let b = GRN_TEXT_PUTC env b (ucast (drop_bit 12 (cp AND 0x00f000) OR 0xe0));
               b = GRN_TEXT_PUTC env b (ucast (drop_bit 6 (cp AND 0x000fc0) OR 0x80))
           in (rc, GRN_TEXT_PUTC env b (ucast ((cp AND 0x00003f) OR 0x80)))
         else if cp \<le> 0x10ffff then
           let b = GRN_TEXT_PUTC env b (ucast (drop_bit 18 (cp AND 0x1c0000) OR 0xf0));
               b = GRN_TEXT_PUTC env b (ucast (drop_bit 12 (cp AND 0x03f000) OR 0x80));
               b = GRN_TEXT_PUTC env b (ucast (drop_bit 6 (cp AND 0x000fc0) OR 0x80))
           in (rc, GRN_TEXT_PUTC env b (ucast ((cp AND 0x00003f) OR 0x80)))
         else (GRN_FUNCTION_NOT_IMPLEMENTED, b))"

section \<open>URLs\<close>

definition urlenc_tbl :: "nat list" where
  "urlenc_tbl =
    [1, 1, 1, 1, 1, 1, 1, 1, 1, 1, 1, 1, 1, 1, 1, 1, 1, 1, 1, 1, 1, 1, 1, 1, 1, 1, 1, 1, 1, 1, 1, 1,
     1, 0, 1, 1, 1, 1, 1, 1, 0, 0, 0, 1, 1, 0, 0, 1, 0, 0, 0, 0, 0, 0, 0, 0, 0, 0, 1, 1, 1, 1, 1, 1,
     0, 0, 0, 0, 0, 0, 0, 0, 0, 0, 0, 0, 0, 0, 0, 0, 0, 0, 0, 0, 0, 0, 0, 0, 0, 0, 0, 0, 0, 0, 0, 0,
     0, 0, 0, 0, 0, 0, 0, 0, 0, 0, 0, 0, 0, 0, 0, 0, 0, 0, 0, 0, 0, 0, 0, 0, 0, 0, 0, 0, 0, 0, 0, 1]"

definition url_special :: "byte \<Rightarrow> bool" where
  "url_special c \<longleftrightarrow> c <s 0 \<or> urlenc_tbl ! unat c \<noteq> 0"

definition urlenc_char :: "bulk_env \<Rightarrow> grn_bulk \<Rightarrow> byte \<Rightarrow> grn_bulk" where
  "urlenc_char env b c =
     (if url_special c then
        let (rc, b) = grn_bulk_write env b [0x25]
        in if rc = GRN_SUCCESS then
             let (rc, b) = grn_text_itoh env b (scast c) 2
             in if rc \<noteq> GRN_SUCCESS then bulk_decr_len b 1 else b
           else b
      else GRN_TEXT_PUTC env b c)"

definition grn_text_urlenc :: "bulk_env \<Rightarrow> grn_bulk \<Rightarrow> byte list \<Rightarrow> grn_bulk" where
  "grn_text_urlenc env b s = foldl (urlenc_char env) b s"

text \<open>The \<^verbatim>\<open>%xx\<close> branch that \<^verbatim>\<open>grn_text_urldec\<close> and \<^verbatim>\<open>grn_text_cgidec\<close> share: the byte and what follows it.\<close>

fun percent_dec :: "byte list \<Rightarrow> byte \<times> byte list" where
  "percent_dec (x # y # p) = (case grn_htoui [x, y] of (c, r) \<Rightarrow> if r = [] then (ucast c, p) else (0x25, x # y # p))"
| "percent_dec p = (0x25, p)"

lemma percent_dec_shorter: "length (snd (percent_dec p)) \<le> length p"
  by (cases p rule: percent_dec.cases) (auto split: prod.splits)

function grn_text_urldec :: "bulk_env \<Rightarrow> grn_bulk \<Rightarrow> byte list \<Rightarrow> byte \<Rightarrow> grn_bulk \<times> byte list" where
  "grn_text_urldec env b [] d = (b, [])"
| "grn_text_urldec env b (c # p) d =
     (if c = d then (b, p)
      else if c = 0x25 \<and> 2 \<le> length p then
        grn_text_urldec env (GRN_TEXT_PUTC env b (fst (percent_dec p))) (snd (percent_dec p)) d
      else grn_text_urldec env (GRN_TEXT_PUTC env b c) p d)"
  by pat_completeness auto
termination
  by (relation "measure (\<lambda>(env, b, p, d). length p)") (auto simp: less_Suc_eq_le percent_dec_shorter)

function grn_text_cgidec :: "bulk_env \<Rightarrow> grn_bulk \<Rightarrow> byte list \<Rightarrow> byte list \<Rightarrow> grn_bulk \<times> byte list" where
  "grn_text_cgidec env b [] ds = (b, [])"
| "grn_text_cgidec env b (c # p) ds =
     (if list_ex (\<lambda>d. c = d) ds then (b, p)
      else if c = 0x2b then grn_text_cgidec env (GRN_TEXT_PUTC env b 0x20) p ds
      else if c = 0x25 \<and> 2 \<le> length p then
        grn_text_cgidec env (GRN_TEXT_PUTC env b (fst (percent_dec p))) (snd (percent_dec p)) ds
      else grn_text_cgidec env (GRN_TEXT_PUTC env b c) p ds)"
  by pat_completeness auto
termination
  by (relation "measure (\<lambda>(env, b, p, ds). length p)") (auto simp: less_Suc_eq_le percent_dec_shorter)

section \<open>Escaping\<close>

text \<open>The bytes that \<^verbatim>\<open>grn_text_esc\<close> writes as \<^verbatim>\<open>\u00xx\<close>.\<close>

definition esc_control :: "byte \<Rightarrow> bool" where
  "esc_control c \<longleftrightarrow>
     c \<in> set [0x00, 0x01, 0x02, 0x03, 0x04, 0x05, 0x06, 0x07, 0x0b, 0x0e, 0x0f, 0x10, 0x11, 0x12, 0x13, 0x14, 0x15, 0x16, 0x17,
             0x18, 0x19, 0x1a, 0x1b, 0x1c, 0x1d, 0x1e, 0x1f, 0x7f]"

definition esc_u :: "bulk_env \<Rightarrow> grn_bulk \<Rightarrow> byte \<Rightarrow> grn_rc \<times> grn_bulk" where
  "esc_u env b c =
     (let (rc, b) = grn_bulk_write env b [0x5c, 0x75]
      in if rc \<noteq> GRN_SUCCESS then (rc, b)
         else
           let (rc, b) = grn_text_itoh env b (ucast c) 4
           in if rc \<noteq> GRN_SUCCESS then (rc, bulk_decr_len b 2) else (rc, b))"

text \<open>A character of one byte; the result code is the \<^verbatim>\<open>rc\<close> of the caller, which only the \<^verbatim>\<open>\u\<close> branches set.\<close>

definition esc_byte :: "bulk_env \<Rightarrow> grn_rc \<Rightarrow> grn_bulk \<Rightarrow> byte \<Rightarrow> grn_rc \<times> grn_bulk" where
  "esc_byte env rc b c =
     (if c = 0x22 then (rc, GRN_TEXT_PUT env b [0x5c, 0x22])
      else if c = 0x5c then (rc, GRN_TEXT_PUT env b [0x5c, 0x5c])
      else if c = 0x08 then (rc, GRN_TEXT_PUT env b [0x5c, 0x62])
      else if c = 0x0c then (rc, GRN_TEXT_PUT env b [0x5c, 0x66])
      else if c = 0x0a then (rc, GRN_TEXT_PUT env b [0x5c, 0x6e])
      else if c = 0x0d then (rc, GRN_TEXT_PUT env b [0x5c, 0x72])
      else if c = 0x09 then (rc, GRN_TEXT_PUT env b [0x5c, 0x74])
      else if esc_control c then esc_u env b c
      else (rc, GRN_TEXT_PUTC env b c))"

definition esc_wide :: "bulk_env \<Rightarrow> grn_bulk \<Rightarrow> byte list \<Rightarrow> grn_bulk" where
  "esc_wide env b s =
     (if s = [0xe2, 0x80, 0xa8] then GRN_TEXT_PUT env b [0x5c, 0x75, 0x32, 0x30, 0x32, 0x38]
      else if s = [0xe2, 0x80, 0xa9] then GRN_TEXT_PUT env b [0x5c, 0x75, 0x32, 0x30, 0x32, 0x39]
      else GRN_TEXT_PUT env b s)"

function text_esc_loop :: "bulk_env \<Rightarrow> grn_encoding \<Rightarrow> grn_rc \<Rightarrow> grn_bulk \<Rightarrow> byte list \<Rightarrow> bool \<times> grn_rc \<times> grn_bulk" where
  "text_esc_loop env enc rc b [] = (True, rc, b)"
| "text_esc_loop env enc rc b (c # s) =
     (let l = grn_charlen enc (c # s)
      in if l = 0 then
           case esc_u env b c of (rc, b) \<Rightarrow>
             if rc \<noteq> GRN_SUCCESS then (False, rc, b) else text_esc_loop env enc rc b s
         else if l = 1 then
           case esc_byte env rc b c of (rc', b) \<Rightarrow>
             if esc_control c \<and> rc' \<noteq> GRN_SUCCESS then (False, rc', b) else text_esc_loop env enc rc' b s
         else text_esc_loop env enc rc (esc_wide env b (take l (c # s))) (drop l (c # s)))"
  by pat_completeness auto
termination
  by (relation "measure (\<lambda>(env, enc, rc, b, s). length s)") auto

definition grn_text_esc :: "bulk_env \<Rightarrow> grn_encoding \<Rightarrow> grn_bulk \<Rightarrow> byte list \<Rightarrow> grn_rc \<times> grn_bulk" where
  "grn_text_esc env enc b s =
     (case text_esc_loop env enc GRN_SUCCESS (GRN_TEXT_PUTC env b 0x22) s of
        (completed, rc, b) \<Rightarrow> (rc, if completed then GRN_TEXT_PUTC env b 0x22 else b))"

definition escape_xml_byte :: "bulk_env \<Rightarrow> grn_bulk \<Rightarrow> byte \<Rightarrow> grn_bulk" where
  "escape_xml_byte env b c =
     (if c = 0x22 then GRN_TEXT_PUT env b [0x26, 0x71, 0x75, 0x6f, 0x74, 0x3b]
      else if c = 0x3c then GRN_TEXT_PUT env b [0x26, 0x6c, 0x74, 0x3b]
      else if c = 0x3e then GRN_TEXT_PUT env b [0x26, 0x67, 0x74, 0x3b]
      else if c = 0x26 then GRN_TEXT_PUT env b [0x26, 0x61, 0x6d, 0x70, 0x3b]
      else GRN_TEXT_PUTC env b c)"

function grn_text_escape_xml :: "bulk_env \<Rightarrow> grn_encoding \<Rightarrow> grn_bulk \<Rightarrow> byte list \<Rightarrow> grn_bulk" where
  "grn_text_escape_xml env enc b [] = b"
| "grn_text_escape_xml env enc b (c # s) =
     (let l = grn_charlen enc (c # s)
      in if l = 0 then b
         else if l = 1 then grn_text_escape_xml env enc (escape_xml_byte env b c) s
         else grn_text_escape_xml env enc (GRN_TEXT_PUT env b (take l (c # s))) (drop l (c # s)))"
  by pat_completeness auto
termination
  by (relation "measure (\<lambda>(env, enc, b, s). length s)") auto

section \<open>Tokens of the query syntax\<close>

datatype tok = GRN_TOK_VOID | GRN_TOK_SYMBOL | GRN_TOK_STRING | GRN_TOK_QUOTE

definition unesc_byte :: "byte \<Rightarrow> byte list \<Rightarrow> byte list" where
  "unesc_byte c chr =
     (if c = 0x62 then [0x08] else if c = 0x66 then [0x0c] else if c = 0x6e then [0x0a] else if c = 0x72 then [0x0d]
      else if c = 0x74 then [0x09] else chr)"

text \<open>
  The states of \<^verbatim>\<open>grn_text_unesc_tok\<close> are a kind of token and the flag \<^verbatim>\<open>TOK_ESC\<close>.  The result is the buffer, the text that is
  left and the state.
\<close>

function unesc_tok_loop :: "bulk_env \<Rightarrow> grn_encoding \<Rightarrow> grn_bulk \<Rightarrow> byte list \<Rightarrow> tok \<Rightarrow> bool \<Rightarrow> grn_bulk \<times> byte list \<times> tok \<times> bool" where
  "unesc_tok_loop env enc b [] st esc = (b, [], st, esc)"
| "unesc_tok_loop env enc b (c # s) st esc =
     (let len = grn_charlen enc (c # s); chr = take len (c # s); rest = drop len (c # s)
      in if len = 0 then (b, [], st, False)
         else if esc then unesc_tok_loop env enc (GRN_TEXT_PUT env b (unesc_byte c chr)) rest st False
         else case st of
           GRN_TOK_VOID \<Rightarrow>
             if c = 0x20 then unesc_tok_loop env enc b rest GRN_TOK_VOID False
             else if c = 0x22 then unesc_tok_loop env enc b rest GRN_TOK_STRING False
             else if c = 0x27 then unesc_tok_loop env enc b rest GRN_TOK_QUOTE False
             else if c = 0x29 \<or> c = 0x28 then (GRN_TEXT_PUT env b chr, rest, GRN_TOK_SYMBOL, False)
             else if c = 0x5c then unesc_tok_loop env enc b rest GRN_TOK_SYMBOL True
             else unesc_tok_loop env enc (GRN_TEXT_PUT env b chr) rest GRN_TOK_SYMBOL False
         | GRN_TOK_SYMBOL \<Rightarrow>
             if c = 0x20 \<or> c = 0x27 \<or> c = 0x22 \<or> c = 0x29 \<or> c = 0x28 then (b, c # s, GRN_TOK_SYMBOL, False)
             else if c = 0x5c then unesc_tok_loop env enc b rest GRN_TOK_SYMBOL True
             else unesc_tok_loop env enc (GRN_TEXT_PUT env b chr) rest GRN_TOK_SYMBOL False
         | GRN_TOK_STRING \<Rightarrow>
             if c = 0x22 then (b, rest, GRN_TOK_STRING, False)
             else if c = 0x5c then unesc_tok_loop env enc b rest GRN_TOK_STRING True
             else unesc_tok_loop env enc (GRN_TEXT_PUT env b chr) rest GRN_TOK_STRING False
         | GRN_TOK_QUOTE \<Rightarrow>
             if c = 0x27 then (b, rest, GRN_TOK_QUOTE, False)
             else if c = 0x5c then unesc_tok_loop env enc b rest GRN_TOK_QUOTE True
             else unesc_tok_loop env enc (GRN_TEXT_PUT env b chr) rest GRN_TOK_QUOTE False)"
  by pat_completeness auto
termination
  by (relation "measure (\<lambda>(env, enc, b, s, st, esc). length s)") auto

definition grn_text_unesc_tok :: "bulk_env \<Rightarrow> grn_encoding \<Rightarrow> grn_bulk \<Rightarrow> byte list \<Rightarrow> grn_bulk \<times> byte list \<times> tok \<times> bool" where
  "grn_text_unesc_tok env enc b s = unesc_tok_loop env enc b s GRN_TOK_VOID False"

declare text_esc_loop.simps(2) [simp del] grn_text_escape_xml.simps(2) [simp del] unesc_tok_loop.simps(2) [simp del]
  grn_text_urldec.simps(2) [simp del] grn_text_cgidec.simps(2) [simp del]

section \<open>Characters\<close>

lemma scan_rev_unique:
  assumes "2 ^ k \<le> unat v" "unat v < 2 ^ Suc k"
  shows "GRN_BIT_SCAN_REV v = k"
proof -
  have v: "v \<noteq> 0" using assms(1) by (auto simp: unat_eq_0 dest: order_less_le_trans [of 0 "2 ^ k"])
  note r = GRN_BIT_SCAN_REV_range [OF v]
  have "2 ^ k < (2 :: nat) ^ Suc (GRN_BIT_SCAN_REV v)" "2 ^ GRN_BIT_SCAN_REV v < (2 :: nat) ^ Suc k"
    using assms r(1,2) by linarith+
  then have "k < Suc (GRN_BIT_SCAN_REV v)" "GRN_BIT_SCAN_REV v < Suc k" by (simp_all only: power_strict_increasing_iff)
  then show ?thesis by simp
qed

lemma unat_lead_word: "unat (NOT (push_bit 24 (ucast (c :: byte) :: u32))) = 2 ^ 32 - 1 - unat c * 2 ^ 24"
proof -
  have c: "unat c < 256" using unsigned_less [of c, where 'a = nat] by simp
  have p: "unat (push_bit 24 (ucast c :: u32)) = unat c * 2 ^ 24"
    using c by (simp add: push_bit_eq_mult unat_word_ariths)
  have "NOT (push_bit 24 (ucast c :: u32)) = - 1 - push_bit 24 (ucast c)" by (simp add: not_eq_complement)
  moreover have "unat (- 1 - push_bit 24 (ucast c) :: u32) = unat (- 1 :: u32) - unat (push_bit 24 (ucast c :: u32))"
    by (rule unat_sub) simp
  moreover have "unat (- 1 :: u32) = 2 ^ 32 - 1" by (simp add: unsigned_minus_1_eq_mask mask_eq_exp_minus_1)
  ultimately show ?thesis using p by simp
qed

lemma utf8_lead_len_iff:
  assumes "0x80 \<le> unat c"
  shows "utf8_lead_len c = 2 \<longleftrightarrow> 0xc0 \<le> unat c \<and> unat c < 0xe0"
    and "utf8_lead_len c = 3 \<longleftrightarrow> 0xe0 \<le> unat c \<and> unat c < 0xf0"
    and "utf8_lead_len c = 4 \<longleftrightarrow> 0xf0 \<le> unat c \<and> unat c < 0xf8"
proof -
  have c: "unat c < 256" using unsigned_less [of c, where 'a = nat] by simp
  let ?v = "NOT (push_bit 24 (ucast c :: u32))"
  note v = unat_lead_word [of c] and r = scan_rev_unique [of _ ?v]
  consider "unat c < 0xc0" | "0xc0 \<le> unat c" "unat c < 0xe0" | "0xe0 \<le> unat c" "unat c < 0xf0" | "0xf0 \<le> unat c" "unat c < 0xf8"
    | "0xf8 \<le> unat c" by linarith
  then have "utf8_lead_len c = (if unat c < 0xc0 then 1 else if unat c < 0xe0 then 2 else if unat c < 0xf0 then 3 else if unat c < 0xf8 then 4
      else utf8_lead_len c)"
    using assms c r [of 30] r [of 29] r [of 28] r [of 27] v by cases (simp_all add: utf8_lead_len_def)
  moreover have "4 < utf8_lead_len c" if "0xf8 \<le> unat c"
  proof -
    have "?v \<noteq> 0" using v c by auto
    then have "2 ^ GRN_BIT_SCAN_REV ?v \<le> unat ?v" by (rule GRN_BIT_SCAN_REV_range)
    also have "\<dots> < 2 ^ 27" using v that by simp
    finally have "GRN_BIT_SCAN_REV ?v < 27" by (simp only: power_strict_increasing_iff)
    then show ?thesis by (simp add: utf8_lead_len_def)
  qed
  ultimately show "utf8_lead_len c = 2 \<longleftrightarrow> 0xc0 \<le> unat c \<and> unat c < 0xe0"
    "utf8_lead_len c = 3 \<longleftrightarrow> 0xe0 \<le> unat c \<and> unat c < 0xf0"
    "utf8_lead_len c = 4 \<longleftrightarrow> 0xf0 \<le> unat c \<and> unat c < 0xf8"
    by (auto split: if_splits)
qed

lemma byte_table: "list_all (\<lambda>n. P (of_nat n)) [0..<256] \<Longrightarrow> P (c :: byte)"
proof -
  assume a: "list_all (\<lambda>n. P (of_nat n)) [0..<256]"
  have "unat c < 2 ^ LENGTH(8)" by (rule unsigned_less)
  then have "unat c \<in> set [0..<256]" by simp
  with a have "P (of_nat (unat c))" unfolding list_all_iff by (rule bspec)
  then show ?thesis by simp
qed

lemma byte_high_iff: "c AND 0x80 \<noteq> 0 \<longleftrightarrow> 0x80 \<le> (c :: byte)"
  by (rule byte_table [where P = "\<lambda>c. c AND 0x80 \<noteq> 0 \<longleftrightarrow> 0x80 \<le> c"]) code_simp

lemma is_trail_iff: "is_trail c \<longleftrightarrow> 0x80 \<le> c \<and> c < 0xc0"
  by (rule byte_table [where P = "\<lambda>c. is_trail c \<longleftrightarrow> 0x80 \<le> c \<and> c < 0xc0"]) code_simp

lemma utf8_charlen_wide:
  "c AND 0x80 \<noteq> 0 \<Longrightarrow> 0 < l \<Longrightarrow> grn_str_charlen_utf8 (c # p) = l \<longleftrightarrow>
     c \<noteq> 0 \<and> l = utf8_lead_len c \<and> (l = 2 \<or> l = 3 \<or> l = 4) \<and> l \<le> Suc (length p) \<and> list_all is_trail (take (l - 1) p)"
  by (auto simp: Let_def Suc_le_eq)

lemma utf8_charlen_narrow: "c AND 0x80 = 0 \<Longrightarrow> grn_str_charlen_utf8 (c # p) = (if c = 0 then 0 else 1)"
  by simp

lemma utf8_charlen_le: "grn_str_charlen_utf8 s \<le> length s"
proof (cases "s = [] \<or> grn_str_charlen_utf8 s = 0 \<or> hd s AND 0x80 = 0")
  case False
  then show ?thesis using utf8_charlen_wide [of "hd s" "grn_str_charlen_utf8 s" "tl s"] by (cases s) auto
next
  case True
  then show ?thesis using utf8_charlen_narrow [of "hd s" "tl s"] by (cases s) (auto split: if_splits)
qed

lemma charlen_le: "grn_charlen enc s \<le> length s"
proof (cases s)
  case (Cons c p)
  then show ?thesis using utf8_charlen_le [of s]
    by (cases enc; cases p) (simp_all add: grn_charlen_def del: grn_str_charlen_utf8.simps)
qed (simp add: grn_charlen_def)

text \<open>The length of a character depends on its own bytes only.\<close>

lemma utf8_charlen_prefix:
  assumes "grn_str_charlen_utf8 s = l" "0 < l"
  shows "grn_str_charlen_utf8 (take l s @ r) = l"
proof (cases s)
  case (Cons c p)
  obtain k where k: "l = Suc k" using assms(2) by (cases l) auto
  show ?thesis
  proof (cases "c AND 0x80 = 0")
    case True
    then show ?thesis using assms Cons k by (simp split: if_splits)
  next
    case False
    note w = utf8_charlen_wide [OF False assms(2)]
    have p: "k \<le> length p" "utf8_lead_len c = Suc k" using w [of p] assms(1) Cons k by auto
    then show ?thesis using w [of p] w [of "take k p @ r"] assms(1) Cons k by (simp del: grn_str_charlen_utf8.simps)
  qed
qed (use assms in simp)

lemma charlen_prefix:
  assumes "grn_charlen enc s = l" "0 < l"
  shows "grn_charlen enc (take l s @ r) = l"
proof (cases s)
  case (Cons c p)
  show ?thesis
  proof (cases "enc = GRN_ENC_UTF8")
    case True
    then show ?thesis using assms Cons utf8_charlen_prefix [of s l r] by (cases l) (simp_all add: grn_charlen_def del: grn_str_charlen_utf8.simps)
  next
    case False
    then have "l = 1 \<and> grn_charlen enc [c] = 1 \<and> (\<forall>q. grn_charlen enc (c # q) = 1) \<or> l = 2 \<and> p \<noteq> [] \<and> (\<forall>x q. grn_charlen enc (c # x # q) = 2)"
      using assms Cons by (cases enc; cases p) (auto simp: grn_charlen_def split: if_splits)
    then show ?thesis using Cons by (cases p) auto
  qed
qed (use assms in \<open>simp add: grn_charlen_def\<close>)

lemma charlen_ascii: "c \<noteq> 0 \<Longrightarrow> c < 0x80 \<Longrightarrow> grn_charlen enc (c # s) = 1"
proof -
  assume c: "c \<noteq> 0" "c < 0x80"
  then have "c AND 0x80 = 0" using byte_high_iff [of c] by (metis leD)
  then show ?thesis using c by (cases enc) (simp_all add: grn_charlen_def)
qed

lemma charlen_wide: "1 < grn_charlen enc (c # s) \<Longrightarrow> 0x80 \<le> c"
proof -
  assume l: "1 < grn_charlen enc (c # s)"
  have "c AND 0x80 \<noteq> 0"
  proof
    assume "c AND 0x80 = 0"
    with l show False by (cases enc) (auto simp: grn_charlen_def split: if_splits)
  qed
  then show ?thesis by (simp only: byte_high_iff)
qed


section \<open>Code points are written as one character\<close>

text \<open>The code point of a character, and the character of a code point, as numbers.\<close>

fun utf8_code :: "byte list \<Rightarrow> nat" where
  "utf8_code [a] = unat a"
| "utf8_code [a, b] = (unat a - 0xc0) * 0x40 + (unat b - 0x80)"
| "utf8_code [a, b, c] = ((unat a - 0xe0) * 0x40 + (unat b - 0x80)) * 0x40 + (unat c - 0x80)"
| "utf8_code [a, b, c, d] = (((unat a - 0xf0) * 0x40 + (unat b - 0x80)) * 0x40 + (unat c - 0x80)) * 0x40 + (unat d - 0x80)"
| "utf8_code _ = 0"

definition utf8_bytes :: "nat \<Rightarrow> byte list" where
  "utf8_bytes n =
     (if n < 0x80 then [of_nat n]
      else if n < 0x800 then [of_nat (0xc0 + n div 64), of_nat (0x80 + n mod 64)]
      else if n < 0x10000 then [of_nat (0xe0 + n div 4096), of_nat (0x80 + n div 64 mod 64), of_nat (0x80 + n mod 64)]
      else [of_nat (0xf0 + n div 262144), of_nat (0x80 + n div 4096 mod 64), of_nat (0x80 + n div 64 mod 64), of_nat (0x80 + n mod 64)])"

lemma or_tables:
  "list_all (\<lambda>n. (of_nat n :: u32) OR 0x80 = of_nat (0x80 + n)) [0..<64]"
  "list_all (\<lambda>n. (of_nat n :: u32) OR 0xc0 = of_nat (0xc0 + n)) [0..<32]"
  "list_all (\<lambda>n. (of_nat n :: u32) OR 0xe0 = of_nat (0xe0 + n)) [0..<16]"
  "list_all (\<lambda>n. (of_nat n :: u32) OR 0xf0 = of_nat (0xf0 + n)) [0..<8]"
  by code_simp+

lemma list_all_upt: "list_all P [0..<m] \<Longrightarrow> n < m \<Longrightarrow> P n"
  by (simp add: list_all_iff)

lemma masked_field:
  assumes "drop_bit k M = mask m"
  shows "drop_bit k (cp AND M) = (of_nat (unat cp div 2 ^ k mod 2 ^ m) :: u32)"
proof -
  have "drop_bit k (cp AND M) = take_bit m (drop_bit k cp)" using assms by (simp add: take_bit_eq_mask)
  then have u: "unat (drop_bit k (cp AND M)) = unat cp div 2 ^ k mod 2 ^ m" by (simp only: unat_take_bit unat_drop_bit)
  have "drop_bit k (cp AND M) = of_nat (unat (drop_bit k (cp AND M)))" by simp
  also have "\<dots> = of_nat (unat cp div 2 ^ k mod 2 ^ m)" by (simp only: u)
  finally show ?thesis .
qed

text \<open>The bytes: a field of the code point under its tag.\<close>

lemma utf8_trail_byte:
  assumes "drop_bit k M = mask 6"
  shows "ucast (drop_bit k (cp AND M) OR 0x80 :: u32) = (of_nat (0x80 + unat cp div 2 ^ k mod 64) :: byte)"
proof -
  have l: "unat cp div 2 ^ k mod 64 < 64" by simp
  have "drop_bit k (cp AND M) OR 0x80 = of_nat (0x80 + unat cp div 2 ^ k mod 64)"
    using list_all_upt [OF or_tables(1) l] masked_field [OF assms, of cp] by simp
  then show ?thesis using l ucast_of_nat_byte [of "0x80 + unat cp div 2 ^ k mod 64"] by (simp del: of_nat_add)
qed

lemma utf8_head_byte:
  assumes "drop_bit k M = mask m" "list_all (\<lambda>n. (of_nat n :: u32) OR tag = of_nat (t + n)) [0..<2 ^ m]" "t + 2 ^ m \<le> 256"
    and "unat cp div 2 ^ k < 2 ^ m"
  shows "ucast (drop_bit k (cp AND M) OR tag :: u32) = (of_nat (t + unat cp div 2 ^ k) :: byte)"
proof -
  have "drop_bit k (cp AND M) OR tag = of_nat (t + unat cp div 2 ^ k)"
    using list_all_upt [OF assms(2,4)] masked_field [OF assms(1), of cp] assms(4) by simp
  then show ?thesis using assms(3,4) ucast_of_nat_byte [of "t + unat cp div 2 ^ k"] by (simp del: of_nat_add)
qed

lemma utf8_fields:
  "ucast ((cp AND 0x3f) OR 0x80 :: u32) = (of_nat (0x80 + unat cp mod 64) :: byte)"
  "ucast (drop_bit 6 (cp AND 0xfc0) OR 0x80 :: u32) = (of_nat (0x80 + unat cp div 64 mod 64) :: byte)"
  "ucast (drop_bit 12 (cp AND 0x3f000) OR 0x80 :: u32) = (of_nat (0x80 + unat cp div 4096 mod 64) :: byte)"
  "unat cp < 0x800 \<Longrightarrow> ucast (drop_bit 6 (cp AND 0x7c0) OR 0xc0 :: u32) = (of_nat (0xc0 + unat cp div 64) :: byte)"
  "unat cp < 0x10000 \<Longrightarrow> ucast (drop_bit 12 (cp AND 0xf000) OR 0xe0 :: u32) = (of_nat (0xe0 + unat cp div 4096) :: byte)"
  "unat cp < 0x200000 \<Longrightarrow> ucast (drop_bit 18 (cp AND 0x1c0000) OR 0xf0 :: u32) = (of_nat (0xf0 + unat cp div 262144) :: byte)"
proof -
  have m: "drop_bit 0 (0x3f :: u32) = mask 6" "drop_bit 6 (0xfc0 :: u32) = mask 6" "drop_bit 12 (0x3f000 :: u32) = mask 6"
    "drop_bit 6 (0x7c0 :: u32) = mask 5" "drop_bit 12 (0xf000 :: u32) = mask 4" "drop_bit 18 (0x1c0000 :: u32) = mask 3"
    by code_simp+
  show "ucast ((cp AND 0x3f) OR 0x80 :: u32) = (of_nat (0x80 + unat cp mod 64) :: byte)"
    using utf8_trail_byte [OF m(1), of cp] by (simp del: of_nat_add)
  show "ucast (drop_bit 6 (cp AND 0xfc0) OR 0x80 :: u32) = (of_nat (0x80 + unat cp div 64 mod 64) :: byte)"
    using utf8_trail_byte [OF m(2), of cp] by (simp del: of_nat_add)
  show "ucast (drop_bit 12 (cp AND 0x3f000) OR 0x80 :: u32) = (of_nat (0x80 + unat cp div 4096 mod 64) :: byte)"
    using utf8_trail_byte [OF m(3), of cp] by (simp del: of_nat_add)
  show "ucast (drop_bit 6 (cp AND 0x7c0) OR 0xc0 :: u32) = (of_nat (0xc0 + unat cp div 64) :: byte)" if "unat cp < 0x800"
    using utf8_head_byte [OF m(4), of "0xc0" "0xc0" cp] or_tables(2) that by (simp del: of_nat_add)
  show "ucast (drop_bit 12 (cp AND 0xf000) OR 0xe0 :: u32) = (of_nat (0xe0 + unat cp div 4096) :: byte)" if "unat cp < 0x10000"
    using utf8_head_byte [OF m(5), of "0xe0" "0xe0" cp] or_tables(3) that by (simp del: of_nat_add)
  show "ucast (drop_bit 18 (cp AND 0x1c0000) OR 0xf0 :: u32) = (of_nat (0xf0 + unat cp div 262144) :: byte)" if "unat cp < 0x200000"
    using utf8_head_byte [OF m(6), of "0xf0" "0xf0" cp] or_tables(4) that by (simp del: of_nat_add)
qed

lemma code_point_fixed_range:
  "0 < unat (code_point_fixed cp)" "unat (code_point_fixed cp) < 0x110000"
  by (auto simp: code_point_fixed_def word_less_nat_alt word_le_nat_alt)

lemma emits_code_point:
  "emits_bulk env b (utf8_bytes (unat (code_point_fixed cp))) (snd (grn_text_code_point env enc b cp))"
proof -
  define n where "n = code_point_fixed cp"
  have r: "unat n < 0x110000" using code_point_fixed_range(2) [of cp] by (simp add: n_def)
  have p1: "emits_bulk env b [x] (GRN_TEXT_PUTC env b x)" for b x by (rule emits_PUTC)
  note p2 = bulk.emits_Cons [OF p1 p1] 
  note p3 = bulk.emits_Cons [OF p1 p2]
  note p4 = bulk.emits_Cons [OF p1 p3]
  consider "unat n < 0x80" | "0x80 \<le> unat n" "unat n < 0x800" | "0x800 \<le> unat n" "unat n < 0x10000"
    | "0x10000 \<le> unat n" "unat n < 0x200000" using r by linarith
  then show ?thesis
  proof cases
    case 1
    then show ?thesis using p1 [of b "of_nat (unat n)"] ucast_of_nat_byte [of "unat n"]
      by (simp add: grn_text_code_point_def utf8_bytes_def word_le_nat_alt Let_def flip: n_def)
  next
    case 2
    then show ?thesis using p2 utf8_fields(1,4) [of n]
      by (simp add: grn_text_code_point_def utf8_bytes_def word_le_nat_alt Let_def flip: n_def del: of_nat_add drop_bit_and)
  next
    case 3
    then show ?thesis using p3 utf8_fields(1,2,5) [of n]
      by (simp add: grn_text_code_point_def utf8_bytes_def word_le_nat_alt Let_def flip: n_def del: of_nat_add drop_bit_and)
  next
    case 4
    then show ?thesis using p4 utf8_fields(1,2,3,6) [of n] r
      by (simp add: grn_text_code_point_def utf8_bytes_def word_le_nat_alt Let_def flip: n_def del: of_nat_add drop_bit_and)
  qed
qed

lemma utf8_code_bytes: "n < 0x110000 \<Longrightarrow> utf8_code (utf8_bytes n) = n"
proof -
  assume n: "n < 0x110000"
  have u: "unat (of_nat k :: byte) = k" if "k < 256" for k using that by (rule byte_of_nat)
  consider "n < 0x80" | "0x80 \<le> n" "n < 0x800" | "0x800 \<le> n" "n < 0x10000" | "0x10000 \<le> n" by linarith
  then show ?thesis
  proof cases
    case 1
    then show ?thesis using u [of n] by (simp add: utf8_bytes_def)
  next
    case 2
    then have "0xc0 + n div 64 < 256" "0x80 + n mod 64 < 256" by simp_all
    then show ?thesis using 2 by (simp add: utf8_bytes_def u del: of_nat_add)
  next
    case 3
    have "n div 4096 = n div 64 div 64" by (simp flip: div_mult2_eq)
    moreover have "0xe0 + n div 4096 < 256" "0x80 + n div 64 mod 64 < 256" "0x80 + n mod 64 < 256" using 3 by simp_all
    ultimately show ?thesis using 3 by (simp add: utf8_bytes_def u del: of_nat_add)
  next
    case 4
    have "n div 4096 = n div 64 div 64" "n div 262144 = n div 64 div 64 div 64" by (simp_all flip: div_mult2_eq)
    moreover have "0xf0 + n div 262144 < 256" "0x80 + n div 4096 mod 64 < 256" "0x80 + n div 64 mod 64 < 256" "0x80 + n mod 64 < 256"
      using n by simp_all
    ultimately show ?thesis using 4 by (simp add: utf8_bytes_def u del: of_nat_add)
  qed
qed

lemma trail_of_nat: "is_trail (of_nat (0x80 + k mod 64))"
proof -
  have "unat (of_nat (0x80 + k mod 64) :: byte) = 0x80 + k mod 64" by (rule byte_of_nat) simp
  then show ?thesis by (simp add: is_trail_iff word_le_nat_alt word_less_nat_alt del: of_nat_add)
qed

lemma charlen_utf8_bytes:
  assumes "0 < n" "n < 0x110000"
  shows "grn_charlen GRN_ENC_UTF8 (utf8_bytes n @ r) = length (utf8_bytes n)"
proof -
  have hi: "(of_nat k :: byte) AND 0x80 \<noteq> 0" "of_nat k \<noteq> (0 :: byte)" "unat (of_nat k :: byte) = k" if "0x80 \<le> k" "k < 256" for k
  proof -
    show u: "unat (of_nat k :: byte) = k" using that by (intro byte_of_nat)
    then show "(of_nat k :: byte) AND 0x80 \<noteq> 0" using that by (simp only: byte_high_iff word_le_nat_alt) simp
    show "of_nat k \<noteq> (0 :: byte)" using u that by auto
  qed
  note w = utf8_charlen_wide [THEN iffD2]
  consider "n < 0x80" | "0x80 \<le> n" "n < 0x800" | "0x800 \<le> n" "n < 0x10000" | "0x10000 \<le> n" by linarith
  then show ?thesis
  proof cases
    case 1
    then have "unat (of_nat n :: byte) = n" by (intro byte_of_nat) simp
    then have "of_nat n \<noteq> (0 :: byte)" "of_nat n < (0x80 :: byte)" using assms 1 by (auto simp: word_less_nat_alt)
    then show ?thesis using 1 by (simp add: utf8_bytes_def charlen_ascii)
  next
    case 2
    have k: "0x80 \<le> 0xc0 + n div 64" "0xc0 + n div 64 < 256" using 2 by simp_all
    then have "utf8_lead_len (of_nat (0xc0 + n div 64)) = 2" using utf8_lead_len_iff(1) [of "of_nat (0xc0 + n div 64)"] hi(3) [OF k] 2 by simp
    then show ?thesis using 2 hi [OF k] trail_of_nat [of n]
      by (simp add: utf8_bytes_def grn_charlen_def Let_def del: of_nat_add)
  next
    case 3
    have k: "0x80 \<le> 0xe0 + n div 4096" "0xe0 + n div 4096 < 256" using 3 by simp_all
    then have "utf8_lead_len (of_nat (0xe0 + n div 4096)) = 3" using utf8_lead_len_iff(2) [of "of_nat (0xe0 + n div 4096)"] hi(3) [OF k] 3 by simp
    then show ?thesis using 3 hi [OF k] trail_of_nat [of n] trail_of_nat [of "n div 64"]
      by (simp add: utf8_bytes_def grn_charlen_def Let_def numeral_2_eq_2 del: of_nat_add)
  next
    case 4
    have k: "0x80 \<le> 0xf0 + n div 262144" "0xf0 + n div 262144 < 256" using assms by simp_all
    then have "utf8_lead_len (of_nat (0xf0 + n div 262144)) = 4"
      using utf8_lead_len_iff(3) [of "of_nat (0xf0 + n div 262144)"] hi(3) [OF k] assms by simp
    then show ?thesis using 4 hi [OF k] trail_of_nat [of n] trail_of_nat [of "n div 64"] trail_of_nat [of "n div 4096"]
      by (simp add: utf8_bytes_def grn_charlen_def Let_def numeral_3_eq_3 del: of_nat_add)
  qed
qed


section \<open>URL encoding\<close>

definition url_chars :: "byte \<Rightarrow> byte list" where
  "url_chars c = (if url_special c then 0x25 # grn_itoh (scast c) 2 else [c])"

lemma text_itoh_succeeds:
  assumes "bulk_ample env b (len + n)" "grn_text_itoh env b i len = (rc, b')"
  shows "rc = GRN_SUCCESS" "bulk_text b' = bulk_text b @ grn_itoh i len" "bulk_ample env b' n"
  using appends_ample [of env b "grn_itoh i len" n "(rc, b')"] text_itoh_ample [OF assms(1), of i] assms by simp_all

lemma bulk_write_succeeds:
  assumes "bulk_ample env b (length s + n)" "grn_bulk_write env b s = (rc, b')"
  shows "rc = GRN_SUCCESS" "bulk_text b' = bulk_text b @ s" "bulk_ample env b' n"
  using appends_ample [OF assms(1) bulk_write_ample [OF assms(1)]] assms(2) by simp_all

lemma emits_urlenc_char: "emits_bulk env b (url_chars c) (urlenc_char env b c)"
proof (cases "url_special c")
  case True
  have "bulk_text (urlenc_char env b c) = bulk_text b @ 0x25 # grn_itoh (scast c) 2 \<and> bulk_ample env (urlenc_char env b c) n"
    if a: "bulk_ample env b (3 + n)" for n
  proof -
    obtain rc1 b1 where w: "grn_bulk_write env b [0x25] = (rc1, b1)" by (cases "grn_bulk_write env b [0x25]")
    have a1: "bulk_ample env b (length [0x25 :: byte] + (2 + n))" using a by (simp add: numeral_2_eq_2 numeral_3_eq_3)
    note b1 = bulk_write_succeeds [OF a1 w]
    obtain rc2 b2 where h: "grn_text_itoh env b1 (scast c) 2 = (rc2, b2)" by (cases "grn_text_itoh env b1 (scast c) 2")
    note b2 = text_itoh_succeeds [OF b1(3) h]
    show ?thesis using True w h b1 b2 by (simp add: urlenc_char_def)
  qed
  then show ?thesis using True by (simp add: emits_def url_chars_def)
next
  case False
  then show ?thesis using emits_PUTC [of env b c] by (simp add: urlenc_char_def url_chars_def)
qed

lemma emits_urlenc: "emits_bulk env b (concat (map url_chars s)) (grn_text_urlenc env b s)"
  unfolding grn_text_urlenc_def by (rule bulk.emits_all) (rule emits_urlenc_char)

lemma percent_dec_itoh: "percent_dec (grn_itoh (scast (c :: byte)) 2 @ p) = (c, p)"
proof -
  obtain x y where xy: "grn_itoh (scast c) 2 = [x, y]" by (simp add: numeral_2_eq_2)
  have "grn_htoui [x, y] = (take_bit 8 (scast c), [])"
    using htoui_loop_itoh [of 2 "scast c" "[]"] xy by (simp add: grn_htoui_def)
  moreover have "ucast (take_bit 8 (scast c :: u32)) = c"
    by (rule bit_word_eqI) (auto simp: bit_simps)
  ultimately show ?thesis by (simp add: xy)
qed

text \<open>A delimiter that the encoding never leaves unescaped.\<close>

lemma urldec_chars:
  assumes "url_special d" "d \<noteq> 0x25"
  shows "grn_text_urldec env b (url_chars c @ p) d = grn_text_urldec env (GRN_TEXT_PUTC env b c) p d"
proof (cases "url_special c")
  case True
  then show ?thesis using assms percent_dec_itoh [of c p]
    by (simp add: url_chars_def grn_text_urldec.simps)
next
  case False
  then have "c \<noteq> d" "c \<noteq> 0x25" using assms(1) by (auto simp: url_special_def urlenc_tbl_def)
  then show ?thesis using False by (simp add: url_chars_def grn_text_urldec.simps)
qed

lemma cgidec_chars:
  assumes "list_all (\<lambda>d. url_special d \<and> d \<noteq> 0x25) ds"
  shows "grn_text_cgidec env b (url_chars c @ p) ds = grn_text_cgidec env (GRN_TEXT_PUTC env b c) p ds"
proof (cases "url_special c")
  case True
  then show ?thesis using assms percent_dec_itoh [of c p]
    by (auto simp add: url_chars_def grn_text_cgidec.simps list_ex_iff list_all_iff)
next
  case False
  then have "\<not> list_ex (\<lambda>d. c = d) ds" "c \<noteq> 0x25" "c \<noteq> 0x2b" using assms by (auto simp: list_ex_iff list_all_iff url_special_def urlenc_tbl_def)
  then show ?thesis using False by (simp add: url_chars_def grn_text_cgidec.simps)
qed

text \<open>\<open>putcs\<close>: the characters of a text, one after the other.\<close>

lemma emits_putcs: "emits_bulk env b s (foldl (GRN_TEXT_PUTC env) b s)"
proof -
  have "emits_bulk env b (concat (map (\<lambda>c. [c]) s)) (foldl (GRN_TEXT_PUTC env) b s)"
    by (rule bulk.emits_all) (rule emits_PUTC)
  then show ?thesis by simp
qed

lemma urldec_text:
  assumes "url_special d" "d \<noteq> 0x25"
  shows "grn_text_urldec env b (concat (map url_chars s) @ p) d = grn_text_urldec env (foldl (GRN_TEXT_PUTC env) b s) p d"
  using assms by (induction s arbitrary: b) (simp_all add: urldec_chars)

lemma cgidec_text:
  assumes "list_all (\<lambda>d. url_special d \<and> d \<noteq> 0x25) ds"
  shows "grn_text_cgidec env b (concat (map url_chars s) @ p) ds = grn_text_cgidec env (foldl (GRN_TEXT_PUTC env) b s) p ds"
  using assms by (induction s arbitrary: b) (simp_all add: cgidec_chars)

lemma url_chars_clean: "x \<in> set (url_chars c) \<Longrightarrow> x \<noteq> 0x25 \<Longrightarrow> \<not> url_special x"
proof -
  have "list_all (\<lambda>n. \<not> url_special (hex_char (of_nat n))) [0..<16]" by code_simp
  moreover have "unat (i AND 0xf) < 16" for i :: u32 by (simp add: unat_low_nibble)
  ultimately have "\<not> url_special (hex_char (of_nat (unat (i AND 0xf))))" for i :: u32
    by (rule list_all_upt [where P = "\<lambda>n. \<not> url_special (hex_char (of_nat n))"])
  moreover have "hex_char (of_nat (unat (i AND 0xf))) = hex_char i" for i by (simp add: hex_char_def and.assoc)
  ultimately have h: "\<not> url_special (hex_char i)" for i by metis
  assume "x \<in> set (url_chars c)" "x \<noteq> 0x25"
  then show ?thesis using h by (auto simp: url_chars_def numeral_2_eq_2 split: if_splits)
qed

section \<open>Escaped strings\<close>

text \<open>What \<^verbatim>\<open>grn_text_esc\<close> writes for a character.\<close>

definition esc_u_chars :: "byte \<Rightarrow> byte list" where
  "esc_u_chars c = [0x5c, 0x75] @ grn_itoh (ucast c) 4"

definition esc_chars :: "byte \<Rightarrow> byte list" where
  "esc_chars c =
     (if c = 0x22 then [0x5c, 0x22] else if c = 0x5c then [0x5c, 0x5c] else if c = 0x08 then [0x5c, 0x62]
      else if c = 0x0c then [0x5c, 0x66] else if c = 0x0a then [0x5c, 0x6e] else if c = 0x0d then [0x5c, 0x72]
      else if c = 0x09 then [0x5c, 0x74] else if esc_control c then esc_u_chars c else [c])"

definition esc_wide_chars :: "byte list \<Rightarrow> byte list" where
  "esc_wide_chars s =
     (if s = [0xe2, 0x80, 0xa8] then [0x5c, 0x75, 0x32, 0x30, 0x32, 0x38]
      else if s = [0xe2, 0x80, 0xa9] then [0x5c, 0x75, 0x32, 0x30, 0x32, 0x39] else s)"

function esc_text :: "grn_encoding \<Rightarrow> byte list \<Rightarrow> byte list" where
  "esc_text enc [] = []"
| "esc_text enc (c # s) =
     (let l = grn_charlen enc (c # s)
      in if l = 0 then esc_u_chars c @ esc_text enc s
         else if l = 1 then esc_chars c @ esc_text enc s
         else esc_wide_chars (take l (c # s)) @ esc_text enc (drop l (c # s)))"
  by pat_completeness auto
termination
  by (relation "measure (\<lambda>(enc, s). length s)") auto

declare esc_text.simps(2) [simp del]

lemma esc_u_succeeds:
  assumes "bulk_ample env b (length (esc_u_chars c) + n)" "esc_u env b c = (rc, b')"
  shows "rc = GRN_SUCCESS \<and> bulk_text b' = bulk_text b @ esc_u_chars c \<and> bulk_ample env b' n"
proof -
  obtain rc1 b1 where w: "grn_bulk_write env b [0x5c, 0x75] = (rc1, b1)" by (cases "grn_bulk_write env b [0x5c, 0x75]")
  have a1: "bulk_ample env b (length [0x5c, 0x75 :: byte] + (4 + n))" using assms(1) by (simp add: esc_u_chars_def)
  note b1 = bulk_write_succeeds [OF a1 w]
  obtain rc2 b2 where h: "grn_text_itoh env b1 (ucast c) 4 = (rc2, b2)" by (cases "grn_text_itoh env b1 (ucast c) 4")
  note b2 = text_itoh_succeeds [OF b1(3) h]
  show ?thesis using assms(2) w h b1 b2 by (simp add: esc_u_def esc_u_chars_def)
qed

lemma esc_byte_put: "\<not> esc_control c \<Longrightarrow> esc_byte env rc b c = (rc, GRN_TEXT_PUT env b (esc_chars c))"
  by (simp add: esc_byte_def esc_chars_def GRN_TEXT_PUT_def GRN_TEXT_PUTC_def)

lemma esc_byte_control: "esc_control c \<Longrightarrow> esc_byte env rc b c = esc_u env b c \<and> esc_chars c = esc_u_chars c"
  unfolding esc_control_def by (auto simp: esc_byte_def esc_chars_def esc_control_def)

lemma esc_byte_succeeds:
  assumes "bulk_ample env b (length (esc_chars c) + n)" "esc_byte env GRN_SUCCESS b c = (rc, b')"
  shows "rc = GRN_SUCCESS \<and> bulk_text b' = bulk_text b @ esc_chars c \<and> bulk_ample env b' n"
proof (cases "esc_control c")
  case True
  then show ?thesis using assms esc_byte_control [OF True] esc_u_succeeds [of env b c n rc b'] by simp
next
  case False
  then show ?thesis using assms esc_byte_put [OF False] emits_PUT [of env b "esc_chars c"] by (auto simp: emits_def)
qed

lemma esc_wide_succeeds:
  "bulk_ample env b (length (esc_wide_chars s) + n) \<Longrightarrow>
     bulk_text (esc_wide env b s) = bulk_text b @ esc_wide_chars s \<and> bulk_ample env (esc_wide env b s) n"
  using emits_PUT [of env b "esc_wide_chars s"] by (auto simp: esc_wide_def esc_wide_chars_def emits_def)

lemma text_esc_loop_ok:
  assumes "bulk_ample env b (length (esc_text enc s) + n)"
  shows "\<exists>b'. text_esc_loop env enc GRN_SUCCESS b s = (True, GRN_SUCCESS, b') \<and> bulk_text b' = bulk_text b @ esc_text enc s \<and> bulk_ample env b' n"
  using assms
proof (induction enc s arbitrary: b rule: esc_text.induct)
  case (1 enc)
  then show ?case by simp
next
  case (2 enc c s)
  let ?l = "grn_charlen enc (c # s)"
  consider "?l = 0" | "?l = 1" | "1 < ?l" by linarith
  then show ?case
  proof cases
    case 1
    obtain rc b1 where u: "esc_u env b c = (rc, b1)" by (cases "esc_u env b c")
    have "bulk_ample env b (length (esc_u_chars c) + (length (esc_text enc s) + n))"
      using 2(4) 1 by (simp add: esc_text.simps(2) add.assoc)
    note b1 = esc_u_succeeds [OF this u]
    then show ?thesis using 2(1) [OF refl 1, of b1] 1 u by (auto simp: text_esc_loop.simps(2) esc_text.simps(2))
  next
    case k: 2
    obtain rc b1 where u: "esc_byte env GRN_SUCCESS b c = (rc, b1)" by (cases "esc_byte env GRN_SUCCESS b c")
    have "bulk_ample env b (length (esc_chars c) + (length (esc_text enc s) + n))"
      using \<open>bulk_ample env b (length (esc_text enc (c # s)) + n)\<close> k by (simp add: esc_text.simps(2) add.assoc)
    note b1 = esc_byte_succeeds [OF this u]
    then show ?thesis using "2.IH"(2) [OF refl _ k, of b1] k u by (auto simp: text_esc_loop.simps(2) esc_text.simps(2))
  next
    case 3
    let ?w = "take ?l (c # s)" and ?r = "drop ?l (c # s)"
    have "bulk_ample env b (length (esc_wide_chars ?w) + (length (esc_text enc ?r) + n))"
      using \<open>bulk_ample env b (length (esc_text enc (c # s)) + n)\<close> 3 by (simp add: esc_text.simps(2) add.assoc Let_def)
    note b1 = esc_wide_succeeds [OF this]
    then show ?thesis using "2.IH"(3) [OF refl _ _, of "esc_wide env b ?w"] 3 by (auto simp: text_esc_loop.simps(2) esc_text.simps(2) Let_def)
  qed
qed

text \<open>
  Reading an escaped string back.  \<open>esc_plain\<close> excludes what \<^verbatim>\<open>grn_text_esc\<close> writes as \<^verbatim>\<open>\u\<close>, which \<^verbatim>\<open>grn_text_unesc_tok\<close> does
  not know: bytes that are no character, control characters without a letter, and the line separators.
\<close>

function esc_plain :: "grn_encoding \<Rightarrow> byte list \<Rightarrow> bool" where
  "esc_plain enc [] = True"
| "esc_plain enc (c # s) =
     (let l = grn_charlen enc (c # s)
      in if l = 0 then False
         else if l = 1 then \<not> esc_control c \<and> esc_plain enc s
         else esc_wide_chars (take l (c # s)) = take l (c # s) \<and> esc_plain enc (drop l (c # s)))"
  by pat_completeness auto
termination
  by (relation "measure (\<lambda>(enc, s). length s)") auto

declare esc_plain.simps(2) [simp del]

lemma unesc_string_char:
  assumes "grn_charlen enc (c # s) = l" "0 < l" "c \<noteq> 0x22" "c \<noteq> 0x5c"
  shows "unesc_tok_loop env enc b (take l (c # s) @ t) GRN_TOK_STRING False =
     unesc_tok_loop env enc (GRN_TEXT_PUT env b (take l (c # s))) t GRN_TOK_STRING False"
proof -
  have "grn_charlen enc (take l (c # s) @ t) = l" using charlen_prefix [OF assms(1,2)] .
  moreover have "l \<le> length (c # s)" using charlen_le [of enc "c # s"] assms(1) by simp
  ultimately show ?thesis using assms by (cases l) (simp_all add: unesc_tok_loop.simps(2) Let_def)
qed

lemma unesc_string_escape:
  assumes "x \<noteq> 0" "x < 0x80"
  shows "unesc_tok_loop env enc b (0x5c # x # t) GRN_TOK_STRING False =
     unesc_tok_loop env enc (GRN_TEXT_PUT env b (unesc_byte x [x])) t GRN_TOK_STRING False"
  using assms by (simp add: unesc_tok_loop.simps(2) Let_def charlen_ascii)

lemma unesc_esc_chars:
  assumes "grn_charlen enc (c # s) = 1" "\<not> esc_control c"
  shows "unesc_tok_loop env enc b (esc_chars c @ t) GRN_TOK_STRING False =
     unesc_tok_loop env enc (GRN_TEXT_PUT env b [c]) t GRN_TOK_STRING False"
proof (cases "c \<in> {0x22, 0x5c, 0x08, 0x0c, 0x0a, 0x0d, 0x09}")
  case True
  then show ?thesis by (auto simp: esc_chars_def unesc_string_escape unesc_byte_def)
next
  case False
  then show ?thesis using assms unesc_string_char [OF assms(1), of env b t] by (simp add: esc_chars_def)
qed

lemma unesc_esc_text:
  assumes "esc_plain enc s"
  shows "\<exists>b'. unesc_tok_loop env enc b (esc_text enc s @ 0x22 # r) GRN_TOK_STRING False = (b', r, GRN_TOK_STRING, False) \<and> emits_bulk env b s b'"
  using assms
proof (induction enc s arbitrary: b rule: esc_plain.induct)
  case (1 enc)
  then show ?case using bulk.emits_Nil [of env b] by (simp add: unesc_tok_loop.simps(2) charlen_ascii)
next
  case (2 enc c s)
  let ?l = "grn_charlen enc (c # s)"
  have l: "?l \<noteq> 0" using 2(3) by (simp add: esc_plain.simps(2) Let_def split: if_splits)
  show ?case
  proof (cases "?l = 1")
    case True
    then have p: "\<not> esc_control c" "esc_plain enc s" using 2(3) by (simp_all add: esc_plain.simps(2) Let_def)
    obtain b' where "unesc_tok_loop env enc (GRN_TEXT_PUT env b [c]) (esc_text enc s @ 0x22 # r) GRN_TOK_STRING False = (b', r, GRN_TOK_STRING, False)"
        "emits_bulk env (GRN_TEXT_PUT env b [c]) s b'"
      using 2(1) [OF refl l True p(2)] by blast
    then show ?thesis using True unesc_esc_chars [OF True p(1), of env b] bulk.emits_Cons [OF emits_PUT [of env b "[c]"]]
      by (auto simp: esc_text.simps(2) Let_def)
  next
    case False
    let ?w = "take ?l (c # s)" and ?q = "drop ?l (c # s)"
    have p: "esc_wide_chars ?w = ?w" "esc_plain enc ?q" using 2(3) False l by (simp_all add: esc_plain.simps(2) Let_def)
    have "1 < ?l" using l False by linarith
    then have c: "c \<noteq> 0x22" "c \<noteq> 0x5c" using charlen_wide [of enc c s] by auto
    obtain b' where "unesc_tok_loop env enc (GRN_TEXT_PUT env b ?w) (esc_text enc ?q @ 0x22 # r) GRN_TOK_STRING False = (b', r, GRN_TOK_STRING, False)"
        "emits_bulk env (GRN_TEXT_PUT env b ?w) ?q b'"
      using 2(2) [OF refl l False p(2)] by blast
    moreover have "emits_bulk env b (?w @ ?q) b'" if "emits_bulk env (GRN_TEXT_PUT env b ?w) ?q b'" for b'
      using bulk.emits_append [OF emits_PUT [of env b ?w] that] .
    ultimately show ?thesis using False l p(1) unesc_string_char [OF refl _ c, of enc s env b]
      by (auto simp: esc_text.simps(2) Let_def)
  qed
qed

section \<open>XML\<close>

definition xml_chars :: "byte \<Rightarrow> byte list" where
  "xml_chars c =
     (if c = 0x22 then [0x26, 0x71, 0x75, 0x6f, 0x74, 0x3b] else if c = 0x3c then [0x26, 0x6c, 0x74, 0x3b]
      else if c = 0x3e then [0x26, 0x67, 0x74, 0x3b] else if c = 0x26 then [0x26, 0x61, 0x6d, 0x70, 0x3b] else [c])"

text \<open>Writing stops at bytes that are no character.\<close>

function xml_text :: "grn_encoding \<Rightarrow> byte list \<Rightarrow> byte list" where
  "xml_text enc [] = []"
| "xml_text enc (c # s) =
     (let l = grn_charlen enc (c # s)
      in if l = 0 then [] else if l = 1 then xml_chars c @ xml_text enc s
         else take l (c # s) @ xml_text enc (drop l (c # s)))"
  by pat_completeness auto
termination
  by (relation "measure (\<lambda>(enc, s). length s)") auto

declare xml_text.simps(2) [simp del]

lemma emits_xml_byte: "emits_bulk env b (xml_chars c) (escape_xml_byte env b c)"
  using emits_PUT [of env b] emits_PUTC [of env b c] by (auto simp: xml_chars_def escape_xml_byte_def)

lemma emits_escape_xml: "emits_bulk env b (xml_text enc s) (grn_text_escape_xml env enc b s)"
proof (induction enc s arbitrary: b rule: xml_text.induct)
  case (1 enc)
  then show ?case using bulk.emits_Nil by simp
next
  case (2 enc c s)
  let ?l = "grn_charlen enc (c # s)"
  consider "?l = 0" | "?l = 1" | "?l \<noteq> 0" "?l \<noteq> 1" by blast
  then show ?case
  proof cases
    case 1
    then show ?thesis using bulk.emits_Nil by (simp add: xml_text.simps(2) grn_text_escape_xml.simps(2))
  next
    case k: 2
    then show ?thesis using bulk.emits_append [OF emits_xml_byte "2.IH"(1) [OF refl _ k]]
      by (simp add: xml_text.simps(2) grn_text_escape_xml.simps(2))
  next
    case 3
    then show ?thesis using bulk.emits_append [OF emits_PUT "2.IH"(2) [OF refl 3]]
      by (simp add: xml_text.simps(2) grn_text_escape_xml.simps(2) Let_def)
  qed
qed


section \<open>Counting characters\<close>

definition character :: "grn_encoding \<Rightarrow> byte list \<Rightarrow> bool" where
  "character enc c \<longleftrightarrow> c \<noteq> [] \<and> grn_charlen enc c = length c"

lemma character_take:
  assumes "grn_charlen enc s = l" "0 < l"
  shows "character enc (take l s)"
  using charlen_prefix [OF assms, of "[]"] charlen_le [of enc s] assms by (cases s) (auto simp: character_def)

lemma charlen_character: "character enc c \<Longrightarrow> grn_charlen enc (c @ r) = length c"
  using charlen_prefix [of enc c "length c" r] by (auto simp: character_def)

lemma str_len_loop_characters:
  assumes "list_all (character enc) cs" "grn_charlen enc r = 0"
  shows "grn_str_len_loop enc k (concat cs @ r) = (k + length cs, r)"
  using assms(1)
proof (induction cs arbitrary: k)
  case Nil
  then show ?case using assms(2) by (subst grn_str_len_loop.simps) (simp add: grn_charlen_def)
next
  case (Cons c cs)
  then have c: "grn_charlen_enc (c @ concat cs @ r) enc = length c" "c \<noteq> []"
    using charlen_character [of enc c] by (simp_all add: grn_charlen_def) (simp add: character_def)
  then show ?case using Cons by (subst grn_str_len_loop.simps) simp
qed

lemma str_len_loop_splits:
  "\<exists>cs. s = concat cs @ snd (grn_str_len_loop enc k s) \<and> fst (grn_str_len_loop enc k s) = k + length cs \<and>
     list_all (character enc) cs \<and> grn_charlen enc (snd (grn_str_len_loop enc k s)) = 0"
proof (induction enc k s rule: grn_str_len_loop.induct)
  case (1 enc k s)
  let ?l = "grn_charlen_enc s enc"
  show ?case
  proof (cases "s = [] \<or> ?l = 0")
    case True
    then have "grn_charlen enc s = 0" "grn_str_len_loop enc k s = (k, s)"
      by (auto simp: grn_charlen_def grn_str_len_loop.simps [of enc k s])
    then show ?thesis by (intro exI [of _ "[]"]) simp
  next
    case False
    then have loop: "grn_str_len_loop enc k s = grn_str_len_loop enc (Suc k) (drop ?l s)" by (subst grn_str_len_loop.simps) simp
    obtain cs where cs: "drop ?l s = concat cs @ snd (grn_str_len_loop enc k s)" "fst (grn_str_len_loop enc k s) = Suc k + length cs"
        "list_all (character enc) cs" "grn_charlen enc (snd (grn_str_len_loop enc k s)) = 0"
      using 1 False unfolding loop by auto
    have "character enc (take ?l s)" using False by (intro character_take) (simp_all add: grn_charlen_def)
    moreover have "s = concat (take ?l s # cs) @ snd (grn_str_len_loop enc k s)" using cs(1) append_take_drop_id [of ?l s] by simp
    ultimately show ?thesis using cs(2-4) by (intro exI [of _ "take ?l s # cs"]) simp
  qed
qed

lemma str_len_iff:
  "grn_str_len s enc = (n, r) \<longleftrightarrow>
     (\<exists>cs. s = concat cs @ r \<and> n = length cs \<and> list_all (character enc) cs \<and> grn_charlen enc r = 0)"
proof
  assume "grn_str_len s enc = (n, r)"
  then show "\<exists>cs. s = concat cs @ r \<and> n = length cs \<and> list_all (character enc) cs \<and> grn_charlen enc r = 0"
    using str_len_loop_splits [of s enc 0] by (simp add: grn_str_len_def)
next
  assume "\<exists>cs. s = concat cs @ r \<and> n = length cs \<and> list_all (character enc) cs \<and> grn_charlen enc r = 0"
  then show "grn_str_len s enc = (n, r)" using str_len_loop_characters [of enc _ r 0] by (auto simp: grn_str_len_def)
qed

section \<open>Splitting at a delimiter\<close>

definition token_ends :: "byte \<Rightarrow> nat \<Rightarrow> byte list \<Rightarrow> nat list" where
  "token_ends delim k s = map ((+) k) (filter (\<lambda>i. s ! i = delim) [0..<length s] @ [length s])"

lemma token_ends_Cons:
  "token_ends delim k (c # s) = (if c = delim then k # token_ends delim (Suc k) s else token_ends delim (Suc k) s)"
proof -
  have "[0..<length (c # s)] = 0 # map Suc [0..<length s]" by (simp add: upt_conv_Cons map_Suc_upt del: upt_Suc)
  then show ?thesis by (simp add: token_ends_def filter_map comp_def del: upt_Suc)
qed

lemma str_tok_loop_ends:
  "0 < room \<Longrightarrow> str_tok_loop delim room k s = (take room (token_ends delim k s), last (take room (token_ends delim k s)))"
proof (induction delim room k s rule: str_tok_loop.induct)
  case (1 delim room k)
  then show ?case by (cases room) (simp_all add: token_ends_def)
next
  case (2 delim room k c s)
  have ne: "token_ends delim (Suc k) s \<noteq> []" by (simp add: token_ends_def)
  obtain m where m: "room = Suc m" using 2(3) by (cases room) auto
  show ?case
  proof (cases "delim = c \<and> m \<noteq> 0")
    case True
    then show ?thesis using 2(1) m ne by (cases m) (simp_all add: token_ends_Cons)
  next
    case False
    then show ?thesis using 2 m by (auto simp: token_ends_Cons)
  qed
qed

section \<open>XML is escaped safely\<close>

lemma utf8_wide_bytes:
  assumes "grn_charlen GRN_ENC_UTF8 (c # s) = l" "1 < l" "x \<in> set (take l (c # s))"
  shows "0x80 \<le> x"
proof -
  have c: "0x80 \<le> c" using charlen_wide [of GRN_ENC_UTF8 c s] assms by simp
  then have "c AND 0x80 \<noteq> 0" by (simp only: byte_high_iff)
  moreover have "grn_str_charlen_utf8 (c # s) = l" using assms(1) by (simp add: grn_charlen_def del: grn_str_charlen_utf8.simps)
  ultimately have "list_all is_trail (take (l - 1) s)" using utf8_charlen_wide [of c l s] assms(2) by linarith
  then show ?thesis using assms(2,3) c by (cases l) (auto simp: list_all_iff is_trail_iff)
qed

lemma xml_text_safe: "list_all (\<lambda>x. x \<noteq> 0x22 \<and> x \<noteq> 0x3c \<and> x \<noteq> 0x3e) (xml_text GRN_ENC_UTF8 s)"
proof (induction GRN_ENC_UTF8 s rule: xml_text.induct)
  case (2 c s)
  let ?l = "grn_charlen GRN_ENC_UTF8 (c # s)"
  consider "?l = 0" | "?l = 1" | "?l \<noteq> 0" "?l \<noteq> 1" by blast
  then show ?case
  proof cases
    case 1
    then show ?thesis by (simp add: xml_text.simps(2))
  next
    case k: 2
    then show ?thesis using 2(1) [OF refl _ k] by (simp add: xml_text.simps(2) xml_chars_def)
  next
    case 3
    have "x \<noteq> 0x22 \<and> x \<noteq> 0x3c \<and> x \<noteq> 0x3e" if "x \<in> set (take ?l (c # s))" for x
      using utf8_wide_bytes [OF refl _ that] 3 by auto
    then have "list_all (\<lambda>x. x \<noteq> 0x22 \<and> x \<noteq> 0x3c \<and> x \<noteq> 0x3e) (take ?l (c # s))" by (simp only: list_all_iff) blast
    then show ?thesis using 2(2) [OF refl 3] 3 by (simp add: xml_text.simps(2) Let_def)
  qed
qed simp

section \<open>Bounds and a reader of XML\<close>

lemma length_url_text: "length (concat (map url_chars s)) \<le> 3 * length s"
  by (induction s) (auto simp: url_chars_def)

lemma length_esc_text: "length (esc_text enc s) \<le> 6 * length s"
proof (induction enc s rule: esc_text.induct)
  case (2 enc c s)
  let ?l = "grn_charlen enc (c # s)"
  have l: "?l \<le> Suc (length s)" using charlen_le [of enc "c # s"] by simp
  consider "?l = 0" | "?l = 1" | "?l \<noteq> 0" "?l \<noteq> 1" by blast
  then show ?case
  proof cases
    case 1
    then show ?thesis using 2(1) [OF refl 1] by (simp add: esc_text.simps(2) esc_u_chars_def)
  next
    case k: 2
    have "length (esc_chars c) \<le> 6" by (simp add: esc_chars_def esc_u_chars_def)
    then show ?thesis using "2.IH"(2) [OF refl _ k] k by (simp add: esc_text.simps(2))
  next
    case 3
    have "length (esc_wide_chars (take ?l (c # s))) \<le> 6 * ?l" using 3 l by (simp add: esc_wide_chars_def)
    then show ?thesis using "2.IH"(3) [OF refl 3] 3 l by (simp add: esc_text.simps(2) Let_def)
  qed
qed simp

text \<open>The reference that reads XML text back: the four entities.\<close>

function xml_unescape :: "byte list \<Rightarrow> byte list" where
  "xml_unescape [] = []"
| "xml_unescape (c # s) =
     (if c \<noteq> 0x26 then c # xml_unescape s
      else if take 5 s = [0x71, 0x75, 0x6f, 0x74, 0x3b] then 0x22 # xml_unescape (drop 5 s)
      else if take 3 s = [0x6c, 0x74, 0x3b] then 0x3c # xml_unescape (drop 3 s)
      else if take 3 s = [0x67, 0x74, 0x3b] then 0x3e # xml_unescape (drop 3 s)
      else if take 4 s = [0x61, 0x6d, 0x70, 0x3b] then 0x26 # xml_unescape (drop 4 s)
      else c # xml_unescape s)"
  by pat_completeness auto
termination
  by (relation "measure length") auto

lemma xml_unescape_chars: "xml_unescape (xml_chars c @ s) = c # xml_unescape s"
  by (simp add: xml_chars_def)

lemma xml_unescape_wide: "list_all (\<lambda>x. x \<noteq> 0x26) w \<Longrightarrow> xml_unescape (w @ s) = w @ xml_unescape s"
  by (induction w) simp_all

lemma str_len_loop_rest: "snd (grn_str_len_loop enc k s) = snd (grn_str_len_loop enc m s)"
proof (induction enc k s arbitrary: m rule: grn_str_len_loop.induct)
  case (1 enc k s)
  show ?case
  proof (cases "s = [] \<or> grn_charlen_enc s enc = 0")
    case True
    then have "grn_str_len_loop enc j s = (j, s)" for j by (subst grn_str_len_loop.simps) auto
    then show ?thesis by simp
  next
    case False
    then have "grn_str_len_loop enc j s = grn_str_len_loop enc (Suc j) (drop (grn_charlen_enc s enc) s)" for j
      by (subst grn_str_len_loop.simps) simp
    then show ?thesis using 1(1) [OF _ refl, of "Suc m"] False by simp
  qed
qed

lemma str_len_rest_step:
  "grn_charlen enc (c # s) \<noteq> 0 \<Longrightarrow> snd (grn_str_len (c # s) enc) = snd (grn_str_len (drop (grn_charlen enc (c # s)) (c # s)) enc)"
  using str_len_loop_rest [of enc "Suc 0" _ 0]
  by (subst grn_str_len_def, subst grn_str_len_loop.simps) (simp add: grn_charlen_def grn_str_len_def)

lemma xml_unescape_text: "xml_unescape (xml_text GRN_ENC_UTF8 s) @ snd (grn_str_len s GRN_ENC_UTF8) = s"
proof (induction GRN_ENC_UTF8 s rule: xml_text.induct)
  case 1
  then show ?case by (simp add: grn_str_len_def grn_str_len_loop.simps)
next
  case (2 c s)
  let ?l = "grn_charlen GRN_ENC_UTF8 (c # s)"
  consider "?l = 0" | "?l = 1" | "?l \<noteq> 0" "?l \<noteq> 1" by blast
  then show ?case
  proof cases
    case 1
    then have "grn_str_len (c # s) GRN_ENC_UTF8 = (0, c # s)"
      unfolding grn_str_len_def by (subst grn_str_len_loop.simps) (simp add: grn_charlen_def del: grn_charlen_enc.simps)
    then show ?thesis using 1 by (simp add: xml_text.simps(2))
  next
    case k: 2
    then show ?thesis using "2.hyps"(1) [OF refl _ k] str_len_rest_step [of GRN_ENC_UTF8 c s]
      by (simp add: xml_text.simps(2) xml_unescape_chars)
  next
    case 3
    have "x \<noteq> 0x26" if "x \<in> set (take ?l (c # s))" for x
      using utf8_wide_bytes [OF refl _ that] 3 by auto
    then have "list_all (\<lambda>x. x \<noteq> 0x26) (take ?l (c # s))" by (simp only: list_all_iff) blast
    from xml_unescape_wide [OF this, of "xml_text GRN_ENC_UTF8 (drop ?l (c # s))"]
    have "xml_unescape (xml_text GRN_ENC_UTF8 (c # s)) @ snd (grn_str_len (c # s) GRN_ENC_UTF8) =
        take ?l (c # s) @ xml_unescape (xml_text GRN_ENC_UTF8 (drop ?l (c # s))) @ snd (grn_str_len (drop ?l (c # s)) GRN_ENC_UTF8)"
      using str_len_rest_step [of GRN_ENC_UTF8 c s] 3 by (simp add: xml_text.simps(2) Let_def)
    then show ?thesis using "2.hyps"(2) [OF refl 3] by simp
  qed
qed

end
