(* ===== verification/PatNode.thy ===== *)
theory PatNode
  imports GrnArray StrText
begin

text \<open>
  The data of a patricia trie, from the top of \<^verbatim>\<open>lib/pat.c\<close>: nodes, key storage, deletion records and the header.  A table lives in three
  arrays of one file, for nodes, for the bytes of long keys and for values; they are typed here, and a segment of an array is there or
  not yet.  A node id is also the id of the record.  A child id refers to a node either as the next one to test or,
  when the test of that node does not come later than the own one, as the record that was looked for.  A position of a link is
  the node that holds it and the side.

  The write-ahead log is off (\<^verbatim>\<open>GRN_WAL_ROLE_NONE\<close>), in which case \<^verbatim>\<open>grn_pat_wal_add_entry\<close> does nothing and succeeds, and the
  context has no error when an operation begins.
\<close>

section \<open>Nodes and the table\<close>

datatype pat_node_direction = DIRECTION_LEFT | DIRECTION_RIGHT

text \<open>
  A node (\<^verbatim>\<open>pat_node\<close> or, with the flag \<^verbatim>\<open>KEY_LARGE\<close>, \<^verbatim>\<open>pat_node_large\<close>); \<open>pn_key\<close> are the four or eight bytes of its field \<^verbatim>\<open>key\<close>.
\<close>

record pat_node =
  pn_left :: grn_id
  pn_right :: grn_id
  pn_key :: "byte list"
  pn_check :: u16
  pn_bits :: u16

record sis_node =
  sis_children :: grn_id
  sis_sibling :: grn_id

datatype delinfo_stat = DL_EMPTY | DL_PHASE1 | DL_PHASE2

record grn_pat_delinfo =
  di_d :: grn_id
  di_ld :: grn_id
  di_stat :: delinfo_stat
  di_shared :: bool

datatype pat_key_type = GRN_OBJ_KEY_UINT | GRN_OBJ_KEY_INT | GRN_OBJ_KEY_FLOAT | GRN_OBJ_KEY_GEO_POINT

abbreviation GRN_PAT_NDELINFOS :: nat where
  "GRN_PAT_NDELINFOS \<equiv> 0x100"

abbreviation GRN_TABLE_MAX_KEY_SIZE :: nat where
  "GRN_TABLE_MAX_KEY_SIZE \<equiv> 0x1000"

text \<open>
  The table.  \<open>p_seg_pat\<close>, \<open>p_seg_key\<close> and \<open>p_seg_sis\<close> say which segments of the three arrays exist, \<open>p_nodes\<close>, \<open>p_keys\<close>, \<open>p_sis\<close> and
  \<open>p_values\<close> what they hold.  \<open>p_curr_key\<close> is \<^verbatim>\<open>curr_key\<close> or \<^verbatim>\<open>curr_key_large\<close>; \<open>p_geo\<close> says whether the domain is a type of points.
\<close>

record grn_pat =
  p_key_large :: bool
  p_var_size :: bool
  p_with_sis :: bool
  p_key_type :: pat_key_type
  p_geo :: bool
  p_encoding :: grn_encoding
  p_value_size :: nat
  p_truncated :: bool
  p_n_entries :: u32
  p_n_garbages :: u32
  p_curr_rec :: grn_id
  p_curr_key :: u64
  p_curr_del :: nat
  p_curr_del2 :: nat
  p_curr_del3 :: nat
  p_delinfos :: "nat \<Rightarrow> grn_pat_delinfo"
  p_garbages :: "nat \<Rightarrow> grn_id"
  p_cache :: "grn_id list option"
  p_seg_pat :: "nat \<Rightarrow> bool"
  p_nodes :: "grn_id \<Rightarrow> pat_node"
  p_seg_key :: "nat \<Rightarrow> bool"
  p_keys :: "nat \<Rightarrow> byte"
  p_seg_sis :: "nat \<Rightarrow> bool"
  p_sis :: "grn_id \<Rightarrow> sis_node"
  p_values :: "grn_id \<Rightarrow> byte list"

text \<open>Whether a segment can be added to an array, memory for the cache, and the encoding of the context.\<close>

record pat_env =
  pe_alloc_pat :: "nat \<Rightarrow> bool"
  pe_alloc_key :: "nat \<Rightarrow> bool"
  pe_alloc_sis :: "nat \<Rightarrow> bool"
  pe_alloc_cache :: bool
  pe_encoding :: grn_encoding

definition pat_key_is_embeddable :: "grn_pat \<Rightarrow> nat \<Rightarrow> bool" where
  "pat_key_is_embeddable pat key_size \<longleftrightarrow> (if p_key_large pat then key_size \<le> 8 else key_size \<le> 4)"

definition pat_key_storage_size :: "grn_pat \<Rightarrow> nat \<Rightarrow> nat" where
  "pat_key_storage_size pat key_size = (if pat_key_is_embeddable pat key_size then 0 else key_size)"

definition pat_node_get_child :: "pat_node \<Rightarrow> pat_node_direction \<Rightarrow> grn_id" where
  "pat_node_get_child node direction =
     (case direction of DIRECTION_LEFT \<Rightarrow> pn_left node | DIRECTION_RIGHT \<Rightarrow> pn_right node)"

definition pat_node_set_child :: "pat_node_direction \<Rightarrow> grn_id \<Rightarrow> pat_node \<Rightarrow> pat_node" where
  "pat_node_set_child direction rid node =
     (case direction of DIRECTION_LEFT \<Rightarrow> node\<lparr>pn_left := rid\<rparr> | DIRECTION_RIGHT \<Rightarrow> node\<lparr>pn_right := rid\<rparr>)"

definition PAT_DELETING :: u16 where "PAT_DELETING = push_bit 1 1"
definition PAT_IMMEDIATE :: u16 where "PAT_IMMEDIATE = push_bit 2 1"

definition pat_node_is_deleting :: "pat_node \<Rightarrow> bool" where
  "pat_node_is_deleting node \<longleftrightarrow> pn_bits node AND PAT_DELETING \<noteq> 0"

definition pat_node_is_key_immediate :: "pat_node \<Rightarrow> bool" where
  "pat_node_is_key_immediate node \<longleftrightarrow> pn_bits node AND PAT_IMMEDIATE \<noteq> 0"

definition pat_node_get_key_length :: "pat_node \<Rightarrow> nat" where
  "pat_node_get_key_length node = unat (drop_bit 3 (pn_bits node)) + 1"

definition pat_node_get_check :: "pat_node \<Rightarrow> int" where
  "pat_node_get_check node = uint (pn_check node)"

definition pat_node_set_deleting_on :: "pat_node \<Rightarrow> pat_node" where
  "pat_node_set_deleting_on node = node\<lparr>pn_bits := pn_bits node OR PAT_DELETING\<rparr>"

definition pat_node_set_deleting_off :: "pat_node \<Rightarrow> pat_node" where
  "pat_node_set_deleting_off node = node\<lparr>pn_bits := pn_bits node AND NOT PAT_DELETING\<rparr>"

definition pat_node_set_key_immediate_on :: "pat_node \<Rightarrow> pat_node" where
  "pat_node_set_key_immediate_on node = node\<lparr>pn_bits := pn_bits node OR PAT_IMMEDIATE\<rparr>"

definition pat_node_set_key_immediate_off :: "pat_node \<Rightarrow> pat_node" where
  "pat_node_set_key_immediate_off node = node\<lparr>pn_bits := pn_bits node AND NOT PAT_IMMEDIATE\<rparr>"

definition pat_node_set_key_length :: "nat \<Rightarrow> pat_node \<Rightarrow> pat_node" where
  "pat_node_set_key_length key_length node =
     node\<lparr>pn_bits := (pn_bits node AND (push_bit 3 1 - 1)) OR push_bit 3 (of_nat (key_length - 1))\<rparr>"

definition pat_node_set_check :: "int \<Rightarrow> pat_node \<Rightarrow> pat_node" where
  "pat_node_set_check check node = node\<lparr>pn_check := word_of_int check\<rparr>"

section \<open>Positions of bits\<close>

text \<open>
  A check names a bit of a key: the byte, the bit in it from the most significant one, and whether the test is for the end of
  the key after that bit.
\<close>

definition PAT_CHECK_PACK :: "int \<Rightarrow> int \<Rightarrow> bool \<Rightarrow> int" where
  "PAT_CHECK_PACK byte_differences bit_differences terminated =
     byte_differences * 2 ^ 4 + bit_differences * 2 ^ 1 + (if terminated then 1 else 0)"

definition PAT_CHECK_BYTE_DIFFERENCES :: "int \<Rightarrow> int" where
  "PAT_CHECK_BYTE_DIFFERENCES check = check div 2 ^ 4"

definition PAT_CHECK_BIT_DIFFERENCES :: "int \<Rightarrow> int" where
  "PAT_CHECK_BIT_DIFFERENCES check = (check div 2 ^ 1) mod 8"

definition PAT_CHECK_IS_TERMINATED :: "int \<Rightarrow> bool" where
  "PAT_CHECK_IS_TERMINATED check \<longleftrightarrow> check mod 2 = 1"

definition PAT_CHECK_ADD_BIT_DIFFERENCES :: "int \<Rightarrow> int \<Rightarrow> int" where
  "PAT_CHECK_ADD_BIT_DIFFERENCES check n = check + n * 2 ^ 1"

definition nth_bit :: "byte list \<Rightarrow> int \<Rightarrow> bool" where
  "nth_bit key check \<longleftrightarrow>
     drop_bit (7 - nat (PAT_CHECK_BIT_DIFFERENCES check)) (key ! nat (PAT_CHECK_BYTE_DIFFERENCES check)) AND 1 = 1"

type_synonym id_location = "grn_id \<times> pat_node_direction"

definition direction :: "bool \<Rightarrow> pat_node_direction" where
  "direction b = (if b then DIRECTION_RIGHT else DIRECTION_LEFT)"

definition next_direction :: "byte list \<Rightarrow> int \<Rightarrow> int \<Rightarrow> bool" where
  "next_direction key check check_max \<longleftrightarrow>
     (if PAT_CHECK_IS_TERMINATED check then check + 1 < check_max else nth_bit key check)"

definition grn_pat_next_location :: "grn_id \<Rightarrow> byte list \<Rightarrow> int \<Rightarrow> int \<Rightarrow> id_location" where
  "grn_pat_next_location rid key check check_max = (rid, direction (next_direction key check check_max))"

section \<open>The arrays\<close>

text \<open>
  \<^verbatim>\<open>PAT_AT\<close> and \<^verbatim>\<open>pat_node_get\<close>: a segment of 4 MiB holds \<open>2 ^ 18\<close> nodes of 16 bytes or \<open>2 ^ 17\<close> of up to 32 bytes, and there are
  segments for ids up to \<^const>\<open>GRN_ID_MAX\<close>.
\<close>

definition pat_segment :: "grn_pat \<Rightarrow> grn_id \<Rightarrow> nat" where
  "pat_segment pat rid = shift_right (unat rid) (if p_key_large pat then 17 else 18)"

definition PAT_AT :: "grn_pat \<Rightarrow> grn_id \<Rightarrow> pat_node option" where
  "PAT_AT pat rid =
     (if rid \<le> GRN_ID_MAX \<and> p_seg_pat pat (pat_segment pat rid) then Some (p_nodes pat rid) else None)"

definition pat_node_get :: "pat_env \<Rightarrow> grn_pat \<Rightarrow> grn_id \<Rightarrow> grn_pat \<times> bool" where
  "pat_node_get env pat rid =
     (let s = pat_segment pat rid
      in if GRN_ID_MAX < rid then (pat, False)
         else if p_seg_pat pat s then (pat, True)
         else if pe_alloc_pat env s then (pat\<lparr>p_seg_pat := set_at (p_seg_pat pat) s True\<rparr>, True)
         else (pat, False))"

definition update_node :: "grn_id \<Rightarrow> (pat_node \<Rightarrow> pat_node) \<Rightarrow> grn_pat \<Rightarrow> grn_pat" where
  "update_node rid f pat = pat\<lparr>p_nodes := (p_nodes pat)(rid := f (p_nodes pat rid))\<rparr>"

definition id_at :: "grn_pat \<Rightarrow> id_location \<Rightarrow> grn_id" where
  "id_at pat loc = pat_node_get_child (p_nodes pat (fst loc)) (snd loc)"

definition set_id_at :: "id_location \<Rightarrow> grn_id \<Rightarrow> grn_pat \<Rightarrow> grn_pat" where
  "set_id_at loc rid = update_node (fst loc) (pat_node_set_child (snd loc) rid)"

text \<open>The values, and with the flag \<^verbatim>\<open>KEY_WITH_SIS\<close> the links of common suffixes before them.\<close>

definition sis_segment :: "grn_pat \<Rightarrow> grn_id \<Rightarrow> nat" where
  "sis_segment pat rid =
     shift_right (unat rid) (22 - log2_ceil (if p_with_sis pat then 8 + p_value_size pat else p_value_size pat) 0)"

definition sis_at :: "grn_pat \<Rightarrow> grn_id \<Rightarrow> bool" where
  "sis_at pat rid \<longleftrightarrow> rid \<le> GRN_ID_MAX \<and> p_seg_sis pat (sis_segment pat rid)"

definition sis_get :: "pat_env \<Rightarrow> grn_pat \<Rightarrow> grn_id \<Rightarrow> grn_pat \<times> bool" where
  "sis_get env pat rid =
     (let s = sis_segment pat rid
      in if GRN_ID_MAX < rid then (pat, False)
         else if p_seg_sis pat s then (pat, True)
         else if pe_alloc_sis env s then (pat\<lparr>p_seg_sis := set_at (p_seg_sis pat) s True\<rparr>, True)
         else (pat, False))"

definition update_sis :: "grn_id \<Rightarrow> (sis_node \<Rightarrow> sis_node) \<Rightarrow> grn_pat \<Rightarrow> grn_pat" where
  "update_sis rid f pat = pat\<lparr>p_sis := (p_sis pat)(rid := f (p_sis pat rid))\<rparr>"

section \<open>Keys\<close>

definition grn_pat_total_key_size :: "grn_pat \<Rightarrow> u64" where
  "grn_pat_total_key_size pat = p_curr_key pat"

definition grn_pat_max_total_key_size :: "grn_pat \<Rightarrow> u64" where
  "grn_pat_max_total_key_size pat = (if p_key_large pat then 0x400000 * 0x40000 - 1 else 0xffffffff - 1)"

definition pat_update_total_key_size :: "u64 \<Rightarrow> grn_pat \<Rightarrow> grn_pat" where
  "pat_update_total_key_size sz pat =
     pat\<lparr>p_curr_key := if p_key_large pat then sz else ucast (ucast sz :: u32)\<rparr>"

definition KEY_AT :: "grn_pat \<Rightarrow> u64 \<Rightarrow> bool" where
  "KEY_AT pat pos \<longleftrightarrow>
     (let s = unat (drop_bit 22 pos) in s < (if p_key_large pat then 0x40000 else 0x400) \<and> p_seg_key pat s)"

definition KEY_ADD :: "pat_env \<Rightarrow> grn_pat \<Rightarrow> u64 \<Rightarrow> grn_pat \<times> bool" where
  "KEY_ADD env pat pos =
     (let s = unat (drop_bit 22 pos)
      in if \<not> s < (if p_key_large pat then 0x40000 else 0x400) then (pat, False)
         else if p_seg_key pat s then (pat, True)
         else if pe_alloc_key env s then (pat\<lparr>p_seg_key := set_at (p_seg_key pat) s True\<rparr>, True)
         else (pat, False))"

definition write_keys :: "nat \<Rightarrow> byte list \<Rightarrow> (nat \<Rightarrow> byte) \<Rightarrow> nat \<Rightarrow> byte" where
  "write_keys pos bs mem k = (if pos \<le> k \<and> k < pos + length bs then bs ! (k - pos) else mem k)"

definition key_put :: "pat_env \<Rightarrow> grn_pat \<Rightarrow> byte list \<Rightarrow> grn_pat \<times> grn_rc \<times> u64" where
  "key_put env pat key =
     (let res = grn_pat_total_key_size pat; len = (of_nat (length key) :: u64); mx = grn_pat_max_total_key_size pat
      in if res < mx \<and> mx - res < len then (pat, GRN_NOT_ENOUGH_SPACE, 0)
         else
           let end_segment = drop_bit 22 (res + len - 1);
               (res, pat) = (if drop_bit 22 res \<noteq> end_segment
                             then let res = push_bit 22 end_segment in (res, pat_update_total_key_size res pat)
                             else (res, pat))
           in case KEY_ADD env pat res of
                (pat, False) \<Rightarrow> (pat, GRN_NO_MEMORY_AVAILABLE, 0)
              | (pat, True) \<Rightarrow>
                  let pat = pat\<lparr>p_keys := write_keys (unat res) key (p_keys pat)\<rparr>
                  in (pat_update_total_key_size (grn_pat_total_key_size pat + len) pat, GRN_SUCCESS, res))"

definition pat_node_get_key_offset :: "grn_pat \<Rightarrow> pat_node \<Rightarrow> u64" where
  "pat_node_get_key_offset pat node =
     (if p_key_large pat then get_u64 (pn_key node) else ucast (get_u32 (pn_key node)))"

definition pat_node_set_key_offset :: "grn_pat \<Rightarrow> u64 \<Rightarrow> pat_node \<Rightarrow> pat_node" where
  "pat_node_set_key_offset pat key_offset node =
     node\<lparr>pn_key := if p_key_large pat then u64_bytes key_offset else u32_bytes (ucast key_offset)\<rparr>"

text \<open>
  A pointer to a key: into the field of a node, or into the key storage.
\<close>

datatype key_ptr = KEY_IN_NODE grn_id nat | KEY_IN_STORE nat

definition pat_node_get_key_ptr :: "grn_pat \<Rightarrow> grn_id \<Rightarrow> key_ptr option" where
  "pat_node_get_key_ptr pat rid =
     (let node = p_nodes pat rid
      in if pat_node_is_key_immediate node then Some (KEY_IN_NODE rid 0)
         else if KEY_AT pat (pat_node_get_key_offset pat node)
              then Some (KEY_IN_STORE (unat (pat_node_get_key_offset pat node)))
         else None)"

fun key_read :: "grn_pat \<Rightarrow> key_ptr \<Rightarrow> nat \<Rightarrow> byte list" where
  "key_read pat (KEY_IN_NODE rid i) n = take n (drop i (pn_key (p_nodes pat rid)))"
| "key_read pat (KEY_IN_STORE pos) n = map (p_keys pat) [pos..<pos + n]"

definition pat_node_get_key :: "grn_pat \<Rightarrow> grn_id \<Rightarrow> byte list option" where
  "pat_node_get_key pat rid =
     map_option (\<lambda>ptr. key_read pat ptr (pat_node_get_key_length (p_nodes pat rid))) (pat_node_get_key_ptr pat rid)"

definition put_key_field :: "byte list \<Rightarrow> pat_node \<Rightarrow> pat_node" where
  "put_key_field key node = node\<lparr>pn_key := key @ drop (length key) (pn_key node)\<rparr>"

definition pat_node_set_key :: "pat_env \<Rightarrow> grn_pat \<Rightarrow> grn_id \<Rightarrow> byte list \<Rightarrow> grn_pat \<times> grn_rc" where
  "pat_node_set_key env pat rid key =
     (if key = [] then (pat, GRN_INVALID_ARGUMENT)
      else
        let pat = update_node rid (pat_node_set_key_length (length key)) pat
        in if pat_key_is_embeddable pat (length key) then
             (update_node rid (put_key_field key \<circ> pat_node_set_key_immediate_on) pat, GRN_SUCCESS)
           else
             let pat = update_node rid pat_node_set_key_immediate_off pat
             in case key_put env pat key of
                  (pat, rc, pos) \<Rightarrow> (update_node rid (pat_node_set_key_offset pat pos) pat, rc))"

definition pat_node_set_shared_key :: "grn_id \<Rightarrow> nat \<Rightarrow> u32 \<Rightarrow> grn_pat \<Rightarrow> grn_pat" where
  "pat_node_set_shared_key rid key_size shared_key_offset pat =
     update_node rid (pat_node_set_key_offset pat (ucast shared_key_offset) \<circ> pat_node_set_key_length key_size \<circ>
                     pat_node_set_key_immediate_off) pat"

section \<open>Encoding of keys of fixed size\<close>

text \<open>
  Numbers are stored so that the order of their bytes is the order of the numbers: big-endian, with the sign bit of an integer
  flipped, and a negative floating point number flipped altogether; the bits of the coordinates of a point are interleaved.
\<close>

definition KEY_NEEDS_CONVERT :: "grn_pat \<Rightarrow> nat \<Rightarrow> bool" where
  "KEY_NEEDS_CONVERT pat sz \<longleftrightarrow> \<not> p_var_size pat \<and> sz \<le> 8"

definition grn_hton :: "byte list \<Rightarrow> byte list" where
  "grn_hton key = rev key"

definition grn_ntohi :: "byte list \<Rightarrow> byte list" where
  "grn_ntohi key = (if key = [] then [] else rev (tl key) @ [0x80 XOR hd key])"

definition spread_bits :: "u64 \<Rightarrow> u64" where
  "spread_bits la =
     (let la = (la OR push_bit 16 la) AND 0x0000FFFF0000FFFF;
          la = (la OR push_bit 8 la) AND 0x00FF00FF00FF00FF;
          la = (la OR push_bit 4 la) AND 0x0F0F0F0F0F0F0F0F;
          la = (la OR push_bit 2 la) AND 0x3333333333333333
      in (la OR push_bit 1 la) AND 0x5555555555555555)"

definition gather_bits :: "u64 \<Rightarrow> u64" where
  "gather_bits la =
     (let la = (la OR drop_bit 1 la) AND 0x3333333333333333;
          la = (la OR drop_bit 2 la) AND 0x0F0F0F0F0F0F0F0F;
          la = (la OR drop_bit 4 la) AND 0x00FF00FF00FF00FF;
          la = (la OR drop_bit 8 la) AND 0x0000FFFF0000FFFF
      in (la OR drop_bit 16 la) AND 0x00000000FFFFFFFF)"

definition grn_gton :: "byte list \<Rightarrow> byte list" where
  "grn_gton key =
     (let la = spread_bits (ucast (get_u32 key)); lo = spread_bits (ucast (get_u32 (drop 4 key)))
      in rev (u64_bytes (push_bit 1 la OR lo)))"

definition grn_ntog :: "byte list \<Rightarrow> byte list" where
  "grn_ntog key =
     (let k = get_u64 (rev key);
          la = gather_bits (drop_bit 1 k AND 0x5555555555555555); lo = gather_bits (k AND 0x5555555555555555)
      in u32_bytes (ucast la) @ u32_bytes (ucast lo))"

text \<open>The key of a size the switch has no case for is what happens to be in the buffer, \<open>junk\<close>.\<close>

definition KEY_ENC :: "byte list \<Rightarrow> grn_pat \<Rightarrow> byte list \<Rightarrow> byte list" where
  "KEY_ENC junk pat key =
     (case p_key_type pat of
        GRN_OBJ_KEY_UINT \<Rightarrow> if \<not> p_geo pat then grn_hton key else grn_gton key
      | GRN_OBJ_KEY_GEO_POINT \<Rightarrow> grn_gton key
      | GRN_OBJ_KEY_INT \<Rightarrow> (case grn_hton key of [] \<Rightarrow> [] | b # bs \<Rightarrow> (b XOR 0x80) # bs)
      | GRN_OBJ_KEY_FLOAT \<Rightarrow>
          if length key = 8 then
            let v = get_u64 key in grn_hton (u64_bytes (v XOR (signed_drop_bit 63 v OR push_bit 63 1)))
          else if length key = 4 then
            let v = get_u32 key in grn_hton (u32_bytes (v XOR (signed_drop_bit 31 v OR push_bit 31 1)))
          else take (length key) junk)"

definition KEY_DEC :: "byte list \<Rightarrow> grn_pat \<Rightarrow> byte list \<Rightarrow> byte list" where
  "KEY_DEC junk pat key =
     (case p_key_type pat of
        GRN_OBJ_KEY_UINT \<Rightarrow> if \<not> p_geo pat then grn_hton key else grn_ntog key
      | GRN_OBJ_KEY_GEO_POINT \<Rightarrow> grn_ntog key
      | GRN_OBJ_KEY_INT \<Rightarrow> grn_ntohi key
      | GRN_OBJ_KEY_FLOAT \<Rightarrow>
          if length key = 8 then
            let v = get_u64 (grn_hton key)
            in u64_bytes (v XOR (signed_drop_bit 63 (v XOR push_bit 63 1) OR push_bit 63 1))
          else if length key = 4 then
            let v = get_u32 (grn_hton key)
            in u32_bytes (v XOR (signed_drop_bit 31 (v XOR push_bit 31 1) OR push_bit 31 1))
          else take (length key) junk)"

definition KEY_ENCODE :: "byte list \<Rightarrow> grn_pat \<Rightarrow> byte list \<Rightarrow> byte list" where
  "KEY_ENCODE junk pat key = (if KEY_NEEDS_CONVERT pat (length key) then KEY_ENC junk pat key else key)"

end
