(* ===== verification/Pat.thy ===== *)
theory Pat
  imports PatNode
begin

text \<open>
  The operations of the patricia trie, from \<^verbatim>\<open>lib/pat.c\<close>: creation, lookup, addition, deletion, values and the searches for
  prefixes.  A loop that follows links with increasing checks is a function; the loop that looks for the place of a new node again
  from the root follows links without such a test and is a \<open>partial_function\<close> with the result \<open>None\<close> when it does not end.

  A deletion takes a node out of the tree in steps.  Records of pending deletions (\<^verbatim>\<open>delinfos\<close>) form a ring: a node that still serves as
  an inner node after its record is gone is replaced later (\<^verbatim>\<open>delinfo_turn_2\<close>), and is put into a list of free nodes later again
  (\<^verbatim>\<open>delinfo_turn_3\<close>).
\<close>

section \<open>Creation\<close>

definition zero_node :: "bool \<Rightarrow> pat_node" where
  "zero_node large =
     \<lparr>pn_left = 0, pn_right = 0, pn_key = replicate (if large then 8 else 4) 0, pn_check = 0, pn_bits = 0\<rparr>"

definition grn_pat_create ::
    "pat_env \<Rightarrow> bool \<Rightarrow> bool \<Rightarrow> bool \<Rightarrow> pat_key_type \<Rightarrow> bool \<Rightarrow> grn_encoding \<Rightarrow> nat \<Rightarrow> grn_pat option" where
  "grn_pat_create env large var_size with_sis key_type geo encoding value_size =
     (let pat = \<lparr>p_key_large = large, p_var_size = var_size, p_with_sis = with_sis, p_key_type = key_type, p_geo = geo,
                 p_encoding = encoding, p_value_size = value_size, p_truncated = False,
                 p_n_entries = 0, p_n_garbages = 0, p_curr_rec = 0, p_curr_key = 0,
                 p_curr_del = 0, p_curr_del2 = 0, p_curr_del3 = 0,
                 p_delinfos = (\<lambda>_. \<lparr>di_d = 0, di_ld = 0, di_stat = DL_EMPTY, di_shared = False\<rparr>),
                 p_garbages = (\<lambda>_. GRN_ID_NIL), p_cache = None,
                 p_seg_pat = (\<lambda>_. False), p_nodes = (\<lambda>_. zero_node large),
                 p_seg_key = (\<lambda>_. False), p_keys = (\<lambda>_. 0),
                 p_seg_sis = (\<lambda>_. False), p_sis = (\<lambda>_. \<lparr>sis_children = 0, sis_sibling = 0\<rparr>),
                 p_values = (\<lambda>_. replicate value_size 0)\<rparr>
      in case pat_node_get env pat 0 of
           (pat, False) \<Rightarrow> None
         | (pat, True) \<Rightarrow>
             Some (update_node 0 (pat_node_set_key_offset pat 0 \<circ> pat_node_set_child DIRECTION_LEFT GRN_ID_NIL \<circ>
                                  pat_node_set_child DIRECTION_RIGHT GRN_ID_NIL) pat))"

definition grn_pat_cache_enable :: "pat_env \<Rightarrow> grn_pat \<Rightarrow> u32 \<Rightarrow> grn_pat \<times> grn_rc" where
  "grn_pat_cache_enable env pat cache_size =
     (if cache_size AND (cache_size - 1) \<noteq> 0 then (pat, GRN_INVALID_ARGUMENT)
      else if unat cache_size \<le> (case p_cache pat of None \<Rightarrow> 0 | Some c \<Rightarrow> length c) then (pat, GRN_SUCCESS)
      else if \<not> pe_alloc_cache env then (pat, GRN_NO_MEMORY_AVAILABLE)
      else (pat\<lparr>p_cache := Some (replicate (unat cache_size) GRN_ID_NIL)\<rparr>, GRN_SUCCESS))"

definition grn_pat_cache_disable :: "grn_pat \<Rightarrow> grn_pat" where
  "grn_pat_cache_disable pat = pat\<lparr>p_cache := None\<rparr>"

definition grn_pat_error_if_truncated :: "grn_pat \<Rightarrow> grn_rc" where
  "grn_pat_error_if_truncated pat = (if p_truncated pat then GRN_FILE_CORRUPT else GRN_SUCCESS)"

definition grn_pat_cache_compute_id :: "nat \<Rightarrow> byte list \<Rightarrow> nat" where
  "grn_pat_cache_compute_id cache_size key =
     unat (foldl (\<lambda>cache_id p. cache_id * 37 + ucast p) (0 :: u32) key AND (of_nat cache_size - 1))"

definition set_cache :: "byte list \<Rightarrow> grn_id \<Rightarrow> grn_pat \<Rightarrow> grn_pat" where
  "set_cache key rid pat =
     (case p_cache pat of
        None \<Rightarrow> pat
      | Some c \<Rightarrow> pat\<lparr>p_cache := Some (c[grn_pat_cache_compute_id (length c) key := rid])\<rparr>)"

section \<open>Finding the place of a key\<close>

text \<open>
  The result of the search: an error, the record of the key, or the key it ends at with the last two links followed and the
  checks of the nodes they belong to.
\<close>

datatype find_result =
    FindError
  | FindFound grn_id
  | FindStop "byte list" id_location id_location int int

function add_find_loop ::
    "grn_pat \<Rightarrow> byte list \<Rightarrow> int \<Rightarrow> id_location \<Rightarrow> id_location \<Rightarrow> int \<Rightarrow> int \<Rightarrow> find_result" where
  "add_find_loop pat key check_max location_previous location check_node check_node_previous =
     (let rid = id_at pat location
      in if rid = GRN_ID_NIL then
           case pat_node_get_key pat (fst location) of
             None \<Rightarrow> FindError
           | Some found \<Rightarrow> FindStop found location_previous location check_node check_node_previous
         else
           case PAT_AT pat rid of
             None \<Rightarrow> FindError
           | Some node \<Rightarrow>
               let current = pat_node_get_check node
               in if check_node < current \<and> current < check_max then
                    add_find_loop pat key check_max location (grn_pat_next_location rid key current check_max)
                      current check_node
                  else
                    case pat_node_get_key pat rid of
                      None \<Rightarrow> FindError
                    | Some found \<Rightarrow>
                        if length key = length found \<and> found = key then FindFound rid
                        else FindStop found location_previous location check_node check_node_previous)"
  by pat_completeness auto
termination
  by (relation "measure (\<lambda>(pat, key, check_max, locp, loc, check_node, cnp). nat (check_max - check_node))") auto

declare add_find_loop.simps [simp del]

text \<open>The first position where two keys differ.\<close>

fun byte_differences :: "byte list \<Rightarrow> byte list \<Rightarrow> nat" where
  "byte_differences (k1 # key) (k2 # found) = (if k1 = k2 then Suc (byte_differences key found) else 0)"
| "byte_differences _ _ = 0"

function bit_differences :: "byte \<Rightarrow> nat \<Rightarrow> nat" where
  "bit_differences x i = (if \<not> bit x (7 - i) \<and> i < 7 then bit_differences x (i + 1) else i)"
  by pat_completeness auto
termination
  by (relation "measure (\<lambda>(x, i). 7 - i)") auto

declare bit_differences.simps [simp del]

definition check_of_difference :: "byte list \<Rightarrow> byte list \<Rightarrow> int" where
  "check_of_difference key found =
     (let n = byte_differences key found
      in if n = min (length key) (length found) then PAT_CHECK_PACK (int n - 1) 7 True
         else PAT_CHECK_PACK (int n) (int (bit_differences (key ! n XOR found ! n) 0)) False)"

partial_function (option) detect_position ::
    "grn_pat \<Rightarrow> byte list \<Rightarrow> int \<Rightarrow> int \<Rightarrow> id_location \<Rightarrow> id_location option option" where
  "detect_position pat key check_max check location =
     (let rid = id_at pat location
      in if rid = GRN_ID_NIL then Some (Some location)
         else case PAT_AT pat rid of
                None \<Rightarrow> Some None
              | Some node \<Rightarrow>
                  let check_node = pat_node_get_check node
                  in if check < check_node then Some (Some location)
                     else detect_position pat key check_max check (grn_pat_next_location rid key check_node check_max))"

abbreviation root_location :: id_location where
  "root_location \<equiv> (GRN_ID_NIL, DIRECTION_RIGHT)"

definition find_position ::
    "grn_pat \<Rightarrow> byte list \<Rightarrow> int \<Rightarrow> byte list \<Rightarrow> id_location \<Rightarrow> id_location \<Rightarrow> int \<Rightarrow> int \<Rightarrow>
     (int \<times> id_location option) option" where
  "find_position pat key check_max found location_previous location check_node check_node_previous =
     (let check = check_of_difference key found
      in if check = check_node \<and> id_at pat location = GRN_ID_NIL then
           Some (if check < check_max - 2 ^ 1 then PAT_CHECK_ADD_BIT_DIFFERENCES check 1 else check, Some location)
         else if check < check_node then
           if check_node_previous < check then Some (check, Some location_previous)
           else map_option (\<lambda>l. (check, l)) (detect_position pat key check_max check root_location)
         else Some (check, Some location))"

datatype add_place =
    PlaceError
  | PlaceFound grn_id
  | PlaceAt id_location int

definition grn_pat_add_internal_find :: "grn_pat \<Rightarrow> byte list \<Rightarrow> int \<Rightarrow> add_place option" where
  "grn_pat_add_internal_find pat key check_max =
     (if id_at pat root_location = GRN_ID_NIL then
        Some (PlaceAt root_location (PAT_CHECK_PACK (int (length key) - 1) 7 False))
      else
        case add_find_loop pat key check_max root_location root_location (- 1) (- 1) of
          FindError \<Rightarrow> Some PlaceError
        | FindFound rid \<Rightarrow> Some (PlaceFound rid)
        | FindStop found location_previous location check_node check_node_previous \<Rightarrow>
            (case find_position pat key check_max found location_previous location check_node check_node_previous of
               None \<Rightarrow> None
             | Some (check, None) \<Rightarrow> Some PlaceError
             | Some (check, Some location) \<Rightarrow>
                 Some (if check_max \<le> check then PlaceError else PlaceAt location check)))"

section \<open>Adding a node\<close>

definition grn_pat_enable_node :: "grn_id \<Rightarrow> byte list \<Rightarrow> int \<Rightarrow> int \<Rightarrow> id_location \<Rightarrow> grn_pat \<Rightarrow> grn_pat" where
  "grn_pat_enable_node rid key check check_max location pat =
     (let pat = update_node rid (pat_node_set_deleting_off \<circ> pat_node_set_check check) pat;
          pat = (if next_direction key check check_max
                 then let pat = update_node rid (pat_node_set_child DIRECTION_RIGHT rid) pat
                      in update_node rid (pat_node_set_child DIRECTION_LEFT (id_at pat location)) pat
                 else let pat = update_node rid (pat_node_set_child DIRECTION_RIGHT (id_at pat location)) pat
                      in update_node rid (pat_node_set_child DIRECTION_LEFT rid) pat)
      in set_id_at location rid pat)"

definition grn_pat_reuse_shared_node ::
    "grn_id \<Rightarrow> byte list \<Rightarrow> u32 \<Rightarrow> int \<Rightarrow> int \<Rightarrow> id_location \<Rightarrow> grn_pat \<Rightarrow> grn_pat" where
  "grn_pat_reuse_shared_node rid key shared_key_offset check check_max location pat =
     (let pat = pat\<lparr>p_garbages := set_at (p_garbages pat) 0 (pn_left (p_nodes pat rid)),
                    p_n_garbages := p_n_garbages pat - 1, p_n_entries := p_n_entries pat + 1\<rparr>;
          pat = pat_node_set_shared_key rid (length key) shared_key_offset pat
      in grn_pat_enable_node rid key check check_max location pat)"

definition grn_pat_add_shared_node ::
    "grn_id \<Rightarrow> byte list \<Rightarrow> u32 \<Rightarrow> int \<Rightarrow> int \<Rightarrow> id_location \<Rightarrow> grn_pat \<Rightarrow> grn_pat" where
  "grn_pat_add_shared_node rid key shared_key_offset check check_max location pat =
     (let pat = pat\<lparr>p_curr_rec := rid, p_n_entries := p_n_entries pat + 1\<rparr>;
          pat = pat_node_set_shared_key rid (length key) shared_key_offset pat
      in grn_pat_enable_node rid key check check_max location pat)"

fun key_write :: "key_ptr \<Rightarrow> byte list \<Rightarrow> grn_pat \<Rightarrow> grn_pat" where
  "key_write (KEY_IN_NODE rid i) key pat =
     update_node rid (\<lambda>node. node\<lparr>pn_key := take i (pn_key node) @ key @ drop (i + length key) (pn_key node)\<rparr>) pat"
| "key_write (KEY_IN_STORE pos) key pat = pat\<lparr>p_keys := write_keys pos key (p_keys pat)\<rparr>"

definition grn_pat_reuse_node ::
    "grn_id \<Rightarrow> byte list \<Rightarrow> int \<Rightarrow> int \<Rightarrow> id_location \<Rightarrow> grn_pat \<Rightarrow> grn_pat \<times> grn_rc" where
  "grn_pat_reuse_node rid key check check_max location pat =
     (case pat_node_get_key_ptr pat rid of
        None \<Rightarrow> (pat, GRN_FILE_CORRUPT)
      | Some key_buffer \<Rightarrow>
          let pat = pat\<lparr>p_garbages := set_at (p_garbages pat) (pat_key_storage_size pat (length key)) (pn_left (p_nodes pat rid))\<rparr>;
              pat = update_node rid (pat_node_set_key_length (length key)) pat;
              pat = key_write key_buffer key pat;
              pat = pat\<lparr>p_n_garbages := p_n_garbages pat - 1, p_n_entries := p_n_entries pat + 1\<rparr>
          in (grn_pat_enable_node rid key check check_max location pat, GRN_SUCCESS))"

definition grn_pat_add_node ::
    "pat_env \<Rightarrow> grn_id \<Rightarrow> byte list \<Rightarrow> int \<Rightarrow> int \<Rightarrow> id_location \<Rightarrow> grn_pat \<Rightarrow> grn_pat \<times> grn_rc" where
  "grn_pat_add_node env rid key check check_max location pat =
     (case pat_node_set_key env pat rid key of
        (pat, rc) \<Rightarrow>
          if rc \<noteq> GRN_SUCCESS then (pat, rc)
          else
            let pat = pat\<lparr>p_curr_rec := rid, p_n_entries := p_n_entries pat + 1\<rparr>
            in (grn_pat_enable_node rid key check check_max location pat, GRN_SUCCESS))"

text \<open>
  The result of \<^verbatim>\<open>grn_pat_add_internal\<close>: the table, the id, \<^verbatim>\<open>added\<close> and \<^verbatim>\<open>shared_key_offset\<close>.
\<close>

type_synonym add_result = "grn_pat \<times> grn_id \<times> bool \<times> u32"

definition add_new_node ::
    "pat_env \<Rightarrow> grn_pat \<Rightarrow> byte list \<Rightarrow> u32 \<Rightarrow> int \<Rightarrow> int \<Rightarrow> id_location \<Rightarrow> add_result" where
  "add_new_node env pat key shared check check_max location =
     (let storage_size = pat_key_storage_size pat (length key)
      in if 0 < shared \<and> 0 < storage_size then
           if p_garbages pat 0 \<noteq> GRN_ID_NIL then
             let rid = p_garbages pat 0
             in case PAT_AT pat rid of
                  None \<Rightarrow> (pat, GRN_ID_NIL, False, shared)
                | Some _ \<Rightarrow> (grn_pat_reuse_shared_node rid key shared check check_max location pat, rid, True, shared)
           else
             let rid = p_curr_rec pat + 1
             in case pat_node_get env pat rid of
                  (pat, False) \<Rightarrow> (pat, GRN_ID_NIL, False, shared)
                | (pat, True) \<Rightarrow> (grn_pat_add_shared_node rid key shared check check_max location pat, rid, True, shared)
         else if p_garbages pat storage_size \<noteq> GRN_ID_NIL then
           let rid = p_garbages pat storage_size
           in case PAT_AT pat rid of
                None \<Rightarrow> (pat, GRN_ID_NIL, False, shared)
              | Some _ \<Rightarrow>
                  (case grn_pat_reuse_node rid key check check_max location pat of
                     (pat, rc) \<Rightarrow>
                       if rc \<noteq> GRN_SUCCESS then (pat, GRN_ID_NIL, False, shared)
                       else (pat, rid, True, ucast (pat_node_get_key_offset pat (p_nodes pat rid))))
         else
           let rid = p_curr_rec pat + 1
           in case pat_node_get env pat rid of
                (pat, False) \<Rightarrow> (pat, GRN_ID_NIL, False, shared)
              | (pat, True) \<Rightarrow>
                  (case grn_pat_add_node env rid key check check_max location pat of
                     (pat, rc) \<Rightarrow>
                       if rc \<noteq> GRN_SUCCESS then (pat, GRN_ID_NIL, False, shared)
                       else (pat, rid, True, ucast (pat_node_get_key_offset pat (p_nodes pat rid)))))"

definition cache_lookup :: "grn_pat \<Rightarrow> byte list \<Rightarrow> grn_id" where
  "cache_lookup pat key =
     (case p_cache pat of
        None \<Rightarrow> GRN_ID_NIL
      | Some c \<Rightarrow>
          let rid = c ! grn_pat_cache_compute_id (length c) key
          in if rid \<noteq> GRN_ID_NIL \<and> PAT_AT pat rid \<noteq> None \<and> pat_node_get_key pat rid = Some key then rid
             else GRN_ID_NIL)"

definition grn_pat_add_internal :: "pat_env \<Rightarrow> grn_pat \<Rightarrow> byte list \<Rightarrow> u32 \<Rightarrow> add_result option" where
  "grn_pat_add_internal env pat key shared =
     (let cached = cache_lookup pat key; check_max = PAT_CHECK_PACK (int (length key)) 0 False
      in if cached \<noteq> GRN_ID_NIL then Some (pat, cached, False, shared)
         else
           case grn_pat_add_internal_find pat key check_max of
             None \<Rightarrow> None
           | Some PlaceError \<Rightarrow> Some (pat, GRN_ID_NIL, False, shared)
           | Some (PlaceFound rid) \<Rightarrow> Some (set_cache key rid pat, rid, False, shared)
           | Some (PlaceAt location check) \<Rightarrow>
               (case add_new_node env pat key shared check check_max location of
                  (pat, rid, added, shared) \<Rightarrow>
                    Some (if added then set_cache key rid pat else pat, rid, added, shared)))"


text \<open>
  \<^verbatim>\<open>grn_pat_add\<close>.  With the flag \<^verbatim>\<open>KEY_WITH_SIS\<close> the suffixes of the key that begin at a character are added too, each sharing the
  bytes of the key, and a list links the keys with a common suffix.
\<close>

definition chop :: "pat_env \<Rightarrow> byte list \<Rightarrow> u32 \<Rightarrow> bool \<times> byte list \<times> u32" where
  "chop env key offset =
     (let len = grn_charlen (pe_encoding env) key
      in if 0 < len then (drop len key \<noteq> [], drop len key, offset + of_nat len) else (False, key, offset))"

lemma chop_shorter: "chop env key offset = (True, key', offset') \<Longrightarrow> length key' < length key"
  by (auto simp: chop_def Let_def split: if_splits)

function add_sis_loop :: "pat_env \<Rightarrow> grn_pat \<Rightarrow> grn_id \<Rightarrow> byte list \<Rightarrow> u32 \<Rightarrow> grn_pat option" where
  "add_sis_loop env pat l sis shared =
     (case chop env sis shared of
        (False, sis, shared) \<Rightarrow> Some pat
      | (True, sis, shared) \<Rightarrow>
          if sis ! 0 AND 0x80 = 0 then Some pat
          else
            case grn_pat_add_internal env pat sis shared of
              None \<Rightarrow> None
            | Some (pat, r, added, shared) \<Rightarrow>
                if r = GRN_ID_NIL then Some pat
                else
                  (case sis_get env pat r of
                     (pat, False) \<Rightarrow> Some pat
                   | (pat, True) \<Rightarrow>
                       if added then
                         add_sis_loop env
                           (update_sis r (\<lambda>sr. sr\<lparr>sis_children := l, sis_sibling := 0\<rparr>)
                             (update_sis l (\<lambda>sl. sl\<lparr>sis_sibling := r\<rparr>) pat)) r sis shared
                       else
                         Some (update_sis r (\<lambda>sr. sr\<lparr>sis_children := l\<rparr>)
                           (update_sis l (\<lambda>sl. sl\<lparr>sis_sibling := sis_children (p_sis pat r)\<rparr>) pat))))"
  by pat_completeness auto
termination
  by (relation "measure (\<lambda>(env, pat, l, sis, shared). length sis)") (auto dest: chop_shorter [OF sym] chop_shorter)

declare add_sis_loop.simps [simp del]

definition add_suffixes :: "pat_env \<Rightarrow> grn_pat \<Rightarrow> byte list \<Rightarrow> grn_id \<Rightarrow> bool \<Rightarrow> u32 \<Rightarrow> grn_pat option" where
  "add_suffixes env pat key r0 added shared =
     (if p_with_sis pat \<and> key ! 0 AND 0x80 \<noteq> 0 \<and> added then
        case sis_get env pat r0 of
          (pat, False) \<Rightarrow> Some pat
        | (pat, True) \<Rightarrow>
            add_sis_loop env (update_sis r0 (\<lambda>sl. sl\<lparr>sis_children := r0, sis_sibling := 0\<rparr>) pat) r0 key shared
      else Some pat)"

text \<open>
  \<open>value\<close> says whether the caller asks for the place of the value, \<open>junk\<close> is what the buffer for an encoded key holds.  The
  result is \<^const>\<open>None\<close> when the code does not return.
\<close>

definition grn_pat_add ::
    "pat_env \<Rightarrow> byte list \<Rightarrow> grn_pat \<Rightarrow> byte list \<Rightarrow> bool \<Rightarrow> (grn_pat \<times> grn_id \<times> bool \<times> grn_rc) option" where
  "grn_pat_add env junk pat key value =
     (if grn_pat_error_if_truncated pat \<noteq> GRN_SUCCESS then Some (pat, GRN_ID_NIL, False, GRN_FILE_CORRUPT)
      else if key = [] then Some (pat, GRN_ID_NIL, False, GRN_INVALID_ARGUMENT)
      else if GRN_TABLE_MAX_KEY_SIZE < length key then Some (pat, GRN_ID_NIL, False, GRN_INVALID_ARGUMENT)
      else
        let key = KEY_ENCODE junk pat key
        in case grn_pat_add_internal env pat key 0 of
             None \<Rightarrow> None
           | Some (pat, r0, added, shared) \<Rightarrow>
               if r0 = GRN_ID_NIL then Some (pat, GRN_ID_NIL, False, GRN_INVALID_ARGUMENT)
               else
                 case add_suffixes env pat key r0 added shared of
                   None \<Rightarrow> None
                 | Some pat \<Rightarrow> Some (if value then fst (sis_get env pat r0) else pat, r0, added, GRN_SUCCESS))"

section \<open>Lookup\<close>

function pat_get_loop :: "grn_pat \<Rightarrow> byte list \<Rightarrow> int \<Rightarrow> grn_id \<Rightarrow> grn_id" where
  "pat_get_loop pat key c0 r =
     (let len = int (length key) * 16
      in if r = GRN_ID_NIL then GRN_ID_NIL
         else
           case PAT_AT pat r of
             None \<Rightarrow> GRN_ID_NIL
           | Some rn \<Rightarrow>
               let c = pat_node_get_check rn
               in if len \<le> c then GRN_ID_NIL
                  else if c \<le> c0 then if pat_node_get_key pat r = Some key then r else GRN_ID_NIL
                  else pat_get_loop pat key c (id_at pat (grn_pat_next_location r key c len)))"
  by pat_completeness auto
termination
  by (relation "measure (\<lambda>(pat, key, c0, r). nat (int (length key) * 16 - c0))") auto

declare pat_get_loop.simps [simp del]

text \<open>\<^verbatim>\<open>_grn_pat_get\<close> and \<^verbatim>\<open>grn_pat_get\<close>; the place of the value is made when the caller asks for it.\<close>

definition pat_get :: "grn_pat \<Rightarrow> byte list \<Rightarrow> grn_id" where
  "pat_get pat key = pat_get_loop pat key (- 1) (id_at pat root_location)"

definition pat_get_value :: "pat_env \<Rightarrow> grn_pat \<Rightarrow> byte list \<Rightarrow> bool \<Rightarrow> grn_pat \<times> grn_id" where
  "pat_get_value env pat key value =
     (let r = pat_get pat key in (if r \<noteq> GRN_ID_NIL \<and> value then fst (sis_get env pat r) else pat, r))"

definition grn_pat_get :: "pat_env \<Rightarrow> byte list \<Rightarrow> grn_pat \<Rightarrow> byte list \<Rightarrow> bool \<Rightarrow> grn_pat \<times> grn_id" where
  "grn_pat_get env junk pat key value =
     (if grn_pat_error_if_truncated pat \<noteq> GRN_SUCCESS then (pat, GRN_ID_NIL)
      else pat_get_value env pat (KEY_ENCODE junk pat key) value)"

definition grn_pat_nextid :: "grn_pat \<Rightarrow> byte list \<Rightarrow> grn_id" where
  "grn_pat_nextid pat key =
     (if grn_pat_error_if_truncated pat \<noteq> GRN_SUCCESS then GRN_ID_NIL
      else
        let r = p_garbages pat (pat_key_storage_size pat (length key))
        in if r = GRN_ID_NIL then p_curr_rec pat + 1 else r)"

text \<open>\<^verbatim>\<open>_grn_pat_key\<close>: the stored key of a node, whether or not it belongs to a record.\<close>

definition pat_key :: "grn_pat \<Rightarrow> grn_id \<Rightarrow> byte list option" where
  "pat_key pat rid =
     (if grn_pat_error_if_truncated pat \<noteq> GRN_SUCCESS \<or> rid = GRN_ID_NIL \<or> PAT_AT pat rid = None then None
      else pat_node_get_key pat rid)"

definition grn_pat_get_key :: "byte list \<Rightarrow> grn_pat \<Rightarrow> grn_id \<Rightarrow> byte list option" where
  "grn_pat_get_key junk pat rid =
     map_option (\<lambda>key. if KEY_NEEDS_CONVERT pat (length key) then KEY_DEC junk pat key else key) (pat_key pat rid)"

definition grn_pat_at :: "grn_pat \<Rightarrow> grn_id \<Rightarrow> grn_id" where
  "grn_pat_at pat rid =
     (case pat_key pat rid of None \<Rightarrow> GRN_ID_NIL | Some key \<Rightarrow> if rid = pat_get pat key then rid else GRN_ID_NIL)"

function grn_pat_next :: "pat_env \<Rightarrow> byte list \<Rightarrow> grn_pat \<Rightarrow> grn_id \<Rightarrow> grn_id" where
  "grn_pat_next env junk pat rid =
     (if grn_pat_error_if_truncated pat \<noteq> GRN_SUCCESS \<or> unat (p_curr_rec pat) \<le> unat rid then GRN_ID_NIL
      else
        let rid = rid + 1; key = (case pat_key pat rid of None \<Rightarrow> [] | Some key \<Rightarrow> key)
        in if rid = snd (grn_pat_get env junk pat key False) then rid else grn_pat_next env junk pat rid)"
  by pat_completeness auto
termination
proof (relation "measure (\<lambda>(env, junk, pat, rid). unat (p_curr_rec pat) - unat rid)")
  fix pat :: grn_pat and rid x :: grn_id and env :: pat_env and junk :: "byte list"
  assume *: "\<not> (grn_pat_error_if_truncated pat \<noteq> GRN_SUCCESS \<or> unat (p_curr_rec pat) \<le> unat rid)" and x: "x = rid + 1"
  have "unat rid < unat (p_curr_rec pat)" using * by simp
  then have "unat rid < 4294967295" using unat_lt_2p32 [of "p_curr_rec pat"] by linarith
  then have "unat (rid + 1) = Suc (unat rid)" by (intro unat_Suc_no_wrap) simp
  with * x show "((env, junk, pat, x), env, junk, pat, rid) \<in> measure (\<lambda>(env, junk, pat, rid). unat (p_curr_rec pat) - unat rid)"
    by auto
qed simp

declare grn_pat_next.simps [simp del]

section \<open>Values\<close>

definition grn_pat_get_value :: "grn_pat \<Rightarrow> grn_id \<Rightarrow> byte list option" where
  "grn_pat_get_value pat rid =
     (if grn_pat_error_if_truncated pat \<noteq> GRN_SUCCESS \<or> p_value_size pat = 0 \<or> \<not> sis_at pat rid then None
      else Some (p_values pat rid))"

definition grn_pat_set_value :: "pat_env \<Rightarrow> grn_pat \<Rightarrow> grn_id \<Rightarrow> byte list \<Rightarrow> u32 \<Rightarrow> grn_pat \<times> grn_rc" where
  "grn_pat_set_value env pat rid value flags =
     (if grn_pat_error_if_truncated pat \<noteq> GRN_SUCCESS then (pat, GRN_FILE_CORRUPT)
      else if p_value_size pat = 0 then (pat, GRN_INVALID_ARGUMENT)
      else
        case sis_get env pat rid of
          (pat, False) \<Rightarrow> (pat, GRN_NO_MEMORY_AVAILABLE)
        | (pat, True) \<Rightarrow>
            (case set_value_bytes (set_flag_of flags) (p_value_size pat) (p_values pat rid) value of
               None \<Rightarrow> (pat, GRN_INVALID_ARGUMENT)
             | Some v \<Rightarrow> (pat\<lparr>p_values := (p_values pat)(rid := v)\<rparr>, GRN_SUCCESS)))"

section \<open>Pending deletions\<close>

definition update_delinfo :: "nat \<Rightarrow> (grn_pat_delinfo \<Rightarrow> grn_pat_delinfo) \<Rightarrow> grn_pat \<Rightarrow> grn_pat" where
  "update_delinfo i f pat = pat\<lparr>p_delinfos := set_at (p_delinfos pat) i (f (p_delinfos pat i))\<rparr>"

text \<open>The indexes from \<^verbatim>\<open>curr_del2\<close> up to \<^verbatim>\<open>curr_del\<close>, around the ring.\<close>

definition delinfo_window :: "grn_pat \<Rightarrow> nat list" where
  "delinfo_window pat =
     map (\<lambda>k. (p_curr_del2 pat + k) mod GRN_PAT_NDELINFOS)
       [0..<(p_curr_del pat + GRN_PAT_NDELINFOS - p_curr_del2 pat) mod GRN_PAT_NDELINFOS]"

definition delinfo_search :: "grn_pat \<Rightarrow> grn_id \<Rightarrow> nat option" where
  "delinfo_search pat rid =
     find (\<lambda>i. di_stat (p_delinfos pat i) = DL_PHASE1 \<and> (di_ld (p_delinfos pat i) = rid \<or> di_d (p_delinfos pat i) = rid))
       (delinfo_window pat)"

text \<open>The search for the link to an inner node by the key it has.\<close>

function turn_2_find :: "grn_pat \<Rightarrow> byte list \<Rightarrow> grn_id \<Rightarrow> int \<Rightarrow> id_location \<Rightarrow> grn_rc + id_location option" where
  "turn_2_find pat key d c0 p0 =
     (let r = id_at pat p0; check_max = PAT_CHECK_PACK (int (length key)) 0 False
      in if r = GRN_ID_NIL then Inr None
         else if r = d then Inr (Some p0)
         else
           case PAT_AT pat r of
             None \<Rightarrow> Inl GRN_FILE_CORRUPT
           | Some rn \<Rightarrow>
               let c = pat_node_get_check rn
               in if c \<le> c0 \<or> check_max \<le> c then Inr None
                  else turn_2_find pat key d c (grn_pat_next_location r key c check_max))"
  by pat_completeness auto
termination
  by (relation "measure (\<lambda>(pat, key, d, c0, p0). nat (PAT_CHECK_PACK (int (length key)) 0 False - c0))") auto

declare turn_2_find.simps [simp del]

definition delinfo_turn_2_internal :: "grn_pat \<Rightarrow> nat \<Rightarrow> grn_id \<Rightarrow> grn_id \<Rightarrow> grn_pat \<times> grn_rc" where
  "delinfo_turn_2_internal pat di ld d =
     (let pat = update_node d pat_node_set_deleting_off (update_node ld pat_node_set_deleting_off pat)
      in case pat_node_get_key pat d of
           None \<Rightarrow> (pat, GRN_INVALID_ARGUMENT)
         | Some key \<Rightarrow>
             (case turn_2_find pat key d (- 1) root_location of
                Inl rc \<Rightarrow> (pat, rc)
              | Inr p \<Rightarrow>
                  let pat = (case p of
                               None \<Rightarrow> pat
                             | Some p \<Rightarrow>
                                 let dn = p_nodes pat d;
                                     pat = update_node ld (pat_node_set_child DIRECTION_LEFT (pn_left dn) \<circ>
                                                           pat_node_set_child DIRECTION_RIGHT (pn_right dn) \<circ>
                                                           pat_node_set_check (pat_node_get_check dn)) pat
                                 in set_id_at p ld pat)
                  in (update_delinfo di (\<lambda>di. di\<lparr>di_stat := DL_PHASE2, di_d := d\<rparr>) pat, GRN_SUCCESS)))"

definition delinfo_turn_2 :: "grn_pat \<Rightarrow> nat \<Rightarrow> grn_pat \<times> grn_rc" where
  "delinfo_turn_2 pat di_index =
     (let di = p_delinfos pat di_index
      in if di_stat di \<noteq> DL_PHASE1 then (pat, GRN_SUCCESS)
         else if PAT_AT pat (di_ld di) = None then (pat, GRN_INVALID_ARGUMENT)
         else if di_d di = GRN_ID_NIL then (pat, GRN_INVALID_ARGUMENT)
         else if PAT_AT pat (di_d di) = None then (pat, GRN_INVALID_ARGUMENT)
         else delinfo_turn_2_internal pat di_index (di_ld di) (di_d di))"

definition delinfo_turn_2_post :: "grn_pat \<Rightarrow> grn_pat" where
  "delinfo_turn_2_post pat = pat\<lparr>p_curr_del2 := (p_curr_del2 pat + 1) mod GRN_PAT_NDELINFOS\<rparr>"

fun delinfo_turns_2 :: "nat \<Rightarrow> grn_pat \<Rightarrow> grn_pat" where
  "delinfo_turns_2 0 pat = pat"
| "delinfo_turns_2 (Suc gap) pat =
     delinfo_turns_2 gap (delinfo_turn_2_post (fst (delinfo_turn_2 pat (p_curr_del2 pat))))"

definition delinfo_compute_storage_size :: "grn_pat_delinfo \<Rightarrow> pat_node \<Rightarrow> nat" where
  "delinfo_compute_storage_size di dn =
     (if di_shared di then 0 else if pat_node_is_key_immediate dn then 0 else pat_node_get_key_length dn)"

definition delinfo_turn_3_internal :: "grn_pat \<Rightarrow> nat \<Rightarrow> grn_pat" where
  "delinfo_turn_3_internal pat di_index =
     (let di = p_delinfos pat di_index; d = di_d di;
          pat = (if di_shared di then update_node d pat_node_set_key_immediate_on pat else pat);
          pat = update_delinfo di_index (\<lambda>di. di\<lparr>di_stat := DL_EMPTY\<rparr>) pat;
          size = delinfo_compute_storage_size (p_delinfos pat di_index) (p_nodes pat d);
          pat = update_node d (pat_node_set_child DIRECTION_LEFT (p_garbages pat size)) pat
      in pat\<lparr>p_garbages := set_at (p_garbages pat) size d\<rparr>)"

definition delinfo_turn_3 :: "grn_pat \<Rightarrow> nat \<Rightarrow> grn_pat \<times> grn_rc" where
  "delinfo_turn_3 pat di_index =
     (let di = p_delinfos pat di_index
      in if di_stat di \<noteq> DL_PHASE2 then (pat, GRN_SUCCESS)
         else if PAT_AT pat (di_d di) = None then (pat, GRN_INVALID_ARGUMENT)
         else (delinfo_turn_3_internal pat di_index, GRN_SUCCESS))"

definition delinfo_turn_3_post :: "grn_pat \<Rightarrow> grn_pat" where
  "delinfo_turn_3_post pat = pat\<lparr>p_curr_del3 := (p_curr_del3 pat + 1) mod GRN_PAT_NDELINFOS\<rparr>"

definition delinfo_new :: "grn_pat \<Rightarrow> bool \<Rightarrow> grn_pat \<times> nat" where
  "delinfo_new pat shared =
     (let di = p_curr_del pat;
          next = (p_curr_del pat + 1) mod GRN_PAT_NDELINFOS;
          pat = update_delinfo di (\<lambda>di. di\<lparr>di_shared := shared\<rparr>) pat;
          gap = int ((next + GRN_PAT_NDELINFOS - p_curr_del2 pat) mod GRN_PAT_NDELINFOS) - int (GRN_PAT_NDELINFOS div 2);
          pat = delinfo_turns_2 (nat gap) pat;
          pat = (if next = p_curr_del3 pat
                 then delinfo_turn_3_post (fst (delinfo_turn_3 pat (p_curr_del3 pat))) else pat)
      in (pat\<lparr>p_curr_del := next\<rparr>, di))"

section \<open>Deletion\<close>

text \<open>
  What the search for the key to delete finds: the record, the node before it on the path, the links to both, and the checks of
  the node before and of the one before that.
\<close>

record del_place =
  dp_id :: grn_id
  dp_id0 :: grn_id
  dp_p :: id_location
  dp_p0 :: id_location
  dp_check :: int
  dp_check0 :: int

function del_find_loop ::
    "grn_pat \<Rightarrow> byte list \<Rightarrow> grn_id \<Rightarrow> id_location \<Rightarrow> id_location \<Rightarrow> int \<Rightarrow> int \<Rightarrow> grn_rc + del_place" where
  "del_find_loop pat key id0 p0 p node_check node_previous_check =
     (let check_max = PAT_CHECK_PACK (int (length key)) 0 False; rid = id_at pat p
      in if rid = GRN_ID_NIL then Inl GRN_INVALID_ARGUMENT
         else
           case PAT_AT pat rid of
             None \<Rightarrow> Inl GRN_FILE_CORRUPT
           | Some node \<Rightarrow>
               let check = pat_node_get_check node
               in if check_max \<le> check then Inl GRN_INVALID_ARGUMENT
                  else if check \<le> node_check then
                    if pat_node_get_key pat rid \<noteq> Some key then Inl GRN_INVALID_ARGUMENT
                    else Inr \<lparr>dp_id = rid, dp_id0 = id0, dp_p = p, dp_p0 = p0, dp_check = node_check,
                              dp_check0 = node_previous_check\<rparr>
                  else
                    del_find_loop pat key rid p (grn_pat_next_location rid key check check_max) check node_check)"
  by pat_completeness auto
termination
  by (relation "measure (\<lambda>(pat, key, id0, p0, p, node_check, cp). nat (PAT_CHECK_PACK (int (length key)) 0 False - node_check))")
    auto

declare del_find_loop.simps [simp del]

text \<open>
  The two corrections of the other side of a node that is taken out: a record keeps being one when its check is set to zero, and
  as the first node of the tree it gets a link to itself.
\<close>

definition fix_first_node :: "grn_id \<Rightarrow> grn_pat \<Rightarrow> grn_pat" where
  "fix_first_node otherside pat =
     (let b = (case pat_node_get_key pat otherside of None \<Rightarrow> True | Some k \<Rightarrow> drop_bit 7 (k ! 0) = 1)
      in update_node otherside (pat_node_set_child (direction (\<not> b)) GRN_ID_NIL \<circ> pat_node_set_child (direction b) otherside) pat)"

definition fix_otherside :: "grn_id \<Rightarrow> int \<Rightarrow> int \<Rightarrow> bool \<Rightarrow> grn_pat \<Rightarrow> grn_pat" where
  "fix_otherside otherside check0 check is_root pat =
     (if otherside \<noteq> GRN_ID_NIL then
        let c = pat_node_get_check (p_nodes pat otherside);
            pat = (if check0 < c \<and> c \<le> check then update_node otherside (pat_node_set_check 0) pat else pat)
        in if is_root \<and> pat_node_get_check (p_nodes pat otherside) = 0 then fix_first_node otherside pat else pat
      else pat)"

definition set_delinfo_phase2 :: "nat \<Rightarrow> grn_id \<Rightarrow> grn_pat \<Rightarrow> grn_pat" where
  "set_delinfo_phase2 di rid = update_delinfo di (\<lambda>di. di\<lparr>di_stat := DL_PHASE2, di_d := rid\<rparr>)"

text \<open>
  The records of pending deletions when the record \<open>rid\<close> is taken out together with the node \<open>id0\<close> before it.
\<close>

definition del_pending :: "nat \<Rightarrow> grn_id \<Rightarrow> grn_id \<Rightarrow> grn_pat \<Rightarrow> grn_pat" where
  "del_pending di rid id0 pat =
     (let ldi = (if pat_node_is_deleting (p_nodes pat rid) then delinfo_search pat rid else None);
          ddi = (if pat_node_is_deleting (p_nodes pat id0) then delinfo_search pat id0 else None)
      in case ldi of
           Some ldi \<Rightarrow>
             let pat = update_node rid pat_node_set_deleting_off pat;
                 pat = update_delinfo di (\<lambda>di. di\<lparr>di_stat := DL_PHASE2\<rparr>) pat
             in (case ddi of
                   Some ddi \<Rightarrow>
                     let pat = update_node id0 pat_node_set_deleting_off pat;
                         pat = update_delinfo ddi (\<lambda>di. di\<lparr>di_stat := DL_PHASE2\<rparr>) pat;
                         pat = (if ddi = ldi then pat
                                else update_delinfo ldi (\<lambda>l. l\<lparr>di_ld := di_ld (p_delinfos pat ddi)\<rparr>) pat)
                     in update_delinfo di (\<lambda>di. di\<lparr>di_d := rid\<rparr>) pat
                 | None \<Rightarrow>
                     let pat = update_node id0 pat_node_set_deleting_on pat;
                         pat = update_delinfo ldi (\<lambda>l. l\<lparr>di_ld := id0\<rparr>) pat
                     in update_delinfo di (\<lambda>di. di\<lparr>di_d := rid\<rparr>) pat)
         | None \<Rightarrow>
             let pat = update_node rid pat_node_set_deleting_on pat
             in (case ddi of
                   Some ddi \<Rightarrow>
                     let pat = update_node id0 pat_node_set_deleting_off pat;
                         pat = update_delinfo ddi (\<lambda>di. di\<lparr>di_stat := DL_PHASE2\<rparr>) pat;
                         ld = di_ld (p_delinfos pat ddi)
                     in update_delinfo di (\<lambda>di. di\<lparr>di_stat := DL_PHASE1, di_ld := ld, di_d := rid\<rparr>) pat
                 | None \<Rightarrow>
                     let pat = update_node id0 pat_node_set_deleting_on pat
                     in update_delinfo di (\<lambda>di. di\<lparr>di_stat := DL_PHASE1, di_ld := id0, di_d := rid\<rparr>) pat))"

text \<open>
  \<^verbatim>\<open>check0\<close> is a \<^verbatim>\<open>uint16_t\<close>: -1 becomes 65535.
\<close>

definition grn_pat_del_internal :: "nat \<Rightarrow> del_place \<Rightarrow> grn_id \<Rightarrow> grn_pat \<Rightarrow> grn_pat" where
  "grn_pat_del_internal di dp otherside pat =
     (let rid = dp_id dp; node = p_nodes pat rid; is_root = (dp_p0 dp = root_location);
          check = uint (word_of_int (dp_check dp) :: u16); check0 = uint (word_of_int (dp_check0 dp) :: u16);
          pat = (if rid = dp_id0 dp then
                   let pat = set_delinfo_phase2 di rid pat;
                       pat = fix_otherside otherside check0 check is_root pat
                   in set_id_at (dp_p0 dp) otherside pat
                 else if (pn_left node = GRN_ID_NIL \<and> pn_right node = rid) \<or> (pn_right node = GRN_ID_NIL \<and> pn_left node = rid) then
                   set_id_at (dp_p dp) GRN_ID_NIL (set_delinfo_phase2 di rid pat)
                 else
                   let pat = del_pending di rid (dp_id0 dp) pat
                   in if dp_id0 dp = otherside then
                        let pat = update_node otherside (pat_node_set_check 0) pat
                        in if is_root then fix_first_node otherside pat else pat
                      else set_id_at (dp_p0 dp) otherside (fix_otherside otherside check0 check is_root pat))
      in pat\<lparr>p_n_garbages := p_n_garbages pat + 1, p_n_entries := p_n_entries pat - 1\<rparr>)"

text \<open>\<^verbatim>\<open>_grn_pat_del\<close>; \<open>func\<close> is the callback of \<^verbatim>\<open>optarg\<close>, which may refuse the deletion.\<close>

definition pat_del ::
    "grn_pat \<Rightarrow> byte list \<Rightarrow> bool \<Rightarrow> (grn_id \<Rightarrow> bool) option \<Rightarrow> grn_pat \<times> grn_rc" where
  "pat_del pat key shared func =
     (case delinfo_new pat shared of
        (pat, di) \<Rightarrow>
          (case del_find_loop pat key GRN_ID_NIL root_location root_location (- 1) (- 1) of
             Inl rc \<Rightarrow> (pat, rc)
           | Inr dp \<Rightarrow>
               if (case func of None \<Rightarrow> False | Some f \<Rightarrow> \<not> f (dp_id dp)) then (pat, GRN_SUCCESS)
               else
                 let previous = p_nodes pat (dp_id0 dp);
                     otherside = (if pn_right previous = dp_id dp then pn_left previous else pn_right previous)
                 in if pn_left previous = pn_right previous then (pat, GRN_FILE_CORRUPT)
                    else if otherside \<noteq> GRN_ID_NIL \<and> PAT_AT pat otherside = None then (pat, GRN_FILE_CORRUPT)
                    else (grn_pat_del_internal di dp otherside (set_cache key GRN_ID_NIL pat), GRN_SUCCESS)))"

end
