(* ===== verification/PatBits.thy ===== *)
theory PatBits
  imports Pat
begin

text \<open>
  Keys as sequences of bits.  A key of \<open>n\<close> bytes has the positions below \<open>16 * n\<close>; at an even one it has the bit of that check, and at
  an odd one it says whether it goes on.  Two different keys differ at the position that the code computes, and nowhere before.
\<close>

definition klen :: "byte list \<Rightarrow> int" where
  "klen key = int (length key) * 16"

definition kbit :: "byte list \<Rightarrow> int \<Rightarrow> bool" where
  "kbit key c = next_direction key c (klen key)"

lemma klen_pos: "key \<noteq> [] \<Longrightarrow> 16 \<le> klen key"
  by (cases key) (auto simp: klen_def)

lemma klen_nonneg [simp]: "0 \<le> klen key"
  by (simp add: klen_def)

lemma check_max_klen [simp]: "PAT_CHECK_PACK (int (length key)) 0 False = klen key"
  by (simp add: PAT_CHECK_PACK_def klen_def)

lemma next_direction_kbit [simp]: "next_direction key c (klen key) = kbit key c"
  by (simp add: kbit_def)

lemma kbit_odd: "c mod 2 = 1 \<Longrightarrow> kbit key c \<longleftrightarrow> c + 1 < klen key"
  by (simp add: kbit_def next_direction_def PAT_CHECK_IS_TERMINATED_def)

lemma kbit_even:
  assumes "c mod 2 = 0"
  shows "kbit key c \<longleftrightarrow> bit (key ! nat (c div 16)) (7 - nat (c div 2 mod 8))"
  using assms
  by (simp add: kbit_def next_direction_def PAT_CHECK_IS_TERMINATED_def nth_bit_def PAT_CHECK_BIT_DIFFERENCES_def
      PAT_CHECK_BYTE_DIFFERENCES_def and_one_eq odd_iff_mod_2_eq_one bit_iff_odd_drop_bit del: One_nat_def)

section \<open>The first difference\<close>

lemma byte_differences_le: "byte_differences a b \<le> length a" "byte_differences a b \<le> length b"
  by (induction a b rule: byte_differences.induct) auto

lemma byte_differences_nth: "i < byte_differences a b \<Longrightarrow> a ! i = b ! i"
proof (induction a b arbitrary: i rule: byte_differences.induct)
  case (1 k1 key k2 found)
  then show ?case by (cases i) (auto split: if_splits)
qed auto

lemma byte_differences_diff:
  "byte_differences a b < length a \<Longrightarrow> byte_differences a b < length b \<Longrightarrow>
     a ! byte_differences a b \<noteq> b ! byte_differences a b"
  by (induction a b rule: byte_differences.induct) auto

lemma bit_differences_props:
  assumes "\<exists>j. i \<le> j \<and> j < 8 \<and> bit x (7 - j)" and "i < 8"
  shows "i \<le> bit_differences x i \<and> bit_differences x i < 8 \<and> bit x (7 - bit_differences x i) \<and>
    (\<forall>j. i \<le> j \<and> j < bit_differences x i \<longrightarrow> \<not> bit x (7 - j))"
  using assms
proof (induction x i rule: bit_differences.induct)
  case (1 x i)
  show ?case
  proof (cases "\<not> bit x (7 - i) \<and> i < 7")
    case True
    from 1(2) obtain j where j: "i \<le> j" "j < 8" "bit x (7 - j)" by blast
    with True have "i \<noteq> j" by auto
    with j have "\<exists>j. i + 1 \<le> j \<and> j < 8 \<and> bit x (7 - j)" by (intro exI [of _ j]) auto
    from 1(1) [OF True this] True
    have ih: "i + 1 \<le> bit_differences x (i + 1)" "bit_differences x (i + 1) < 8" "bit x (7 - bit_differences x (i + 1))"
      "\<And>j. i + 1 \<le> j \<Longrightarrow> j < bit_differences x (i + 1) \<Longrightarrow> \<not> bit x (7 - j)" by auto
    have eq: "bit_differences x i = bit_differences x (i + 1)" using True by (subst bit_differences.simps) simp
    show ?thesis unfolding eq
      using ih True by (metis Suc_eq_plus1 Suc_leI Suc_leD le_neq_implies_less)
  next
    case False
    from 1(2) obtain j where j: "i \<le> j" "j < 8" "bit x (7 - j)" by blast
    have "bit_differences x i = i" using False by (subst bit_differences.simps) auto
    moreover have "bit x (7 - i)" using False j 1(3) by (cases "i < 7") (auto simp: less_Suc_eq)
    ultimately show ?thesis using 1(3) by auto
  qed
qed

lemma byte_bits_differ:
  assumes "(a :: byte) \<noteq> b"
  shows "\<exists>j. 0 \<le> j \<and> j < 8 \<and> bit (a XOR b) (7 - j)"
proof -
  obtain n where n: "n < LENGTH(8)" "bit a n \<noteq> bit b n" using assms bit_word_eqI by blast
  then show ?thesis by (intro exI [of _ "7 - n"]) (auto simp: bit_xor_iff)
qed

text \<open>What the position of the first difference means.\<close>

definition agree_below :: "int \<Rightarrow> byte list \<Rightarrow> byte list \<Rightarrow> bool" where
  "agree_below c a b \<longleftrightarrow> (\<forall>j. 0 \<le> j \<longrightarrow> j < c \<longrightarrow> kbit a j = kbit b j)"

lemma agree_below_sym: "agree_below c a b \<Longrightarrow> agree_below c b a"
  by (simp add: agree_below_def)

lemma agree_below_trans: "agree_below c a b \<Longrightarrow> agree_below c b d \<Longrightarrow> agree_below c a d"
  by (simp add: agree_below_def)

lemma agree_below_mono: "agree_below c a b \<Longrightarrow> c' \<le> c \<Longrightarrow> agree_below c' a b"
  by (simp add: agree_below_def)

lemma agree_belowD: "agree_below c a b \<Longrightarrow> 0 \<le> j \<Longrightarrow> j < c \<Longrightarrow> kbit a j = kbit b j"
  by (simp add: agree_below_def)

lemma agree_below_bytes:
  assumes "\<And>j. 0 \<le> j \<Longrightarrow> j < c \<Longrightarrow> j mod 2 = 0 \<Longrightarrow>
      bit (a ! nat (j div 16)) (7 - nat (j div 2 mod 8)) = bit (b ! nat (j div 16)) (7 - nat (j div 2 mod 8))"
    and "c < klen a" and "c < klen b"
  shows "agree_below c a b"
  unfolding agree_below_def
proof (intro allI impI)
  fix j :: int assume j: "0 \<le> j" "j < c"
  consider "j mod 2 = 0" | "j mod 2 = 1" by linarith
  then show "kbit a j = kbit b j"
    using assms j by cases (auto simp: kbit_odd kbit_even)
qed

lemma check_byte_below: "j < n * 16 \<Longrightarrow> 0 \<le> j \<Longrightarrow> nat (j div 16) < nat (n :: int)"
  by linarith

lemma check_fields:
  assumes "0 \<le> i" and "i < 16"
  shows "(n * 16 + i) div (16 :: int) = n" and "(n * 16 + i) div 2 mod 8 = i div 2"
proof -
  have "(i + (n * 8) * 2) div 2 = n * 8 + i div 2" by (subst div_mult_self1) simp_all
  moreover have "n * 16 + i = i + (n * 8) * 2" by simp
  ultimately have "(n * 16 + i) div 2 = n * 8 + i div 2" by (simp only:)
  then show "(n * 16 + i) div 2 mod 8 = i div 2" using assms by simp
  show "(n * 16 + i) div 16 = n" using assms by simp
qed

lemma check_of_difference_bit:
  assumes "a \<noteq> b" and "a \<noteq> []" and "b \<noteq> []" and c: "c = check_of_difference a b"
  shows "0 \<le> c \<and> c < klen a \<and> c < klen b \<and> kbit a c \<noteq> kbit b c \<and> agree_below c a b"
proof -
  let ?n = "byte_differences a b"
  note le = byte_differences_le [of a b] and nth = byte_differences_nth [of _ a b]
  show ?thesis
  proof (cases "?n = min (length a) (length b)")
    case True
    have cn: "c = int ?n * 16 - 1" using True c by (simp add: check_of_difference_def Let_def PAT_CHECK_PACK_def)
    have n: "0 < ?n" using assms(2,3) True by (cases a; cases b) auto
    have len: "length a \<noteq> length b"
    proof
      assume "length a = length b"
      with True nth have "a = b" by (intro nth_equalityI) auto
      with assms(1) show False by simp
    qed
    have lt: "c < klen a" "c < klen b" using le cn by (auto simp: klen_def)
    have odd: "c mod 2 = 1" unfolding cn by presburger
    have "agree_below c a b"
    proof (rule agree_below_bytes [OF _ lt])
      fix j :: int assume "0 \<le> j" "j < c"
      then have "nat (j div 16) < ?n" using check_byte_below [of j "int ?n"] cn by simp
      then show "bit (a ! nat (j div 16)) (7 - nat (j div 2 mod 8)) = bit (b ! nat (j div 16)) (7 - nat (j div 2 mod 8))"
        by (simp add: nth)
    qed
    moreover have "kbit a c \<noteq> kbit b c"
      using odd len True cn by (auto simp: kbit_odd klen_def min_def split: if_splits)
    ultimately show ?thesis using lt n cn by auto
  next
    case False
    let ?b = "bit_differences (a ! ?n XOR b ! ?n) 0"
    have lt: "?n < length a" "?n < length b" using False le by (auto simp: min_def split: if_splits)
    have "a ! ?n \<noteq> b ! ?n" by (rule byte_differences_diff [OF lt])
    from bit_differences_props [of 0, OF byte_bits_differ [OF this]]
    have b: "?b < 8" "bit (a ! ?n) (7 - ?b) \<noteq> bit (b ! ?n) (7 - ?b)"
      and below: "\<And>j. j < ?b \<Longrightarrow> bit (a ! ?n) (7 - j) = bit (b ! ?n) (7 - j)"
      by (auto simp: bit_xor_iff)
    have cn: "c = int ?n * 16 + int ?b * 2" using False c by (simp add: check_of_difference_def Let_def PAT_CHECK_PACK_def)
    have byte: "c div 16 = int ?n" and bits: "c div 2 mod 8 = int ?b" and even: "c mod 2 = 0"
      unfolding cn using check_fields [of "int ?b * 2" "int ?n"] b(1) by simp_all
    have ltc: "c < klen a" "c < klen b" using lt b(1) cn by (auto simp: klen_def)
    have "agree_below c a b"
    proof (rule agree_below_bytes [OF _ ltc])
      fix j :: int assume j: "0 \<le> j" "j < c"
      show "bit (a ! nat (j div 16)) (7 - nat (j div 2 mod 8)) = bit (b ! nat (j div 16)) (7 - nat (j div 2 mod 8))"
      proof (cases "j < int ?n * 16")
        case True
        then have "nat (j div 16) < ?n" using check_byte_below [of j "int ?n"] j by simp
        then show ?thesis by (simp add: nth)
      next
        case False
        define i where "i = j - int ?n * 16"
        have i: "0 \<le> i" "i < int ?b * 2" "j = int ?n * 16 + i" using False j cn by (auto simp: i_def)
        then have "j div 16 = int ?n" "j div 2 mod 8 = i div 2" using check_fields [of i "int ?n"] b(1) by simp_all
        moreover have "nat (i div 2) < ?b" using i by linarith
        ultimately show ?thesis by (simp add: below)
      qed
    qed
    moreover have "kbit a c \<noteq> kbit b c" using b(2) by (simp add: kbit_even [OF even] byte bits)
    ultimately show ?thesis using ltc cn by auto
  qed
qed

lemma byte_differences_same [simp]: "byte_differences a a = length a"
  by (induction a) auto

lemma check_of_difference_same: "check_of_difference a a = klen a - 1"
  by (simp add: check_of_difference_def Let_def PAT_CHECK_PACK_def klen_def)

text \<open>A key is determined by its bits.\<close>

lemma agree_eq:
  assumes "agree_below (klen a) a b" and "a \<noteq> []" and "b \<noteq> []" and "klen a = klen b"
  shows "a = b"
  using check_of_difference_bit [of a b] assms agree_belowD by blast

end
