(* ===== verification/PatTree.thy ===== *)
theory PatTree
  imports PatBits
begin

text \<open>
  The tree that the links of a patricia trie form.  A link to a node whose check is larger than the one of the node it comes from is a
  subtree; any other link to a node is the record of that node.  \<open>tree_at\<close> says that the nodes represent a tree, and \<open>key_tree\<close> that
  the tree is ordered by the bits of the keys.  Lookup and insertion on trees are what the loops of the code compute.
\<close>

section \<open>Trees\<close>

datatype ptree = Empty | Record grn_id | Inner grn_id int ptree ptree

fun records :: "ptree \<Rightarrow> grn_id list" where
  "records Empty = []"
| "records (Record r) = [r]"
| "records (Inner i c l r) = records l @ records r"

fun inners :: "ptree \<Rightarrow> grn_id list" where
  "inners Empty = []"
| "inners (Record r) = []"
| "inners (Inner i c l r) = i # inners l @ inners r"

abbreviation members :: "ptree \<Rightarrow> grn_id set" where
  "members t \<equiv> set (records t) \<union> set (inners t)"

fun tree_at :: "(grn_id \<Rightarrow> pat_node) \<Rightarrow> int \<Rightarrow> grn_id \<Rightarrow> ptree \<Rightarrow> bool" where
  "tree_at N c rid Empty \<longleftrightarrow> rid = GRN_ID_NIL"
| "tree_at N c rid (Record r) \<longleftrightarrow> rid = r \<and> r \<noteq> GRN_ID_NIL \<and> pat_node_get_check (N r) \<le> c"
| "tree_at N c rid (Inner i k l r) \<longleftrightarrow>
     rid = i \<and> i \<noteq> GRN_ID_NIL \<and> pat_node_get_check (N i) = k \<and> c < k \<and>
     tree_at N k (pn_left (N i)) l \<and> tree_at N k (pn_right (N i)) r"

fun key_tree :: "(grn_id \<Rightarrow> byte list) \<Rightarrow> ptree \<Rightarrow> bool" where
  "key_tree K Empty \<longleftrightarrow> True"
| "key_tree K (Record r) \<longleftrightarrow> True"
| "key_tree K (Inner i c l r) \<longleftrightarrow>
     key_tree K l \<and> key_tree K r \<and>
     (\<forall>m \<in> members l. \<not> kbit (K m) c) \<and> (\<forall>m \<in> members r. kbit (K m) c) \<and>
     (\<forall>m \<in> members (Inner i c l r). c < klen (K m) \<and> agree_below c (K i) (K m))"

abbreviation child :: "byte list \<Rightarrow> int \<Rightarrow> ptree \<Rightarrow> ptree \<Rightarrow> ptree" where
  "child key c l r \<equiv> (if kbit key c then r else l)"

lemma tree_at_members_nonzero: "tree_at N c rid t \<Longrightarrow> 0 \<notin> members t"
  by (induction t arbitrary: c rid) auto

lemma tree_at_root: "tree_at N c rid t \<Longrightarrow> rid \<in> members t \<longleftrightarrow> rid \<noteq> 0"
  by (cases t) auto

lemma tree_at_Nil [simp]: "tree_at N c 0 t \<longleftrightarrow> t = Empty"
  by (cases t) auto

lemma tree_at_cong:
  assumes "tree_at N c rid t"
    and "\<And>i. i \<in> set (inners t) \<Longrightarrow> pn_left (N' i) = pn_left (N i) \<and> pn_right (N' i) = pn_right (N i)"
    and "\<And>m. m \<in> members t \<Longrightarrow> pn_check (N' m) = pn_check (N m)"
  shows "tree_at N' c rid t"
  using assms
proof (induction t arbitrary: c rid)
  case (Inner i k l r)
  have "tree_at N' k (pn_left (N i)) l" by (rule Inner.IH(1)) (use Inner.prems in auto)
  moreover have "tree_at N' k (pn_right (N i)) r" by (rule Inner.IH(2)) (use Inner.prems in auto)
  ultimately show ?case using Inner.prems by (simp add: pat_node_get_check_def)
qed (simp_all add: pat_node_get_check_def)

text \<open>A tree is determined by the nodes.\<close>

lemma tree_at_unique: "tree_at N c rid t \<Longrightarrow> tree_at N c rid t' \<Longrightarrow> t = t'"
proof (induction t arbitrary: c rid t')
  case Empty
  then show ?case by (cases t') auto
next
  case (Record r)
  then show ?case by (cases t') auto
next
  case (Inner i k l r)
  then show ?case by (cases t') auto
qed

lemma key_tree_cong: "key_tree K t \<Longrightarrow> (\<And>m. m \<in> members t \<Longrightarrow> K' m = K m) \<Longrightarrow> key_tree K' t"
  by (induction t) auto

lemma key_tree_member:
  assumes "key_tree K (Inner i c l r)"
  shows "m \<in> members (Inner i c l r) \<Longrightarrow> c < klen (K m)" and "m \<in> members l \<Longrightarrow> \<not> kbit (K m) c"
    and "m \<in> members r \<Longrightarrow> kbit (K m) c"
  using assms by (simp_all only: key_tree.simps(3)) blast+

lemma key_tree_agree:
  assumes "key_tree K (Inner i c l r)" and "m \<in> members (Inner i c l r)" and "m' \<in> members (Inner i c l r)"
  shows "agree_below c (K m) (K m')"
  using assms by (meson agree_below_sym agree_below_trans key_tree.simps(3))

section \<open>Lookup\<close>

fun tree_get :: "(grn_id \<Rightarrow> byte list) \<Rightarrow> byte list \<Rightarrow> ptree \<Rightarrow> grn_id" where
  "tree_get K key Empty = GRN_ID_NIL"
| "tree_get K key (Record r) = (if K r = key then r else GRN_ID_NIL)"
| "tree_get K key (Inner i c l r) = (if klen key \<le> c then GRN_ID_NIL else tree_get K key (child key c l r))"

lemma tree_get_sound: "tree_get K key t = r \<Longrightarrow> r \<noteq> 0 \<Longrightarrow> r \<in> set (records t) \<and> K r = key"
  by (induction t) (auto split: if_splits)

lemma tree_get_complete: "key_tree K t \<Longrightarrow> r \<in> set (records t) \<Longrightarrow> tree_get K (K r) t = r"
proof (induction t)
  case (Inner i c l q)
  have "r \<in> members (Inner i c l q)" using Inner.prems(2) by auto
  from key_tree_member(1) [OF Inner.prems(1) this] have "\<not> klen (K r) \<le> c" by simp
  moreover have "kbit (K r) c \<longleftrightarrow> r \<in> set (records q)"
    using Inner.prems key_tree_member(2,3) [OF Inner.prems(1)] by auto
  ultimately show ?case using Inner by (cases "r \<in> set (records q)") simp_all
qed auto

text \<open>No two records have the same key.\<close>

lemma key_tree_inj: "key_tree K t \<Longrightarrow> r \<in> set (records t) \<Longrightarrow> r' \<in> set (records t) \<Longrightarrow> K r = K r' \<Longrightarrow> r = r'"
  using tree_get_complete by metis

lemma tree_get_iff:
  assumes "key_tree K t" and "0 \<notin> members t"
  shows "tree_get K key t = r \<longleftrightarrow>
    (if r = 0 then \<forall>q \<in> set (records t). K q \<noteq> key else r \<in> set (records t) \<and> K r = key)"
  using assms tree_get_sound [of K key t] tree_get_complete [of K t]
  by (metis UnCI)

text \<open>The nodes and keys of all members can be read.\<close>

definition readable :: "grn_pat \<Rightarrow> (grn_id \<Rightarrow> byte list) \<Rightarrow> grn_id \<Rightarrow> bool" where
  "readable pat K m \<longleftrightarrow> PAT_AT pat m \<noteq> None \<and> pat_node_get_key pat m = Some (K m)"

lemma readableD:
  assumes "readable pat K m"
  shows "PAT_AT pat m = Some (p_nodes pat m)" and "pat_node_get_key pat m = Some (K m)"
  using assms by (auto simp: readable_def PAT_AT_def split: if_splits)

lemma id_at_next [simp]:
  "id_at pat (grn_pat_next_location rid key c (klen key)) =
     (if kbit key c then pn_right (p_nodes pat rid) else pn_left (p_nodes pat rid))"
  by (simp add: id_at_def grn_pat_next_location_def direction_def pat_node_get_child_def)

lemma tree_at_child:
  assumes "tree_at N c rid (Inner i k l r)"
  shows "tree_at N k (if kbit key k then pn_right (N i) else pn_left (N i)) (child key k l r)"
  using assms by simp

lemma pat_get_loop_tree:
  assumes "tree_at (p_nodes pat) c rid t" and "\<And>m. m \<in> members t \<Longrightarrow> readable pat K m" and "c < klen key"
  shows "pat_get_loop pat key c rid = tree_get K key t"
  using assms
proof (induction t arbitrary: c rid)
  case Empty
  then show ?case by (simp add: pat_get_loop.simps)
next
  case (Record r)
  then have "readable pat K r" by simp
  then show ?case using Record.prems by (subst pat_get_loop.simps) (auto simp: readableD Let_def klen_def)
next
  case (Inner i k l r)
  have i: "rid = i" "i \<noteq> 0" "pat_node_get_check (p_nodes pat i) = k" "c < k" using Inner.prems(1) by auto
  have rd: "readable pat K i" using Inner.prems(2) by simp
  note eq = pat_get_loop.simps [of pat key c i]
  show ?case
  proof (cases "klen key \<le> k")
    case True
    then show ?thesis using i rd by (simp add: eq readableD Let_def klen_def)
  next
    case False
    let ?s = "if kbit key k then pn_right (p_nodes pat i) else pn_left (p_nodes pat i)"
    have "pat_get_loop pat key c rid = pat_get_loop pat key k ?s"
      using False i rd unfolding i(1) by (subst eq) (simp add: readableD Let_def flip: klen_def)
    also have "\<dots> = tree_get K key (child key k l r)"
      using Inner.IH [of k] Inner.prems False by auto
    finally show ?thesis using False by simp
  qed
qed

end
