(* ===== verification/PatInsert.thy ===== *)
theory PatInsert
  imports PatTree
begin

text \<open>
  Insertion into the tree of a patricia trie.  \<open>tree_insert\<close> puts a new inner node with a check on the path of a key, in front of the
  first node with a larger check; \<open>tree_put\<close> puts a record where the path ends at an empty link.  The loops of the code find that
  link, and the check they compute keeps the tree ordered.
\<close>

section \<open>Insertion on trees\<close>

definition new_inner :: "grn_id \<Rightarrow> byte list \<Rightarrow> int \<Rightarrow> ptree \<Rightarrow> ptree" where
  "new_inner x key c t = (if kbit key c then Inner x c t (Record x) else Inner x c (Record x) t)"

fun tree_insert :: "grn_id \<Rightarrow> byte list \<Rightarrow> int \<Rightarrow> ptree \<Rightarrow> ptree" where
  "tree_insert x key c (Inner i k l r) =
     (if k < c then if kbit key k then Inner i k l (tree_insert x key c r) else Inner i k (tree_insert x key c l) r
      else new_inner x key c (Inner i k l r))"
| "tree_insert x key c t = new_inner x key c t"

fun tree_put :: "grn_id \<Rightarrow> byte list \<Rightarrow> ptree \<Rightarrow> ptree" where
  "tree_put x key (Inner i k l r) = (if kbit key k then Inner i k l (tree_put x key r) else Inner i k (tree_put x key l) r)"
| "tree_put x key t = Record x"

text \<open>The link where a new node goes, and the part of the tree that will be below it.\<close>

fun insert_location :: "byte list \<Rightarrow> int \<Rightarrow> id_location \<Rightarrow> ptree \<Rightarrow> id_location" where
  "insert_location key c loc (Inner i k l r) =
     (if k < c then insert_location key c (i, direction (kbit key k)) (child key k l r) else loc)"
| "insert_location key c loc t = loc"

fun below :: "byte list \<Rightarrow> int \<Rightarrow> ptree \<Rightarrow> ptree" where
  "below key c (Inner i k l r) = (if k < c then below key c (child key k l r) else Inner i k l r)"
| "below key c t = t"

text \<open>What makes an insertion right: the key agrees with every subtree it passes, and differs at its check from all that is below.\<close>

fun fits :: "(grn_id \<Rightarrow> byte list) \<Rightarrow> byte list \<Rightarrow> int \<Rightarrow> ptree \<Rightarrow> bool" where
  "fits K key c (Inner i k l r) \<longleftrightarrow>
     (if k < c then agree_below k (K i) key \<and> fits K key c (child key k l r)
      else c < k \<and> kbit (K i) c \<noteq> kbit key c \<and> agree_below c (K i) key)"
| "fits K key c (Record r) \<longleftrightarrow> c < klen (K r) \<and> kbit (K r) c \<noteq> kbit key c \<and> agree_below c (K r) key"
| "fits K key c Empty \<longleftrightarrow> True"

lemma records_insert [simp]: "set (records (tree_insert x key c t)) = insert x (set (records t))"
  by (induction t) (auto simp: new_inner_def)

lemma inners_insert [simp]: "set (inners (tree_insert x key c t)) = insert x (set (inners t))"
  by (induction t) (auto simp: new_inner_def)

lemma members_insert: "members (tree_insert x key c t) = insert x (members t)"
  by auto

lemma key_tree_new_inner:
  assumes "key_tree K t" and "K x = key" and "c < klen key"
    and "\<And>m. m \<in> members t \<Longrightarrow> c < klen (K m) \<and> kbit (K m) c \<noteq> kbit key c \<and> agree_below c key (K m)"
  shows "key_tree K (new_inner x key c t)"
  using assms by (auto simp: new_inner_def agree_below_def)

lemma fits_below:
  assumes "key_tree K (Inner i k l r)" and "c < k" and "0 \<le> c" and "kbit (K i) c \<noteq> kbit key c" and "agree_below c (K i) key"
    and "m \<in> members (Inner i k l r)"
  shows "c < klen (K m) \<and> kbit (K m) c \<noteq> kbit key c \<and> agree_below c key (K m)"
proof -
  have a: "agree_below k (K i) (K m)" using key_tree_agree [OF assms(1) _ assms(6), of i] by simp
  then have "kbit (K m) c = kbit (K i) c" using assms(2,3) by (auto dest: agree_belowD)
  moreover have "agree_below c key (K m)"
    using agree_below_trans [OF agree_below_sym [OF assms(5)] agree_below_mono [OF a]] assms(2) by simp
  ultimately show ?thesis using assms key_tree_member(1) [OF assms(1,6)] by auto
qed

lemma key_tree_insert:
  assumes "key_tree K t" and "fits K key c t" and "K x = key" and "0 \<le> c" and "c < klen key"
  shows "key_tree K (tree_insert x key c t)"
  using assms
proof (induction t)
  case (Inner i k l r)
  show ?case
  proof (cases "k < c")
    case True
    have agree: "agree_below k (K i) key" and fit: "fits K key c (child key k l r)" using Inner.prems(2) True by auto
    have "key_tree K (tree_insert x key c (child key k l r))" using Inner fit by auto
    then show ?thesis
      using Inner.prems True agree by (auto simp: members_insert)
  next
    case False
    then have "key_tree K (new_inner x key c (Inner i k l r))"
      using Inner.prems fits_below [OF Inner.prems(1)] by (intro key_tree_new_inner) auto
    then show ?thesis using False by simp
  qed
qed (auto intro!: key_tree_new_inner intro: agree_below_sym)

text \<open>The same for a record put at the end of the path.\<close>

fun fits_end :: "(grn_id \<Rightarrow> byte list) \<Rightarrow> byte list \<Rightarrow> ptree \<Rightarrow> bool" where
  "fits_end K key (Inner i k l r) \<longleftrightarrow> k < klen key \<and> agree_below k (K i) key \<and> fits_end K key (child key k l r)"
| "fits_end K key (Record r) \<longleftrightarrow> False"
| "fits_end K key Empty \<longleftrightarrow> True"

lemma records_put: "fits_end K key t \<Longrightarrow> set (records (tree_put x key t)) = insert x (set (records t))"
  by (induction t) auto

lemma inners_put [simp]: "inners (tree_put x key t) = inners t"
  by (induction t) auto

lemma key_tree_put:
  assumes "key_tree K t" and "fits_end K key t" and "K x = key"
  shows "key_tree K (tree_put x key t)"
  using assms
proof (induction t)
  case (Inner i k l r)
  have "key_tree K (tree_put x key (child key k l r))" using Inner by auto
  moreover have "set (records (tree_put x key (child key k l r))) = insert x (set (records (child key k l r)))"
    using Inner.prems(2) by (intro records_put [of K]) simp
  ultimately show ?case using Inner.prems by (cases "kbit key k") auto
qed auto

section \<open>The search for the place\<close>

text \<open>
  Where the loop of \<^verbatim>\<open>grn_pat_add_internal_find\<close> stops: the subtree there, the last two links and the last two checks.
\<close>

fun stop :: "byte list \<Rightarrow> id_location \<Rightarrow> id_location \<Rightarrow> int \<Rightarrow> int \<Rightarrow> ptree \<Rightarrow> ptree \<times> id_location \<times> id_location \<times> int \<times> int" where
  "stop key locp loc cn cnp (Inner i k l r) =
     (if k < klen key then stop key loc (i, direction (kbit key k)) k cn (child key k l r)
      else (Inner i k l r, locp, loc, cn, cnp))"
| "stop key locp loc cn cnp t = (t, locp, loc, cn, cnp)"

fun found_node :: "ptree \<times> id_location \<times> id_location \<times> int \<times> int \<Rightarrow> grn_id" where
  "found_node (Empty, locp, loc, cn, cnp) = fst loc"
| "found_node (Record r, locp, loc, cn, cnp) = r"
| "found_node (Inner i k l r, locp, loc, cn, cnp) = i"

definition find_result_of :: "(grn_id \<Rightarrow> byte list) \<Rightarrow> byte list \<Rightarrow> ptree \<times> id_location \<times> id_location \<times> int \<times> int \<Rightarrow> find_result" where
  "find_result_of K key st =
     (case st of (s, locp, loc, cn, cnp) \<Rightarrow>
        case s of
          Record r \<Rightarrow> if K r = key then FindFound r else FindStop (K r) locp loc cn cnp
        | _ \<Rightarrow> FindStop (K (found_node st)) locp loc cn cnp)"

lemma add_find_loop_tree:
  assumes "tree_at (p_nodes pat) cn (id_at pat loc) t" and "\<And>m. m \<in> members t \<Longrightarrow> readable pat K m"
    and "t = Empty \<Longrightarrow> readable pat K (fst loc)" and "key_tree K t"
  shows "add_find_loop pat key (klen key) locp loc cn cnp = find_result_of K key (stop key locp loc cn cnp t)"
  using assms
proof (induction t arbitrary: cn loc locp cnp)
  case Empty
  then show ?case by (subst add_find_loop.simps) (simp add: find_result_of_def readableD)
next
  case (Record r)
  then have "readable pat K r" by simp
  then show ?case using Record.prems by (subst add_find_loop.simps) (auto simp: find_result_of_def readableD Let_def)
next
  case (Inner i k l r)
  have i: "id_at pat loc = i" "i \<noteq> 0" "pat_node_get_check (p_nodes pat i) = k" "cn < k" using Inner.prems(1) by auto
  have rd: "readable pat K i" using Inner.prems(2) by simp
  show ?case
  proof (cases "k < klen key")
    case True
    let ?loc = "(i, direction (kbit key k))"
    have next_eq: "grn_pat_next_location i key k (klen key) = ?loc" by (simp add: grn_pat_next_location_def)
    have "add_find_loop pat key (klen key) locp loc cn cnp = add_find_loop pat key (klen key) loc ?loc k cn"
      using True i rd by (subst add_find_loop.simps) (simp add: readableD Let_def next_eq)
    also have "\<dots> = find_result_of K key (stop key loc ?loc k cn (child key k l r))"
    proof -
      have "tree_at (p_nodes pat) k (id_at pat ?loc) (child key k l r)"
        using tree_at_child [OF Inner.prems(1), of key] id_at_next [of pat i key k] by (simp add: next_eq)
      then show ?thesis using Inner.prems(2,4) rd by (cases "kbit key k") (auto intro!: Inner.IH)
    qed
    finally show ?thesis using True by simp
  next
    case False
    have "K i \<noteq> key" using key_tree_member(1) [OF Inner.prems(4), of i] False by auto
    then show ?thesis
      using False i rd by (subst add_find_loop.simps) (auto simp: readableD Let_def find_result_of_def)
  qed
qed

text \<open>The checks grow along every path.\<close>

fun increasing :: "int \<Rightarrow> ptree \<Rightarrow> bool" where
  "increasing c (Inner i k l r) \<longleftrightarrow> c < k \<and> increasing k l \<and> increasing k r"
| "increasing c t \<longleftrightarrow> True"

lemma increasing_child: "increasing c (Inner i k l r) \<Longrightarrow> increasing k (child key k l r)"
  by simp

lemma tree_at_increasing: "tree_at N c rid t \<Longrightarrow> increasing c t"
  by (induction t arbitrary: c rid) auto

lemma found_node_member: "t \<noteq> Empty \<Longrightarrow> found_node (stop key locp loc cn cnp t) \<in> members t"
proof (induction t arbitrary: locp loc cn cnp)
  case (Inner i k l r)
  show ?case
  proof (cases "k < klen key")
    case True
    let ?s = "child key k l r"
    show ?thesis
    proof (cases "?s = Empty")
      case False
      then show ?thesis
        using Inner.IH [of loc "(i, direction (kbit key k))" k cn] True by (cases "kbit key k") auto
    qed (use True in \<open>auto split: if_splits\<close>)
  qed simp
qed auto

lemma stop_check:
  assumes "stop key locp loc cn cnp t = (s, locp', loc', cn', cnp')" and "increasing cn t"
  shows "cn \<le> cn' \<and> (cn < klen key \<longrightarrow> cn' < klen key) \<and> (cn < cn' \<longrightarrow> cn \<le> cnp') \<and> (cn = cn' \<longrightarrow> cnp' = cnp)"
  using assms
proof (induction t arbitrary: locp loc cn cnp)
  case (Inner i k l r)
  show ?case
  proof (cases "k < klen key")
    case True
    then have "stop key loc (i, direction (kbit key k)) k cn (child key k l r) = (s, locp', loc', cn', cnp')"
      using Inner.prems(1) by simp
    then have "k \<le> cn' \<and> (k < klen key \<longrightarrow> cn' < klen key) \<and> (k < cn' \<longrightarrow> k \<le> cnp') \<and> (k = cn' \<longrightarrow> cnp' = cn)"
      using Inner.IH [of loc "(i, direction (kbit key k))" k cn] Inner.prems(2) by (cases "kbit key k") simp_all
    then show ?thesis using True Inner.prems(2) by auto
  qed (use Inner.prems in auto)
qed auto

text \<open>A key that differs first at \<open>d\<close> from the key where the search stops fits there.\<close>

lemma fits_difference:
  assumes "stop key locp loc cn cnp t = (s, locp', loc', cn', cnp')" and f: "f = found_node (s, locp', loc', cn', cnp')"
    and "key_tree K t" and "t \<noteq> Empty"
    and d: "0 \<le> d" "d < klen key" "d < klen (K f)" "kbit (K f) d \<noteq> kbit key d" "agree_below d (K f) key"
    and "s = Empty \<Longrightarrow> d \<noteq> cn'"
  shows "fits K key d t"
  using assms(1,3,4,10) f
proof (induction t arbitrary: locp loc cn cnp)
  case (Inner i k l r)
  let ?s = "child key k l r"
  have fm: "f \<in> members (Inner i k l r)" using found_node_member [OF Inner.prems(3), of key locp loc cn cnp] f Inner.prems(1) by simp
  have agree: "agree_below k (K i) (K f)" using key_tree_agree [OF Inner.prems(2) _ fm, of i] by simp
  consider "klen key \<le> k" | "k < klen key" "d < k" | "k < klen key" "k \<le> d" by linarith
  then show ?case
  proof cases
    case 1
    then have "f = i" using Inner.prems(1) f by auto
    then show ?thesis using 1 d by auto
  next
    case 2
    have "agree_below d (K i) key" using agree_below_trans [OF agree_below_mono [OF agree] d(5)] 2 by simp
    moreover have "kbit (K i) d = kbit (K f) d" using agree_belowD [OF agree] 2 d by simp
    ultimately show ?thesis using 2 d by simp
  next
    case 3
    have st: "stop key loc (i, direction (kbit key k)) k cn ?s = (s, locp', loc', cn', cnp')" using 3 Inner.prems(1) by simp
    have agk: "agree_below k (K i) key" using agree_below_trans [OF agree agree_below_mono [OF d(5)]] 3 by simp
    show ?thesis
    proof (cases "?s = Empty")
      case True
      then have "d \<noteq> k" using st Inner.prems(4) by auto
      then show ?thesis using 3 agk True by simp
    next
      case False
      have "f \<in> members ?s" using found_node_member [OF False, of key loc "(i, direction (kbit key k))" k cn] st f by simp
      then have "kbit (K f) k = kbit key k" using key_tree_member(2,3) [OF Inner.prems(2), of f] by (cases "kbit key k") auto
      then have "k < d" using d 3 by (cases "k = d") auto
      moreover have "fits K key d ?s"
        using Inner.IH [of loc "(i, direction (kbit key k))" k cn] st Inner.prems(2,4,5) False by (cases "kbit key k") auto
      ultimately show ?thesis using agk by simp
    qed
  qed
qed (use d in auto)

lemma fits_empty_end:
  assumes "stop key locp loc cn cnp t = (Empty, locp', loc', cn', cnp')" and f: "f = fst loc'"
    and "key_tree K t" and "t \<noteq> Empty" and "increasing cn t" and "agree_below cn' (K f) key"
  shows "fits_end K key t \<and> (\<forall>c > cn'. fits K key c t)"
  using assms(1,3,4,5) f
proof (induction t arbitrary: locp loc cn cnp)
  case (Inner i k l r)
  let ?s = "child key k l r"
  have fm: "f \<in> members (Inner i k l r)" using found_node_member [OF Inner.prems(3), of key locp loc cn cnp] f Inner.prems(1) by simp
  have agree: "agree_below k (K i) (K f)" using key_tree_agree [OF Inner.prems(2) _ fm, of i] by simp
  have k: "k < klen key" using Inner.prems(1) by (auto split: if_splits)
  have st: "stop key loc (i, direction (kbit key k)) k cn ?s = (Empty, locp', loc', cn', cnp')" using k Inner.prems(1) by simp
  have kcn: "k \<le> cn'" using stop_check [OF st increasing_child [OF Inner.prems(4)]] by simp
  have agk: "agree_below k (K i) key" using agree_below_trans [OF agree agree_below_mono [OF assms(6) kcn]] .
  show ?case
  proof (cases "?s = Empty")
    case True
    then show ?thesis using k kcn agk by simp
  next
    case False
    then have "fits_end K key ?s \<and> (\<forall>c > cn'. fits K key c ?s)"
      using Inner.IH [of loc "(i, direction (kbit key k))" k cn] st Inner.prems(2,4,5) by (cases "kbit key k") auto
    then show ?thesis using k kcn agk by simp
  qed
qed auto

text \<open>The link for the new node, from the links at which the search stopped.\<close>

lemma insert_location_last:
  assumes "stop key locp loc cn cnp t = (s, locp', loc', cn', cnp')" and "increasing cn t" and "cn' < c" and "c \<le> klen key"
  shows "insert_location key c loc t = loc'"
  using assms(1,2)
proof (induction t arbitrary: locp loc cn cnp)
  case (Inner i k l r)
  show ?case
  proof (cases "k < klen key")
    case True
    let ?s = "child key k l r"
    have st: "stop key loc (i, direction (kbit key k)) k cn ?s = (s, locp', loc', cn', cnp')" using True Inner.prems(1) by simp
    have "k < c" using stop_check [OF st increasing_child [OF Inner.prems(2)]] assms(3) by simp
    then show ?thesis using Inner.IH [of loc "(i, direction (kbit key k))" k cn] st Inner.prems(2) by (cases "kbit key k") auto
  qed (use Inner.prems assms(4) in auto)
qed auto

lemma insert_location_previous:
  assumes "stop key locp loc cn cnp t = (s, locp', loc', cn', cnp')" and "increasing cn t" and "cnp' < c" and "c < cn'"
  shows "if cn < cn' then insert_location key c loc t = locp' else locp' = locp"
  using assms(1,2)
proof (induction t arbitrary: locp loc cn cnp)
  case (Inner i k l r)
  show ?case
  proof (cases "k < klen key")
    case True
    let ?s = "child key k l r"
    have st: "stop key loc (i, direction (kbit key k)) k cn ?s = (s, locp', loc', cn', cnp')" using True Inner.prems(1) by simp
    have kcn: "k \<le> cn'" using stop_check [OF st increasing_child [OF Inner.prems(2)]] by simp
    have ih: "if k < cn' then insert_location key c (i, direction (kbit key k)) ?s = locp' else locp' = loc"
      using Inner.IH [of loc "(i, direction (kbit key k))" k cn] st Inner.prems(2) by (cases "kbit key k") auto
    have "k < cn' \<Longrightarrow> k \<le> cnp'" using stop_check [OF st increasing_child [OF Inner.prems(2)]] by simp
    then show ?thesis using ih Inner.prems kcn assms(3,4) by (auto split: if_splits)
  qed (use Inner.prems in auto)
qed (use assms(3,4) in auto)

lemma detect_position_tree:
  assumes "tree_at (p_nodes pat) c0 (id_at pat loc) t" and "\<And>m. m \<in> members t \<Longrightarrow> readable pat K m"
    and "fits K key c t" and "\<And>r. below key c t \<noteq> Record r"
  shows "detect_position pat key (klen key) c loc = Some (Some (insert_location key c loc t))"
  using assms
proof (induction t arbitrary: c0 loc)
  case (Inner i k l r)
  have i: "id_at pat loc = i" "i \<noteq> 0" "pat_node_get_check (p_nodes pat i) = k" using Inner.prems(1) by auto
  have rd: "PAT_AT pat i = Some (p_nodes pat i)" using Inner.prems(2) [of i] readableD(1) [of pat K i] by simp
  let ?loc = "(i, direction (kbit key k))"
  have next_eq: "grn_pat_next_location i key k (klen key) = ?loc" by (simp add: grn_pat_next_location_def)
  note eq = detect_position.simps [of pat key "klen key" c loc]
  show ?case
  proof (cases "k < c")
    case True
    have "tree_at (p_nodes pat) k (id_at pat ?loc) (child key k l r)"
      using tree_at_child [OF Inner.prems(1), of key] id_at_next [of pat i key k] by (simp add: next_eq)
    then have "detect_position pat key (klen key) c ?loc = Some (Some (insert_location key c ?loc (child key k l r)))"
      using Inner.IH [of k ?loc] Inner.prems(2-4) True by (cases "kbit key k") auto
    then show ?thesis using True i rd by (subst eq) (simp add: Let_def next_eq)
  next
    case False
    then show ?thesis using i rd Inner.prems(3) by (subst eq) (simp add: Let_def)
  qed
qed (auto simp: detect_position.simps)

text \<open>The check of the node that the link belongs to.\<close>

fun path_check :: "byte list \<Rightarrow> int \<Rightarrow> int \<Rightarrow> ptree \<Rightarrow> int" where
  "path_check key c c0 (Inner i k l r) = (if k < c then path_check key c k (child key k l r) else c0)"
| "path_check key c c0 t = c0"

lemma stop_path_check: "stop key locp loc cn cnp t = (s, locp', loc', cn', cnp') \<Longrightarrow> path_check key (klen key) cn t = cn'"
  by (induction t arbitrary: locp loc cn cnp) (auto split: if_splits)

lemma stop_get:
  assumes "stop key locp loc cn cnp t = (s, locp', loc', cn', cnp')"
  shows "tree_get K key t = (case s of Record r \<Rightarrow> if K r = key then r else GRN_ID_NIL | _ \<Rightarrow> GRN_ID_NIL)"
  using assms by (induction t arbitrary: locp loc cn cnp) (auto split: if_splits)

lemma stop_inner:
  assumes "stop key locp loc cn cnp t = (s, locp', loc', cn', cnp')" and "key_tree K t" and "s = Inner i k l r"
  shows "K i \<noteq> key"
  using assms
proof (induction t arbitrary: locp loc cn cnp)
  case (Inner i' k' l' r')
  show ?case
  proof (cases "k' < klen key")
    case True
    then show ?thesis
      using Inner.IH [of loc "(i', direction (kbit key k'))" k' cn] Inner.prems by (cases "kbit key k'") auto
  next
    case False
    then show ?thesis using Inner.prems key_tree_member(1) [OF Inner.prems(2), of i'] by auto
  qed
qed auto

lemma below_inner:
  assumes "stop key locp loc cn cnp t = (s, locp', loc', cn', cnp')" and "increasing cn t" and "c < cn'" and "cn \<le> c"
  shows "below key c t \<noteq> Record q"
  using assms(1,2,4)
proof (induction t arbitrary: locp loc cn cnp)
  case (Inner i k l r)
  show ?case
  proof (cases "k < c")
    case True
    then have "k < klen key \<Longrightarrow> below key c (child key k l r) \<noteq> Record q"
      using Inner.IH [of loc "(i, direction (kbit key k))" k cn] Inner.prems by (cases "kbit key k") auto
    moreover have "k < klen key" using True Inner.prems assms(3) by (auto split: if_splits)
    ultimately show ?thesis using True by simp
  qed simp
qed (use assms(3) in auto)

lemma stop_tree_at:
  assumes "tree_at (p_nodes pat) cn (id_at pat loc) t" and "stop key locp loc cn cnp t = (s, locp', loc', cn', cnp')"
  shows "tree_at (p_nodes pat) cn' (id_at pat loc') s"
  using assms
proof (induction t arbitrary: locp loc cn cnp)
  case (Inner i k l r)
  show ?case
  proof (cases "k < klen key")
    case True
    let ?loc = "(i, direction (kbit key k))"
    have "tree_at (p_nodes pat) k (id_at pat ?loc) (child key k l r)"
      using tree_at_child [OF Inner.prems(1), of key] id_at_next [of pat i key k] by (simp add: grn_pat_next_location_def)
    then show ?thesis using Inner.IH [of k ?loc loc cn] Inner.prems(2) True by (cases "kbit key k") auto
  qed (use Inner.prems in auto)
qed auto

lemma fits_not_check:
  assumes "fits K key d t" and "increasing c0 t" and "c0 < d"
  shows "path_check key (klen key) c0 t \<noteq> d"
  using assms
proof (induction t arbitrary: c0)
  case (Inner i k l r)
  have "k < d \<or> d < k" using Inner.prems(1) by (auto split: if_splits)
  then consider "klen key \<le> k" | "k < klen key" "k < d" | "k < klen key" "d < k" by linarith
  then show ?case
  proof cases
    case 3
    have "k \<le> path_check key (klen key) k (child key k l r)"
    proof -
      obtain s locp loc cn cnp where "stop key root_location root_location k 0 (child key k l r) = (s, locp, loc, cn, cnp)"
        by (metis prod_cases5)
      with stop_check [OF this increasing_child [OF Inner.prems(2)]] show ?thesis by (simp add: stop_path_check)
    qed
    then show ?thesis using 3 by simp
  qed (use Inner in \<open>auto split: if_splits\<close>)
qed auto

definition place_ok :: "(grn_id \<Rightarrow> byte list) \<Rightarrow> byte list \<Rightarrow> ptree \<Rightarrow> id_location \<Rightarrow> int \<Rightarrow> bool" where
  "place_ok K key t loc c \<longleftrightarrow> 0 \<le> c \<and> c < klen key \<and>
     (fits K key c t \<and> loc = insert_location key c root_location t \<or>
      fits_end K key t \<and> t \<noteq> Empty \<and> loc = insert_location key (klen key) root_location t \<and>
        c = path_check key (klen key) (- 1) t)"

lemma find_position_tree:
  assumes t: "tree_at (p_nodes pat) (- 1) (id_at pat root_location) t" and rd: "\<And>m. m \<in> members t \<Longrightarrow> readable pat K m"
    and kt: "key_tree K t" and key: "key \<noteq> []" and keys: "\<And>m. m \<in> members t \<Longrightarrow> K m \<noteq> []" and ne: "t \<noteq> Empty"
    and st: "stop key root_location root_location (- 1) (- 1) t = (s, locp, loc, cn, cnp)"
    and f: "f = found_node (s, locp, loc, cn, cnp)" and new: "tree_get K key t = GRN_ID_NIL"
  shows "\<exists>c l. find_position pat key (klen key) (K f) locp loc cn cnp = Some (c, Some l) \<and> place_ok K key t l c"
proof -
  let ?d = "check_of_difference key (K f)"
  have inc: "increasing (- 1) t" by (rule tree_at_increasing [OF t])
  have fm: "f \<in> members t" using found_node_member [OF ne, of key root_location root_location "- 1" "- 1"] st f by simp
  have cn: "- 1 \<le> cn" "cn < klen key" using stop_check [OF st inc] klen_pos [OF key] by auto
  have last: "\<And>c. cn < c \<Longrightarrow> c \<le> klen key \<Longrightarrow> loc = insert_location key c root_location t"
    using insert_location_last [OF st inc] by simp
  have stt: "tree_at (p_nodes pat) cn (id_at pat loc) s" by (rule stop_tree_at [OF t st])
  then have nil: "id_at pat loc = GRN_ID_NIL \<longleftrightarrow> s = Empty" by (cases s) auto
  have empty_end: "fits_end K key t \<and> (\<forall>c > cn. fits K key c t)" if "s = Empty" "agree_below cn (K f) key"
    using fits_empty_end [OF st [unfolded that(1)] _ kt ne inc, of f] that f by simp
  have at_end: ?thesis if "s = Empty" "agree_below cn (K f) key" "0 \<le> ?d" "?d = cn"
    using empty_end [OF that(1,2)] last [of "?d + 2"] last [of "klen key"] cn that stop_path_check [OF st] fm nil
    by (cases "?d < klen key - 2")
      (auto simp: find_position_def Let_def place_ok_def PAT_CHECK_ADD_BIT_DIFFERENCES_def)
  show ?thesis
  proof (cases "K f = key")
    case True
    have s: "s = Empty"
    proof (cases s)
      case (Record r)
      then have "r \<noteq> 0" using stt by simp
      then show ?thesis using Record True f new stop_get [OF st, of K] by simp
    next
      case (Inner i k l r)
      then show ?thesis using True f stop_inner [OF st kt, of i k l r] by simp
    qed simp
    have d: "?d = klen key - 1" by (simp only: True check_of_difference_same)
    have agree: "agree_below cn (K f) key" using True by (simp add: agree_below_def)
    have "0 \<le> ?d" using d klen_pos [OF key] by simp
    note at_end = at_end [OF s agree this]
    show ?thesis
    proof (cases "?d = cn")
      case False
      have "find_position pat key (klen key) (K f) locp loc cn cnp = Some (?d, Some loc)"
        using False d cn by (simp add: find_position_def Let_def)
      moreover have "place_ok K key t loc ?d"
        using False d cn empty_end [OF s agree] last [of ?d] klen_pos [OF key] by (simp add: place_ok_def)
      ultimately show ?thesis by blast
    qed (rule at_end)
  next
    case False
    note diff = check_of_difference_bit [OF False [symmetric] key keys [OF fm] refl]
    show ?thesis
    proof (cases "s = Empty \<and> ?d = cn")
      case True
      then show ?thesis using diff by (intro at_end) (auto intro: agree_below_sym)
    next
      case ns: False
      have fit: "fits K key ?d t"
        using ns diff by (intro fits_difference [OF st f kt ne]) (auto intro: agree_below_sym)
      have "?d \<noteq> cn" using fits_not_check [OF fit inc] stop_path_check [OF st] diff by auto
      then consider "cn < ?d" | "?d < cn" "cnp < ?d" | "?d < cn" "?d \<le> cnp" by linarith
      then show ?thesis
      proof cases
        case 1
        then show ?thesis using fit last [of ?d] diff by (auto simp: find_position_def Let_def place_ok_def)
      next
        case 2
        then have "locp = insert_location key ?d root_location t"
          using insert_location_previous [OF st inc, of ?d] diff by auto
        then show ?thesis using 2 fit diff by (auto simp: find_position_def Let_def place_ok_def)
      next
        case 3
        have "detect_position pat key (klen key) ?d root_location = Some (Some (insert_location key ?d root_location t))"
          using below_inner [OF st inc 3(1)] diff by (intro detect_position_tree [OF t rd fit]) auto
        then show ?thesis using 3 fit diff by (auto simp: find_position_def Let_def place_ok_def)
      qed
    qed
  qed
qed

text \<open>The whole search: it returns, finds the record of a key that is there, and otherwise a place that fits.\<close>

lemma add_internal_find_tree:
  assumes t: "tree_at (p_nodes pat) (- 1) (id_at pat root_location) t" and rd: "\<And>m. m \<in> members t \<Longrightarrow> readable pat K m"
    and kt: "key_tree K t" and key: "key \<noteq> []" and keys: "\<And>m. m \<in> members t \<Longrightarrow> K m \<noteq> []"
  shows "if tree_get K key t \<noteq> GRN_ID_NIL
    then grn_pat_add_internal_find pat key (klen key) = Some (PlaceFound (tree_get K key t))
    else \<exists>l c. grn_pat_add_internal_find pat key (klen key) = Some (PlaceAt l c) \<and> place_ok K key t l c"
proof (cases "t = Empty")
  case True
  have "PAT_CHECK_PACK (int (length key) - 1) 7 False = klen key - 2" by (simp add: PAT_CHECK_PACK_def klen_def)
  then show ?thesis using True t klen_pos [OF key] by (simp add: grn_pat_add_internal_find_def place_ok_def)
next
  case ne: False
  then have nz: "id_at pat root_location \<noteq> GRN_ID_NIL" using t by (cases t) auto
  obtain s locp loc cn cnp where st: "stop key root_location root_location (- 1) (- 1) t = (s, locp, loc, cn, cnp)"
    by (metis prod_cases5)
  define f where "f = found_node (s, locp, loc, cn, cnp)"
  note loop = add_find_loop_tree [OF t rd _ kt, of key root_location "- 1", unfolded st]
  note get = stop_get [OF st, of K]
  show ?thesis
  proof (cases "tree_get K key t = GRN_ID_NIL")
    case True
    have "add_find_loop pat key (klen key) root_location root_location (- 1) (- 1) = FindStop (K f) locp loc cn cnp"
    proof (cases s)
      case (Record r)
      then have "r \<noteq> 0" using stop_tree_at [OF t st] by simp
      then show ?thesis using loop ne True get Record by (auto simp: find_result_of_def f_def split: if_splits)
    qed (use loop ne in \<open>auto simp: find_result_of_def f_def\<close>)
    moreover obtain c l where "find_position pat key (klen key) (K f) locp loc cn cnp = Some (c, Some l)"
      and "place_ok K key t l c"
      using find_position_tree [OF t rd kt key keys ne st f_def True] by blast
    ultimately show ?thesis using True nz by (auto simp: grn_pat_add_internal_find_def place_ok_def)
  next
    case False
    then obtain r where "s = Record r" "K r = key" "tree_get K key t = r" using get by (cases s) (auto split: if_splits)
    then show ?thesis using False nz loop ne by (simp add: grn_pat_add_internal_find_def find_result_of_def)
  qed
qed

end
