(* ===== verification/PatGraft.thy ===== *)
theory PatGraft
  imports PatInsert "HOL-Library.Multiset"
begin

text \<open>
  Exchanging the part of a tree below a link on the path of a key, and what the write of one link does to the represented tree.
\<close>

section \<open>Exchange of a subtree\<close>

fun graft :: "byte list \<Rightarrow> int \<Rightarrow> ptree \<Rightarrow> ptree \<Rightarrow> ptree" where
  "graft key c s (Inner i k l r) =
     (if k < c then if kbit key k then Inner i k l (graft key c s r) else Inner i k (graft key c s l) r else s)"
| "graft key c s t = s"

abbreviation rest :: "byte list \<Rightarrow> int \<Rightarrow> ptree \<Rightarrow> ptree" where
  "rest key c t \<equiv> graft key c Empty t"

lemma records_graft: "mset (records (graft key c s t)) = mset (records (rest key c t)) + mset (records s)"
  by (induction t) auto

lemma inners_graft: "mset (inners (graft key c s t)) = mset (inners (rest key c t)) + mset (inners s)"
  by (induction t) auto

lemma graft_below [simp]: "graft key c (below key c t) t = t"
  by (induction t) auto

lemma records_split: "mset (records t) = mset (records (rest key c t)) + mset (records (below key c t))"
  using records_graft [of key c "below key c t" t] unfolding graft_below .

lemma inners_split: "mset (inners t) = mset (inners (rest key c t)) + mset (inners (below key c t))"
  using inners_graft [of key c "below key c t" t] unfolding graft_below .

lemma set_records_graft: "set (records (graft key c s t)) = set (records (rest key c t)) \<union> set (records s)"
  by (metis records_graft set_mset_mset set_mset_union)

lemma set_inners_graft: "set (inners (graft key c s t)) = set (inners (rest key c t)) \<union> set (inners s)"
  by (metis inners_graft set_mset_mset set_mset_union)

lemma members_graft: "members (graft key c s t) = members (rest key c t) \<union> members s"
  using set_records_graft [of key c s t] set_inners_graft [of key c s t] by blast

lemma set_records_split: "set (records t) = set (records (rest key c t)) \<union> set (records (below key c t))"
  using set_records_graft [of key c "below key c t" t] unfolding graft_below .

lemma set_inners_split: "set (inners t) = set (inners (rest key c t)) \<union> set (inners (below key c t))"
  using set_inners_graft [of key c "below key c t" t] unfolding graft_below .

lemma members_split: "members t = members (rest key c t) \<union> members (below key c t)"
  using members_graft [of key c "below key c t" t] unfolding graft_below .

lemma distinct_inners_split:
  assumes "distinct (inners t)"
  shows "distinct (inners (rest key c t))" and "distinct (inners (below key c t))"
    and "set (inners (rest key c t)) \<inter> set (inners (below key c t)) = {}"
proof -
  have "mset (inners t) = mset (inners (rest key c t) @ inners (below key c t))" unfolding mset_append by (rule inners_split)
  then have "distinct (inners (rest key c t) @ inners (below key c t))" using assms mset_eq_imp_distinct_iff by blast
  then show "distinct (inners (rest key c t))" "distinct (inners (below key c t))"
    "set (inners (rest key c t)) \<inter> set (inners (below key c t)) = {}" by simp_all
qed

lemma distinct_records_split:
  assumes "distinct (records t)"
  shows "distinct (records (rest key c t))" and "distinct (records (below key c t))"
    and "set (records (rest key c t)) \<inter> set (records (below key c t)) = {}"
proof -
  have "mset (records t) = mset (records (rest key c t) @ records (below key c t))" unfolding mset_append by (rule records_split)
  then have "distinct (records (rest key c t) @ records (below key c t))" using assms mset_eq_imp_distinct_iff by blast
  then show "distinct (records (rest key c t))" "distinct (records (below key c t))"
    "set (records (rest key c t)) \<inter> set (records (below key c t)) = {}" by simp_all
qed

lemma distinct_graft:
  assumes "distinct (inners (rest key c t))" and "distinct (inners s)" and "set (inners (rest key c t)) \<inter> set (inners s) = {}"
  shows "distinct (inners (graft key c s t))"
proof -
  have "mset (inners (graft key c s t)) = mset (inners (rest key c t) @ inners s)" unfolding mset_append by (rule inners_graft)
  moreover have "distinct (inners (rest key c t) @ inners s)" using assms by simp
  ultimately show ?thesis using mset_eq_imp_distinct_iff by blast
qed

lemma distinct_records_graft:
  assumes "distinct (records (rest key c t))" and "distinct (records s)" and "set (records (rest key c t)) \<inter> set (records s) = {}"
  shows "distinct (records (graft key c s t))"
proof -
  have "mset (records (graft key c s t)) = mset (records (rest key c t) @ records s)" unfolding mset_append by (rule records_graft)
  moreover have "distinct (records (rest key c t) @ records s)" using assms by simp
  ultimately show ?thesis using mset_eq_imp_distinct_iff by blast
qed

lemma tree_insert_graft: "tree_insert x key c t = graft key c (new_inner x key c (below key c t)) t"
  by (induction t) auto

lemma tree_put_graft: "fits_end K key t \<Longrightarrow> tree_put x key t = graft key (klen key) (Record x) t"
  by (induction t) auto

lemma fits_end_below: "fits_end K key t \<Longrightarrow> below key (klen key) t = Empty"
  by (induction t) auto

section \<open>Links\<close>

definition link :: "(grn_id \<Rightarrow> pat_node) \<Rightarrow> id_location \<Rightarrow> grn_id" where
  "link N loc = pat_node_get_child (N (fst loc)) (snd loc)"

lemma id_at_link: "id_at pat loc = link (p_nodes pat) loc"
  by (simp add: id_at_def link_def)

lemma link_left [simp]: "link N (i, DIRECTION_LEFT) = pn_left (N i)"
  by (simp add: link_def pat_node_get_child_def)

lemma link_right [simp]: "link N (i, DIRECTION_RIGHT) = pn_right (N i)"
  by (simp add: link_def pat_node_get_child_def)

lemma link_direction: "link N (i, direction b) = (if b then pn_right (N i) else pn_left (N i))"
  by (simp add: direction_def)

lemma insert_location_node:
  "insert_location key c loc t = loc \<or> fst (insert_location key c loc t) \<in> set (inners (rest key c t))"
proof (induction t arbitrary: loc)
  case (Inner i k l r)
  show ?case
    using Inner.IH(1) [of "(i, direction (kbit key k))"] Inner.IH(2) [of "(i, direction (kbit key k))"] by auto
qed auto

lemma tree_at_below:
  "tree_at N c0 (link N loc) t \<Longrightarrow> tree_at N (path_check key c c0 t) (link N (insert_location key c loc t)) (below key c t)"
proof (induction t arbitrary: c0 loc)
  case (Inner i k l r)
  show ?case
    using Inner.prems Inner.IH(1) [of k "(i, direction (kbit key k))"] Inner.IH(2) [of k "(i, direction (kbit key k))"]
    by (auto simp: link_direction)
qed auto

text \<open>
  A change of the nodes that keeps the links and checks of the rest of the tree, and after which the link on the path leads to
  a new part, exchanges that part.
\<close>

lemma tree_at_graft:
  assumes "tree_at N c0 (link N loc) t" and "distinct (inners t)" and "fst loc \<notin> set (inners t)"
    and "\<And>i d. i \<in> set (inners (rest key c t)) \<Longrightarrow> (i, d) \<noteq> insert_location key c loc t \<Longrightarrow> link N' (i, d) = link N (i, d)"
    and "\<And>m. m \<in> members (rest key c t) \<Longrightarrow> pn_check (N' m) = pn_check (N m)"
    and "insert_location key c loc t \<noteq> loc \<Longrightarrow> link N' loc = link N loc"
    and "tree_at N' (path_check key c c0 t) (link N' (insert_location key c loc t)) s"
  shows "tree_at N' c0 (link N' loc) (graft key c s t)"
  using assms
proof (induction t arbitrary: c0 loc)
  case (Inner i k l r)
  show ?case
  proof (cases "k < c")
    case False
    then show ?thesis using Inner.prems(7) by simp
  next
    case True
    define b where "b = kbit key k"
    define loc' where "loc' = (i, direction b)"
    let ?t = "child key k l r" and ?o = "if b then l else r"
    have L: "insert_location key c loc (Inner i k l r) = insert_location key c loc' ?t" using True by (simp add: loc'_def b_def)
    let ?L = "insert_location key c loc' ?t"
    have i: "link N loc = i" "i \<noteq> 0" "pat_node_get_check (N i) = k" "c0 < k" using Inner.prems(1) by auto
    have rest_eq: "set (inners (rest key c (Inner i k l r))) = insert i (set (inners (rest key c ?t)) \<union> set (inners ?o))"
      "set (records (rest key c (Inner i k l r))) = set (records (rest key c ?t)) \<union> set (records ?o)"
      using True by (auto simp: b_def)
    have sub: "set (inners (rest key c ?t)) \<subseteq> set (inners ?t)" using set_inners_split [of ?t key c] by blast
    have dis: "i \<notin> set (inners ?t)" "i \<notin> set (inners ?o)" "set (inners ?t) \<inter> set (inners ?o) = {}" "distinct (inners ?t)"
      using Inner.prems(2) by (auto simp: b_def)
    have Lnode: "?L = loc' \<or> fst ?L \<in> set (inners (rest key c ?t))" by (rule insert_location_node)
    have keep: "link N' (j, d) = link N (j, d)" if "j \<in> insert i (set (inners (rest key c ?t)) \<union> set (inners ?o))" "(j, d) \<noteq> ?L" for j d
      using Inner.prems(4) [of j d] that L rest_eq(1) by simp
    have chk: "pn_check (N' m) = pn_check (N m)" if "m \<in> insert i (members (rest key c ?t) \<union> members ?o)" for m
      using Inner.prems(5) [of m] that rest_eq by blast
    have "tree_at N' k (link N' loc') (graft key c s ?t)"
    proof -
      define T where "T = ?t"
      have prems: "tree_at N k (link N loc') T" "distinct (inners T)" "fst loc' \<notin> set (inners T)"
        "\<And>i d. i \<in> set (inners (rest key c T)) \<Longrightarrow> (i, d) \<noteq> insert_location key c loc' T \<Longrightarrow> link N' (i, d) = link N (i, d)"
        "\<And>m. m \<in> members (rest key c T) \<Longrightarrow> pn_check (N' m) = pn_check (N m)"
        "insert_location key c loc' T \<noteq> loc' \<Longrightarrow> link N' loc' = link N loc'"
        "tree_at N' (path_check key c k T) (link N' (insert_location key c loc' T)) s"
        unfolding T_def
      proof -
        show "tree_at N k (link N loc') ?t" using Inner.prems(1) by (simp add: loc'_def link_direction b_def)
        show "tree_at N' (path_check key c k ?t) (link N' ?L) s" using Inner.prems(7) True L by simp
        show "?L \<noteq> loc' \<Longrightarrow> link N' loc' = link N loc'" using keep [of i "direction b"] by (auto simp: loc'_def)
        show "fst loc' \<notin> set (inners ?t)" using dis by (simp only: loc'_def fst_conv simp_thms)
        show "\<And>j d. j \<in> set (inners (rest key c ?t)) \<Longrightarrow> (j, d) \<noteq> ?L \<Longrightarrow> link N' (j, d) = link N (j, d)" by (rule keep) blast+
        show "\<And>m. m \<in> members (rest key c ?t) \<Longrightarrow> pn_check (N' m) = pn_check (N m)" by (rule chk) blast
      qed (rule dis)
      consider "l = T" | "r = T" by (cases "kbit key k") (auto simp: T_def)
      then have "tree_at N' k (link N' loc') (graft key c s T)"
      proof cases
        case 1
        show ?thesis by (rule Inner.IH(1) [of k loc', unfolded 1, OF prems])
      next
        case 2
        show ?thesis by (rule Inner.IH(2) [of k loc', unfolded 2, OF prems])
      qed
      then show ?thesis by (simp only: T_def)
    qed
    moreover have "tree_at N' k (link N' (i, direction (\<not> b))) ?o"
    proof -
      have "(i, direction (\<not> b)) \<noteq> ?L"
      proof
        assume e: "(i, direction (\<not> b)) = ?L"
        then have "fst ?L = i" by (metis fst_conv)
        then have "?L = loc'" using Lnode dis(1) sub by blast
        then show False using e by (simp add: loc'_def direction_def split: if_splits)
      qed
      then have same: "link N' (i, direction (\<not> b)) = link N (i, direction (\<not> b))" by (intro keep) auto
      have tr: "tree_at N k (link N (i, direction (\<not> b))) ?o" using Inner.prems(1) by (auto simp: link_direction)
      have links: "pn_left (N' j) = pn_left (N j) \<and> pn_right (N' j) = pn_right (N j)" if "j \<in> set (inners ?o)" for j
      proof -
        have "j \<noteq> fst ?L" using Lnode that dis sub by (auto simp: loc'_def)
        then have "(j, d) \<noteq> ?L" for d by (metis fst_conv)
        then have "link N' (j, d) = link N (j, d)" for d using that by (intro keep) blast+
        from this [of DIRECTION_LEFT] this [of DIRECTION_RIGHT] show ?thesis by simp
      qed
      show ?thesis unfolding same by (rule tree_at_cong [OF tr links]) (blast intro: chk)+
    qed
    moreover have "link N' loc = i"
    proof -
      have "?L \<noteq> loc" using Lnode Inner.prems(3) dis sub by (auto simp: loc'_def split: if_splits)
      then show ?thesis using Inner.prems(6) L i by simp
    qed
    moreover have "pat_node_get_check (N' i) = k" using chk [of i] i by (simp add: pat_node_get_check_def)
    ultimately show ?thesis using True i by (cases b) (auto simp: loc'_def link_direction b_def)
  qed
qed simp_all

end
