(* ===== verification/PatStore.thy ===== *)
theory PatStore
  imports PatGraft
begin

text \<open>
  The node fields and the key storage of a patricia trie: reading after writing, and the invariant that every node has its key, in
  its own field or in a part of the key storage that no other node uses and that does not cross a segment.
\<close>

section \<open>Bits of a node\<close>

lemma bits_deleting: "pat_node_is_deleting node \<longleftrightarrow> bit (pn_bits node) 1"
  unfolding pat_node_is_deleting_def PAT_DELETING_def using push_bit_1_and_nonzero [of 1 "pn_bits node"] by (simp only: and.commute)

lemma bits_immediate: "pat_node_is_key_immediate node \<longleftrightarrow> bit (pn_bits node) 2"
  unfolding pat_node_is_key_immediate_def PAT_IMMEDIATE_def using push_bit_1_and_nonzero [of 2 "pn_bits node"] by (simp only: and.commute)

lemma bit_set_key_length:
  "bit (pn_bits (pat_node_set_key_length n node)) k \<longleftrightarrow>
     (if k < 3 then bit (pn_bits node) k else k < 16 \<and> bit (of_nat (n - 1) :: u16) (k - 3))"
proof -
  have "(push_bit 3 1 - 1 :: u16) = mask 3" by (simp add: mask_eq_exp_minus_1)
  then have "pn_bits (pat_node_set_key_length n node) = (pn_bits node AND mask 3) OR push_bit 3 (of_nat (n - 1))"
    by (simp only: pat_node_set_key_length_def pat_node.select_convs pat_node.update_convs) simp
  then show ?thesis by (auto simp: bit_simps simp del: mask_numeral dest: bit_imp_le_length)
qed

lemma not_bit_large: "m < 2 ^ k \<Longrightarrow> \<not> bit (m :: nat) k"
  by (simp add: bit_iff_odd)

lemma drop_set_key_length:
  assumes "n \<le> 0x1000"
  shows "drop_bit 3 (pn_bits (pat_node_set_key_length n node)) = (of_nat (n - 1) :: u16)"
proof (rule bit_word_eqI)
  fix k assume k: "k < LENGTH(16)"
  have "k < 13" if "bit (of_nat (n - 1) :: u16) k"
  proof (rule ccontr)
    assume "\<not> k < 13"
    then have "(2 :: nat) ^ 13 \<le> 2 ^ k" by (intro power_increasing) auto
    then have "\<not> bit (n - 1) k" using assms by (intro not_bit_large) simp
    then show False using that by (simp add: bit_simps)
  qed
  then show "bit (drop_bit 3 (pn_bits (pat_node_set_key_length n node))) k \<longleftrightarrow> bit (of_nat (n - 1) :: u16) k"
    using k by (auto simp: bit_drop_bit_eq bit_set_key_length)
qed

lemma unat_of_nat_u16: "m < 0x10000 \<Longrightarrow> unat (of_nat m :: u16) = m"
  by (simp add: unsigned_of_nat take_bit_nat_eq_self)

lemma get_set_key_length [simp]:
  assumes "0 < n" and "n \<le> 0x1000"
  shows "pat_node_get_key_length (pat_node_set_key_length n node) = n"
proof -
  have "unat (of_nat (n - 1) :: u16) = n - 1" by (rule unat_of_nat_u16) (use assms in simp)
  then show ?thesis using assms by (simp add: pat_node_get_key_length_def drop_set_key_length)
qed

lemma set_key_length_bits [simp]:
  "pat_node_is_key_immediate (pat_node_set_key_length n node) = pat_node_is_key_immediate node"
  "pat_node_is_deleting (pat_node_set_key_length n node) = pat_node_is_deleting node"
  by (simp_all add: bits_immediate bits_deleting bit_set_key_length)

lemma bit_flags [simp]: "bit PAT_DELETING k \<longleftrightarrow> k = 1" "bit PAT_IMMEDIATE k \<longleftrightarrow> k = 2"
  by (simp_all only: PAT_DELETING_def PAT_IMMEDIATE_def push_bit_of_1 bit_exp_iff possible_bit_word) auto

lemma bit_u16: "bit (w :: u16) (3 + n) \<Longrightarrow> n < 13"
  using bit_imp_le_length [of w "3 + n"] by simp

lemma drop_bit_flags:
  "drop_bit 3 (w OR PAT_DELETING) = drop_bit 3 w" "drop_bit 3 (w AND NOT PAT_DELETING) = drop_bit 3 w"
  "drop_bit 3 (w OR PAT_IMMEDIATE) = drop_bit 3 w" "drop_bit 3 (w AND NOT PAT_IMMEDIATE) = drop_bit 3 w"
  by (auto intro!: bit_word_eqI simp: bit_drop_bit_eq bit_or_iff bit_and_iff bit_not_iff dest: bit_u16)

lemma flags_key_length [simp]:
  "pat_node_get_key_length (pat_node_set_deleting_on node) = pat_node_get_key_length node"
  "pat_node_get_key_length (pat_node_set_deleting_off node) = pat_node_get_key_length node"
  "pat_node_get_key_length (pat_node_set_key_immediate_on node) = pat_node_get_key_length node"
  "pat_node_get_key_length (pat_node_set_key_immediate_off node) = pat_node_get_key_length node"
  by (cases node; simp only: pat_node_get_key_length_def pat_node_set_deleting_on_def pat_node_set_deleting_off_def
      pat_node_set_key_immediate_on_def pat_node_set_key_immediate_off_def drop_bit_flags pat_node.simps)+

lemma flags_immediate [simp]:
  "pat_node_is_key_immediate (pat_node_set_deleting_on node) = pat_node_is_key_immediate node"
  "pat_node_is_key_immediate (pat_node_set_deleting_off node) = pat_node_is_key_immediate node"
  "pat_node_is_key_immediate (pat_node_set_key_immediate_on node)"
  "\<not> pat_node_is_key_immediate (pat_node_set_key_immediate_off node)"
  by (simp_all add: bits_immediate pat_node_set_deleting_on_def pat_node_set_deleting_off_def
      pat_node_set_key_immediate_on_def pat_node_set_key_immediate_off_def bit_or_iff bit_and_iff bit_not_iff)

lemma flags_deleting [simp]:
  "pat_node_is_deleting (pat_node_set_deleting_on node)"
  "\<not> pat_node_is_deleting (pat_node_set_deleting_off node)"
  "pat_node_is_deleting (pat_node_set_key_immediate_on node) = pat_node_is_deleting node"
  "pat_node_is_deleting (pat_node_set_key_immediate_off node) = pat_node_is_deleting node"
  by (simp_all add: bits_deleting pat_node_set_deleting_on_def pat_node_set_deleting_off_def
      pat_node_set_key_immediate_on_def pat_node_set_key_immediate_off_def bit_or_iff bit_and_iff bit_not_iff)

section \<open>The key storage\<close>

definition node_width :: "grn_pat \<Rightarrow> nat" where
  "node_width pat = (if p_key_large pat then 8 else 4)"

definition ids :: "grn_pat \<Rightarrow> grn_id set" where
  "ids pat = {m. m \<noteq> GRN_ID_NIL \<and> m \<le> p_curr_rec pat}"

abbreviation key_length :: "grn_pat \<Rightarrow> grn_id \<Rightarrow> nat" where
  "key_length pat m \<equiv> pat_node_get_key_length (p_nodes pat m)"

abbreviation immediate :: "grn_pat \<Rightarrow> grn_id \<Rightarrow> bool" where
  "immediate pat m \<equiv> pat_node_is_key_immediate (p_nodes pat m)"

abbreviation key_pos :: "grn_pat \<Rightarrow> grn_id \<Rightarrow> u64" where
  "key_pos pat m \<equiv> pat_node_get_key_offset pat (p_nodes pat m)"

definition region :: "grn_pat \<Rightarrow> grn_id \<Rightarrow> nat set" where
  "region pat m = (if immediate pat m then {} else {unat (key_pos pat m)..<unat (key_pos pat m) + key_length pat m})"

definition node_key :: "grn_pat \<Rightarrow> grn_id \<Rightarrow> byte list" where
  "node_key pat m = the (pat_node_get_key pat m)"

definition in_one_segment :: "nat \<Rightarrow> nat \<Rightarrow> bool" where
  "in_one_segment pos len \<longleftrightarrow> pos div 2 ^ 22 = (pos + len - 1) div 2 ^ 22"

definition key_ok :: "grn_pat \<Rightarrow> grn_id \<Rightarrow> bool" where
  "key_ok pat m \<longleftrightarrow> PAT_AT pat m \<noteq> None \<and> key_length pat m \<le> GRN_TABLE_MAX_KEY_SIZE \<and>
     (if immediate pat m then key_length pat m \<le> node_width pat
      else node_width pat < key_length pat m \<and> KEY_AT pat (key_pos pat m) \<and>
        unat (key_pos pat m) + key_length pat m \<le> unat (p_curr_key pat) \<and>
        in_one_segment (unat (key_pos pat m)) (key_length pat m))"

definition store_ok :: "grn_pat \<Rightarrow> bool" where
  "store_ok pat \<longleftrightarrow>
     p_curr_rec pat \<le> GRN_ID_MAX \<and> PAT_AT pat 0 \<noteq> None \<and> p_curr_key pat \<le> grn_pat_max_total_key_size pat \<and>
     (\<forall>m. length (pn_key (p_nodes pat m)) = node_width pat) \<and> (\<forall>m \<in> ids pat. key_ok pat m) \<and>
     (\<forall>m \<in> ids pat. \<forall>m' \<in> ids pat. m \<noteq> m' \<longrightarrow> region pat m \<inter> region pat m' = {})"

lemma PAT_AT_iff: "PAT_AT pat m \<noteq> None \<longleftrightarrow> m \<le> GRN_ID_MAX \<and> p_seg_pat pat (pat_segment pat m)"
  by (simp add: PAT_AT_def)

lemma pat_segment_cong: "p_key_large pat' = p_key_large pat \<Longrightarrow> pat_segment pat' m = pat_segment pat m"
  by (simp add: pat_segment_def)

lemma PAT_AT_cong:
  "p_key_large pat' = p_key_large pat \<Longrightarrow> p_seg_pat pat' = p_seg_pat pat \<Longrightarrow> PAT_AT pat' m \<noteq> None \<longleftrightarrow> PAT_AT pat m \<noteq> None"
  by (simp only: PAT_AT_iff pat_segment_cong [of pat' pat])

lemma KEY_AT_cong:
  "p_key_large pat' = p_key_large pat \<Longrightarrow> p_seg_key pat' = p_seg_key pat \<Longrightarrow> KEY_AT pat' pos \<longleftrightarrow> KEY_AT pat pos"
  by (simp add: KEY_AT_def)

lemma key_length_pos [simp]: "0 < key_length pat m"
  by (simp add: pat_node_get_key_length_def)

lemma node_key_ok:
  assumes "key_ok pat m" and "length (pn_key (p_nodes pat m)) = node_width pat"
  shows "pat_node_get_key pat m = Some (node_key pat m)" and "length (node_key pat m) = key_length pat m"
    and "node_key pat m = (if immediate pat m then take (key_length pat m) (pn_key (p_nodes pat m))
           else map (p_keys pat) [unat (key_pos pat m)..<unat (key_pos pat m) + key_length pat m])"
  using assms by (auto simp: node_key_def pat_node_get_key_def pat_node_get_key_ptr_def key_ok_def Let_def)

lemma store_okD:
  assumes "store_ok pat"
  shows "length (pn_key (p_nodes pat m)) = node_width pat" and "m \<in> ids pat \<Longrightarrow> key_ok pat m" and "PAT_AT pat 0 \<noteq> None"
    and "m \<in> ids pat \<Longrightarrow> m' \<in> ids pat \<Longrightarrow> m \<noteq> m' \<Longrightarrow> region pat m \<inter> region pat m' = {}"
  using assms by (auto simp: store_ok_def)

lemma store_ok_readable:
  assumes "store_ok pat" and "m \<in> ids pat"
  shows "readable pat (node_key pat) m" and "node_key pat m \<noteq> []" and "klen (node_key pat m) \<le> 0x10000"
proof -
  note ok = store_okD(2) [OF assms] and len = store_okD(1) [OF assms(1), of m]
  note nk = node_key_ok [OF ok len]
  show "readable pat (node_key pat) m" using ok nk(1) by (simp add: readable_def key_ok_def)
  have "0 < length (node_key pat m)" by (simp only: nk(2) key_length_pos)
  then show "node_key pat m \<noteq> []" by simp
  show "klen (node_key pat m) \<le> 0x10000" using ok by (simp add: klen_def nk(2) key_ok_def)
qed

text \<open>Changes that do not touch keys.\<close>

definition same_keys :: "grn_pat \<Rightarrow> grn_pat \<Rightarrow> bool" where
  "same_keys pat pat' \<longleftrightarrow>
     p_key_large pat' = p_key_large pat \<and> p_curr_rec pat' = p_curr_rec pat \<and> p_curr_key pat' = p_curr_key pat \<and>
     p_seg_pat pat' = p_seg_pat pat \<and> p_seg_key pat' = p_seg_key pat \<and> p_keys pat' = p_keys pat \<and>
     (\<forall>m. pn_key (p_nodes pat' m) = pn_key (p_nodes pat m) \<and> key_length pat' m = key_length pat m \<and>
          immediate pat' m = immediate pat m)"

lemma same_keys_refl [simp]: "same_keys pat pat"
  by (simp add: same_keys_def)

lemma same_keys_trans [trans]: "same_keys pat pat' \<Longrightarrow> same_keys pat' pat'' \<Longrightarrow> same_keys pat pat''"
  by (simp add: same_keys_def)

lemma same_keys_key_pos: "same_keys pat pat' \<Longrightarrow> key_pos pat' m = key_pos pat m"
  by (simp add: same_keys_def pat_node_get_key_offset_def)

lemma same_keys_get_key:
  assumes "same_keys pat pat'"
  shows "pat_node_get_key pat' m = pat_node_get_key pat m" and "node_key pat' m = node_key pat m"
proof -
  show "pat_node_get_key pat' m = pat_node_get_key pat m"
    using assms same_keys_key_pos [OF assms, of m]
    by (auto simp: same_keys_def pat_node_get_key_def pat_node_get_key_ptr_def Let_def KEY_AT_def)
  then show "node_key pat' m = node_key pat m" by (simp add: node_key_def)
qed

lemma same_keys_PAT_AT: "same_keys pat pat' \<Longrightarrow> PAT_AT pat' m \<noteq> None \<longleftrightarrow> PAT_AT pat m \<noteq> None"
  by (simp add: same_keys_def PAT_AT_def pat_segment_def)

lemma same_keys_ids [simp]: "same_keys pat pat' \<Longrightarrow> ids pat' = ids pat"
  by (simp add: same_keys_def ids_def)

lemma same_keys_key_ok:
  assumes "same_keys pat pat'"
  shows "key_ok pat' m = key_ok pat m" and "region pat' m = region pat m"
proof -
  have "immediate pat' m = immediate pat m" "key_length pat' m = key_length pat m" "node_width pat' = node_width pat"
    "KEY_AT pat' = KEY_AT pat" "p_curr_key pat' = p_curr_key pat"
    using assms by (auto simp: same_keys_def node_width_def KEY_AT_def fun_eq_iff)
  then show "key_ok pat' m = key_ok pat m" "region pat' m = region pat m"
    by (simp_all only: key_ok_def region_def same_keys_key_pos [OF assms] same_keys_PAT_AT [OF assms])
qed

lemma same_keys_store_ok:
  assumes "same_keys pat pat'" and "store_ok pat"
  shows "store_ok pat'"
proof -
  have "p_curr_rec pat' = p_curr_rec pat" "p_curr_key pat' = p_curr_key pat" "node_width pat' = node_width pat"
    "grn_pat_max_total_key_size pat' = grn_pat_max_total_key_size pat" "\<And>m. pn_key (p_nodes pat' m) = pn_key (p_nodes pat m)"
    using assms(1) by (auto simp: same_keys_def node_width_def grn_pat_max_total_key_size_def)
  then have "store_ok pat' \<longleftrightarrow> store_ok pat"
    by (simp only: store_ok_def same_keys_key_ok [OF assms(1)] same_keys_ids [OF assms(1)] same_keys_PAT_AT [OF assms(1)])
  then show ?thesis using assms(2) by simp
qed

lemma same_keys_update_node:
  assumes "\<And>node. pn_key (f node) = pn_key node" and "\<And>node. pat_node_get_key_length (f node) = pat_node_get_key_length node"
    and "\<And>node. pat_node_is_key_immediate (f node) = pat_node_is_key_immediate node"
  shows "same_keys pat (update_node m f pat)"
  using assms by (simp add: same_keys_def update_node_def)

lemma set_child_keys [simp]:
  "pn_key (pat_node_set_child d r node) = pn_key node" "pn_bits (pat_node_set_child d r node) = pn_bits node"
  "pn_check (pat_node_set_child d r node) = pn_check node"
  by (simp_all add: pat_node_set_child_def split: pat_node_direction.split)

lemma node_setters [simp]:
  "pn_key (pat_node_set_check c node) = pn_key node" "pn_bits (pat_node_set_check c node) = pn_bits node"
  "pn_key (pat_node_set_deleting_on node) = pn_key node" "pn_key (pat_node_set_deleting_off node) = pn_key node"
  "pn_left (pat_node_set_check c node) = pn_left node" "pn_right (pat_node_set_check c node) = pn_right node"
  "pn_left (pat_node_set_deleting_on node) = pn_left node" "pn_right (pat_node_set_deleting_on node) = pn_right node"
  "pn_left (pat_node_set_deleting_off node) = pn_left node" "pn_right (pat_node_set_deleting_off node) = pn_right node"
  "pn_check (pat_node_set_deleting_on node) = pn_check node" "pn_check (pat_node_set_deleting_off node) = pn_check node"
  by (simp_all add: pat_node_set_check_def pat_node_set_deleting_on_def pat_node_set_deleting_off_def)

lemma set_child_bits [simp]:
  "pat_node_get_key_length (pat_node_set_child d r node) = pat_node_get_key_length node"
  "pat_node_is_key_immediate (pat_node_set_child d r node) = pat_node_is_key_immediate node"
  "pat_node_is_deleting (pat_node_set_child d r node) = pat_node_is_deleting node"
  "pat_node_get_key_length (pat_node_set_check c node) = pat_node_get_key_length node"
  "pat_node_is_key_immediate (pat_node_set_check c node) = pat_node_is_key_immediate node"
  "pat_node_is_deleting (pat_node_set_check c node) = pat_node_is_deleting node"
  by (simp_all add: pat_node_get_key_length_def pat_node_is_key_immediate_def pat_node_is_deleting_def)

lemma same_keys_set_id_at [simp]: "same_keys pat (set_id_at loc r pat)"
  unfolding set_id_at_def by (rule same_keys_update_node) simp_all

lemma same_keys_enable_node: "same_keys pat (grn_pat_enable_node x key c cm loc pat)"
proof -
  have child: "same_keys p (update_node m (pat_node_set_child d r) p)" for p m d r
    by (rule same_keys_update_node) simp_all
  have first: "same_keys pat (update_node x (pat_node_set_deleting_off \<circ> pat_node_set_check c) pat)"
    by (rule same_keys_update_node) simp_all
  show ?thesis
    unfolding grn_pat_enable_node_def Let_def
    by (cases "next_direction key c cm"; simp only: if_True if_False)
      (rule same_keys_trans [OF same_keys_trans [OF same_keys_trans [OF first child] child] same_keys_set_id_at])+
qed

section \<open>Storing a key\<close>

text \<open>There is room for keys of any length, or the key goes into the node.\<close>

definition has_room :: "grn_pat \<Rightarrow> byte list \<Rightarrow> bool" where
  "has_room pat key \<longleftrightarrow> pat_key_is_embeddable pat (length key) \<or> p_curr_key pat < grn_pat_max_total_key_size pat"

lemma unat_max_total: "unat (grn_pat_max_total_key_size pat) = (if p_key_large pat then 2 ^ 40 - 1 else 2 ^ 32 - 2)"
  by (simp add: grn_pat_max_total_key_size_def)

definition key_put_pos :: "grn_pat \<Rightarrow> nat \<Rightarrow> nat" where
  "key_put_pos pat len =
     (let r = unat (p_curr_key pat) in if in_one_segment r len then r else ((r + len - 1) div 2 ^ 22) * 2 ^ 22)"

lemma unat_u64: "n < 2 ^ 64 \<Longrightarrow> unat (of_nat n :: u64) = n"
  by (simp add: unsigned_of_nat take_bit_nat_eq_self)

lemma unat_push_u64:
  assumes "unat (w :: u64) < 2 ^ 42"
  shows "unat (push_bit 22 w) = unat w * 2 ^ 22"
proof -
  have "unat w * 2 ^ 22 < 2 ^ 64" using assms by simp
  then have "unat (w * 2 ^ 22) = unat w * 2 ^ 22" using unat_mult_lem [of w "2 ^ 22"] by simp
  then show ?thesis by (simp only: push_bit_eq_mult)
qed

lemma ucast_u32_u64: "unat (w :: u64) < 2 ^ 32 \<Longrightarrow> ucast (ucast w :: u32) = w"
  by (simp add: word_unat_eq_iff unsigned_ucast_eq unat_take_bit)

text \<open>Where the storage is not full, a key is put behind all others, in one segment.\<close>

lemma key_put_pos:
  assumes "unat (p_curr_key pat) + len \<le> (if p_key_large pat then 2 ^ 40 - 1 else 2 ^ 32 - 2)" and "0 < len" and "len \<le> 0x1000"
  shows "unat (p_curr_key pat) \<le> key_put_pos pat len" and "in_one_segment (key_put_pos pat len) len"
    and "key_put_pos pat len + len \<le> (if p_key_large pat then 2 ^ 40 - 1 else 2 ^ 32 - 2)"
    and "key_put_pos pat len div 2 ^ 22 = (unat (p_curr_key pat) + len - 1) div 2 ^ 22"
    and "key_put_pos pat len div 2 ^ 22 < (if p_key_large pat then 0x40000 else 0x400)"
proof -
  let ?r = "unat (p_curr_key pat)" and ?E = "(unat (p_curr_key pat) + len - 1) div 2 ^ 22" and ?p = "key_put_pos pat len"
  have E: "?E < (if p_key_large pat then 0x40000 else 0x400)" using assms by (auto simp: less_mult_imp_div_less)
  have seg: "in_one_segment (e * 2 ^ 22) len" for e
    using assms(2,3) by (simp add: in_one_segment_def div_mult_self3 add_diff_assoc)
  show "?r \<le> ?p"
  proof (cases "in_one_segment ?r len")
    case False
    then have "?r div 2 ^ 22 \<noteq> ?E" by (simp add: in_one_segment_def)
    moreover have "?r div 2 ^ 22 \<le> ?E" using assms(2) by (intro div_le_mono) simp
    ultimately have "?r div 2 ^ 22 < ?E" by simp
    then have "?r < ?E * 2 ^ 22" by (simp add: div_less_iff_less_mult)
    then show ?thesis using False by (simp add: key_put_pos_def)
  qed (simp add: key_put_pos_def)
  show "in_one_segment ?p len" using seg by (simp add: key_put_pos_def Let_def)
  show div: "?p div 2 ^ 22 = ?E" by (simp add: key_put_pos_def Let_def in_one_segment_def)
  show "?p div 2 ^ 22 < (if p_key_large pat then 0x40000 else 0x400)" using E div by simp
  show "?p + len \<le> (if p_key_large pat then 2 ^ 40 - 1 else 2 ^ 32 - 2)"
    using assms E by (auto simp: key_put_pos_def Let_def)
qed

lemma key_put_cases:
  assumes "p_curr_key pat < grn_pat_max_total_key_size pat" and "key \<noteq> []" and "length key \<le> 0x1000"
    and "key_put env pat key = (pat', rc, pos)"
  defines "p \<equiv> key_put_pos pat (length key)"
  shows "(rc = GRN_NOT_ENOUGH_SPACE \<and> pat' = pat) \<or>
    (unat (p_curr_key pat) + length key \<le> (if p_key_large pat then 2 ^ 40 - 1 else 2 ^ 32 - 2) \<and>
      (rc = GRN_NO_MEMORY_AVAILABLE \<and> pat' = pat\<lparr>p_curr_key := of_nat p\<rparr> \<or>
       rc = GRN_SUCCESS \<and> pos = of_nat p \<and> KEY_AT pat' pos \<and>
       (\<exists>seg. (\<forall>s. p_seg_key pat s \<longrightarrow> seg s) \<and>
         pat' = pat\<lparr>p_curr_key := of_nat (p + length key), p_seg_key := seg, p_keys := write_keys p key (p_keys pat)\<rparr>)))"
proof -
  let ?mx = "if p_key_large pat then 2 ^ 40 - 1 else 2 ^ 32 - 2 :: nat" and ?r = "unat (p_curr_key pat)" and ?len = "length key"
  have b: "?r < ?mx" and mx: "unat (grn_pat_max_total_key_size pat) = ?mx"
    using assms(1) unat_max_total [of pat] by (simp_all only: word_less_nat_alt)
  have len: "unat (of_nat ?len :: u64) = ?len" using assms(3) by (intro unat_u64) simp
  show ?thesis
  proof (cases "grn_pat_max_total_key_size pat - p_curr_key pat < (of_nat ?len :: u64)")
    case True
    then show ?thesis using assms(1,4) by (simp add: key_put_def grn_pat_total_key_size_def Let_def)
  next
    case False
    have "unat (grn_pat_max_total_key_size pat - p_curr_key pat) = ?mx - ?r"
      using b mx assms(1) by (simp add: unat_sub word_le_nat_alt)
    then have "?len \<le> ?mx - ?r" using False len by (simp only: word_less_nat_alt not_less)
    then have fits: "?r + ?len \<le> ?mx" using b by linarith
    have lpos: "0 < ?len" using assms(2) by simp
    note pos = key_put_pos [OF fits lpos assms(3), folded p_def]
    have small: "?mx < 2 ^ 41" by simp
    have up: "unat (p_curr_key pat + of_nat ?len) = ?r + ?len"
      using fits small len by (subst unat_add_lem [THEN iffD1]) auto
    then have nz: "p_curr_key pat + of_nat ?len \<noteq> 0" using lpos by (metis add_is_0 gr_implies_not0 unat_0)
    have e: "unat (drop_bit 22 (p_curr_key pat + of_nat ?len - 1)) = p div 2 ^ 22"
      unfolding unat_drop_bit pos(4) using unat_pred_no_wrap [OF nz] up by simp
    have pl: "p + ?len < 2 ^ 41" using pos(3) small by (rule le_less_trans)
    have pn: "unat (of_nat p :: u64) = p" by (rule unat_u64) (use pl in simp)
    have pn': "unat (of_nat (p + ?len) :: u64) = p + ?len" by (rule unat_u64) (use pl in simp)
    have moved: "drop_bit 22 (p_curr_key pat) \<noteq> drop_bit 22 (p_curr_key pat + of_nat ?len - 1) \<longleftrightarrow> \<not> in_one_segment ?r ?len"
      by (simp only: unat_inj [symmetric] e pos(4) unat_drop_bit [of _ "p_curr_key pat"] in_one_segment_def)
    have place: "push_bit 22 (drop_bit 22 (p_curr_key pat + of_nat ?len - 1)) = of_nat p" if "\<not> in_one_segment ?r ?len"
    proof -
      have "p = p div 2 ^ 22 * 2 ^ 22" unfolding pos(4) using that by (simp add: p_def key_put_pos_def)
      moreover have "p div 2 ^ 22 < 2 ^ 42" using pos(5) by (simp split: if_splits)
      ultimately show ?thesis using unat_push_u64 [of "drop_bit 22 (p_curr_key pat + of_nat ?len - 1)"] e pn
        by (simp only: unat_inj [symmetric])
    qed
    have stays: "p_curr_key pat = of_nat p" if "in_one_segment ?r ?len"
      using that pn by (simp add: unat_inj [symmetric] p_def key_put_pos_def)
    have total: "pat_update_total_key_size (of_nat q) pt = pt\<lparr>p_curr_key := of_nat q\<rparr>"
      if "unat (of_nat q :: u64) = q" "q \<le> ?mx" "p_key_large pt = p_key_large pat" for q pt
      using that ucast_u32_u64 [of "of_nat q"] by (auto simp: pat_update_total_key_size_def)
    have total_p: "pat_update_total_key_size (of_nat p) pat = pat\<lparr>p_curr_key := of_nat p\<rparr>"
      by (rule total) (use pn pos(3) in auto)
    have step: "(if drop_bit 22 (p_curr_key pat) \<noteq> drop_bit 22 (p_curr_key pat + of_nat ?len - 1)
        then let res = push_bit 22 (drop_bit 22 (p_curr_key pat + of_nat ?len - 1)) in (res, pat_update_total_key_size res pat)
        else (p_curr_key pat, pat)) = (of_nat p, pat\<lparr>p_curr_key := of_nat p\<rparr>)"
      using moved place stays total_p by (cases "in_one_segment ?r ?len") (auto simp: Let_def)
    have kp: "key_put env pat key =
      (case KEY_ADD env (pat\<lparr>p_curr_key := of_nat p\<rparr>) (of_nat p) of
         (pat, False) \<Rightarrow> (pat, GRN_NO_MEMORY_AVAILABLE, 0)
       | (pat, True) \<Rightarrow>
           let pat = pat\<lparr>p_keys := write_keys (unat (of_nat p :: u64)) key (p_keys pat)\<rparr>
           in (pat_update_total_key_size (p_curr_key pat + of_nat ?len) pat, GRN_SUCCESS, of_nat p))"
      using False step by (simp only: key_put_def grn_pat_total_key_size_def Let_def if_False simp_thms split_conv)
    have drop: "unat (drop_bit 22 (of_nat p :: u64)) = p div 2 ^ 22" by (simp add: unat_drop_bit pn)
    have bound: "p div 2 ^ 22 < (if p_key_large (pat\<lparr>p_curr_key := of_nat p\<rparr>) then 0x40000 else 0x400)" using pos(5) by simp
    obtain seg ok where add: "KEY_ADD env (pat\<lparr>p_curr_key := of_nat p\<rparr>) (of_nat p) =
        (pat\<lparr>p_curr_key := of_nat p, p_seg_key := seg\<rparr>, ok)"
      and seg: "\<forall>s. p_seg_key pat s \<longrightarrow> seg s" "ok \<Longrightarrow> seg (p div 2 ^ 22)" "\<not> ok \<Longrightarrow> seg = p_seg_key pat"
    proof (cases "p_seg_key pat (p div 2 ^ 22)")
      case True
      then show ?thesis using bound by (intro that [of "p_seg_key pat" True]) (simp_all add: KEY_ADD_def drop)
    next
      case no_seg: False
      show ?thesis
      proof (cases "pe_alloc_key env (p div 2 ^ 22)")
        case True
        then show ?thesis
          using bound no_seg by (intro that [of "(p_seg_key pat)(p div 2 ^ 22 := True)" True]) (simp_all add: KEY_ADD_def drop)
      next
        case False
        then show ?thesis using bound no_seg by (intro that [of "p_seg_key pat" False]) (simp_all add: KEY_ADD_def drop)
      qed
    qed
    show ?thesis
    proof (cases ok)
      case False
      then have "key_put env pat key = (pat\<lparr>p_curr_key := of_nat p\<rparr>, GRN_NO_MEMORY_AVAILABLE, 0)"
        using kp add seg(3) by simp
      then show ?thesis using fits assms(4) by simp
    next
      case True
      let ?q = "pat\<lparr>p_curr_key := of_nat p, p_seg_key := seg, p_keys := write_keys p key (p_keys pat)\<rparr>"
      have "key_put env pat key = (pat_update_total_key_size (of_nat (p + ?len)) ?q, GRN_SUCCESS, of_nat p)"
        using kp add True pn by simp
      then have "key_put env pat key = (?q\<lparr>p_curr_key := of_nat (p + ?len)\<rparr>, GRN_SUCCESS, of_nat p)"
        using total [OF pn', of ?q] pos(3) by simp
      then have res: "pat' = pat\<lparr>p_curr_key := of_nat (p + ?len), p_seg_key := seg, p_keys := write_keys p key (p_keys pat)\<rparr>"
        "rc = GRN_SUCCESS" "pos = of_nat p" using assms(4) by simp_all
      have "KEY_AT pat' pos" unfolding res using seg(2) True pos(5) by (simp add: KEY_AT_def drop)
      then show ?thesis using fits seg(1) res by blast
    qed
  qed
qed

text \<open>
  A change that concerns the key of one node \<open>x\<close> only.
\<close>

definition stores_key :: "grn_pat \<Rightarrow> grn_pat \<Rightarrow> grn_id \<Rightarrow> bool" where
  "stores_key pat pat' x \<longleftrightarrow>
     p_key_large pat' = p_key_large pat \<and> p_curr_key pat \<le> p_curr_key pat' \<and>
     p_curr_key pat' \<le> grn_pat_max_total_key_size pat \<and>
     (\<forall>p. KEY_AT pat p \<longrightarrow> KEY_AT pat' p) \<and> (\<forall>s. p_seg_pat pat s \<longrightarrow> p_seg_pat pat' s) \<and>
     (\<forall>m. length (pn_key (p_nodes pat' m)) = node_width pat) \<and>
     (\<forall>m. m \<noteq> x \<longrightarrow> pn_key (p_nodes pat' m) = pn_key (p_nodes pat m) \<and> pn_bits (p_nodes pat' m) = pn_bits (p_nodes pat m)) \<and>
     (\<forall>m \<in> ids pat - {x}. \<forall>k \<in> region pat m. p_keys pat' k = p_keys pat k)"

lemma stores_key_other:
  assumes "stores_key pat pat' x" and "store_ok pat" and "m \<in> ids pat" and "m \<noteq> x"
  shows "key_ok pat' m" and "region pat' m = region pat m" and "node_key pat' m = node_key pat m"
proof -
  have node: "pn_key (p_nodes pat' m) = pn_key (p_nodes pat m)" "pn_bits (p_nodes pat' m) = pn_bits (p_nodes pat m)"
    using assms(1,4) by (simp_all add: stores_key_def)
  have len: "key_length pat' m = key_length pat m" and imm: "immediate pat' m = immediate pat m"
    using node(2) by (simp_all add: pat_node_get_key_length_def pat_node_is_key_immediate_def)
  have pos: "key_pos pat' m = key_pos pat m" using node(1) assms(1) by (simp add: pat_node_get_key_offset_def stores_key_def)
  have width: "node_width pat' = node_width pat" using assms(1) by (simp add: stores_key_def node_width_def)
  have curr: "unat (p_curr_key pat) \<le> unat (p_curr_key pat')" using assms(1) by (simp add: stores_key_def word_le_nat_alt)
  note ok = store_okD(2) [OF assms(2,3)]
  have "PAT_AT pat' m \<noteq> None" using ok assms(1) by (auto simp: key_ok_def PAT_AT_def stores_key_def pat_segment_def split: if_splits)
  moreover have "KEY_AT pat' (key_pos pat m)" if "\<not> immediate pat m"
    using ok that assms(1) by (simp add: key_ok_def stores_key_def)
  ultimately show ok': "key_ok pat' m"
    using ok curr by (auto simp: key_ok_def len imm pos width)
  show reg: "region pat' m = region pat m" by (simp add: region_def len imm pos)
  have "length (pn_key (p_nodes pat' m)) = node_width pat'" using assms(1) width by (simp add: stores_key_def)
  note nk' = node_key_ok(3) [OF ok' this] and nk = node_key_ok(3) [OF ok store_okD(1) [OF assms(2)]]
  have "\<forall>k \<in> region pat m. p_keys pat' k = p_keys pat k" using assms by (simp add: stores_key_def)
  then show "node_key pat' m = node_key pat m"
    unfolding nk nk' len imm pos node by (simp add: region_def)
qed

lemma stores_key_store_ok:
  assumes "stores_key pat pat' x" and "store_ok pat" and "ids pat' \<subseteq> insert x (ids pat)" and "p_curr_rec pat' \<le> GRN_ID_MAX"
    and "x \<in> ids pat' \<Longrightarrow> key_ok pat' x"
    and "\<And>m. x \<in> ids pat' \<Longrightarrow> m \<in> ids pat - {x} \<Longrightarrow> region pat' x \<inter> region pat m = {}"
  shows "store_ok pat'"
proof -
  note other = stores_key_other [OF assms(1,2)]
  have sub: "m \<in> ids pat' \<Longrightarrow> m = x \<or> m \<in> ids pat \<and> m \<noteq> x" for m using assms(3) by blast
  have "PAT_AT pat' 0 \<noteq> None"
    using store_okD(3) [OF assms(2)] assms(1) by (auto simp: PAT_AT_def stores_key_def pat_segment_def split: if_splits)
  moreover have "p_curr_key pat' \<le> grn_pat_max_total_key_size pat'"
    using assms(1) by (simp add: stores_key_def grn_pat_max_total_key_size_def)
  moreover have "length (pn_key (p_nodes pat' m)) = node_width pat'" for m
    using assms(1) by (simp add: stores_key_def node_width_def)
  moreover have "key_ok pat' m" if "m \<in> ids pat'" for m
    using sub [OF that] that assms(5) other(1) by blast
  moreover have "region pat' m \<inter> region pat' m' = {}" if mm: "m \<in> ids pat'" "m' \<in> ids pat'" "m \<noteq> m'" for m m'
  proof -
    consider "m = x" "m' \<in> ids pat - {x}" | "m' = x" "m \<in> ids pat - {x}" | "m \<in> ids pat - {x}" "m' \<in> ids pat - {x}"
      using mm sub [of m] sub [of m'] by blast
    then show ?thesis
      using mm assms(6) [of m] assms(6) [of m'] other(2) store_okD(4) [OF assms(2)] by cases (auto simp: Int_commute)
  qed
  ultimately show ?thesis using assms(4) by (simp add: store_ok_def)
qed

text \<open>\<^verbatim>\<open>pat_node_set_key\<close> on a node without a key.\<close>

lemma write_keys_other [simp]: "k < pos \<or> pos + length bs \<le> k \<Longrightarrow> write_keys pos bs mem k = mem k"
  by (auto simp: write_keys_def)

lemma write_keys_read: "map (write_keys pos bs mem) [pos..<pos + length bs] = bs"
  by (auto simp: write_keys_def intro: nth_equalityI)

lemma get_set_key_offset:
  assumes "unat pos < 2 ^ 32 \<or> p_key_large pat"
  shows "pat_node_get_key_offset pat (pat_node_set_key_offset pat pos node) = pos"
  using assms get_u64_bytes [of pos "[]"] get_u32_bytes [of "ucast pos" "[]"] ucast_u32_u64 [of pos]
  by (auto simp: pat_node_get_key_offset_def pat_node_set_key_offset_def)

lemma length_set_key_offset: "length (pn_key (pat_node_set_key_offset pat pos node)) = node_width pat"
  by (simp add: pat_node_set_key_offset_def node_width_def)

definition key_changed :: "grn_pat \<Rightarrow> grn_pat \<Rightarrow> grn_id \<Rightarrow> bool" where
  "key_changed pat pat' x \<longleftrightarrow>
     (\<exists>ck seg ks nx. pat' = pat\<lparr>p_curr_key := ck, p_seg_key := seg, p_keys := ks, p_nodes := (p_nodes pat)(x := nx)\<rparr> \<and>
        pn_left nx = pn_left (p_nodes pat x) \<and> pn_right nx = pn_right (p_nodes pat x) \<and> pn_check nx = pn_check (p_nodes pat x) \<and>
        pat_node_is_deleting nx = pat_node_is_deleting (p_nodes pat x))"

lemma node_setters_links [simp]:
  "pn_left (pat_node_set_key_length n node) = pn_left node" "pn_right (pat_node_set_key_length n node) = pn_right node"
  "pn_check (pat_node_set_key_length n node) = pn_check node" "pn_key (pat_node_set_key_length n node) = pn_key node"
  "pn_left (pat_node_set_key_immediate_on node) = pn_left node" "pn_right (pat_node_set_key_immediate_on node) = pn_right node"
  "pn_check (pat_node_set_key_immediate_on node) = pn_check node" "pn_key (pat_node_set_key_immediate_on node) = pn_key node"
  "pn_left (pat_node_set_key_immediate_off node) = pn_left node" "pn_right (pat_node_set_key_immediate_off node) = pn_right node"
  "pn_check (pat_node_set_key_immediate_off node) = pn_check node" "pn_key (pat_node_set_key_immediate_off node) = pn_key node"
  "pn_left (put_key_field key node) = pn_left node" "pn_right (put_key_field key node) = pn_right node"
  "pn_check (put_key_field key node) = pn_check node" "pn_bits (put_key_field key node) = pn_bits node"
  "pn_left (pat_node_set_key_offset pat pos node) = pn_left node" "pn_right (pat_node_set_key_offset pat pos node) = pn_right node"
  "pn_check (pat_node_set_key_offset pat pos node) = pn_check node" "pn_bits (pat_node_set_key_offset pat pos node) = pn_bits node"
  "pn_key (put_key_field key node) = key @ drop (length key) (pn_key node)"
  by (simp_all add: pat_node_set_key_length_def pat_node_set_key_immediate_on_def pat_node_set_key_immediate_off_def
      put_key_field_def pat_node_set_key_offset_def)

lemma node_setters_bits [simp]:
  "pat_node_get_key_length (put_key_field key node) = pat_node_get_key_length node"
  "pat_node_is_key_immediate (put_key_field key node) = pat_node_is_key_immediate node"
  "pat_node_is_deleting (put_key_field key node) = pat_node_is_deleting node"
  "pat_node_get_key_length (pat_node_set_key_offset pat pos node) = pat_node_get_key_length node"
  "pat_node_is_key_immediate (pat_node_set_key_offset pat pos node) = pat_node_is_key_immediate node"
  "pat_node_is_deleting (pat_node_set_key_offset pat pos node) = pat_node_is_deleting node"
  by (simp_all add: pat_node_get_key_length_def pat_node_is_key_immediate_def pat_node_is_deleting_def)

lemma update_node_nth [simp]: "p_nodes (update_node m f pat) = (p_nodes pat)(m := f (p_nodes pat m))"
  by (simp add: update_node_def)

lemma update_node_embeddable [simp]: "pat_key_is_embeddable (update_node m f pat) n = pat_key_is_embeddable pat n"
  by (simp add: update_node_def pat_key_is_embeddable_def)

lemma update_node_twice [simp]: "update_node m f (update_node m g pat) = update_node m (f \<circ> g) pat"
  by (simp add: update_node_def)

lemma region_below: "store_ok pat \<Longrightarrow> m \<in> ids pat \<Longrightarrow> region pat m \<subseteq> {..<unat (p_curr_key pat)}"
  using store_okD(2) [of pat m] by (auto simp: region_def key_ok_def)

lemma key_changed_node:
  assumes "pn_left nx = pn_left (p_nodes pat x)" and "pn_right nx = pn_right (p_nodes pat x)"
    and "pn_check nx = pn_check (p_nodes pat x)" and "pat_node_is_deleting nx = pat_node_is_deleting (p_nodes pat x)"
  shows "key_changed pat (pat\<lparr>p_nodes := (p_nodes pat)(x := nx)\<rparr>) x"
  unfolding key_changed_def
  by (rule exI [of _ "p_curr_key pat"], rule exI [of _ "p_seg_key pat"], rule exI [of _ "p_keys pat"], rule exI [of _ nx])
    (simp add: assms)

lemma set_key_embedded:
  assumes ok: "store_ok pat" and key: "key \<noteq> []" "length key \<le> 0x1000" and at: "PAT_AT pat x \<noteq> None"
    and emb: "pat_key_is_embeddable pat (length key)" and set: "pat_node_set_key env pat x key = (pat', rc)"
  shows "rc = GRN_SUCCESS \<and> key_changed pat pat' x \<and> stores_key pat pat' x \<and> key_ok pat' x \<and> node_key pat' x = key \<and>
    region pat' x = {}"
proof -
  let ?nx = "put_key_field key (pat_node_set_key_immediate_on (pat_node_set_key_length (length key) (p_nodes pat x)))"
  have pat': "pat' = pat\<lparr>p_nodes := (p_nodes pat)(x := ?nx)\<rparr>" "rc = GRN_SUCCESS"
    using set key emb by (simp_all add: pat_node_set_key_def Let_def) (simp_all add: update_node_def)
  have width: "length key \<le> node_width pat" using emb by (simp add: pat_key_is_embeddable_def node_width_def split: if_splits)
  have len: "length (pn_key ?nx) = node_width pat" using width store_okD(1) [OF ok, of x] by simp
  have nlen: "pat_node_get_key_length ?nx = length key" using key by simp
  have nimm: "pat_node_is_key_immediate ?nx" by simp
  have "key_changed pat pat' x" unfolding pat' by (rule key_changed_node) simp_all
  moreover have "stores_key pat pat' x"
    using ok len store_okD(1) [OF ok] unfolding pat' by (auto simp: stores_key_def store_ok_def KEY_AT_def)
  moreover have kok: "key_ok pat' x"
    using PAT_AT_cong [of pat' pat x] at key width nlen nimm unfolding pat' by (simp add: key_ok_def node_width_def del: node_setters_bits)
  moreover have "node_key pat' x = key"
    using node_key_ok(3) [OF kok] len nlen nimm unfolding pat' by (simp add: node_width_def del: node_setters_bits)
  moreover have "region pat' x = {}" using nimm unfolding pat' by (simp add: region_def)
  ultimately show ?thesis using pat'(2) by blast
qed

lemma set_key_stored:
  assumes ok: "store_ok pat" and key: "key \<noteq> []" "length key \<le> 0x1000" and at: "PAT_AT pat x \<noteq> None" and x: "x \<notin> ids pat"
    and emb: "\<not> pat_key_is_embeddable pat (length key)" and room: "has_room pat key"
    and set: "pat_node_set_key env pat x key = (pat', rc)"
  shows "key_changed pat pat' x \<and> stores_key pat pat' x \<and>
    (rc = GRN_SUCCESS \<longrightarrow> key_ok pat' x \<and> node_key pat' x = key \<and> region pat' x \<inter> {..<unat (p_curr_key pat)} = {})"
proof -
  let ?n1 = "pat_node_set_key_immediate_off (pat_node_set_key_length (length key) (p_nodes pat x))"
  let ?pat1 = "pat\<lparr>p_nodes := (p_nodes pat)(x := ?n1)\<rparr>" and ?len = "length key"
  obtain pat2 pos where put: "key_put env ?pat1 key = (pat2, rc, pos)"
    and pat': "pat' = update_node x (pat_node_set_key_offset pat2 pos) pat2"
  proof -
    have eq: "update_node x (pat_node_set_key_immediate_off \<circ> pat_node_set_key_length ?len) pat = ?pat1"
      by (simp add: update_node_def)
    have "pat_node_set_key env pat x key =
      (case key_put env (update_node x (pat_node_set_key_immediate_off \<circ> pat_node_set_key_length ?len) pat) key of
         (pat, rc, pos) \<Rightarrow> (update_node x (pat_node_set_key_offset pat pos) pat, rc))"
      using key emb by (simp add: pat_node_set_key_def Let_def)
    then show ?thesis using set by (auto simp: eq split: prod.splits intro: that)
  qed
  define p where "p = key_put_pos pat ?len"
  have p1: "key_put_pos ?pat1 ?len = p" by (simp add: key_put_pos_def p_def)
  have max1: "grn_pat_max_total_key_size ?pat1 = grn_pat_max_total_key_size pat" by (simp add: grn_pat_max_total_key_size_def)
  have curr: "p_curr_key pat < grn_pat_max_total_key_size pat" using room emb by (simp add: has_room_def)
  let ?mx = "if p_key_large pat then 2 ^ 40 - 1 else 2 ^ 32 - 2 :: nat"
  have cases: "(rc = GRN_NOT_ENOUGH_SPACE \<and> pat2 = ?pat1) \<or>
    (unat (p_curr_key pat) + ?len \<le> ?mx \<and>
      (rc = GRN_NO_MEMORY_AVAILABLE \<and> pat2 = ?pat1\<lparr>p_curr_key := of_nat p\<rparr> \<or>
       rc = GRN_SUCCESS \<and> pos = of_nat p \<and> KEY_AT pat2 pos \<and>
       (\<exists>seg. (\<forall>s. p_seg_key pat s \<longrightarrow> seg s) \<and>
         pat2 = ?pat1\<lparr>p_curr_key := of_nat (p + ?len), p_seg_key := seg, p_keys := write_keys p key (p_keys pat)\<rparr>)))"
    using key_put_cases [OF _ key put] curr by (simp add: p1 max1)
  have pos: "unat (p_curr_key pat) \<le> p" "p + ?len \<le> ?mx" "in_one_segment p ?len" "unat (of_nat p :: u64) = p"
    "unat (of_nat (p + ?len) :: u64) = p + ?len" if "unat (p_curr_key pat) + ?len \<le> ?mx"
  proof -
    note kp = key_put_pos [OF that _ key(2), folded p_def]
    have small: "?mx < 2 ^ 41" by simp
    show "unat (p_curr_key pat) \<le> p" "p + ?len \<le> ?mx" "in_one_segment p ?len" using kp key(1) by simp_all
    then have pl: "p + ?len < 2 ^ 41" using small by (intro le_less_trans [OF _ small]) simp
    show "unat (of_nat p :: u64) = p" by (rule unat_u64) (use pl in simp)
    show "unat (of_nat (p + ?len) :: u64) = p + ?len" by (rule unat_u64) (use pl in simp)
  qed
  obtain ck seg ks where pat2: "pat2 = ?pat1\<lparr>p_curr_key := ck, p_seg_key := seg, p_keys := ks\<rparr>"
    and ck: "unat (p_curr_key pat) \<le> unat ck" "unat ck \<le> ?mx" and seg: "\<forall>s. p_seg_key pat s \<longrightarrow> seg s"
    and ks: "\<forall>k < unat (p_curr_key pat). ks k = p_keys pat k"
    and fin: "rc = GRN_SUCCESS \<Longrightarrow> unat (p_curr_key pat) + ?len \<le> ?mx \<and> pos = of_nat p \<and> KEY_AT pat2 pos \<and>
      ck = of_nat (p + ?len) \<and> ks = write_keys p key (p_keys pat)"
  proof -
    have mx: "unat (p_curr_key pat) \<le> ?mx" using curr unat_max_total [of pat] by (simp only: word_less_nat_alt)
    from cases consider "rc = GRN_NOT_ENOUGH_SPACE" "pat2 = ?pat1"
      | "unat (p_curr_key pat) + ?len \<le> ?mx" "rc = GRN_NO_MEMORY_AVAILABLE" "pat2 = ?pat1\<lparr>p_curr_key := of_nat p\<rparr>"
      | seg where "unat (p_curr_key pat) + ?len \<le> ?mx" "rc = GRN_SUCCESS" "pos = of_nat p" "KEY_AT pat2 pos"
        "\<forall>s. p_seg_key pat s \<longrightarrow> seg s"
        "pat2 = ?pat1\<lparr>p_curr_key := of_nat (p + ?len), p_seg_key := seg, p_keys := write_keys p key (p_keys pat)\<rparr>"
      by blast
    then show ?thesis
    proof cases
      case 1
      then show ?thesis using mx by (intro that [of "p_keys pat" "p_seg_key pat" "p_curr_key pat"]) simp_all
    next
      case 2
      note ps = pos [OF 2(1)]
      show ?thesis
        by (rule that [of "p_keys pat" "p_seg_key pat" "of_nat p"]) (use 2 ps in \<open>simp_all only: grn_rc.distinct\<close>, simp_all)
    next
      case (3 seg)
      note ps = pos [OF 3(1)]
      show ?thesis
        by (rule that [of "write_keys p key (p_keys pat)" seg "of_nat (p + ?len)"]) (use 3 ps in auto)
    qed
  qed
  let ?nx = "pat_node_set_key_offset pat2 pos ?n1"
  have pat'': "pat' = pat\<lparr>p_curr_key := ck, p_seg_key := seg, p_keys := ks, p_nodes := (p_nodes pat)(x := ?nx)\<rparr>"
    unfolding pat' by (simp add: update_node_def pat2)
  have width: "node_width pat2 = node_width pat" by (simp add: pat2 node_width_def)
  have "key_changed pat pat' x"
    unfolding key_changed_def pat''
    by (rule exI [of _ ck], rule exI [of _ seg], rule exI [of _ ks], rule exI [of _ ?nx]) simp
  moreover have "stores_key pat pat' x"
    unfolding stores_key_def
  proof (intro conjI)
    show "\<forall>m \<in> ids pat - {x}. \<forall>k \<in> region pat m. p_keys pat' k = p_keys pat k"
      using ks region_below [OF ok] by (auto simp: pat'')
    show "\<forall>m. length (pn_key (p_nodes pat' m)) = node_width pat"
      using store_okD(1) [OF ok] width by (simp add: pat'' length_set_key_offset)
    show "p_curr_key pat' \<le> grn_pat_max_total_key_size pat" using ck(2) by (simp add: pat'' word_le_nat_alt unat_max_total)
    show "\<forall>p. KEY_AT pat p \<longrightarrow> KEY_AT pat' p" using seg by (simp add: pat'' KEY_AT_def Let_def)
  qed (use ck(1) in \<open>simp_all add: pat'' word_le_nat_alt\<close>)
  moreover have "key_ok pat' x \<and> node_key pat' x = key \<and> region pat' x \<inter> {..<unat (p_curr_key pat)} = {}" if rc: "rc = GRN_SUCCESS"
  proof -
    note d = fin [OF rc]
    note ps = pos [OF conjunct1 [OF d]]
    have nlen: "key_length pat' x = ?len" and nimm: "\<not> immediate pat' x" using key by (simp_all add: pat'')
    have "unat pos < 2 ^ 32 \<or> p_key_large pat2"
      using ps(2,4) d by (cases "p_key_large pat") (auto simp: pat2)
    then have "pat_node_get_key_offset pat2 ?nx = pos" by (rule get_set_key_offset)
    then have npos: "key_pos pat' x = pos" by (simp add: pat'' pat2 pat_node_get_key_offset_def)
    have "p_key_large pat' = p_key_large pat2" "p_seg_key pat' = p_seg_key pat2" by (simp_all add: pat'' pat2)
    from KEY_AT_cong [OF this, of pos] d have kat: "KEY_AT pat' pos" by blast
    have wl: "node_width pat < ?len" using emb by (simp add: pat_key_is_embeddable_def node_width_def split: if_splits)
    have kok: "key_ok pat' x"
    proof -
      have "PAT_AT pat' x \<noteq> None" using at PAT_AT_cong [of pat' pat x] by (simp add: pat'')
      moreover have "node_width pat' = node_width pat" "p_curr_key pat' = ck" by (simp_all add: pat'' node_width_def)
      ultimately show ?thesis using key wl d ps kat nimm by (simp add: key_ok_def nlen npos del: of_nat_add)
    qed
    have "length (pn_key (p_nodes pat' x)) = node_width pat'" using width by (simp add: pat'' length_set_key_offset node_width_def)
    from node_key_ok(3) [OF kok this] have "node_key pat' x = key"
      using nimm nlen npos d ps(4) write_keys_read [of p key] by (simp add: pat'')
    moreover have "region pat' x \<inter> {..<unat (p_curr_key pat)} = {}"
      using nimm d ps by (auto simp: region_def nlen npos)
    ultimately show ?thesis using kok by blast
  qed
  ultimately show ?thesis by blast
qed

end
