(* ===== verification/PatInv.thy ===== *)
theory PatInv
  imports PatStore
begin

text \<open>
  The invariant of a patricia trie.  The links form an ordered tree over the keys of its nodes.  Every inner node has an owner among
  the records below it: the record of the node itself or, when that record has been deleted and the node waits to be replaced, the
  record whose node will take its place.  A record that owns no inner node has a node that leads only to itself.
  The pending deletions are the waiting nodes and the nodes that are out of the tree; free nodes are linked by the size of
  their keys.
\<close>

section \<open>Owners\<close>

fun owned :: "(grn_id \<Rightarrow> grn_id) \<Rightarrow> ptree \<Rightarrow> bool" where
  "owned ow (Inner i k l r) \<longleftrightarrow> ow i \<in> set (records l) \<union> set (records r) \<and> owned ow l \<and> owned ow r"
| "owned ow t \<longleftrightarrow> True"

definition self_loop :: "grn_id \<Rightarrow> pat_node \<Rightarrow> bool" where
  "self_loop r node \<longleftrightarrow>
     (pn_left node = GRN_ID_NIL \<and> pn_right node = r) \<or> (pn_right node = GRN_ID_NIL \<and> pn_left node = r)"

definition leaf_ok :: "grn_pat \<Rightarrow> grn_id \<Rightarrow> bool" where
  "leaf_ok pat r \<longleftrightarrow> self_loop r (p_nodes pat r) \<and> pat_node_get_check (p_nodes pat r) < klen (node_key pat r) \<and>
     (pat_node_get_check (p_nodes pat r) \<noteq> 0 \<longrightarrow>
        link (p_nodes pat) (r, direction (kbit (node_key pat r) (pat_node_get_check (p_nodes pat r)))) = r)"

definition owner_ok :: "grn_pat \<Rightarrow> ptree \<Rightarrow> (grn_id \<Rightarrow> grn_id) \<Rightarrow> bool" where
  "owner_ok pat t ow \<longleftrightarrow> owned ow t \<and> inj_on ow (set (inners t)) \<and>
     (\<forall>i \<in> set (inners t). ow i \<noteq> i \<longrightarrow> i \<notin> set (records t) \<and> ow i \<notin> set (inners t) \<and> \<not> self_loop (ow i) (p_nodes pat (ow i))) \<and>
     (\<forall>r \<in> set (records t). r \<notin> ow ` set (inners t) \<longrightarrow> leaf_ok pat r)"

section \<open>The whole table\<close>

definition tree_ok :: "grn_pat \<Rightarrow> ptree \<Rightarrow> bool" where
  "tree_ok pat t \<longleftrightarrow> tree_at (p_nodes pat) (- 1) (link (p_nodes pat) root_location) t \<and> key_tree (node_key pat) t \<and>
     distinct (inners t) \<and> distinct (records t) \<and> members t \<subseteq> ids pat"

text \<open>The ring of pending deletions: entries in use lie between \<^verbatim>\<open>curr_del3\<close> and \<^verbatim>\<open>curr_del\<close>, and the waiting ones behind \<^verbatim>\<open>curr_del2\<close>.\<close>

definition ring_dist :: "nat \<Rightarrow> nat \<Rightarrow> nat" where
  "ring_dist i j = (j + GRN_PAT_NDELINFOS - i) mod GRN_PAT_NDELINFOS"

abbreviation stat_of :: "grn_pat \<Rightarrow> nat \<Rightarrow> delinfo_stat" where
  "stat_of pat j \<equiv> di_stat (p_delinfos pat j)"

definition ring_ok :: "grn_pat \<Rightarrow> bool" where
  "ring_ok pat \<longleftrightarrow> p_curr_del pat < GRN_PAT_NDELINFOS \<and> p_curr_del2 pat < GRN_PAT_NDELINFOS \<and> p_curr_del3 pat < GRN_PAT_NDELINFOS \<and>
     ring_dist (p_curr_del2 pat) (p_curr_del pat) \<le> ring_dist (p_curr_del3 pat) (p_curr_del pat) \<and>
     ring_dist (p_curr_del2 pat) (p_curr_del pat) \<le> GRN_PAT_NDELINFOS div 2 \<and>
     (\<forall>j < GRN_PAT_NDELINFOS. \<not> di_shared (p_delinfos pat j) \<and>
        (ring_dist (p_curr_del3 pat) (p_curr_del pat) \<le> ring_dist (p_curr_del3 pat) j \<longrightarrow> stat_of pat j = DL_EMPTY) \<and>
        (ring_dist (p_curr_del2 pat) (p_curr_del pat) \<le> ring_dist (p_curr_del2 pat) j \<longrightarrow> stat_of pat j \<noteq> DL_PHASE1))"

definition pending_ok :: "grn_pat \<Rightarrow> ptree \<Rightarrow> (grn_id \<Rightarrow> grn_id) \<Rightarrow> bool" where
  "pending_ok pat t ow \<longleftrightarrow>
     (\<forall>j < GRN_PAT_NDELINFOS. stat_of pat j = DL_PHASE1 \<longrightarrow>
        di_d (p_delinfos pat j) \<in> set (inners t) \<and> ow (di_d (p_delinfos pat j)) = di_ld (p_delinfos pat j) \<and>
        di_ld (p_delinfos pat j) \<noteq> di_d (p_delinfos pat j)) \<and>
     (\<forall>i \<in> set (inners t). ow i \<noteq> i \<longrightarrow>
        (\<exists>j < GRN_PAT_NDELINFOS. stat_of pat j = DL_PHASE1 \<and> di_d (p_delinfos pat j) = i)) \<and>
     (\<forall>j < GRN_PAT_NDELINFOS. stat_of pat j = DL_PHASE2 \<longrightarrow>
        di_d (p_delinfos pat j) \<in> ids pat \<and> di_d (p_delinfos pat j) \<notin> members t) \<and>
     (\<forall>j < GRN_PAT_NDELINFOS. \<forall>j' < GRN_PAT_NDELINFOS. stat_of pat j \<noteq> DL_EMPTY \<longrightarrow> stat_of pat j' \<noteq> DL_EMPTY \<longrightarrow>
        di_d (p_delinfos pat j) = di_d (p_delinfos pat j') \<longrightarrow> j = j') \<and>
     (\<forall>m \<in> members t. pat_node_is_deleting (p_nodes pat m) \<longleftrightarrow>
        (\<exists>j < GRN_PAT_NDELINFOS. stat_of pat j = DL_PHASE1 \<and> (di_d (p_delinfos pat j) = m \<or> di_ld (p_delinfos pat j) = m)))"

definition storage_class :: "grn_pat \<Rightarrow> grn_id \<Rightarrow> nat" where
  "storage_class pat m = (if immediate pat m then 0 else key_length pat m)"

definition free_nodes :: "(nat \<Rightarrow> grn_id list) \<Rightarrow> grn_id set" where
  "free_nodes gs = (\<Union>sz \<le> GRN_TABLE_MAX_KEY_SIZE. set (gs sz))"

definition garbage_ok :: "grn_pat \<Rightarrow> ptree \<Rightarrow> (nat \<Rightarrow> grn_id list) \<Rightarrow> bool" where
  "garbage_ok pat t gs \<longleftrightarrow>
     (\<forall>sz \<le> GRN_TABLE_MAX_KEY_SIZE. chain (\<lambda>m. pn_left (p_nodes pat m)) (p_garbages pat sz) (gs sz) \<and> distinct (gs sz) \<and>
        (\<forall>m \<in> set (gs sz). m \<in> ids pat \<and> m \<notin> members t \<and> storage_class pat m = sz \<and>
           (\<forall>j < GRN_PAT_NDELINFOS. stat_of pat j \<noteq> DL_EMPTY \<longrightarrow> di_d (p_delinfos pat j) \<noteq> m)))"

definition cache_ok :: "grn_pat \<Rightarrow> ptree \<Rightarrow> bool" where
  "cache_ok pat t \<longleftrightarrow>
     (\<forall>c. p_cache pat = Some c \<longrightarrow>
        (\<exists>n. length c = 2 ^ n \<and> n < 32) \<and>
        (\<forall>j < length c. c ! j \<noteq> GRN_ID_NIL \<longrightarrow>
           c ! j \<in> set (records t) \<and> j = grn_pat_cache_compute_id (length c) (node_key pat (c ! j))))"

definition pat_inv :: "grn_pat \<Rightarrow> ptree \<Rightarrow> (grn_id \<Rightarrow> grn_id) \<Rightarrow> (nat \<Rightarrow> grn_id list) \<Rightarrow> bool" where
  "pat_inv pat t ow gs \<longleftrightarrow> store_ok pat \<and> tree_ok pat t \<and> owner_ok pat t ow \<and> ring_ok pat \<and> pending_ok pat t ow \<and>
     garbage_ok pat t gs \<and> cache_ok pat t \<and> p_n_entries pat = of_nat (length (records t)) \<and> \<not> p_truncated pat \<and> \<not> p_with_sis pat"

lemma pat_invD:
  assumes "pat_inv pat t ow gs"
  shows "store_ok pat" and "tree_ok pat t" and "owner_ok pat t ow" and "ring_ok pat" and "pending_ok pat t ow"
    and "garbage_ok pat t gs" and "cache_ok pat t" and "p_n_entries pat = of_nat (length (records t))"
    and "\<not> p_truncated pat" and "\<not> p_with_sis pat"
  using assms by (simp_all add: pat_inv_def)

lemma tree_okD:
  assumes "tree_ok pat t"
  shows "tree_at (p_nodes pat) (- 1) (link (p_nodes pat) root_location) t" and "key_tree (node_key pat) t"
    and "distinct (inners t)" and "distinct (records t)" and "members t \<subseteq> ids pat"
  using assms by (simp_all add: tree_ok_def)

text \<open>The records of a table: the keys by their ids.\<close>

definition pat_ok :: "grn_pat \<Rightarrow> bool" where
  "pat_ok pat \<longleftrightarrow> (\<exists>t ow gs. pat_inv pat t ow gs)"

text \<open>The ids of the records, as the traversal of the tree meets them.\<close>

function collect :: "(grn_id \<Rightarrow> pat_node) \<Rightarrow> int \<Rightarrow> grn_id \<Rightarrow> grn_id list" where
  "collect N c rid =
     (if rid = GRN_ID_NIL then []
      else let k = pat_node_get_check (N rid)
           in if k \<le> c then [rid] else collect N k (pn_left (N rid)) @ collect N k (pn_right (N rid)))"
  by pat_completeness auto
termination
proof (relation "measure (\<lambda>(N, c, rid). nat (2 ^ 16 - c))")
  fix N :: "grn_id \<Rightarrow> pat_node" and c k :: int and rid :: grn_id
  assume "k = pat_node_get_check (N rid)" and "\<not> k \<le> c"
  moreover have "uint (pn_check (N rid)) < 2 ^ 16" using uint_lt2p [of "pn_check (N rid)"] by simp
  ultimately have "nat (2 ^ 16 - k) < nat (2 ^ 16 - c)" by (auto simp: pat_node_get_check_def)
  then show "((N, k, pn_left (N rid)), N, c, rid) \<in> measure (\<lambda>(N, c, rid). nat (2 ^ 16 - c))"
    "((N, k, pn_right (N rid)), N, c, rid) \<in> measure (\<lambda>(N, c, rid). nat (2 ^ 16 - c))" by auto
qed simp

declare collect.simps [simp del]

lemma collect_tree: "tree_at N c rid t \<Longrightarrow> collect N c rid = records t"
  by (induction t arbitrary: c rid) (auto simp: collect.simps Let_def)

definition record_ids :: "grn_pat \<Rightarrow> grn_id set" where
  "record_ids pat = set (collect (p_nodes pat) (- 1) (pn_right (p_nodes pat 0)))"

lemma record_ids_tree: "tree_ok pat t \<Longrightarrow> record_ids pat = set (records t)"
  using collect_tree [of "p_nodes pat" "- 1" _ t] by (simp add: tree_ok_def record_ids_def)

text \<open>The content of a table: a map from ids to keys.\<close>

definition content :: "grn_pat \<Rightarrow> grn_id \<Rightarrow> byte list option" where
  "content pat r = (if r \<in> record_ids pat then Some (node_key pat r) else None)"

lemma content_Some: "tree_ok pat t \<Longrightarrow> content pat r = Some key \<longleftrightarrow> r \<in> set (records t) \<and> node_key pat r = key"
  by (auto simp: content_def record_ids_tree)

section \<open>Lookup\<close>

lemma pat_get_tree:
  assumes "store_ok pat" and "tree_ok pat t" and "key \<noteq> []"
  shows "pat_get pat key = tree_get (node_key pat) key t"
  unfolding pat_get_def
proof (rule pat_get_loop_tree)
  show "tree_at (p_nodes pat) (- 1) (id_at pat root_location) t" using tree_okD(1) [OF assms(2)] by (simp add: id_at_link)
  show "\<And>m. m \<in> members t \<Longrightarrow> readable pat (node_key pat) m"
    using store_ok_readable(1) [OF assms(1)] tree_okD(5) [OF assms(2)] by blast
qed (use klen_pos [OF assms(3)] in simp)

lemma pat_get_content:
  assumes "pat_inv pat t ow gs" and "key \<noteq> []"
  shows "pat_get pat key = r \<longleftrightarrow> (if r = GRN_ID_NIL then key \<notin> ran (content pat) else content pat r = Some key)"
proof -
  note ok = pat_invD(1,2) [OF assms(1)]
  have "0 \<notin> members t" using tree_okD(5) [OF ok(2)] by (auto simp: ids_def)
  note get = tree_get_iff [OF tree_okD(2) [OF ok(2)] this, of key r, folded pat_get_tree [OF ok assms(2)]]
  have "key \<notin> ran (content pat) \<longleftrightarrow> (\<forall>q \<in> set (records t). node_key pat q \<noteq> key)"
    by (auto simp: ran_def content_Some [OF ok(2)])
  then show ?thesis by (simp add: get content_Some [OF ok(2)])
qed

end
