(* ===== verification/PatAdd.thy ===== *)
theory PatAdd
  imports PatInv
begin

text \<open>
  Additions to a patricia trie keep its invariant and its other records: the tree after \<^verbatim>\<open>grn_pat_enable_node\<close>, and the two ways to get a
  node, a new one behind the last or a free one with room for the key.
\<close>

section \<open>The tree with the new node\<close>

lemma direction_inject [simp]: "direction a = direction b \<longleftrightarrow> a = b"
  by (simp add: direction_def)

lemma direction_cases: "d = direction b \<or> d = direction (\<not> b)"
  by (cases d) (auto simp: direction_def)

lemma link_set_child:
  "link N (i, d) = r' \<Longrightarrow> link (N(i := pat_node_set_child d' r (N i))) (i, d) = (if d = d' then r else r')"
  by (cases d; cases d') (auto simp: link_def pat_node_get_child_def pat_node_set_child_def)

lemma enable_node_nodes:
  fixes x key c pat L
  assumes "x \<noteq> fst L"
  defines "N \<equiv> p_nodes pat" and "N' \<equiv> p_nodes (grn_pat_enable_node x key c (klen key) L pat)"
  shows "m \<noteq> x \<Longrightarrow> m \<noteq> fst L \<Longrightarrow> N' m = N m"
    and "pn_check (N' (fst L)) = pn_check (N (fst L))" and "pn_bits (N' (fst L)) = pn_bits (N (fst L))"
    and "link N' (fst L, d) = (if d = snd L then x else link N (fst L, d))"
    and "pn_check (N' x) = word_of_int c" and "link N' (x, direction (kbit key c)) = x"
    and "link N' (x, direction (\<not> kbit key c)) = link N L" and "\<not> pat_node_is_deleting (N' x)"
proof -
  obtain l dl where L: "L = (l, dl)" by force
  let ?b = "kbit key c"
  define nx where "nx = (if ?b then (pat_node_set_deleting_off (pat_node_set_check c (N x)))\<lparr>pn_right := x, pn_left := link N L\<rparr>
      else (pat_node_set_deleting_off (pat_node_set_check c (N x)))\<lparr>pn_right := link N L, pn_left := x\<rparr>)"
  have N': "N' = N(x := nx, l := pat_node_set_child dl x (N l))"
    using assms(1)
    by (auto simp: N'_def N_def L nx_def grn_pat_enable_node_def Let_def set_id_at_def id_at_link link_def pat_node_set_child_def
        pat_node_get_child_def fun_eq_iff split: pat_node_direction.split)
  have nx: "pn_check nx = word_of_int c" "\<not> pat_node_is_deleting nx"
    by (simp_all add: nx_def pat_node_set_check_def pat_node_set_deleting_off_def bits_deleting bit_and_iff bit_not_iff)
  show "m \<noteq> x \<Longrightarrow> m \<noteq> fst L \<Longrightarrow> N' m = N m" by (simp add: N' L)
  show "pn_check (N' (fst L)) = pn_check (N (fst L))" "pn_bits (N' (fst L)) = pn_bits (N (fst L))" by (simp_all add: N' L)
  show "link N' (fst L, d) = (if d = snd L then x else link N (fst L, d))"
    by (cases d; cases dl) (simp_all add: N' L pat_node_set_child_def)
  show "pn_check (N' x) = word_of_int c" "\<not> pat_node_is_deleting (N' x)" using assms(1) nx by (simp_all add: N' L)
  show "link N' (x, direction ?b) = x" "link N' (x, direction (\<not> ?b)) = link N L"
    using assms(1) by (auto simp: N' L nx_def direction_def)
qed

lemma path_check_less: "c0 < c \<Longrightarrow> path_check key c c0 t < c"
  by (induction t arbitrary: c0) auto

lemma tree_at_raise:
  "tree_at N c0 rid s \<Longrightarrow> c0 \<le> c \<Longrightarrow> (\<And>i k l r. s = Inner i k l r \<Longrightarrow> c < k) \<Longrightarrow> tree_at N c rid s"
  by (cases s) auto

lemma fits_below_check: "fits K key c t \<Longrightarrow> below key c t = Inner i k l r \<Longrightarrow> c < k"
  by (induction t) (auto split: if_splits)

lemma enable_node_tree:
  fixes x key c pat L
  assumes t: "tree_at (p_nodes pat) (- 1) (link (p_nodes pat) root_location) t" and dist: "distinct (inners t)"
    and x: "x \<notin> members t" "x \<noteq> GRN_ID_NIL" and place: "place_ok K key t L c" and len: "klen key \<le> 0x10000"
  defines "N' \<equiv> p_nodes (grn_pat_enable_node x key c (klen key) L pat)"
  shows "fits K key c t \<and> tree_at N' (- 1) (link N' root_location) (tree_insert x key c t) \<or>
    fits_end K key t \<and> path_check key (klen key) (- 1) t = c \<and> L = insert_location key (klen key) root_location t \<and>
      tree_at N' (- 1) (link N' root_location) (tree_put x key t)"
proof -
  let ?N = "p_nodes pat"
  have z: "0 \<notin> members t" by (rule tree_at_members_nonzero [OF t])
  have c: "0 \<le> c" "c < klen key" using place by (simp_all add: place_ok_def)
  have sub: "set (inners (rest key c' t)) \<subseteq> members t" "members (rest key c' t) \<subseteq> members t" for c'
    using members_split [of t key c'] by auto
  obtain c' where "L = insert_location key c' root_location t" using place by (auto simp: place_ok_def)
  then have Lnode: "L = root_location \<or> fst L \<in> members t"
    using insert_location_node [of key c' root_location t] sub(1) [of c'] by auto
  have xL: "x \<noteq> fst L" using Lnode x by auto
  note en = enable_node_nodes [OF xL, where key = key and c = c and pat = pat, folded N'_def]
  have same: "pn_check (N' m) = pn_check (?N m)" if "m \<noteq> x" for m
    using en(1) [OF that] en(2) that by (cases "m = fst L") auto
  have lk: "link N' (i, d) = link ?N (i, d)" if "i \<noteq> x" "(i, d) \<noteq> L" for i d
    using en(1) [OF that(1)] en(4) [of d] that by (cases "i = fst L") (auto simp: link_def)
  have LN: "link N' L = x" using en(4) [of "snd L"] by simp
  have graft: "tree_at N' (- 1) (link N' root_location) (graft key c' s t)"
    if L: "L = insert_location key c' root_location t"
      and s: "tree_at N' (path_check key c' (- 1) t) x s" for c' s
  proof (rule tree_at_graft [OF t dist])
    show "fst root_location \<notin> set (inners t)" using z by auto
    show "link N' (i, d) = link ?N (i, d)" if "i \<in> set (inners (rest key c' t))" "(i, d) \<noteq> insert_location key c' root_location t" for i d
      using that x sub(1) [of c'] L by (intro lk) auto
    show "pn_check (N' m) = pn_check (?N m)" if "m \<in> members (rest key c' t)" for m using that x sub(2) [of c'] by (intro same) auto
    show "link N' root_location = link ?N root_location" if "insert_location key c' root_location t \<noteq> root_location"
      using that x L by (intro lk) auto
    show "tree_at N' (path_check key c' (- 1) t) (link N' (insert_location key c' root_location t)) s" using s L LN by simp
  qed
  have cx: "pat_node_get_check (N' x) = c"
    using c len en(5) by (simp add: pat_node_get_check_def uint_word_of_int)
  from place consider (ins) "fits K key c t" "L = insert_location key c root_location t"
    | (put) "fits_end K key t" "L = insert_location key (klen key) root_location t" "path_check key (klen key) (- 1) t = c"
    by (auto simp: place_ok_def)
  then show ?thesis
  proof cases
    case ins
    let ?s = "below key c t"
    have pc: "path_check key c (- 1) t < c" using c by (intro path_check_less) simp
    have s: "tree_at ?N (path_check key c (- 1) t) (link ?N L) ?s" using tree_at_below [OF t, of key c] ins(2) by simp
    have "tree_at ?N c (link ?N L) ?s"
      using pc fits_below_check [OF ins(1)] by (intro tree_at_raise [OF s]) auto
    then have "tree_at N' c (link ?N L) ?s"
    proof (rule tree_at_cong)
      fix i assume i: "i \<in> set (inners ?s)"
      have "i \<noteq> fst L"
        using i insert_location_node [of key c root_location t] distinct_inners_split(3) [OF dist, of key c] z ins(2) set_inners_split [of t key c]
        by auto
      then have "N' i = ?N i" using i x(1) members_split [of t key c] by (intro en(1)) auto
      then show "pn_left (N' i) = pn_left (?N i) \<and> pn_right (N' i) = pn_right (?N i)" by simp
    qed (use x(1) members_split [of t key c] in \<open>auto intro!: same\<close>)
    then have "tree_at N' (path_check key c (- 1) t) x (new_inner x key c ?s)"
      using cx x(2) pc en(6,7) by (auto simp: new_inner_def link_direction)
    from graft [OF ins(2) this] show ?thesis using ins(1) by (simp add: tree_insert_graft)
  next
    case put
    have "tree_at N' (path_check key (klen key) (- 1) t) x (Record x)" using put(3) cx x(2) by simp
    from graft [OF put(2) this] show ?thesis using put by (simp add: tree_put_graft [OF put(1)])
  qed
qed

section \<open>Owners\<close>

lemma owned_cong: "owned ow t \<Longrightarrow> (\<And>i. i \<in> set (inners t) \<Longrightarrow> ow' i = ow i) \<Longrightarrow> owned ow' t"
  by (induction t) auto

lemma owned_member: "owned ow t \<Longrightarrow> i \<in> set (inners t) \<Longrightarrow> ow i \<in> set (records t)"
  by (induction t) auto

lemma owned_insert: "owned ow t \<Longrightarrow> ow x = x \<Longrightarrow> owned ow (tree_insert x key c t)"
  by (induction t) (auto simp: new_inner_def)

lemma owned_put: "owned ow t \<Longrightarrow> fits_end K key t \<Longrightarrow> owned ow (tree_put x key t)"
proof (induction t)
  case (Inner i k l r)
  then show ?case using records_put [of K key "child key k l r" x] by (cases "kbit key k") auto
qed auto

lemma mset_insert:
  "mset (inners (tree_insert x key c t)) = mset (x # inners t)" "mset (records (tree_insert x key c t)) = mset (x # records t)"
  by (induction t) (auto simp: new_inner_def)

lemma mset_put: "fits_end K key t \<Longrightarrow> mset (records (tree_put x key t)) = mset (x # records t)"
  by (induction t) (auto split: if_splits)

lemma distinct_insert:
  assumes "distinct (inners t)" and "distinct (records t)" and "x \<notin> members t"
  shows "distinct (inners (tree_insert x key c t))" and "distinct (records (tree_insert x key c t))"
  using assms mset_insert [of x key c t, THEN mset_eq_imp_distinct_iff] by simp_all

lemma distinct_put: "distinct (records t) \<Longrightarrow> x \<notin> members t \<Longrightarrow> fits_end K key t \<Longrightarrow> distinct (records (tree_put x key t))"
  using mset_put [of K key t x, THEN mset_eq_imp_distinct_iff] by simp

lemma length_insert: "length (records (tree_insert x key c t)) = Suc (length (records t))"
  using mset_insert(2) [of x key c t, THEN mset_eq_length] by simp

lemma length_put: "fits_end K key t \<Longrightarrow> length (records (tree_put x key t)) = Suc (length (records t))"
  using mset_put [of K key t x, THEN mset_eq_length] by simp

section \<open>Linking a prepared node\<close>

lemma enable_node_fields [simp]:
  fixes x key c cm L pat
  defines "pat' \<equiv> grn_pat_enable_node x key c cm L pat"
  shows "p_delinfos pat' = p_delinfos pat" "p_curr_del pat' = p_curr_del pat" "p_curr_del2 pat' = p_curr_del2 pat"
    "p_curr_del3 pat' = p_curr_del3 pat" "p_cache pat' = p_cache pat" "p_garbages pat' = p_garbages pat"
    "p_n_entries pat' = p_n_entries pat" "p_truncated pat' = p_truncated pat" "p_with_sis pat' = p_with_sis pat"
    "p_value_size pat' = p_value_size pat" "p_values pat' = p_values pat" "p_n_garbages pat' = p_n_garbages pat"
    "p_key_type pat' = p_key_type pat" "p_geo pat' = p_geo pat" "p_var_size pat' = p_var_size pat"
  by (simp_all add: pat'_def grn_pat_enable_node_def Let_def set_id_at_def update_node_def)

text \<open>A table with a node that holds a key and belongs neither to the tree nor to the pending or free nodes.\<close>

definition ready :: "grn_pat \<Rightarrow> ptree \<Rightarrow> (grn_id \<Rightarrow> grn_id) \<Rightarrow> (nat \<Rightarrow> grn_id list) \<Rightarrow> grn_id \<Rightarrow> byte list \<Rightarrow> bool" where
  "ready pat t ow gs x key \<longleftrightarrow> store_ok pat \<and> tree_ok pat t \<and> owner_ok pat t ow \<and> ring_ok pat \<and> pending_ok pat t ow \<and>
     garbage_ok pat t gs \<and> cache_ok pat t \<and> p_n_entries pat = of_nat (Suc (length (records t))) \<and> \<not> p_truncated pat \<and>
     \<not> p_with_sis pat \<and> x \<in> ids pat \<and> x \<notin> members t \<and> x \<notin> free_nodes gs \<and> node_key pat x = key \<and>
     (\<forall>j < GRN_PAT_NDELINFOS. stat_of pat j \<noteq> DL_EMPTY \<longrightarrow> di_d (p_delinfos pat j) \<noteq> x)"

lemma readyD:
  assumes "ready pat t ow gs x key"
  shows "store_ok pat" and "tree_ok pat t" and "owner_ok pat t ow" and "ring_ok pat" and "pending_ok pat t ow"
    and "garbage_ok pat t gs" and "cache_ok pat t" and "p_n_entries pat = of_nat (Suc (length (records t)))" and "\<not> p_truncated pat"
    and "\<not> p_with_sis pat" and "x \<in> ids pat" and "x \<notin> members t" and "x \<notin> free_nodes gs" and "node_key pat x = key"
    and "\<And>j. j < GRN_PAT_NDELINFOS \<Longrightarrow> stat_of pat j \<noteq> DL_EMPTY \<Longrightarrow> di_d (p_delinfos pat j) \<noteq> x"
  using assms by (simp_all add: ready_def)

lemma free_nodesI: "sz \<le> GRN_TABLE_MAX_KEY_SIZE \<Longrightarrow> m \<in> set (gs sz) \<Longrightarrow> m \<in> free_nodes gs"
  unfolding free_nodes_def by blast

text \<open>The parts of the invariant that a node added to the tree leaves as they are.\<close>

lemma ready_frame:
  assumes r: "ready pat t ow gs x key"
    and sk: "same_keys pat pat'" and fields: "p_delinfos pat' = p_delinfos pat" "p_curr_del pat' = p_curr_del pat"
      "p_curr_del2 pat' = p_curr_del2 pat" "p_curr_del3 pat' = p_curr_del3 pat" "p_cache pat' = p_cache pat" "p_garbages pat' = p_garbages pat"
    and mem: "members t' = insert x (members t)" and rec: "set (records t') = insert x (set (records t))"
    and out: "\<And>m. m \<notin> set (inners t) \<Longrightarrow> m \<noteq> x \<Longrightarrow> m \<noteq> GRN_ID_NIL \<Longrightarrow> p_nodes pat' m = p_nodes pat m"
  shows "store_ok pat'" and "ring_ok pat'" and "garbage_ok pat' t' gs" and "cache_ok pat' t'"
proof -
  show "store_ok pat'" by (rule same_keys_store_ok [OF sk readyD(1) [OF r]])
  show "ring_ok pat'" using readyD(4) [OF r] by (simp add: ring_ok_def fields)
  show "cache_ok pat' t'" using readyD(7) [OF r] same_keys_get_key(2) [OF sk] by (simp add: cache_ok_def fields rec)
  show "garbage_ok pat' t' gs"
    unfolding garbage_ok_def
  proof (intro allI impI)
    fix sz assume sz: "sz \<le> GRN_TABLE_MAX_KEY_SIZE"
    have g: "chain (\<lambda>m. pn_left (p_nodes pat m)) (p_garbages pat sz) (gs sz)" "distinct (gs sz)"
      and gm: "\<And>m. m \<in> set (gs sz) \<Longrightarrow> m \<in> ids pat \<and> m \<notin> members t \<and> storage_class pat m = sz \<and>
           (\<forall>j < GRN_PAT_NDELINFOS. stat_of pat j \<noteq> DL_EMPTY \<longrightarrow> di_d (p_delinfos pat j) \<noteq> m)"
      using readyD(6) [OF r] sz by (simp_all add: garbage_ok_def)
    have x: "x \<notin> set (gs sz)" using readyD(13) [OF r] free_nodesI [OF sz] by blast
    have "pn_left (p_nodes pat' m) = pn_left (p_nodes pat m)" if "m \<in> set (gs sz)" for m
    proof -
      have "m \<noteq> GRN_ID_NIL" using gm [OF that] by (simp add: ids_def)
      then show ?thesis using gm [OF that] x that out [of m] by fastforce
    qed
    from chain_cong [of "gs sz", OF this] g(1) have "chain (\<lambda>m. pn_left (p_nodes pat' m)) (p_garbages pat' sz) (gs sz)"
      by (simp add: fields)
    moreover have "storage_class pat' m = storage_class pat m" for m
      using sk by (simp add: storage_class_def same_keys_def)
    ultimately show "chain (\<lambda>m. pn_left (p_nodes pat' m)) (p_garbages pat' sz) (gs sz) \<and> distinct (gs sz) \<and>
        (\<forall>m\<in>set (gs sz). m \<in> ids pat' \<and> m \<notin> members t' \<and> storage_class pat' m = sz \<and>
           (\<forall>j<GRN_PAT_NDELINFOS. stat_of pat' j \<noteq> DL_EMPTY \<longrightarrow> di_d (p_delinfos pat' j) \<noteq> m))"
      using g(2) gm x same_keys_ids [OF sk] by (simp add: fields mem) blast
  qed
qed

text \<open>Owners and pending deletions when a node joins the tree.\<close>

lemma ready_owner:
  assumes r: "ready pat t ow gs x key" and sk: "same_keys pat pat'"
    and out: "\<And>m. m \<notin> set (inners t) \<Longrightarrow> m \<noteq> x \<Longrightarrow> m \<noteq> GRN_ID_NIL \<Longrightarrow> p_nodes pat' m = p_nodes pat m"
    and rec: "set (records t') = insert x (set (records t))"
    and inn: "set (inners t') = insert x (set (inners t)) \<and> ow' = ow(x := x) \<or> set (inners t') = set (inners t) \<and> ow' = ow \<and> leaf_ok pat' x"
    and owned: "owned ow' t'"
  shows "owner_ok pat' t' ow'"
proof -
  note own = readyD(3) [OF r] and x = readyD(12) [OF r]
  have recs: "ow i \<in> set (records t)" if "i \<in> set (inners t)" for i
    using own that owned_member by (auto simp: owner_ok_def)
  have same: "ow' i = ow i" if "i \<in> set (inners t)" for i using inn that x by auto
  have z: "0 \<notin> members t" by (rule tree_at_members_nonzero [OF tree_okD(1) [OF readyD(2) [OF r]]])
  have self: "p_nodes pat' (ow i) = p_nodes pat (ow i)" if "i \<in> set (inners t)" "ow i \<noteq> i" for i
  proof (rule out)
    show "ow i \<notin> set (inners t)" using own that by (simp add: owner_ok_def)
    show "ow i \<noteq> x" "ow i \<noteq> GRN_ID_NIL" using recs [OF that(1)] x z by auto
  qed
  have leaf: "leaf_ok pat' q" if q: "q \<in> set (records t)" "q \<notin> ow ` set (inners t)" for q
  proof -
    have "q \<notin> set (inners t)"
    proof
      assume i: "q \<in> set (inners t)"
      then have "ow q \<noteq> q" using q(2) by (metis imageI)
      then show False using own i q(1) by (simp add: owner_ok_def)
    qed
    then have "p_nodes pat' q = p_nodes pat q" using q(1) x z by (intro out) auto
    moreover have "leaf_ok pat q" using own q by (simp add: owner_ok_def)
    ultimately show ?thesis using same_keys_get_key(2) [OF sk, of q] by (simp add: leaf_ok_def link_def)
  qed
  have inj: "inj_on ow (set (inners t))" using own by (simp add: owner_ok_def)
  have img: "ow ` set (inners t) \<subseteq> set (records t)" using recs by blast
  have old: "i \<notin> set (records t) \<and> ow i \<notin> set (inners t) \<and> \<not> self_loop (ow i) (p_nodes pat (ow i))"
    if "i \<in> set (inners t)" "ow i \<noteq> i" for i using own that by (simp add: owner_ok_def)
  from inn show ?thesis
  proof (elim disjE conjE)
    assume a: "set (inners t') = insert x (set (inners t))" "ow' = ow(x := x)"
    have im: "ow' ` set (inners t) = ow ` set (inners t)" using same by (intro image_cong) simp_all
    have "inj_on ow' (set (inners t))" using inj same by (simp add: inj_on_def)
    then have "inj_on ow' (set (inners t'))" using im img x by (auto simp: a(1)) (use a(2) in auto)
    moreover have "i \<notin> set (records t') \<and> ow' i \<notin> set (inners t') \<and> \<not> self_loop (ow' i) (p_nodes pat' (ow' i))"
      if "i \<in> set (inners t')" "ow' i \<noteq> i" for i
    proof -
      have ix: "i \<noteq> x" using that(2) a(2) by auto
      then have i: "i \<in> set (inners t)" "ow i \<noteq> i" using that same a(1) by auto
      show ?thesis using old [OF i] self [OF i] same [OF i(1)] ix recs [OF i(1)] x by (auto simp: rec a(1))
    qed
    moreover have "leaf_ok pat' q" if "q \<in> set (records t')" "q \<notin> ow' ` set (inners t')" for q
      using that leaf [of q] im a by (auto simp: rec)
    ultimately show ?thesis using owned by (simp add: owner_ok_def)
  next
    assume a: "set (inners t') = set (inners t)" "ow' = ow" and lx: "leaf_ok pat' x"
    have "i \<notin> set (records t') \<and> ow i \<notin> set (inners t) \<and> \<not> self_loop (ow i) (p_nodes pat' (ow i))"
      if i: "i \<in> set (inners t)" "ow i \<noteq> i" for i using old [OF i] self [OF i] i x by (auto simp: rec)
    moreover have "leaf_ok pat' q" if "q \<in> set (records t')" "q \<notin> ow ` set (inners t)" for q
      using that leaf [of q] lx by (auto simp: rec)
    ultimately show ?thesis using owned inj by (simp add: owner_ok_def a)
  qed
qed

lemma ready_pending:
  assumes r: "ready pat t ow gs x key" and sk: "same_keys pat pat'" and fields: "p_delinfos pat' = p_delinfos pat"
    and del: "\<And>m. m \<in> members t \<Longrightarrow> pat_node_is_deleting (p_nodes pat' m) = pat_node_is_deleting (p_nodes pat m)"
      "\<not> pat_node_is_deleting (p_nodes pat' x)"
    and mem: "members t' = insert x (members t)"
    and inn: "set (inners t) \<subseteq> set (inners t')" "set (inners t') \<subseteq> insert x (set (inners t))"
    and ow: "\<And>i. i \<in> set (inners t) \<Longrightarrow> ow' i = ow i" "x \<in> set (inners t') \<Longrightarrow> ow' x = x"
  shows "pending_ok pat' t' ow'"
proof -
  note pend = readyD(5) [OF r] and x = readyD(12) [OF r]
  have ph1: "di_d (p_delinfos pat j) \<in> set (inners t) \<and> ow (di_d (p_delinfos pat j)) = di_ld (p_delinfos pat j) \<and>
    di_ld (p_delinfos pat j) \<noteq> di_d (p_delinfos pat j)" if "j < GRN_PAT_NDELINFOS" "stat_of pat j = DL_PHASE1" for j
    using pend that by (simp add: pending_ok_def)
  have ldx: "di_ld (p_delinfos pat j) \<noteq> x" if "j < GRN_PAT_NDELINFOS" "stat_of pat j = DL_PHASE1" for j
  proof -
    have "ow (di_d (p_delinfos pat j)) \<in> set (records t)"
      using readyD(3) [OF r] ph1 [OF that] owned_member [of ow t "di_d (p_delinfos pat j)"] unfolding owner_ok_def by blast
    then show ?thesis using ph1 [OF that] x by auto
  qed
  have wait: "\<exists>j < GRN_PAT_NDELINFOS. stat_of pat j = DL_PHASE1 \<and> di_d (p_delinfos pat j) = i"
    if "i \<in> set (inners t)" "ow i \<noteq> i" for i using pend that by (simp add: pending_ok_def)
  have ph2: "di_d (p_delinfos pat j) \<in> ids pat \<and> di_d (p_delinfos pat j) \<notin> members t"
    if "j < GRN_PAT_NDELINFOS" "stat_of pat j = DL_PHASE2" for j
    using pend that unfolding pending_ok_def by blast
  have uniq: "j = j'" if "j < GRN_PAT_NDELINFOS" "j' < GRN_PAT_NDELINFOS" "stat_of pat j \<noteq> DL_EMPTY" "stat_of pat j' \<noteq> DL_EMPTY"
    "di_d (p_delinfos pat j) = di_d (p_delinfos pat j')" for j j'
    using pend that unfolding pending_ok_def by blast
  have flag: "pat_node_is_deleting (p_nodes pat m) \<longleftrightarrow>
        (\<exists>j < GRN_PAT_NDELINFOS. stat_of pat j = DL_PHASE1 \<and> (di_d (p_delinfos pat j) = m \<or> di_ld (p_delinfos pat j) = m))"
    if "m \<in> members t" for m using pend that unfolding pending_ok_def by blast
  have px: "di_d (p_delinfos pat j) \<noteq> x" if "j < GRN_PAT_NDELINFOS" "stat_of pat j \<noteq> DL_EMPTY" for j
    by (rule readyD(15) [OF r that])
  show ?thesis
    unfolding pending_ok_def fields
  proof (intro conjI ballI allI impI)
    fix j assume j: "j < GRN_PAT_NDELINFOS" "stat_of pat j = DL_PHASE1"
    show "di_d (p_delinfos pat j) \<in> set (inners t')" "ow' (di_d (p_delinfos pat j)) = di_ld (p_delinfos pat j)"
      "di_ld (p_delinfos pat j) \<noteq> di_d (p_delinfos pat j)" using ph1 [OF j] inn(1) ow(1) by auto
  next
    fix i assume i: "i \<in> set (inners t')" "ow' i \<noteq> i"
    then have "i \<noteq> x" using ow(2) by auto
    then have "i \<in> set (inners t)" using i(1) inn(2) by auto
    then show "\<exists>j < GRN_PAT_NDELINFOS. stat_of pat j = DL_PHASE1 \<and> di_d (p_delinfos pat j) = i"
      using wait [of i] ow(1) [of i] i(2) by simp
  next
    fix j assume j: "j < GRN_PAT_NDELINFOS" "stat_of pat j = DL_PHASE2"
    show "di_d (p_delinfos pat j) \<in> ids pat'" using ph2 [OF j] same_keys_ids [OF sk] by simp
    show "di_d (p_delinfos pat j) \<notin> members t'" using ph2 [OF j] px [OF j(1)] j(2) unfolding mem by simp
  next
    fix m assume m: "m \<in> members t'"
    show "pat_node_is_deleting (p_nodes pat' m) \<longleftrightarrow>
        (\<exists>j < GRN_PAT_NDELINFOS. stat_of pat j = DL_PHASE1 \<and> (di_d (p_delinfos pat j) = m \<or> di_ld (p_delinfos pat j) = m))"
    proof (cases "m = x")
      case True
      then show ?thesis using del(2) px ldx by auto
    next
      case False
      then have "m \<in> members t" using m mem by blast
      then show ?thesis using flag [of m] del(1) [of m] by blast
    qed
  qed (rule uniq)
qed

theorem enable_ready:
  assumes r: "ready pat t ow gs x key" and place: "place_ok (node_key pat) key t L c" and len: "klen key \<le> 0x10000"
  defines "pat' \<equiv> grn_pat_enable_node x key c (klen key) L pat"
  shows "\<exists>t' ow'. pat_inv pat' t' ow' gs \<and> set (records t') = insert x (set (records t))"
proof -
  note t = tree_okD [OF readyD(2) [OF r]] and x = readyD(12) [OF r]
  have x0: "x \<noteq> GRN_ID_NIL" using readyD(11) [OF r] by (simp add: ids_def)
  have z: "0 \<notin> members t" by (rule tree_at_members_nonzero [OF t(1)])
  have sk: "same_keys pat pat'" unfolding pat'_def by (rule same_keys_enable_node)
  note nk = same_keys_get_key(2) [OF sk]
  have K: "node_key pat' = node_key pat" using nk by blast
  have L: "fst L = GRN_ID_NIL \<or> fst L \<in> set (inners t)"
  proof -
    obtain c' where L: "L = insert_location key c' root_location t" using place by (auto simp: place_ok_def)
    have "set (inners (rest key c' t)) \<subseteq> set (inners t)" using set_inners_split [of t key c'] by blast
    then show ?thesis using insert_location_node [of key c' root_location t] L by auto
  qed
  have xL: "x \<noteq> fst L" using L x x0 by auto
  note en = enable_node_nodes [OF xL, where key = key and c = c and pat = pat, folded pat'_def]
  have out: "p_nodes pat' m = p_nodes pat m" if "m \<notin> set (inners t)" "m \<noteq> x" "m \<noteq> GRN_ID_NIL" for m
    using en(1) [of m] L that by auto
  have del: "pat_node_is_deleting (p_nodes pat' m) = pat_node_is_deleting (p_nodes pat m)" if "m \<in> members t" for m
  proof -
    have "m \<noteq> x" using that x by blast
    then have "pn_bits (p_nodes pat' m) = pn_bits (p_nodes pat m)" using en(1,3) by (cases "m = fst L") auto
    then show ?thesis by (simp add: pat_node_is_deleting_def)
  qed
  note ent = enable_node_tree [OF t(1,3) x x0 place len, folded pat'_def]
  have ow: "owned ow t" using readyD(3) [OF r] by (simp add: owner_ok_def)
  have c: "0 \<le> c" "c < klen key" using place by (simp_all add: place_ok_def)
  have fin: "pat_inv pat' t' ow' gs \<and> set (records t') = insert x (set (records t))"
    if tr: "tree_at (p_nodes pat') (- 1) (link (p_nodes pat') root_location) t'" "key_tree (node_key pat) t'"
      and dist: "distinct (inners t')" "distinct (records t')" and rec: "set (records t') = insert x (set (records t))"
      and inn: "set (inners t') = insert x (set (inners t)) \<and> ow' = ow(x := x) \<or> set (inners t') = set (inners t) \<and> ow' = ow \<and> leaf_ok pat' x"
      and own: "owned ow' t'" and n: "length (records t') = Suc (length (records t))" for t' ow'
  proof -
    have mem: "members t' = insert x (members t)" using rec inn by auto
    have "p_delinfos pat' = p_delinfos pat" "p_curr_del pat' = p_curr_del pat" "p_curr_del2 pat' = p_curr_del2 pat"
      "p_curr_del3 pat' = p_curr_del3 pat" "p_cache pat' = p_cache pat" "p_garbages pat' = p_garbages pat" by (simp_all add: pat'_def)
    note frame = ready_frame [OF r sk this mem rec out] and del' = this(1)
    have "tree_ok pat' t'"
      using tr dist t(5) readyD(11) [OF r] same_keys_ids [OF sk] unfolding tree_ok_def K mem by simp
    moreover have "owner_ok pat' t' ow'" by (rule ready_owner [OF r sk out rec inn own])
    moreover have "pending_ok pat' t' ow'"
    proof (rule ready_pending [OF r sk del' del en(8) mem])
      show "set (inners t) \<subseteq> set (inners t')" "set (inners t') \<subseteq> insert x (set (inners t))" using inn by auto
      show "ow' i = ow i" if "i \<in> set (inners t)" for i using inn that x by auto
      show "ow' x = x" if "x \<in> set (inners t')" using inn that x by auto
    qed
    moreover have "p_n_entries pat' = of_nat (length (records t'))" "\<not> p_truncated pat'" "\<not> p_with_sis pat'"
      using readyD(8,9,10) [OF r] n by (simp_all add: pat'_def)
    ultimately show ?thesis using frame rec by (simp add: pat_inv_def)
  qed
  from ent show ?thesis
  proof (elim disjE conjE)
    assume f: "fits (node_key pat) key c t"
      and tr: "tree_at (p_nodes pat') (- 1) (link (p_nodes pat') root_location) (tree_insert x key c t)"
    have kt: "key_tree (node_key pat) (tree_insert x key c t)"
      by (rule key_tree_insert [OF t(2) f readyD(14) [OF r] c])
    have "owned (ow(x := x)) (tree_insert x key c t)"
      by (rule owned_insert [OF owned_cong [OF ow]]) (use x in auto)
    from fin [OF tr kt distinct_insert [OF t(3,4) x] records_insert _ this length_insert]
    show ?thesis using inners_insert [of x key c t] by blast
  next
    assume f: "fits_end (node_key pat) key t" and L: "L = insert_location key (klen key) root_location t"
      and tr: "tree_at (p_nodes pat') (- 1) (link (p_nodes pat') root_location) (tree_put x key t)"
    have kt: "key_tree (node_key pat) (tree_put x key t)" by (rule key_tree_put [OF t(2) f readyD(14) [OF r]])
    have LN: "link (p_nodes pat) L = GRN_ID_NIL"
      using tree_at_below [OF t(1), of key "klen key"] fits_end_below [OF f] by (simp add: L)
    have "leaf_ok pat' x"
    proof -
      have "pat_node_get_check (p_nodes pat' x) = c"
        using c len en(5) by (simp add: pat_node_get_check_def uint_word_of_int)
      moreover have "self_loop x (p_nodes pat' x)"
        using en(6,7) LN by (cases "kbit key c") (simp_all add: self_loop_def link_direction)
      ultimately show ?thesis using c en(6) readyD(14) [OF r] by (simp add: leaf_ok_def nk)
    qed
    from fin [OF tr kt _ distinct_put [OF t(4) x f] records_put [OF f] _ owned_put [OF ow f] length_put [OF f]] t(3) this
    show ?thesis by auto
  qed
qed

section \<open>Preparing a node\<close>

text \<open>A change that affects one node outside of the tree only.\<close>

definition outside_change :: "grn_pat \<Rightarrow> grn_pat \<Rightarrow> grn_id \<Rightarrow> bool" where
  "outside_change pat pat' x \<longleftrightarrow> store_ok pat' \<and> (\<forall>m. m \<noteq> x \<longrightarrow> p_nodes pat' m = p_nodes pat m) \<and>
     (\<forall>m \<in> ids pat. m \<noteq> x \<longrightarrow> node_key pat' m = node_key pat m) \<and> ids pat \<subseteq> ids pat' \<and>
     p_delinfos pat' = p_delinfos pat \<and> p_curr_del pat' = p_curr_del pat \<and> p_curr_del2 pat' = p_curr_del2 pat \<and>
     p_curr_del3 pat' = p_curr_del3 pat \<and> p_cache pat' = p_cache pat \<and> p_truncated pat' = p_truncated pat \<and> p_with_sis pat' = p_with_sis pat"

lemma outside_changeD:
  assumes "outside_change pat pat' x"
  shows "store_ok pat'" and "m \<noteq> x \<Longrightarrow> p_nodes pat' m = p_nodes pat m" and "ids pat \<subseteq> ids pat'"
    and "m \<in> ids pat \<Longrightarrow> m \<noteq> x \<Longrightarrow> node_key pat' m = node_key pat m"
    and "p_delinfos pat' = p_delinfos pat" "p_curr_del pat' = p_curr_del pat" "p_curr_del2 pat' = p_curr_del2 pat"
    and "p_curr_del3 pat' = p_curr_del3 pat" "p_cache pat' = p_cache pat" "p_truncated pat' = p_truncated pat" "p_with_sis pat' = p_with_sis pat"
  using assms by (simp_all add: outside_change_def)

lemma outside_change_inv:
  assumes ch: "outside_change pat pat' x" and inv: "pat_inv pat t ow gs" and x: "x \<notin> members t" "x \<noteq> GRN_ID_NIL"
  shows "tree_ok pat' t" and "owner_ok pat' t ow" and "ring_ok pat'" and "pending_ok pat' t ow" and "cache_ok pat' t"
proof -
  note c = outside_changeD [OF ch] and i = pat_invD [OF inv]
  have mem: "p_nodes pat' m = p_nodes pat m \<and> node_key pat' m = node_key pat m" if "m \<in> members t" for m
    using that x(1) c(2) [of m] c(4) [of m] tree_okD(5) [OF i(2)] by blast
  note mem1 = conjunct1 [OF mem] and mem2 = conjunct2 [OF mem]
  have "link (p_nodes pat') root_location = link (p_nodes pat) root_location"
    using c(2) [of 0] x(2) by (simp add: link_def)
  moreover have "tree_at (p_nodes pat') (- 1) (link (p_nodes pat) root_location) t"
    by (rule tree_at_cong [OF tree_okD(1) [OF i(2)]]) (simp_all add: mem1)
  moreover have "key_tree (node_key pat') t" by (rule key_tree_cong [OF tree_okD(2) [OF i(2)] mem2])
  ultimately show "tree_ok pat' t"
    using tree_okD(3,4) [OF i(2)] subset_trans [OF tree_okD(5) [OF i(2)] c(3)] by (simp add: tree_ok_def)
  have recs: "ow m \<in> set (records t)" if "m \<in> set (inners t)" for m
    using i(3) that owned_member [of ow t m] unfolding owner_ok_def by blast
  have leaf: "leaf_ok pat' m = leaf_ok pat m" if "m \<in> set (records t)" for m
    using that by (simp add: leaf_ok_def link_def mem1 mem2)
  show "owner_ok pat' t ow"
    using i(3) unfolding owner_ok_def by (simp add: mem1 recs leaf)
  show "ring_ok pat'" using i(4) by (simp add: ring_ok_def c(5-8))
  show "pending_ok pat' t ow"
  proof -
    have "pat_node_is_deleting (p_nodes pat' m) = pat_node_is_deleting (p_nodes pat m)" if "m \<in> members t" for m
      using mem1 [OF that] by simp
    then show ?thesis using i(5) c(3) unfolding pending_ok_def c(5) by blast
  qed
  show "cache_ok pat' t" using i(7) unfolding cache_ok_def c(9) by (metis UnI1 mem2)
qed

lemma outside_change_garbage:
  assumes ch: "outside_change pat pat' x" and g: "garbage_ok pat t gs" and x: "x \<notin> free_nodes gs"
    and gb: "p_garbages pat' = p_garbages pat"
  shows "garbage_ok pat' t gs"
  unfolding garbage_ok_def
proof (intro allI impI)
  fix sz assume sz: "sz \<le> GRN_TABLE_MAX_KEY_SIZE"
  note c = outside_changeD [OF ch]
  have nodes: "p_nodes pat' m = p_nodes pat m" if "m \<in> set (gs sz)" for m
    using c(2) [of m] x free_nodesI [OF sz, of m gs] that by blast
  then have "chain (\<lambda>m. pn_left (p_nodes pat' m)) h (gs sz) = chain (\<lambda>m. pn_left (p_nodes pat m)) h (gs sz)" for h
    by (intro chain_cong) simp
  moreover have "storage_class pat' m = storage_class pat m" if "m \<in> set (gs sz)" for m
    using nodes [OF that] by (simp add: storage_class_def)
  ultimately show "chain (\<lambda>m. pn_left (p_nodes pat' m)) (p_garbages pat' sz) (gs sz) \<and> distinct (gs sz) \<and>
        (\<forall>m\<in>set (gs sz). m \<in> ids pat' \<and> m \<notin> members t \<and> storage_class pat' m = sz \<and>
           (\<forall>j<GRN_PAT_NDELINFOS. stat_of pat' j \<noteq> DL_EMPTY \<longrightarrow> di_d (p_delinfos pat' j) \<noteq> m))"
    using g sz c(3) unfolding garbage_ok_def gb c(5) by (simp add: subset_iff)
qed

text \<open>The new node behind the last one.\<close>

lemma fresh_id:
  assumes "store_ok pat"
  shows "p_curr_rec pat + 1 \<notin> ids pat" and "p_curr_rec pat + 1 \<noteq> GRN_ID_NIL"
    and "p_curr_rec pat \<le> p_curr_rec pat + 1" and "insert (p_curr_rec pat + 1) (ids pat) = {m. m \<noteq> 0 \<and> m \<le> p_curr_rec pat + 1}"
proof -
  have "unat (p_curr_rec pat) \<le> 0x3fffffff" using assms by (simp add: store_ok_def word_le_nat_alt)
  then have u: "unat (p_curr_rec pat + 1) = Suc (unat (p_curr_rec pat))" by (intro unat_Suc_no_wrap) simp
  then show z: "p_curr_rec pat + 1 \<noteq> GRN_ID_NIL" by (metis nat.distinct(1) unat_0)
  show "p_curr_rec pat + 1 \<notin> ids pat" "p_curr_rec pat \<le> p_curr_rec pat + 1" using u by (auto simp: ids_def word_le_nat_alt)
  have "m \<le> p_curr_rec pat + 1 \<longleftrightarrow> m = p_curr_rec pat + 1 \<or> m \<le> p_curr_rec pat" for m
    using u by (metis le_Suc_eq word_le_nat_alt word_unat_eq_iff)
  then show "insert (p_curr_rec pat + 1) (ids pat) = {m. m \<noteq> 0 \<and> m \<le> p_curr_rec pat + 1}"
    using z by (auto simp: ids_def)
qed

lemma fresh_outside:
  assumes inv: "pat_inv pat t ow gs" and x: "x \<notin> ids pat"
  shows "x \<notin> members t" and "x \<notin> free_nodes gs"
    and "j < GRN_PAT_NDELINFOS \<Longrightarrow> stat_of pat j \<noteq> DL_EMPTY \<Longrightarrow> di_d (p_delinfos pat j) \<noteq> x"
proof -
  note i = pat_invD [OF inv]
  show m: "x \<notin> members t" using tree_okD(5) [OF i(2)] x by blast
  show "x \<notin> free_nodes gs" using i(6) x by (auto simp: free_nodes_def garbage_ok_def)
  assume j: "j < GRN_PAT_NDELINFOS" "stat_of pat j \<noteq> DL_EMPTY"
  then consider "stat_of pat j = DL_PHASE1" | "stat_of pat j = DL_PHASE2" by (cases "stat_of pat j") auto
  then show "di_d (p_delinfos pat j) \<noteq> x"
  proof cases
    case 1
    then have "di_d (p_delinfos pat j) \<in> set (inners t)" using i(5) j(1) unfolding pending_ok_def by blast
    then show ?thesis using m by auto
  next
    case 2
    then have "di_d (p_delinfos pat j) \<in> ids pat" using i(5) j(1) unfolding pending_ok_def by blast
    then show ?thesis using x by auto
  qed
qed

lemma pat_node_get_inv:
  assumes "pat_inv pat t ow gs" and "pat_node_get env pat x = (pat', ok)"
  shows "pat_inv pat' t ow gs" and "ok \<Longrightarrow> PAT_AT pat' x \<noteq> None" and "\<exists>seg. pat' = pat\<lparr>p_seg_pat := seg\<rparr>"
    and "ids pat' = ids pat" and "content pat' = content pat"
proof -
  show seg: "\<exists>seg. pat' = pat\<lparr>p_seg_pat := seg\<rparr>"
  proof -
    have "\<exists>seg. p = p\<lparr>p_seg_pat := seg\<rparr>" for p :: grn_pat by (rule exI [of _ "p_seg_pat p"]) simp
    then show ?thesis using assms(2) unfolding pat_node_get_def Let_def by (auto split: if_splits)
  qed
  then obtain seg where p': "pat' = pat\<lparr>p_seg_pat := seg\<rparr>" by blast
  show ids: "ids pat' = ids pat" by (simp add: p' ids_def)
  have "\<forall>s. p_seg_pat pat s \<longrightarrow> p_seg_pat pat' s"
    using assms(2) by (auto simp: pat_node_get_def Let_def set_at_def split: if_splits)
  then have st: "stores_key pat pat' 0"
    using store_okD(1) [OF pat_invD(1) [OF assms(1)]] pat_invD(1) [OF assms(1)]
    by (auto simp: p' stores_key_def store_ok_def KEY_AT_def)
  have z: "0 \<notin> ids pat" by (simp add: ids_def)
  have sok: "store_ok pat'"
    by (rule stores_key_store_ok [OF st pat_invD(1) [OF assms(1)]])
      (use z ids pat_invD(1) [OF assms(1)] in \<open>auto simp: p' store_ok_def ids_def\<close>)
  have nk: "node_key pat' m = node_key pat m" if "m \<in> ids pat" for m
    using stores_key_other(3) [OF st pat_invD(1) [OF assms(1)] that] z that by metis
  have ch: "outside_change pat pat' m" for m
    using sok ids nk by (simp add: outside_change_def p')
  define m where "m = p_curr_rec pat + 1"
  have m: "m \<notin> members t" "m \<noteq> GRN_ID_NIL" "m \<notin> free_nodes gs"
    using fresh_outside [OF assms(1)] fresh_id [OF pat_invD(1) [OF assms(1)], folded m_def] by blast+
  note oc = outside_change_inv [OF ch assms(1) m(1,2)]
  show "pat_inv pat' t ow gs"
    using oc sok outside_change_garbage [OF ch pat_invD(6) [OF assms(1)] m(3)] pat_invD(8-10) [OF assms(1)]
    by (simp add: pat_inv_def p')
  show "PAT_AT pat' x \<noteq> None" if ok
    using assms(2) that by (auto simp: pat_node_get_def PAT_AT_def Let_def pat_segment_def set_at_def split: if_splits)
  show "content pat' = content pat"
    using nk tree_okD(5) [OF pat_invD(2) [OF assms(1)]]
    by (auto simp: content_def record_ids_tree [OF oc(1)] record_ids_tree [OF pat_invD(2) [OF assms(1)]] fun_eq_iff)
qed

lemma key_read_curr [simp]:
  "key_read (pat\<lparr>p_curr_rec := r\<rparr>) ptr n = key_read pat ptr n" "key_read (pat\<lparr>p_n_entries := e\<rparr>) ptr n = key_read pat ptr n"
  by (cases ptr; simp)+

text \<open>What the table holds after a node has been linked, and that places depend on the keys in the tree only.\<close>

lemma content_same:
  assumes "tree_ok pat t" and "tree_ok pat' t" and "\<And>m. m \<in> set (records t) \<Longrightarrow> node_key pat' m = node_key pat m"
  shows "content pat' = content pat"
  using assms(3) by (auto simp: content_def record_ids_tree [OF assms(1)] record_ids_tree [OF assms(2)] fun_eq_iff)

lemma content_insert:
  assumes "tree_ok pat t" and "tree_ok pat' t'" and "set (records t') = insert x (set (records t))"
    and "\<And>m. m \<in> set (records t) \<Longrightarrow> m \<noteq> x \<Longrightarrow> node_key pat' m = node_key pat m" and "node_key pat' x = key"
  shows "content pat' = (content pat)(x \<mapsto> key)"
  using assms(3-5) by (auto simp: content_def record_ids_tree [OF assms(1)] record_ids_tree [OF assms(2)] fun_eq_iff)

lemma fits_cong: "fits K key c t \<Longrightarrow> (\<And>m. m \<in> members t \<Longrightarrow> K' m = K m) \<Longrightarrow> fits K' key c t"
  by (induction t) (auto split: if_splits)

lemma fits_end_cong: "fits_end K key t \<Longrightarrow> (\<And>m. m \<in> members t \<Longrightarrow> K' m = K m) \<Longrightarrow> fits_end K' key t"
  by (induction t) (auto split: if_splits)

lemma place_ok_cong:
  assumes "place_ok K key t L c" and "\<And>m. m \<in> members t \<Longrightarrow> K' m = K m"
  shows "place_ok K' key t L c"
  using assms(1) fits_cong [of K key c t K', OF _ assms(2)] fits_end_cong [of K key t K', OF _ assms(2)]
  unfolding place_ok_def by blast

lemma enable_ready_content:
  assumes r: "ready pat1 t ow gs x key" and place: "place_ok (node_key pat) key t L c" and len: "klen key \<le> 0x10000"
    and t: "tree_ok pat t" and keys: "\<And>m. m \<in> members t \<Longrightarrow> node_key pat1 m = node_key pat m"
  defines "pat' \<equiv> grn_pat_enable_node x key c (klen key) L pat1"
  shows "\<exists>t' ow'. pat_inv pat' t' ow' gs" and "content pat' = (content pat)(x \<mapsto> key)"
proof -
  obtain t' ow' where inv: "pat_inv pat' t' ow' gs" and rec: "set (records t') = insert x (set (records t))"
    using enable_ready [OF r place_ok_cong [OF place keys] len] unfolding pat'_def by blast
  then show "\<exists>t' ow'. pat_inv pat' t' ow' gs" by blast
  have nk: "node_key pat' m = node_key pat1 m" for m
    unfolding pat'_def by (rule same_keys_get_key(2) [OF same_keys_enable_node])
  show "content pat' = (content pat)(x \<mapsto> key)"
    by (rule content_insert [OF t pat_invD(2) [OF inv] rec]) (use keys readyD(14) [OF r] in \<open>simp_all add: nk\<close>)
qed

lemma set_key_fresh:
  assumes "store_ok pat" and "key \<noteq> []" "length key \<le> 0x1000" and "PAT_AT pat x \<noteq> None" and "x \<notin> ids pat" and "has_room pat key"
    and "pat_node_set_key env pat x key = (pat', rc)"
  shows "key_changed pat pat' x" and "stores_key pat pat' x" and "rc = GRN_SUCCESS \<Longrightarrow> key_ok pat' x"
    and "rc = GRN_SUCCESS \<Longrightarrow> node_key pat' x = key" and "rc = GRN_SUCCESS \<Longrightarrow> region pat' x \<inter> {..<unat (p_curr_key pat)} = {}"
  using set_key_embedded [OF assms(1-4) _ assms(7)] set_key_stored [OF assms(1-5) _ assms(6,7)]
  by (cases "pat_key_is_embeddable pat (length key)"; simp)+

lemma add_node_inv:
  assumes inv: "pat_inv pat t ow gs" and key: "key \<noteq> []" "length key \<le> 0x1000" and room: "has_room pat key"
    and place: "place_ok (node_key pat) key t L c" and x: "x = p_curr_rec pat + 1" and at: "PAT_AT pat x \<noteq> None"
    and add: "grn_pat_add_node env x key c (klen key) L pat = (pat', rc)"
  shows "\<exists>t' ow'. pat_inv pat' t' ow' gs" and "content pat' = (if rc = GRN_SUCCESS then (content pat)(x \<mapsto> key) else content pat)"
proof -
  note i = pat_invD [OF inv]
  note fr = fresh_id [OF i(1), folded x]
  note out = fresh_outside [OF inv fr(1)]
  obtain pat1 rc1 where set: "pat_node_set_key env pat x key = (pat1, rc1)" by force
  note sk = set_key_fresh [OF i(1) key at fr(1) room set]
  obtain ck seg ks nx where p1: "pat1 = pat\<lparr>p_curr_key := ck, p_seg_key := seg, p_keys := ks, p_nodes := (p_nodes pat)(x := nx)\<rparr>"
    using sk(1) by (auto simp: key_changed_def)
  have nk: "node_key pat1 m = node_key pat m" if "m \<in> ids pat" for m
    using stores_key_other(3) [OF sk(2) i(1) that] that fr(1) by blast
  have maxid: "x \<le> GRN_ID_MAX" using at PAT_AT_iff [of pat x] by blast
  have step: "(\<exists>t' ow'. pat_inv pat' t' ow' gs) \<and> content pat' = (if rc = GRN_SUCCESS then (content pat)(x \<mapsto> key) else content pat)"
  proof (cases "rc1 = GRN_SUCCESS")
    case True
    define pat2 where "pat2 = pat1\<lparr>p_curr_rec := x, p_n_entries := p_n_entries pat1 + 1\<rparr>"
    have p2: "pat' = grn_pat_enable_node x key c (klen key) L pat2" "rc = GRN_SUCCESS"
      using add set True by (simp_all add: grn_pat_add_node_def pat2_def Let_def)
    have ids2: "ids pat2 = insert x (ids pat)" using fr(4) by (simp add: pat2_def ids_def)
    have eq: "node_key pat2 m = node_key pat1 m" "key_ok pat2 m = key_ok pat1 m" "region pat2 m = region pat1 m" for m
      by (simp_all add: pat2_def node_key_def pat_node_get_key_def pat_node_get_key_ptr_def pat_node_get_key_offset_def KEY_AT_def
          key_ok_def PAT_AT_def pat_segment_def node_width_def region_def Let_def)
    have "KEY_AT pat2 = KEY_AT pat1" by (simp add: pat2_def KEY_AT_def fun_eq_iff)
    then have st2: "stores_key pat pat2 x" using sk(2) unfolding stores_key_def by (simp add: pat2_def)
    have "region pat2 x \<inter> region pat m = {}" if "m \<in> ids pat - {x}" for m
      using sk(5) [OF True] region_below [OF i(1), of m] that unfolding eq by blast
    moreover have "p_curr_rec pat2 \<le> GRN_ID_MAX" "key_ok pat2 x" using maxid sk(3) [OF True] by (simp_all add: eq) (simp add: pat2_def)
    ultimately have ok2: "store_ok pat2" using ids2 by (intro stores_key_store_ok [OF st2 i(1)]) auto
    have ch: "outside_change pat pat2 x"
      using ok2 nk ids2 by (auto simp: outside_change_def eq) (simp_all add: pat2_def p1)
    have "ready pat2 t ow gs x key"
      using ok2 outside_change_inv [OF ch inv out(1) fr(2)] outside_change_garbage [OF ch i(6) out(2)] out i(8-10) ids2 sk(4) [OF True]
      by (simp add: ready_def eq) (simp add: pat2_def p1)
    moreover have "klen key \<le> 0x10000" using key(2) by (simp add: klen_def)
    moreover have "node_key pat2 m = node_key pat m" if "m \<in> members t" for m
      using nk tree_okD(5) [OF i(2)] that unfolding eq by blast
    ultimately show ?thesis
      using enable_ready_content [of pat2 t ow gs x key pat L c, OF _ place _ i(2)] p2 by simp
  next
    case False
    have p1': "pat' = pat1" "rc \<noteq> GRN_SUCCESS" using add set False by (auto simp: grn_pat_add_node_def)
    have ids1: "ids pat1 = ids pat" by (simp add: p1 ids_def)
    have ok1: "store_ok pat1"
      by (rule stores_key_store_ok [OF sk(2) i(1)]) (use i(1) ids1 fr(1) in \<open>auto simp: p1 store_ok_def ids_def\<close>)
    have ch: "outside_change pat pat1 x" using ok1 nk ids1 by (auto simp: outside_change_def) (simp_all add: p1)
    note oc = outside_change_inv [OF ch inv out(1) fr(2)]
    have "pat_inv pat1 t ow gs"
      using ok1 oc outside_change_garbage [OF ch i(6) out(2)] i(8-10) by (simp add: pat_inv_def) (simp add: p1)
    moreover have "content pat1 = content pat"
      by (rule content_same [OF i(2) oc(1)]) (use nk tree_okD(5) [OF i(2)] in blast)
    ultimately show ?thesis using p1' by auto
  qed
  then show "\<exists>t' ow'. pat_inv pat' t' ow' gs"
    "content pat' = (if rc = GRN_SUCCESS then (content pat)(x \<mapsto> key) else content pat)" by blast+
qed

section \<open>Taking a free node\<close>

text \<open>The bytes of a key go where the old key of the node was.\<close>

definition reused :: "grn_id \<Rightarrow> byte list \<Rightarrow> grn_pat \<Rightarrow> grn_pat" where
  "reused x key pat = key_write (the (pat_node_get_key_ptr pat x)) key (update_node x (pat_node_set_key_length (length key)) pat)"

lemma reused_key:
  assumes ok: "store_ok pat" and x: "x \<in> ids pat" and key: "key \<noteq> []" "length key \<le> 0x1000"
    and cl: "storage_class pat x = pat_key_storage_size pat (length key)"
  shows "stores_key pat (reused x key pat) x" and "key_ok (reused x key pat) x" and "node_key (reused x key pat) x = key"
    and "region (reused x key pat) x = region pat x" and "pat_node_get_key_ptr pat x \<noteq> None"
    and "\<exists>nx ks. reused x key pat = pat\<lparr>p_nodes := (p_nodes pat)(x := nx), p_keys := ks\<rparr>"
proof -
  note kok = store_okD(2) [OF ok x] and wid = store_okD(1) [OF ok]
  let ?n = "pat_node_set_key_length (length key) (p_nodes pat x)" and ?pat' = "reused x key pat"
  show "pat_node_get_key_ptr pat x \<noteq> None"
    using kok by (simp add: pat_node_get_key_ptr_def Let_def key_ok_def)
  have "stores_key pat ?pat' x \<and> key_ok ?pat' x \<and> node_key ?pat' x = key \<and> region ?pat' x = region pat x \<and>
    (\<exists>nx ks. ?pat' = pat\<lparr>p_nodes := (p_nodes pat)(x := nx), p_keys := ks\<rparr>)"
  proof (cases "immediate pat x")
    case True
    have emb: "pat_key_is_embeddable pat (length key)"
      using cl True key(1) by (simp add: storage_class_def pat_key_storage_size_def split: if_splits)
    have width: "length key \<le> node_width pat" using emb by (simp add: pat_key_is_embeddable_def node_width_def split: if_splits)
    let ?nx = "put_key_field key ?n"
    have p': "?pat' = pat\<lparr>p_nodes := (p_nodes pat)(x := ?nx)\<rparr>"
      using True by (simp add: reused_def pat_node_get_key_ptr_def) (simp add: update_node_def put_key_field_def)
    have len: "length (pn_key ?nx) = node_width pat" using width wid [of x] by simp
    have nlen: "pat_node_get_key_length ?nx = length key" using key by simp
    have nimm: "pat_node_is_key_immediate ?nx" using True by simp
    have "stores_key pat ?pat' x"
      using ok len wid unfolding p' by (auto simp: stores_key_def store_ok_def KEY_AT_def)
    moreover have kok': "key_ok ?pat' x"
      using kok PAT_AT_cong [of ?pat' pat x] key width nlen nimm unfolding p' by (simp add: key_ok_def node_width_def del: node_setters_bits)
    moreover have "node_key ?pat' x = key"
      using node_key_ok(3) [OF kok'] len nlen nimm unfolding p' by (simp add: node_width_def del: node_setters_bits)
    moreover have "region ?pat' x = region pat x" using nimm True unfolding p' by (simp add: region_def)
    moreover have "?pat' = pat\<lparr>p_nodes := (p_nodes pat)(x := ?nx), p_keys := p_keys pat\<rparr>" unfolding p' by simp
    ultimately show ?thesis by blast
  next
    case False
    have len: "key_length pat x = length key"
      using cl False key_length_pos [of pat x] by (auto simp: storage_class_def pat_key_storage_size_def split: if_splits)
    define pos where "pos = unat (key_pos pat x)"
    have ptr: "pat_node_get_key_ptr pat x = Some (KEY_IN_STORE pos)"
      using kok False by (simp add: pat_node_get_key_ptr_def Let_def key_ok_def pos_def)
    have p': "?pat' = pat\<lparr>p_nodes := (p_nodes pat)(x := ?n), p_keys := write_keys pos key (p_keys pat)\<rparr>"
      by (simp add: reused_def ptr update_node_def)
    have nlen: "pat_node_get_key_length ?n = length key" using key by simp
    have nimm: "\<not> pat_node_is_key_immediate ?n" using False by simp
    have npos: "key_pos ?pat' x = key_pos pat x" by (simp add: p' pat_node_get_key_offset_def)
    have regx: "region pat x = {pos..<pos + length key}" using False by (simp add: region_def len pos_def)
    have "k < pos \<or> pos + length key \<le> k" if "m \<in> ids pat - {x}" "k \<in> region pat m" for m k
    proof -
      have "k \<notin> region pat x" using store_okD(4) [OF ok x, of m] that by blast
      then show ?thesis by (auto simp: regx)
    qed
    then have "stores_key pat ?pat' x"
      using ok wid unfolding p' by (auto simp: stores_key_def store_ok_def KEY_AT_def)
    moreover have kok': "key_ok ?pat' x"
    proof -
      have "PAT_AT ?pat' x \<noteq> None" using kok PAT_AT_cong [of ?pat' pat x] by (simp add: p' key_ok_def)
      moreover have "KEY_AT ?pat' = KEY_AT pat" by (simp add: p' KEY_AT_def fun_eq_iff)
      moreover have "key_length ?pat' x = length key" "\<not> immediate ?pat' x" "node_width ?pat' = node_width pat" "p_curr_key ?pat' = p_curr_key pat"
        using nlen nimm by (simp_all add: p' node_width_def del: set_key_length_bits get_set_key_length)
      ultimately show ?thesis using kok False len unfolding key_ok_def npos by simp
    qed
    moreover have "node_key ?pat' x = key"
      using node_key_ok(3) [OF kok'] wid [of x] nlen nimm npos write_keys_read [of pos key "p_keys pat"]
      by (simp add: pos_def) (simp add: p' node_width_def pos_def)
    moreover have "region ?pat' x = region pat x" using nimm nlen unfolding regx by (simp add: region_def npos) (simp add: p' pos_def)
    ultimately show ?thesis using p' by blast
  qed
  then show "stores_key pat ?pat' x" "key_ok ?pat' x" "node_key ?pat' x = key" "region ?pat' x = region pat x"
    "\<exists>nx ks. ?pat' = pat\<lparr>p_nodes := (p_nodes pat)(x := nx), p_keys := ks\<rparr>" by blast+
qed

lemma reuse_node_inv:
  assumes inv: "pat_inv pat t ow gs" and key: "key \<noteq> []" "length key \<le> 0x1000"
    and place: "place_ok (node_key pat) key t L c" and x: "x = p_garbages pat (pat_key_storage_size pat (length key))" "x \<noteq> GRN_ID_NIL"
    and reuse: "grn_pat_reuse_node x key c (klen key) L pat = (pat', rc)"
  shows "\<exists>t' ow' gs'. pat_inv pat' t' ow' gs'" and "rc = GRN_SUCCESS" and "content pat' = (content pat)(x \<mapsto> key)"
    and "x \<in> ids pat" and "x \<notin> record_ids pat"
proof -
  note i = pat_invD [OF inv]
  define sz where "sz = pat_key_storage_size pat (length key)"
  have sz: "sz \<le> GRN_TABLE_MAX_KEY_SIZE" using key(2) by (simp add: sz_def pat_key_storage_size_def)
  have g: "chain (\<lambda>m. pn_left (p_nodes pat m)) (p_garbages pat s) (gs s)" "distinct (gs s)"
    and gm: "\<And>m. m \<in> set (gs s) \<Longrightarrow> m \<in> ids pat \<and> m \<notin> members t \<and> storage_class pat m = s \<and>
         (\<forall>j < GRN_PAT_NDELINFOS. stat_of pat j \<noteq> DL_EMPTY \<longrightarrow> di_d (p_delinfos pat j) \<noteq> m)"
    if "s \<le> GRN_TABLE_MAX_KEY_SIZE" for s
    using i(6) that by (simp_all add: garbage_ok_def)
  obtain qs where gs: "gs sz = x # qs" and qs: "chain (\<lambda>m. pn_left (p_nodes pat m)) (pn_left (p_nodes pat x)) qs" "x \<notin> set qs"
    using g [OF sz] x by (cases "gs sz") (auto simp: sz_def)
  have xm: "x \<in> ids pat" "x \<notin> members t" "storage_class pat x = sz"
    "\<And>j. j < GRN_PAT_NDELINFOS \<Longrightarrow> stat_of pat j \<noteq> DL_EMPTY \<Longrightarrow> di_d (p_delinfos pat j) \<noteq> x"
    using gm [OF sz, of x] gs by auto
  show "x \<in> ids pat" "x \<notin> record_ids pat" using xm record_ids_tree [OF i(2)] by auto
  note rk = reused_key [OF i(1) xm(1) key xm(3) [unfolded sz_def]]
  define pat1 where "pat1 = (reused x key pat)\<lparr>p_garbages := (p_garbages pat)(sz := pn_left (p_nodes pat x)),
    p_n_garbages := p_n_garbages pat - 1, p_n_entries := p_n_entries pat + 1\<rparr>"
  obtain nx ks where r: "reused x key pat = pat\<lparr>p_nodes := (p_nodes pat)(x := nx), p_keys := ks\<rparr>" using rk(6) by blast
  have p1: "pat1 = pat\<lparr>p_nodes := (p_nodes pat)(x := nx), p_keys := ks, p_garbages := (p_garbages pat)(sz := pn_left (p_nodes pat x)),
    p_n_garbages := p_n_garbages pat - 1, p_n_entries := p_n_entries pat + 1\<rparr>" by (simp add: pat1_def r)
  have kw: "key_write ptr key (update_node x f (pat\<lparr>p_garbages := gb\<rparr>)) =
    (key_write ptr key (update_node x f pat))\<lparr>p_garbages := gb\<rparr>" for ptr f gb by (cases ptr) (simp_all add: update_node_def)
  have counters: "p_n_garbages (key_write ptr key (update_node x f pat)) = p_n_garbages pat"
    "p_n_entries (key_write ptr key (update_node x f pat)) = p_n_entries pat" for ptr f by (cases ptr; simp add: update_node_def)+
  have p': "pat' = grn_pat_enable_node x key c (klen key) L pat1 \<and> rc = GRN_SUCCESS"
    using reuse rk(5) by (auto simp: grn_pat_reuse_node_def Let_def kw counters pat1_def reused_def sz_def)
  then show "rc = GRN_SUCCESS" by blast
  have sks: "same_keys (reused x key pat) pat1" by (simp add: same_keys_def pat1_def)
  have ids1: "ids pat1 = ids pat" by (simp add: p1 ids_def)
  have rids: "ids (reused x key pat) = ids pat" by (simp add: r ids_def)
  have ok1: "store_ok pat1"
  proof (rule same_keys_store_ok [OF sks stores_key_store_ok [OF rk(1) i(1)]])
    show "ids (reused x key pat) \<subseteq> insert x (ids pat)" "p_curr_rec (reused x key pat) \<le> GRN_ID_MAX"
      using rids i(1) by (auto simp: r store_ok_def)
    show "key_ok (reused x key pat) x" by (rule rk(2))
    show "region (reused x key pat) x \<inter> region pat m = {}" if "m \<in> ids pat - {x}" for m
      using store_okD(4) [OF i(1) xm(1), of m] that unfolding rk(4) by auto
  qed
  have nk: "node_key pat1 m = node_key pat m" if "m \<in> ids pat" "m \<noteq> x" for m
    using stores_key_other(3) [OF rk(1) i(1) that] same_keys_get_key(2) [OF sks, of m] by simp
  have ch: "outside_change pat pat1 x"
    using ok1 nk ids1 by (auto simp: outside_change_def) (simp_all add: p1)
  define gs' where "gs' = gs(sz := qs)"
  have sub: "set (gs' s) \<subseteq> set (gs s) - {x}" if "s \<le> GRN_TABLE_MAX_KEY_SIZE" for s
  proof (cases "s = sz")
    case True
    then show ?thesis using gs qs(2) by (auto simp: gs'_def)
  next
    case False
    then have "x \<notin> set (gs s)" using gm [OF that, of x] xm(3) by auto
    then show ?thesis using False by (auto simp: gs'_def)
  qed
  have garb: "garbage_ok pat1 t gs'"
    unfolding garbage_ok_def
  proof (intro allI impI)
    fix s assume s: "s \<le> GRN_TABLE_MAX_KEY_SIZE"
    have nodes: "p_nodes pat1 m = p_nodes pat m" if "m \<in> set (gs' s)" for m using sub [OF s] that by (auto simp: p1)
    have "chain (\<lambda>m. pn_left (p_nodes pat m)) (p_garbages pat1 s) (gs' s)"
      using g(1) [OF s] qs(1) by (simp add: p1 gs'_def)
    then have "chain (\<lambda>m. pn_left (p_nodes pat1 m)) (p_garbages pat1 s) (gs' s)"
      using chain_cong [of "gs' s" "\<lambda>m. pn_left (p_nodes pat1 m)" "\<lambda>m. pn_left (p_nodes pat m)"] nodes by simp
    moreover have "distinct (gs' s)" using g(2) [OF s] gs by (auto simp: gs'_def)
    moreover have "m \<in> ids pat1 \<and> m \<notin> members t \<and> storage_class pat1 m = s \<and>
        (\<forall>j < GRN_PAT_NDELINFOS. stat_of pat1 j \<noteq> DL_EMPTY \<longrightarrow> di_d (p_delinfos pat1 j) \<noteq> m)" if "m \<in> set (gs' s)" for m
      using gm [OF s, of m] sub [OF s] that nodes [OF that] ids1 by (auto simp: storage_class_def p1)
    ultimately show "chain (\<lambda>m. pn_left (p_nodes pat1 m)) (p_garbages pat1 s) (gs' s) \<and> distinct (gs' s) \<and>
        (\<forall>m \<in> set (gs' s). m \<in> ids pat1 \<and> m \<notin> members t \<and> storage_class pat1 m = s \<and>
           (\<forall>j < GRN_PAT_NDELINFOS. stat_of pat1 j \<noteq> DL_EMPTY \<longrightarrow> di_d (p_delinfos pat1 j) \<noteq> m))" by blast
  qed
  have free: "x \<notin> free_nodes gs'" using sub unfolding free_nodes_def by blast
  have x0: "x \<noteq> GRN_ID_NIL" by (rule x(2))
  have kx: "node_key pat1 x = key" using rk(3) same_keys_get_key(2) [OF sks, of x] by simp
  have "ready pat1 t ow gs' x key"
    using ok1 outside_change_inv [OF ch inv xm(2) x0] garb free xm i(8-10) ids1 kx by (simp add: ready_def) (simp add: p1)
  moreover have "klen key \<le> 0x10000" using key(2) by (simp add: klen_def)
  moreover have "node_key pat1 m = node_key pat m" if "m \<in> members t" for m
    using nk [of m] tree_okD(5) [OF i(2)] that xm(2) by blast
  ultimately have "(\<exists>t' ow'. pat_inv pat' t' ow' gs') \<and> content pat' = (content pat)(x \<mapsto> key)"
    using enable_ready_content [of pat1 t ow gs' x key pat L c, OF _ place _ i(2)] p' by simp
  then show "\<exists>t' ow' gs'. pat_inv pat' t' ow' gs'" "content pat' = (content pat)(x \<mapsto> key)" by blast+
qed

section \<open>The cache\<close>

lemma cache_id_less:
  assumes "length c = 2 ^ n" and "n < 32"
  shows "grn_pat_cache_compute_id (length c) key < length c"
proof -
  have "of_nat (length c) - 1 = (mask n :: u32)" using assms(1) by (simp add: mask_eq_exp_minus_1)
  moreover have "unat (w AND mask n :: u32) < 2 ^ n" for w :: u32
  proof -
    have "unat (w AND mask n) = unat w mod 2 ^ n" by (simp add: unat_take_bit flip: take_bit_eq_mask take_bit_eq_mod)
    then show ?thesis by simp
  qed
  ultimately show ?thesis unfolding grn_pat_cache_compute_id_def assms(1) by (simp only:)
qed

lemma set_cache_fields [simp]:
  "store_ok (set_cache key r pat) = store_ok pat" "tree_ok (set_cache key r pat) t = tree_ok pat t"
  "owner_ok (set_cache key r pat) t ow = owner_ok pat t ow" "ring_ok (set_cache key r pat) = ring_ok pat"
  "pending_ok (set_cache key r pat) t ow = pending_ok pat t ow" "garbage_ok (set_cache key r pat) t gs = garbage_ok pat t gs"
  "node_key (set_cache key r pat) m = node_key pat m" "content (set_cache key r pat) = content pat"
proof -
  have sk: "same_keys pat (set_cache key r pat)" "same_keys (set_cache key r pat) pat"
    by (simp_all add: same_keys_def set_cache_def split: option.split)
  have nodes: "p_nodes (set_cache key r pat) = p_nodes pat" "p_delinfos (set_cache key r pat) = p_delinfos pat"
    "p_garbages (set_cache key r pat) = p_garbages pat" "p_curr_del (set_cache key r pat) = p_curr_del pat"
    "p_curr_del2 (set_cache key r pat) = p_curr_del2 pat" "p_curr_del3 (set_cache key r pat) = p_curr_del3 pat"
    by (simp_all add: set_cache_def split: option.split)
  have ids: "ids (set_cache key r pat) = ids pat" by (rule same_keys_ids [OF sk(1)])
  note nk = same_keys_get_key(2) [OF sk(1)]
  then have K: "node_key (set_cache key r pat) = node_key pat" by blast
  show "node_key (set_cache key r pat) m = node_key pat m" by (rule nk)
  show "store_ok (set_cache key r pat) = store_ok pat" using same_keys_store_ok sk by blast
  show "tree_ok (set_cache key r pat) t = tree_ok pat t" by (simp add: tree_ok_def nodes K ids)
  show "owner_ok (set_cache key r pat) t ow = owner_ok pat t ow" by (simp add: owner_ok_def leaf_ok_def nodes K)
  show "ring_ok (set_cache key r pat) = ring_ok pat" by (simp add: ring_ok_def nodes)
  show "pending_ok (set_cache key r pat) t ow = pending_ok pat t ow" by (simp add: pending_ok_def nodes ids)
  show "garbage_ok (set_cache key r pat) t gs = garbage_ok pat t gs" by (simp add: garbage_ok_def storage_class_def nodes ids)
  show "content (set_cache key r pat) = content pat" by (simp add: content_def record_ids_def nodes K fun_eq_iff)
qed

lemma set_cache_inv:
  assumes inv: "pat_inv pat t ow gs" and r: "r = GRN_ID_NIL \<or> r \<in> set (records t) \<and> node_key pat r = key"
  shows "pat_inv (set_cache key r pat) t ow gs"
proof -
  note i = pat_invD [OF inv]
  have "cache_ok (set_cache key r pat) t"
  proof (cases "p_cache pat")
    case None
    then show ?thesis using i(7) by (simp add: cache_ok_def set_cache_def)
  next
    case (Some c)
    obtain n where n: "length c = 2 ^ n" "n < 32"
      and c: "\<And>j. j < length c \<Longrightarrow> c ! j \<noteq> GRN_ID_NIL \<Longrightarrow>
           c ! j \<in> set (records t) \<and> j = grn_pat_cache_compute_id (length c) (node_key pat (c ! j))"
      using i(7) Some by (auto simp: cache_ok_def)
    let ?k = "grn_pat_cache_compute_id (length c) key"
    have p: "p_cache (set_cache key r pat) = Some (c[?k := r])" using Some by (simp add: set_cache_def)
    have "c[?k := r] ! j \<in> set (records t) \<and> j = grn_pat_cache_compute_id (length c) (node_key pat (c[?k := r] ! j))"
      if "j < length c" "c[?k := r] ! j \<noteq> GRN_ID_NIL" for j
      using that r c [of j] by (cases "j = ?k") auto
    then show ?thesis unfolding cache_ok_def p using n by auto
  qed
  moreover have "p_n_entries (set_cache key r pat) = p_n_entries pat" "p_truncated (set_cache key r pat) = p_truncated pat"
    "p_with_sis (set_cache key r pat) = p_with_sis pat" by (simp_all add: set_cache_def split: option.split)
  ultimately show ?thesis using i by (simp add: pat_inv_def)
qed

lemma cache_lookup_content:
  assumes inv: "pat_inv pat t ow gs" and r: "cache_lookup pat key = r" "r \<noteq> GRN_ID_NIL"
  shows "content pat r = Some key"
proof -
  note i = pat_invD [OF inv]
  obtain c where c: "p_cache pat = Some c" and k: "c ! grn_pat_cache_compute_id (length c) key = r" "pat_node_get_key pat r = Some key"
    using r by (auto simp: cache_lookup_def Let_def split: option.splits if_splits)
  have "grn_pat_cache_compute_id (length c) key < length c" using i(7) c cache_id_less unfolding cache_ok_def by blast
  then have "r \<in> set (records t)" using i(7) c k(1) r(2) unfolding cache_ok_def by blast
  then show ?thesis using k(2) by (simp add: content_Some [OF i(2)] node_key_def)
qed

section \<open>Addition\<close>

text \<open>What an addition promises: the record of the key if there is one, else a new record, or nothing when there is no space.\<close>

definition add_spec :: "(grn_id \<Rightarrow> byte list option) \<Rightarrow> byte list \<Rightarrow> (grn_id \<Rightarrow> byte list option) \<Rightarrow> grn_id \<Rightarrow> bool \<Rightarrow> bool" where
  "add_spec c key c' r added \<longleftrightarrow>
     (if key \<in> ran c then c r = Some key \<and> \<not> added \<and> c' = c
      else if added then r \<noteq> GRN_ID_NIL \<and> c r = None \<and> c' = c(r \<mapsto> key)
      else r = GRN_ID_NIL \<and> c' = c)"

lemma has_room_seg [simp]: "has_room (pat\<lparr>p_seg_pat := sg\<rparr>) key = has_room pat key"
  by (simp add: has_room_def pat_key_is_embeddable_def grn_pat_max_total_key_size_def)

lemma content_None: "x \<notin> record_ids pat \<Longrightarrow> content pat x = None"
  by (simp add: content_def)

lemma add_new_node_spec:
  assumes inv: "pat_inv pat t ow gs" and key: "key \<noteq> []" "length key \<le> 0x1000" and room: "has_room pat key"
    and place: "place_ok (node_key pat) key t L c" and new: "key \<notin> ran (content pat)"
    and add: "add_new_node env pat key 0 c (klen key) L = (pat', r, added, sh)"
  shows "pat_ok pat'" and "add_spec (content pat) key (content pat') r added"
proof -
  note i = pat_invD [OF inv]
  let ?sz = "pat_key_storage_size pat (length key)"
  have "pat_ok pat' \<and> add_spec (content pat) key (content pat') r added"
  proof (cases "p_garbages pat ?sz = GRN_ID_NIL")
    case False
    obtain pat1 rc where reuse: "grn_pat_reuse_node (p_garbages pat ?sz) key c (klen key) L pat = (pat1, rc)" by force
    note re = reuse_node_inv [OF inv key place refl False reuse]
    have "PAT_AT pat (p_garbages pat ?sz) \<noteq> None" using store_okD(2) [OF i(1) re(4)] by (simp add: key_ok_def)
    then have "pat' = pat1 \<and> r = p_garbages pat ?sz \<and> added"
      using add False reuse re(2) by (auto simp: add_new_node_def Let_def)
    then show ?thesis using re(1,3) content_None [OF re(5)] new False by (auto simp: pat_ok_def add_spec_def)
  next
    case True
    define x where "x = p_curr_rec pat + 1"
    obtain pat1 ok where get: "pat_node_get env pat x = (pat1, ok)" by force
    note g = pat_node_get_inv [OF inv get]
    note j = pat_invD [OF g(1)]
    note fr = fresh_id [OF i(1), folded x_def]
    show ?thesis
    proof (cases ok)
      case False
      then have "pat' = pat1 \<and> r = GRN_ID_NIL \<and> \<not> added"
        using add True get by (simp add: add_new_node_def Let_def x_def)
      then show ?thesis using g(1,5) new by (auto simp: pat_ok_def add_spec_def)
    next
      case ok: True
      obtain pat2 rc where an: "grn_pat_add_node env x key c (klen key) L pat1 = (pat2, rc)" by force
      have p: "pat' = pat2 \<and> (if rc = GRN_SUCCESS then r = x \<and> added else r = GRN_ID_NIL \<and> \<not> added)"
        using add True get ok an by (auto simp: add_new_node_def Let_def x_def split: if_splits)
      obtain seg where seg: "pat1 = pat\<lparr>p_seg_pat := seg\<rparr>" using g(3) by blast
      have nk: "node_key pat1 m = node_key pat m" if "m \<in> members t" for m
      proof -
        have "m \<in> ids pat" using that tree_okD(5) [OF i(2)] by blast
        then have "pat_node_get_key pat m = Some (node_key pat m)" using store_ok_readable(1) [OF i(1)] by (simp add: readable_def)
        moreover have "pat_node_get_key pat1 m = pat_node_get_key pat m"
        proof -
          have "key_read pat1 ptr n = key_read pat ptr n" for ptr n by (cases ptr) (simp_all add: seg)
          then show ?thesis
            by (simp add: pat_node_get_key_def pat_node_get_key_ptr_def seg pat_node_get_key_offset_def KEY_AT_def Let_def)
        qed
        ultimately show ?thesis by (simp add: node_key_def)
      qed
      have x1: "x = p_curr_rec pat1 + 1" by (simp add: seg x_def)
      note an' = add_node_inv [OF g(1) key _ place_ok_cong [OF place nk] x1 g(2) [OF ok] an]
      have none: "content pat x = None"
        using fr(1) tree_okD(5) [OF i(2)] by (intro content_None) (auto simp: record_ids_tree [OF i(2)])
      show ?thesis
        using an' room seg g(5) p none new fr(2) by (cases "rc = GRN_SUCCESS") (auto simp: pat_ok_def add_spec_def)
    qed
  qed
  then show "pat_ok pat'" "add_spec (content pat) key (content pat') r added" by blast+
qed

lemma add_internal_spec:
  assumes inv: "pat_inv pat t ow gs" and key: "key \<noteq> []" "length key \<le> 0x1000" and room: "has_room pat key"
  shows "\<exists>pat' r added sh. grn_pat_add_internal env pat key 0 = Some (pat', r, added, sh) \<and> pat_ok pat' \<and>
    add_spec (content pat) key (content pat') r added \<and> \<not> p_with_sis pat'"
proof -
  note i = pat_invD [OF inv]
  have km: "PAT_CHECK_PACK (int (length key)) 0 False = klen key" by (simp add: PAT_CHECK_PACK_def klen_def)
  have z: "0 \<notin> members t" using tree_okD(5) [OF i(2)] by (auto simp: ids_def)
  note find = add_internal_find_tree [of pat t "node_key pat" key, OF _ store_ok_readable(1) [OF i(1)] tree_okD(2) [OF i(2)] key(1)
      store_ok_readable(2) [OF i(1)], unfolded id_at_link, OF tree_okD(1) [OF i(2)] subsetD [OF tree_okD(5) [OF i(2)]]
      subsetD [OF tree_okD(5) [OF i(2)]]]
  define g where "g = tree_get (node_key pat) key t"
  have get: "g = r \<longleftrightarrow> (if r = GRN_ID_NIL then key \<notin> ran (content pat) else content pat r = Some key)" for r
    using pat_get_content [OF inv key(1), of r] pat_get_tree [OF i(1,2) key(1)] by (simp add: g_def)
  have sis: "p_with_sis (set_cache key r p) = p_with_sis p" for r p by (simp add: set_cache_def split: option.split)
  have okD: "\<not> p_with_sis p" if "pat_ok p" for p using that by (auto simp: pat_ok_def pat_inv_def)
  show ?thesis
  proof (cases "cache_lookup pat key = GRN_ID_NIL")
    case False
    have c: "content pat (cache_lookup pat key) = Some key" by (rule cache_lookup_content [OF inv refl False])
    have "grn_pat_add_internal env pat key 0 = Some (pat, cache_lookup pat key, False, 0)"
      using False by (simp add: grn_pat_add_internal_def)
    moreover have "add_spec (content pat) key (content pat) (cache_lookup pat key) False"
      using c by (auto simp: add_spec_def ran_def)
    ultimately show ?thesis using inv i(10) by (auto simp: pat_ok_def)
  next
    case cn: True
    show ?thesis
    proof (cases "g = GRN_ID_NIL")
      case False
      then have f: "grn_pat_add_internal_find pat key (klen key) = Some (PlaceFound g)" using find by (simp add: g_def)
      have c: "content pat g = Some key" using get [of g] False by simp
      then have "g \<in> set (records t)" "node_key pat g = key" by (simp_all add: content_Some [OF i(2)])
      then have "pat_ok (set_cache key g pat)" using set_cache_inv [OF inv, of g key] by (auto simp: pat_ok_def)
      moreover have "grn_pat_add_internal env pat key 0 = Some (set_cache key g pat, g, False, 0)"
        using f cn by (simp add: grn_pat_add_internal_def km)
      moreover have "add_spec (content pat) key (content (set_cache key g pat)) g False"
        using c by (auto simp: add_spec_def ran_def)
      ultimately show ?thesis using okD by blast
    next
      case True
      then obtain L c where f: "grn_pat_add_internal_find pat key (klen key) = Some (PlaceAt L c)"
        and place: "place_ok (node_key pat) key t L c" using find by (auto simp: g_def)
      have new: "key \<notin> ran (content pat)" using get [of GRN_ID_NIL] True by simp
      obtain pat1 r added sh where an: "add_new_node env pat key 0 c (klen key) L = (pat1, r, added, sh)" by (metis prod_cases4)
      note sp = add_new_node_spec [OF inv key room place new an]
      define pat2 where "pat2 = (if added then set_cache key r pat1 else pat1)"
      have eq: "grn_pat_add_internal env pat key 0 = Some (pat2, r, added, sh)"
        using f cn an by (simp add: grn_pat_add_internal_def km pat2_def)
      have "pat_ok pat2"
      proof (cases added)
        case True
        obtain t' ow' gs' where inv': "pat_inv pat1 t' ow' gs'" using sp(1) by (auto simp: pat_ok_def)
        have "content pat1 r = Some key" using sp(2) new True by (simp add: add_spec_def)
        then have "r \<in> set (records t')" "node_key pat1 r = key" by (simp_all add: content_Some [OF pat_invD(2) [OF inv']])
        then show ?thesis using set_cache_inv [OF inv', of r key] True by (auto simp: pat_ok_def pat2_def)
      qed (use sp(1) in \<open>simp add: pat2_def\<close>)
      moreover have "content pat2 = content pat1" by (simp add: pat2_def)
      ultimately show ?thesis using eq sp(2) okD by auto
    qed
  qed
qed

end
