(* ===== verification/PatTurn.thy ===== *)
theory PatTurn
  imports PatAdd
begin

text \<open>
  The ring of pending deletions of a patricia trie: \<^verbatim>\<open>delinfo_turn_2\<close> lets the node of a record take the place of an inner node whose
  own record is gone, and \<^verbatim>\<open>delinfo_turn_3\<close> puts a node that is out of the tree on a list of free nodes.  Neither changes a record.
\<close>

section \<open>Replacing a part of the tree\<close>

lemma members_graft_subset:
  assumes "members s \<subseteq> members (below key c t)"
  shows "members (graft key c s t) \<subseteq> members t"
  using assms members_graft [of key c s t] members_split [of t key c] by blast

lemma key_tree_graft:
  "key_tree K t \<Longrightarrow> key_tree K s \<Longrightarrow> members s \<subseteq> members (below key c t) \<Longrightarrow> key_tree K (graft key c s t)"
proof (induction t)
  case (Inner i k l r)
  show ?case
  proof (cases "k < c")
    case True
    let ?l = "if kbit key k then l else graft key c s l" and ?r = "if kbit key k then graft key c s r else r"
    have sub: "members s \<subseteq> members (below key c (child key k l r))" using Inner.prems(3) True by simp
    have l: "members ?l \<subseteq> members l" "key_tree K ?l"
      using members_graft_subset [of s key c l] Inner.IH(1) Inner.prems(1,2) sub by (cases "kbit key k"; simp)+
    have r: "members ?r \<subseteq> members r" "key_tree K ?r"
      using members_graft_subset [of s key c r] Inner.IH(2) Inner.prems(1,2) sub by (cases "kbit key k"; simp)+
    have g: "graft key c s (Inner i k l r) = Inner i k ?l ?r" using True by simp
    have m: "members (Inner i k ?l ?r) \<subseteq> members (Inner i k l r)" using l(1) r(1) by auto
    have kt: "\<forall>m \<in> members l. \<not> kbit (K m) k" "\<forall>m \<in> members r. kbit (K m) k"
      "\<forall>m \<in> members (Inner i k l r). k < klen (K m) \<and> agree_below k (K i) (K m)" using Inner.prems(1) by simp_all
    show ?thesis
      unfolding g key_tree.simps using l r m kt by blast
  next
    case False
    then show ?thesis using Inner.prems by simp
  qed
qed auto

lemma owned_graft:
  assumes "owned ow t" and "owned ow' s"
    and "\<And>i. i \<in> set (inners (rest key c t)) \<Longrightarrow> if ow i \<in> set (records (below key c t)) then ow' i \<in> set (records s) else ow' i = ow i"
    and "distinct (records t)"
  shows "owned ow' (graft key c s t)"
  using assms
proof (induction t)
  case (Inner i k l r)
  show ?case
  proof (cases "k < c")
    case True
    let ?ch = "child key k l r" and ?ot = "if kbit key k then l else r"
    have b: "below key c (Inner i k l r) = below key c ?ch" using True by simp
    have rs: "set (inners (rest key c (Inner i k l r))) = insert i (set (inners (rest key c ?ch)) \<union> set (inners ?ot))"
      using True by auto
    have bsub: "set (records (below key c ?ch)) \<subseteq> set (records ?ch)" using set_records_split [of ?ch key c] by blast
    have dj: "set (records ?ch) \<inter> set (records ?ot) = {}" using Inner.prems(4) by auto
    have ot: "owned ow' ?ot"
    proof (rule owned_cong)
      show "owned ow ?ot" using Inner.prems(1) by auto
      fix j assume j: "j \<in> set (inners ?ot)"
      then have "ow j \<in> set (records ?ot)" using owned_member [of ow ?ot j] Inner.prems(1) by auto
      then have "ow j \<notin> set (records (below key c ?ch))" using bsub dj by blast
      then show "ow' j = ow j" using Inner.prems(3) [of j] j rs b by simp
    qed
    have ch: "owned ow' (graft key c s ?ch)"
    proof -
      have "\<And>j. j \<in> set (inners (rest key c ?ch)) \<Longrightarrow>
        if ow j \<in> set (records (below key c ?ch)) then ow' j \<in> set (records s) else ow' j = ow j"
        using Inner.prems(3) rs b by simp
      moreover have "distinct (records ?ch)" "owned ow ?ch" using Inner.prems(1,4) by auto
      ultimately show ?thesis using Inner.IH Inner.prems(2) by (cases "kbit key k") auto
    qed
    have "ow' i \<in> set (records (graft key c s ?ch)) \<union> set (records ?ot)"
    proof (cases "ow i \<in> set (records (below key c ?ch))")
      case True
      then show ?thesis using Inner.prems(3) [of i] rs b set_records_graft [of key c s ?ch] by auto
    next
      case False
      then have "ow' i = ow i" using Inner.prems(3) [of i] rs b by simp
      moreover have "ow i \<in> set (records ?ch) \<union> set (records ?ot)" using Inner.prems(1) by auto
      ultimately show ?thesis using False set_records_split [of ?ch key c] set_records_graft [of key c s ?ch] by auto
    qed
    then show ?thesis using True ot ch by (cases "kbit key k") auto
  next
    case False
    then show ?thesis using Inner.prems(2) by simp
  qed
qed auto

lemma key_tree_below: "key_tree K t \<Longrightarrow> key_tree K (below key c t)"
  by (induction t) auto

lemma owned_below: "owned ow t \<Longrightarrow> owned ow (below key c t)"
  by (induction t) auto

section \<open>The way to an inner node\<close>

lemma below_inner_node:
  assumes "key_tree K t" and "increasing c0 t" and "d \<in> set (inners t)" and "distinct (inners t)"
  shows "\<exists>k l r. below (K d) k t = Inner d k l r \<and> c0 < k \<and> k < klen (K d)"
  using assms
proof (induction t arbitrary: c0)
  case (Inner i k l r)
  show ?case
  proof (cases "i = d")
    case True
    then show ?thesis using Inner.prems(1,2) by auto
  next
    case False
    let ?ch = "child (K d) k l r"
    have "d \<in> set (inners ?ch)" using Inner.prems(1,3) False by auto
    moreover have "key_tree K ?ch" "increasing k ?ch" "distinct (inners ?ch)" using Inner.prems by auto
    ultimately obtain k' l' r' where "below (K d) k' ?ch = Inner d k' l' r'" "k < k'" "k' < klen (K d)"
      using Inner.IH(1) [of k] Inner.IH(2) [of k] by (cases "kbit (K d) k") (simp_all, blast+)
    moreover have "c0 < k" using Inner.prems(2) by simp
    ultimately show ?thesis by (intro exI [of _ k'] exI [of _ l'] exI [of _ r']) auto
  qed
qed auto

lemma turn_2_find_tree:
  assumes "tree_at (p_nodes pat) c (link (p_nodes pat) loc) t" and "\<And>m. m \<in> members t \<Longrightarrow> PAT_AT pat m \<noteq> None"
    and "key_tree K t" and "below (K d) k t = Inner d k l r" and "d \<notin> set (records t)" and "distinct (inners t)"
  shows "turn_2_find pat (K d) d c loc = Inr (Some (insert_location (K d) k loc t))"
  using assms
proof (induction t arbitrary: c loc)
  case (Inner i k' l' r')
  have i: "link (p_nodes pat) loc = i" "i \<noteq> GRN_ID_NIL" "pat_node_get_check (p_nodes pat i) = k'" "c < k'"
    using Inner.prems(1) by auto
  have id: "id_at pat loc = i" using i(1) by (simp add: id_at_link)
  show ?case
  proof (cases "k' < k")
    case False
    then have "i = d" using Inner.prems(4) by simp
    then show ?thesis using False id i(2) by (subst turn_2_find.simps) (simp add: Let_def)
  next
    case True
    let ?ch = "child (K d) k' l' r'"
    have bl: "below (K d) k ?ch = Inner d k l r" using Inner.prems(4) True by simp
    then have "d \<in> set (inners (below (K d) k ?ch))" by simp
    then have dch: "d \<in> set (inners ?ch)" using set_inners_split [of ?ch "K d" k] by blast
    then have di: "i \<noteq> d" using Inner.prems(6) by (auto split: if_splits)
    have "k' < klen (K d)" using Inner.prems(3) dch by (auto split: if_splits)
    then have kl: "\<not> PAT_CHECK_PACK (int (length (K d))) 0 False \<le> k'" by (simp add: PAT_CHECK_PACK_def klen_def)
    obtain node where at: "PAT_AT pat i = Some node" using Inner.prems(2) [of i] by auto
    then have node: "node = p_nodes pat i" by (auto simp: PAT_AT_def split: if_splits)
    have nl: "grn_pat_next_location i (K d) k' (klen (K d)) = (i, direction (kbit (K d) k'))" by (simp add: grn_pat_next_location_def)
    have "tree_at (p_nodes pat) k' (link (p_nodes pat) (i, direction (kbit (K d) k'))) ?ch"
      using Inner.prems(1) by (auto simp: link_direction)
    moreover have "\<And>m. m \<in> members ?ch \<Longrightarrow> PAT_AT pat m \<noteq> None" using Inner.prems(2) by (auto split: if_splits)
    moreover have "key_tree K ?ch" "d \<notin> set (records ?ch)" "distinct (inners ?ch)" using Inner.prems(3,5,6) by auto
    ultimately have "turn_2_find pat (K d) d k' (i, direction (kbit (K d) k')) =
      Inr (Some (insert_location (K d) k (i, direction (kbit (K d) k')) ?ch))"
      using Inner.IH(1) [of k' "(i, direction (kbit (K d) k'))"] Inner.IH(2) [of k' "(i, direction (kbit (K d) k'))"] bl
      by (cases "kbit (K d) k'") simp_all
    then show ?thesis
      using True di i kl at by (subst turn_2_find.simps) (simp add: Let_def id node nl)
  qed
qed auto

section \<open>The parts of the invariant\<close>

lemma pending_okD:
  assumes "pending_ok pat t ow"
  shows "j < GRN_PAT_NDELINFOS \<Longrightarrow> stat_of pat j = DL_PHASE1 \<Longrightarrow> di_d (p_delinfos pat j) \<in> set (inners t)"
    and "j < GRN_PAT_NDELINFOS \<Longrightarrow> stat_of pat j = DL_PHASE1 \<Longrightarrow> ow (di_d (p_delinfos pat j)) = di_ld (p_delinfos pat j)"
    and "j < GRN_PAT_NDELINFOS \<Longrightarrow> stat_of pat j = DL_PHASE1 \<Longrightarrow> di_ld (p_delinfos pat j) \<noteq> di_d (p_delinfos pat j)"
    and "i \<in> set (inners t) \<Longrightarrow> ow i \<noteq> i \<Longrightarrow> \<exists>j < GRN_PAT_NDELINFOS. stat_of pat j = DL_PHASE1 \<and> di_d (p_delinfos pat j) = i"
    and "j < GRN_PAT_NDELINFOS \<Longrightarrow> stat_of pat j = DL_PHASE2 \<Longrightarrow> di_d (p_delinfos pat j) \<in> ids pat"
    and "j < GRN_PAT_NDELINFOS \<Longrightarrow> stat_of pat j = DL_PHASE2 \<Longrightarrow> di_d (p_delinfos pat j) \<notin> members t"
    and "j < GRN_PAT_NDELINFOS \<Longrightarrow> j' < GRN_PAT_NDELINFOS \<Longrightarrow> stat_of pat j \<noteq> DL_EMPTY \<Longrightarrow> stat_of pat j' \<noteq> DL_EMPTY \<Longrightarrow>
      di_d (p_delinfos pat j) = di_d (p_delinfos pat j') \<Longrightarrow> j = j'"
    and "m \<in> members t \<Longrightarrow> pat_node_is_deleting (p_nodes pat m) \<longleftrightarrow>
      (\<exists>j < GRN_PAT_NDELINFOS. stat_of pat j = DL_PHASE1 \<and> (di_d (p_delinfos pat j) = m \<or> di_ld (p_delinfos pat j) = m))"
  using assms unfolding pending_ok_def by blast+

lemma owner_okD:
  assumes "owner_ok pat t ow"
  shows "owned ow t" and "inj_on ow (set (inners t))"
    and "i \<in> set (inners t) \<Longrightarrow> ow i \<noteq> i \<Longrightarrow> i \<notin> set (records t)"
    and "i \<in> set (inners t) \<Longrightarrow> ow i \<noteq> i \<Longrightarrow> ow i \<notin> set (inners t)"
    and "i \<in> set (inners t) \<Longrightarrow> ow i \<noteq> i \<Longrightarrow> \<not> self_loop (ow i) (p_nodes pat (ow i))"
    and "r \<in> set (records t) \<Longrightarrow> r \<notin> ow ` set (inners t) \<Longrightarrow> leaf_ok pat r"
    and "i \<in> set (inners t) \<Longrightarrow> ow i \<in> set (records t)"
    and "r \<in> set (records t) \<Longrightarrow> r \<notin> ow ` set (inners t) \<Longrightarrow> r \<notin> set (inners t)"
proof -
  note d = assms [unfolded owner_ok_def]
  show "owned ow t" "inj_on ow (set (inners t))" using d by blast+
  show "i \<in> set (inners t) \<Longrightarrow> ow i \<noteq> i \<Longrightarrow> i \<notin> set (records t)" "i \<in> set (inners t) \<Longrightarrow> ow i \<noteq> i \<Longrightarrow> ow i \<notin> set (inners t)"
    "i \<in> set (inners t) \<Longrightarrow> ow i \<noteq> i \<Longrightarrow> \<not> self_loop (ow i) (p_nodes pat (ow i))"
    "r \<in> set (records t) \<Longrightarrow> r \<notin> ow ` set (inners t) \<Longrightarrow> leaf_ok pat r" using d by blast+
  show "i \<in> set (inners t) \<Longrightarrow> ow i \<in> set (records t)" using d owned_member by blast
  show "r \<in> set (records t) \<Longrightarrow> r \<notin> ow ` set (inners t) \<Longrightarrow> r \<notin> set (inners t)" using d by (metis image_eqI)
qed

lemma leaf_ok_cong:
  "p_nodes pat' m = p_nodes pat m \<Longrightarrow> node_key pat' m = node_key pat m \<Longrightarrow> leaf_ok pat' m = leaf_ok pat m"
  by (simp add: leaf_ok_def link_def)

lemma garbage_okD:
  assumes "garbage_ok pat t gs" and "sz \<le> GRN_TABLE_MAX_KEY_SIZE"
  shows "chain (\<lambda>m. pn_left (p_nodes pat m)) (p_garbages pat sz) (gs sz)" and "distinct (gs sz)"
    and "m \<in> set (gs sz) \<Longrightarrow> m \<in> ids pat" and "m \<in> set (gs sz) \<Longrightarrow> m \<notin> members t" and "m \<in> set (gs sz) \<Longrightarrow> storage_class pat m = sz"
    and "m \<in> set (gs sz) \<Longrightarrow> j < GRN_PAT_NDELINFOS \<Longrightarrow> stat_of pat j \<noteq> DL_EMPTY \<Longrightarrow> di_d (p_delinfos pat j) \<noteq> m"
  using assms unfolding garbage_ok_def by blast+

text \<open>Free nodes stay free when the tree does not grow and only nodes of the tree and pending nodes change.\<close>

lemma garbage_ok_frame:
  assumes g: "garbage_ok pat t gs" and sk: "same_keys pat pat'" and gb: "p_garbages pat' = p_garbages pat"
    and mem: "members t' \<subseteq> members t"
    and nodes: "\<And>m. m \<notin> members t \<Longrightarrow> m \<noteq> GRN_ID_NIL \<Longrightarrow>
      (\<And>j. j < GRN_PAT_NDELINFOS \<Longrightarrow> stat_of pat j \<noteq> DL_EMPTY \<Longrightarrow> di_d (p_delinfos pat j) \<noteq> m) \<Longrightarrow> p_nodes pat' m = p_nodes pat m"
    and pend: "\<And>j. j < GRN_PAT_NDELINFOS \<Longrightarrow> stat_of pat' j \<noteq> DL_EMPTY \<Longrightarrow>
      di_d (p_delinfos pat' j) \<in> members t \<or>
      (\<exists>j' < GRN_PAT_NDELINFOS. stat_of pat j' \<noteq> DL_EMPTY \<and> di_d (p_delinfos pat j') = di_d (p_delinfos pat' j))"
  shows "garbage_ok pat' t' gs"
  unfolding garbage_ok_def
proof (intro allI impI)
  fix sz assume sz: "sz \<le> GRN_TABLE_MAX_KEY_SIZE"
  note d = garbage_okD [OF g sz]
  have "p_nodes pat' m = p_nodes pat m" if "m \<in> set (gs sz)" for m
    by (rule nodes) (use d(3,4,6) [OF that] in \<open>auto simp: ids_def\<close>)
  then have "chain (\<lambda>m. pn_left (p_nodes pat' m)) (p_garbages pat' sz) (gs sz)"
    using d(1) chain_cong [of "gs sz" "\<lambda>m. pn_left (p_nodes pat' m)" "\<lambda>m. pn_left (p_nodes pat m)"] by (simp add: gb)
  moreover have "storage_class pat' m = storage_class pat m" for m using sk by (simp add: storage_class_def same_keys_def)
  moreover have "di_d (p_delinfos pat' j) \<noteq> m" if "m \<in> set (gs sz)" "j < GRN_PAT_NDELINFOS" "stat_of pat' j \<noteq> DL_EMPTY" for m j
    using pend [OF that(2,3)] d(4) [OF that(1)] d(6) [OF that(1)] by metis
  ultimately show "chain (\<lambda>m. pn_left (p_nodes pat' m)) (p_garbages pat' sz) (gs sz) \<and> distinct (gs sz) \<and>
      (\<forall>m \<in> set (gs sz). m \<in> ids pat' \<and> m \<notin> members t' \<and> storage_class pat' m = sz \<and>
         (\<forall>j < GRN_PAT_NDELINFOS. stat_of pat' j \<noteq> DL_EMPTY \<longrightarrow> di_d (p_delinfos pat' j) \<noteq> m))"
    using d(2-5) mem same_keys_ids [OF sk] by (simp add: subset_iff) blast
qed

section \<open>The second turn\<close>

lemma set_check_same [simp]: "pn_check (pat_node_set_check (pat_node_get_check n) m) = pn_check n"
  by (simp add: pat_node_set_check_def pat_node_get_check_def)

lemma turn_2_result:
  fixes pat p j ld d key
  assumes key: "pat_node_get_key pat d = Some key"
    and find: "turn_2_find (update_node d pat_node_set_deleting_off (update_node ld pat_node_set_deleting_off pat)) key d (- 1) root_location
      = Inr (Some p)"
    and p: "fst p \<noteq> ld" "fst p \<noteq> d" "ld \<noteq> d"
  defines "pat' \<equiv> fst (delinfo_turn_2_internal pat j ld d)"
  shows "m \<noteq> ld \<Longrightarrow> m \<noteq> d \<Longrightarrow> m \<noteq> fst p \<Longrightarrow> p_nodes pat' m = p_nodes pat m"
    and "pn_check (p_nodes pat' m) = pn_check (p_nodes pat (if m = ld then d else m))"
    and "link (p_nodes pat') (m, dir) = (if (m, dir) = p then ld else link (p_nodes pat) (if m = ld then d else m, dir))"
    and "pat_node_is_deleting (p_nodes pat' m) \<longleftrightarrow> m \<noteq> ld \<and> m \<noteq> d \<and> pat_node_is_deleting (p_nodes pat m)"
    and "same_keys pat pat'" and "p_delinfos pat' = (p_delinfos pat)(j := (p_delinfos pat j)\<lparr>di_stat := DL_PHASE2, di_d := d\<rparr>)"
    and "p_curr_del pat' = p_curr_del pat" "p_curr_del2 pat' = p_curr_del2 pat" "p_curr_del3 pat' = p_curr_del3 pat"
    and "p_cache pat' = p_cache pat" "p_garbages pat' = p_garbages pat" "p_n_entries pat' = p_n_entries pat"
    and "p_truncated pat' = p_truncated pat" "p_with_sis pat' = p_with_sis pat"
proof -
  define pat1 where "pat1 = update_node d pat_node_set_deleting_off (update_node ld pat_node_set_deleting_off pat)"
  have sk1: "same_keys pat pat1"
    unfolding pat1_def by (rule same_keys_trans [OF same_keys_update_node same_keys_update_node]) simp_all
  have key1: "pat_node_get_key pat1 d = Some key" using same_keys_get_key(1) [OF sk1] key by simp
  let ?dn = "p_nodes pat1 d"
  define f where "f = pat_node_set_child DIRECTION_LEFT (pn_left ?dn) \<circ> pat_node_set_child DIRECTION_RIGHT (pn_right ?dn) \<circ>
    pat_node_set_check (pat_node_get_check ?dn)"
  define pat2 where "pat2 = update_node ld f pat1"
  define pat3 where "pat3 = set_id_at p ld pat2"
  have p': "pat' = update_delinfo j (\<lambda>di. di\<lparr>di_stat := DL_PHASE2, di_d := d\<rparr>) pat3"
    using key1 find by (simp add: pat'_def delinfo_turn_2_internal_def Let_def pat1_def pat2_def pat3_def f_def)
  have n: "p_nodes pat' = p_nodes pat3" by (simp add: p' update_delinfo_def)
  have "same_keys pat1 pat2" unfolding pat2_def f_def by (rule same_keys_update_node) simp_all
  moreover have "same_keys pat2 pat3" unfolding pat3_def by simp
  moreover have "same_keys pat3 pat'" by (simp add: p' update_delinfo_def same_keys_def)
  ultimately show "same_keys pat pat'" using sk1 same_keys_trans by blast
  have n1: "p_nodes pat1 = (p_nodes pat)(ld := pat_node_set_deleting_off (p_nodes pat ld), d := pat_node_set_deleting_off (p_nodes pat d))"
    using p(3) by (simp add: pat1_def fun_upd_twist)
  have n3: "p_nodes pat' = (p_nodes pat1)(ld := f (p_nodes pat1 ld), fst p := pat_node_set_child (snd p) ld (p_nodes pat (fst p)))"
    using p by (simp add: n pat3_def pat2_def set_id_at_def n1)
  show "p_nodes pat' m = p_nodes pat m" if "m \<noteq> ld" "m \<noteq> d" "m \<noteq> fst p" using that by (simp add: n3 n1)
  show "pn_check (p_nodes pat' m) = pn_check (p_nodes pat (if m = ld then d else m))"
    using p by (simp add: n3 n1 f_def)
  show "link (p_nodes pat') (m, dir) = (if (m, dir) = p then ld else link (p_nodes pat) (if m = ld then d else m, dir))"
    using p by (cases p; cases dir; cases "snd p") (auto simp: n3 n1 f_def pat_node_set_child_def)
  show "pat_node_is_deleting (p_nodes pat' m) \<longleftrightarrow> m \<noteq> ld \<and> m \<noteq> d \<and> pat_node_is_deleting (p_nodes pat m)"
    using p by (simp add: n3 n1 f_def)
  show "p_delinfos pat' = (p_delinfos pat)(j := (p_delinfos pat j)\<lparr>di_stat := DL_PHASE2, di_d := d\<rparr>)"
    by (simp add: p' update_delinfo_def pat3_def pat2_def pat1_def set_id_at_def update_node_def)
  show "p_curr_del pat' = p_curr_del pat" "p_curr_del2 pat' = p_curr_del2 pat" "p_curr_del3 pat' = p_curr_del3 pat"
    "p_cache pat' = p_cache pat" "p_garbages pat' = p_garbages pat" "p_n_entries pat' = p_n_entries pat"
    "p_truncated pat' = p_truncated pat" "p_with_sis pat' = p_with_sis pat"
    by (simp_all add: p' update_delinfo_def pat3_def pat2_def pat1_def set_id_at_def update_node_def)
qed

text \<open>The tree with the node \<open>x\<close> in the place of the inner node \<open>d\<close>.\<close>

lemma promoted_tree:
  assumes t: "tree_ok pat t" and below: "below key k t = Inner d k l r" and x: "x \<in> set (records l) \<union> set (records r)" "x \<notin> set (inners t)"
    and d: "d \<notin> set (records t)" and k: "0 \<le> k"
    and L: "L = insert_location key k root_location t"
    and sk: "same_keys pat pat'"
    and chk: "\<And>m. pn_check (p_nodes pat' m) = pn_check (p_nodes pat (if m = x then d else m))"
    and lnk: "\<And>m dir. link (p_nodes pat') (m, dir) = (if (m, dir) = L then x else link (p_nodes pat) (if m = x then d else m, dir))"
  defines "t' \<equiv> graft key k (Inner x k l r) t"
  shows "tree_ok pat' t'" and "mset (records t') = mset (records t)" and "set (inners t') = insert x (set (inners t) - {d})"
    and "members t' = members t - {d}"
proof -
  note T = tree_okD [OF t]
  have z: "0 \<notin> members t" by (rule tree_at_members_nonzero [OF T(1)])
  define R where "R = rest key k t"
  have bs: "tree_at (p_nodes pat) (path_check key k (- 1) t) (link (p_nodes pat) L) (Inner d k l r)"
    using tree_at_below [OF T(1), of key k] by (simp only: below L)
  have msplit: "mset (inners t) = mset (inners R) + mset (inners (Inner d k l r))"
    "mset (records t) = mset (records R) + mset (records (Inner d k l r))"
    using inners_split [of t key k] records_split [of t key k] unfolding below R_def by blast+
  have mnew: "mset (inners t') = mset (inners R) + mset (inners (Inner x k l r))"
    "mset (records t') = mset (records R) + mset (records (Inner x k l r))"
    unfolding t'_def R_def by (rule inners_graft, rule records_graft)
  show rec: "mset (records t') = mset (records t)" using mnew(2) msplit(2) by simp
  have dd: "distinct (inners R @ d # inners l @ inners r)" 
    using T(3) mset_eq_imp_distinct_iff [of "inners t" "inners R @ d # inners l @ inners r"] msplit(1) by simp
  have iset: "set (inners t) = set (inners R) \<union> insert d (set (inners l) \<union> set (inners r))"
    using arg_cong [OF msplit(1), of set_mset] by simp
  have "mset (inners t') = mset (inners R @ x # inners l @ inners r)" using mnew(1) by simp
  from mset_eq_imp_distinct_iff [OF this] have dt': "distinct (inners t')" using dd x(2) iset by simp
  have "set (inners t') = set (inners R) \<union> insert x (set (inners l) \<union> set (inners r))"
    using arg_cong [OF mnew(1), of set_mset] by simp
  then show inn: "set (inners t') = insert x (set (inners t) - {d})" using iset dd x(2) by auto
  have rset: "set (records t') = set (records t)" by (rule mset_eq_setD [OF rec])
  have rd: "distinct (records R @ records l @ records r)"
    using T(4) mset_eq_imp_distinct_iff [of "records t" "records R @ records l @ records r"] msplit(2) by simp
  have rs: "set (records t) = set (records R) \<union> (set (records l) \<union> set (records r))"
    using arg_cong [OF msplit(2), of set_mset] by simp
  have xr: "x \<in> set (records t)" using x(1) rs by blast
  then show mem: "members t' = members t - {d}" using rset inn d by auto
  have xd: "x \<noteq> d" using xr d by blast
  have x0: "x \<noteq> 0" using xr z by blast
  have Ln: "L = root_location \<or> fst L \<in> set (inners R)"
    using insert_location_node [of key k root_location t] unfolding L R_def .
  have sub: "tree_at (p_nodes pat') k (link (p_nodes pat) (d, dir)) s"
    if s: "tree_at (p_nodes pat) k (link (p_nodes pat) (d, dir)) s" "set (inners s) \<subseteq> set (inners l) \<union> set (inners r)" for s dir
  proof -
    have "pat_node_get_check (p_nodes pat d) = k" using bs by simp
    then have cx: "pat_node_get_check (p_nodes pat' x) \<le> k" using chk [of x] by (simp add: pat_node_get_check_def)
    have "tree_at (p_nodes pat') c rid s'" if "tree_at (p_nodes pat) c rid s'" "set (inners s') \<subseteq> set (inners l) \<union> set (inners r)" "k \<le> c"
      for c rid s' using that
    proof (induction s' arbitrary: c rid)
      case (Record q)
      then show ?case using cx chk [of q] by (cases "q = x") (auto simp: pat_node_get_check_def)
    next
      case (Inner i k' l' r')
      have i: "i \<in> set (inners l) \<union> set (inners r)" using Inner.prems(2) by auto
      then have ix: "i \<noteq> x" using x(2) iset by blast
      have iL: "(i, dir') \<noteq> L" for dir' using Ln i dd z iset by auto
      have "pn_left (p_nodes pat' i) = pn_left (p_nodes pat i)" "pn_right (p_nodes pat' i) = pn_right (p_nodes pat i)"
        using lnk [of i DIRECTION_LEFT] lnk [of i DIRECTION_RIGHT] ix iL by simp_all
      moreover have "pn_check (p_nodes pat' i) = pn_check (p_nodes pat i)" using chk [of i] ix by simp
      ultimately show ?case using Inner.prems Inner.IH by (auto simp: pat_node_get_check_def)
    qed auto
    from this [OF s] show ?thesis by simp
  qed
  have "tree_at (p_nodes pat') (- 1) (link (p_nodes pat') root_location) t'"
    unfolding t'_def
  proof (rule tree_at_graft [OF T(1,3), where key = key and c = k, folded R_def])
    show "fst root_location \<notin> set (inners t)" using z by auto
    show "link (p_nodes pat') (i, dr) = link (p_nodes pat) (i, dr)"
      if "i \<in> set (inners R)" "(i, dr) \<noteq> insert_location key k root_location t" for i dr
      using that lnk [of i dr] x(2) iset L by auto
    show "pn_check (p_nodes pat' m) = pn_check (p_nodes pat m)" if "m \<in> members R" for m
    proof -
      have "m \<noteq> x" using that x rd iset by auto
      then show ?thesis using chk [of m] by simp
    qed
    show "link (p_nodes pat') root_location = link (p_nodes pat) root_location" if "insert_location key k root_location t \<noteq> root_location"
      using that lnk [of 0 DIRECTION_RIGHT] x0 L by simp
    have "link (p_nodes pat') (x, dr) = link (p_nodes pat) (d, dr)" for dr
    proof -
      have "fst L \<noteq> x" using Ln
      proof
        assume "L = root_location"
        then show ?thesis using x0 by simp
      next
        assume "fst L \<in> set (inners R)"
        then show ?thesis using x(2) unfolding iset by blast
      qed
      then have "(x, dr) \<noteq> L" by force
      then show ?thesis using lnk [of x dr] by simp
    qed
    from this [of DIRECTION_LEFT] this [of DIRECTION_RIGHT]
    have lx: "pn_left (p_nodes pat' x) = pn_left (p_nodes pat d)" "pn_right (p_nodes pat' x) = pn_right (p_nodes pat d)" by simp_all
    have LN: "link (p_nodes pat') L = x" using lnk [of "fst L" "snd L"] by simp
    have "tree_at (p_nodes pat') k (pn_left (p_nodes pat d)) l" "tree_at (p_nodes pat') k (pn_right (p_nodes pat d)) r"
      using sub [of DIRECTION_LEFT l] sub [of DIRECTION_RIGHT r] bs by auto
    moreover have "pat_node_get_check (p_nodes pat' x) = k" using chk [of x] bs by (simp add: pat_node_get_check_def)
    ultimately show "tree_at (p_nodes pat') (path_check key k (- 1) t) (link (p_nodes pat') (insert_location key k root_location t)) (Inner x k l r)"
      using lx x0 bs by (simp add: LN flip: L)
  qed
  moreover have "key_tree (node_key pat') t'"
  proof -
    have K: "node_key pat' = node_key pat" using same_keys_get_key(2) [OF sk] by blast
    have kd: "key_tree (node_key pat) (Inner d k l r)" using key_tree_below [OF T(2), of key k] by (simp only: below)
    have "agree_below k (node_key pat x) (node_key pat m)" if "m \<in> members (Inner d k l r)" for m
      using kd x(1) that agree_below_trans [OF agree_below_sym] unfolding key_tree.simps by (metis UnCI inners.simps(3) list.set_intros(2)
        records.simps(3) set_append)
    then have "key_tree (node_key pat) (Inner x k l r)" using kd x(1) by auto
    then show ?thesis
      unfolding K t'_def by (intro key_tree_graft [OF T(2)]) (use x(1) in \<open>auto simp: below\<close>)
  qed
  moreover have "distinct (records t')" using T(4) mset_eq_imp_distinct_iff [OF rec] by simp
  moreover have "members t' \<subseteq> ids pat'" using T(5) mem same_keys_ids [OF sk] by blast
  ultimately show "tree_ok pat' t'" using dt' by (simp add: tree_ok_def)
qed

text \<open>The owner of the promoted node is its own record.\<close>

lemma promoted_owner:
  assumes own: "owner_ok pat t ow" and x: "ow d = x" "x \<noteq> d" "d \<in> set (inners t)"
    and below: "below key k t = Inner d k l r" and dist: "distinct (inners t)" "distinct (records t)"
    and inn: "set (inners t') = insert x (set (inners t) - {d})" and rec: "set (records t') = set (records t)"
    and t': "t' = graft key k (Inner x k l r) t" and keys: "\<And>m. node_key pat' m = node_key pat m"
    and out: "\<And>m. m \<notin> set (inners t) \<Longrightarrow> m \<noteq> x \<Longrightarrow> m \<in> set (records t) \<Longrightarrow> p_nodes pat' m = p_nodes pat m"
  shows "owner_ok pat' t' (ow(x := x))"
proof -
  note o = owner_okD [OF own]
  let ?ow = "ow(x := x)"
  have xi: "x \<notin> set (inners t)" using o(4) [OF x(3)] x by simp
  have bl: "owned ow (Inner d k l r)" using owned_below [OF o(1), of key k] unfolding below .
  define R where "R = rest key k t"
  have R: "set (inners R) \<subseteq> set (inners t)" unfolding R_def using set_inners_split [of t key k] by blast
  have sub: "set (inners l) \<union> set (inners r) \<subseteq> set (inners t)"
    using set_inners_split [of t key k] unfolding below by auto
  have "owned ?ow t'"
    unfolding t'
  proof (rule owned_graft [OF o(1) _ _ dist(2), where key = key and c = k, folded R_def, unfolded below])
    have "owned ?ow l" by (rule owned_cong [of ow]) (use bl xi sub in auto)
    moreover have "owned ?ow r" by (rule owned_cong [of ow]) (use bl xi sub in auto)
    moreover have "x \<in> set (records l) \<union> set (records r)" using bl x(1) by simp
    ultimately show "owned ?ow (Inner x k l r)" by simp
    fix i assume i: "i \<in> set (inners R)"
    then have "?ow i = ow i" using xi R by auto
    then show "if ow i \<in> set (records (Inner d k l r)) then ?ow i \<in> set (records (Inner x k l r)) else ?ow i = ow i" by simp
  qed
  moreover have img: "?ow ` set (inners t') = ow ` set (inners t)"
  proof -
    have "?ow ` (set (inners t) - {d}) = ow ` (set (inners t) - {d})" using xi by (intro image_cong) auto
    then have "?ow ` set (inners t') = insert (ow d) (ow ` (set (inners t) - {d}))" 
      unfolding inn image_insert using x(1) by (simp only: fun_upd_same)
    then show ?thesis using x(3) by blast
  qed
  moreover have "inj_on ?ow (set (inners t'))"
  proof (rule inj_onI)
    fix a b assume a: "a \<in> set (inners t')" and b: "b \<in> set (inners t')" and eq: "?ow a = ?ow b"
    have "ow c = x \<longleftrightarrow> c = d" if "c \<in> set (inners t)" for c using inj_onD [OF o(2), of c d] that x by auto
    then show "a = b" using a b eq inj_onD [OF o(2), of a b] unfolding inn by (auto split: if_splits)
  qed
  moreover have "i \<notin> set (records t') \<and> ?ow i \<notin> set (inners t') \<and> \<not> self_loop (?ow i) (p_nodes pat' (?ow i))"
    if i: "i \<in> set (inners t')" "?ow i \<noteq> i" for i
  proof -
    have "i \<noteq> x" using i(2) by auto
    then have it: "i \<in> set (inners t)" "i \<noteq> d" "ow i \<noteq> i" using i inn by auto
    have ne: "ow i \<noteq> x" using inj_onD [OF o(2), of i d] it x by auto
    have "p_nodes pat' (ow i) = p_nodes pat (ow i)" by (rule out [OF o(4) [OF it(1,3)] ne o(7) [OF it(1)]])
    then show ?thesis
      using o(3,4,5) [OF it(1,3)] ne \<open>i \<noteq> x\<close> by (simp add: rec inn)
  qed
  moreover have "leaf_ok pat' q" if q: "q \<in> set (records t')" "q \<notin> ?ow ` set (inners t')" for q
  proof -
    have q': "q \<in> set (records t)" "q \<notin> ow ` set (inners t)" using q img rec by auto
    have "q \<noteq> x" using q'(2) x by auto
    then have "p_nodes pat' q = p_nodes pat q" by (rule out [OF o(8) [OF q'] _ q'(1)])
    then show ?thesis using o(6) [OF q'] leaf_ok_cong [OF _ keys] by blast
  qed
  ultimately show ?thesis unfolding owner_ok_def by blast
qed

lemma promoted_pending:
  assumes pend: "pending_ok pat t ow" and own: "owner_ok pat t ow" and j: "j < GRN_PAT_NDELINFOS" "stat_of pat j = DL_PHASE1"
    and d: "d = di_d (p_delinfos pat j)" and x: "x = di_ld (p_delinfos pat j)"
    and inn: "set (inners t') = insert x (set (inners t) - {d})" and mem: "members t' = members t - {d}" and ids: "ids pat' = ids pat"
    and di: "p_delinfos pat' = (p_delinfos pat)(j := (p_delinfos pat j)\<lparr>di_stat := DL_PHASE2, di_d := d\<rparr>)"
    and del: "\<And>m. pat_node_is_deleting (p_nodes pat' m) \<longleftrightarrow> m \<noteq> x \<and> m \<noteq> d \<and> pat_node_is_deleting (p_nodes pat m)"
    and dm: "d \<in> ids pat"
  shows "pending_ok pat' t' (ow(x := x))"
proof -
  note p = pending_okD [OF pend] and o = owner_okD [OF own]
  have dt: "d \<in> set (inners t)" "ow d = x" "x \<noteq> d" using p(1,2,3) [OF j] d x by auto
  have xi: "x \<notin> set (inners t)" using o(4) [OF dt(1)] dt by simp
  have other: "di_d (p_delinfos pat j') \<noteq> d \<and> di_ld (p_delinfos pat j') \<noteq> x"
    if "j' < GRN_PAT_NDELINFOS" "stat_of pat j' = DL_PHASE1" "j' \<noteq> j" for j'
  proof -
    have ne: "di_d (p_delinfos pat j') \<noteq> d" using p(7) [of j' j] that j d by auto
    moreover have "di_ld (p_delinfos pat j') \<noteq> x"
      using inj_onD [OF o(2), of "di_d (p_delinfos pat j')" d] p(1,2) [OF that(1,2)] dt ne by auto
    ultimately show ?thesis by blast
  qed
  have stat: "stat_of pat' j' = (if j' = j then DL_PHASE2 else stat_of pat j')" "di_d (p_delinfos pat' j') = di_d (p_delinfos pat j')"
    "di_ld (p_delinfos pat' j') = di_ld (p_delinfos pat j')" for j' by (simp_all add: di d)
  have ph1: "stat_of pat' j' = DL_PHASE1 \<longleftrightarrow> j' \<noteq> j \<and> stat_of pat j' = DL_PHASE1" for j' by (simp add: stat)
  show ?thesis
    unfolding pending_ok_def
  proof (intro conjI allI ballI impI)
    fix j' assume a: "j' < GRN_PAT_NDELINFOS" "stat_of pat' j' = DL_PHASE1"
    then have j': "j' \<noteq> j" "stat_of pat j' = DL_PHASE1" using ph1 by auto
    note pj = p(1,2,3) [OF a(1) j'(2)] and oj = other [OF a(1) j'(2,1)]
    show "di_d (p_delinfos pat' j') \<in> set (inners t')" "(ow(x := x)) (di_d (p_delinfos pat' j')) = di_ld (p_delinfos pat' j')"
      "di_ld (p_delinfos pat' j') \<noteq> di_d (p_delinfos pat' j')"
      using pj oj xi unfolding stat inn by auto
  next
    fix i assume i: "i \<in> set (inners t')" "(ow(x := x)) i \<noteq> i"
    then have it: "i \<in> set (inners t)" "i \<noteq> d" "ow i \<noteq> i" using inn by (auto split: if_splits)
    obtain j' where j': "j' < GRN_PAT_NDELINFOS" "stat_of pat j' = DL_PHASE1" "di_d (p_delinfos pat j') = i"
      using p(4) [OF it(1,3)] by blast
    then have "j' \<noteq> j" using it(2) d by auto
    then show "\<exists>j' < GRN_PAT_NDELINFOS. stat_of pat' j' = DL_PHASE1 \<and> di_d (p_delinfos pat' j') = i"
      using j' by (intro exI [of _ j']) (simp add: ph1 stat(2))
  next
    fix j' assume a: "j' < GRN_PAT_NDELINFOS" "stat_of pat' j' = DL_PHASE2"
    have "di_d (p_delinfos pat j') \<in> ids pat \<and> di_d (p_delinfos pat j') \<notin> members t - {d}"
    proof (cases "j' = j")
      case True
      then show ?thesis using dm d by blast
    next
      case False
      then show ?thesis using a(2) p(5,6) [OF a(1)] unfolding stat by simp
    qed
    then show "di_d (p_delinfos pat' j') \<in> ids pat'" "di_d (p_delinfos pat' j') \<notin> members t'" unfolding stat ids mem by blast+
  next
    fix j1 j2 assume a: "j1 < GRN_PAT_NDELINFOS" "j2 < GRN_PAT_NDELINFOS" "stat_of pat' j1 \<noteq> DL_EMPTY" "stat_of pat' j2 \<noteq> DL_EMPTY"
      "di_d (p_delinfos pat' j1) = di_d (p_delinfos pat' j2)"
    have "stat_of pat j1 \<noteq> DL_EMPTY" using a(3) j(2) unfolding stat(1) by (cases "j1 = j") simp_all
    moreover have "stat_of pat j2 \<noteq> DL_EMPTY" using a(4) j(2) unfolding stat(1) by (cases "j2 = j") simp_all
    ultimately show "j1 = j2" by (rule p(7) [OF a(1,2) _ _ a(5) [unfolded stat(2)]])
  next
    fix m assume m: "m \<in> members t'"
    then have mt: "m \<in> members t" "m \<noteq> d" unfolding mem by auto
    have "(\<exists>j' < GRN_PAT_NDELINFOS. stat_of pat' j' = DL_PHASE1 \<and> (di_d (p_delinfos pat' j') = m \<or> di_ld (p_delinfos pat' j') = m)) \<longleftrightarrow>
      (\<exists>j' < GRN_PAT_NDELINFOS. j' \<noteq> j \<and> stat_of pat j' = DL_PHASE1 \<and> (di_d (p_delinfos pat j') = m \<or> di_ld (p_delinfos pat j') = m))"
      unfolding ph1 stat(2,3) by blast
    also have "\<dots> \<longleftrightarrow> m \<noteq> x \<and> pat_node_is_deleting (p_nodes pat m)"
    proof (cases "m = x")
      case True
      have "di_d (p_delinfos pat j') \<noteq> x" if "j' < GRN_PAT_NDELINFOS" "stat_of pat j' = DL_PHASE1" for j'
        using p(1) [OF that] xi by auto
      then show ?thesis using True other by blast
    next
      case False
      then show ?thesis using p(8) [OF mt(1)] mt(2) d x by blast
    qed
    finally show "pat_node_is_deleting (p_nodes pat' m) \<longleftrightarrow>
      (\<exists>j' < GRN_PAT_NDELINFOS. stat_of pat' j' = DL_PHASE1 \<and> (di_d (p_delinfos pat' j') = m \<or> di_ld (p_delinfos pat' j') = m))"
      using del [of m] mt(2) by blast
  qed
qed

lemma ring_dist_eq: "i < GRN_PAT_NDELINFOS \<Longrightarrow> j < GRN_PAT_NDELINFOS \<Longrightarrow> ring_dist i j = (if i \<le> j then j - i else j + GRN_PAT_NDELINFOS - i)"
  unfolding ring_dist_def by (auto simp: mod_if)

lemma ring_okD:
  assumes "ring_ok pat"
  shows "p_curr_del pat < GRN_PAT_NDELINFOS" and "p_curr_del2 pat < GRN_PAT_NDELINFOS" and "p_curr_del3 pat < GRN_PAT_NDELINFOS"
    and "ring_dist (p_curr_del2 pat) (p_curr_del pat) \<le> ring_dist (p_curr_del3 pat) (p_curr_del pat)"
    and "ring_dist (p_curr_del2 pat) (p_curr_del pat) \<le> 128"
    and "j < GRN_PAT_NDELINFOS \<Longrightarrow> \<not> di_shared (p_delinfos pat j)"
    and "j < GRN_PAT_NDELINFOS \<Longrightarrow> ring_dist (p_curr_del3 pat) (p_curr_del pat) \<le> ring_dist (p_curr_del3 pat) j \<Longrightarrow> stat_of pat j = DL_EMPTY"
    and "j < GRN_PAT_NDELINFOS \<Longrightarrow> ring_dist (p_curr_del2 pat) (p_curr_del pat) \<le> ring_dist (p_curr_del2 pat) j \<Longrightarrow> stat_of pat j \<noteq> DL_PHASE1"
  using assms unfolding ring_ok_def by simp_all

lemma ring_okI:
  assumes "p_curr_del pat < GRN_PAT_NDELINFOS" and "p_curr_del2 pat < GRN_PAT_NDELINFOS" and "p_curr_del3 pat < GRN_PAT_NDELINFOS"
    and "ring_dist (p_curr_del2 pat) (p_curr_del pat) \<le> ring_dist (p_curr_del3 pat) (p_curr_del pat)"
    and "ring_dist (p_curr_del2 pat) (p_curr_del pat) \<le> 128"
    and "\<And>j. j < GRN_PAT_NDELINFOS \<Longrightarrow> \<not> di_shared (p_delinfos pat j)"
    and "\<And>j. j < GRN_PAT_NDELINFOS \<Longrightarrow> ring_dist (p_curr_del3 pat) (p_curr_del pat) \<le> ring_dist (p_curr_del3 pat) j \<Longrightarrow> stat_of pat j = DL_EMPTY"
    and "\<And>j. j < GRN_PAT_NDELINFOS \<Longrightarrow> ring_dist (p_curr_del2 pat) (p_curr_del pat) \<le> ring_dist (p_curr_del2 pat) j \<Longrightarrow> stat_of pat j \<noteq> DL_PHASE1"
  shows "ring_ok pat"
  using assms unfolding ring_ok_def by simp

text \<open>Entries within the used part of the ring may change.\<close>

lemma ring_ok_change:
  assumes ring: "ring_ok pat" and c: "p_curr_del pat' = p_curr_del pat" "p_curr_del2 pat' = p_curr_del2 pat" "p_curr_del3 pat' = p_curr_del3 pat"
    and sh: "\<And>j. j < GRN_PAT_NDELINFOS \<Longrightarrow> \<not> di_shared (p_delinfos pat' j)"
    and emp: "\<And>j. j < GRN_PAT_NDELINFOS \<Longrightarrow> stat_of pat' j = stat_of pat j \<or> stat_of pat' j = DL_EMPTY \<or>
      (ring_dist (p_curr_del3 pat) j < ring_dist (p_curr_del3 pat) (p_curr_del pat) \<and>
       (stat_of pat' j = DL_PHASE2 \<or> ring_dist (p_curr_del2 pat) j < ring_dist (p_curr_del2 pat) (p_curr_del pat)))"
  shows "ring_ok pat'"
proof (rule ring_okI)
  note r = ring_okD [OF ring]
  show "p_curr_del pat' < GRN_PAT_NDELINFOS" "p_curr_del2 pat' < GRN_PAT_NDELINFOS" "p_curr_del3 pat' < GRN_PAT_NDELINFOS"
    "ring_dist (p_curr_del2 pat') (p_curr_del pat') \<le> ring_dist (p_curr_del3 pat') (p_curr_del pat')"
    "ring_dist (p_curr_del2 pat') (p_curr_del pat') \<le> 128" unfolding c by (fact r)+
  show "\<not> di_shared (p_delinfos pat' j)" if "j < GRN_PAT_NDELINFOS" for j by (rule sh [OF that])
  show "stat_of pat' j = DL_EMPTY"
    if "j < GRN_PAT_NDELINFOS" "ring_dist (p_curr_del3 pat') (p_curr_del pat') \<le> ring_dist (p_curr_del3 pat') j" for j
    using emp [OF that(1)] r(7) [OF that(1)] that(2) unfolding c by auto
  show "stat_of pat' j \<noteq> DL_PHASE1"
    if "j < GRN_PAT_NDELINFOS" "ring_dist (p_curr_del2 pat') (p_curr_del pat') \<le> ring_dist (p_curr_del2 pat') j" for j
    using emp [OF that(1)] r(8) [OF that(1)] that(2) unfolding c by auto
qed

theorem turn_2_inv:
  assumes inv: "pat_inv pat t ow gs" and j: "j < GRN_PAT_NDELINFOS"
  defines "pat' \<equiv> fst (delinfo_turn_2 pat j)"
  shows "\<exists>t' ow'. pat_inv pat' t' ow' gs" and "content pat' = content pat" and "stat_of pat' j \<noteq> DL_PHASE1"
    and "p_curr_del pat' = p_curr_del pat" "p_curr_del2 pat' = p_curr_del2 pat" "p_curr_del3 pat' = p_curr_del3 pat"
    and "j' \<noteq> j \<Longrightarrow> p_delinfos pat' j' = p_delinfos pat j'"
proof -
  note i = pat_invD [OF inv]
  have "(\<exists>t' ow'. pat_inv pat' t' ow' gs) \<and> content pat' = content pat \<and> stat_of pat' j \<noteq> DL_PHASE1 \<and>
    p_curr_del pat' = p_curr_del pat \<and> p_curr_del2 pat' = p_curr_del2 pat \<and> p_curr_del3 pat' = p_curr_del3 pat \<and>
    (\<forall>j'. j' \<noteq> j \<longrightarrow> p_delinfos pat' j' = p_delinfos pat j')"
  proof (cases "stat_of pat j = DL_PHASE1")
    case False
    then have "pat' = pat" by (simp add: pat'_def delinfo_turn_2_def Let_def)
    then show ?thesis using inv False by blast
  next
    case True
    define d x where "d = di_d (p_delinfos pat j)" and "x = di_ld (p_delinfos pat j)"
    note p = pending_okD [OF i(5)] and o = owner_okD [OF i(3)] and T = tree_okD [OF i(2)]
    have d: "d \<in> set (inners t)" "ow d = x" "x \<noteq> d" using p(1,2,3) [OF j True] by (auto simp: d_def x_def)
    have od: "ow d \<noteq> d" using d by auto
    have dr: "d \<notin> set (records t)" "x \<notin> set (inners t)" using o(3,4) [OF d(1) od] d(2) by auto
    have xr: "x \<in> set (records t)" using o(7) [OF d(1)] d(2) by simp
    have ids: "d \<in> ids pat" "x \<in> ids pat" using T(5) d(1) xr by auto
    have z: "0 \<notin> members t" by (rule tree_at_members_nonzero [OF T(1)])
    have d0: "d \<noteq> GRN_ID_NIL" "x \<noteq> GRN_ID_NIL" using ids by (auto simp: ids_def)
    have at: "PAT_AT pat m \<noteq> None" if "m \<in> ids pat" for m using store_okD(2) [OF i(1) that] by (simp add: key_ok_def)
    define key where "key = node_key pat d"
    have gk: "pat_node_get_key pat d = Some key"
      using store_ok_readable(1) [OF i(1) ids(1)] by (simp add: readable_def key_def)
    obtain k l r where bl: "below key k t = Inner d k l r" and k: "- 1 < k"
      using below_inner_node [OF T(2) tree_at_increasing [OF T(1)] d(1) T(3)] by (auto simp: key_def)
    define L where "L = insert_location key k root_location t"
    define pat1 where "pat1 = update_node d pat_node_set_deleting_off (update_node x pat_node_set_deleting_off pat)"
    have n1: "pn_left (p_nodes pat1 m) = pn_left (p_nodes pat m)" "pn_right (p_nodes pat1 m) = pn_right (p_nodes pat m)"
      "pn_check (p_nodes pat1 m) = pn_check (p_nodes pat m)" for m by (simp_all add: pat1_def)
    have t1: "tree_at (p_nodes pat1) (- 1) (link (p_nodes pat1) root_location) t"
      using tree_at_cong [OF T(1), of "p_nodes pat1"] by (simp add: n1)
    have sk1: "same_keys pat pat1"
      unfolding pat1_def by (rule same_keys_trans [OF same_keys_update_node same_keys_update_node]) simp_all
    have "PAT_AT pat1 m \<noteq> None" if "m \<in> members t" for m using same_keys_PAT_AT [OF sk1, of m] at T(5) that by blast
    from turn_2_find_tree [OF t1 this T(2), of d k l r, folded key_def, OF _ bl dr(1) T(3)]
    have find: "turn_2_find pat1 key d (- 1) root_location = Inr (Some L)" by (simp add: L_def)
    have Ln: "L = root_location \<or> fst L \<in> set (inners (rest key k t))"
      unfolding L_def by (rule insert_location_node)
    have dL: "fst L \<noteq> d" and xL: "fst L \<noteq> x"
    proof -
      have "d \<notin> set (inners (rest key k t))" using distinct_inners_split(3) [OF T(3), of key k] unfolding bl by auto
      moreover have "x \<notin> set (inners (rest key k t))" using dr(2) set_inners_split [of t key k] by blast
      ultimately show "fst L \<noteq> d" "fst L \<noteq> x" using Ln d0 by auto
    qed
    have p': "pat' = fst (delinfo_turn_2_internal pat j x d)"
      using True at [OF ids(1)] at [OF ids(2)] d0 by (auto simp: pat'_def delinfo_turn_2_def Let_def simp flip: d_def x_def)
    note res = turn_2_result [OF gk find [unfolded pat1_def] xL dL d(3), where j = j, folded p']
    note sk = res(5)
    define t' where "t' = graft key k (Inner x k l r) t"
    have "owned ow (Inner d k l r)" using owned_below [OF o(1), of key k] unfolding bl .
    then have xb: "x \<in> set (records l) \<union> set (records r)" using d(2) by simp
    note tr = promoted_tree [OF i(2) bl xb dr(2,1) _ L_def sk res(2,3), folded t'_def]
    have rs: "set (records t') = set (records t)" using tr(2) k mset_eq_setD by auto
    have inL: "fst L = GRN_ID_NIL \<or> fst L \<in> set (inners t)" 
      using Ln set_inners_split [of t key k] by (metis UnI1 fst_conv)
    have "owner_ok pat' t' (ow(x := x))"
    proof (rule promoted_owner [OF i(3) d(2,3,1) bl T(3,4) _ rs t'_def same_keys_get_key(2) [OF sk]])
      show "p_nodes pat' m = p_nodes pat m" if "m \<notin> set (inners t)" "m \<noteq> x" "m \<in> set (records t)" for m
        using that d(1) inL z by (intro res(1)) auto
    qed (use tr(3) k in simp)
    moreover have "pending_ok pat' t' (ow(x := x))"
      by (rule promoted_pending [OF i(5,3) j True d_def x_def _ _ same_keys_ids [OF sk] res(6,4) ids(1)]) (use tr(3,4) k in simp_all)
    moreover have "garbage_ok pat' t' gs"
    proof (rule garbage_ok_frame [OF i(6) sk res(11)])
      show "members t' \<subseteq> members t" using tr(4) k by auto
      show "p_nodes pat' m = p_nodes pat m" if "m \<notin> members t" "m \<noteq> GRN_ID_NIL" for m
        using that inL xr d(1) by (intro res(1)) auto
      show "di_d (p_delinfos pat' j') \<in> members t \<or>
          (\<exists>j'' < GRN_PAT_NDELINFOS. stat_of pat j'' \<noteq> DL_EMPTY \<and> di_d (p_delinfos pat j'') = di_d (p_delinfos pat' j'))"
        if "j' < GRN_PAT_NDELINFOS" "stat_of pat' j' \<noteq> DL_EMPTY" for j'
        using that d(1) unfolding res(6) by (cases "j' = j") auto
    qed
    moreover have "ring_ok pat'"
    proof (rule ring_ok_change [OF i(4) res(7,8,9)])
      note r = ring_okD [OF i(4)]
      show "\<not> di_shared (p_delinfos pat' j')" if "j' < GRN_PAT_NDELINFOS" for j' using r(6) [OF that] unfolding res(6) by auto
      show "stat_of pat' j' = stat_of pat j' \<or> stat_of pat' j' = DL_EMPTY \<or>
        (ring_dist (p_curr_del3 pat) j' < ring_dist (p_curr_del3 pat) (p_curr_del pat) \<and>
         (stat_of pat' j' = DL_PHASE2 \<or> ring_dist (p_curr_del2 pat) j' < ring_dist (p_curr_del2 pat) (p_curr_del pat)))"
        if "j' < GRN_PAT_NDELINFOS" for j'
        using r(7) [OF j] True unfolding res(6) by (cases "j' = j") force+
    qed
    moreover have "cache_ok pat' t'"
      using i(7) same_keys_get_key(2) [OF sk] by (simp add: cache_ok_def res(10) rs)
    moreover have "length (records t') = length (records t)" using tr(2) k by (intro mset_eq_length) simp
    ultimately have inv': "pat_inv pat' t' (ow(x := x)) gs"
      using tr(1) k same_keys_store_ok [OF sk i(1)] i(8-10) by (simp add: pat_inv_def res)
    moreover have "content pat' = content pat"
      using rs same_keys_get_key(2) [OF sk]
      by (auto simp: content_def record_ids_tree [OF i(2)] record_ids_tree [OF pat_invD(2) [OF inv']] fun_eq_iff)
    ultimately show ?thesis using res(6-9) by auto
  qed
  then show "\<exists>t' ow'. pat_inv pat' t' ow' gs" "content pat' = content pat" "stat_of pat' j \<noteq> DL_PHASE1"
    "p_curr_del pat' = p_curr_del pat" "p_curr_del2 pat' = p_curr_del2 pat" "p_curr_del3 pat' = p_curr_del3 pat"
    "j' \<noteq> j \<Longrightarrow> p_delinfos pat' j' = p_delinfos pat j'" by blast+
qed

section \<open>The third turn\<close>

text \<open>Moving the indexes of the ring.\<close>

lemma pat_inv_ring:
  assumes "pat_inv pat t ow gs" and "ring_ok (pat\<lparr>p_curr_del := a, p_curr_del2 := b, p_curr_del3 := c\<rparr>)"
  shows "pat_inv (pat\<lparr>p_curr_del := a, p_curr_del2 := b, p_curr_del3 := c\<rparr>) t ow gs"
    and "content (pat\<lparr>p_curr_del := a, p_curr_del2 := b, p_curr_del3 := c\<rparr>) = content pat"
proof -
  let ?pat = "pat\<lparr>p_curr_del := a, p_curr_del2 := b, p_curr_del3 := c\<rparr>"
  note i = pat_invD [OF assms(1)]
  have sk: "same_keys pat ?pat" by (simp add: same_keys_def)
  have K: "node_key ?pat = node_key pat" using same_keys_get_key(2) [OF sk] by blast
  have ids: "ids ?pat = ids pat" by (simp add: ids_def)
  have "tree_ok ?pat t" using i(2) unfolding tree_ok_def K ids by simp
  moreover have "owner_ok ?pat t ow" using i(3) unfolding owner_ok_def leaf_ok_def K by simp
  moreover have "pending_ok ?pat t ow" using i(5) unfolding pending_ok_def ids by simp
  moreover have "garbage_ok ?pat t gs" 
  proof -
    have "storage_class ?pat m = storage_class pat m" for m by (simp add: storage_class_def)
    then show ?thesis using i(6) unfolding garbage_ok_def ids by simp
  qed
  moreover have "cache_ok ?pat t" using i(7) unfolding cache_ok_def K by simp
  ultimately show "pat_inv ?pat t ow gs" using assms(2) same_keys_store_ok [OF sk i(1)] i(8-10) by (simp add: pat_inv_def)
  show "content ?pat = content pat" by (simp add: content_def record_ids_def K fun_eq_iff)
qed

lemma turn_2_post_ring:
  assumes ring: "ring_ok pat" and ne: "p_curr_del2 pat \<noteq> p_curr_del pat" and st: "stat_of pat (p_curr_del2 pat) \<noteq> DL_PHASE1"
  shows "ring_ok (delinfo_turn_2_post pat)"
    and "ring_dist (p_curr_del2 (delinfo_turn_2_post pat)) (p_curr_del pat) = ring_dist (p_curr_del2 pat) (p_curr_del pat) - 1"
proof -
  note r = ring_okD [OF ring]
  define a b c where "a = p_curr_del pat" and "b = p_curr_del2 pat" and "c = p_curr_del3 pat"
  have lt: "a < 256" "b < 256" "c < 256" using r(1-3) by (simp_all add: a_def b_def c_def)
  define b' where "b' = (b + 1) mod 256"
  have b': "b' < 256" by (simp add: b'_def)
  have dist: "ring_dist b' j = (if j = b then 255 else ring_dist b j - 1)" if "j < 256" for j
    using that lt b' by (auto simp: ring_dist_eq b'_def mod_if)
  show "ring_dist (p_curr_del2 (delinfo_turn_2_post pat)) (p_curr_del pat) = ring_dist (p_curr_del2 pat) (p_curr_del pat) - 1"
    using dist [OF lt(1)] ne by (simp add: delinfo_turn_2_post_def a_def b_def b'_def)
  show "ring_ok (delinfo_turn_2_post pat)"
  proof (rule ring_okI)
    have post: "p_curr_del (delinfo_turn_2_post pat) = a" "p_curr_del2 (delinfo_turn_2_post pat) = b'"
      "p_curr_del3 (delinfo_turn_2_post pat) = c" "p_delinfos (delinfo_turn_2_post pat) = p_delinfos pat"
      by (simp_all add: delinfo_turn_2_post_def a_def b_def b'_def c_def)
    note r' = r [folded a_def b_def c_def] and ne' = ne [folded a_def b_def] and st' = st [folded b_def]
    show "p_curr_del (delinfo_turn_2_post pat) < GRN_PAT_NDELINFOS" "p_curr_del2 (delinfo_turn_2_post pat) < GRN_PAT_NDELINFOS"
      "p_curr_del3 (delinfo_turn_2_post pat) < GRN_PAT_NDELINFOS" unfolding post by (fact lt b')+
    show "ring_dist (p_curr_del2 (delinfo_turn_2_post pat)) (p_curr_del (delinfo_turn_2_post pat)) \<le> ring_dist (p_curr_del3 (delinfo_turn_2_post pat)) (p_curr_del (delinfo_turn_2_post pat))"
      "ring_dist (p_curr_del2 (delinfo_turn_2_post pat)) (p_curr_del (delinfo_turn_2_post pat)) \<le> 128"
      unfolding post using dist [OF lt(1)] ne' r'(4,5) by auto
    show "\<not> di_shared (p_delinfos (delinfo_turn_2_post pat) j)" if "j < GRN_PAT_NDELINFOS" for j unfolding post by (rule r(6) [OF that])
    show "stat_of (delinfo_turn_2_post pat) j = DL_EMPTY"
      if "j < GRN_PAT_NDELINFOS" "ring_dist (p_curr_del3 (delinfo_turn_2_post pat)) (p_curr_del (delinfo_turn_2_post pat)) \<le> ring_dist (p_curr_del3 (delinfo_turn_2_post pat)) j" for j
      using that r'(7) unfolding post by blast
    show "stat_of (delinfo_turn_2_post pat) j \<noteq> DL_PHASE1"
      if "j < GRN_PAT_NDELINFOS" "ring_dist (p_curr_del2 (delinfo_turn_2_post pat)) (p_curr_del (delinfo_turn_2_post pat)) \<le> ring_dist (p_curr_del2 (delinfo_turn_2_post pat)) j" for j
    proof (cases "j = b")
      case True
      then show ?thesis using st' unfolding post by simp
    next
      case False
      have pos: "0 < ring_dist b j" using False that(1) lt by (auto simp: ring_dist_eq)
      then have "ring_dist b a \<le> ring_dist b j" using that(2) ne' dist [OF that(1)] dist [OF lt(1)] False unfolding post by auto
      then show ?thesis using r'(8) [OF that(1)] unfolding post by blast
    qed
  qed
qed

lemma turn_3_inv:
  assumes inv: "pat_inv pat t ow gs" and j: "j < GRN_PAT_NDELINFOS" and st: "stat_of pat j \<noteq> DL_PHASE1"
  defines "pat' \<equiv> fst (delinfo_turn_3 pat j)"
  shows "\<exists>gs'. pat_inv pat' t ow gs'" and "content pat' = content pat" and "stat_of pat' j = DL_EMPTY"
    and "p_curr_del pat' = p_curr_del pat" "p_curr_del2 pat' = p_curr_del2 pat" "p_curr_del3 pat' = p_curr_del3 pat"
    and "j' \<noteq> j \<Longrightarrow> p_delinfos pat' j' = p_delinfos pat j'"
proof -
  note i = pat_invD [OF inv]
  have "(\<exists>gs'. pat_inv pat' t ow gs') \<and> content pat' = content pat \<and> stat_of pat' j = DL_EMPTY \<and>
    p_curr_del pat' = p_curr_del pat \<and> p_curr_del2 pat' = p_curr_del2 pat \<and> p_curr_del3 pat' = p_curr_del3 pat \<and>
    (\<forall>j'. j' \<noteq> j \<longrightarrow> p_delinfos pat' j' = p_delinfos pat j')"
  proof (cases "stat_of pat j = DL_PHASE2")
    case False
    then have "pat' = pat" by (simp add: pat'_def delinfo_turn_3_def Let_def)
    then show ?thesis using inv False st by (cases "stat_of pat j") auto
  next
    case True
    define d where "d = di_d (p_delinfos pat j)"
    note p = pending_okD [OF i(5)] and T = tree_okD [OF i(2)] and r = ring_okD [OF i(4)]
    have d: "d \<in> ids pat" "d \<notin> members t" using p(5,6) [OF j True] by (auto simp: d_def)
    have kok: "key_ok pat d" by (rule store_okD(2) [OF i(1) d(1)])
    define sz where "sz = storage_class pat d"
    have sz: "sz \<le> GRN_TABLE_MAX_KEY_SIZE" using kok by (simp add: sz_def storage_class_def key_ok_def)
    define nd where "nd = pat_node_set_child DIRECTION_LEFT (p_garbages pat sz) (p_nodes pat d)"
    have p': "pat' = pat\<lparr>p_delinfos := (p_delinfos pat)(j := (p_delinfos pat j)\<lparr>di_stat := DL_EMPTY\<rparr>),
        p_nodes := (p_nodes pat)(d := nd), p_garbages := (p_garbages pat)(sz := d)\<rparr>"
      using True kok r(6) [OF j]
      by (auto simp: pat'_def delinfo_turn_3_def Let_def delinfo_turn_3_internal_def update_delinfo_def update_node_def nd_def key_ok_def
          delinfo_compute_storage_size_def sz_def storage_class_def simp flip: d_def)
    have sk: "same_keys pat pat'" by (simp add: p' same_keys_def nd_def)
    have K: "node_key pat' = node_key pat" using same_keys_get_key(2) [OF sk] by blast
    have ids: "ids pat' = ids pat" by (rule same_keys_ids [OF sk])
    have nodes: "p_nodes pat' m = p_nodes pat m" if "m \<noteq> d" for m using that by (simp add: p')
    have mem: "p_nodes pat' m = p_nodes pat m" if "m \<in> members t" for m using that d(2) nodes by metis
    have d0: "d \<noteq> 0" using d(1) by (simp add: ids_def)
    have ch: "outside_change pat (pat'\<lparr>p_delinfos := p_delinfos pat\<rparr>) d"
    proof -
      have sk': "same_keys pat (pat'\<lparr>p_delinfos := p_delinfos pat\<rparr>)" by (simp add: p' same_keys_def nd_def)
      show ?thesis
        unfolding outside_change_def using same_keys_store_ok [OF sk' i(1)] same_keys_get_key(2) [OF sk'] same_keys_ids [OF sk']
        by (simp add: p')
    qed
    note oc = outside_change_inv [OF ch inv d(2) d0]
    have K': "node_key (pat'\<lparr>p_delinfos := p_delinfos pat\<rparr>) = node_key pat'"
    proof -
      have "same_keys pat' (pat'\<lparr>p_delinfos := p_delinfos pat\<rparr>)" by (simp add: same_keys_def)
      from same_keys_get_key(2) [OF this] show ?thesis by blast
    qed
    have tr: "tree_ok pat' t" using oc(1) unfolding tree_ok_def K' by (simp add: ids_def)
    have ow: "owner_ok pat' t ow" using oc(2) unfolding owner_ok_def leaf_ok_def K' by simp
    have ca: "cache_ok pat' t" using oc(5) unfolding cache_ok_def K' by simp
    have stat: "stat_of pat' j' = (if j' = j then DL_EMPTY else stat_of pat j')" "di_d (p_delinfos pat' j') = di_d (p_delinfos pat j')"
      "di_ld (p_delinfos pat' j') = di_ld (p_delinfos pat j')" "di_shared (p_delinfos pat' j') = di_shared (p_delinfos pat j')" for j'
      by (simp_all add: p')
    have ring: "ring_ok pat'"
      by (rule ring_ok_change [OF i(4)]) (use r(6) in \<open>auto simp: stat\<close>, simp_all add: p')
    have ph1: "stat_of pat' j' = DL_PHASE1 \<longleftrightarrow> stat_of pat j' = DL_PHASE1" for j' using True by (simp add: stat)
    have pend: "pending_ok pat' t ow"
      using i(5) unfolding pending_ok_def ph1 stat(2,3) ids using mem by (simp add: stat(1))
    define gs' where "gs' = gs(sz := d # gs sz)"
    have dg: "d \<notin> set (gs s)" if "s \<le> GRN_TABLE_MAX_KEY_SIZE" for s
      using garbage_okD(6) [OF i(6) that, of d j] j True by (auto simp: d_def)
    have garb: "garbage_ok pat' t gs'"
      unfolding garbage_ok_def
    proof (intro allI impI)
      fix s assume s: "s \<le> GRN_TABLE_MAX_KEY_SIZE"
      note g = garbage_okD [OF i(6) s]
      have "pn_left (p_nodes pat' m) = pn_left (p_nodes pat m)" if "m \<in> set (gs s)" for m using nodes [of m] dg [OF s] that by metis
      from chain_cong [of "gs s", OF this] have c: "chain (\<lambda>m. pn_left (p_nodes pat' m)) h (gs s) = chain (\<lambda>m. pn_left (p_nodes pat m)) h (gs s)" for h .
      have "chain (\<lambda>m. pn_left (p_nodes pat' m)) (p_garbages pat' s) (gs' s)"

      proof (cases "s = sz")
        case True
        have "pn_left (p_nodes pat' d) = p_garbages pat sz" "p_garbages pat' sz = d" by (simp_all add: p' nd_def pat_node_set_child_def)
        then show ?thesis using c g(1) d0 True by (simp add: gs'_def)
      next
        case False
        moreover have "p_garbages pat' s = p_garbages pat s" using False by (simp add: p')
        ultimately show ?thesis using c g(1) by (simp add: gs'_def)
      qed
      moreover have "distinct (gs' s)" using g(2) dg [OF s] by (auto simp: gs'_def)
      moreover have "m \<in> ids pat' \<and> m \<notin> members t \<and> storage_class pat' m = s \<and>
          (\<forall>j' < GRN_PAT_NDELINFOS. stat_of pat' j' \<noteq> DL_EMPTY \<longrightarrow> di_d (p_delinfos pat' j') \<noteq> m)" if m: "m \<in> set (gs' s)" for m
      proof -
        have sc: "storage_class pat' m = storage_class pat m" using sk by (simp add: storage_class_def same_keys_def)
        consider "m = d" "s = sz" | "m \<in> set (gs s)" using m by (auto simp: gs'_def split: if_splits)
        then show ?thesis
        proof cases
          case 1
          have "di_d (p_delinfos pat' j') \<noteq> d" if "j' < GRN_PAT_NDELINFOS" "stat_of pat' j' \<noteq> DL_EMPTY" for j'
            using p(7) [of j' j] that j True unfolding stat d_def by (auto split: if_splits)
          then show ?thesis using 1 d sc ids by (auto simp: sz_def)
        next
          case 2
          have "di_d (p_delinfos pat' j') \<noteq> m" if "j' < GRN_PAT_NDELINFOS" "stat_of pat' j' \<noteq> DL_EMPTY" for j'
            using g(6) [OF 2 that(1)] that(2) unfolding stat by (auto split: if_splits)
          then show ?thesis using g(3,4,5) [OF 2] sc ids by auto
        qed
      qed
      ultimately show "chain (\<lambda>m. pn_left (p_nodes pat' m)) (p_garbages pat' s) (gs' s) \<and> distinct (gs' s) \<and>
          (\<forall>m \<in> set (gs' s). m \<in> ids pat' \<and> m \<notin> members t \<and> storage_class pat' m = s \<and>
             (\<forall>j' < GRN_PAT_NDELINFOS. stat_of pat' j' \<noteq> DL_EMPTY \<longrightarrow> di_d (p_delinfos pat' j') \<noteq> m))" by blast
    qed
    have "pat_inv pat' t ow gs'"
      using tr ow ca ring pend garb same_keys_store_ok [OF sk i(1)] i(8-10) by (simp add: pat_inv_def) (simp add: p')
    moreover have "content pat' = content pat" by (rule content_same [OF i(2) tr]) (simp add: K)
    ultimately show ?thesis using stat(1) by (auto simp: p')
  qed
  then show "\<exists>gs'. pat_inv pat' t ow gs'" "content pat' = content pat" "stat_of pat' j = DL_EMPTY"
    "p_curr_del pat' = p_curr_del pat" "p_curr_del2 pat' = p_curr_del2 pat" "p_curr_del3 pat' = p_curr_del3 pat"
    "j' \<noteq> j \<Longrightarrow> p_delinfos pat' j' = p_delinfos pat j'" by blast+
qed

section \<open>A new entry of the ring\<close>

text \<open>Whether an entry lies in the part of the ring that may hold pending deletions.\<close>

definition in_ring :: "grn_pat \<Rightarrow> nat \<Rightarrow> bool" where
  "in_ring pat j \<longleftrightarrow> j < GRN_PAT_NDELINFOS \<and>
     ring_dist (p_curr_del3 pat) j < ring_dist (p_curr_del3 pat) (p_curr_del pat) \<and>
     ring_dist (p_curr_del2 pat) j < ring_dist (p_curr_del2 pat) (p_curr_del pat)"

lemma ring_dist_next:
  assumes "i < 256" and "a < 256" and "ring_dist i a < 255"
  shows "ring_dist i ((a + 1) mod 256) = ring_dist i a + 1"
  using assms by (auto simp: ring_dist_eq mod_if)

lemma advance_ring:
  assumes ring: "ring_ok pat" and d2: "ring_dist (p_curr_del2 pat) (p_curr_del pat) < 128" and d3: "ring_dist (p_curr_del3 pat) (p_curr_del pat) < 255"
  defines "pat' \<equiv> pat\<lparr>p_curr_del := (p_curr_del pat + 1) mod GRN_PAT_NDELINFOS\<rparr>"
  shows "ring_ok pat'" and "in_ring pat' (p_curr_del pat)" and "stat_of pat' (p_curr_del pat) = DL_EMPTY"
proof -
  note r = ring_okD [OF ring]
  have n2: "ring_dist (p_curr_del2 pat) (p_curr_del pat') = ring_dist (p_curr_del2 pat) (p_curr_del pat) + 1"
    using ring_dist_next [OF _ _ ] r(1,2) d2 by (simp add: pat'_def)
  have n3: "ring_dist (p_curr_del3 pat) (p_curr_del pat') = ring_dist (p_curr_del3 pat) (p_curr_del pat) + 1"
    using ring_dist_next r(1,3) d3 by (simp add: pat'_def)
  have f: "p_curr_del2 pat' = p_curr_del2 pat" "p_curr_del3 pat' = p_curr_del3 pat" "p_delinfos pat' = p_delinfos pat" by (simp_all add: pat'_def)
  show "ring_ok pat'"
    by (rule ring_okI) (use r d2 in \<open>simp_all add: f n2 n3\<close>, simp add: pat'_def)
  show "in_ring pat' (p_curr_del pat)" using r(1) by (simp add: in_ring_def f n2 n3)
  show "stat_of pat' (p_curr_del pat) = DL_EMPTY" using r(7) [OF r(1)] by (simp add: f)
qed

lemma turn_3_post_ring:
  assumes ring: "ring_ok pat" and d3: "ring_dist (p_curr_del3 pat) (p_curr_del pat) = 255"
    and st: "stat_of pat (p_curr_del3 pat) = DL_EMPTY"
  shows "ring_ok (delinfo_turn_3_post pat)" and "ring_dist (p_curr_del3 (delinfo_turn_3_post pat)) (p_curr_del pat) = 254"
proof -
  note r = ring_okD [OF ring]
  define a c where "a = p_curr_del pat" and "c = p_curr_del3 pat"
  define c' where "c' = (c + 1) mod 256"
  have lt: "a < 256" "c < 256" "c' < 256" using r(1,3) by (simp_all add: a_def c_def c'_def)
  have ca: "c \<noteq> a" using d3 lt by (auto simp: ring_dist_eq simp flip: a_def c_def)
  have dist: "ring_dist c' j = (if j = c then 255 else ring_dist c j - 1)" if "j < 256" for j
    using that lt by (auto simp: ring_dist_eq c'_def mod_if)
  have post: "p_curr_del (delinfo_turn_3_post pat) = a" "p_curr_del2 (delinfo_turn_3_post pat) = p_curr_del2 pat"
    "p_curr_del3 (delinfo_turn_3_post pat) = c'" "p_delinfos (delinfo_turn_3_post pat) = p_delinfos pat"
    by (simp_all add: delinfo_turn_3_post_def a_def c_def c'_def)
  show d': "ring_dist (p_curr_del3 (delinfo_turn_3_post pat)) (p_curr_del pat) = 254"
    using dist [OF lt(1)] d3 ca unfolding post by (simp flip: a_def c_def)
  show "ring_ok (delinfo_turn_3_post pat)"
  proof (rule ring_okI)
    show "p_curr_del (delinfo_turn_3_post pat) < GRN_PAT_NDELINFOS" "p_curr_del3 (delinfo_turn_3_post pat) < GRN_PAT_NDELINFOS"
      "p_curr_del2 (delinfo_turn_3_post pat) < GRN_PAT_NDELINFOS" unfolding post by (fact lt r(2))+
    show "ring_dist (p_curr_del2 (delinfo_turn_3_post pat)) (p_curr_del (delinfo_turn_3_post pat)) \<le>
        ring_dist (p_curr_del3 (delinfo_turn_3_post pat)) (p_curr_del (delinfo_turn_3_post pat))"
      "ring_dist (p_curr_del2 (delinfo_turn_3_post pat)) (p_curr_del (delinfo_turn_3_post pat)) \<le> 128"
      using d' r(5) unfolding post a_def by simp_all
    show "\<not> di_shared (p_delinfos (delinfo_turn_3_post pat) j)" if "j < GRN_PAT_NDELINFOS" for j unfolding post by (rule r(6) [OF that])
    show "stat_of (delinfo_turn_3_post pat) j \<noteq> DL_PHASE1"
      if "j < GRN_PAT_NDELINFOS" "ring_dist (p_curr_del2 (delinfo_turn_3_post pat)) (p_curr_del (delinfo_turn_3_post pat)) \<le>
        ring_dist (p_curr_del2 (delinfo_turn_3_post pat)) j" for j using that r(8) unfolding post a_def by blast
    show "stat_of (delinfo_turn_3_post pat) j = DL_EMPTY"
      if j: "j < GRN_PAT_NDELINFOS" "ring_dist (p_curr_del3 (delinfo_turn_3_post pat)) (p_curr_del (delinfo_turn_3_post pat)) \<le>
        ring_dist (p_curr_del3 (delinfo_turn_3_post pat)) j" for j
    proof (cases "j = c")
      case True
      then show ?thesis using st by (simp add: post c_def)
    next
      case False
      then have "ring_dist c a \<le> ring_dist c j" using j(2) dist [OF j(1)] dist [OF lt(1)] ca d3 unfolding post by (simp flip: a_def c_def)
      then show ?thesis using r(7) [OF j(1)] unfolding post by (simp flip: a_def c_def)
    qed
  qed
qed

lemma update_delinfo_same: "f (p_delinfos pat j) = p_delinfos pat j \<Longrightarrow> update_delinfo j f pat = pat"
  by (simp add: update_delinfo_def)

theorem delinfo_new_inv:
  assumes inv: "pat_inv pat t ow gs" and new: "delinfo_new pat False = (pat', di)"
  shows "\<exists>t' ow' gs'. pat_inv pat' t' ow' gs'" and "content pat' = content pat" and "stat_of pat' di = DL_EMPTY" and "in_ring pat' di"
proof -
  note i = pat_invD [OF inv]
  note r = ring_okD [OF i(4)]
  define nx where "nx = (p_curr_del pat + 1) mod GRN_PAT_NDELINFOS"
  define d2 where "d2 = ring_dist (p_curr_del2 pat) (p_curr_del pat)"
  have d2: "d2 \<le> 128" using r(5) by (simp add: d2_def)
  have up: "update_delinfo (p_curr_del pat) (\<lambda>di. di\<lparr>di_shared := False\<rparr>) pat = pat"
    by (rule update_delinfo_same) (use r(6) [OF r(1)] in simp)
  have "ring_dist (p_curr_del2 pat) nx = d2 + 1" using ring_dist_next [of "p_curr_del2 pat" "p_curr_del pat"] r(1,2) d2 by (simp add: nx_def d2_def)
  then have gap: "nat (int ((nx + GRN_PAT_NDELINFOS - p_curr_del2 pat) mod GRN_PAT_NDELINFOS) - int (GRN_PAT_NDELINFOS div 2)) = (if d2 = 128 then 1 else 0)"
    using d2 by (simp add: ring_dist_def)
  define pat1 where "pat1 = (if d2 = 128 then delinfo_turn_2_post (fst (delinfo_turn_2 pat (p_curr_del2 pat))) else pat)"
  have turns: "delinfo_turns_2 (nat (int ((nx + GRN_PAT_NDELINFOS - p_curr_del2 pat) mod GRN_PAT_NDELINFOS) - int (GRN_PAT_NDELINFOS div 2))) pat = pat1"
    unfolding gap by (simp add: pat1_def)
  have "(\<exists>t' ow'. pat_inv pat1 t' ow' gs) \<and> content pat1 = content pat \<and> p_curr_del pat1 = p_curr_del pat \<and> p_curr_del3 pat1 = p_curr_del3 pat \<and>
    ring_dist (p_curr_del2 pat1) (p_curr_del pat1) < 128"
  proof (cases "d2 = 128")
    case False
    then show ?thesis using inv d2 by (auto simp: pat1_def d2_def)
  next
    case True
    let ?p = "fst (delinfo_turn_2 pat (p_curr_del2 pat))"
    note t2 = turn_2_inv [OF inv r(2)]
    obtain t' ow' where inv2: "pat_inv ?p t' ow' gs" using t2(1) by blast
    have "p_curr_del2 ?p \<noteq> p_curr_del ?p" using True r(1,2) unfolding t2(4,5) by (auto simp: d2_def ring_dist_eq)
    moreover have "stat_of ?p (p_curr_del2 ?p) \<noteq> DL_PHASE1" using t2(3) unfolding t2(5) .
    ultimately have post: "ring_ok (delinfo_turn_2_post ?p)"
      "ring_dist (p_curr_del2 (delinfo_turn_2_post ?p)) (p_curr_del ?p) = ring_dist (p_curr_del2 ?p) (p_curr_del ?p) - 1"
      using turn_2_post_ring [OF pat_invD(4) [OF inv2]] by blast+
    have eq: "delinfo_turn_2_post ?p = ?p\<lparr>p_curr_del := p_curr_del ?p, p_curr_del2 := (p_curr_del2 ?p + 1) mod GRN_PAT_NDELINFOS,
        p_curr_del3 := p_curr_del3 ?p\<rparr>" by (simp add: delinfo_turn_2_post_def)
    note pr = pat_inv_ring [OF inv2 post(1) [unfolded eq], folded eq]
    have "pat1 = delinfo_turn_2_post ?p" using True by (simp add: pat1_def)
    moreover have "p_curr_del (delinfo_turn_2_post ?p) = p_curr_del pat" "p_curr_del3 (delinfo_turn_2_post ?p) = p_curr_del3 pat"
      by (simp_all add: delinfo_turn_2_post_def t2)
    moreover have "ring_dist (p_curr_del2 (delinfo_turn_2_post ?p)) (p_curr_del pat) = 127"
      using post(2) True unfolding t2(4,5) by (simp add: d2_def)
    ultimately show ?thesis using pr t2(2) by auto
  qed
  then obtain t1 ow1 where inv1: "pat_inv pat1 t1 ow1 gs" and c1: "content pat1 = content pat" "p_curr_del pat1 = p_curr_del pat"
    "p_curr_del3 pat1 = p_curr_del3 pat" "ring_dist (p_curr_del2 pat1) (p_curr_del pat1) < 128" by blast
  note r1 = ring_okD [OF pat_invD(4) [OF inv1]]
  define pat2 where "pat2 = (if nx = p_curr_del3 pat1 then delinfo_turn_3_post (fst (delinfo_turn_3 pat1 (p_curr_del3 pat1))) else pat1)"
  have "(\<exists>t' ow' gs'. pat_inv pat2 t' ow' gs') \<and> content pat2 = content pat1 \<and> p_curr_del pat2 = p_curr_del pat1 \<and>
    ring_dist (p_curr_del2 pat2) (p_curr_del pat2) < 128 \<and> ring_dist (p_curr_del3 pat2) (p_curr_del pat2) < 255"
  proof (cases "nx = p_curr_del3 pat1")
    case False
    have "ring_dist (p_curr_del3 pat1) (p_curr_del pat1) < 255"
      using False r1(1,3) unfolding nx_def c1(2) [symmetric] by (auto simp: ring_dist_eq mod_if split: if_splits)
    then show ?thesis using False inv1 c1(4) by (auto simp: pat2_def)
  next
    case True
    have d3: "ring_dist (p_curr_del3 pat1) (p_curr_del pat1) = 255"
      using True r1(1,3) unfolding nx_def c1(2) [symmetric] by (auto simp: ring_dist_eq mod_if split: if_splits)
    have "ring_dist (p_curr_del2 pat1) (p_curr_del pat1) \<le> ring_dist (p_curr_del2 pat1) (p_curr_del3 pat1)"
      using True ring_dist_next [of "p_curr_del2 pat1" "p_curr_del pat1"] r1(1,2) c1(4) unfolding nx_def c1(2) [symmetric] by simp
    from r1(8) [OF r1(3) this] have st: "stat_of pat1 (p_curr_del3 pat1) \<noteq> DL_PHASE1" .
    let ?p = "fst (delinfo_turn_3 pat1 (p_curr_del3 pat1))"
    note t3 = turn_3_inv [OF inv1 r1(3) st]
    obtain gs' where inv3: "pat_inv ?p t1 ow1 gs'" using t3(1) by blast
    have post: "ring_ok (delinfo_turn_3_post ?p)" "ring_dist (p_curr_del3 (delinfo_turn_3_post ?p)) (p_curr_del ?p) = 254"
      using turn_3_post_ring [OF pat_invD(4) [OF inv3]] d3 t3(3) unfolding t3(4,6) by blast+
    have eq: "delinfo_turn_3_post ?p = ?p\<lparr>p_curr_del := p_curr_del ?p, p_curr_del2 := p_curr_del2 ?p,
        p_curr_del3 := (p_curr_del3 ?p + 1) mod GRN_PAT_NDELINFOS\<rparr>" by (simp add: delinfo_turn_3_post_def)
    note pr = pat_inv_ring [OF inv3 post(1) [unfolded eq], folded eq]
    have "pat2 = delinfo_turn_3_post ?p" using True by (simp add: pat2_def)
    moreover have "p_curr_del (delinfo_turn_3_post ?p) = p_curr_del pat1" "p_curr_del2 (delinfo_turn_3_post ?p) = p_curr_del2 pat1"
      by (simp_all add: delinfo_turn_3_post_def t3)
    ultimately show ?thesis using pr t3(2) post(2) c1(4) unfolding t3(4) by auto
  qed
  then obtain t2 ow2 gs2 where inv2: "pat_inv pat2 t2 ow2 gs2" and c2: "content pat2 = content pat1" "p_curr_del pat2 = p_curr_del pat1"
    "ring_dist (p_curr_del2 pat2) (p_curr_del pat2) < 128" "ring_dist (p_curr_del3 pat2) (p_curr_del pat2) < 255" by blast
  have p': "pat' = pat2\<lparr>p_curr_del := nx\<rparr>" "di = p_curr_del pat"
    using new unfolding delinfo_new_def Let_def up nx_def [symmetric] turns pat2_def [symmetric] by simp_all
  note ad = advance_ring [OF pat_invD(4) [OF inv2] c2(3,4)]
  have nx: "nx = (p_curr_del pat2 + 1) mod GRN_PAT_NDELINFOS" by (simp add: nx_def c2 c1)
  have eq: "pat' = pat2\<lparr>p_curr_del := nx, p_curr_del2 := p_curr_del2 pat2, p_curr_del3 := p_curr_del3 pat2\<rparr>" by (simp add: p')
  have "ring_ok pat'" using ad(1) by (simp add: p' nx)
  note pr = pat_inv_ring [OF inv2 this [unfolded eq], folded eq]
  show "\<exists>t' ow' gs'. pat_inv pat' t' ow' gs'" using pr(1) by blast
  show "content pat' = content pat" using pr(2) c1 c2 by simp
  show "stat_of pat' di = DL_EMPTY" "in_ring pat' di" using ad(2,3) by (simp_all add: p' nx c1 c2)
qed

end
