(* ===== verification/PatDel.thy ===== *)
theory PatDel
  imports PatTurn
begin

text \<open>
  Deletions from a patricia trie, \<^verbatim>\<open>_grn_pat_del\<close>: they take exactly the record of the key out of the tree and keep its invariant.
  Three cases: the node of the record is the inner node above it; the node leads only to itself; or another node takes its place as
  an inner node, now or at a later turn.
\<close>

section \<open>Finding the record\<close>

fun tree_del_find :: "(grn_id \<Rightarrow> byte list) \<Rightarrow> byte list \<Rightarrow> grn_id \<Rightarrow> id_location \<Rightarrow> id_location \<Rightarrow> int \<Rightarrow> int \<Rightarrow> ptree \<Rightarrow> grn_rc + del_place" where
  "tree_del_find K key id0 p0 p c cp (Inner i k l r) =
     (if klen key \<le> k then Inl GRN_INVALID_ARGUMENT
      else tree_del_find K key i p (i, direction (kbit key k)) k c (child key k l r))"
| "tree_del_find K key id0 p0 p c cp (Record q) =
     (if K q = key then Inr \<lparr>dp_id = q, dp_id0 = id0, dp_p = p, dp_p0 = p0, dp_check = c, dp_check0 = cp\<rparr> else Inl GRN_INVALID_ARGUMENT)"
| "tree_del_find K key id0 p0 p c cp Empty = Inl GRN_INVALID_ARGUMENT"

lemma del_find_loop_tree:
  assumes "tree_at (p_nodes pat) c (link (p_nodes pat) p) t" and "\<And>m. m \<in> members t \<Longrightarrow> readable pat K m" and "c < klen key"
  shows "del_find_loop pat key id0 p0 p c cp = tree_del_find K key id0 p0 p c cp t"
  using assms
proof (induction t arbitrary: id0 p0 p c cp)
  case Empty
  then show ?case by (subst del_find_loop.simps) (simp add: Let_def id_at_link)
next
  case (Record q)
  have "PAT_AT pat q = Some (p_nodes pat q)" "pat_node_get_key pat q = Some (K q)" using Record.prems(2) [of q] readableD by simp_all
  moreover have "link (p_nodes pat) p = q" "q \<noteq> 0" "pat_node_get_check (p_nodes pat q) \<le> c" using Record.prems(1) by auto
  ultimately show ?case using Record.prems(3) by (subst del_find_loop.simps) (simp add: Let_def id_at_link)
next
  case (Inner i k l r)
  have at: "PAT_AT pat i = Some (p_nodes pat i)" using Inner.prems(2) [of i] readableD by simp
  have i: "link (p_nodes pat) p = i" "i \<noteq> 0" "pat_node_get_check (p_nodes pat i) = k" "c < k" using Inner.prems(1) by auto
  have nl: "grn_pat_next_location i key k (klen key) = (i, direction (kbit key k))" by (simp add: grn_pat_next_location_def)
  show ?case
  proof (cases "klen key \<le> k")
    case True
    then show ?thesis using i at by (subst del_find_loop.simps) (simp add: Let_def id_at_link)
  next
    case False
    let ?p = "(i, direction (kbit key k))"
    have "tree_at (p_nodes pat) k (link (p_nodes pat) ?p) (child key k l r)" using Inner.prems(1) by (auto simp: link_direction)
    moreover have "\<And>m. m \<in> members (child key k l r) \<Longrightarrow> readable pat K m" using Inner.prems(2) by (auto split: if_splits)
    ultimately have "del_find_loop pat key i p ?p k c = tree_del_find K key i p ?p k c (child key k l r)"
      using Inner.IH(1) [of k ?p i p c] Inner.IH(2) [of k ?p i p c] False by (cases "kbit key k") simp_all
    then show ?thesis using i at False by (subst del_find_loop.simps) (simp add: Let_def id_at_link nl)
  qed
qed

lemma tree_del_find_Inl: "tree_del_find K key id0 p0 p c cp t = Inl rc \<Longrightarrow> 0 \<notin> members t \<Longrightarrow> tree_get K key t = GRN_ID_NIL"
  by (induction t arbitrary: id0 p0 p c cp) (auto split: if_splits)

lemma tree_del_find_Inr:
  assumes "tree_del_find K key id0 p0 p c cp t = Inr dp" and "increasing c t" and "c < klen key"
  shows "K (dp_id dp) = key \<and> dp_id dp \<in> set (records t) \<and>
    (t = Record (dp_id dp) \<and> dp = \<lparr>dp_id = dp_id dp, dp_id0 = id0, dp_p = p, dp_p0 = p0, dp_check = c, dp_check0 = cp\<rparr> \<or>
     (\<exists>l r. below key (dp_check dp) t = Inner (dp_id0 dp) (dp_check dp) l r \<and> child key (dp_check dp) l r = Record (dp_id dp) \<and>
        dp_p0 dp = insert_location key (dp_check dp) p t \<and> dp_p dp = (dp_id0 dp, direction (kbit key (dp_check dp))) \<and>
        dp_check0 dp = path_check key (dp_check dp) c t \<and> c < dp_check dp \<and> dp_check dp < klen key))"
  using assms
proof (induction t arbitrary: id0 p0 p c cp)
  case (Inner i k l r)
  let ?p = "(i, direction (kbit key k))" and ?ch = "child key k l r" and ?k = "dp_check dp"
  have k: "k < klen key" "c < k" and eq: "tree_del_find K key i p ?p k c ?ch = Inr dp"
    using Inner.prems by (auto split: if_splits)
  have inc: "increasing k ?ch" using Inner.prems(2) by simp
  note IH1 = Inner.IH(1) [of i p ?p k c] and IH2 = Inner.IH(2) [of i p ?p k c]
  have "K (dp_id dp) = key \<and> dp_id dp \<in> set (records ?ch) \<and>
    (?ch = Record (dp_id dp) \<and> dp = \<lparr>dp_id = dp_id dp, dp_id0 = i, dp_p = ?p, dp_p0 = p, dp_check = k, dp_check0 = c\<rparr> \<or>
     (\<exists>l' r'. below key ?k ?ch = Inner (dp_id0 dp) ?k l' r' \<and> child key ?k l' r' = Record (dp_id dp) \<and>
        dp_p0 dp = insert_location key ?k ?p ?ch \<and> dp_p dp = (dp_id0 dp, direction (kbit key ?k)) \<and>
        dp_check0 dp = path_check key ?k k ?ch \<and> k < ?k \<and> ?k < klen key))"
    using IH1 IH2 eq inc k(1) by (cases "kbit key k") simp_all
  then show ?case
  proof (elim conjE disjE exE)
    assume a: "?ch = Record (dp_id dp)" "dp = \<lparr>dp_id = dp_id dp, dp_id0 = i, dp_p = ?p, dp_p0 = p, dp_check = k, dp_check0 = c\<rparr>"
      and b: "K (dp_id dp) = key" "dp_id dp \<in> set (records ?ch)"
    have f: "dp_check dp = k" "dp_id0 dp = i" "dp_p0 dp = p" "dp_p dp = ?p" "dp_check0 dp = c"
      by (subst a(2), simp)+
    show ?thesis using a(1) b k unfolding f by (auto split: if_splits)
  next
    fix l' r' assume a: "below key ?k ?ch = Inner (dp_id0 dp) ?k l' r'" "child key ?k l' r' = Record (dp_id dp)"
      "dp_p0 dp = insert_location key ?k ?p ?ch" "dp_p dp = (dp_id0 dp, direction (kbit key ?k))"
      "dp_check0 dp = path_check key ?k k ?ch" "k < ?k" "?k < klen key" and b: "K (dp_id dp) = key" "dp_id dp \<in> set (records ?ch)"
    have "below key ?k (Inner i k l r) = Inner (dp_id0 dp) ?k l' r'" "dp_p0 dp = insert_location key ?k p (Inner i k l r)"
      "dp_check0 dp = path_check key ?k c (Inner i k l r)" using a by simp_all
    then show ?thesis using a(2,4,6,7) b k by (auto split: if_splits)
  qed
qed (auto split: if_splits)

section \<open>Pending deletions\<close>

lemma ex_entry:
  assumes "\<forall>d ld. (\<exists>j < n. S j \<and> D j = d \<and> L j = ld) \<longleftrightarrow> Q d ld"
  shows "(\<exists>j < (n :: nat). S j \<and> (D j = m \<or> L j = m)) \<longleftrightarrow> (\<exists>d ld. Q d ld \<and> (d = m \<or> ld = m))"
  unfolding assms [rule_format, symmetric] by blast

text \<open>Pending deletions of the first phase are the inner nodes with an owner other than themselves.\<close>

lemma pending_ok_awaits:
  "pending_ok pat t ow \<longleftrightarrow>
     (\<forall>d ld. (\<exists>j < GRN_PAT_NDELINFOS. stat_of pat j = DL_PHASE1 \<and> di_d (p_delinfos pat j) = d \<and> di_ld (p_delinfos pat j) = ld) \<longleftrightarrow>
        d \<in> set (inners t) \<and> ow d = ld \<and> ld \<noteq> d) \<and>
     (\<forall>j < GRN_PAT_NDELINFOS. stat_of pat j = DL_PHASE2 \<longrightarrow> di_d (p_delinfos pat j) \<in> ids pat \<and> di_d (p_delinfos pat j) \<notin> members t) \<and>
     (\<forall>j < GRN_PAT_NDELINFOS. \<forall>j' < GRN_PAT_NDELINFOS. stat_of pat j \<noteq> DL_EMPTY \<longrightarrow> stat_of pat j' \<noteq> DL_EMPTY \<longrightarrow>
        di_d (p_delinfos pat j) = di_d (p_delinfos pat j') \<longrightarrow> j = j') \<and>
     (\<forall>m \<in> members t. pat_node_is_deleting (p_nodes pat m) \<longleftrightarrow> (\<exists>i \<in> set (inners t). ow i \<noteq> i \<and> (i = m \<or> ow i = m)))"
  (is "_ \<longleftrightarrow> ?aw \<and> ?ph2 \<and> ?uniq \<and> ?flag")
proof -
  let ?fl = "\<forall>m \<in> members t. pat_node_is_deleting (p_nodes pat m) \<longleftrightarrow>
        (\<exists>j < GRN_PAT_NDELINFOS. stat_of pat j = DL_PHASE1 \<and> (di_d (p_delinfos pat j) = m \<or> di_ld (p_delinfos pat j) = m))"
  let ?one = "\<forall>j < GRN_PAT_NDELINFOS. stat_of pat j = DL_PHASE1 \<longrightarrow>
        di_d (p_delinfos pat j) \<in> set (inners t) \<and> ow (di_d (p_delinfos pat j)) = di_ld (p_delinfos pat j) \<and>
        di_ld (p_delinfos pat j) \<noteq> di_d (p_delinfos pat j)"
  let ?two = "\<forall>i \<in> set (inners t). ow i \<noteq> i \<longrightarrow>
        (\<exists>j < GRN_PAT_NDELINFOS. stat_of pat j = DL_PHASE1 \<and> di_d (p_delinfos pat j) = i)"
  have aw: "?one \<and> ?two \<longleftrightarrow> ?aw"
  proof
    assume a: ?aw
    have one: ?one
    proof (intro allI impI)
      fix j assume "j < GRN_PAT_NDELINFOS" "stat_of pat j = DL_PHASE1"
      then show "di_d (p_delinfos pat j) \<in> set (inners t) \<and> ow (di_d (p_delinfos pat j)) = di_ld (p_delinfos pat j) \<and>
        di_ld (p_delinfos pat j) \<noteq> di_d (p_delinfos pat j)"
        using iffD1 [OF spec [OF spec [OF a, of "di_d (p_delinfos pat j)"], of "di_ld (p_delinfos pat j)"]] by metis
    qed
    have two: ?two
    proof (intro ballI impI)
      fix i assume "i \<in> set (inners t)" "ow i \<noteq> i"
      then show "\<exists>j < GRN_PAT_NDELINFOS. stat_of pat j = DL_PHASE1 \<and> di_d (p_delinfos pat j) = i"
        using iffD2 [OF spec [OF spec [OF a, of i], of "ow i"]] by metis
    qed
    show "?one \<and> ?two" by (rule conjI [OF one two])
  next
    assume a: "?one \<and> ?two"
    show ?aw
    proof (intro allI iffI)
      fix d ld
      assume "\<exists>j < GRN_PAT_NDELINFOS. stat_of pat j = DL_PHASE1 \<and> di_d (p_delinfos pat j) = d \<and> di_ld (p_delinfos pat j) = ld"
      then obtain j where "j < GRN_PAT_NDELINFOS" "stat_of pat j = DL_PHASE1" "di_d (p_delinfos pat j) = d" "di_ld (p_delinfos pat j) = ld"
        by metis
      then show "d \<in> set (inners t) \<and> ow d = ld \<and> ld \<noteq> d" using spec [OF conjunct1 [OF a], of j] by simp
    next
      fix d ld assume d: "d \<in> set (inners t) \<and> ow d = ld \<and> ld \<noteq> d"
      then obtain j where "j < GRN_PAT_NDELINFOS" "stat_of pat j = DL_PHASE1" "di_d (p_delinfos pat j) = d"
        using bspec [OF conjunct2 [OF a], of d] by metis
      then show "\<exists>j < GRN_PAT_NDELINFOS. stat_of pat j = DL_PHASE1 \<and> di_d (p_delinfos pat j) = d \<and> di_ld (p_delinfos pat j) = ld"
        using spec [OF conjunct1 [OF a], of j] d by (intro exI [of _ j]) simp
    qed
  qed
  have fl: "?fl \<longleftrightarrow> ?flag" if aw: ?aw
  proof (rule ball_cong [OF refl])
    fix m
    have "(\<exists>j < GRN_PAT_NDELINFOS. stat_of pat j = DL_PHASE1 \<and> (di_d (p_delinfos pat j) = m \<or> di_ld (p_delinfos pat j) = m)) \<longleftrightarrow>
      (\<exists>d ld. (d \<in> set (inners t) \<and> ow d = ld \<and> ld \<noteq> d) \<and> (d = m \<or> ld = m))" by (rule ex_entry [OF aw])
    also have "\<dots> \<longleftrightarrow> (\<exists>i \<in> set (inners t). ow i \<noteq> i \<and> (i = m \<or> ow i = m))" by blast
    finally show "(pat_node_is_deleting (p_nodes pat m) \<longleftrightarrow>
        (\<exists>j < GRN_PAT_NDELINFOS. stat_of pat j = DL_PHASE1 \<and> (di_d (p_delinfos pat j) = m \<or> di_ld (p_delinfos pat j) = m))) =
      (pat_node_is_deleting (p_nodes pat m) \<longleftrightarrow> (\<exists>i \<in> set (inners t). ow i \<noteq> i \<and> (i = m \<or> ow i = m)))" by (simp only:)
  qed
  have "pending_ok pat t ow \<longleftrightarrow> (?one \<and> ?two) \<and> ?ph2 \<and> ?uniq \<and> ?fl" unfolding pending_ok_def conj_assoc by (rule refl)
  also have "\<dots> \<longleftrightarrow> ?aw \<and> ?ph2 \<and> ?uniq \<and> ?fl" by (rule arg_cong2 [where f = "(\<and>)", OF aw refl])
  also have "\<dots> \<longleftrightarrow> ?aw \<and> ?ph2 \<and> ?uniq \<and> ?flag" by (intro conj_cong refl) (erule fl)
  finally show ?thesis .
qed

lemma pendingD:
  assumes "pending_ok pat t ow"
  shows "(\<exists>j < GRN_PAT_NDELINFOS. stat_of pat j = DL_PHASE1 \<and> di_d (p_delinfos pat j) = d \<and> di_ld (p_delinfos pat j) = ld) \<longleftrightarrow>
        d \<in> set (inners t) \<and> ow d = ld \<and> ld \<noteq> d"
    and "m \<in> members t \<Longrightarrow> pat_node_is_deleting (p_nodes pat m) \<longleftrightarrow> (\<exists>i \<in> set (inners t). ow i \<noteq> i \<and> (i = m \<or> ow i = m))"
proof -
  note p = assms [unfolded pending_ok_awaits]
  show "(\<exists>j < GRN_PAT_NDELINFOS. stat_of pat j = DL_PHASE1 \<and> di_d (p_delinfos pat j) = d \<and> di_ld (p_delinfos pat j) = ld) \<longleftrightarrow>
        d \<in> set (inners t) \<and> ow d = ld \<and> ld \<noteq> d"
    by (rule spec [OF spec [OF conjunct1 [OF p]]])
  show "pat_node_is_deleting (p_nodes pat m) \<longleftrightarrow> (\<exists>i \<in> set (inners t). ow i \<noteq> i \<and> (i = m \<or> ow i = m))" if "m \<in> members t"
    by (rule bspec [OF conjunct2 [OF conjunct2 [OF conjunct2 [OF p]]] that])
qed

lemma delinfo_search_Some:
  assumes "delinfo_search pat m = Some j"
  shows "j < GRN_PAT_NDELINFOS" and "stat_of pat j = DL_PHASE1" and "di_ld (p_delinfos pat j) = m \<or> di_d (p_delinfos pat j) = m"
  using assms unfolding delinfo_search_def find_Some_iff by (auto simp: delinfo_window_def)

lemma delinfo_search_None:
  assumes ring: "ring_ok pat" and none: "delinfo_search pat m = None" and j: "j < GRN_PAT_NDELINFOS" "stat_of pat j = DL_PHASE1"
  shows "di_ld (p_delinfos pat j) \<noteq> m \<and> di_d (p_delinfos pat j) \<noteq> m"
proof -
  note r = ring_okD [OF ring]
  have lt: "ring_dist (p_curr_del2 pat) j < ring_dist (p_curr_del2 pat) (p_curr_del pat)" using r(8) [OF j(1)] j(2) by fastforce
  have "j = (p_curr_del2 pat + ring_dist (p_curr_del2 pat) j) mod GRN_PAT_NDELINFOS"
    using r(2) j(1) by (auto simp: ring_dist_eq mod_if)
  moreover have "ring_dist (p_curr_del2 pat) j \<in> set [0..<(p_curr_del pat + GRN_PAT_NDELINFOS - p_curr_del2 pat) mod GRN_PAT_NDELINFOS]"
    using lt by (simp add: ring_dist_def)
  ultimately have "j \<in> set (delinfo_window pat)"
    unfolding delinfo_window_def set_map by blast
  then show ?thesis using none j(2) unfolding delinfo_search_def find_None_iff by blast
qed

lemma delinfo_search_deleting:
  assumes pend: "pending_ok pat t ow" and ring: "ring_ok pat" and m: "m \<in> members t" "pat_node_is_deleting (p_nodes pat m)"
  shows "\<exists>j. delinfo_search pat m = Some j"
proof -
  obtain j where "j < GRN_PAT_NDELINFOS" "stat_of pat j = DL_PHASE1" "di_d (p_delinfos pat j) = m \<or> di_ld (p_delinfos pat j) = m"
    using pending_okD(8) [OF pend m(1)] m(2) by blast
  then show ?thesis using delinfo_search_None [OF ring, of m j] by (cases "delinfo_search pat m") auto
qed

text \<open>The owners after a deletion: what the record owned goes to the owner of the node that leaves with it.\<close>

definition heir :: "(grn_id \<Rightarrow> grn_id) \<Rightarrow> grn_id \<Rightarrow> grn_id \<Rightarrow> grn_id \<Rightarrow> grn_id" where
  "heir ow r i0 i = (if ow i = r then ow i0 else ow i)"

lemma heir_inj:
  assumes "inj_on ow A" and "i0 \<in> A"
  shows "inj_on (heir ow q i0) (A - {i0})"
proof (rule inj_onI)
  fix a b assume a: "a \<in> A - {i0}" and b: "b \<in> A - {i0}" and eq: "heir ow q i0 a = heir ow q i0 b"
  have "ow a \<noteq> ow i0" "ow b \<noteq> ow i0" using inj_onD [OF assms(1), of a i0] inj_onD [OF assms(1), of b i0] a b assms(2) by blast+
  then have "ow a = ow b" using eq by (cases "ow a = q"; cases "ow b = q") (simp_all add: heir_def)
  then show "a = b" using inj_onD [OF assms(1)] a b by blast
qed

lemma owner_flags:
  assumes own: "owner_ok pat t ow" and pend: "pending_ok pat t ow" 
  shows "r \<in> set (records t) \<Longrightarrow> r \<in> ow ` set (inners t) \<Longrightarrow> pat_node_is_deleting (p_nodes pat r) \<longleftrightarrow> r \<notin> set (inners t)"
    and "i \<in> set (inners t) \<Longrightarrow> pat_node_is_deleting (p_nodes pat i) \<longleftrightarrow> ow i \<noteq> i"
proof -
  note o = owner_okD [OF own]
  show "pat_node_is_deleting (p_nodes pat i) \<longleftrightarrow> ow i \<noteq> i" if i: "i \<in> set (inners t)"
  proof -
    have "pat_node_is_deleting (p_nodes pat i) \<longleftrightarrow> (\<exists>q \<in> set (inners t). ow q \<noteq> q \<and> (q = i \<or> ow q = i))"
      by (rule pendingD(2) [OF pend]) (use i in simp)
    then show ?thesis using o(4) i by blast
  qed
  assume r: "r \<in> set (records t)" "r \<in> ow ` set (inners t)"
  have flag: "pat_node_is_deleting (p_nodes pat r) \<longleftrightarrow> (\<exists>q \<in> set (inners t). ow q \<noteq> q \<and> (q = r \<or> ow q = r))"
    by (rule pendingD(2) [OF pend]) (use r in simp)
  show "pat_node_is_deleting (p_nodes pat r) \<longleftrightarrow> r \<notin> set (inners t)"
    unfolding flag using o(3,4) r by (metis image_iff)
qed

text \<open>Owners after a node and a record have left the tree.\<close>

lemma spliced_owner:
  assumes own: "owner_ok pat t ow" and dist: "distinct (records t)"
    and below: "below key k t = Inner i0 k l r" and rec: "child key k l r = Record q" and S: "S = (if kbit key k then l else r)"
    and t': "t' = graft key k S t" and inn: "set (inners t') = set (inners t) - {i0}" and recs: "set (records t') = set (records t) - {q}"
    and i0: "i0 \<in> set (inners t)" and q: "q \<in> ow ` set (inners t)"
    and links: "\<And>m d. m \<in> set (records t) \<Longrightarrow> m \<notin> set (inners t) - {i0} \<Longrightarrow> link (p_nodes pat') (m, d) = link (p_nodes pat) (m, d)"
    and loop: "q \<noteq> i0 \<Longrightarrow> \<not> self_loop i0 (p_nodes pat i0)"
    and leaf: "\<And>m. m \<in> set (records t) \<Longrightarrow> m \<notin> set (inners t) \<Longrightarrow> leaf_ok pat m \<Longrightarrow> leaf_ok pat' m"
  shows "owner_ok pat' t' (heir ow q i0)"
proof -
  note o = owner_okD [OF own]
  let ?ow = "heir ow q i0"
  have S_recs: "set (records (Inner i0 k l r)) = insert q (set (records S))" and ownS: "owned ow S"
    and ow0: "ow i0 \<in> set (records (Inner i0 k l r))" and S_sub: "set (inners S) \<subseteq> set (inners (Inner i0 k l r))"
    using rec owned_below [OF o(1), of key k] unfolding below S by (auto split: if_splits)
  have qS: "q \<notin> set (records S)"
    using distinct_records_split(2) [OF dist, of key k] rec unfolding below S by (auto split: if_splits)
  define R where "R = rest key k t"
  have R: "set (inners R) \<subseteq> set (inners t)" "i0 \<notin> set (inners R)"
  proof -
    show "set (inners R) \<subseteq> set (inners t)" unfolding R_def using set_inners_split [of t key k] by blast
    show "i0 \<notin> set (inners R)"
    proof
      assume "i0 \<in> set (inners R)"
      then have "i0 \<in> set (inners t')" using set_inners_graft [of key k S t] unfolding t' R_def by blast
      then show False unfolding inn by blast
    qed
  qed
  have "owned ?ow t'"
    unfolding t'
  proof (rule owned_graft [OF o(1) _ _ dist, where key = key and c = k, folded R_def, unfolded below])
    have "ow i \<noteq> q" if "i \<in> set (inners S)" for i using owned_member [OF ownS that] qS by auto
    then show "owned ?ow S" by (intro owned_cong [OF ownS]) (simp add: heir_def)
    fix i assume i: "i \<in> set (inners R)"
    then have ne: "ow i \<noteq> ow i0" using inj_onD [OF o(2), of i i0] R i0 by auto
    show "if ow i \<in> set (records (Inner i0 k l r)) then ?ow i \<in> set (records S) else ?ow i = ow i"
      using ne ow0 unfolding S_recs by (auto simp: heir_def)
  qed
  moreover have "inj_on ?ow (set (inners t'))"
    unfolding inn by (rule heir_inj [OF o(2) i0])
  moreover have "i \<notin> set (records t') \<and> ?ow i \<notin> set (inners t') \<and> \<not> self_loop (?ow i) (p_nodes pat' (?ow i))"
    if i: "i \<in> set (inners t')" "?ow i \<noteq> i" for i
  proof -
    have it: "i \<in> set (inners t)" "i \<noteq> i0" using i(1) inn by auto
    have self: "\<not> self_loop m (p_nodes pat' m)" if "m \<in> set (records t)" "m \<notin> set (inners t) - {i0}" "\<not> self_loop m (p_nodes pat m)" for m
      using that(3) links [OF that(1,2), of DIRECTION_LEFT] links [OF that(1,2), of DIRECTION_RIGHT] by (simp add: self_loop_def)
    show ?thesis
    proof (cases "ow i = q")
      case True
      have "i \<notin> set (records t')" using True o(3) [OF it(1)] unfolding recs by (cases "i = q") auto
      moreover have "?ow i = ow i0" using True by (simp add: heir_def)
      moreover have "ow i0 \<notin> set (inners t) - {i0}" using o(4) [OF i0] by (cases "ow i0 = i0") auto
      moreover have "\<not> self_loop (ow i0) (p_nodes pat (ow i0))"
      proof (cases "ow i0 = i0")
        case eq: True
        then have "q \<noteq> i0" using inj_onD [OF o(2), of i i0] True it i0 by auto
        then show ?thesis using loop eq by simp
      qed (rule o(5) [OF i0])
      ultimately show ?thesis using self [of "ow i0"] o(7) [OF i0] inn by auto
    next
      case False
      then have w: "ow i \<noteq> i" "?ow i = ow i" using i(2) by (auto simp: heir_def)
      show ?thesis
        using o(3,4,5) [OF it(1) w(1)] self [of "ow i"] o(7) [OF it(1)] unfolding w(2) inn recs by auto
    qed
  qed
  moreover have "leaf_ok pat' m" if m: "m \<in> set (records t')" "m \<notin> ?ow ` set (inners t')" for m
  proof -
    have mt: "m \<in> set (records t)" "m \<noteq> q" using m(1) recs by auto
    have "m \<notin> ow ` set (inners t)"
    proof
      assume "m \<in> ow ` set (inners t)"
      then obtain i where i: "i \<in> set (inners t)" "ow i = m" by auto
      show False
      proof (cases "i = i0")
        case True
        obtain i' where i': "i' \<in> set (inners t)" "ow i' = q" using q by auto
        then have "i' \<in> set (inners t')" using True i mt inn by auto
        moreover have "?ow i' = m" using i' i True by (simp add: heir_def)
        ultimately show False using m(2) by blast
      next
        case False
        then have "i \<in> set (inners t')" "?ow i = m" using i mt inn by (auto simp: heir_def)
        then show False using m(2) by blast
      qed
    qed
    then show ?thesis using o(6,8) [OF mt(1)] leaf [OF mt(1)] by blast
  qed
  ultimately show ?thesis unfolding owner_ok_def by blast
qed

lemma spliced_pending:
  assumes own: "owner_ok pat t ow" and pend: "pending_ok pat t ow" and ids: "ids pat' = ids pat" and mem: "members t \<subseteq> ids pat"
    and inn: "set (inners t') = set (inners t) - {i0}" and recs: "set (records t') = set (records t) - {q}"
    and i0: "i0 \<in> set (inners t)" and q: "q \<in> set (records t)" "q \<in> ow ` set (inners t)"
    and di: "di < GRN_PAT_NDELINFOS" "stat_of pat di = DL_EMPTY"
    and d: "\<And>j. j < GRN_PAT_NDELINFOS \<Longrightarrow> di_d (p_delinfos pat' j) = (if j = di then q else di_d (p_delinfos pat j))"
    and st: "\<And>j. j < GRN_PAT_NDELINFOS \<Longrightarrow> stat_of pat' j = (if j = di then if q \<in> set (inners t) \<and> q \<noteq> i0 then DL_PHASE1 else DL_PHASE2
      else if stat_of pat j = DL_PHASE1 \<and> di_d (p_delinfos pat j) = i0 then DL_PHASE2 else stat_of pat j)"
    and ld: "\<And>j. j < GRN_PAT_NDELINFOS \<Longrightarrow> stat_of pat' j = DL_PHASE1 \<Longrightarrow>
      di_ld (p_delinfos pat' j) = (if j = di \<or> di_ld (p_delinfos pat j) = q then ow i0 else di_ld (p_delinfos pat j))"
    and del: "\<And>m. m \<in> members t' \<Longrightarrow> pat_node_is_deleting (p_nodes pat' m) \<longleftrightarrow> m = q \<or> m = i0 \<or> pat_node_is_deleting (p_nodes pat m)"
  shows "pending_ok pat' t' (heir ow q i0)"
proof -
  note o = owner_okD [OF own] and p = pendingD [OF pend] and p' = pending_okD [OF pend]
  let ?ow = "heir ow q i0"
  obtain iq where iq: "iq \<in> set (inners t)" "ow iq = q" using q(2) by auto
  have iq_eq: "ow i = q \<longleftrightarrow> i = iq" if "i \<in> set (inners t)" for i using inj_onD [OF o(2), of i iq] iq that by auto
  have q_inner: "q \<in> set (inners t) \<longleftrightarrow> iq = q" using o(3) [of q] q(1) iq iq_eq [of q] by auto
  have i0_ow: "ow i0 \<noteq> iq \<or> iq = i0" using o(4) [OF i0] iq by auto
  have in_t: "di_d (p_delinfos pat j) \<in> set (inners t) \<and> ow (di_d (p_delinfos pat j)) = di_ld (p_delinfos pat j) \<and>
      di_ld (p_delinfos pat j) \<noteq> di_d (p_delinfos pat j)" if "j < GRN_PAT_NDELINFOS" "stat_of pat j = DL_PHASE1" for j
    using p'(1,2,3) [OF that] by blast
  have q_new: "di_d (p_delinfos pat j) \<noteq> q" if "j < GRN_PAT_NDELINFOS" "stat_of pat j \<noteq> DL_EMPTY" for j
  proof (cases "stat_of pat j")
    case DL_PHASE1
    then show ?thesis using in_t [OF that(1)] o(3) q(1) by metis
  next
    case DL_PHASE2
    then show ?thesis using p'(6) [OF that(1)] q(1) by blast
  qed (use that in simp)
  have ne: "stat_of pat' j \<noteq> DL_EMPTY \<longleftrightarrow> j = di \<or> stat_of pat j \<noteq> DL_EMPTY" if "j < GRN_PAT_NDELINFOS" for j
    using st [OF that] by auto
  show ?thesis
    unfolding pending_ok_awaits
  proof (intro conjI allI ballI impI iffI)
    fix d' ld' assume "\<exists>j < GRN_PAT_NDELINFOS. stat_of pat' j = DL_PHASE1 \<and> di_d (p_delinfos pat' j) = d' \<and> di_ld (p_delinfos pat' j) = ld'"
    then obtain j where j: "j < GRN_PAT_NDELINFOS" "stat_of pat' j = DL_PHASE1" "di_d (p_delinfos pat' j) = d'" "di_ld (p_delinfos pat' j) = ld'"
      by metis
    have "d' \<in> set (inners t') \<and> ?ow d' = ld' \<and> ld' \<noteq> d'"
    proof (cases "j = di")
      case True
      then have "d' = q" "q \<in> set (inners t)" "q \<noteq> i0" "ld' = ow i0" using j st [OF j(1)] d [OF j(1)] ld [OF j(1,2)] by (auto split: if_splits)
      then show ?thesis using q_inner iq i0_ow inn by (auto simp: heir_def)
    next
      case False
      then have old: "stat_of pat j = DL_PHASE1" "di_d (p_delinfos pat j) = d'" "d' \<noteq> i0"
        and l: "ld' = (if di_ld (p_delinfos pat j) = q then ow i0 else di_ld (p_delinfos pat j))"
        using j st [OF j(1)] d [OF j(1)] ld [OF j(1,2)] by (auto split: if_splits)
      have "d' \<in> set (inners t)" "ow d' = di_ld (p_delinfos pat j)" "ow d' \<noteq> d'" using in_t [OF j(1) old(1)] old(2) by auto
      then show ?thesis using l old(3) inn i0_ow iq_eq [of d'] by (auto simp: heir_def)
    qed
    then show "d' \<in> set (inners t')" "?ow d' = ld'" "ld' \<noteq> d'" by blast+
  next
    fix d' ld' assume a: "d' \<in> set (inners t') \<and> ?ow d' = ld' \<and> ld' \<noteq> d'"
    then have dt: "d' \<in> set (inners t)" "d' \<noteq> i0" using inn by auto
    show "\<exists>j < GRN_PAT_NDELINFOS. stat_of pat' j = DL_PHASE1 \<and> di_d (p_delinfos pat' j) = d' \<and> di_ld (p_delinfos pat' j) = ld'"
    proof (cases "d' = q")
      case True
      then have s: "stat_of pat' di = DL_PHASE1" using st [OF di(1)] dt by simp
      moreover have "di_ld (p_delinfos pat' di) = ld'" using ld [OF di(1) s] a True q_inner dt iq by (simp add: heir_def)
      ultimately show ?thesis using di(1) d [OF di(1)] True by (intro exI [of _ di]) simp
    next
      case False
      have w: "ow d' \<noteq> d'" using a False by (auto simp: heir_def split: if_splits)
      then obtain j where j: "j < GRN_PAT_NDELINFOS" "stat_of pat j = DL_PHASE1" "di_d (p_delinfos pat j) = d'"
        using p'(4) [OF dt(1)] by metis
      have jd: "j \<noteq> di" using j(2) di(2) by auto
      then have s: "stat_of pat' j = DL_PHASE1" using st [OF j(1)] j dt by simp
      have "di_ld (p_delinfos pat' j) = ld'"
        using ld [OF j(1) s] jd a in_t [OF j(1,2)] j(3) by (auto simp: heir_def)
      then show ?thesis using j s d [OF j(1)] jd by (intro exI [of _ j]) simp
    qed
  next
    fix j assume j: "j < GRN_PAT_NDELINFOS" "stat_of pat' j = DL_PHASE2"
    have "di_d (p_delinfos pat' j) \<in> ids pat \<and> di_d (p_delinfos pat' j) \<notin> members t'"
    proof (cases "j = di")
      case True
      then have "q \<notin> set (inners t')" using j st [OF j(1)] inn by (auto split: if_splits)
      then show ?thesis using True d [OF j(1)] q(1) mem recs by auto
    next
      case False
      show ?thesis
      proof (cases "stat_of pat j = DL_PHASE1")
        case True
        then have i: "di_d (p_delinfos pat j) = i0" using j st [OF j(1)] False by (auto split: if_splits)
        then have "ow i0 \<noteq> i0" using in_t [OF j(1) True] by auto
        then have "i0 \<notin> set (records t)" by (rule o(3) [OF i0])
        then show ?thesis using i i0 mem False d [OF j(1)] inn recs by auto
      next
        case not: False
        then have "stat_of pat j = DL_PHASE2" using j st [OF j(1)] False by simp
        then show ?thesis using p'(5,6) [OF j(1)] False d [OF j(1)] inn recs by auto
      qed
    qed
    then show "di_d (p_delinfos pat' j) \<in> ids pat'" "di_d (p_delinfos pat' j) \<notin> members t'" unfolding ids by blast+
  next
    fix j j' assume a: "j < GRN_PAT_NDELINFOS" "j' < GRN_PAT_NDELINFOS" "stat_of pat' j \<noteq> DL_EMPTY" "stat_of pat' j' \<noteq> DL_EMPTY"
      "di_d (p_delinfos pat' j) = di_d (p_delinfos pat' j')"
    have cs: "k = di \<and> di_d (p_delinfos pat' k) = q \<or>
        k \<noteq> di \<and> stat_of pat k \<noteq> DL_EMPTY \<and> di_d (p_delinfos pat' k) = di_d (p_delinfos pat k) \<and> di_d (p_delinfos pat k) \<noteq> q"
      if "k < GRN_PAT_NDELINFOS" "stat_of pat' k \<noteq> DL_EMPTY" for k
      using ne [OF that(1)] that q_new [OF that(1)] d [OF that(1)] by (cases "k = di") simp_all
    show "j = j'"
      using cs [OF a(1,3)] cs [OF a(2,4)] a(5)
    proof (elim disjE conjE)
      assume b: "stat_of pat j \<noteq> DL_EMPTY" "stat_of pat j' \<noteq> DL_EMPTY" "di_d (p_delinfos pat' j) = di_d (p_delinfos pat j)"
        "di_d (p_delinfos pat' j') = di_d (p_delinfos pat j')"
      show ?thesis by (rule p'(7) [OF a(1,2) b(1,2)]) (use a(5) b(3,4) in simp)
    qed simp_all
  next
    fix m assume m: "m \<in> members t'" and "pat_node_is_deleting (p_nodes pat' m)"
    then have cs: "m = q \<or> m = i0 \<or> pat_node_is_deleting (p_nodes pat m)" using del by blast
    have mt: "m \<in> members t" using m inn recs by auto
    have heir_iq: "\<exists>i \<in> set (inners t'). ?ow i \<noteq> i \<and> (i = m \<or> ?ow i = m)" if "ow i0 = m" "m \<noteq> q"

    proof (rule bexI [of _ iq])
      have ne: "iq \<noteq> i0" using that iq(2) by metis
      then show "iq \<in> set (inners t')" unfolding inn using iq(1) by simp
      have "?ow iq = m" unfolding heir_def using iq(2) that(1) by simp
      moreover have "m \<noteq> iq" using i0_ow ne that(1) by metis
      ultimately show "?ow iq \<noteq> iq \<and> (iq = m \<or> ?ow iq = m)" by simp
    qed
    have self: "\<exists>i \<in> set (inners t'). ?ow i \<noteq> i \<and> (i = m \<or> ?ow i = m)" if "m \<in> set (inners t)" "m \<noteq> i0" "ow m \<noteq> m \<or> m = q"

    proof (rule bexI [of _ m])
      show "m \<in> set (inners t')" unfolding inn using that(1,2) by simp
      have "?ow m \<noteq> m"
      proof (cases "ow m = q")
        case True
        then have "m = iq" using iq_eq [OF that(1)] by simp
        moreover have "?ow m = ow i0" unfolding heir_def using True by simp
        ultimately show ?thesis using i0_ow that(2) by metis
      next
        case False
        then have "m \<noteq> q" using q_inner iq(2) that(1) by metis
        moreover have "?ow m = ow m" unfolding heir_def using False by simp
        ultimately show ?thesis using that(3) by simp
      qed
      then show "?ow m \<noteq> m \<and> (m = m \<or> ?ow m = m)" by simp
    qed
    show "\<exists>i \<in> set (inners t'). ?ow i \<noteq> i \<and> (i = m \<or> ?ow i = m)"
    proof (cases "m = q \<or> m = i0")
      case True
      show ?thesis
      proof (cases "m = q")
        case True
        then show ?thesis using m self inn recs by blast
      next
        case False
        then have "m = i0" "i0 \<in> set (records t)" using True m inn recs by auto
        then show ?thesis using heir_iq False o(3) [OF i0] by blast
      qed
    next
      case False
      then obtain i where i: "i \<in> set (inners t)" "ow i \<noteq> i" "i = m \<or> ow i = m" using cs p(2) [OF mt] by blast
      show ?thesis
      proof (cases "i = m")
        case True
        then show ?thesis using self i False by blast
      next
        case not: False
        then have om: "ow i = m" using i(3) by simp
        show ?thesis
        proof (cases "i = i0")
          case True
          then show ?thesis using heir_iq om False by simp
        next
          case ni: False
          then have "i \<in> set (inners t')" "?ow i = m" using i(1) om False inn by (auto simp: heir_def)
          then show ?thesis using not by metis
        qed
      qed
    qed
  next
    fix m assume m: "m \<in> members t'" and ex: "\<exists>i \<in> set (inners t'). ?ow i \<noteq> i \<and> (i = m \<or> ?ow i = m)"
    have mt: "m \<in> members t" using m inn recs by auto
    have flag: "pat_node_is_deleting (p_nodes pat' m)" if "i \<in> set (inners t)" "ow i \<noteq> i" "i = m \<or> ow i = m" for i
      using del [OF m] p(2) [OF mt] that by blast
    obtain i where i: "i \<in> set (inners t)" "i \<noteq> i0" "?ow i \<noteq> i" "i = m \<or> ?ow i = m" using ex inn by blast
    show "pat_node_is_deleting (p_nodes pat' m)"
    proof (cases "m = q \<or> m = i0")
      case True
      then show ?thesis using del [OF m] by blast
    next
      case False
      show ?thesis
      proof (cases "ow i = q")
        case True
        then have "?ow i = ow i0" by (simp add: heir_def)
        then show ?thesis using i(4) flag [of i0] flag [of i] i0 i(1) False True by metis
      next
        case nq: False
        then have "?ow i = ow i" by (simp add: heir_def)
        then show ?thesis using i(1,3,4) flag [of i] by simp
      qed
    qed
  qed
qed

text \<open>What \<^verbatim>\<open>grn_pat_del_internal\<close> does to the flags and the ring when another node takes the place of the record's node.\<close>

definition toggle_deleting :: "pat_node \<Rightarrow> pat_node" where
  "toggle_deleting node = (if pat_node_is_deleting node then pat_node_set_deleting_off node else pat_node_set_deleting_on node)"

lemma toggle_deleting_simps [simp]:
  "pat_node_is_deleting (toggle_deleting n) \<longleftrightarrow> \<not> pat_node_is_deleting n" "pn_left (toggle_deleting n) = pn_left n"
  "pn_right (toggle_deleting n) = pn_right n" "pn_check (toggle_deleting n) = pn_check n" "pn_key (toggle_deleting n) = pn_key n"
  "pat_node_get_key_length (toggle_deleting n) = pat_node_get_key_length n"
  "pat_node_is_key_immediate (toggle_deleting n) = pat_node_is_key_immediate n"
  by (simp_all add: toggle_deleting_def)

lemma del_pending_fields:
  assumes ne: "q \<noteq> i0" and q: "pat_node_is_deleting (p_nodes pat q) \<Longrightarrow> delinfo_search pat q \<noteq> None"
    and i: "pat_node_is_deleting (p_nodes pat i0) \<Longrightarrow> delinfo_search pat i0 \<noteq> None"
  shows "p_nodes (del_pending di q i0 pat) = (p_nodes pat)(q := toggle_deleting (p_nodes pat q), i0 := toggle_deleting (p_nodes pat i0))"
    and "\<exists>D. del_pending di q i0 pat = pat\<lparr>p_nodes := p_nodes (del_pending di q i0 pat), p_delinfos := D\<rparr>"
proof -
  obtain lq li where l: "pat_node_is_deleting (p_nodes pat q) \<Longrightarrow> delinfo_search pat q = Some lq"
    "pat_node_is_deleting (p_nodes pat i0) \<Longrightarrow> delinfo_search pat i0 = Some li" using q i by (metis option.exhaust)
  show "p_nodes (del_pending di q i0 pat) = (p_nodes pat)(q := toggle_deleting (p_nodes pat q), i0 := toggle_deleting (p_nodes pat i0))"
    using ne l by (cases "pat_node_is_deleting (p_nodes pat q)"; cases "pat_node_is_deleting (p_nodes pat i0)")
      (simp_all add: del_pending_def Let_def update_node_def update_delinfo_def toggle_deleting_def)
  show "\<exists>D. del_pending di q i0 pat = pat\<lparr>p_nodes := p_nodes (del_pending di q i0 pat), p_delinfos := D\<rparr>"
    using l by (intro exI [of _ "p_delinfos (del_pending di q i0 pat)"])
      (cases "pat_node_is_deleting (p_nodes pat q)"; cases "pat_node_is_deleting (p_nodes pat i0)";
        simp add: del_pending_def Let_def update_node_def update_delinfo_def)
qed

lemma del_pending_infos:
  assumes own: "owner_ok pat t ow" and pend: "pending_ok pat t ow" and ring: "ring_ok pat"
    and q: "q \<in> set (records t)" "q \<in> ow ` set (inners t)" and i0: "i0 \<in> set (inners t)" and ne: "q \<noteq> i0"
    and di: "di < GRN_PAT_NDELINFOS" "stat_of pat di = DL_EMPTY" and j: "j < GRN_PAT_NDELINFOS"
  defines "pat' \<equiv> del_pending di q i0 pat"
  shows "di_d (p_delinfos pat' j) = (if j = di then q else di_d (p_delinfos pat j))"
    and "stat_of pat' j = (if j = di then if q \<in> set (inners t) then DL_PHASE1 else DL_PHASE2
      else if stat_of pat j = DL_PHASE1 \<and> di_d (p_delinfos pat j) = i0 then DL_PHASE2 else stat_of pat j)"
    and "stat_of pat' j = DL_PHASE1 \<Longrightarrow>
      di_ld (p_delinfos pat' j) = (if j = di \<or> di_ld (p_delinfos pat j) = q then ow i0 else di_ld (p_delinfos pat j))"
    and "di_shared (p_delinfos pat' j) = di_shared (p_delinfos pat j)"
proof -
  note o = owner_okD [OF own] and p = pending_okD [OF pend] and fl = owner_flags [OF own pend]
  have fq: "pat_node_is_deleting (p_nodes pat q) \<longleftrightarrow> q \<notin> set (inners t)" by (rule fl(1) [OF q])
  have fi: "pat_node_is_deleting (p_nodes pat i0) \<longleftrightarrow> ow i0 \<noteq> i0" by (rule fl(2) [OF i0])
  have uniq_ld: "j = j'" if "j < GRN_PAT_NDELINFOS" "j' < GRN_PAT_NDELINFOS" "stat_of pat j = DL_PHASE1" "stat_of pat j' = DL_PHASE1"
    "di_ld (p_delinfos pat j) = di_ld (p_delinfos pat j')" for j j'
  proof -
    have "di_d (p_delinfos pat j) = di_d (p_delinfos pat j')"
      using inj_onD [OF o(2), of "di_d (p_delinfos pat j)" "di_d (p_delinfos pat j')"] p(1,2) [OF that(1,3)] p(1,2) [OF that(2,4)] that(5) by simp
    then show ?thesis using p(7) [OF that(1,2)] that(3,4) by simp
  qed
  have sq: "\<exists>l. delinfo_search pat q = Some l \<and> l < GRN_PAT_NDELINFOS \<and> stat_of pat l = DL_PHASE1 \<and> di_ld (p_delinfos pat l) = q"
    if nin: "q \<notin> set (inners t)"
  proof -
    obtain l where l: "delinfo_search pat q = Some l" using delinfo_search_deleting [OF pend ring, of q] fq q(1) nin by blast
    note s = delinfo_search_Some [OF l]
    show ?thesis using l s p(1) [OF s(1,2)] nin by auto
  qed
  have nq: "di_ld (p_delinfos pat k) \<noteq> q" if "q \<in> set (inners t)" "k < GRN_PAT_NDELINFOS" "stat_of pat k = DL_PHASE1" for k
    using o(4) [OF p(1) [OF that(2,3)]] p(2,3) [OF that(2,3)] that(1) by auto
  have si: "\<exists>l. delinfo_search pat i0 = Some l \<and> l < GRN_PAT_NDELINFOS \<and> stat_of pat l = DL_PHASE1 \<and> di_d (p_delinfos pat l) = i0 \<and>
      di_ld (p_delinfos pat l) = ow i0" if wait: "ow i0 \<noteq> i0"
  proof -
    obtain l where l: "delinfo_search pat i0 = Some l" using delinfo_search_deleting [OF pend ring, of i0] fi i0 wait by blast
    note s = delinfo_search_Some [OF l]
    have "di_ld (p_delinfos pat l) \<noteq> i0" using o(4) [OF p(1) [OF s(1,2)]] p(2,3) [OF s(1,2)] i0 by auto
    then show ?thesis using l s p(2) [OF s(1,2)] by auto
  qed
  have ni: "di_d (p_delinfos pat k) \<noteq> i0" if "ow i0 = i0" "k < GRN_PAT_NDELINFOS" "stat_of pat k = DL_PHASE1" for k
    using p(2,3) [OF that(2,3)] that(1) by auto
  have uniq_d: "j = j'" if "j < GRN_PAT_NDELINFOS" "j' < GRN_PAT_NDELINFOS" "stat_of pat j = DL_PHASE1" "stat_of pat j' = DL_PHASE1"
    "di_d (p_delinfos pat j) = di_d (p_delinfos pat j')" for j j' using p(7) [OF that(1,2)] that(3-5) by simp
  have "di_d (p_delinfos pat' j) = (if j = di then q else di_d (p_delinfos pat j)) \<and>
    stat_of pat' j = (if j = di then if q \<in> set (inners t) then DL_PHASE1 else DL_PHASE2
      else if stat_of pat j = DL_PHASE1 \<and> di_d (p_delinfos pat j) = i0 then DL_PHASE2 else stat_of pat j) \<and>
    (stat_of pat' j = DL_PHASE1 \<longrightarrow>
      di_ld (p_delinfos pat' j) = (if j = di \<or> di_ld (p_delinfos pat j) = q then ow i0 else di_ld (p_delinfos pat j))) \<and>
    di_shared (p_delinfos pat' j) = di_shared (p_delinfos pat j)"
  proof (cases "q \<in> set (inners t)")
    case True
    note q' = True
    show ?thesis
    proof (cases "ow i0 = i0")
      case True
      then have D: "p_delinfos pat' = (p_delinfos pat)(di := (p_delinfos pat di)\<lparr>di_stat := DL_PHASE1, di_ld := i0, di_d := q\<rparr>)"
        using fq fi q' by (simp add: pat'_def del_pending_def Let_def update_node_def update_delinfo_def)
      show ?thesis
      proof (cases "j = di")
        case j1: True
        then show ?thesis unfolding D using True q' by simp
      next
        case False
        then show ?thesis unfolding D using True q' nq [OF q' j] ni [OF True j] by auto
      qed
    next
      case False
      obtain l where l: "delinfo_search pat i0 = Some l" "l < GRN_PAT_NDELINFOS" "stat_of pat l = DL_PHASE1" "di_d (p_delinfos pat l) = i0"
        "di_ld (p_delinfos pat l) = ow i0" using si [OF False] by blast
      have ld: "l \<noteq> di" using l(3) di(2) by auto
      have D: "p_delinfos pat' = (p_delinfos pat)(l := (p_delinfos pat l)\<lparr>di_stat := DL_PHASE2\<rparr>,
          di := (p_delinfos pat di)\<lparr>di_stat := DL_PHASE1, di_ld := ow i0, di_d := q\<rparr>)"
        using fq fi q' False l ld by (simp add: pat'_def del_pending_def Let_def update_node_def update_delinfo_def)
      consider "j = di" | "j = l" | "j \<noteq> di" "j \<noteq> l" by blast
      then show ?thesis
      proof cases
        case 1
        then show ?thesis unfolding D using ld q' by simp
      next
        case 2
        then show ?thesis unfolding D using ld q' l by simp
      next
        case 3
        then show ?thesis unfolding D using q' nq [OF q' j] uniq_d [OF j l(2) _ l(3)] l(4) by auto
      qed
    qed
  next
    case False
    note q' = False
    obtain k where k: "delinfo_search pat q = Some k" "k < GRN_PAT_NDELINFOS" "stat_of pat k = DL_PHASE1" "di_ld (p_delinfos pat k) = q"
      using sq [OF q'] by blast
    have kd: "k \<noteq> di" using k(3) di(2) by auto
    show ?thesis
    proof (cases "ow i0 = i0")
      case True
      have D: "p_delinfos pat' = (p_delinfos pat)(k := (p_delinfos pat k)\<lparr>di_ld := i0\<rparr>,
          di := (p_delinfos pat di)\<lparr>di_stat := DL_PHASE2, di_d := q\<rparr>)"
        using fq fi q' True k kd by (simp add: pat'_def del_pending_def Let_def update_node_def update_delinfo_def fun_upd_twist)
      consider "j = di" | "j = k" | "j \<noteq> di" "j \<noteq> k" by blast
      then show ?thesis
      proof cases
        case 1
        then show ?thesis unfolding D using kd q' by simp
      next
        case 2
        then show ?thesis unfolding D using kd q' k True ni [OF True k(2,3)] by simp
      next
        case 3
        then show ?thesis unfolding D using q' uniq_ld [OF j k(2) _ k(3)] k(4) ni [OF True j] by auto
      qed
    next
      case False
      obtain l where l: "delinfo_search pat i0 = Some l" "l < GRN_PAT_NDELINFOS" "stat_of pat l = DL_PHASE1" "di_d (p_delinfos pat l) = i0"
        "di_ld (p_delinfos pat l) = ow i0" using si [OF False] by blast
      have ld: "l \<noteq> di" using l(3) di(2) by auto
      have D: "p_delinfos pat' = (p_delinfos pat)(l := (p_delinfos pat l)\<lparr>di_stat := DL_PHASE2\<rparr>,
          k := (if l = k then (p_delinfos pat l)\<lparr>di_stat := DL_PHASE2\<rparr> else (p_delinfos pat k)\<lparr>di_ld := ow i0\<rparr>),
          di := (p_delinfos pat di)\<lparr>di_stat := DL_PHASE2, di_d := q\<rparr>)"
        using fq fi q' False l ld k kd
        by (auto simp: pat'_def del_pending_def Let_def update_node_def update_delinfo_def fun_eq_iff)
      consider "j = di" | "j = l" "j \<noteq> k" | "j = k" "j \<noteq> l" | "j = k" "j = l" | "j \<noteq> di" "j \<noteq> k" "j \<noteq> l" by blast
      then show ?thesis
      proof cases
        case 1
        then show ?thesis unfolding D using kd q' by simp
      next
        case 2
        then show ?thesis unfolding D using kd ld q' l by simp
      next
        case 3
        then show ?thesis unfolding D using kd q' k uniq_d [OF j l(2) _ l(3)] l(4) by auto
      next
        case 4
        then show ?thesis unfolding D using kd ld q' l k by simp
      next
        case 5
        then show ?thesis unfolding D using q' uniq_ld [OF j k(2) _ k(3)] k(4) uniq_d [OF j l(2) _ l(3)] l(4) by auto
      qed
    qed
  qed
  then show "di_d (p_delinfos pat' j) = (if j = di then q else di_d (p_delinfos pat j))"
    "stat_of pat' j = (if j = di then if q \<in> set (inners t) then DL_PHASE1 else DL_PHASE2
      else if stat_of pat j = DL_PHASE1 \<and> di_d (p_delinfos pat j) = i0 then DL_PHASE2 else stat_of pat j)"
    "stat_of pat' j = DL_PHASE1 \<Longrightarrow>
      di_ld (p_delinfos pat' j) = (if j = di \<or> di_ld (p_delinfos pat j) = q then ow i0 else di_ld (p_delinfos pat j))"
    "di_shared (p_delinfos pat' j) = di_shared (p_delinfos pat j)" by blast+
qed

section \<open>The tree without the record\<close>

lemma path_check_ge: "c0 \<le> path_check key c c0 t" if "increasing c0 t"
  using that
proof (induction t arbitrary: c0)
  case (Inner i k l r)
  have "k \<le> path_check key c k (child key k l r)" using Inner.IH(1) [of k] Inner.IH(2) [of k] Inner.prems by (cases "kbit key k") simp_all
  then show ?case using Inner.prems by auto
qed auto

text \<open>A record below its own inner node: the node is on the path.\<close>

lemma ancestor_check:
  assumes "tree_at N c0 rid t" and "owned ow t" and "distinct (records t)" and "i \<in> set (inners (rest key c t))" and "ow i \<in> set (records (below key c t))"
  shows "pat_node_get_check (N i) \<le> path_check key c c0 t"
  using assms
proof (induction t arbitrary: c0 rid)
  case (Inner j k l r)
  show ?case
  proof (cases "k < c")
    case True
    let ?ch = "child key k l r" and ?ot = "if kbit key k then l else r"
    have t: "tree_at N k (if kbit key k then pn_right (N j) else pn_left (N j)) ?ch" "pat_node_get_check (N j) = k" using Inner.prems(1) by auto
    have pc: "path_check key c c0 (Inner j k l r) = path_check key c k ?ch" using True by simp
    have b: "ow i \<in> set (records (below key c ?ch))" using Inner.prems(5) True by simp
    have "i = j \<or> i \<in> set (inners (rest key c ?ch)) \<or> i \<in> set (inners ?ot)" using Inner.prems(4) True by (auto split: if_splits)
    then show ?thesis
    proof (elim disjE)
      assume "i = j"
      then show ?thesis using path_check_ge [OF tree_at_increasing [OF t(1)], of key c] t(2) pc by simp
    next
      assume "i \<in> set (inners (rest key c ?ch))"
      moreover have "owned ow ?ch" "distinct (records ?ch)" using Inner.prems(2,3) by auto
      ultimately show ?thesis
        using Inner.IH(1) [of k "pn_left (N j)"] Inner.IH(2) [of k "pn_right (N j)"] t(1) b unfolding pc by (cases "kbit key k") simp_all
    next
      assume "i \<in> set (inners ?ot)"
      moreover have "owned ow ?ot" using Inner.prems(2) by auto
      ultimately have "ow i \<in> set (records ?ot)" using owned_member by blast
      moreover have "ow i \<in> set (records ?ch)" using b set_records_split [of ?ch key c] by blast
      ultimately show ?thesis using Inner.prems(3) by (auto split: if_splits)
    qed
  next
    case False
    then show ?thesis using Inner.prems(4) by simp
  qed
qed auto

lemma spliced_tree:
  assumes t: "tree_ok pat t" and below: "below key k t = Inner i0 k l r" and rec: "child key k l r = Record q"
    and S: "S = (if kbit key k then l else r)" and L: "L = insert_location key k root_location t" and sk: "same_keys pat pat'"
    and lnk: "\<And>m d. m \<in> set (inners t) - {i0} \<or> (m, d) = root_location \<Longrightarrow>
      link (p_nodes pat') (m, d) = (if (m, d) = L then link (p_nodes pat) (i0, direction (\<not> kbit key k)) else link (p_nodes pat) (m, d))"
    and chk: "\<And>m. m \<in> members (rest key k t) \<union> set (inners S) \<Longrightarrow> pn_check (p_nodes pat' m) = pn_check (p_nodes pat m)"
    and chk_rec: "\<And>m. m \<in> set (records S) \<Longrightarrow> pn_check (p_nodes pat' m) = pn_check (p_nodes pat m) \<and> S \<noteq> Record m \<or>
      S = Record m \<and> pat_node_get_check (p_nodes pat' m) \<le> path_check key k (- 1) t"
  defines "t' \<equiv> graft key k S t"
  shows "tree_ok pat' t'" and "mset (records t) = add_mset q (mset (records t'))" and "mset (inners t) = add_mset i0 (mset (inners t'))"
proof -
  note T = tree_okD [OF t]
  define R where "R = rest key k t"
  have z: "0 \<notin> members t" by (rule tree_at_members_nonzero [OF T(1)])
  have bs: "tree_at (p_nodes pat) (path_check key k (- 1) t) (link (p_nodes pat) L) (Inner i0 k l r)"
    using tree_at_below [OF T(1), of key k] by (simp only: below L)
  have mI: "mset (inners (Inner i0 k l r)) = add_mset i0 (mset (inners S))" and mR: "mset (records (Inner i0 k l r)) = add_mset q (mset (records S))"
    and memS: "members S \<subseteq> members (Inner i0 k l r)" and trS: "tree_at (p_nodes pat) k (link (p_nodes pat) (i0, direction (\<not> kbit key k))) S"
    using rec bs by (auto simp: S direction_def split: if_splits)
  have memB: "members S \<subseteq> members (below key k t)" using memS unfolding below .
  show mrec: "mset (records t) = add_mset q (mset (records t'))"
    using records_split [of t key k] records_graft [of key k S t] mR unfolding below t'_def by simp
  show minn: "mset (inners t) = add_mset i0 (mset (inners t'))"
    using inners_split [of t key k] inners_graft [of key k S t] mI unfolding below t'_def by simp
  have iset: "set (inners t) = set (inners R) \<union> insert i0 (set (inners S))"

  proof -
    have "set (inners t) = set (inners R) \<union> set (inners (Inner i0 k l r))"
      using set_inners_split [of t key k] unfolding below R_def .
    moreover have "set (inners (Inner i0 k l r)) = insert i0 (set (inners S))" using arg_cong [OF mI, of set_mset] by simp
    ultimately show ?thesis by blast
  qed
  have i0R: "i0 \<notin> set (inners R)" "set (inners R) \<inter> set (inners S) = {}" "i0 \<notin> set (inners S)"
  proof -
    have "distinct (i0 # inners t')" using T(3) mset_eq_imp_distinct_iff [of "inners t" "i0 # inners t'"] minn by simp
    moreover have "set (inners t') = set (inners R) \<union> set (inners S)" unfolding t'_def R_def by (rule set_inners_graft)
    ultimately show "i0 \<notin> set (inners R)" "i0 \<notin> set (inners S)" by auto
    show "set (inners R) \<inter> set (inners S) = {}"
      using distinct_inners_split(3) [OF T(3), of key k] unfolding below S R_def by (auto split: if_splits)
  qed
  have Ln: "L = root_location \<or> fst L \<in> set (inners R)"
    using insert_location_node [of key k root_location t] unfolding L R_def .
  have "tree_at (p_nodes pat') (- 1) (link (p_nodes pat') root_location) t'"
    unfolding t'_def
  proof (rule tree_at_graft [OF T(1,3), where key = key and c = k, folded R_def])
    show "fst root_location \<notin> set (inners t)" using z by auto
    show "link (p_nodes pat') (i, d) = link (p_nodes pat) (i, d)"
      if "i \<in> set (inners R)" "(i, d) \<noteq> insert_location key k root_location t" for i d
    proof -
      have "i \<in> set (inners t) - {i0}" using that(1) i0R(1) unfolding iset by auto
      then show ?thesis using lnk [of i d] that(2) L by auto
    qed
    show "pn_check (p_nodes pat' m) = pn_check (p_nodes pat m)" if "m \<in> members R" for m
      by (rule chk) (use that in \<open>simp add: R_def\<close>)
    show "link (p_nodes pat') root_location = link (p_nodes pat) root_location" if "insert_location key k root_location t \<noteq> root_location"
      using lnk [of 0 DIRECTION_RIGHT] that L by auto
    have LN: "link (p_nodes pat') L = link (p_nodes pat) (i0, direction (\<not> kbit key k))"
    proof -
      have "fst L \<in> set (inners t) - {i0} \<or> (fst L, snd L) = root_location" using Ln i0R(1) unfolding iset by auto
      from lnk [OF this] show ?thesis by simp
    qed
    have kc: "path_check key k (- 1) t < k" using bs by simp
    show "tree_at (p_nodes pat') (path_check key k (- 1) t) (link (p_nodes pat') (insert_location key k root_location t)) S"
    proof (cases S)
      case Empty
      then show ?thesis using trS LN L by simp
    next
      case (Record m)
      then show ?thesis using trS LN L chk_rec [of m] by auto
    next
      case (Inner j k' l' r')
      have "tree_at (p_nodes pat') k (link (p_nodes pat) (i0, direction (\<not> kbit key k))) S"
      proof (rule tree_at_cong [OF trS])
        fix i assume i: "i \<in> set (inners S)"
        have "i \<in> set (inners t) - {i0}" "(i, d) \<noteq> L" for d using i i0R Ln z unfolding iset by auto
        then have "link (p_nodes pat') (i, d) = link (p_nodes pat) (i, d)" for d using lnk [of i d] by auto
        from this [of DIRECTION_LEFT] this [of DIRECTION_RIGHT]
        show "pn_left (p_nodes pat' i) = pn_left (p_nodes pat i) \<and> pn_right (p_nodes pat' i) = pn_right (p_nodes pat i)" by simp
      next
        fix m assume "m \<in> members S"
        then show "pn_check (p_nodes pat' m) = pn_check (p_nodes pat m)" using chk [of m] chk_rec [of m] Inner by blast
      qed
      then have "tree_at (p_nodes pat') (path_check key k (- 1) t) (link (p_nodes pat) (i0, direction (\<not> kbit key k))) S"
        unfolding Inner using kc by auto
      then show ?thesis using LN L by simp
    qed
  qed
  moreover have "key_tree (node_key pat') t'"
  proof -
    have K: "node_key pat' = node_key pat" using same_keys_get_key(2) [OF sk] by blast
    have "key_tree (node_key pat) (Inner i0 k l r)" using key_tree_below [OF T(2), of key k] by (simp only: below)
    then have "key_tree (node_key pat) S" by (auto simp: S)
    then show ?thesis unfolding K t'_def by (rule key_tree_graft [OF T(2) _ memB])
  qed
  moreover have "distinct (q # records t')" using T(4) mset_eq_imp_distinct_iff [of "records t" "q # records t'"] mrec by simp
  moreover have "distinct (i0 # inners t')" using T(3) mset_eq_imp_distinct_iff [of "inners t" "i0 # inners t'"] minn by simp
  moreover have "members t' \<subseteq> ids pat'"
  proof -
    have "members t' \<subseteq> members t" unfolding t'_def by (rule members_graft_subset [OF memB])
    then show ?thesis using T(5) same_keys_ids [OF sk] by blast
  qed
  ultimately show "tree_ok pat' t'" by (simp add: tree_ok_def)
qed

end
