(* ===== verification/PatDelete.thy ===== *)
theory PatDelete
  imports PatDel
begin

text \<open>
  The whole deletion from a patricia trie: the three cases of \<^verbatim>\<open>grn_pat_del_internal\<close>, each of which takes exactly one record out of
  the table, and \<^verbatim>\<open>_grn_pat_del\<close>, which finds the record.
\<close>

section \<open>What every case keeps\<close>

lemma set_cache_removes:
  assumes "pat_inv pat t ow gs" and "content pat q = Some key"
  shows "p_cache (set_cache key GRN_ID_NIL pat) = Some c \<Longrightarrow> q \<notin> set c"
proof
  note i = pat_invD [OF assms(1)]
  have q: "q \<in> set (records t)" "node_key pat q = key" using assms(2) by (simp_all add: content_Some [OF i(2)])
  have q0: "q \<noteq> GRN_ID_NIL" using q(1) tree_okD(5) [OF i(2)] by (auto simp: ids_def)
  assume c: "p_cache (set_cache key GRN_ID_NIL pat) = Some c" and "q \<in> set c"
  then obtain c0 j where c0: "p_cache pat = Some c0" "c = c0[grn_pat_cache_compute_id (length c0) key := GRN_ID_NIL]" and j: "j < length c" "c ! j = q"
    by (auto simp: set_cache_def in_set_conv_nth split: option.splits)
  have ne: "j \<noteq> grn_pat_cache_compute_id (length c0) key"
  proof
    assume "j = grn_pat_cache_compute_id (length c0) key"
    then have "c ! j = GRN_ID_NIL" using c0(2) j(1) by simp
    then show False using j(2) q0 by simp
  qed
  then have "c0 ! j = q" "j < length c0" using c0(2) j by auto
  then have "j = grn_pat_cache_compute_id (length c0) (node_key pat q)" using i(7) c0(1) q0 unfolding cache_ok_def by metis
  then show False using ne q(2) by simp
qed

lemma del_assemble:
  assumes inv: "pat_inv pat t ow gs" and sk: "same_keys pat pat'"
    and tree: "tree_ok pat' t'" and owner: "owner_ok pat' t' ow'" and pend: "pending_ok pat' t' ow'"
    and recs: "mset (records t) = add_mset q (mset (records t'))" and mem: "members t' \<subseteq> members t"
    and cache: "p_cache pat' = p_cache pat" "\<And>c. p_cache pat = Some c \<Longrightarrow> q \<notin> set c"
    and ring: "p_curr_del pat' = p_curr_del pat" "p_curr_del2 pat' = p_curr_del2 pat" "p_curr_del3 pat' = p_curr_del3 pat"
    and misc: "p_garbages pat' = p_garbages pat" "p_truncated pat' = p_truncated pat" "p_with_sis pat' = p_with_sis pat"
      "p_n_entries pat' = p_n_entries pat - 1"
    and di: "in_ring pat di" and q: "q \<in> members t"
    and nodes: "\<And>m. m \<notin> members t \<Longrightarrow> m \<noteq> GRN_ID_NIL \<Longrightarrow> p_nodes pat' m = p_nodes pat m"
    and d: "\<And>j. j < GRN_PAT_NDELINFOS \<Longrightarrow> di_d (p_delinfos pat' j) = (if j = di then q else di_d (p_delinfos pat j))"
    and st: "\<And>j. j < GRN_PAT_NDELINFOS \<Longrightarrow> j = di \<or> stat_of pat' j = stat_of pat j \<or> stat_of pat j = DL_PHASE1 \<and> stat_of pat' j = DL_PHASE2"
    and sh: "\<And>j. j < GRN_PAT_NDELINFOS \<Longrightarrow> di_shared (p_delinfos pat' j) = di_shared (p_delinfos pat j)"
  shows "pat_inv pat' t' ow' gs" and "content pat' = (content pat)(q := None)"
proof -
  note i = pat_invD [OF inv] and r = ring_okD [OF pat_invD(4) [OF inv]]
  have rs: "set (records t) = insert q (set (records t'))" using arg_cong [OF recs, of set_mset] by simp
  have "distinct (q # records t')"
    using tree_okD(4) [OF i(2)] mset_eq_imp_distinct_iff [of "records t" "q # records t'"] recs by simp
  then have qn: "q \<notin> set (records t')" by simp
  have K: "node_key pat' m = node_key pat m" for m by (rule same_keys_get_key(2) [OF sk])
  have "ring_ok pat'"
  proof (rule ring_ok_change [OF i(4) ring])
    show "\<not> di_shared (p_delinfos pat' j)" if "j < GRN_PAT_NDELINFOS" for j using sh [OF that] r(6) [OF that] by simp
    show "stat_of pat' j = stat_of pat j \<or> stat_of pat' j = DL_EMPTY \<or>
      (ring_dist (p_curr_del3 pat) j < ring_dist (p_curr_del3 pat) (p_curr_del pat) \<and>
       (stat_of pat' j = DL_PHASE2 \<or> ring_dist (p_curr_del2 pat) j < ring_dist (p_curr_del2 pat) (p_curr_del pat)))"
      if "j < GRN_PAT_NDELINFOS" for j
      using st [OF that]
    proof (elim disjE conjE)
      assume "j = di"
      then show ?thesis using di by (simp add: in_ring_def)
    next
      assume "stat_of pat j = DL_PHASE1" "stat_of pat' j = DL_PHASE2"
      then show ?thesis using r(7) [OF that] by fastforce
    qed simp
  qed
  moreover have "garbage_ok pat' t' gs"
  proof (rule garbage_ok_frame [OF i(6) sk misc(1) mem nodes])
    show "di_d (p_delinfos pat' j) \<in> members t \<or>
        (\<exists>j' < GRN_PAT_NDELINFOS. stat_of pat j' \<noteq> DL_EMPTY \<and> di_d (p_delinfos pat j') = di_d (p_delinfos pat' j))"
      if "j < GRN_PAT_NDELINFOS" "stat_of pat' j \<noteq> DL_EMPTY" for j
    proof (cases "j = di")
      case True
      then show ?thesis using d [OF that(1)] q by simp
    next
      case False
      then have "stat_of pat j \<noteq> DL_EMPTY" using st [OF that(1)] that(2) by auto
      then show ?thesis using d [OF that(1)] False that(1) by (intro disjI2 exI [of _ j]) simp
    qed
  qed
  moreover have "cache_ok pat' t'"
    unfolding cache_ok_def cache(1) K
  proof (intro allI impI conjI)
    fix c assume c: "p_cache pat = Some c"
    then show "\<exists>n. length c = 2 ^ n \<and> n < 32" using i(7) unfolding cache_ok_def by blast
    fix j assume j: "j < length c" "c ! j \<noteq> GRN_ID_NIL"
    then have "c ! j \<in> set (records t) \<and> j = grn_pat_cache_compute_id (length c) (node_key pat (c ! j))"
      using i(7) c unfolding cache_ok_def by blast
    moreover have "c ! j \<noteq> q" using cache(2) [OF c] j(1) by auto
    ultimately show "c ! j \<in> set (records t')" "j = grn_pat_cache_compute_id (length c) (node_key pat (c ! j))" using rs by auto
  qed
  moreover have "p_n_entries pat' = of_nat (length (records t'))"
    using mset_eq_length [of "records t" "q # records t'"] recs i(8) misc(4) by simp
  ultimately show inv': "pat_inv pat' t' ow' gs"
    using tree owner pend same_keys_store_ok [OF sk i(1)] i(9,10) misc by (simp add: pat_inv_def)
  show "content pat' = (content pat)(q := None)"
    using rs qn by (auto simp: content_def record_ids_tree [OF i(2)] record_ids_tree [OF tree] K fun_eq_iff)
qed

section \<open>A node that leads only to itself\<close>

lemma leaf_tree:
  assumes t: "tree_ok pat t" and below: "below key k t = Inner i0 k l r" and rec: "child key k l r = Record q"
    and sk: "same_keys pat pat'" and chk: "\<And>m. pn_check (p_nodes pat' m) = pn_check (p_nodes pat m)"
    and lnk: "\<And>m d. link (p_nodes pat') (m, d) = (if (m, d) = (i0, direction (kbit key k)) then GRN_ID_NIL else link (p_nodes pat) (m, d))"
  defines "s \<equiv> (if kbit key k then Inner i0 k l Empty else Inner i0 k Empty r)"
  defines "t' \<equiv> graft key k s t"
  shows "tree_ok pat' t'" and "mset (records t) = add_mset q (mset (records t'))" and "mset (inners t') = mset (inners t)"
    and "owned ow t \<Longrightarrow> q \<notin> ow ` set (inners t) \<Longrightarrow> owned ow t'"
proof -
  note T = tree_okD [OF t]
  define R where "R = rest key k t"
  have z: "0 \<notin> members t" by (rule tree_at_members_nonzero [OF T(1)])
  have bs: "tree_at (p_nodes pat) (path_check key k (- 1) t) (link (p_nodes pat) (insert_location key k root_location t)) (Inner i0 k l r)"
    using tree_at_below [OF T(1), of key k] by (simp only: below)
  have mI: "inners s = inners (Inner i0 k l r)" and mR: "mset (records (Inner i0 k l r)) = add_mset q (mset (records s))"
    and memS: "members s \<subseteq> members (Inner i0 k l r)"
    using rec by (auto simp: s_def split: if_splits)
  show mrec: "mset (records t) = add_mset q (mset (records t'))"
    using records_split [of t key k] records_graft [of key k s t] mR unfolding below t'_def by simp
  show minn: "mset (inners t') = mset (inners t)"
    using inners_split [of t key k] inners_graft [of key k s t] mI unfolding below t'_def by simp
  have iset: "set (inners t) = set (inners R) \<union> set (inners (Inner i0 k l r))"
    using set_inners_split [of t key k] unfolding below R_def .
  have dj: "set (inners R) \<inter> set (inners (Inner i0 k l r)) = {}" "distinct (inners (Inner i0 k l r))"
    using distinct_inners_split(3,2) [OF T(3), of key k] unfolding below R_def .
  have same: "link (p_nodes pat') (m, d) = link (p_nodes pat) (m, d)" if "m \<noteq> i0" for m d using lnk [of m d] that by simp
  have "tree_at (p_nodes pat') (- 1) (link (p_nodes pat') root_location) t'"
    unfolding t'_def
  proof (rule tree_at_graft [OF T(1,3), where key = key and c = k, folded R_def])
    show "fst root_location \<notin> set (inners t)" using z by auto
    show "link (p_nodes pat') (i, d) = link (p_nodes pat) (i, d)" if "i \<in> set (inners R)" for i d
      using that dj(1) by (intro same) auto
    show "pn_check (p_nodes pat' m) = pn_check (p_nodes pat m)" for m by (rule chk)
    have i00: "i0 \<noteq> 0" using bs by simp
    show "link (p_nodes pat') root_location = link (p_nodes pat) root_location" using i00 by (intro same) auto
    let ?L = "insert_location key k root_location t"
    have Ln: "?L = root_location \<or> fst ?L \<in> set (inners R)" using insert_location_node [of key k root_location t] unfolding R_def .
    have "fst ?L \<noteq> i0" using Ln dj(1) i00 by auto
    then have LN: "link (p_nodes pat') ?L = link (p_nodes pat) ?L" using same [of "fst ?L" "snd ?L"] by simp
    have sub: "tree_at (p_nodes pat') k rid s'" if "tree_at (p_nodes pat) k rid s'" "i0 \<notin> set (inners s')" for rid s'
    proof (rule tree_at_cong [OF that(1)])
      fix i assume "i \<in> set (inners s')"
      then have "i \<noteq> i0" using that(2) by auto
      then show "pn_left (p_nodes pat' i) = pn_left (p_nodes pat i) \<and> pn_right (p_nodes pat' i) = pn_right (p_nodes pat i)"
        using same [of i DIRECTION_LEFT] same [of i DIRECTION_RIGHT] by simp
    qed (rule chk)
    have lr: "pn_left (p_nodes pat' i0) = (if kbit key k then pn_left (p_nodes pat i0) else 0)"
      "pn_right (p_nodes pat' i0) = (if kbit key k then 0 else pn_right (p_nodes pat i0))"
      using lnk [of i0 DIRECTION_LEFT] lnk [of i0 DIRECTION_RIGHT] by (simp_all add: direction_def)
    have "pat_node_get_check (p_nodes pat' i0) = k" using bs chk [of i0] by (simp add: pat_node_get_check_def)
    then show "tree_at (p_nodes pat') (path_check key k (- 1) t) (link (p_nodes pat') ?L) s"
      using bs sub [of _ l] sub [of _ r] dj(2) unfolding LN s_def by (cases "kbit key k") (simp_all add: lr)
  qed
  moreover have "key_tree (node_key pat') t'"
  proof -
    have K: "node_key pat' = node_key pat" using same_keys_get_key(2) [OF sk] by blast
    have "key_tree (node_key pat) (Inner i0 k l r)" using key_tree_below [OF T(2), of key k] by (simp only: below)
    then have ks: "key_tree (node_key pat) s" by (auto simp: s_def)
    show ?thesis unfolding K t'_def by (rule key_tree_graft [OF T(2) ks]) (use memS in \<open>simp only: below\<close>)
  qed
  moreover have "distinct (q # records t')" using T(4) mset_eq_imp_distinct_iff [of "records t" "q # records t'"] mrec by simp
  moreover have "distinct (inners t')" using T(3) mset_eq_imp_distinct_iff [OF minn] by simp
  moreover have "members t' \<subseteq> members t" unfolding t'_def by (rule members_graft_subset) (use memS in \<open>simp only: below\<close>)
  ultimately show "tree_ok pat' t'" using T(5) same_keys_ids [OF sk] by (auto simp: tree_ok_def)
  assume own: "owned ow t" and q: "q \<notin> ow ` set (inners t)"
  have ob: "owned ow (Inner i0 k l r)" using owned_below [OF own, of key k] unfolding below .
  have rr: "set (records (Inner i0 k l r)) = insert q (set (records s))" using arg_cong [OF mR, of set_mset] by simp
  have nq: "ow i \<noteq> q" if "i \<in> set (inners t)" for i using q that by auto
  show "owned ow t'"
    unfolding t'_def
  proof (rule owned_graft [OF own _ _ T(4), where key = key and c = k, folded R_def, unfolded below])
    have "ow i0 \<in> set (records (Inner i0 k l r))" using ob by simp
    then have "ow i0 \<in> set (records s)" using rr nq [of i0] iset by auto
    then show "owned ow s" using ob unfolding s_def by (auto split: if_splits)
    show "if ow i \<in> set (records (Inner i0 k l r)) then ow i \<in> set (records s) else ow i = ow i" if "i \<in> set (inners R)" for i
      using rr nq [of i] that iset by auto
  qed
qed

section \<open>Taking an inner node out\<close>

text \<open>
  The facts about the place of a record: \<open>q\<close> is the record, \<open>i0\<close> the inner node above it with the check \<open>k\<close>, \<open>L\<close> the link to that node,
  \<open>S\<close> what is on the other side of it and \<open>c0\<close> the check of the node before.
\<close>

definition del_at :: "grn_pat \<Rightarrow> ptree \<Rightarrow> byte list \<Rightarrow> grn_id \<Rightarrow> grn_id \<Rightarrow> int \<Rightarrow> id_location \<Rightarrow> ptree \<Rightarrow> int \<Rightarrow> bool" where
  "del_at pat t key q i0 k L S c0 \<longleftrightarrow> node_key pat q = key \<and> q \<in> set (records t) \<and> 0 \<le> k \<and> k < klen key \<and> k < 0x10000 \<and>
     (\<exists>l r. below key k t = Inner i0 k l r \<and> child key k l r = Record q \<and> S = (if kbit key k then l else r)) \<and>
     L = insert_location key k root_location t \<and> c0 = path_check key k (- 1) t"

lemma del_at_obtain:
  assumes "del_at pat t key q i0 k L S c0"
  obtains l r where "below key k t = Inner i0 k l r" and "child key k l r = Record q" and "S = (if kbit key k then l else r)"
  using assms unfolding del_at_def by blast

lemma size_below: "size (below key c t) \<le> size t"
  by (induction t) auto

lemma insert_location_nonzero:
  assumes "fst loc \<noteq> 0" and "0 \<notin> members t"
  shows "fst (insert_location key c loc t) \<noteq> 0"
  using insert_location_node [of key c loc t] assms set_inners_split [of t key c] by (metis UnCI)

lemma del_at_facts:
  assumes at: "del_at pat t key q i0 k L S c0" and t: "tree_ok pat t"
  shows "i0 \<in> set (inners t)" and "q \<noteq> GRN_ID_NIL" and "link (p_nodes pat) (i0, direction (kbit key k)) = q"
    and "tree_at (p_nodes pat) k (link (p_nodes pat) (i0, direction (\<not> kbit key k))) S"
    and "link (p_nodes pat) L = i0" and "L = root_location \<or> fst L \<in> set (inners (rest key k t))"
    and "fst L \<noteq> i0" and "fst L \<in> set (inners t) \<or> L = root_location" and "members S \<subseteq> members t"
    and "L = root_location \<longleftrightarrow> c0 = - 1" and "- 1 \<le> c0" and "c0 < k" and "q \<notin> set (records S)"
    and "L = root_location \<Longrightarrow> inners t = i0 # inners S \<and> rest key k t = Empty \<and> set (records t) = insert q (set (records S))"
proof -
  obtain l r where b: "below key k t = Inner i0 k l r" "child key k l r = Record q" "S = (if kbit key k then l else r)"
    using at by (rule del_at_obtain)
  note T = tree_okD [OF t]
  have z: "0 \<notin> members t" by (rule tree_at_members_nonzero [OF T(1)])
  have L: "L = insert_location key k root_location t" and c0: "c0 = path_check key k (- 1) t" using at by (simp_all add: del_at_def)
  have bs: "tree_at (p_nodes pat) c0 (link (p_nodes pat) L) (Inner i0 k l r)"
    using tree_at_below [OF T(1), of key k] by (simp only: b L c0)
  have sub: "set (inners (Inner i0 k l r)) \<subseteq> set (inners t)" "set (records (Inner i0 k l r)) \<subseteq> set (records t)"
    using set_inners_split [of t key k] set_records_split [of t key k] unfolding b by blast+
  show "i0 \<in> set (inners t)" using sub(1) by auto
  show "q \<noteq> GRN_ID_NIL" using at z by (auto simp: del_at_def)
  show "link (p_nodes pat) (i0, direction (kbit key k)) = q" "tree_at (p_nodes pat) k (link (p_nodes pat) (i0, direction (\<not> kbit key k))) S"
    "link (p_nodes pat) L = i0" "c0 < k" using bs b(2,3) by (auto simp: direction_def split: if_splits)
  show Ln: "L = root_location \<or> fst L \<in> set (inners (rest key k t))" using insert_location_node [of key k root_location t] unfolding L .
  have dj: "set (inners (rest key k t)) \<inter> set (inners (Inner i0 k l r)) = {}" using distinct_inners_split(3) [OF T(3), of key k] unfolding b .
  have i00: "i0 \<noteq> 0" using bs by simp
  show "fst L \<noteq> i0" using Ln dj i00 by auto
  have rin: "set (inners (rest key k t)) \<subseteq> set (inners t)" using set_inners_split [of t key k] by blast
  then show "fst L \<in> set (inners t) \<or> L = root_location" using Ln by blast
  show "members S \<subseteq> members t" using sub b(3) by (auto split: if_splits)
  show "- 1 \<le> c0" unfolding c0 by (rule path_check_ge [OF tree_at_increasing [OF T(1)]])
  show "q \<notin> set (records S)"
    using distinct_records_split(2) [OF T(4), of key k] b(2,3) unfolding b(1) by (auto split: if_splits)
  have root: "(L = root_location \<longleftrightarrow> below key k t = t) \<and> (c0 = - 1 \<longleftrightarrow> below key k t = t)"
  proof (cases t)
    case ti: (Inner i k' l' r')
    have k': "0 \<le> k'" "i \<noteq> 0" using T(1) unfolding ti by auto
    let ?ch = "child key k' l' r'" and ?loc = "(i, direction (kbit key k'))"
    show ?thesis
    proof (cases "k' < k")
      case True
      have "0 \<notin> members ?ch" using z unfolding ti by (auto split: if_splits)
      then have "fst (insert_location key k ?loc ?ch) \<noteq> 0" using insert_location_nonzero [of ?loc ?ch key k] k'(2) by simp
      then have "L \<noteq> root_location" unfolding L ti using True by auto
      moreover have "increasing k' ?ch" using tree_at_increasing [OF T(1)] unfolding ti by simp
      then have "k' \<le> path_check key k k' ?ch" by (rule path_check_ge)
      then have "c0 \<noteq> - 1" unfolding c0 ti using True k' by simp
      moreover have "size (below key k t) < size t" using size_below [of key k ?ch] True unfolding ti by (auto split: if_splits)
      ultimately show ?thesis by auto
    next
      case False
      then show ?thesis unfolding L c0 ti by simp
    qed
  qed (use b(1) in auto)
  then show "L = root_location \<longleftrightarrow> c0 = - 1" by blast
  assume "L = root_location"
  then have "t = Inner i0 k l r" using root b(1) by simp
  then show "inners t = i0 # inners S \<and> rest key k t = Empty \<and> set (records t) = insert q (set (records S))" using b(2,3) by (auto split: if_splits)
qed

lemma del_at_members:
  assumes at: "del_at pat t key q i0 k L S c0" and t: "tree_ok pat t"
  shows "set (records (graft key k S t)) \<subseteq> set (records t) - {q}" and "set (inners (graft key k S t)) \<subseteq> set (inners t) - {i0}"
proof -
  note T = tree_okD [OF t]
  obtain l r where b: "below key k t = Inner i0 k l r" "child key k l r = Record q" "S = (if kbit key k then l else r)"
    using at by (rule del_at_obtain)
  have m: "mset (inners (Inner i0 k l r)) = add_mset i0 (mset (inners S))" "mset (records (Inner i0 k l r)) = add_mset q (mset (records S))"
    using b(2,3) by (auto split: if_splits)
  have "mset (records t) = mset (q # records (graft key k S t))"
    using records_split [of t key k] records_graft [of key k S t] m(2) unfolding b(1) by simp
  from mset_eq_setD [OF this] mset_eq_imp_distinct_iff [OF this] T(4)
  show "set (records (graft key k S t)) \<subseteq> set (records t) - {q}" by auto
  have "mset (inners t) = mset (i0 # inners (graft key k S t))"
    using inners_split [of t key k] inners_graft [of key k S t] m(1) unfolding b(1) by simp
  from mset_eq_setD [OF this] mset_eq_imp_distinct_iff [OF this] T(3)
  show "set (inners (graft key k S t)) \<subseteq> set (inners t) - {i0}" by auto
qed

text \<open>When the check of the record on the other side is set to zero.\<close>

definition resets :: "grn_pat \<Rightarrow> grn_id \<Rightarrow> grn_id \<Rightarrow> int \<Rightarrow> int \<Rightarrow> bool" where
  "resets pat x i0 c0 k \<longleftrightarrow> x \<noteq> GRN_ID_NIL \<and>
     (x = i0 \<or> c0 < pat_node_get_check (p_nodes pat x) \<and> pat_node_get_check (p_nodes pat x) \<le> k)"

lemma resets_record:
  assumes at: "del_at pat t key q i0 k L S c0" and t: "tree_ok pat t" and own: "owner_ok pat t ow"
    and x: "x = link (p_nodes pat) (i0, direction (\<not> kbit key k))" and re: "resets pat x i0 c0 k" and nr: "L \<noteq> root_location"
  shows "S = Record x" and "x \<notin> members (rest key k t)"
proof -
  note f = del_at_facts [OF at t] and T = tree_okD [OF t] and o = owner_okD [OF own]
  obtain l r where b: "below key k t = Inner i0 k l r" "child key k l r = Record q" "S = (if kbit key k then l else r)"
    using at by (rule del_at_obtain)
  have x0: "x \<noteq> 0" using re by (simp add: resets_def)
  have cx: "pat_node_get_check (p_nodes pat x) \<le> k"
  proof (cases "x = i0")
    case True
    have "tree_at (p_nodes pat) c0 (link (p_nodes pat) L) (Inner i0 k l r)"
      using tree_at_below [OF T(1), of key k] at by (simp add: b del_at_def)
    then show ?thesis using True by simp
  qed (use re in \<open>auto simp: resets_def\<close>)
  show S: "S = Record x" using f(4) cx x0 by (cases S) (auto simp: x)
  have xr: "x \<in> set (records (below key k t))" using S b by (auto split: if_splits)
  have xt: "x \<in> set (records t)" using xr set_records_split [of t key k] by blast
  have "x \<notin> set (inners (rest key k t))"
  proof
    assume i: "x \<in> set (inners (rest key k t))"
    have it: "x \<in> set (inners t)" using i set_inners_split [of t key k] by blast
    have "ow x = x" using o(3) [OF it] xt by blast
    then have "pat_node_get_check (p_nodes pat x) \<le> c0"
      using ancestor_check [OF T(1) o(1) T(4) i] xr at by (simp add: del_at_def)
    moreover have "x \<noteq> i0" using distinct_inners_split(3) [OF T(3), of key k] i unfolding b by auto
    ultimately show False using re by (simp add: resets_def)
  qed
  moreover have "x \<notin> set (records (rest key k t))" using distinct_records_split(3) [OF T(4), of key k] xr by blast
  ultimately show "x \<notin> members (rest key k t)" by blast
qed

text \<open>The parts of the table that no case touches, and the entries of the ring.\<close>

definition del_frame :: "grn_pat \<Rightarrow> grn_pat \<Rightarrow> ptree \<Rightarrow> bool" where
  "del_frame pat pat' t \<longleftrightarrow> same_keys pat pat' \<and> p_cache pat' = p_cache pat \<and> p_curr_del pat' = p_curr_del pat \<and>
     p_curr_del2 pat' = p_curr_del2 pat \<and> p_curr_del3 pat' = p_curr_del3 pat \<and> p_garbages pat' = p_garbages pat \<and>
     p_truncated pat' = p_truncated pat \<and> p_with_sis pat' = p_with_sis pat \<and> p_n_entries pat' = p_n_entries pat - 1 \<and>
     (\<forall>m. m \<notin> members t \<longrightarrow> m \<noteq> GRN_ID_NIL \<longrightarrow> p_nodes pat' m = p_nodes pat m)"

lemma splice_inv:
  assumes inv: "pat_inv pat t ow gs" and at: "del_at pat t key q i0 k L S c0" and frame: "del_frame pat pat' t"
    and cache: "\<And>c. p_cache pat = Some c \<Longrightarrow> q \<notin> set c" and q: "q \<in> ow ` set (inners t)"
    and x: "x = link (p_nodes pat) (i0, direction (\<not> kbit key k))" and S: "L = root_location \<Longrightarrow> S \<noteq> Record x"
    and lnk: "\<And>m d. link (p_nodes pat') (m, d) = (if (m, d) = L then x else link (p_nodes pat) (m, d))"
    and chk: "\<And>m. pn_check (p_nodes pat' m) = (if m = x \<and> L \<noteq> root_location \<and> resets pat x i0 c0 k then 0 else pn_check (p_nodes pat m))"
    and di: "in_ring pat di" "stat_of pat di = DL_EMPTY"
    and d: "\<And>j. j < GRN_PAT_NDELINFOS \<Longrightarrow> di_d (p_delinfos pat' j) = (if j = di then q else di_d (p_delinfos pat j))"
    and st: "\<And>j. j < GRN_PAT_NDELINFOS \<Longrightarrow> stat_of pat' j = (if j = di then if q \<in> set (inners t) \<and> q \<noteq> i0 then DL_PHASE1 else DL_PHASE2
      else if stat_of pat j = DL_PHASE1 \<and> di_d (p_delinfos pat j) = i0 then DL_PHASE2 else stat_of pat j)"
    and ld: "\<And>j. j < GRN_PAT_NDELINFOS \<Longrightarrow> stat_of pat' j = DL_PHASE1 \<Longrightarrow>
      di_ld (p_delinfos pat' j) = (if j = di \<or> di_ld (p_delinfos pat j) = q then ow i0 else di_ld (p_delinfos pat j))"
    and sh: "\<And>j. j < GRN_PAT_NDELINFOS \<Longrightarrow> di_shared (p_delinfos pat' j) = di_shared (p_delinfos pat j)"
    and del: "\<And>m. m \<in> members (graft key k S t) \<Longrightarrow>
      pat_node_is_deleting (p_nodes pat' m) \<longleftrightarrow> m = q \<or> m = i0 \<or> pat_node_is_deleting (p_nodes pat m)"
  shows "pat_ok pat'" and "content pat' = (content pat)(q := None)"
proof -
  note i = pat_invD [OF inv]
  note f = del_at_facts [OF at i(2)] and T = tree_okD [OF i(2)] and o = owner_okD [OF i(3)]
  obtain l r where b: "below key k t = Inner i0 k l r" "child key k l r = Record q" "S = (if kbit key k then l else r)"
    using at by (rule del_at_obtain)
  have L: "L = insert_location key k root_location t" and c0: "c0 = path_check key k (- 1) t" and qr: "q \<in> set (records t)"
    using at by (simp_all add: del_at_def)
  have sk: "same_keys pat pat'" using frame by (simp add: del_frame_def)
  have z: "0 \<notin> members t" by (rule tree_at_members_nonzero [OF T(1)])
  define t' where "t' = graft key k S t"
  have same: "pn_check (p_nodes pat' m) = pn_check (p_nodes pat m)" if "m \<in> members (rest key k t) \<union> set (inners S)" for m
  proof (cases "m = x \<and> L \<noteq> root_location \<and> resets pat x i0 c0 k")
    case True
    then have "S = Record x" "x \<notin> members (rest key k t)" using resets_record [OF at i(2,3) x] by blast+
    then show ?thesis using that True by simp
  next
    case False
    then show ?thesis using chk [of m] by (simp only: if_False)
  qed
  have same_rec: "pn_check (p_nodes pat' m) = pn_check (p_nodes pat m) \<and> S \<noteq> Record m \<or>
      S = Record m \<and> pat_node_get_check (p_nodes pat' m) \<le> path_check key k (- 1) t" if m: "m \<in> set (records S)" for m
  proof (cases "S = Record m")
    case True
    then have mx: "m = x" and x0: "x \<noteq> 0" and cm: "pat_node_get_check (p_nodes pat m) \<le> k" using f(4) x by auto
    have nr: "L \<noteq> root_location" using S True mx by auto
    then have c00: "0 \<le> c0" using f(10,11) by auto
    have "pat_node_get_check (p_nodes pat' m) \<le> c0"
    proof (cases "resets pat x i0 c0 k")
      case True
      then show ?thesis using chk [of m] mx nr c00 by (simp add: pat_node_get_check_def)
    next
      case False
      then have "\<not> c0 < pat_node_get_check (p_nodes pat x)" using x0 cm mx by (auto simp: resets_def)
      then show ?thesis using chk [of m] False mx by (simp add: pat_node_get_check_def)
    qed
    then show ?thesis using True c0 by simp
  next
    case False
    have "\<not> (m = x \<and> L \<noteq> root_location \<and> resets pat x i0 c0 k)" using resets_record(1) [OF at i(2,3) x] False by auto
    then show ?thesis using chk [of m] False by (simp only: if_False simp_thms)
  qed
  note tr = spliced_tree [OF i(2) b L sk _ same same_rec, folded t'_def x]
  have tree: "tree_ok pat' t'" and mrec: "mset (records t) = add_mset q (mset (records t'))"
    and minn: "mset (inners t) = add_mset i0 (mset (inners t'))" using tr lnk by auto
  have dq: "q \<notin> set (records t')" "i0 \<notin> set (inners t')"
    using T(3,4) mset_eq_imp_distinct_iff [of "records t" "q # records t'"] mset_eq_imp_distinct_iff [of "inners t" "i0 # inners t'"] mrec minn
    by simp_all
  have rs: "set (records t') = set (records t) - {q}" "set (inners t') = set (inners t) - {i0}"
    using arg_cong [OF mrec, of set_mset] arg_cong [OF minn, of set_mset] dq by auto
  have links: "link (p_nodes pat') (m, d) = link (p_nodes pat) (m, d)" if "m \<in> set (records t)" "m \<notin> set (inners t) - {i0}" for m d
  proof -
    have "fst L \<noteq> m" using f(7,8) that z by auto
    then show ?thesis using lnk [of m d] by auto
  qed
  have owner: "owner_ok pat' t' (heir ow q i0)"
  proof (rule spliced_owner [OF i(3) T(4) b t'_def rs(2,1) f(1) q links])
    show "\<not> self_loop i0 (p_nodes pat i0)" if "q \<noteq> i0"
      using f(2,3) that by (cases "kbit key k") (auto simp: self_loop_def link_direction)
    show "leaf_ok pat' m" if m: "m \<in> set (records t)" "m \<notin> set (inners t)" "leaf_ok pat m" for m
    proof -
      have lk: "link (p_nodes pat') (m, d) = link (p_nodes pat) (m, d)" for d by (rule links) (use m in auto)
      have self: "self_loop m (p_nodes pat' m)"
        using m(3) lk [of DIRECTION_LEFT] lk [of DIRECTION_RIGHT] by (simp add: leaf_ok_def self_loop_def)
      have "pn_check (p_nodes pat' m) = 0 \<or> pn_check (p_nodes pat' m) = pn_check (p_nodes pat m)" using chk [of m] by auto
      moreover have "0 < klen (node_key pat m)" using klen_pos [OF store_ok_readable(2) [OF i(1)]] m(1) T(5) by fastforce
      ultimately show ?thesis
        using m(3) self unfolding leaf_ok_def same_keys_get_key(2) [OF sk] lk by (auto simp: pat_node_get_check_def)
    qed
  qed
  have pend: "pending_ok pat' t' (heir ow q i0)"
    by (rule spliced_pending [OF i(3,5) same_keys_ids [OF sk] T(5) rs(2,1) f(1) qr q _ di(2) d st ld del])
      (use di(1) in \<open>simp_all add: in_ring_def t'_def\<close>)
  have mem: "members t' \<subseteq> members t" using rs by auto
  have fr: "p_cache pat' = p_cache pat" "p_curr_del pat' = p_curr_del pat" "p_curr_del2 pat' = p_curr_del2 pat"
    "p_curr_del3 pat' = p_curr_del3 pat" "p_garbages pat' = p_garbages pat" "p_truncated pat' = p_truncated pat" "p_with_sis pat' = p_with_sis pat"
    "p_n_entries pat' = p_n_entries pat - 1" "\<And>m. m \<notin> members t \<Longrightarrow> m \<noteq> GRN_ID_NIL \<Longrightarrow> p_nodes pat' m = p_nodes pat m"
    using frame by (simp_all add: del_frame_def)
  have stat: "j = di \<or> stat_of pat' j = stat_of pat j \<or> stat_of pat j = DL_PHASE1 \<and> stat_of pat' j = DL_PHASE2"
    if "j < GRN_PAT_NDELINFOS" for j using st [OF that] by auto
  have qm: "q \<in> members t" using qr by simp
  note as = del_assemble [OF inv sk tree owner pend mrec mem fr(1) cache fr(2-8) di(1) qm fr(9) d stat sh]
  show "pat_ok pat'" using as(1) by (auto simp: pat_ok_def)
  show "content pat' = (content pat)(q := None)" by (rule as(2))
qed

section \<open>The other cases\<close>

lemma below_below: "c \<le> c' \<Longrightarrow> below key c' (below key c t) = below key c' t"
  by (induction t) auto

lemma self_loop_inner:
  assumes at: "del_at pat t key q i0 k L S c0" and t: "tree_ok pat t" and own: "owner_ok pat t ow"
    and loop: "self_loop q (p_nodes pat q)" and ne: "q \<noteq> i0"
  shows "q \<notin> ow ` set (inners t)"
proof
  note T = tree_okD [OF t] and o = owner_okD [OF own]
  have qr: "q \<in> set (records t)" and K: "node_key pat q = key" using at by (simp_all add: del_at_def)
  obtain l r where b: "below key k t = Inner i0 k l r" "child key k l r = Record q" using at by (rule del_at_obtain)
  assume "q \<in> ow ` set (inners t)"
  then obtain i where i: "i \<in> set (inners t)" "ow i = q" by auto
  then have "i = q" using o(5) [OF i(1)] loop by metis
  then have qi: "q \<in> set (inners t)" "ow q = q" using i by auto
  obtain kq l' r' where bq: "below key kq t = Inner q kq l' r'"
    using below_inner_node [OF T(2) tree_at_increasing [OF T(1)] qi(1) T(3)] unfolding K by blast
  have "tree_at (p_nodes pat) (path_check key kq (- 1) t) (link (p_nodes pat) (insert_location key kq root_location t)) (Inner q kq l' r')"
    using tree_at_below [OF T(1), of key kq] by (simp only: bq)
  then have q0: "q \<noteq> 0" "pat_node_get_check (p_nodes pat q) = kq" "tree_at (p_nodes pat) kq (pn_left (p_nodes pat q)) l'"
    "tree_at (p_nodes pat) kq (pn_right (p_nodes pat q)) r'" by auto
  have rq: "s = Record q" if "tree_at (p_nodes pat) kq q s" for s using that q0 by (cases s) auto
  have "key_tree (node_key pat) (Inner q kq l' r')" using key_tree_below [OF T(2), of key kq] by (simp only: bq)
  then have ch: "child key kq l' r' = Record q"
    using loop q0(3,4) rq [of l'] rq [of r'] K unfolding self_loop_def by (auto simp: K)
  have "k = kq"
  proof (rule ccontr)
    assume "k \<noteq> kq"
    then consider "k < kq" | "kq < k" by linarith
    then show False
    proof cases
      case 1
      then have "below key kq t = below key kq (Inner i0 k l r)" using below_below [of k kq key t] b(1) by simp
      also have "\<dots> = Record q" using 1 b(2) by simp
      finally show False using bq by simp
    next
      case 2
      then have "below key k t = below key k (Inner q kq l' r')" using below_below [of kq k key t] bq by simp
      also have "\<dots> = Record q" using 2 ch by simp
      finally show False using b(1) by simp
    qed
  qed
  then show False using bq b(1) ne by simp
qed

lemma leaf_inv:
  assumes inv: "pat_inv pat t ow gs" and at: "del_at pat t key q i0 k L S c0" and frame: "del_frame pat pat' t"
    and cache: "\<And>c. p_cache pat = Some c \<Longrightarrow> q \<notin> set c" and ne: "q \<noteq> i0" and loop: "self_loop q (p_nodes pat q)"
    and nodes: "p_nodes pat' = (p_nodes pat)(i0 := pat_node_set_child (direction (kbit key k)) GRN_ID_NIL (p_nodes pat i0))"
    and di: "in_ring pat di" "stat_of pat di = DL_EMPTY"
    and infos: "p_delinfos pat' = (p_delinfos pat)(di := (p_delinfos pat di)\<lparr>di_stat := DL_PHASE2, di_d := q\<rparr>)"
  shows "pat_ok pat'" and "content pat' = (content pat)(q := None)"
proof -
  note i = pat_invD [OF inv]
  note f = del_at_facts [OF at i(2)] and T = tree_okD [OF i(2)] and o = owner_okD [OF i(3)]
  obtain l r where b: "below key k t = Inner i0 k l r" "child key k l r = Record q" using at by (rule del_at_obtain)
  have qr: "q \<in> set (records t)" using at by (simp add: del_at_def)
  have sk: "same_keys pat pat'" using frame by (simp add: del_frame_def)
  have qo: "q \<notin> ow ` set (inners t)" by (rule self_loop_inner [OF at i(2,3) loop ne])
  have qi: "q \<notin> set (inners t)" by (rule o(8) [OF qr qo])
  have chk: "pn_check (p_nodes pat' m) = pn_check (p_nodes pat m)" "pn_bits (p_nodes pat' m) = pn_bits (p_nodes pat m)" for m
    by (simp_all add: nodes)
  have lnk: "link (p_nodes pat') (m, d) = (if (m, d) = (i0, direction (kbit key k)) then GRN_ID_NIL else link (p_nodes pat) (m, d))" for m d
    by (cases d; cases "kbit key k") (auto simp: nodes pat_node_set_child_def direction_def)
  define s where "s = (if kbit key k then Inner i0 k l Empty else Inner i0 k Empty r)"
  define t' where "t' = graft key k s t"
  note tr = leaf_tree [OF i(2) b sk chk(1) lnk, folded s_def, folded t'_def]
  have ii: "set (inners t') = set (inners t)" by (rule mset_eq_setD [OF tr(3)])
  have rr: "set (records t) = insert q (set (records t'))" using arg_cong [OF tr(2), of set_mset] by simp
  have K: "node_key pat' m = node_key pat m" for m by (rule same_keys_get_key(2) [OF sk])
  have out: "p_nodes pat' m = p_nodes pat m" if "m \<notin> set (inners t)" for m using that f(1) by (auto simp: nodes)
  have "owned ow t'" by (rule tr(4) [OF o(1) qo])
  moreover have "m \<notin> set (records t') \<and> ow m \<notin> set (inners t') \<and> \<not> self_loop (ow m) (p_nodes pat' (ow m))"
    if "m \<in> set (inners t')" "ow m \<noteq> m" for m
    using o(3,4,5) [of m] out [of "ow m"] that unfolding ii rr by auto
  moreover have "leaf_ok pat' m" if "m \<in> set (records t')" "m \<notin> ow ` set (inners t')" for m
  proof -
    have m: "m \<in> set (records t)" "m \<notin> ow ` set (inners t)" using that rr ii by auto
    show ?thesis using leaf_ok_cong [OF out [OF o(8) [OF m]] K] o(6) [OF m] by blast
  qed
  ultimately have owner: "owner_ok pat' t' ow" using o(2) unfolding owner_ok_def ii by blast
  have d: "di_d (p_delinfos pat' j) = (if j = di then q else di_d (p_delinfos pat j))" for j by (simp add: infos)
  have st: "stat_of pat' j = (if j = di then DL_PHASE2 else stat_of pat j)" "di_shared (p_delinfos pat' j) = di_shared (p_delinfos pat j)" for j
    by (simp_all add: infos)
  have pend: "pending_ok pat' t' ow"
  proof -
    note p = pending_okD [OF i(5)] and din = di(1) [unfolded in_ring_def]
    have ph1: "stat_of pat' j = DL_PHASE1 \<longleftrightarrow> stat_of pat j = DL_PHASE1" for j using di(2) by (simp add: st)
    have same: "p_delinfos pat' j = p_delinfos pat j" if "stat_of pat j = DL_PHASE1" for j using that di(2) by (auto simp: infos)
    have q_new: "di_d (p_delinfos pat j) \<noteq> q" if "j < GRN_PAT_NDELINFOS" "stat_of pat j \<noteq> DL_EMPTY" for j
      using that p(1,6) [OF that(1)] qi qr by (cases "stat_of pat j") auto
    show ?thesis
      unfolding pending_ok_def
    proof (intro conjI allI ballI impI)
      fix j assume "j < GRN_PAT_NDELINFOS" "stat_of pat' j = DL_PHASE1"
      then have j: "j < GRN_PAT_NDELINFOS" "stat_of pat j = DL_PHASE1" by (simp_all add: ph1)
      show "di_d (p_delinfos pat' j) \<in> set (inners t')" "ow (di_d (p_delinfos pat' j)) = di_ld (p_delinfos pat' j)"
        "di_ld (p_delinfos pat' j) \<noteq> di_d (p_delinfos pat' j)" unfolding same [OF j(2)] ii by (fact p(1,2,3) [OF j])+
    next
      fix m assume "m \<in> set (inners t')" "ow m \<noteq> m"
      then obtain j where j: "j < GRN_PAT_NDELINFOS" "stat_of pat j = DL_PHASE1" "di_d (p_delinfos pat j) = m" using p(4) ii by blast
      then show "\<exists>j < GRN_PAT_NDELINFOS. stat_of pat' j = DL_PHASE1 \<and> di_d (p_delinfos pat' j) = m"
        using same [OF j(2)] by (intro exI [of _ j]) simp
    next
      fix j assume j: "j < GRN_PAT_NDELINFOS" "stat_of pat' j = DL_PHASE2"
      have "di_d (p_delinfos pat' j) \<in> ids pat \<and> di_d (p_delinfos pat' j) \<notin> members t'"
      proof (cases "j = di")
        case True
        have "q \<notin> set (records t')" using T(4) mset_eq_imp_distinct_iff [of "records t" "q # records t'"] tr(2) by simp
        then show ?thesis using True qr T(5) qi by (auto simp: d ii)
      next
        case False
        then show ?thesis using j p(5,6) [OF j(1)] rr by (auto simp: d st ii)
      qed
      then show "di_d (p_delinfos pat' j) \<in> ids pat'" "di_d (p_delinfos pat' j) \<notin> members t'" using same_keys_ids [OF sk] by auto
    next
      fix j j' assume a: "j < GRN_PAT_NDELINFOS" "j' < GRN_PAT_NDELINFOS" "stat_of pat' j \<noteq> DL_EMPTY" "stat_of pat' j' \<noteq> DL_EMPTY"
        "di_d (p_delinfos pat' j) = di_d (p_delinfos pat' j')"
      show "j = j'"
        using a p(7) [OF a(1,2)] q_new [OF a(1)] q_new [OF a(2)] by (cases "j = di"; cases "j' = di") (simp_all add: d st)
    next
      fix m assume "m \<in> members t'"
      then have m: "m \<in> members t" using ii rr by auto
      have fl: "pat_node_is_deleting (p_nodes pat' m) = pat_node_is_deleting (p_nodes pat m)" using chk(2) [of m] by (simp add: pat_node_is_deleting_def)
      have "(\<exists>j < GRN_PAT_NDELINFOS. stat_of pat' j = DL_PHASE1 \<and> (di_d (p_delinfos pat' j) = m \<or> di_ld (p_delinfos pat' j) = m)) \<longleftrightarrow>
        (\<exists>j < GRN_PAT_NDELINFOS. stat_of pat j = DL_PHASE1 \<and> (di_d (p_delinfos pat j) = m \<or> di_ld (p_delinfos pat j) = m))"
        by (intro ex_cong1 conj_cong refl) (auto simp: ph1 same)
      then show "pat_node_is_deleting (p_nodes pat' m) \<longleftrightarrow>
        (\<exists>j < GRN_PAT_NDELINFOS. stat_of pat' j = DL_PHASE1 \<and> (di_d (p_delinfos pat' j) = m \<or> di_ld (p_delinfos pat' j) = m))"
        using p(8) [OF m] fl by simp
    qed
  qed
  have fr: "p_cache pat' = p_cache pat" "p_curr_del pat' = p_curr_del pat" "p_curr_del2 pat' = p_curr_del2 pat"
    "p_curr_del3 pat' = p_curr_del3 pat" "p_garbages pat' = p_garbages pat" "p_truncated pat' = p_truncated pat" "p_with_sis pat' = p_with_sis pat"
    "p_n_entries pat' = p_n_entries pat - 1" "\<And>m. m \<notin> members t \<Longrightarrow> m \<noteq> GRN_ID_NIL \<Longrightarrow> p_nodes pat' m = p_nodes pat m"
    using frame by (simp_all add: del_frame_def)
  have mem: "members t' \<subseteq> members t" using ii rr by auto
  have stat: "j = di \<or> stat_of pat' j = stat_of pat j \<or> stat_of pat j = DL_PHASE1 \<and> stat_of pat' j = DL_PHASE2" for j by (simp add: st)
  have qm: "q \<in> members t" using qr by simp
  note as = del_assemble [OF inv sk tr(1) owner pend tr(2) mem fr(1) cache fr(2-8) di(1) qm fr(9) d stat st(2)]
  show "pat_ok pat'" using as(1) by (auto simp: pat_ok_def)
  show "content pat' = (content pat)(q := None)" by (rule as(2))
qed

lemma root_inv:
  assumes inv: "pat_inv pat t ow gs" and at: "del_at pat t key q i0 k L S c0" and frame: "del_frame pat pat' t"
    and cache: "\<And>c. p_cache pat = Some c \<Longrightarrow> q \<notin> set c" and q: "ow i0 = q" and L: "L = root_location" and S: "S = Record x"
    and c: "c = pat_node_get_check (p_nodes pat x)" "c < klen (node_key pat x)"
    and root: "link (p_nodes pat') root_location = x" and chk: "pn_check (p_nodes pat' x) = pn_check (p_nodes pat x)"
    and lx: "link (p_nodes pat') (x, direction (kbit (node_key pat x) c)) = x"
      "link (p_nodes pat') (x, direction (\<not> kbit (node_key pat x) c)) = GRN_ID_NIL"
    and del: "pat_node_is_deleting (p_nodes pat' x) = pat_node_is_deleting (p_nodes pat x)"
    and di: "in_ring pat di" "stat_of pat di = DL_EMPTY"
    and d: "\<And>j. j < GRN_PAT_NDELINFOS \<Longrightarrow> di_d (p_delinfos pat' j) = (if j = di then q else di_d (p_delinfos pat j))"
    and st: "\<And>j. j < GRN_PAT_NDELINFOS \<Longrightarrow> stat_of pat' j = (if j = di then DL_PHASE2
      else if stat_of pat j = DL_PHASE1 \<and> di_d (p_delinfos pat j) = i0 then DL_PHASE2 else stat_of pat j)"
    and sh: "\<And>j. j < GRN_PAT_NDELINFOS \<Longrightarrow> di_shared (p_delinfos pat' j) = di_shared (p_delinfos pat j)"
  shows "pat_ok pat'" and "content pat' = (content pat)(q := None)"
proof -
  note i = pat_invD [OF inv]
  note f = del_at_facts [OF at i(2)] and T = tree_okD [OF i(2)] and o = owner_okD [OF i(3)] and p = pending_okD [OF i(5)]
  have tt: "inners t = [i0]" "set (records t) = {q, x}" using f(14) [OF L] S by auto
  have qr: "q \<in> set (records t)" using tt by simp
  have xq: "x \<noteq> q" using f(13) S by auto
  have sk: "same_keys pat pat'" using frame by (simp add: del_frame_def)
  have K: "node_key pat' m = node_key pat m" for m by (rule same_keys_get_key(2) [OF sk])
  have x0: "x \<noteq> 0" using f(4) S by simp
  have xids: "x \<in> ids pat" using T(5) tt by auto
  have xi: "x \<noteq> i0"
  proof
    assume "x = i0"
    then have "ow i0 = i0" using o(3) [of i0] tt by auto
    then show False using q xq \<open>x = i0\<close> by simp
  qed
  have nd: "\<not> pat_node_is_deleting (p_nodes pat x)"
    using pendingD(2) [OF i(5), of x] tt q xq xi by auto
  let ?b = "kbit (node_key pat x) c"
  define t' where "t' = (if ?b then Inner x c Empty (Record x) else Inner x c (Record x) Empty)"
  have t': "records t' = [x]" "inners t' = [x]" by (simp_all add: t'_def)
  have cx: "pat_node_get_check (p_nodes pat' x) = c" "0 \<le> c" using chk c(1) by (simp_all add: pat_node_get_check_def)
  have "tree_at (p_nodes pat') (- 1) x t'"
    using lx cx x0 by (cases ?b) (auto simp: t'_def direction_def)
  moreover have "key_tree (node_key pat') t'" using c(2) by (auto simp: t'_def K agree_below_def)
  ultimately have tree: "tree_ok pat' t'"
    using root xids same_keys_ids [OF sk] unfolding tree_ok_def by (simp add: t')
  have owner: "owner_ok pat' t' (\<lambda>_. x)"
    unfolding owner_ok_def t' by (auto simp: t'_def)
  have dd: "stat_of pat' j \<noteq> DL_PHASE1" if "j < GRN_PAT_NDELINFOS" for j
    using st [OF that] p(1) [OF that] tt(1) by auto
  have q_new: "di_d (p_delinfos pat j) \<noteq> q" if "j < GRN_PAT_NDELINFOS" "stat_of pat j \<noteq> DL_EMPTY" "q = i0 \<longrightarrow> stat_of pat j \<noteq> DL_PHASE1" for j
    using that p(1,6) [OF that(1)] qr tt(1) by (cases "stat_of pat j") auto
  have q_new': "di_d (p_delinfos pat j) \<noteq> q" if "j < GRN_PAT_NDELINFOS" "stat_of pat j \<noteq> DL_EMPTY" for j
  proof (rule q_new [OF that])
    show "q = i0 \<longrightarrow> stat_of pat j \<noteq> DL_PHASE1" using p(1,2,3) [OF that(1)] tt(1) q by auto
  qed
  have pend: "pending_ok pat' t' (\<lambda>_. x)"
    unfolding pending_ok_def
  proof (intro conjI allI ballI impI)
    fix j assume j: "j < GRN_PAT_NDELINFOS" "stat_of pat' j = DL_PHASE2"
    have "di_d (p_delinfos pat' j) \<in> ids pat \<and> di_d (p_delinfos pat' j) \<noteq> x"
    proof (cases "j = di")
      case True
      then show ?thesis using d [OF j(1)] qr T(5) xq by auto
    next
      case False
      then show ?thesis
      proof (cases "stat_of pat j = DL_PHASE1")
        case True
        then show ?thesis using p(1) [OF j(1)] d [OF j(1)] False tt(1) xi T(5) by auto
      next
        case n1: False
        then have "stat_of pat j = DL_PHASE2" using st [OF j(1)] j(2) False by simp
        then show ?thesis using p(5,6) [OF j(1)] d [OF j(1)] False tt by auto
      qed
    qed
    then show "di_d (p_delinfos pat' j) \<in> ids pat'" "di_d (p_delinfos pat' j) \<notin> members t'" using same_keys_ids [OF sk] t' by auto
  next
    fix j j' assume a: "j < GRN_PAT_NDELINFOS" "j' < GRN_PAT_NDELINFOS" "stat_of pat' j \<noteq> DL_EMPTY" "stat_of pat' j' \<noteq> DL_EMPTY"
      "di_d (p_delinfos pat' j) = di_d (p_delinfos pat' j')"
    have e: "stat_of pat n \<noteq> DL_EMPTY" if "n < GRN_PAT_NDELINFOS" "stat_of pat' n \<noteq> DL_EMPTY" "n \<noteq> di" for n
      using st [OF that(1)] that(2,3) by (auto split: if_splits)
    show "j = j'"
      using a p(7) [OF a(1,2)] q_new' [OF a(1)] q_new' [OF a(2)] e [OF a(1,3)] e [OF a(2,4)] d [OF a(1)] d [OF a(2)]
      by (cases "j = di"; cases "j' = di") simp_all
  next
    fix m assume "m \<in> members t'"
    then show "pat_node_is_deleting (p_nodes pat' m) \<longleftrightarrow>
      (\<exists>j < GRN_PAT_NDELINFOS. stat_of pat' j = DL_PHASE1 \<and> (di_d (p_delinfos pat' j) = m \<or> di_ld (p_delinfos pat' j) = m))"
      using dd nd del t' by auto
  qed (use dd t' in auto)
  have mrec: "mset (records t) = add_mset q (mset (records t'))"
    using set_eq_iff_mset_eq_distinct [of "records t" "[q, x]"] T(4) tt(2) xq t'(1) by simp
  have fr: "p_cache pat' = p_cache pat" "p_curr_del pat' = p_curr_del pat" "p_curr_del2 pat' = p_curr_del2 pat"
    "p_curr_del3 pat' = p_curr_del3 pat" "p_garbages pat' = p_garbages pat" "p_truncated pat' = p_truncated pat" "p_with_sis pat' = p_with_sis pat"
    "p_n_entries pat' = p_n_entries pat - 1" "\<And>m. m \<notin> members t \<Longrightarrow> m \<noteq> GRN_ID_NIL \<Longrightarrow> p_nodes pat' m = p_nodes pat m"
    using frame by (simp_all add: del_frame_def)
  have mem: "members t' \<subseteq> members t" using tt t' by auto
  have stat: "j = di \<or> stat_of pat' j = stat_of pat j \<or> stat_of pat j = DL_PHASE1 \<and> stat_of pat' j = DL_PHASE2"
    if "j < GRN_PAT_NDELINFOS" for j using st [OF that] by auto
  have qm: "q \<in> members t" using qr by simp
  note as = del_assemble [OF inv sk tree owner pend mrec mem fr(1) cache fr(2-8) di(1) qm fr(9) d stat sh]
  show "pat_ok pat'" using as(1) by (auto simp: pat_ok_def)
  show "content pat' = (content pat)(q := None)" by (rule as(2))
qed

section \<open>The steps of the code\<close>

lemma fix_otherside_plain:
  assumes "is_root \<Longrightarrow> x \<noteq> GRN_ID_NIL \<Longrightarrow> pat_node_get_check (p_nodes pat x) \<noteq> 0" and "is_root \<Longrightarrow> c0 = 65535"
  shows "fix_otherside x c0 k is_root pat =
    (if x \<noteq> GRN_ID_NIL \<and> c0 < pat_node_get_check (p_nodes pat x) \<and> pat_node_get_check (p_nodes pat x) \<le> k
     then update_node x (pat_node_set_check 0) pat else pat)"
proof -
  have "pat_node_get_check (p_nodes pat x) \<le> 65535"
    using uint_lt2p [of "pn_check (p_nodes pat x)"] by (simp add: pat_node_get_check_def)
  then show ?thesis using assms by (auto simp: fix_otherside_def Let_def)
qed

lemma fix_first_node_nodes:
  assumes "pat_node_get_key pat x = Some key" and "key \<noteq> []"
  shows "p_nodes (fix_first_node x pat) = (p_nodes pat)(x := pat_node_set_child (direction (\<not> kbit key 0)) GRN_ID_NIL
    (pat_node_set_child (direction (kbit key 0)) x (p_nodes pat x)))"
proof -
  have "0 < klen key" using klen_pos [OF assms(2)] by simp
  then have "kbit key 0 \<longleftrightarrow> bit (key ! 0) 7" by (simp add: kbit_even)
  moreover have "drop_bit 7 (key ! 0) = 1 \<longleftrightarrow> bit (key ! 0) 7"
  proof -
    have "drop_bit 7 w = (if bit w 7 then 1 else 0)" for w :: byte
    proof (rule bit_word_eqI)
      fix n :: nat assume "n < LENGTH(8)"
      have "\<not> bit w (7 + n)" if "n \<noteq> 0" using that bit_imp_le_length [of w "7 + n"] by auto
      then show "bit (drop_bit 7 w) n = bit (if bit w 7 then 1 else 0 :: byte) n" by (cases "n = 0") (auto simp: bit_simps)
    qed
    then show ?thesis by simp
  qed
  ultimately show ?thesis using assms(1) by (simp add: fix_first_node_def Let_def)
qed

lemma same_keys_fix [simp]: "same_keys pat (fix_otherside x c0 k root pat)"
proof -
  have s: "same_keys p (update_node x (pat_node_set_check c) p)" for p c by (rule same_keys_update_node) simp_all
  have ff: "same_keys p (fix_first_node x p)" for p
    unfolding fix_first_node_def Let_def by (rule same_keys_update_node) simp_all
  show ?thesis unfolding fix_otherside_def Let_def using s ff same_keys_trans by (auto intro: same_keys_trans)
qed

lemma fix_otherside_fields:
  "\<exists>N. fix_otherside x c0 k root pat = pat\<lparr>p_nodes := N\<rparr> \<and> (\<forall>m. m \<noteq> x \<or> x = GRN_ID_NIL \<longrightarrow> N m = p_nodes pat m)"
proof -
  have "fix_otherside x c0 k root pat = pat\<lparr>p_nodes := p_nodes (fix_otherside x c0 k root pat)\<rparr>"
    by (simp add: fix_otherside_def fix_first_node_def update_node_def Let_def)
  moreover have "p_nodes (fix_otherside x c0 k root pat) m = p_nodes pat m" if "m \<noteq> x \<or> x = GRN_ID_NIL" for m
    using that by (auto simp: fix_otherside_def fix_first_node_def Let_def)
  ultimately show ?thesis by blast
qed

text \<open>A state in which the deletion has been noted and the tree is still as it was.\<close>

definition noted :: "grn_pat \<Rightarrow> grn_pat \<Rightarrow> ptree \<Rightarrow> (grn_id \<Rightarrow> grn_id) \<Rightarrow> grn_id \<Rightarrow> grn_id \<Rightarrow> nat \<Rightarrow> bool" where
  "noted pat pat1 t ow q i0 di \<longleftrightarrow> same_keys pat pat1 \<and> (\<exists>N D. pat1 = pat\<lparr>p_nodes := N, p_delinfos := D\<rparr>) \<and>
     (\<forall>m. pn_left (p_nodes pat1 m) = pn_left (p_nodes pat m) \<and> pn_right (p_nodes pat1 m) = pn_right (p_nodes pat m) \<and>
        pn_check (p_nodes pat1 m) = pn_check (p_nodes pat m) \<and> (m \<notin> members t \<longrightarrow> p_nodes pat1 m = p_nodes pat m)) \<and>
     (\<forall>m. m \<in> set (records t) - {q} \<union> (set (inners t) - {i0}) \<longrightarrow>
        (pat_node_is_deleting (p_nodes pat1 m) \<longleftrightarrow> m = q \<or> m = i0 \<or> pat_node_is_deleting (p_nodes pat m))) \<and>
     (\<forall>j < GRN_PAT_NDELINFOS. di_d (p_delinfos pat1 j) = (if j = di then q else di_d (p_delinfos pat j)) \<and>
        stat_of pat1 j = (if j = di then if q \<in> set (inners t) \<and> q \<noteq> i0 then DL_PHASE1 else DL_PHASE2
          else if stat_of pat j = DL_PHASE1 \<and> di_d (p_delinfos pat j) = i0 then DL_PHASE2 else stat_of pat j) \<and>
        (stat_of pat1 j = DL_PHASE1 \<longrightarrow>
          di_ld (p_delinfos pat1 j) = (if j = di \<or> di_ld (p_delinfos pat j) = q then ow i0 else di_ld (p_delinfos pat j))) \<and>
        di_shared (p_delinfos pat1 j) = di_shared (p_delinfos pat j))"

lemma notedD:
  assumes "noted pat pat1 t ow q i0 di"
  shows "same_keys pat pat1" and "\<exists>N D. pat1 = pat\<lparr>p_nodes := N, p_delinfos := D\<rparr>"
    and "pn_left (p_nodes pat1 m) = pn_left (p_nodes pat m)" and "pn_right (p_nodes pat1 m) = pn_right (p_nodes pat m)"
    and "pn_check (p_nodes pat1 m) = pn_check (p_nodes pat m)" and "m \<notin> members t \<Longrightarrow> p_nodes pat1 m = p_nodes pat m"
    and "m \<in> set (records t) - {q} \<union> (set (inners t) - {i0}) \<Longrightarrow>
      pat_node_is_deleting (p_nodes pat1 m) \<longleftrightarrow> m = q \<or> m = i0 \<or> pat_node_is_deleting (p_nodes pat m)"
    and "j < GRN_PAT_NDELINFOS \<Longrightarrow> di_d (p_delinfos pat1 j) = (if j = di then q else di_d (p_delinfos pat j))"
    and "j < GRN_PAT_NDELINFOS \<Longrightarrow> stat_of pat1 j = (if j = di then if q \<in> set (inners t) \<and> q \<noteq> i0 then DL_PHASE1 else DL_PHASE2
          else if stat_of pat j = DL_PHASE1 \<and> di_d (p_delinfos pat j) = i0 then DL_PHASE2 else stat_of pat j)"
    and "j < GRN_PAT_NDELINFOS \<Longrightarrow> stat_of pat1 j = DL_PHASE1 \<Longrightarrow>
          di_ld (p_delinfos pat1 j) = (if j = di \<or> di_ld (p_delinfos pat j) = q then ow i0 else di_ld (p_delinfos pat j))"
    and "j < GRN_PAT_NDELINFOS \<Longrightarrow> di_shared (p_delinfos pat1 j) = di_shared (p_delinfos pat j)"
  using assms unfolding noted_def by blast+

lemma noted_self:
  assumes own: "owner_ok pat t ow" and pend: "pending_ok pat t ow" and q: "q \<in> set (records t)" "q \<in> set (inners t)"
  shows "noted pat (set_delinfo_phase2 di q pat) t ow q q di"
proof -
  note p = pending_okD [OF pend] and o = owner_okD [OF own]
  have oq: "ow q = q" using o(3) [OF q(2)] q(1) by blast
  have nq: "di_d (p_delinfos pat j) \<noteq> q" if "j < GRN_PAT_NDELINFOS" "stat_of pat j = DL_PHASE1" for j
    using p(2,3) [OF that] oq by metis
  have eq: "set_delinfo_phase2 di q pat = pat\<lparr>p_nodes := p_nodes pat,
      p_delinfos := (p_delinfos pat)(di := (p_delinfos pat di)\<lparr>di_stat := DL_PHASE2, di_d := q\<rparr>)\<rparr>"
    by (simp add: set_delinfo_phase2_def update_delinfo_def)
  show ?thesis
    unfolding noted_def
  proof (intro conjI)
    show "\<exists>N D. set_delinfo_phase2 di q pat = pat\<lparr>p_nodes := N, p_delinfos := D\<rparr>" using eq by blast
    show "\<forall>j < GRN_PAT_NDELINFOS. di_d (p_delinfos (set_delinfo_phase2 di q pat) j) = (if j = di then q else di_d (p_delinfos pat j)) \<and>
        stat_of (set_delinfo_phase2 di q pat) j = (if j = di then if q \<in> set (inners t) \<and> q \<noteq> q then DL_PHASE1 else DL_PHASE2
          else if stat_of pat j = DL_PHASE1 \<and> di_d (p_delinfos pat j) = q then DL_PHASE2 else stat_of pat j) \<and>
        (stat_of (set_delinfo_phase2 di q pat) j = DL_PHASE1 \<longrightarrow>
          di_ld (p_delinfos (set_delinfo_phase2 di q pat) j) = (if j = di \<or> di_ld (p_delinfos pat j) = q then ow q else di_ld (p_delinfos pat j))) \<and>
        di_shared (p_delinfos (set_delinfo_phase2 di q pat) j) = di_shared (p_delinfos pat j)"
      using nq oq by (auto simp: set_delinfo_phase2_def update_delinfo_def)
  qed (simp_all add: set_delinfo_phase2_def update_delinfo_def same_keys_def)
qed

lemma noted_pending:
  assumes own: "owner_ok pat t ow" and pend: "pending_ok pat t ow" and ring: "ring_ok pat"
    and q: "q \<in> set (records t)" "q \<in> ow ` set (inners t)" and i0: "i0 \<in> set (inners t)" and ne: "q \<noteq> i0"
    and di: "di < GRN_PAT_NDELINFOS" "stat_of pat di = DL_EMPTY"
  shows "noted pat (del_pending di q i0 pat) t ow q i0 di"
proof -
  note o = owner_okD [OF own] and fl = owner_flags [OF own pend]
  let ?pat1 = "del_pending di q i0 pat"
  have s: "delinfo_search pat q \<noteq> None" if "pat_node_is_deleting (p_nodes pat q)"
    using delinfo_search_deleting [OF pend ring _ that] q(1) by auto
  have si: "delinfo_search pat i0 \<noteq> None" if "pat_node_is_deleting (p_nodes pat i0)"
    using delinfo_search_deleting [OF pend ring _ that] i0 by auto
  note df = del_pending_fields [OF ne s si, of di]
  obtain D where D: "?pat1 = pat\<lparr>p_nodes := p_nodes ?pat1, p_delinfos := D\<rparr>" using df(2) by blast
  have n: "p_nodes ?pat1 m = (if m = i0 then toggle_deleting (p_nodes pat i0) else if m = q then toggle_deleting (p_nodes pat q) else p_nodes pat m)" for m
    using ne by (simp add: df(1))
  note inf = del_pending_infos [OF own pend ring q i0 ne di]
  show ?thesis
    unfolding noted_def
  proof (intro conjI)
    show "same_keys pat ?pat1"
    proof -
      have "same_keys pat (pat\<lparr>p_nodes := p_nodes ?pat1, p_delinfos := D\<rparr>)" by (simp add: same_keys_def n)
      then show ?thesis by (simp only: D [symmetric])
    qed
    show "\<exists>N D. ?pat1 = pat\<lparr>p_nodes := N, p_delinfos := D\<rparr>" using D by blast
    show "\<forall>m. pn_left (p_nodes ?pat1 m) = pn_left (p_nodes pat m) \<and> pn_right (p_nodes ?pat1 m) = pn_right (p_nodes pat m) \<and>
        pn_check (p_nodes ?pat1 m) = pn_check (p_nodes pat m) \<and> (m \<notin> members t \<longrightarrow> p_nodes ?pat1 m = p_nodes pat m)"
      using q(1) i0 by (auto simp: n)
    show "\<forall>m. m \<in> set (records t) - {q} \<union> (set (inners t) - {i0}) \<longrightarrow>
        (pat_node_is_deleting (p_nodes ?pat1 m) \<longleftrightarrow> m = q \<or> m = i0 \<or> pat_node_is_deleting (p_nodes pat m))"
    proof (intro allI impI)
      fix m assume m: "m \<in> set (records t) - {q} \<union> (set (inners t) - {i0})"
      consider "m = q" "m \<noteq> i0" | "m = i0" | "m \<noteq> q" "m \<noteq> i0" by blast
      then show "pat_node_is_deleting (p_nodes ?pat1 m) \<longleftrightarrow> m = q \<or> m = i0 \<or> pat_node_is_deleting (p_nodes pat m)"
      proof cases
        case 1
        then have "q \<in> set (inners t)" using m by auto
        then show ?thesis using 1 fl(1) [OF q] by (simp add: n)
      next
        case 2
        then have "i0 \<in> set (records t)" using m by auto
        then have "ow i0 = i0" using o(3) [OF i0] by blast
        then show ?thesis using 2 fl(2) [OF i0] by (simp add: n)
      next
        case 3
        then show ?thesis by (simp add: n)
      qed
    qed
    show "\<forall>j < GRN_PAT_NDELINFOS. di_d (p_delinfos ?pat1 j) = (if j = di then q else di_d (p_delinfos pat j)) \<and>
        stat_of ?pat1 j = (if j = di then if q \<in> set (inners t) \<and> q \<noteq> i0 then DL_PHASE1 else DL_PHASE2
          else if stat_of pat j = DL_PHASE1 \<and> di_d (p_delinfos pat j) = i0 then DL_PHASE2 else stat_of pat j) \<and>
        (stat_of ?pat1 j = DL_PHASE1 \<longrightarrow>
          di_ld (p_delinfos ?pat1 j) = (if j = di \<or> di_ld (p_delinfos pat j) = q then ow i0 else di_ld (p_delinfos pat j))) \<and>
        di_shared (p_delinfos ?pat1 j) = di_shared (p_delinfos pat j)"
      using inf ne by simp
  qed
qed

lemma noted_frame:
  assumes n: "noted pat pat1 t ow q i0 di"
    and p': "pat' = pat1\<lparr>p_nodes := N, p_n_garbages := g, p_n_entries := p_n_entries pat1 - 1\<rparr>" and sk: "same_keys pat1 pat'"
    and out: "\<And>m. m \<notin> members t \<Longrightarrow> m \<noteq> GRN_ID_NIL \<Longrightarrow> N m = p_nodes pat1 m"
  shows "del_frame pat pat' t" and "p_delinfos pat' = p_delinfos pat1"
proof -
  obtain M D where eq: "pat1 = pat\<lparr>p_nodes := M, p_delinfos := D\<rparr>" using notedD(2) [OF n] by blast
  have "same_keys pat pat'" using same_keys_trans [OF notedD(1) [OF n] sk] .
  moreover have "p_nodes pat' m = p_nodes pat m" if "m \<notin> members t" "m \<noteq> GRN_ID_NIL" for m
    using out [OF that] notedD(6) [OF n that(1)] by (simp add: p')
  ultimately show "del_frame pat pat' t" by (simp add: del_frame_def p') (simp add: eq)
  show "p_delinfos pat' = p_delinfos pat1" by (simp add: p')
qed

theorem noted_inv:
  assumes inv: "pat_inv pat t ow gs" and at: "del_at pat t key q i0 k L S c0" and n: "noted pat pat1 t ow q i0 di"
    and cache: "\<And>c. p_cache pat = Some c \<Longrightarrow> q \<notin> set c" and q: "q \<in> ow ` set (inners t)"
    and x: "x = link (p_nodes pat) (i0, direction (\<not> kbit key k))" and xi: "x \<noteq> i0"
    and di: "in_ring pat di" "stat_of pat di = DL_EMPTY" and c0': "c0' = (if L = root_location then 65535 else c0)"
    and pat': "pat' = (set_id_at L x (fix_otherside x c0' k (L = root_location) pat1))\<lparr>p_n_garbages := g, p_n_entries := p_n_entries pat1 - 1\<rparr>"
  shows "pat_ok pat'" and "content pat' = (content pat)(q := None)"
proof -
  note i = pat_invD [OF inv]
  note f = del_at_facts [OF at i(2)] and T = tree_okD [OF i(2)] and o = owner_okD [OF i(3)] and nd = notedD [OF n]
  define pat2 where "pat2 = fix_otherside x c0' k (L = root_location) pat1"
  obtain N2 where N2: "pat2 = pat1\<lparr>p_nodes := N2\<rparr>" "\<And>m. m \<noteq> x \<or> x = GRN_ID_NIL \<Longrightarrow> N2 m = p_nodes pat1 m"
    using fix_otherside_fields [of x c0' k "L = root_location" pat1] unfolding pat2_def by blast
  have n2: "p_nodes pat2 = N2" using N2(1) by simp
  define N where "N = N2(fst L := pat_node_set_child (snd L) x (N2 (fst L)))"
  have p': "pat' = pat1\<lparr>p_nodes := N, p_n_garbages := g, p_n_entries := p_n_entries pat1 - 1\<rparr>"
    by (simp add: pat' set_id_at_def update_node_def N_def N2(1) flip: pat2_def)
  have z: "0 \<notin> members t" by (rule tree_at_members_nonzero [OF T(1)])
  have xS: "x \<noteq> 0 \<Longrightarrow> x \<in> members S" using tree_at_root [OF f(4)] by (simp add: x)
  have sk: "same_keys pat1 pat'"
  proof -
    have "same_keys pat1 (set_id_at L x pat2)" unfolding pat2_def by (rule same_keys_trans [OF same_keys_fix same_keys_set_id_at])
    then show ?thesis by (simp add: pat' same_keys_def flip: pat2_def)
  qed
  have out: "N m = p_nodes pat1 m" if "m \<notin> members t" "m \<noteq> GRN_ID_NIL" for m
  proof -
    have "m \<noteq> fst L" using f(8) that by auto
    moreover have "m \<noteq> x \<or> x = GRN_ID_NIL" using xS f(9) that by blast
    ultimately show ?thesis using N2(2) by (simp add: N_def)
  qed
  have fr: "del_frame pat pat' t" "p_delinfos pat' = p_delinfos pat1" using noted_frame [OF n p' sk] out by blast+
  have lnkN: "link N (m, d) = (if (m, d) = L then x else link N2 (m, d))" for m d
    by (cases L; cases d; cases "snd L") (auto simp: N_def pat_node_set_child_def)
  have lnk1: "link (p_nodes pat1) l = link (p_nodes pat) l" for l using nd(3,4) by (simp add: link_def pat_node_get_child_def split: pat_node_direction.split)
  have chkN: "pn_check (N m) = pn_check (N2 m)" "pat_node_is_deleting (N m) = pat_node_is_deleting (N2 m)" for m by (simp_all add: N_def)
  have infos: "di_d (p_delinfos pat' j) = (if j = di then q else di_d (p_delinfos pat j))" 
    "stat_of pat' j = (if j = di then if q \<in> set (inners t) \<and> q \<noteq> i0 then DL_PHASE1 else DL_PHASE2
          else if stat_of pat j = DL_PHASE1 \<and> di_d (p_delinfos pat j) = i0 then DL_PHASE2 else stat_of pat j)"
    "stat_of pat' j = DL_PHASE1 \<Longrightarrow> di_ld (p_delinfos pat' j) = (if j = di \<or> di_ld (p_delinfos pat j) = q then ow i0 else di_ld (p_delinfos pat j))"
    "di_shared (p_delinfos pat' j) = di_shared (p_delinfos pat j)" if "j < GRN_PAT_NDELINFOS" for j
    using nd(8,9,10,11) [OF that] unfolding fr(2) by blast+
  have "pat_ok pat' \<and> content pat' = (content pat)(q := None)"
  proof (cases "L = root_location \<and> S = Record x")
    case True
    have tt: "inners t = [i0]" "set (records t) = {q, x}" using f(14) True by auto
    have oq: "ow i0 = q" using q tt by auto
    have x0: "x \<noteq> 0" using f(4) True by simp
    have xr: "x \<in> set (records t)" "x \<notin> ow ` set (inners t)" using tt oq f(13) True by auto
    have leaf: "leaf_ok pat x" by (rule o(6) [OF xr])
    define c where "c = pat_node_get_check (p_nodes pat x)"
    have xids: "x \<in> ids pat" using T(5) xr by blast
    have gk: "pat_node_get_key pat1 x = Some (node_key pat x)"
      using store_ok_readable(1) [OF i(1) xids] same_keys_get_key(1) [OF nd(1), of x] by (simp add: readable_def)
    have xL: "x \<noteq> fst L" using x0 True by simp
    have c1: "pat_node_get_check (p_nodes pat1 x) = c" using nd(5) [of x] by (simp add: c_def pat_node_get_check_def)
    have cc: "c < klen (node_key pat x)" using leaf by (simp add: leaf_ok_def c_def)
    have c16: "c \<le> 65535" using uint_lt2p [of "pn_check (p_nodes pat x)"] by (simp add: c_def pat_node_get_check_def)
    let ?b = "kbit (node_key pat x) c"
    have "link N2 (x, direction ?b) = x \<and> link N2 (x, direction (\<not> ?b)) = GRN_ID_NIL \<and> pn_check (N2 x) = pn_check (p_nodes pat1 x) \<and>
      pat_node_is_deleting (N2 x) = pat_node_is_deleting (p_nodes pat1 x)"
    proof (cases "c = 0")
      case z: True
      have "pat2 = fix_first_node x pat1" using z c1 x0 True c0' by (simp add: pat2_def fix_otherside_def Let_def)
      then have "N2 = p_nodes (fix_first_node x pat1)" using n2 by simp
      also have "\<dots> = (p_nodes pat1)(x := pat_node_set_child (direction (\<not> ?b)) GRN_ID_NIL (pat_node_set_child (direction ?b) x (p_nodes pat1 x)))"
        using fix_first_node_nodes [OF gk store_ok_readable(2) [OF i(1) xids]] z by simp
      finally show ?thesis by (cases ?b) (simp_all add: direction_def pat_node_set_child_def pat_node_is_deleting_def)
    next
      case nz: False
      have "pat2 = pat1"
        unfolding pat2_def using fix_otherside_plain [of "L = root_location" x pat1 c0' k] nz c1 c0' True c16 by auto
      then have N21: "N2 = p_nodes pat1" using n2 by simp
      have lb: "link (p_nodes pat) (x, direction ?b) = x" using leaf nz by (simp add: leaf_ok_def c_def)
      have "self_loop x (p_nodes pat x)" using leaf by (simp add: leaf_ok_def)
      then have "link (p_nodes pat) (x, direction (\<not> ?b)) = GRN_ID_NIL"
        using lb x0 by (cases ?b) (auto simp: self_loop_def link_direction)
      then show ?thesis using lb unfolding N21 lnk1 by simp
    qed
    then have lx: "link N (x, direction ?b) = x" "link N (x, direction (\<not> ?b)) = GRN_ID_NIL" "pn_check (N x) = pn_check (p_nodes pat x)"
      "pat_node_is_deleting (N x) = pat_node_is_deleting (p_nodes pat1 x)"
      using xL nd(5) [of x] unfolding lnkN chkN by auto
    have del: "pat_node_is_deleting (p_nodes pat1 x) = pat_node_is_deleting (p_nodes pat x)"
      using nd(7) [of x] tt f(13) True xi by auto
    have st': "stat_of pat' j = (if j = di then DL_PHASE2
      else if stat_of pat j = DL_PHASE1 \<and> di_d (p_delinfos pat j) = i0 then DL_PHASE2 else stat_of pat j)" if "j < GRN_PAT_NDELINFOS" for j
      using infos(2) [OF that] tt(1) by simp
    show ?thesis
      using root_inv [OF inv at fr(1) cache oq _ _ c_def cc _ _ _ _ _ di infos(1) st' infos(4)] True lx del lnkN [of 0 DIRECTION_RIGHT]
      by (simp add: p')
  next
    case False
    have plain: "pat2 = (if x \<noteq> GRN_ID_NIL \<and> c0' < pat_node_get_check (p_nodes pat1 x) \<and> pat_node_get_check (p_nodes pat1 x) \<le> k
      then update_node x (pat_node_set_check 0) pat1 else pat1)"
      unfolding pat2_def
    proof (rule fix_otherside_plain)
      assume r: "L = root_location" and x0: "x \<noteq> GRN_ID_NIL"
      then have "S \<noteq> Record x" using False by blast
      then have "k < pat_node_get_check (p_nodes pat x)" using f(4) x0 by (cases S) (auto simp: x)
      moreover have "0 \<le> k" using at by (simp add: del_at_def)
      ultimately show "pat_node_get_check (p_nodes pat1 x) \<noteq> 0" using nd(5) [of x] by (simp add: pat_node_get_check_def)
    qed (simp add: c0')
    have ck: "pat_node_get_check (p_nodes pat1 x) = pat_node_get_check (p_nodes pat x)" using nd(5) [of x] by (simp add: pat_node_get_check_def)
    have c16: "pat_node_get_check (p_nodes pat x) \<le> 65535"
      using uint_lt2p [of "pn_check (p_nodes pat x)"] by (simp add: pat_node_get_check_def)
    have cond: "(x \<noteq> GRN_ID_NIL \<and> c0' < pat_node_get_check (p_nodes pat1 x) \<and> pat_node_get_check (p_nodes pat1 x) \<le> k) \<longleftrightarrow>
      L \<noteq> root_location \<and> resets pat x i0 c0 k"
      using xi c16 unfolding resets_def c0' ck by auto
    have N2': "N2 = (if L \<noteq> root_location \<and> resets pat x i0 c0 k then (p_nodes pat1)(x := pat_node_set_check 0 (p_nodes pat1 x)) else p_nodes pat1)"
      using plain unfolding cond n2 [symmetric] by simp
    have l2: "link N2 (m, d) = link (p_nodes pat) (m, d)" for m d
      unfolding lnk1 [symmetric] N2' by (cases d) auto
    have chk: "pn_check (p_nodes pat' m) = (if m = x \<and> L \<noteq> root_location \<and> resets pat x i0 c0 k then 0 else pn_check (p_nodes pat m))" for m
      using nd(5) [of m] chkN(1) [of m] unfolding N2' by (simp add: p' pat_node_set_check_def)
    have dl: "pat_node_is_deleting (N2 m) = pat_node_is_deleting (p_nodes pat1 m)" for m
      unfolding N2' by (simp add: pat_node_is_deleting_def)
    have del: "pat_node_is_deleting (p_nodes pat' m) \<longleftrightarrow> m = q \<or> m = i0 \<or> pat_node_is_deleting (p_nodes pat m)"
      if m: "m \<in> members (graft key k S t)" for m
    proof -
      have "pat_node_is_deleting (p_nodes pat' m) = pat_node_is_deleting (p_nodes pat1 m)" using chkN(2) [of m] dl [of m] by (simp add: p')
      moreover have "m \<in> set (records t) - {q} \<union> (set (inners t) - {i0})" using m del_at_members [OF at i(2)] by blast
      ultimately show ?thesis using nd(7) by blast
    qed
    have lnk: "link (p_nodes pat') (m, d) = (if (m, d) = L then x else link (p_nodes pat) (m, d))" for m d
      using lnkN [of m d] l2 [of m d] by (simp add: p')
    show ?thesis
      using splice_inv [OF inv at fr(1) cache q x _ lnk chk di infos(1,2,3,4) del] False by blast
  qed
  then show "pat_ok pat'" "content pat' = (content pat)(q := None)" by blast+
qed

lemma noted_same_inv:
  assumes inv: "pat_inv pat t ow gs" and at: "del_at pat t key q i0 k L S c0" and n: "noted pat pat1 t ow q i0 di"
    and cache: "\<And>c. p_cache pat = Some c \<Longrightarrow> q \<notin> set c" and q: "q \<in> ow ` set (inners t)" "q \<noteq> i0"
    and x: "i0 = link (p_nodes pat) (i0, direction (\<not> kbit key k))"
    and di: "in_ring pat di" "stat_of pat di = DL_EMPTY"
    and pat': "pat' = (update_node i0 (pat_node_set_check 0) pat1)\<lparr>p_n_garbages := g, p_n_entries := p_n_entries pat1 - 1\<rparr>"
  shows "L \<noteq> root_location" and "pat_ok pat'" and "content pat' = (content pat)(q := None)"
proof -
  note i = pat_invD [OF inv]
  note f = del_at_facts [OF at i(2)] and T = tree_okD [OF i(2)] and o = owner_okD [OF i(3)] and nd = notedD [OF n]
  have i00: "i0 \<noteq> 0" using f(1) tree_at_members_nonzero [OF T(1)] by auto
  have S: "S = Record i0"
  proof -
    obtain l r where b: "below key k t = Inner i0 k l r" using at by (rule del_at_obtain)
    have "tree_at (p_nodes pat) c0 (link (p_nodes pat) L) (Inner i0 k l r)"
      using tree_at_below [OF T(1), of key k] at by (simp add: b del_at_def)
    then have "pat_node_get_check (p_nodes pat i0) = k" by simp
    then show ?thesis using f(4) i00 unfolding x [symmetric] by (cases S) auto
  qed
  show nr: "L \<noteq> root_location"
  proof
    assume "L = root_location"
    then have tt: "inners t = [i0]" "i0 \<in> set (records t)" using f(14) S by auto
    then have "ow i0 = i0" using o(3) [of i0] by auto
    then show False using q tt(1) by auto
  qed
  have re: "resets pat i0 i0 c0 k" using i00 by (simp add: resets_def)
  have p': "pat' = pat1\<lparr>p_nodes := (p_nodes pat1)(i0 := pat_node_set_check 0 (p_nodes pat1 i0)), p_n_garbages := g, p_n_entries := p_n_entries pat1 - 1\<rparr>"
    by (simp add: pat' update_node_def)
  have sk: "same_keys pat1 pat'"
    by (simp add: p' same_keys_def)
  have "((p_nodes pat1)(i0 := pat_node_set_check 0 (p_nodes pat1 i0))) m = p_nodes pat1 m" if "m \<notin> members t" for m using f(1) that by auto
  then have fr: "del_frame pat pat' t" "p_delinfos pat' = p_delinfos pat1" using noted_frame [OF n p' sk] by blast+
  have lnk1: "link (p_nodes pat1) l = link (p_nodes pat) l" for l using nd(3,4) by (simp add: link_def pat_node_get_child_def split: pat_node_direction.split)
  have lnk: "link (p_nodes pat') (m, d) = (if (m, d) = L then i0 else link (p_nodes pat) (m, d))" for m d
  proof -
    have "link (p_nodes pat') (m, d) = link (p_nodes pat) (m, d)" unfolding lnk1 [symmetric] by (cases d) (simp_all add: p')
    then show ?thesis using f(5) by auto
  qed
  have chk: "pn_check (p_nodes pat' m) = (if m = i0 \<and> L \<noteq> root_location \<and> resets pat i0 i0 c0 k then 0 else pn_check (p_nodes pat m))" for m
    using nd(5) [of m] nr re by (simp add: p' pat_node_set_check_def)
  have del: "pat_node_is_deleting (p_nodes pat' m) \<longleftrightarrow> m = q \<or> m = i0 \<or> pat_node_is_deleting (p_nodes pat m)"
    if m: "m \<in> members (graft key k S t)" for m
  proof -
    have "pat_node_is_deleting (p_nodes pat' m) = pat_node_is_deleting (p_nodes pat1 m)" by (simp add: p')
    moreover have "m \<in> set (records t) - {q} \<union> (set (inners t) - {i0})" using m del_at_members [OF at i(2)] by blast
    ultimately show ?thesis using nd(7) by blast
  qed
  have infos: "di_d (p_delinfos pat' j) = (if j = di then q else di_d (p_delinfos pat j))" 
    "stat_of pat' j = (if j = di then if q \<in> set (inners t) \<and> q \<noteq> i0 then DL_PHASE1 else DL_PHASE2
          else if stat_of pat j = DL_PHASE1 \<and> di_d (p_delinfos pat j) = i0 then DL_PHASE2 else stat_of pat j)"
    "stat_of pat' j = DL_PHASE1 \<Longrightarrow> di_ld (p_delinfos pat' j) = (if j = di \<or> di_ld (p_delinfos pat j) = q then ow i0 else di_ld (p_delinfos pat j))"
    "di_shared (p_delinfos pat' j) = di_shared (p_delinfos pat j)" if "j < GRN_PAT_NDELINFOS" for j
    using nd(8,9,10,11) [OF that] unfolding fr(2) by blast+
  show "pat_ok pat'" "content pat' = (content pat)(q := None)"
    using splice_inv [OF inv at fr(1) cache q(1) x _ lnk chk di infos(1,2,3,4) del] nr by blast+
qed

theorem del_internal_inv:
  assumes inv: "pat_inv pat t ow gs" and at: "del_at pat t key (dp_id dp) (dp_id0 dp) (dp_check dp) (dp_p0 dp) S (dp_check0 dp)"
    and p: "dp_p dp = (dp_id0 dp, direction (kbit key (dp_check dp)))" and len: "klen key \<le> 0x10000"
    and cache: "\<And>c. p_cache pat = Some c \<Longrightarrow> dp_id dp \<notin> set c"
    and x: "x = link (p_nodes pat) (dp_id0 dp, direction (\<not> kbit key (dp_check dp)))" "x \<noteq> dp_id dp"
    and di: "in_ring pat di" "stat_of pat di = DL_EMPTY"
  shows "pat_ok (grn_pat_del_internal di dp x pat)"
    and "content (grn_pat_del_internal di dp x pat) = (content pat)(dp_id dp := None)"
proof -
  let ?q = "dp_id dp" and ?i0 = "dp_id0 dp" and ?k = "dp_check dp" and ?L = "dp_p0 dp" and ?c0 = "dp_check0 dp"
  let ?pat' = "grn_pat_del_internal di dp x pat"
  note i = pat_invD [OF inv]
  note f = del_at_facts [OF at i(2)] and o = owner_okD [OF i(3)]
  have qr: "?q \<in> set (records t)" and k: "0 \<le> ?k" "?k < klen key" using at by (simp_all add: del_at_def)
  have k16: "uint (word_of_int ?k :: u16) = ?k" using k len by (simp add: uint_word_of_int)
  define c0' where "c0' = uint (word_of_int ?c0 :: u16)"
  have c16: "c0' = (if ?L = root_location then 65535 else ?c0)"
    using f(10,11,12) k(2) len by (auto simp: c0'_def uint_word_of_int mod_pos_pos_trivial)
  have din: "di < GRN_PAT_NDELINFOS" using di(1) by (simp add: in_ring_def)
  have "pat_ok ?pat' \<and> content ?pat' = (content pat)(?q := None)"
  proof (cases "?q = ?i0")
    case True
    let ?pat1 = "set_delinfo_phase2 di ?q pat"
    have qi: "?q \<in> set (inners t)" using f(1) True by simp
    have n: "noted pat ?pat1 t ow ?q ?i0 di" using noted_self [OF i(3,5) qr qi, of di] True by simp
    have qo: "?q \<in> ow ` set (inners t)" using o(3) [OF qi] qr qi by (metis imageI)
    have cnt: "p_n_garbages (set_id_at l y (fix_otherside a b c r p)) = p_n_garbages p"
      "p_n_entries (set_id_at l y (fix_otherside a b c r p)) = p_n_entries p" for l y a b c r p
      using fix_otherside_fields [of a b c r p] by (auto simp: set_id_at_def update_node_def)
    have p': "?pat' = (set_id_at ?L x (fix_otherside x c0' ?k (?L = root_location) ?pat1))\<lparr>p_n_garbages := p_n_garbages ?pat1 + 1,
        p_n_entries := p_n_entries ?pat1 - 1\<rparr>"
      using True by (simp add: grn_pat_del_internal_def Let_def k16 cnt flip: c0'_def)
    have xi: "x \<noteq> ?i0" using x(2) True by simp
    show ?thesis using noted_inv [OF inv at n cache qo x(1) xi di c16 p'] by blast
  next
    case ne: False
    show ?thesis
    proof (cases "self_loop ?q (p_nodes pat ?q)")
      case True
      have p': "?pat' = (set_id_at (dp_p dp) GRN_ID_NIL (set_delinfo_phase2 di ?q pat))\<lparr>p_n_garbages := p_n_garbages pat + 1,
          p_n_entries := p_n_entries pat - 1\<rparr>"
        using ne True by (simp add: grn_pat_del_internal_def Let_def self_loop_def set_id_at_def update_node_def set_delinfo_phase2_def update_delinfo_def)
      have nodes: "p_nodes ?pat' = (p_nodes pat)(?i0 := pat_node_set_child (direction (kbit key ?k)) GRN_ID_NIL (p_nodes pat ?i0))"
        by (simp add: p' p set_id_at_def set_delinfo_phase2_def update_delinfo_def update_node_def)
      have infos: "p_delinfos ?pat' = (p_delinfos pat)(di := (p_delinfos pat di)\<lparr>di_stat := DL_PHASE2, di_d := ?q\<rparr>)"
        by (simp add: p' set_id_at_def set_delinfo_phase2_def update_delinfo_def update_node_def)
      have fr: "del_frame pat ?pat' t"
        unfolding del_frame_def using f(1)
        by (auto simp: p' p set_id_at_def set_delinfo_phase2_def update_delinfo_def update_node_def same_keys_def)
      show ?thesis using leaf_inv [OF inv at fr cache ne True nodes di infos] by blast
    next
      case False
      let ?pat1 = "del_pending di ?q ?i0 pat"
      have qo: "?q \<in> ow ` set (inners t)" using o(6) [OF qr] False by (auto simp: leaf_ok_def)
      have n: "noted pat ?pat1 t ow ?q ?i0 di" by (rule noted_pending [OF i(3,5,4) qr qo f(1) ne din di(2)])
      show ?thesis
      proof (cases "x = ?i0")
        case True
        have x': "?i0 = link (p_nodes pat) (?i0, direction (\<not> kbit key ?k))" using True x(1) by simp
        note ns = noted_same_inv [where g = "p_n_garbages ?pat1 + 1", OF inv at n cache qo ne x' di refl]
        have "?pat' = (update_node ?i0 (pat_node_set_check 0) ?pat1)\<lparr>p_n_garbages := p_n_garbages ?pat1 + 1, p_n_entries := p_n_entries ?pat1 - 1\<rparr>"
          using ne False True ns(1) unfolding grn_pat_del_internal_def Let_def self_loop_def [symmetric] by (simp add: update_node_def)
        then show ?thesis using ns(2,3) by simp
      next
        case xi: False
        have cnt: "p_n_garbages (set_id_at l y (fix_otherside a b c r p)) = p_n_garbages p"
          "p_n_entries (set_id_at l y (fix_otherside a b c r p)) = p_n_entries p" for l y a b c r p
          using fix_otherside_fields [of a b c r p] by (auto simp: set_id_at_def update_node_def)
        have p': "?pat' = (set_id_at ?L x (fix_otherside x c0' ?k (?L = root_location) ?pat1))\<lparr>p_n_garbages := p_n_garbages ?pat1 + 1,
            p_n_entries := p_n_entries ?pat1 - 1\<rparr>"
          using ne False xi unfolding grn_pat_del_internal_def Let_def self_loop_def [symmetric] by (auto simp: k16 cnt simp flip: c0'_def)
        show ?thesis using noted_inv [OF inv at n cache qo x(1) xi di c16 p'] by blast
      qed
    qed
  qed
  then show "pat_ok ?pat'" "content ?pat' = (content pat)(?q := None)" by blast+
qed

section \<open>Deletion by key\<close>

lemma tree_del_find_rc: "tree_del_find K key id0 p0 p c cp t = Inl rc \<Longrightarrow> rc = GRN_INVALID_ARGUMENT"
  by (induction t arbitrary: id0 p0 p c cp) (auto split: if_splits)

lemma del_at_found:
  assumes t: "tree_ok pat t" and find: "tree_del_find (node_key pat) key GRN_ID_NIL root_location root_location (- 1) (- 1) t = Inr dp"
    and key: "key \<noteq> []" and len: "klen key \<le> 0x10000"
  shows "\<exists>S. del_at pat t key (dp_id dp) (dp_id0 dp) (dp_check dp) (dp_p0 dp) S (dp_check0 dp)"
    and "dp_p dp = (dp_id0 dp, direction (kbit key (dp_check dp)))"
proof -
  note T = tree_okD [OF t]
  have "- 1 < klen key" using klen_pos [OF key] by simp
  note fd = tree_del_find_Inr [OF find tree_at_increasing [OF T(1)] this]
  have "\<not> pat_node_get_check (p_nodes pat r) \<le> - 1" for r
    using uint_ge_0 [of "pn_check (p_nodes pat r)"] unfolding pat_node_get_check_def by linarith
  then have "t \<noteq> Record r" for r using T(1) by auto
  then obtain l r where fd': "node_key pat (dp_id dp) = key" "dp_id dp \<in> set (records t)"
    "below key (dp_check dp) t = Inner (dp_id0 dp) (dp_check dp) l r" "child key (dp_check dp) l r = Record (dp_id dp)"
    "dp_p0 dp = insert_location key (dp_check dp) root_location t" "dp_p dp = (dp_id0 dp, direction (kbit key (dp_check dp)))"
    "dp_check0 dp = path_check key (dp_check dp) (- 1) t" "- 1 < dp_check dp" "dp_check dp < klen key" using fd by blast
  show "dp_p dp = (dp_id0 dp, direction (kbit key (dp_check dp)))" by (rule fd'(6))
  have "del_at pat t key (dp_id dp) (dp_id0 dp) (dp_check dp) (dp_p0 dp) (if kbit key (dp_check dp) then l else r) (dp_check0 dp)"
    unfolding del_at_def using fd' len by (intro conjI exI [of _ l] exI [of _ r]) simp_all
  then show "\<exists>S. del_at pat t key (dp_id dp) (dp_id0 dp) (dp_check dp) (dp_p0 dp) S (dp_check0 dp)" by blast
qed

lemma otherside_link:
  assumes at: "del_at pat t key q i0 k L S c0" and t: "tree_ok pat t"
  defines "x \<equiv> link (p_nodes pat) (i0, direction (\<not> kbit key k))"
  shows "x \<noteq> q" and "pn_left (p_nodes pat i0) \<noteq> pn_right (p_nodes pat i0)"
    and "(if pn_right (p_nodes pat i0) = q then pn_left (p_nodes pat i0) else pn_right (p_nodes pat i0)) = x"
    and "x \<noteq> GRN_ID_NIL \<Longrightarrow> x \<in> members t"
proof -
  note f = del_at_facts [OF at t] and T = tree_okD [OF t]
  obtain l r where b: "below key k t = Inner i0 k l r" "child key k l r = Record q" using at by (rule del_at_obtain)
  have "tree_at (p_nodes pat) c0 (link (p_nodes pat) L) (Inner i0 k l r)"
    using tree_at_below [OF T(1), of key k] at by (simp add: b del_at_def)
  then have cq: "pat_node_get_check (p_nodes pat q) \<le> k" using b(2) by (auto split: if_splits)
  show xq: "x \<noteq> q"
  proof
    assume "x = q"
    then have "tree_at (p_nodes pat) k q S" using f(4) by (simp add: x_def)
    then show False using f(2,13) cq by (cases S) auto
  qed
  then show "pn_left (p_nodes pat i0) \<noteq> pn_right (p_nodes pat i0)"
    "(if pn_right (p_nodes pat i0) = q then pn_left (p_nodes pat i0) else pn_right (p_nodes pat i0)) = x"
    using f(3) by (cases "kbit key k"; auto simp: x_def link_direction)+
  show "x \<in> members t" if "x \<noteq> GRN_ID_NIL" using tree_at_root [OF f(4)] that f(9) by (auto simp: x_def)
qed

theorem pat_del_spec:
  assumes inv: "pat_inv pat t ow gs" and key: "key \<noteq> []" and del: "pat_del pat key False func = (pat', rc)"
  shows "pat_ok pat'"
    and "content pat' = (let r = pat_get pat key in
      if r = GRN_ID_NIL \<or> (\<exists>f. func = Some f \<and> \<not> f r) then content pat else (content pat)(r := None))"
    and "rc = (if key \<in> ran (content pat) then GRN_SUCCESS else GRN_INVALID_ARGUMENT)"
proof -
  obtain pat1 di where new: "delinfo_new pat False = (pat1, di)" by force
  note dn = delinfo_new_inv [OF inv new]
  obtain t1 ow1 gs1 where inv1: "pat_inv pat1 t1 ow1 gs1" using dn(1) by blast
  note i1 = pat_invD [OF inv1]
  note T1 = tree_okD [OF i1(2)]
  define r where "r = pat_get pat key"
  have r: "if r = GRN_ID_NIL then key \<notin> ran (content pat) else content pat r = Some key"
    using pat_get_content [OF inv key, of r] by (simp add: r_def)
  have kp: "- 1 < klen key" using klen_pos [OF key] by simp
  have z: "0 \<notin> members t1" by (rule tree_at_members_nonzero [OF T1(1)])
  have g1: "tree_get (node_key pat1) key t1 = r"
    using pat_get_content [OF inv1 key, of r] pat_get_tree [OF i1(1,2) key] r dn(2) by simp
  have fl: "del_find_loop pat1 key GRN_ID_NIL root_location root_location (- 1) (- 1) =
    tree_del_find (node_key pat1) key GRN_ID_NIL root_location root_location (- 1) (- 1) t1"
    by (rule del_find_loop_tree [OF T1(1) _ kp]) (use store_ok_readable(1) [OF i1(1)] T1(5) in blast)
  have "pat_ok pat' \<and> content pat' = (if r = GRN_ID_NIL \<or> (\<exists>f. func = Some f \<and> \<not> f r) then content pat else (content pat)(r := None)) \<and>
    rc = (if key \<in> ran (content pat) then GRN_SUCCESS else GRN_INVALID_ARGUMENT)"
  proof (cases "tree_del_find (node_key pat1) key GRN_ID_NIL root_location root_location (- 1) (- 1) t1")
    case (Inl e)
    have "r = GRN_ID_NIL" using tree_del_find_Inl [OF Inl z] g1 by simp
    moreover have "pat' = pat1" "rc = GRN_INVALID_ARGUMENT" using del new fl Inl tree_del_find_rc [OF Inl] by (simp_all add: pat_del_def)
    ultimately show ?thesis using inv1 dn(2) r by (auto simp: pat_ok_def)
  next
    case (Inr dp)
    have q: "node_key pat1 (dp_id dp) = key" "dp_id dp \<in> set (records t1)"
      using tree_del_find_Inr [OF Inr tree_at_increasing [OF T1(1)] kp] by blast+
    have "content pat1 (dp_id dp) = Some key" using q by (simp add: content_Some [OF i1(2)])
    then have cq: "content pat (dp_id dp) = Some key" using dn(2) by simp
    have q0: "dp_id dp \<noteq> 0" using q(2) z by auto
    have rq: "r = dp_id dp" using pat_get_content [OF inv key, of "dp_id dp"] cq q0 by (simp add: r_def)
    have inr: "key \<in> ran (content pat)" using cq by (auto simp: ran_def)
    have qids: "dp_id dp \<in> ids pat1" using q(2) T1(5) by blast
    have len: "klen key \<le> 0x10000" using store_ok_readable(3) [OF i1(1) qids] q(1) by simp
    obtain S where at1: "del_at pat1 t1 key (dp_id dp) (dp_id0 dp) (dp_check dp) (dp_p0 dp) S (dp_check0 dp)"
      using del_at_found(1) [OF i1(2) Inr key len] by blast
    note dpp = del_at_found(2) [OF i1(2) Inr key len]
    show ?thesis
    proof (cases "\<exists>f. func = Some f \<and> \<not> f (dp_id dp)")
      case True
      then have "pat' = pat1" "rc = GRN_SUCCESS" using del new fl Inr by (auto simp: pat_del_def)
      then show ?thesis using inv1 dn(2) True rq inr by (auto simp: pat_ok_def)
    next
      case False
      define pat2 where "pat2 = set_cache key GRN_ID_NIL pat1"
      have inv2: "pat_inv pat2 t1 ow1 gs1" unfolding pat2_def by (rule set_cache_inv [OF inv1]) simp
      have f2: "p_nodes pat2 = p_nodes pat1" "p_delinfos pat2 = p_delinfos pat1" "p_curr_del pat2 = p_curr_del pat1"
        "p_curr_del2 pat2 = p_curr_del2 pat1" "p_curr_del3 pat2 = p_curr_del3 pat1"
        by (simp_all add: pat2_def set_cache_def split: option.split)
      have at2: "del_at pat2 t1 key (dp_id dp) (dp_id0 dp) (dp_check dp) (dp_p0 dp) S (dp_check0 dp)"
        using at1 by (simp add: del_at_def pat2_def)
      define x where "x = link (p_nodes pat1) (dp_id0 dp, direction (\<not> kbit key (dp_check dp)))"
      note os = otherside_link [OF at1 i1(2), folded x_def]
      have pa: "PAT_AT pat1 x \<noteq> None" if "x \<noteq> GRN_ID_NIL"
        using os(4) [OF that] T1(5) store_okD(2) [OF i1(1)] by (auto simp: key_ok_def)
      have cond: "(case func of None \<Rightarrow> False | Some f \<Rightarrow> \<not> f (dp_id dp)) = False" using False by (cases func) auto
      have "pat_del pat key False func = (grn_pat_del_internal di dp x pat2, GRN_SUCCESS)"
        using os(2,3) pa cond unfolding pat_del_def new prod.case fl Inr sum.case Let_def by (auto simp: pat2_def)
      then have p': "pat' = grn_pat_del_internal di dp x pat2" "rc = GRN_SUCCESS" using del by simp_all
      have cache: "dp_id dp \<notin> set c" if "p_cache pat2 = Some c" for c
        using set_cache_removes [OF inv1, of "dp_id dp" key c] that cq dn(2) by (simp add: pat2_def)
      have di: "in_ring pat2 di" "stat_of pat2 di = DL_EMPTY" using dn(3,4) by (simp_all add: in_ring_def f2)
      have x2: "x = link (p_nodes pat2) (dp_id0 dp, direction (\<not> kbit key (dp_check dp)))" by (simp add: x_def f2)
      note di' = del_internal_inv [OF inv2 at2 dpp len cache x2 os(1) di]
      have "content pat2 = content pat" using dn(2) by (simp add: pat2_def)
      then show ?thesis using di' p' False rq inr q0 by auto
    qed
  qed
  then show "pat_ok pat'" "content pat' = (let r = pat_get pat key in
      if r = GRN_ID_NIL \<or> (\<exists>f. func = Some f \<and> \<not> f r) then content pat else (content pat)(r := None))"
    "rc = (if key \<in> ran (content pat) then GRN_SUCCESS else GRN_INVALID_ARGUMENT)" unfolding r_def Let_def by blast+
qed

end
