(* ===== verification/PatSearch.thy ===== *)
theory PatSearch
  imports Pat "HOL-Library.Sublist" "HOL-Library.Monad_Syntax"
begin

text \<open>
  The rest of the patricia trie of \<^verbatim>\<open>lib/pat.c\<close> that is modelled: deletion by key and by id, with the suffixes of a key in tables that have
  them, and the searches for the keys with a given prefix, for the longest key that is a prefix, and for the keys with a given suffix.
  A search adds the ids it finds to a hash table; the model gives the additions in the order of the code.
\<close>

section \<open>Deletion\<close>

text \<open>A pointer to a field of the list of keys with a common suffix.\<close>

datatype sis_loc = SIS_CHILDREN grn_id | SIS_SIBLING grn_id

fun sis_loc_get :: "grn_pat \<Rightarrow> sis_loc \<Rightarrow> grn_id" where
  "sis_loc_get pat (SIS_CHILDREN r) = sis_children (p_sis pat r)"
| "sis_loc_get pat (SIS_SIBLING r) = sis_sibling (p_sis pat r)"

fun sis_loc_set :: "sis_loc \<Rightarrow> grn_id \<Rightarrow> grn_pat \<Rightarrow> grn_pat" where
  "sis_loc_set (SIS_CHILDREN r) v pat = update_sis r (\<lambda>s. s\<lparr>sis_children := v\<rparr>) pat"
| "sis_loc_set (SIS_SIBLING r) v pat = update_sis r (\<lambda>s. s\<lparr>sis_sibling := v\<rparr>) pat"

partial_function (option) sis_unlink :: "grn_pat \<Rightarrow> grn_id \<Rightarrow> grn_id \<Rightarrow> grn_id \<Rightarrow> sis_loc \<Rightarrow> grn_pat option" where
  "sis_unlink pat rid si sid p =
     (let v = sis_loc_get pat p
      in if v = GRN_ID_NIL \<or> v = sid then Some pat
         else if v = rid then Some (sis_loc_set p (sis_sibling (p_sis pat si)) pat)
         else if \<not> sis_at pat v then Some pat
         else sis_unlink pat rid si sid (SIS_SIBLING v))"

fun key_advance :: "nat \<Rightarrow> key_ptr \<Rightarrow> key_ptr" where
  "key_advance n (KEY_IN_NODE rid i) = KEY_IN_NODE rid (i + n)"
| "key_advance n (KEY_IN_STORE pos) = KEY_IN_STORE (pos + n)"

text \<open>\<^verbatim>\<open>chop\<close> of a key where it is stored: whether something is left, the pointer, the size of the rest and the offset.\<close>

definition chop_key :: "pat_env \<Rightarrow> grn_pat \<Rightarrow> key_ptr \<Rightarrow> nat \<Rightarrow> u32 \<Rightarrow> bool \<times> key_ptr \<times> nat \<times> u32" where
  "chop_key env pat key n offset =
     (let len = grn_charlen (pe_encoding env) (key_read pat key n)
      in if 0 < len then (len < n, key_advance len key, n - len, offset + of_nat len) else (False, key, n, offset))"

definition multibyte_key :: "grn_pat \<Rightarrow> key_ptr \<Rightarrow> bool" where
  "multibyte_key pat key \<longleftrightarrow> key_read pat key 1 ! 0 AND 0x80 \<noteq> 0"

text \<open>
  The loop of \<^verbatim>\<open>grn_pat_delete_with_sis\<close>: the key and then its suffixes as long as no other key has them.  The result has the table,
  the id where the loop stopped, the pointer to the key, and \<^verbatim>\<open>level\<close>, or \<open>Inl\<close> where the function returns at once.
\<close>

partial_function (option) delete_sis_loop ::
    "pat_env \<Rightarrow> byte list \<Rightarrow> (grn_id \<Rightarrow> bool) option \<Rightarrow> grn_pat \<Rightarrow> grn_id \<Rightarrow> grn_id option \<Rightarrow> grn_id option \<Rightarrow> key_ptr option \<Rightarrow>
     nat \<Rightarrow> (grn_pat + grn_pat \<times> grn_id \<times> key_ptr option \<times> nat) option" where
  "delete_sis_loop env junk func pat rid si ss key level =
     (if rid = GRN_ID_NIL \<or>
         (case si of None \<Rightarrow> False | Some s \<Rightarrow> sis_children (p_sis pat s) \<noteq> GRN_ID_NIL \<and> sis_children (p_sis pat s) \<noteq> rid) \<or>
         (case func of None \<Rightarrow> False | Some f \<Rightarrow> \<not> f rid)
      then Some (Inr (pat, rid, key, level))
      else
        case pat_node_get_key_ptr pat rid of
          None \<Rightarrow> Some (Inl pat)
        | Some k \<Rightarrow>
            let key_size = pat_node_get_key_length (p_nodes pat rid);
                pat = fst (pat_del pat (key_read pat k key_size) (key = Some k) None)
            in (case si of
                  None \<Rightarrow> Some (Inr (pat, GRN_ID_NIL, Some k, level + 1))
                | Some s \<Rightarrow>
                    let (more, k', n', offset) = (if multibyte_key pat k then chop_key env pat k key_size 0 else (False, k, key_size, 0));
                        sid = (if more then snd (grn_pat_get env junk pat (key_read pat k' n') False) else GRN_ID_NIL);
                        ss' = (if sid \<noteq> GRN_ID_NIL then if sis_at pat sid then Some sid else None else ss)
                    in do {
                      pat \<leftarrow> (if sid \<noteq> GRN_ID_NIL \<and> sis_at pat sid then sis_unlink pat rid s sid (SIS_CHILDREN sid) else Some pat);
                      let pat = update_sis s (\<lambda>x. x\<lparr>sis_sibling := GRN_ID_NIL, sis_children := GRN_ID_NIL\<rparr>) pat;
                      delete_sis_loop env junk func pat sid ss' ss' (Some k') (level + 1)
                    }))"

text \<open>The suffix that stays gets its own copy of the bytes, which its own suffixes share.\<close>

partial_function (option) rekey_loop ::
    "pat_env \<Rightarrow> byte list \<Rightarrow> grn_pat \<Rightarrow> grn_id \<Rightarrow> key_ptr \<Rightarrow> u32 \<Rightarrow> grn_pat option" where
  "rekey_loop env junk pat rid key shared =
     (if rid = GRN_ID_NIL \<or> pat_key pat rid = None \<or> pat_node_get_key_ptr pat rid \<noteq> Some key then Some pat
      else
        let key_size = pat_node_get_key_length (p_nodes pat rid);
            (pat', shared) =
              (if 0 < shared then (update_node rid (pat_node_set_key_offset pat (ucast shared)) pat, shared)
               else
                 let pat = fst (pat_node_set_key env pat rid (key_read pat key key_size))
                 in (pat, ucast (pat_node_get_key_offset pat (p_nodes pat rid))))
        in if \<not> multibyte_key pat' key then Some pat'
           else
             let (more, key, n, shared) = chop_key env pat' key key_size shared
             in if more then rekey_loop env junk pat' (snd (grn_pat_get env junk pat' (key_read pat' key n) False)) key shared
                else Some pat')"

definition grn_pat_delete_with_sis ::
    "pat_env \<Rightarrow> byte list \<Rightarrow> grn_pat \<Rightarrow> grn_id \<Rightarrow> (grn_id \<Rightarrow> bool) option \<Rightarrow> (grn_pat \<times> nat) option" where
  "grn_pat_delete_with_sis env junk pat rid func =
     (if grn_pat_error_if_truncated pat \<noteq> GRN_SUCCESS then Some (pat, 0)
      else do {
        r \<leftarrow> delete_sis_loop env junk func pat rid (if sis_at pat rid then Some rid else None) None None 0;
        case r of
          Inl pat \<Rightarrow> Some (pat, 0)
        | Inr (pat, rid, key, level) \<Rightarrow>
            (case key of
               None \<Rightarrow> Some (pat, level)
             | Some key \<Rightarrow>
                 if level = 0 then Some (pat, level)
                 else do { pat \<leftarrow> rekey_loop env junk pat rid key 0; Some (pat, level) })
      })"

text \<open>\<^verbatim>\<open>_grn_pat_delete\<close>, \<^verbatim>\<open>grn_pat_delete\<close> and \<^verbatim>\<open>grn_pat_delete_by_id\<close>.\<close>

definition pat_delete ::
    "pat_env \<Rightarrow> byte list \<Rightarrow> grn_pat \<Rightarrow> byte list \<Rightarrow> (grn_id \<Rightarrow> bool) option \<Rightarrow> (grn_pat \<times> grn_rc) option" where
  "pat_delete env junk pat key func =
     (if p_with_sis pat then
        let rid = snd (grn_pat_get env junk pat key False)
        in if rid = GRN_ID_NIL then Some (pat, GRN_INVALID_ARGUMENT)
           else map_option (\<lambda>(pat, level). (pat, if level \<noteq> 0 then GRN_SUCCESS else GRN_INVALID_ARGUMENT))
                  (grn_pat_delete_with_sis env junk pat rid func)
      else Some (pat_del pat key False func))"

definition grn_pat_delete ::
    "pat_env \<Rightarrow> byte list \<Rightarrow> grn_pat \<Rightarrow> byte list \<Rightarrow> (grn_id \<Rightarrow> bool) option \<Rightarrow> (grn_pat \<times> grn_rc) option" where
  "grn_pat_delete env junk pat key func =
     (if key = [] then Some (pat, GRN_INVALID_ARGUMENT)
      else if grn_pat_error_if_truncated pat \<noteq> GRN_SUCCESS then Some (pat, grn_pat_error_if_truncated pat)
      else pat_delete env junk pat (KEY_ENCODE junk pat key) func)"

definition grn_pat_delete_by_id ::
    "pat_env \<Rightarrow> byte list \<Rightarrow> grn_pat \<Rightarrow> grn_id \<Rightarrow> (grn_id \<Rightarrow> bool) option \<Rightarrow> (grn_pat \<times> grn_rc) option" where
  "grn_pat_delete_by_id env junk pat rid func =
     (if rid = GRN_ID_NIL then Some (pat, GRN_INVALID_ARGUMENT)
      else if grn_pat_error_if_truncated pat \<noteq> GRN_SUCCESS then Some (pat, grn_pat_error_if_truncated pat)
      else pat_delete env junk pat (case pat_key pat rid of None \<Rightarrow> [] | Some key \<Rightarrow> key) func)"

definition grn_pat_size :: "grn_pat \<Rightarrow> u32" where
  "grn_pat_size pat = (if grn_pat_error_if_truncated pat \<noteq> GRN_SUCCESS then 0 else p_n_entries pat)"

definition grn_pat_curr_id :: "grn_pat \<Rightarrow> grn_id" where
  "grn_pat_curr_id pat = (if grn_pat_error_if_truncated pat \<noteq> GRN_SUCCESS then GRN_ID_NIL else p_curr_rec pat)"

section \<open>Searches\<close>

text \<open>\<^verbatim>\<open>get_tc\<close>: the records below a node, those on the right first.\<close>

function get_tc :: "grn_pat \<Rightarrow> pat_node \<Rightarrow> grn_id list" where
  "get_tc pat rn =
     (let side = (\<lambda>rid. if rid = GRN_ID_NIL then []
                        else case PAT_AT pat rid of
                               None \<Rightarrow> []
                             | Some node \<Rightarrow>
                                 if pat_node_get_check rn < pat_node_get_check node then get_tc pat node else [rid])
      in side (pn_right rn) @ side (pn_left rn))"
  by pat_completeness auto
termination
proof (relation "measure (\<lambda>(pat, rn). nat (2 ^ 16 - pat_node_get_check rn))")
  fix pat :: grn_pat and rn node :: pat_node
  assume lt: "pat_node_get_check rn < pat_node_get_check node"
  have "pat_node_get_check node < 2 ^ 16"
    using uint_lt2p [of "pn_check node"] by (simp add: pat_node_get_check_def)
  then show "((pat, node), pat, rn) \<in> measure (\<lambda>(pat, rn). nat (2 ^ 16 - pat_node_get_check rn))" using lt by simp
qed simp

declare get_tc.simps [simp del]

function prefix_loop :: "grn_pat \<Rightarrow> byte list \<Rightarrow> int \<Rightarrow> grn_id \<Rightarrow> grn_id list \<times> grn_rc" where
  "prefix_loop pat key c0 r =
     (let len = int (length key) * 16
      in if r = GRN_ID_NIL then ([], GRN_END_OF_DATA)
         else
           case PAT_AT pat r of
             None \<Rightarrow> ([], GRN_FILE_CORRUPT)
           | Some rn \<Rightarrow>
               let c = pat_node_get_check rn
               in if c0 < c \<and> c < len - 1 then prefix_loop pat key c (id_at pat (grn_pat_next_location r key c len))
                  else
                    case pat_node_get_key pat r of
                      None \<Rightarrow> ([], GRN_END_OF_DATA)
                    | Some k \<Rightarrow>
                        if length k < length key then ([], GRN_END_OF_DATA)
                        else if take (length key) k = key then (if len - 1 \<le> c then get_tc pat rn else [r], GRN_SUCCESS)
                        else ([], GRN_END_OF_DATA))"
  by pat_completeness auto
termination
  by (relation "measure (\<lambda>(pat, key, c0, r). nat (int (length key) * 16 - c0))") auto

declare prefix_loop.simps [simp del]

definition grn_pat_prefix_search :: "byte list \<Rightarrow> grn_pat \<Rightarrow> byte list \<Rightarrow> grn_id list \<times> grn_rc" where
  "grn_pat_prefix_search junk pat key =
     (if grn_pat_error_if_truncated pat \<noteq> GRN_SUCCESS then ([], grn_pat_error_if_truncated pat)
      else if key = [] then ([], GRN_END_OF_DATA)
      else prefix_loop pat (KEY_ENCODE junk pat key) (- 1) (id_at pat root_location))"

text \<open>\<^verbatim>\<open>grn_pat_lcp_search\<close>.  At a node where keys end, the key on the left is a candidate.\<close>

function lcp_loop :: "grn_pat \<Rightarrow> byte list \<Rightarrow> int \<Rightarrow> grn_id \<Rightarrow> grn_id \<Rightarrow> grn_id" where
  "lcp_loop pat key c0 r r2 =
     (let len = PAT_CHECK_PACK (int (length key)) 0 False
      in if r = GRN_ID_NIL then r2
         else
           case PAT_AT pat r of
             None \<Rightarrow> r2
           | Some rn \<Rightarrow>
               let c = pat_node_get_check rn
               in if c \<le> c0 then
                    if pat_node_get_key_length rn \<le> length key then
                      (case pat_node_get_key pat r of
                         None \<Rightarrow> r2
                       | Some p \<Rightarrow> if p = take (length p) key then r else r2)
                    else r2
                  else if len \<le> c then r2
                  else if PAT_CHECK_IS_TERMINATED c then
                    let r0 = pn_left rn
                    in (case PAT_AT pat r0 of
                          None \<Rightarrow> r2
                        | Some rn0 \<Rightarrow>
                            (case pat_node_get_key pat r0 of
                               None \<Rightarrow> r2
                             | Some p \<Rightarrow>
                                 lcp_loop pat key c (id_at pat (grn_pat_next_location r key c len))
                                   (if length p \<le> length key \<and> p = take (length p) key then r0 else r2)))
                  else lcp_loop pat key c (id_at pat (grn_pat_next_location r key c len)) r2)"
  by pat_completeness auto
termination
  by (relation "measure (\<lambda>(pat, key, c0, r, r2). nat (PAT_CHECK_PACK (int (length key)) 0 False - c0))") auto

declare lcp_loop.simps [simp del]

definition grn_pat_lcp_search :: "grn_pat \<Rightarrow> byte list \<Rightarrow> grn_id" where
  "grn_pat_lcp_search pat key =
     (if grn_pat_error_if_truncated pat \<noteq> GRN_SUCCESS \<or> \<not> p_var_size pat then GRN_ID_NIL
      else lcp_loop pat key (- 1) (id_at pat root_location) GRN_ID_NIL)"

text \<open>
  \<^verbatim>\<open>sis_collect\<close>: the keys a key is a suffix of, with their levels.  \<open>ok\<close> says whether \<^verbatim>\<open>grn_hash_add\<close> succeeds for an id; when it does not,
  the loop goes on with the same id for ever.
\<close>

partial_function (option) sis_collect_loop :: "(grn_id \<Rightarrow> bool) \<Rightarrow> grn_pat \<Rightarrow> grn_id \<Rightarrow> grn_id \<Rightarrow> nat \<Rightarrow> (grn_id \<times> nat) list option" where
  "sis_collect_loop ok pat rid sid level =
     (if sid = GRN_ID_NIL \<or> sid = rid then Some []
      else if \<not> ok sid then sis_collect_loop ok pat rid sid level
      else do {
        below \<leftarrow> (if level < 16 \<and> sis_at pat sid then sis_collect_loop ok pat sid (sis_children (p_sis pat sid)) (level + 1) else Some []);
        rest \<leftarrow> (if sis_at pat sid then sis_collect_loop ok pat rid (sis_sibling (p_sis pat sid)) level else Some []);
        Some ((sid, level) # below @ rest)
      })"

definition sis_collect :: "(grn_id \<Rightarrow> bool) \<Rightarrow> grn_pat \<Rightarrow> grn_id \<Rightarrow> nat \<Rightarrow> (grn_id \<times> nat) list option" where
  "sis_collect ok pat rid level =
     (if sis_at pat rid then sis_collect_loop ok pat rid (sis_children (p_sis pat rid)) level else Some [])"

definition grn_pat_suffix_search ::
    "pat_env \<Rightarrow> byte list \<Rightarrow> (grn_id \<Rightarrow> bool) \<Rightarrow> grn_pat \<Rightarrow> byte list \<Rightarrow> ((grn_id \<times> nat) list \<times> grn_rc) option" where
  "grn_pat_suffix_search env junk ok pat key =
     (let r = snd (grn_pat_get env junk pat key False)
      in if r = GRN_ID_NIL \<or> \<not> ok r then Some ([], GRN_END_OF_DATA)
         else do {
           l \<leftarrow> (if p_with_sis pat then sis_collect ok pat r 1 else Some []);
           Some ((r, 0) # l, GRN_SUCCESS)
         })"

end
