(* ===== verification/PatPrefix.thy ===== *)
theory PatPrefix
  imports PatInv PatSearch
begin

text \<open>
  The search for the keys with a given prefix is exact: it delivers all records whose keys begin with the given bytes, each once, and no
  other record, also when inner nodes wait to be replaced after deletions.
\<close>

section \<open>Prefixes and bits\<close>

lemma kbit_byte:
  assumes "j < length key" and "b < 8"
  shows "kbit key (16 * int j + 2 * int b) \<longleftrightarrow> bit (key ! j) (7 - b)"
proof -
  have "(16 * int j + 2 * int b) mod 2 = 0" by presburger
  moreover have "(16 * int j + 2 * int b) div 16 = int j" "(16 * int j + 2 * int b) div 2 mod 8 = int b" using assms(2) by presburger+
  ultimately show ?thesis by (simp add: kbit_even)
qed

lemma agree_take:
  assumes "agree_below c x y" and "16 * int n - 1 \<le> c" and "n \<le> length x" and "n \<le> length y"
  shows "take n x = take n y"
proof (rule nth_equalityI)
  fix j assume "j < length (take n x)"
  then have j: "j < n" "j < length x" "j < length y" using assms(3,4) by simp_all
  have "x ! j = y ! j"
  proof (rule bit_word_eqI)
    fix m :: nat assume "m < LENGTH(8)"
    then have m: "7 - m < 8" "7 - (7 - m) = m" by auto
    have "16 * int j + 2 * int (7 - m) < c" using j(1) m(1) assms(2) by linarith
    then have "kbit x (16 * int j + 2 * int (7 - m)) = kbit y (16 * int j + 2 * int (7 - m))"
      by (intro agree_belowD [OF assms(1)]) auto
    then show "bit (x ! j) m = bit (y ! j) m" using kbit_byte [OF j(2) m(1)] kbit_byte [OF j(3) m(1)] m(2) by simp
  qed
  then show "take n x ! j = take n y ! j" using j(1) by simp
qed (use assms in simp)

lemma prefix_take: "prefix key k \<longleftrightarrow> length key \<le> length k \<and> take (length key) k = key"
  by (metis append_eq_conv_conj length_append linorder_not_le not_add_less1 prefix_def take_is_prefix prefix_length_le)

lemma prefix_kbit:
  assumes "prefix key k" and "0 \<le> c" and "c < klen key - 1"
  shows "kbit k c = kbit key c"
proof (cases "c mod 2 = 0")
  case True
  have "nat (c div 16) < length key" using assms(2,3) by (simp add: klen_def)
  then have "k ! nat (c div 16) = key ! nat (c div 16)" using assms(1) by (auto simp: prefix_def nth_append)
  then show ?thesis using True by (simp add: kbit_even)
next
  case False
  then have odd: "c mod 2 = 1" by presburger
  have "klen key \<le> klen k" using prefix_length_le [OF assms(1)] by (simp add: klen_def)
  then show ?thesis using assms(3) by (simp add: kbit_odd [OF odd])
qed

section \<open>The search on the tree\<close>

fun right_records :: "ptree \<Rightarrow> grn_id list" where
  "right_records Empty = []"
| "right_records (Record r) = [r]"
| "right_records (Inner i c l r) = right_records r @ right_records l"

lemma mset_right_records: "mset (right_records t) = mset (records t)"
  by (induction t) auto

fun tree_prefix :: "(grn_id \<Rightarrow> byte list) \<Rightarrow> byte list \<Rightarrow> ptree \<Rightarrow> grn_id list \<times> grn_rc" where
  "tree_prefix K key Empty = ([], GRN_END_OF_DATA)"
| "tree_prefix K key (Record r) = (if prefix key (K r) then ([r], GRN_SUCCESS) else ([], GRN_END_OF_DATA))"
| "tree_prefix K key (Inner i k l r) =
     (if k < klen key - 1 then tree_prefix K key (child key k l r)
      else if prefix key (K i) then (right_records (Inner i k l r), GRN_SUCCESS) else ([], GRN_END_OF_DATA))"

lemma get_tc_side:
  assumes "tree_at (p_nodes pat) c rid t" and "\<And>m. m \<in> members t \<Longrightarrow> PAT_AT pat m \<noteq> None"
  shows "(if rid = GRN_ID_NIL then []
      else case PAT_AT pat rid of None \<Rightarrow> []
        | Some node \<Rightarrow> if c < pat_node_get_check node then get_tc pat node else [rid]) = right_records t"
  using assms
proof (induction t arbitrary: c rid)
  case (Record q)
  have "PAT_AT pat q \<noteq> None" using Record.prems(2) [of q] by simp
  then have "PAT_AT pat q = Some (p_nodes pat q)" by (auto simp: PAT_AT_def split: if_splits)
  then show ?case using Record.prems(1) by auto
next
  case (Inner i k l r)
  have "PAT_AT pat i \<noteq> None" using Inner.prems(2) [of i] by simp
  then have at: "PAT_AT pat i = Some (p_nodes pat i)" by (auto simp: PAT_AT_def split: if_splits)
  have i: "rid = i" "i \<noteq> 0" "pat_node_get_check (p_nodes pat i) = k" "c < k"
    and t: "tree_at (p_nodes pat) k (pn_left (p_nodes pat i)) l" "tree_at (p_nodes pat) k (pn_right (p_nodes pat i)) r"
    using Inner.prems(1) by auto
  have m: "m \<in> members l \<Longrightarrow> PAT_AT pat m \<noteq> None" "m \<in> members r \<Longrightarrow> PAT_AT pat m \<noteq> None" for m
    using Inner.prems(2) [of m] by auto
  have "get_tc pat (p_nodes pat i) = right_records r @ right_records l"
    by (subst get_tc.simps) (simp only: Let_def i(3) Inner.IH(1) [OF t(1) m(1)] Inner.IH(2) [OF t(2) m(2)])
  then show ?case using at i by simp
qed simp

lemma get_tc_tree:
  assumes "tree_at (p_nodes pat) c i (Inner i k l r)" and "\<And>m. m \<in> members (Inner i k l r) \<Longrightarrow> PAT_AT pat m \<noteq> None"
  shows "get_tc pat (p_nodes pat i) = right_records (Inner i k l r)"
  using get_tc_side [OF assms] assms(1) assms(2) [of i] by (auto simp: PAT_AT_def split: if_splits)

lemma prefix_loop_tree:
  assumes "tree_at (p_nodes pat) c0 rid t" and "\<And>m. m \<in> members t \<Longrightarrow> readable pat K m" and "c0 < klen key - 1"
  shows "prefix_loop pat key c0 rid = tree_prefix K key t"
  using assms
proof (induction t arbitrary: c0 rid)
  case Empty
  then show ?case by (subst prefix_loop.simps) (simp add: Let_def)
next
  case (Record q)
  have "PAT_AT pat q = Some (p_nodes pat q)" "pat_node_get_key pat q = Some (K q)" using Record.prems(2) [of q] readableD by simp_all
  moreover have "int (length key) * 16 = klen key" by (simp add: klen_def)
  ultimately show ?case
    using Record.prems(1,3) by (subst prefix_loop.simps) (auto simp: Let_def prefix_take)
next
  case (Inner i k l r)
  have at: "PAT_AT pat i = Some (p_nodes pat i)" "pat_node_get_key pat i = Some (K i)" using Inner.prems(2) [of i] readableD by simp_all
  have i: "rid = i" "i \<noteq> 0" "pat_node_get_check (p_nodes pat i) = k" "c0 < k" using Inner.prems(1) by auto
  have len: "int (length key) * 16 = klen key" by (simp add: klen_def)
  show ?case
  proof (cases "k < klen key - 1")
    case True
    let ?rid = "if kbit key k then pn_right (p_nodes pat i) else pn_left (p_nodes pat i)"
    have "tree_at (p_nodes pat) k ?rid (child key k l r)" using Inner.prems(1) by auto
    moreover have "\<And>m. m \<in> members (child key k l r) \<Longrightarrow> readable pat K m" using Inner.prems(2) by (auto split: if_splits)
    ultimately have "prefix_loop pat key k ?rid = tree_prefix K key (child key k l r)"
      using Inner.IH(1) [of k ?rid] Inner.IH(2) [of k ?rid] True by (cases "kbit key k") simp_all
    then show ?thesis using True i at by (subst prefix_loop.simps) (simp add: Let_def len)
  next
    case False
    have "get_tc pat (p_nodes pat i) = right_records (Inner i k l r)"
      by (rule get_tc_tree) (use Inner.prems(1,2) i readable_def in auto)
    then show ?thesis using False i at by (subst prefix_loop.simps) (auto simp: Let_def len prefix_take)
  qed
qed

text \<open>The search is exact.\<close>

lemma tree_prefix_exact:
  assumes "key_tree K t" and "increasing (- 1) t" and "owned ow t" and "tree_prefix K key t = (found, rc)"
  shows "mset found = mset (filter (\<lambda>r. prefix key (K r)) (records t)) \<and> rc = (if found = [] then GRN_END_OF_DATA else GRN_SUCCESS)"
  using assms
proof (induction t)
  case (Inner i k l r)
  have k0: "0 \<le> k" using Inner.prems(2) by simp
  have mono: "increasing c s \<Longrightarrow> c' \<le> c \<Longrightarrow> increasing c' s" for c c' s by (cases s) auto
  show ?case
  proof (cases "k < klen key - 1")
    case True
    let ?ch = "child key k l r" and ?ot = "if kbit key k then l else r"
    have "tree_prefix K key ?ch = (found, rc)" using Inner.prems(4) True by simp
    moreover have "key_tree K ?ch" "increasing (- 1) ?ch" "owned ow ?ch"
      using Inner.prems(1,2,3) k0 mono [of k _ "- 1"] by auto
    ultimately have IH: "mset found = mset (filter (\<lambda>r. prefix key (K r)) (records ?ch)) \<and> rc = (if found = [] then GRN_END_OF_DATA else GRN_SUCCESS)"
      using Inner.IH by (cases "kbit key k") simp_all
    have "\<not> prefix key (K m)" if "m \<in> set (records ?ot)" for m
    proof
      assume "prefix key (K m)"
      then have "kbit (K m) k = kbit key k" by (rule prefix_kbit [OF _ k0 True])
      moreover have "kbit (K m) k \<noteq> kbit key k" using Inner.prems(1) that by (auto split: if_splits)
      ultimately show False by simp
    qed
    then have "filter (\<lambda>r. prefix key (K r)) (records ?ot) = []" by (simp add: filter_empty_conv)
    then show ?thesis using IH by (cases "kbit key k") simp_all
  next
    case False
    have len: "length key \<le> length (K m)" if "m \<in> members (Inner i k l r)" for m
    proof -
      have "k < klen (K m)" using key_tree_member(1) [OF Inner.prems(1) that] by simp
      then show ?thesis using False by (simp add: klen_def)
    qed
    have eq: "prefix key (K m) = prefix key (K i)" if "m \<in> members (Inner i k l r)" for m
    proof -
      have "agree_below k (K i) (K m)" using Inner.prems(1)
        by (simp only: key_tree.simps) (use that in blast)
      then have "take (length key) (K i) = take (length key) (K m)"
        by (rule agree_take) (use False len [OF that] len [of i] in \<open>auto simp: klen_def\<close>)
      then show ?thesis using len [OF that] len [of i] by (simp add: prefix_take)
    qed
    have recs: "records (Inner i k l r) \<noteq> []" using Inner.prems(3) by auto
    show ?thesis
    proof (cases "prefix key (K i)")
      case True
      then have "filter (\<lambda>r. prefix key (K r)) (records (Inner i k l r)) = records (Inner i k l r)"
        by (intro filter_True) (use eq in blast)
      moreover have "found = right_records (Inner i k l r)" "rc = GRN_SUCCESS" using Inner.prems(4) False True by auto
      ultimately show ?thesis using mset_right_records [of "Inner i k l r"] recs by (metis mset_zero_iff)
    next
      case np: False
      then have "filter (\<lambda>r. prefix key (K r)) (records (Inner i k l r)) = []"
        unfolding filter_empty_conv using eq by blast
      then show ?thesis using Inner.prems(4) False np by simp
    qed
  qed
qed (auto split: if_splits)

theorem prefix_search_content:
  assumes inv: "pat_inv pat t ow gs" and key: "KEY_ENCODE junk pat key \<noteq> []" "key \<noteq> []"
    and res: "grn_pat_prefix_search junk pat key = (found, rc)"
  shows "distinct found" and "set found = {r. \<exists>k. content pat r = Some k \<and> prefix (KEY_ENCODE junk pat key) k}"
    and "rc = (if found = [] then GRN_END_OF_DATA else GRN_SUCCESS)"
proof -
  note i = pat_invD [OF inv]
  note T = tree_okD [OF i(2)]
  let ?key = "KEY_ENCODE junk pat key"
  have "grn_pat_prefix_search junk pat key = prefix_loop pat ?key (- 1) (link (p_nodes pat) root_location)"
    using i(9) key(2) by (simp add: grn_pat_prefix_search_def grn_pat_error_if_truncated_def id_at_link)
  also have "\<dots> = tree_prefix (node_key pat) ?key t"
    by (rule prefix_loop_tree [OF T(1)]) (use store_ok_readable(1) [OF i(1)] T(5) klen_pos [OF key(1)] in \<open>blast | simp\<close>)+
  finally have "tree_prefix (node_key pat) ?key t = (found, rc)" using res by simp
  from tree_prefix_exact [OF T(2) tree_at_increasing [OF T(1)] _ this]
  have m: "mset found = mset (filter (\<lambda>r. prefix ?key (node_key pat r)) (records t))" and rc: "rc = (if found = [] then GRN_END_OF_DATA else GRN_SUCCESS)"
    using i(3) by (auto simp: owner_ok_def)
  show "distinct found" using mset_eq_imp_distinct_iff [OF m] distinct_filter [OF T(4)] by simp
  have "set found = set (filter (\<lambda>r. prefix ?key (node_key pat r)) (records t))" by (rule mset_eq_setD [OF m])
  then show "set found = {r. \<exists>k. content pat r = Some k \<and> prefix ?key k}" by (auto simp: content_Some [OF i(2)])
  show "rc = (if found = [] then GRN_END_OF_DATA else GRN_SUCCESS)" by (rule rc)
qed

end
