(* ===== verification/StrPath.thy ===== *)
theory StrPath
  imports Prelude
begin

text \<open>
  The normalisation of the path of a URL, \<^verbatim>\<open>grn_str_url_path_normalize\<close> of \<^verbatim>\<open>lib/str.c\<close>, which the HTTP server uses to find a
  static file under its document root.  The output buffer is written through a pointer that also moves backwards, so
  the memory is modelled around the buffer: \<open>mem i\<close> is the byte at \<^verbatim>\<open>buf + i\<close>, for negative \<open>i\<close> too.  The only caller,
  \<^verbatim>\<open>proc_missing\<close> of \<^verbatim>\<open>lib/proc.c\<close>, puts a slash in front of the buffer.
\<close>

abbreviation ch_slash :: byte where "ch_slash \<equiv> 0x2f"
abbreviation ch_dot :: byte where "ch_dot \<equiv> 0x2e"

definition buf_write :: "(int \<Rightarrow> byte) \<Rightarrow> int \<Rightarrow> byte list \<Rightarrow> int \<Rightarrow> byte" where
  "buf_write mem b s = (\<lambda>i. if b \<le> i \<and> i < b + int (length s) then s ! nat (i - b) else mem i)"

text \<open>\<^verbatim>\<open>for (; *b != '/' && b >= buf; b--)\<close>\<close>

function back_to_slash :: "(int \<Rightarrow> byte) \<Rightarrow> int \<Rightarrow> int" where
  "back_to_slash mem b = (if mem b \<noteq> ch_slash \<and> 0 \<le> b then back_to_slash mem (b - 1) else b)"
  by pat_completeness auto
termination
  by (relation "measure (\<lambda>(mem, b). nat (b + 1))") auto

declare back_to_slash.simps [simp del]

text \<open>
  The main loop.  \<open>be\<close> is the last position of the buffer, \<open>p\<close> the rest of the path and \<open>err\<close> whether the error was raised.
  A component that does not fit is tried again for ever.
\<close>

partial_function (option) url_normalize_loop ::
  "int \<Rightarrow> (int \<Rightarrow> byte) \<Rightarrow> int \<Rightarrow> byte list \<Rightarrow> bool \<Rightarrow> ((int \<Rightarrow> byte) \<times> int \<times> bool) option" where
  "url_normalize_loop be mem b p err =
     (if p = [] then Some (mem, b, err)
      else
        let seg = takeWhile (\<lambda>c. c \<noteq> ch_slash) p; pc = dropWhile (\<lambda>c. c \<noteq> ch_slash) p
        in if seg = [ch_dot, ch_dot] then
             let b = (if 2 \<le> b then back_to_slash mem (b - 2) else b)
             in if mem b = ch_slash then url_normalize_loop be mem (b + 1) (drop 1 pc) True
                else url_normalize_loop be mem b (drop 1 pc) err
           else if seg = [ch_dot] then url_normalize_loop be mem b (drop 1 pc) err
           else if int (length seg) \<le> be - b then
             let mem = buf_write mem b seg; b = b + int (length seg)
             in if pc \<noteq> [] \<and> b < be then url_normalize_loop be (buf_write mem b [ch_slash]) (b + 1) (drop 1 pc) err
                else url_normalize_loop be mem b pc err
           else url_normalize_loop be mem b p err)"

definition grn_str_url_path_normalize ::
  "(int \<Rightarrow> byte) \<Rightarrow> byte list \<Rightarrow> nat \<Rightarrow> ((int \<Rightarrow> byte) \<times> int \<times> bool) option" where
  "grn_str_url_path_normalize mem path buf_len =
     (if buf_len < 2 then Some (mem, 0, False)
      else
        case url_normalize_loop (int buf_len - 1) mem 0 path False of
          None \<Rightarrow> None
        | Some (mem, b, err) \<Rightarrow> Some (buf_write mem b [0], b, err))"

section \<open>The components written so far\<close>

definition good_component :: "byte list \<Rightarrow> bool" where
  "good_component c \<longleftrightarrow> ch_slash \<notin> set c \<and> c \<noteq> [ch_dot] \<and> c \<noteq> [ch_dot, ch_dot]"

definition path_of :: "byte list list \<Rightarrow> byte list" where
  "path_of cs = concat (map (\<lambda>c. c @ [ch_slash]) cs)"

text \<open>\<open>holds mem s\<close>: the buffer starts with \<open>s\<close>, and a slash stands in front of it.\<close>

definition holds :: "(int \<Rightarrow> byte) \<Rightarrow> byte list \<Rightarrow> bool" where
  "holds mem s \<longleftrightarrow> mem (-1) = ch_slash \<and> (\<forall>i < length s. mem (int i) = s ! i)"

lemma path_of_snoc: "path_of (cs @ [c]) = path_of cs @ c @ [ch_slash]"
  by (simp add: path_of_def)

lemma path_of_last: "path_of cs = [] \<or> last (path_of cs) = ch_slash"
  by (cases cs rule: rev_cases) (simp_all add: path_of_snoc, simp add: path_of_def)

lemma buf_write_outside: "i < b \<or> b + int (length s) \<le> i \<Longrightarrow> buf_write mem b s i = mem i"
  by (auto simp: buf_write_def)

lemma holds_write:
  assumes "holds mem s"
  shows "holds (buf_write mem (int (length s)) t) (s @ t)"
  unfolding holds_def
proof (intro conjI allI impI)
  show "buf_write mem (int (length s)) t (- 1) = ch_slash" using assms by (simp add: holds_def buf_write_def)
  fix i assume "i < length (s @ t)"
  then show "buf_write mem (int (length s)) t (int i) = (s @ t) ! i"
    using assms by (auto simp: holds_def buf_write_def nth_append nat_diff_distrib')
qed

lemma holds_prefix: "holds mem (s @ t) \<Longrightarrow> holds mem s"
  by (auto simp: holds_def nth_append)

lemma holds_last:
  assumes "holds mem s" "s = [] \<or> last s = ch_slash"
  shows "mem (int (length s) - 1) = ch_slash"
proof (cases "s = []")
  case False
  then have "mem (int (length s - 1)) = s ! (length s - 1)" using assms(1) by (simp add: holds_def)
  then show ?thesis using False assms(2) by (simp add: last_conv_nth of_nat_diff Suc_leI)
qed (use assms in \<open>simp add: holds_def\<close>)

text \<open>Going back over the last component ends at the slash in front of it.\<close>

lemma back_over_component:
  assumes "holds mem (s @ c)" "ch_slash \<notin> set c" "s = [] \<or> last s = ch_slash"
  shows "back_to_slash mem (int (length s) + int (length c) - 1) = int (length s) - 1"
  using assms
proof (induction c rule: rev_induct)
  case Nil
  then show ?case using holds_last [of mem s] by (subst back_to_slash.simps) simp
next
  case (snoc x c)
  have "mem (int (length s) + int (length c)) = x"
    using snoc.prems(1) unfolding holds_def by (auto simp: nth_append dest: spec [of _ "length s + length c"])
  then show ?case using snoc holds_prefix [of mem "s @ c" "[x]"] by (subst back_to_slash.simps) (simp add: add.assoc)
qed

lemma back_over_last:
  assumes "holds mem (path_of (cs @ [c]))" "ch_slash \<notin> set c"
  shows "back_to_slash mem (int (length (path_of (cs @ [c]))) - 2) = int (length (path_of cs)) - 1"
    and "mem (int (length (path_of cs)) - 1) = ch_slash"
proof -
  have h: "holds mem (path_of cs @ c)" using assms(1) holds_prefix [of mem "path_of cs @ c" "[ch_slash]"] by (simp add: path_of_snoc)
  show "back_to_slash mem (int (length (path_of (cs @ [c]))) - 2) = int (length (path_of cs)) - 1"
    using back_over_component [OF h assms(2) path_of_last] by (simp add: path_of_snoc algebra_simps)
  show "mem (int (length (path_of cs)) - 1) = ch_slash"
    using holds_last [OF holds_prefix [OF h] path_of_last] .
qed

text \<open>
  What a parent component does: it drops the last component; when there is none it may take up a stale slash of
  the buffer, which adds an empty component.
\<close>

lemma parent_step:
  assumes "holds mem (path_of cs)" "\<forall>c \<in> set cs. good_component c"
  defines "b \<equiv> int (length (path_of cs))"
  defines "b1 \<equiv> (if 2 \<le> b then back_to_slash mem (b - 2) else b)"
  shows "\<exists>cs'. (if mem b1 = ch_slash then b1 + 1 else b1) = int (length (path_of cs')) \<and> holds mem (path_of cs') \<and>
    (\<forall>c \<in> set cs'. good_component c) \<and> length (path_of cs') \<le> length (path_of cs) + 1"
proof (cases "2 \<le> b")
  case True
  then have "path_of cs \<noteq> []" by (auto simp: b_def)
  then obtain ds c where cs: "cs = ds @ [c]" by (cases cs rule: rev_cases) (auto simp: path_of_def)
  have "ch_slash \<notin> set c" using assms(2) by (simp add: cs good_component_def)
  note k = back_over_last [OF assms(1) [unfolded cs] this]
  have "b1 = int (length (path_of ds)) - 1" using True k(1) by (simp add: b1_def b_def cs)
  then show ?thesis using k(2) assms(1,2) holds_prefix [of mem "path_of ds" "c @ [ch_slash]"]
    by (intro exI [of _ ds]) (simp add: cs path_of_snoc)
next
  case False
  then have b1: "b1 = b" by (simp add: b1_def)
  show ?thesis
  proof (cases "mem b = ch_slash")
    case t: True
    have "holds mem (path_of (cs @ [[]]))"
      using assms(1) t by (auto simp: holds_def path_of_snoc nth_append b_def less_Suc_eq)
    then show ?thesis using t assms(2) b1 by (intro exI [of _ "cs @ [[]]"]) (simp add: path_of_snoc good_component_def b_def)
  next
    case f: False
    then show ?thesis using assms(1,2) b1 by (intro exI [of _ cs]) (simp add: b_def)
  qed
qed

section \<open>The path is normalised\<close>

text \<open>\<open>normalised be mem mem' b\<close>: the outcome in the memory.\<close>

definition normalised :: "int \<Rightarrow> (int \<Rightarrow> byte) \<Rightarrow> (int \<Rightarrow> byte) \<Rightarrow> int \<Rightarrow> bool" where
  "normalised be mem mem' b \<longleftrightarrow>
     (\<exists>cs c. b = int (length (path_of cs @ c)) \<and> holds mem' (path_of cs @ c) \<and> (\<forall>x \<in> set (c # cs). good_component x)) \<and>
     b \<le> be \<and> (\<forall>i. i < 0 \<or> be < i \<longrightarrow> mem' i = mem i)"

lemma normalised_trans:
  "normalised be mem' mem'' b \<Longrightarrow> (\<forall>i. i < 0 \<or> be < i \<longrightarrow> mem' i = mem i) \<Longrightarrow> normalised be mem mem'' b"
  by (auto simp: normalised_def)

lemma takeWhile_no_slash: "ch_slash \<notin> set (takeWhile (\<lambda>c. c \<noteq> ch_slash) p)"
  by (auto dest: set_takeWhileD)

lemma url_normalize_loop_component:
  assumes "takeWhile (\<lambda>c. c \<noteq> ch_slash) p = seg" "dropWhile (\<lambda>c. c \<noteq> ch_slash) p = pc"
    and "good_component seg" "int (length seg) \<le> be - b" "p \<noteq> []"
  shows "url_normalize_loop be mem b p err =
    (if pc \<noteq> [] \<and> b + int (length seg) < be
     then url_normalize_loop be (buf_write (buf_write mem b seg) (b + int (length seg)) [ch_slash]) (b + int (length seg) + 1) (drop 1 pc) err
     else url_normalize_loop be (buf_write mem b seg) (b + int (length seg)) pc err)"
proof -
  have "seg \<noteq> [ch_dot]" "seg \<noteq> [ch_dot, ch_dot]" using assms(3) by (simp_all add: good_component_def)
  then show ?thesis using assms(4,5) by (subst url_normalize_loop.simps) (simp only: assms(1,2) Let_def if_False simp_thms if_True)
qed

lemma url_normalize_loop_ok:
  assumes "holds mem (path_of cs)" "\<forall>c \<in> set cs. good_component c" "int (length (path_of cs)) + int (length p) \<le> be"
  shows "\<exists>mem' b err'. url_normalize_loop be mem (int (length (path_of cs))) p err = Some (mem', b, err') \<and> normalised be mem mem' b"
  using assms
proof (induction "length p" arbitrary: mem cs p err rule: less_induct)
  case less
  define b where "b = int (length (path_of cs))"
  define seg where "seg = takeWhile (\<lambda>c. c \<noteq> ch_slash) p"
  define pc where "pc = dropWhile (\<lambda>c. c \<noteq> ch_slash) p"
  have p: "p = seg @ pc" by (simp add: seg_def pc_def)
  have shorter: "length (drop 1 pc) < length p" if "p \<noteq> []" using that p by (cases pc) auto
  consider (empty) "p = []" | (parent) "p \<noteq> []" "seg = [ch_dot, ch_dot]" | (self) "p \<noteq> []" "seg = [ch_dot]"
    | (inner) "good_component seg" "pc \<noteq> []" | (final) "p \<noteq> []" "good_component seg" "pc = []"
    using takeWhile_no_slash [of p] by (auto simp: good_component_def seg_def [symmetric])
  then show ?case
  proof cases
    case empty
    have "normalised be mem mem b"
      unfolding normalised_def using less.prems empty
      by (intro conjI exI [of _ cs] exI [of _ "[]"]) (simp_all add: good_component_def b_def)
    then show ?thesis using empty by (subst url_normalize_loop.simps) (auto simp: b_def)
  next
    case parent
    define b1 where "b1 = (if 2 \<le> b then back_to_slash mem (b - 2) else b)"
    have step: "url_normalize_loop be mem b p err =
        url_normalize_loop be mem (if mem b1 = ch_slash then b1 + 1 else b1) (drop 1 pc) (mem b1 = ch_slash \<or> err)"
      using parent by (subst url_normalize_loop.simps) (simp add: Let_def b1_def flip: seg_def pc_def)
    obtain ds where ds: "(if mem b1 = ch_slash then b1 + 1 else b1) = int (length (path_of ds))" "holds mem (path_of ds)"
        "\<forall>c \<in> set ds. good_component c" "length (path_of ds) \<le> length (path_of cs) + 1"
      using parent_step [OF less.prems(1,2), folded b_def, folded b1_def] by blast
    have "length (drop 1 pc) + 2 \<le> length p" using parent p by simp
    then have "int (length (path_of ds)) + int (length (drop 1 pc)) \<le> be" using ds(4) less.prems(3) by linarith
    from less.hyps [OF shorter [OF parent(1)] ds(2,3) this, of "mem b1 = ch_slash \<or> err"]
    show ?thesis using step ds(1) by (simp add: b_def)
  next
    case self
    have step: "url_normalize_loop be mem b p err = url_normalize_loop be mem b (drop 1 pc) err"
      using self by (subst url_normalize_loop.simps) (simp add: Let_def flip: seg_def pc_def)
    have "int (length (path_of cs)) + int (length (drop 1 pc)) \<le> be" using shorter [OF self(1)] less.prems(3) by linarith
    from less.hyps [OF shorter [OF self(1)] less.prems(1,2) this, of err] show ?thesis using step by (simp add: b_def)
  next
    case inner
    let ?m = "buf_write (buf_write mem b seg) (b + int (length seg)) [ch_slash]"
    have ne: "p \<noteq> []" using p inner by simp
    have fits: "b + int (length seg) < be" "length p = length seg + Suc (length (drop 1 pc))"
      using less.prems(3) p inner by (cases pc; simp add: b_def)+
    have step: "url_normalize_loop be mem b p err = url_normalize_loop be ?m (b + int (length seg) + 1) (drop 1 pc) err"
      using url_normalize_loop_component [OF seg_def [symmetric] pc_def [symmetric] inner(1) _ ne, of be b mem err] fits inner by simp
    have h: "holds ?m (path_of (cs @ [seg]))"
      using holds_write [OF holds_write [OF less.prems(1)], of seg "[ch_slash]"] by (simp add: b_def path_of_snoc)
    have g: "\<forall>c \<in> set (cs @ [seg]). good_component c" using less.prems(2) inner(1) by simp
    have l: "int (length (path_of (cs @ [seg]))) + int (length (drop 1 pc)) \<le> be"
      using less.prems(3) fits(2) by (simp add: path_of_snoc)
    have "\<forall>i. i < 0 \<or> be < i \<longrightarrow> ?m i = mem i" using fits(1) by (auto simp: buf_write_def b_def)
    then show ?thesis using less.hyps [OF shorter [OF ne] h g l, of err] step normalised_trans [of be ?m _ _ mem]
      by (auto simp: b_def path_of_snoc algebra_simps)
  next
    case final
    let ?m = "buf_write mem b seg"
    have fits: "b + int (length seg) \<le> be" using less.prems(3) p final by (simp add: b_def)
    have "url_normalize_loop be mem b p err = url_normalize_loop be ?m (b + int (length seg)) [] err"
      using url_normalize_loop_component [OF seg_def [symmetric] pc_def [symmetric] final(2) _ final(1), of be b mem err] fits final(3) by simp
    also have "\<dots> = Some (?m, b + int (length seg), err)" by (subst url_normalize_loop.simps) simp
    finally have r: "url_normalize_loop be mem b p err = Some (?m, b + int (length seg), err)" .
    have "holds ?m (path_of cs @ seg)" using holds_write [OF less.prems(1)] by (simp add: b_def)
    then have "normalised be mem ?m (b + int (length seg))"
      unfolding normalised_def using less.prems(2) final(2) fits
      by (intro conjI exI [of _ cs] exI [of _ seg]) (auto simp: b_def buf_write_def)
    then show ?thesis using r by (auto simp: b_def)
  qed
qed

text \<open>A component that does not fit in the rest of the buffer is tried for ever.\<close>

lemma url_normalize_loop_stuck:
  assumes "good_component p" "p \<noteq> []" "be - b < int (length p)"
  shows "url_normalize_loop be mem b p err = None"
proof -
  have t: "takeWhile (\<lambda>c. c \<noteq> ch_slash) p = p" using assms(1) by (auto simp: good_component_def takeWhile_eq_all_conv)
  have never: "\<not> (be0 = be \<and> b0 = b \<and> p0 = p)" if "url_normalize_loop be0 mem0 b0 p0 err0 = Some r" for be0 mem0 b0 p0 err0 r
    using that
  proof (induct rule: url_normalize_loop.raw_induct [rotated, consumes 1, case_names body])
    case (body loop be0 mem0 b0 p0 err0 y)
    show ?case
    proof
      assume eq: "be0 = be \<and> b0 = b \<and> p0 = p"
      have "loop be0 mem0 b0 p0 err0 = Some y"
        using body(2) eq assms by (simp add: t Let_def good_component_def del: takeWhile_eq_all_conv)
      then show False using body(1) eq by blast
    qed
  qed
  show ?thesis
  proof (cases "url_normalize_loop be mem b p err")
    case (Some r)
    then show ?thesis using never [OF Some] by simp
  qed
qed

end
