(* ===== verification/StrTheorems.thy ===== *)
theory StrTheorems
  imports StrText StrPath
begin

text \<open>
  The properties of the text component: numbers in text and back, the compact encodings of numbers, the buffer that
  all output goes through, characters and escapes, and the normalisation of URL paths.
\<close>

section \<open>Numbers\<close>

text \<open>
  C36: the readers of decimal numbers are exact on the numbers that fit their type.  For a text that starts with at
  least one digit, after an optional minus sign for the signed readers, and whose digits are followed by something else or
  nothing: \<^verbatim>\<open>grn_atoi8\<close>, \<^verbatim>\<open>grn_atoi16\<close>, \<^verbatim>\<open>grn_atoi\<close> and \<^verbatim>\<open>grn_atoll\<close>, and the unsigned \<^verbatim>\<open>grn_atoui8\<close>, \<^verbatim>\<open>grn_atoui16\<close>, \<^verbatim>\<open>grn_atoui\<close> and
  \<^verbatim>\<open>grn_atoull\<close>, return the number and the position after the digits whenever the number is one of their type, the least
  one included.
\<close>

theorem readers_exact:
  assumes "\<forall>d \<in> set ds. is_digit d" "ds \<noteq> []" "ends_number r"
  shows "(fits_signed 8 neg (number_of ds) \<longrightarrow>
           sint (fst (grn_atoi8 (sign_text neg @ ds @ r))) = signed_number neg ds \<and> snd (grn_atoi8 (sign_text neg @ ds @ r)) = r)
    \<and> (fits_signed 16 neg (number_of ds) \<longrightarrow>
           sint (fst (grn_atoi16 (sign_text neg @ ds @ r))) = signed_number neg ds \<and> snd (grn_atoi16 (sign_text neg @ ds @ r)) = r)
    \<and> (fits_signed 32 neg (number_of ds) \<longrightarrow>
           sint (fst (grn_atoi (sign_text neg @ ds @ r))) = signed_number neg ds \<and> snd (grn_atoi (sign_text neg @ ds @ r)) = r)
    \<and> (fits_signed 64 neg (number_of ds) \<longrightarrow>
           sint (fst (grn_atoll (sign_text neg @ ds @ r))) = signed_number neg ds \<and> snd (grn_atoll (sign_text neg @ ds @ r)) = r)
    \<and> (number_of ds < 2 ^ 8 \<longrightarrow> unat (fst (grn_atoui8 (ds @ r))) = number_of ds \<and> snd (grn_atoui8 (ds @ r)) = r)
    \<and> (number_of ds < 2 ^ 16 \<longrightarrow> unat (fst (grn_atoui16 (ds @ r))) = number_of ds \<and> snd (grn_atoui16 (ds @ r)) = r)
    \<and> (number_of ds < 2 ^ 32 \<longrightarrow> unat (fst (grn_atoui (ds @ r))) = number_of ds \<and> snd (grn_atoui (ds @ r)) = r)
    \<and> (number_of ds < 2 ^ 64 \<longrightarrow> unat (fst (grn_atoull (ds @ r))) = number_of ds \<and> snd (grn_atoull (ds @ r)) = r)"
  using atoi_signed_exact [OF assms, where 'a = 8] atoi_signed_exact [OF assms, where 'a = 16]
    atoi_signed_exact [OF assms, where 'a = 32] grn_atoll_exact [OF assms]
    atoui_loop_exact [OF assms(1,3), where 'a = 8 and n = 0] atoui_loop_exact [OF assms(1,3), where 'a = 16 and n = 0]
    atoui_loop_exact [OF assms(1,3), where 'a = 32 and n = 0] atoui_loop_exact [OF assms(1,3), where 'a = 64 and n = 0]
  by (simp add: grn_atoi8_def grn_atoi16_def grn_atoi_def grn_atoui8_def grn_atoui16_def grn_atoui_def grn_atoull_def number_from_0 unat_of_nat)

theorem readers_exact_witness:
  "sint (fst (grn_atoi8 [0x2d, 0x31, 0x32, 0x38, 0x2c])) = - 128 \<and> snd (grn_atoi8 [0x2d, 0x31, 0x32, 0x38, 0x2c]) = [0x2c] \<and>
   unat (fst (grn_atoui8 [0x31, 0x32, 0x38, 0x2c])) = 128"
  using readers_exact [of "[0x31, 0x32, 0x38]" "[0x2c]" True]
  by (simp add: is_digit_def ends_number_def fits_signed_def number_of_def digit_of_def sign_text_def signed_number_def)

text \<open>
  C37: the printers write the decimal text of every number when it fits the buffer, and report an error without writing
  past the buffer when it does not: \<^verbatim>\<open>grn_itoa\<close> for every \<^verbatim>\<open>int\<close>, \<^verbatim>\<open>grn_ulltoa\<close> for every \<^verbatim>\<open>uint64_t\<close>, and \<^verbatim>\<open>grn_lltoa\<close> for every
  \<^verbatim>\<open>int64_t\<close> but the least one in a buffer of one byte.
\<close>

theorem printers_exact:
  assumes "- (2 ^ 31) \<le> i" "i < 2 ^ 31" "- (2 ^ 63) \<le> j" "j < 2 ^ 63" "j = - (2 ^ 63) \<longrightarrow> cap \<noteq> 1"
  shows "prints cap (grn_itoa i cap) (int_text i) \<and> prints cap (grn_lltoa j cap) (int_text j) \<and>
    prints cap (grn_ulltoa u cap) (decimal (unat u))"
  using grn_itoa_prints [OF assms(1,2)] grn_lltoa_prints [OF assms(3-5)] grn_ulltoa_prints by blast

theorem printers_exact_witness:
  "prints 4 (grn_itoa (- 42) 4) (int_text (- 42)) \<and> prints 4 (grn_lltoa 7 4) (int_text 7) \<and> prints 4 (grn_ulltoa 5 4) (decimal (unat (5 :: u64)))"
  using printers_exact [of "- 42" 7 4 5] by simp

lemma decimal_length: "n < 10 ^ Suc k \<Longrightarrow> length (decimal n) \<le> Suc k"
proof (induction k arbitrary: n)
  case 0
  then show ?case by (simp add: decimal_small)
next
  case (Suc k)
  show ?case
  proof (cases "n < 10")
    case True
    then show ?thesis by (simp add: decimal_small)
  next
    case False
    have "n div 10 < 10 ^ Suc k" using Suc.prems by (simp add: less_mult_imp_div_less)
    then show ?thesis using Suc.IH [of "n div 10"] False by (simp add: decimal_rec)
  qed
qed

lemma prints_fits: "prints cap r t \<Longrightarrow> length t \<le> cap \<Longrightarrow> r = (GRN_SUCCESS, t)"
  by (simp add: prints_def)

lemma int_text_length: "\<bar>i\<bar> < 10 ^ Suc k \<Longrightarrow> length (int_text i) \<le> Suc (Suc k)"
proof -
  assume "\<bar>i\<bar> < 10 ^ Suc k"
  then have "int (nat \<bar>i\<bar>) < int (10 ^ Suc k)" by simp
  then have "nat \<bar>i\<bar> < 10 ^ Suc k" by (simp only: of_nat_less_iff)
  then show ?thesis using decimal_length [of "nat \<bar>i\<bar>" k] by (cases "i < 0") (simp_all add: int_text_def sign_text_def)
qed

text \<open>What a signed reader finds in the text of a number.\<close>

lemma int_text_reads:
  assumes "- (2 ^ (l - 1)) \<le> i" "i < 2 ^ (l - 1)"
  shows "int_text i = sign_text (i < 0) @ decimal (nat \<bar>i\<bar>)" and "\<forall>d \<in> set (decimal (nat \<bar>i\<bar>)). is_digit d"
    and "decimal (nat \<bar>i\<bar>) \<noteq> []" and "fits_signed l (i < 0) (number_of (decimal (nat \<bar>i\<bar>)))"
    and "signed_number (i < 0) (decimal (nat \<bar>i\<bar>)) = i"
proof -
  have "int (nat \<bar>i\<bar>) \<le> int (2 ^ (l - 1))" "0 \<le> i \<Longrightarrow> int (nat \<bar>i\<bar>) < int (2 ^ (l - 1))" using assms by auto
  then have "nat \<bar>i\<bar> \<le> 2 ^ (l - 1)" "0 \<le> i \<Longrightarrow> nat \<bar>i\<bar> < 2 ^ (l - 1)" by (simp_all only: of_nat_less_iff of_nat_le_iff)
  then show "fits_signed l (i < 0) (number_of (decimal (nat \<bar>i\<bar>)))"
    by (auto simp only: fits_signed_def number_of_decimal split: if_split)
  show "signed_number (i < 0) (decimal (nat \<bar>i\<bar>)) = i" by (simp add: signed_number_def number_of_decimal)
qed (simp_all add: int_text_def decimal_nonempty decimal_digits)

text \<open>
  C35: printing a number and reading it back gives the number and stops where the printed text ends, for every \<^verbatim>\<open>int\<close>, every
  \<^verbatim>\<open>int64_t\<close> and every \<^verbatim>\<open>uint64_t\<close>, with buffers of 11, 20 and 20 bytes, and in hexadecimal for every \<^verbatim>\<open>unsigned int\<close> with 8 digits.
\<close>

theorem number_text_roundtrip:
  assumes "- (2 ^ 31) \<le> i" "i < 2 ^ 31" "- (2 ^ 63) \<le> j" "j < 2 ^ 63" "ends_number r"
  shows "fst (grn_itoa i 11) = GRN_SUCCESS \<and> sint (fst (grn_atoi (snd (grn_itoa i 11) @ r))) = i \<and> snd (grn_atoi (snd (grn_itoa i 11) @ r)) = r
    \<and> fst (grn_lltoa j 20) = GRN_SUCCESS \<and> sint (fst (grn_atoll (snd (grn_lltoa j 20) @ r))) = j \<and> snd (grn_atoll (snd (grn_lltoa j 20) @ r)) = r
    \<and> fst (grn_ulltoa u 20) = GRN_SUCCESS \<and> grn_atoull (snd (grn_ulltoa u 20) @ r) = (u, r)
    \<and> grn_htoui (grn_itoh x 8) = (x, [])"
proof -
  have "grn_itoa i 11 = (GRN_SUCCESS, int_text i)"
    using int_text_length [of i 9] assms(1,2) by (intro prints_fits [OF grn_itoa_prints]) simp_all
  moreover have "sint (fst (grn_atoi (int_text i @ r))) = i" "snd (grn_atoi (int_text i @ r)) = r"
    using int_text_reads [of 32 i] assms(1,2) atoi_signed_exact [of "decimal (nat \<bar>i\<bar>)" r "i < 0", where 'a = 32] assms(5)
    by (simp_all add: grn_atoi_def)
  moreover have "grn_lltoa j 20 = (GRN_SUCCESS, int_text j)"
    using int_text_length [of j 18] assms(3,4) by (intro prints_fits [OF grn_lltoa_prints]) simp_all
  moreover have "sint (fst (grn_atoll (int_text j @ r))) = j" "snd (grn_atoll (int_text j @ r)) = r"
    using int_text_reads [of 64 j] assms(3,4) grn_atoll_exact [of "decimal (nat \<bar>j\<bar>)" r "j < 0"] assms(5) by simp_all
  moreover have u: "unat u < 2 ^ LENGTH(64)" by (rule unsigned_less)
  then have "grn_ulltoa u 20 = (GRN_SUCCESS, decimal (unat u))"
    using decimal_length [of "unat u" 19] by (intro prints_fits [OF grn_ulltoa_prints]) simp
  moreover have "grn_atoull (decimal (unat u) @ r) = (u, r)"
    using atoui_loop_exact [of "decimal (unat u)" r 0, where 'a = 64] u assms(5)
    by (simp add: grn_atoull_def number_from_0 number_of_decimal decimal_digits)
  moreover have "grn_htoui (grn_itoh x 8) = (x, [])"
    using htoui_loop_itoh [of 8 x "[]"] by (simp add: grn_htoui_def take_bit_word_eq_self)
  ultimately show ?thesis by simp
qed

theorem number_text_roundtrip_witness:
  "sint (fst (grn_atoi (snd (grn_itoa (- (2 ^ 31)) 11) @ [0x20]))) = - (2 ^ 31) \<and> grn_atoull (snd (grn_ulltoa 3 20) @ [0x20]) = (3, [0x20])"
  using number_text_roundtrip [of "- (2 ^ 31)" 0 "[0x20]" 3 0] by (simp add: ends_number_def is_digit_def)

section \<open>Compact encodings\<close>

text \<open>
  C38: \<^verbatim>\<open>grn_btoi\<close> inverts \<^verbatim>\<open>grn_itob\<close> on every id, which are numbers below \<^verbatim>\<open>2^30\<close>.
\<close>

theorem id_text_roundtrip:
  assumes "i < 2 ^ 30"
  shows "length (grn_itob i) = 5 \<and> grn_btoi (grn_itob i) = Some i"
  using btoi_itob [OF assms] by (simp add: grn_itob_def Let_def)

theorem id_text_roundtrip_witness: "length (grn_itob 12345) = 5 \<and> grn_btoi (grn_itob 12345) = Some 12345"
  using id_text_roundtrip [of 12345] by simp

text \<open>
  C39: the texts of \<^verbatim>\<open>grn_lltob32h\<close> have thirteen characters and sort, as bytes, like the signed numbers they encode.
\<close>

theorem lltob32h_sorts:
  "length (grn_lltob32h i) = 13 \<and> (bytes_less (grn_lltob32h i) (grn_lltob32h j) \<longleftrightarrow> sint i < sint j)"
  using lltob32h_order [of i j] by (simp add: grn_lltob32h_def Let_def word_sless_alt)


text \<open>
  C29: the variable length code is a prefix code: after \<^verbatim>\<open>GRN_B_ENC\<close> has written a number, with anything behind it,
  \<^verbatim>\<open>GRN_B_DEC\<close> returns the number, and \<^verbatim>\<open>GRN_B_DEC\<close>, \<^verbatim>\<open>GRN_B_SKIP\<close> and \<^verbatim>\<open>GRN_B_COPY\<close> all stop exactly behind it; \<^verbatim>\<open>GRN_B_ENC_SIZE\<close>
  is the number of bytes written.
\<close>

theorem b_code_exact:
  "GRN_B_DEC (GRN_B_ENC v @ r) = Some (v, r) \<and> GRN_B_SKIP (GRN_B_ENC v @ r) = Some r \<and>
   GRN_B_COPY (GRN_B_ENC v @ r) = Some (GRN_B_ENC v, r) \<and> length (GRN_B_ENC v) = GRN_B_ENC_SIZE v"
  by (simp add: b_dec_enc b_skip_enc b_copy_enc b_enc_length)

section \<open>The buffer\<close>



text \<open>
  \<^verbatim>\<open>grn_bulk_truncate\<close> cuts the contents to the given length or extends them by zeros, and \<^verbatim>\<open>grn_bulk_write_from\<close> then
  writes from there on; both keep the buffer well-formed.
\<close>

theorem bulk_truncate_sets_length:
  assumes "bulk_ok b" "len + length s < 2 ^ 62" "\<forall>m. be_alloc env m"
  shows "fst (grn_bulk_truncate env b len) = GRN_SUCCESS \<and> bulk_ok (snd (grn_bulk_truncate env b len)) \<and>
    bulk_text (snd (grn_bulk_truncate env b len)) = take len (bulk_text b) @ replicate (len - length (bulk_text b)) 0 \<and>
    fst (grn_bulk_write_from env b s len) = GRN_SUCCESS \<and> bulk_ok (snd (grn_bulk_write_from env b s len)) \<and>
    bulk_text (snd (grn_bulk_write_from env b s len)) = take len (bulk_text b) @ replicate (len - length (bulk_text b)) 0 @ s"
  using bulk_truncate_resizes [OF assms(1) _ assms(3), of len] bulk_write_from_ok [OF assms] assms(2) by (simp add: resized_def)

theorem bulk_truncate_sets_length_witness:
  "bulk_text (snd (grn_bulk_write_from \<lparr> be_alloc = \<lambda>n. True, be_byte = \<lambda>n. 0 \<rparr> (bulk_init False) [7] 1)) = [0, 7]"
  using bulk_truncate_sets_length [of "bulk_init False" 1 "[7]" "\<lparr> be_alloc = \<lambda>n. True, be_byte = \<lambda>n. 0 \<rparr>"] bulk_init_ok [of False]
  by simp

text \<open>
  C27: \<^verbatim>\<open>grn_text_itoa\<close> and \<^verbatim>\<open>grn_text_ulltoa\<close> always return, although they retry in an endless loop: they append the decimal text of
  the number, growing the buffer when it does not fit, or report that there is no memory with the contents unchanged;
  likewise \<^verbatim>\<open>grn_text_lltoa\<close> unless it prints the least number into exactly one free byte.
\<close>

theorem text_numbers_return:
  assumes "bulk_ok b" "GRN_BULK_WSIZE b + 4096 < 2 ^ 62" "- (2 ^ 31) \<le> i" "i < 2 ^ 31" "- (2 ^ 63) \<le> j" "j < 2 ^ 63"
    and "j = - (2 ^ 63) \<longrightarrow> GRN_BULK_WSIZE b - GRN_BULK_VSIZE b \<noteq> 1"
  shows "(\<exists>rc b'. grn_text_itoa env b i = Some (rc, b') \<and> bulk_ok b' \<and>
           bulk_text b' = bulk_text b @ (if rc = GRN_SUCCESS then int_text i else []) \<and> ((\<forall>m. be_alloc env m) \<longrightarrow> rc = GRN_SUCCESS)) \<and>
         (\<exists>rc b'. grn_text_lltoa env b j = Some (rc, b') \<and> bulk_ok b' \<and>
           bulk_text b' = bulk_text b @ (if rc = GRN_SUCCESS then int_text j else []) \<and> ((\<forall>m. be_alloc env m) \<longrightarrow> rc = GRN_SUCCESS)) \<and>
         (\<exists>rc b'. grn_text_ulltoa env b u = Some (rc, b') \<and> bulk_ok b' \<and>
           bulk_text b' = bulk_text b @ (if rc = GRN_SUCCESS then decimal (unat u) else []) \<and> ((\<forall>m. be_alloc env m) \<longrightarrow> rc = GRN_SUCCESS))"
proof (intro conjI)
  have "\<bar>i\<bar> < 10 ^ Suc 9" "\<bar>j\<bar> < 10 ^ Suc 18" using assms(3-6) by simp_all
  then have l: "length (int_text i) \<le> 4096" "length (int_text j) \<le> 4096" using int_text_length by fastforce+
  show "\<exists>rc b'. grn_text_itoa env b i = Some (rc, b') \<and> bulk_ok b' \<and>
      bulk_text b' = bulk_text b @ (if rc = GRN_SUCCESS then int_text i else []) \<and> ((\<forall>m. be_alloc env m) \<longrightarrow> rc = GRN_SUCCESS)"
    unfolding grn_text_itoa_def by (intro text_number_loop_prints [OF assms(1,2)] grn_itoa_prints assms(3,4) l)
  show "\<exists>rc b'. grn_text_lltoa env b j = Some (rc, b') \<and> bulk_ok b' \<and>
      bulk_text b' = bulk_text b @ (if rc = GRN_SUCCESS then int_text j else []) \<and> ((\<forall>m. be_alloc env m) \<longrightarrow> rc = GRN_SUCCESS)"
    unfolding grn_text_lltoa_def by (intro text_number_loop_prints [OF assms(1,2)] grn_lltoa_prints assms(5-7) l) simp_all
  have "unat u < 2 ^ LENGTH(64)" by (rule unsigned_less)
  then have "length (decimal (unat u)) \<le> 4096" using decimal_length [of "unat u" 19] by simp
  then show "\<exists>rc b'. grn_text_ulltoa env b u = Some (rc, b') \<and> bulk_ok b' \<and>
      bulk_text b' = bulk_text b @ (if rc = GRN_SUCCESS then decimal (unat u) else []) \<and> ((\<forall>m. be_alloc env m) \<longrightarrow> rc = GRN_SUCCESS)"
    unfolding grn_text_ulltoa_def by (intro text_number_loop_prints [OF assms(1,2)] grn_ulltoa_prints)
qed

theorem text_numbers_return_witness:
  "\<exists>rc b'. grn_text_itoa \<lparr> be_alloc = \<lambda>n. True, be_byte = \<lambda>n. 0 \<rparr> (bulk_init True) (- 5) = Some (rc, b') \<and> bulk_ok b'"
  using text_numbers_return [of "bulk_init True" "- 5" 0 "\<lparr> be_alloc = \<lambda>n. True, be_byte = \<lambda>n. 0 \<rparr>" 0] bulk_init_ok [of True]
  by (fastforce simp: bulk_init_def GRN_BULK_WSIZE_def)


section \<open>Text\<close>

lemma emits_now: "emits_bulk env b s b' \<Longrightarrow> bulk_ample env b n \<Longrightarrow> length s \<le> n \<Longrightarrow> bulk_text b' = bulk_text b @ s \<and> bulk_ok b'"
  using bulk.ample_less [of env b n "length s"] by (auto simp: emits_def bulk_ample_def dest: spec [of _ 0])

text \<open>
  C32: \<^verbatim>\<open>grn_text_code_point\<close> appends exactly one UTF-8 character, which \<^verbatim>\<open>grn_charlen\<close> accepts in full and which denotes the given
  code point, or U+FFFD for the code points that are none: 0, the surrogates and those above 0x10ffff.  It reports an
  error when the encoding of the context is another one.
\<close>

theorem code_point_one_character:
  assumes "bulk_ample env b 4"
  shows "\<exists>t. bulk_text (snd (grn_text_code_point env enc b cp)) = bulk_text b @ t \<and> bulk_ok (snd (grn_text_code_point env enc b cp)) \<and>
    character GRN_ENC_UTF8 t \<and>
    utf8_code t = (if cp = 0 \<or> 0x10ffff < unat cp \<or> (0xd800 \<le> unat cp \<and> unat cp \<le> 0xdfff) then 0xfffd else unat cp) \<and>
    fst (grn_text_code_point env enc b cp) = (if enc = GRN_ENC_UTF8 then GRN_SUCCESS else GRN_FUNCTION_NOT_IMPLEMENTED)"
proof (intro exI conjI)
  let ?n = "unat (code_point_fixed cp)" and ?t = "utf8_bytes (unat (code_point_fixed cp))"
  note r = code_point_fixed_range [of cp]
  have l: "length ?t \<le> 4" by (simp add: utf8_bytes_def)
  show "bulk_text (snd (grn_text_code_point env enc b cp)) = bulk_text b @ ?t" "bulk_ok (snd (grn_text_code_point env enc b cp))"
    using emits_now [OF emits_code_point assms l] by blast+
  show "character GRN_ENC_UTF8 ?t"
    using charlen_utf8_bytes [OF r, of "[]"] by (simp add: character_def) (simp add: utf8_bytes_def)
  show "utf8_code ?t = (if cp = 0 \<or> 0x10ffff < unat cp \<or> (0xd800 \<le> unat cp \<and> unat cp \<le> 0xdfff) then 0xfffd else unat cp)"
    using utf8_code_bytes [OF r(2)] by (simp add: code_point_fixed_def word_less_nat_alt word_le_nat_alt)
  have "code_point_fixed cp \<le> 0x10ffff" using r(2) by (simp add: word_le_nat_alt)
  then show "fst (grn_text_code_point env enc b cp) = (if enc = GRN_ENC_UTF8 then GRN_SUCCESS else GRN_FUNCTION_NOT_IMPLEMENTED)"
    by (simp add: grn_text_code_point_def Let_def)
qed

theorem code_point_one_character_witness:
  "\<exists>t. bulk_text (snd (grn_text_code_point \<lparr> be_alloc = \<lambda>n. True, be_byte = \<lambda>n. 0 \<rparr> GRN_ENC_UTF8 (bulk_init False) 0x3042)) = t \<and> utf8_code t = 0x3042"
  using code_point_one_character [of "\<lparr> be_alloc = \<lambda>n. True, be_byte = \<lambda>n. 0 \<rparr>" "bulk_init False" GRN_ENC_UTF8 "0x3042"] bulk_init_ok [of False]
  by (auto simp: bulk_ample_def bulk_init_def GRN_BULK_VSIZE_def GRN_BULK_SIZE_IN_FLAGS_def)

text \<open>
  C31: decoding inverts URL encoding.  \<^verbatim>\<open>grn_text_urlenc\<close> appends a text in which every byte but the percent signs is one that
  needs no encoding, and both \<^verbatim>\<open>grn_text_urldec\<close>, with a delimiter that would be encoded, and \<^verbatim>\<open>grn_text_cgidec\<close>, with any
  number of such delimiters, read the original text back from it and stop behind the delimiter.
\<close>

theorem url_text_roundtrip:
  assumes "bulk_ample env b (3 * length s)" "bulk_ample env b2 (length s)" "url_special d" "d \<noteq> 0x25"
    and "list_all (\<lambda>d. url_special d \<and> d \<noteq> 0x25) ds"
  shows "\<exists>u. bulk_text (grn_text_urlenc env b s) = bulk_text b @ u \<and> list_all (\<lambda>x. x = 0x25 \<or> \<not> url_special x) u \<and>
    bulk_text (fst (grn_text_urldec env b2 (u @ d # r) d)) = bulk_text b2 @ s \<and> snd (grn_text_urldec env b2 (u @ d # r) d) = r \<and>
    bulk_text (fst (grn_text_cgidec env b2 (u @ d # r) (d # ds))) = bulk_text b2 @ s \<and> snd (grn_text_cgidec env b2 (u @ d # r) (d # ds)) = r"
proof (intro exI conjI)
  let ?u = "concat (map url_chars s)" and ?b = "foldl (GRN_TEXT_PUTC env) b2 s"
  show "bulk_text (grn_text_urlenc env b s) = bulk_text b @ ?u"
    using emits_now [OF emits_urlenc assms(1) length_url_text] by blast
  show "list_all (\<lambda>x. x = 0x25 \<or> \<not> url_special x) ?u" using url_chars_clean by (auto simp: list_all_iff)
  have b: "bulk_text ?b = bulk_text b2 @ s" using emits_now [OF emits_putcs assms(2)] by simp
  have "grn_text_urldec env b2 (?u @ d # r) d = (?b, r)"
    using urldec_text [OF assms(3,4), of env b2 s "d # r"] by (simp add: grn_text_urldec.simps(2))
  then show "bulk_text (fst (grn_text_urldec env b2 (?u @ d # r) d)) = bulk_text b2 @ s" "snd (grn_text_urldec env b2 (?u @ d # r) d) = r"
    using b by simp_all
  have "grn_text_cgidec env b2 (?u @ d # r) (d # ds) = (?b, r)"
    using cgidec_text [of "d # ds" env b2 s "d # r"] assms(3-5) by (simp add: grn_text_cgidec.simps(2))
  then show "bulk_text (fst (grn_text_cgidec env b2 (?u @ d # r) (d # ds))) = bulk_text b2 @ s"
      "snd (grn_text_cgidec env b2 (?u @ d # r) (d # ds)) = r"
    using b by simp_all
qed

theorem url_text_roundtrip_witness:
  "\<exists>u. bulk_text (fst (grn_text_cgidec \<lparr> be_alloc = \<lambda>n. True, be_byte = \<lambda>n. 0 \<rparr> (bulk_init False) (u @ [0x26, 0x61]) [0x26, 0x3b])) = [0x20, 0x2b, 0xe3]"
  using url_text_roundtrip [of "\<lparr> be_alloc = \<lambda>n. True, be_byte = \<lambda>n. 0 \<rparr>" "bulk_init False" "[0x20, 0x2b, 0xe3]" "bulk_init False" "0x26" "[0x3b]" "[0x61]"]
    bulk_init_ok [of False]
  by (auto simp: bulk_ample_def url_special_def urlenc_tbl_def bulk_init_def GRN_BULK_VSIZE_def GRN_BULK_SIZE_IN_FLAGS_def)

text \<open>
  C30: in every encoding, \<^verbatim>\<open>grn_text_unesc_tok\<close> reads back the quoted string that \<^verbatim>\<open>grn_text_esc\<close> writes: the token is a string, its text
  is the original one, and reading stops behind the closing quote.  The text consists of characters, none of which is
  written as a \<^verbatim>\<open>\u\<close> escape.
\<close>

theorem escaped_string_roundtrip:
  assumes "esc_plain enc s" "bulk_ample env b (6 * length s + 2)" "bulk_ample env b2 (length s)"
  shows "\<exists>u b' b3. grn_text_esc env enc b s = (GRN_SUCCESS, b') \<and> bulk_text b' = bulk_text b @ u \<and>
    grn_text_unesc_tok env enc b2 (u @ r) = (b3, r, GRN_TOK_STRING, False) \<and> bulk_text b3 = bulk_text b2 @ s"
proof -
  let ?u = "0x22 # esc_text enc s @ [0x22]" and ?b1 = "GRN_TEXT_PUTC env b 0x22"
  have "bulk_ample env b (length [0x22 :: byte] + (length (esc_text enc s) + 1))"
    using bulk.ample_less [OF assms(2)] length_esc_text [of enc s] by simp
  then have b1: "bulk_text ?b1 = bulk_text b @ [0x22]" "bulk_ample env ?b1 (length (esc_text enc s) + 1)"
    using emits_PUTC [of env b "0x22"] by (simp_all add: emits_def)
  obtain b4 where b4: "text_esc_loop env enc GRN_SUCCESS ?b1 s = (True, GRN_SUCCESS, b4)" "bulk_text b4 = bulk_text ?b1 @ esc_text enc s"
      "bulk_ample env b4 1"
    using text_esc_loop_ok [OF b1(2)] by blast
  have "bulk_text (GRN_TEXT_PUTC env b4 0x22) = bulk_text b4 @ [0x22]" using emits_now [OF emits_PUTC b4(3)] by simp
  then have esc: "grn_text_esc env enc b s = (GRN_SUCCESS, GRN_TEXT_PUTC env b4 0x22)" "bulk_text (GRN_TEXT_PUTC env b4 0x22) = bulk_text b @ ?u"
    using b1(1) b4 by (simp_all add: grn_text_esc_def)
  obtain b3 where b3: "unesc_tok_loop env enc b2 (esc_text enc s @ 0x22 # r) GRN_TOK_STRING False = (b3, r, GRN_TOK_STRING, False)"
      "emits_bulk env b2 s b3"
    using unesc_esc_text [OF assms(1)] by blast
  have "grn_text_unesc_tok env enc b2 (?u @ r) = (b3, r, GRN_TOK_STRING, False)"
    using b3(1) by (simp add: grn_text_unesc_tok_def unesc_tok_loop.simps(2) [of env enc b2 "0x22"] charlen_ascii)
  moreover have "bulk_text b3 = bulk_text b2 @ s" using emits_now [OF b3(2) assms(3)] by simp
  ultimately show ?thesis using esc by blast
qed

theorem escaped_string_roundtrip_witness:
  "\<exists>u b3. grn_text_unesc_tok \<lparr> be_alloc = \<lambda>n. True, be_byte = \<lambda>n. 0 \<rparr> GRN_ENC_UTF8 (bulk_init False) (u @ [0x20]) = (b3, [0x20], GRN_TOK_STRING, False) \<and>
     bulk_text b3 = [0x22, 0x0a, 0x5c]"
  using escaped_string_roundtrip [of GRN_ENC_UTF8 "[0x22, 0x0a, 0x5c]" "\<lparr> be_alloc = \<lambda>n. True, be_byte = \<lambda>n. 0 \<rparr>" "bulk_init False" "bulk_init False" "[0x20]"]
    bulk_init_ok [of False]
  by (auto simp: bulk_ample_def esc_plain.simps(2) charlen_ascii esc_control_def bulk_init_def GRN_BULK_VSIZE_def GRN_BULK_SIZE_IN_FLAGS_def)



text \<open>
  C34: \<^verbatim>\<open>grn_str_len\<close> counts characters: its result is \<open>n\<close> with the rest \<open>r\<close> exactly when the text is \<open>n\<close> characters of the encoding followed
  by \<open>r\<close>, and \<open>r\<close> is empty or starts with no character.
\<close>

theorem str_len_counts:
  "grn_str_len s enc = (n, r) \<longleftrightarrow>
     (\<exists>cs. s = concat cs @ r \<and> n = length cs \<and> list_all (character enc) cs \<and> grn_charlen enc r = 0)"
  by (rule str_len_iff)

section \<open>Paths of URLs\<close>

text \<open>
  C24: with a slash in front of the buffer, as the caller puts it there, and a path shorter than the buffer,
  \<^verbatim>\<open>grn_str_url_path_normalize\<close> returns, writes only inside of the buffer, and leaves a NUL-terminated path none of whose
  components is a dot or a double dot: no request leaves the document root.
\<close>

theorem url_path_contained:
  assumes "mem (-1) = ch_slash" "2 \<le> buf_len" "length path < buf_len"
  shows "\<exists>mem' b err. grn_str_url_path_normalize mem path buf_len = Some (mem', b, err) \<and> 0 \<le> b \<and> b < int buf_len \<and> mem' b = 0 \<and>
    (\<forall>i. i < 0 \<or> int buf_len \<le> i \<longrightarrow> mem' i = mem i) \<and>
    (\<exists>cs c. b = int (length (path_of cs @ c)) \<and> holds mem' (path_of cs @ c) \<and> list_all good_component (c # cs))"
proof -
  have "holds mem (path_of [])" using assms(1) by (simp add: holds_def path_of_def)
  moreover have "int (length (path_of [])) + int (length path) \<le> int buf_len - 1" using assms(3) by (simp add: path_of_def)
  ultimately obtain mem' b err where r: "url_normalize_loop (int buf_len - 1) mem 0 path False = Some (mem', b, err)"
      "normalised (int buf_len - 1) mem mem' b"
    using url_normalize_loop_ok [of mem "[]" path "int buf_len - 1" False] by (auto simp: path_of_def)
  then obtain cs c where cs: "b = int (length (path_of cs @ c))" "holds mem' (path_of cs @ c)" "\<forall>x \<in> set (c # cs). good_component x"
      "b \<le> int buf_len - 1" "\<forall>i. i < 0 \<or> int buf_len - 1 < i \<longrightarrow> mem' i = mem i"
    by (auto simp: normalised_def)
  have "holds (buf_write mem' b [0]) (path_of cs @ c)"
    using holds_prefix [OF holds_write [OF cs(2), of "[0]"]] cs(1) by simp
  moreover have "list_all good_component (c # cs)" using cs(3) by (simp only: list_all_iff)
  moreover have "grn_str_url_path_normalize mem path buf_len = Some (buf_write mem' b [0], b, err)"
    using r(1) assms(2) by (simp add: grn_str_url_path_normalize_def)
  moreover have "\<forall>i. i < 0 \<or> int buf_len \<le> i \<longrightarrow> buf_write mem' b [0] i = mem i" "buf_write mem' b [0] b = 0"
    using cs(1,4,5) by (auto simp: buf_write_def)
  ultimately show ?thesis using cs(1,4)
    by (intro exI [of _ "buf_write mem' b [0]"] exI [of _ b] exI [of _ err]) auto
qed

theorem url_path_contained_witness:
  "\<exists>mem' b err. grn_str_url_path_normalize (\<lambda>i. ch_slash) [0x61, 0x2f, 0x2e, 0x2e, 0x2f, 0x62] 16 = Some (mem', b, err) \<and> mem' b = 0"
  using url_path_contained [of "\<lambda>i. ch_slash" 16 "[0x61, 0x2f, 0x2e, 0x2e, 0x2f, 0x62]"] by auto

text \<open>
  C25: a path that is one component as long as the buffer or longer makes \<^verbatim>\<open>grn_str_url_path_normalize\<close> loop for ever.  The check of
  \<^verbatim>\<open>proc_missing\<close> lets a path of exactly the length of the buffer through.
\<close>

theorem url_path_hangs:
  assumes "good_component path" "2 \<le> buf_len" "buf_len \<le> length path"
  shows "grn_str_url_path_normalize mem path buf_len = None"
proof -
  have "path \<noteq> []" using assms(2,3) by auto
  then have "url_normalize_loop (int buf_len - 1) mem 0 path False = None"
    using assms by (intro url_normalize_loop_stuck) simp_all
  then show ?thesis using assms(2) by (simp add: grn_str_url_path_normalize_def)
qed

theorem url_path_hangs_witness: "grn_str_url_path_normalize (\<lambda>i. 0) [0x61, 0x62, 0x63] 3 = None"
  using url_path_hangs [of "[0x61, 0x62, 0x63]" 3 "\<lambda>i. 0"] by (simp add: good_component_def)

end
