(* ===== verification/Spec2Isabelle.thy ===== *)
theory Spec2Isabelle
  imports ArrayTheorems HashTheorems IndexTheorems PatDelete PatPrefix StrTheorems
begin

text \<open>
  A verification of the tables, of the codec of posting lists and of the text layer of Groonga, a full text search engine and column store written in C
  (\<^verbatim>\<open>lib/\<close>).

  \<^bold>\<open>The program.\<close>  A Groonga database is a set of tables, of columns that hold a value per record, and of inverted indexes.
  Records are numbered by 32-bit ids.  Below the database (\<^verbatim>\<open>lib/db.c\<close>) there are four kinds of table: arrays and hash
  tables (\<^verbatim>\<open>lib/hash.c\<close>), patricia tries (\<^verbatim>\<open>lib/pat.c\<close>) and double array tries (\<^verbatim>\<open>lib/dat\<close>).  Arrays and hash tables
  live either in memory, in the \<^emph>\<open>tiny\<close> arrays and bitmaps at the top of \<^verbatim>\<open>lib/hash.c\<close>, or in files, in the segmented
  arrays of \<^verbatim>\<open>lib/io.c\<close>.  Everything that is read from a client or written to one, numbers, strings, ids, paths, goes through
  \<^verbatim>\<open>lib/str.c\<close>, whose writers append to a growing buffer, the bulk object.

  \<^bold>\<open>Tables.\<close>
  \<^item> \<^verbatim>\<open>Prelude\<close>: the machine types, the result codes \<^verbatim>\<open>grn_rc\<close>, words in memory, bit scans.
  \<^item> \<^verbatim>\<open>TinyArray\<close>: \<^verbatim>\<open>grn_tiny_array_*\<close> and \<^verbatim>\<open>grn_tiny_bitmap_*\<close>.  Its locales \<open>cell_store\<close> and \<open>bit_store\<close> are the laws a table
    relies on: what is read after a write, and that growing keeps what is there.  Allocation may fail: a parameter decides
    for each block.
  \<^item> \<^verbatim>\<open>IoArray\<close>: the array segments of a file (\<^verbatim>\<open>grn_io_create_with_array\<close>, \<^verbatim>\<open>segment_alloc\<close>, \<^verbatim>\<open>grn_io_array_at\<close>), a second
    instance of the same two locales.
  \<^item> \<^verbatim>\<open>GrnArray\<close>: \<^verbatim>\<open>grn_array_*\<close>, both in memory and in a file, with the list of deleted records, the buffer of garbages of files
    with small values, cursors and \<^verbatim>\<open>grn_array_next\<close>.  \<^verbatim>\<open>ArrayPool\<close> states the discipline of live and deleted records over any
    store (\<open>record_pool\<close>); \<^verbatim>\<open>ArrayCorrect\<close> interprets it for \<^verbatim>\<open>grn_array\<close> and proves each operation; \<^verbatim>\<open>ArrayTheorems\<close> has the
    properties: additions hand out fresh ids, deletions remove one record, values are exact, cursors enumerate the live
    records, and any run of operations, reopening the file included, refines a finite map from ids to values.
  \<^item> \<^verbatim>\<open>TinyHash\<close>: \<^verbatim>\<open>grn_hash_*\<close> for tables in memory.  \<^verbatim>\<open>OpenAddressing\<close> is the theory of an index with deletion marks over
    any probe sequences that reach every slot (\<open>probing\<close>), interpreted on the double hashing of the code.  \<^verbatim>\<open>HashCorrect\<close> has the
    invariant \<open>hash_ok\<close>, lookup and deletion, \<^verbatim>\<open>HashGrow\<close> addition and rehash, \<^verbatim>\<open>HashAccess\<close> values and cursors.  The properties in
    \<^verbatim>\<open>HashTheorems\<close> show that every operation returns, keeps the invariant, and refines a dictionary with unique keys.

  \<^bold>\<open>Posting lists.\<close>  An inverted index (\<^verbatim>\<open>lib/ii.cpp\<close>) stores the postings of a term as vectors of numbers, compressed.
  \<^item> \<^verbatim>\<open>Pack\<close>: \<^verbatim>\<open>pack_1\<close> to \<^verbatim>\<open>pack_32\<close> and \<^verbatim>\<open>unpack_1\<close> to \<^verbatim>\<open>unpack_32\<close>, the unrolled routines that put eight numbers of a width
    into as many bytes, with the loops for the numbers left over.  \<^verbatim>\<open>BitStream\<close> reads both as one stream of bits.
  \<^item> \<^verbatim>\<open>PFor\<close>: \<^verbatim>\<open>pack\<close>, \<^verbatim>\<open>unpack\<close>, \<^verbatim>\<open>grn_enc_p_for\<close>, \<^verbatim>\<open>grn_dec_p_for\<close>, \<^verbatim>\<open>grn_enc_byte\<close> and \<^verbatim>\<open>grn_dec_byte\<close>: a unit of 128 numbers is
    packed in the width of most of them, the others are exceptions.  \<^verbatim>\<open>PForCorrect\<close> has the choice of the width, the chain of
    exceptions and the round trip.
  \<^item> \<^verbatim>\<open>DataVec\<close>: \<^verbatim>\<open>datavec_set_data_size\<close>, \<^verbatim>\<open>grn_encv\<close>, \<^verbatim>\<open>grn_decv\<close>, \<^verbatim>\<open>grn_b_enc\<close> and \<^verbatim>\<open>grn_b_dec\<close>; \<^verbatim>\<open>DataVecCorrect\<close> their proofs.  \<^verbatim>\<open>IndexTheorems\<close>
    has the properties: what is decoded is what was encoded, for up to 31 vectors of fewer than \<open>2 ^ 31\<close> postings, and no encoding
    is longer than its estimate.  A decoder returns \<open>FILE_CORRUPT\<close> where the code gives up, and \<open>OUT_OF_BOUNDS\<close> where the code
    would read behind its input or write outside of its buffer.  The shift of an \<^verbatim>\<open>int\<close> by 32 or more is a parameter.

  \<^bold>\<open>Text.\<close>
  \<^item> \<^verbatim>\<open>StrNumber\<close>: \<^verbatim>\<open>grn_atoi8\<close> to \<^verbatim>\<open>grn_atoull\<close>, \<^verbatim>\<open>grn_htoui\<close>, \<^verbatim>\<open>grn_itoa\<close>, \<^verbatim>\<open>grn_itoa_padded\<close>, \<^verbatim>\<open>grn_lltoa\<close>, \<^verbatim>\<open>grn_ulltoa\<close> and \<^verbatim>\<open>grn_itoh\<close> at their
    widths.  The readers are exact on every number of their type and the printers on every number that fits.
  \<^item> \<^verbatim>\<open>StrCode\<close>: \<^verbatim>\<open>grn_itob\<close>/\<^verbatim>\<open>grn_btoi\<close>, \<^verbatim>\<open>grn_lltob32h\<close>, \<^verbatim>\<open>grn_ulltob32h\<close> and the variable length code \<^verbatim>\<open>GRN_B_*\<close> of
    \<^verbatim>\<open>lib/grn_io.h\<close>: round trips, and that the base-32 texts sort like the numbers.
  \<^item> \<^verbatim>\<open>Bulk\<close>: \<^verbatim>\<open>grn_bulk_*\<close> and the writers of numbers \<^verbatim>\<open>grn_text_*\<close>.  The locale \<open>text_sink\<close> is what a writer of text needs of
    a buffer; its lemmas give the effect of any sequence of writes.
  \<^item> \<^verbatim>\<open>StrText\<close>: \<^verbatim>\<open>grn_charlen\<close>, \<^verbatim>\<open>grn_str_len\<close>, \<^verbatim>\<open>grn_str_tok\<close>, \<^verbatim>\<open>grn_text_esc\<close>, \<^verbatim>\<open>grn_text_unesc_tok\<close>, \<^verbatim>\<open>grn_text_escape_xml\<close>,
    \<^verbatim>\<open>grn_text_urlenc\<close>, \<^verbatim>\<open>grn_text_urldec\<close>, \<^verbatim>\<open>grn_text_cgidec\<close>, \<^verbatim>\<open>grn_text_code_point\<close>: escaped text reads back as the original, in every
    encoding, and escaped XML has no markup.
  \<^item> \<^verbatim>\<open>StrPath\<close>: \<^verbatim>\<open>grn_str_url_path_normalize\<close> on an explicit buffer: no result climbs out of the root and nothing is
    written outside of the buffer.  \<^verbatim>\<open>StrTheorems\<close> has the properties of the text layer.

  \<^bold>\<open>Conventions.\<close>  A \<^verbatim>\<open>uint8_t\<close>, \<^verbatim>\<open>uint32_t\<close> or \<^verbatim>\<open>uint64_t\<close> is a word of that width and wraps as in C; a \<^verbatim>\<open>size_t\<close> is a natural
  number with the wrap-around written out where a size is computed.  A block of memory is a list of bytes; where a function
  writes through a pointer that it also moves below the start of its buffer (\<^verbatim>\<open>StrPath\<close>) memory is a function on
  integer addresses.  Allocation, the free space of a file and \<^verbatim>\<open>grn_id_maybe_table\<close> are parameters (\<open>array_env\<close>, \<open>hash_env\<close>,
  \<open>bulk_env\<close>).  A loop without an obvious bound is a \<open>partial_function\<close> with result \<open>None\<close> when it does not return, so that a
  theorem with \<open>Some\<close> on the left also says that it returns; two theorems prove that a loop of the code does not.  The record
  values of a file are taken to be at least four bytes long where the list of deleted records is linked through them, which
  is the code's own condition (\<^verbatim>\<open>grn_array_can_use_value_for_garbage\<close>); what happens with shorter ones is a theorem of its own.

  \<^bold>\<open>Not modelled.\<close>  Hash tables in files and the write-ahead log, the tries, columns, the buffers and chunks
  of inverted indexes and searches in them, expressions, commands,
  normalizers and tokenizers; in \<^verbatim>\<open>lib/str.c\<close> the old normalizer (\<^verbatim>\<open>grn_str_open\<close>), the option parser, floating point, times
  and log entries.  Locks and access from several processes are left out: each operation runs alone, as it does under the lock of
  the database.  The order in which the development is to grow: hash tables in files, the patricia trie, then the caches and
  snippets that are built on the hash table.
\<close>

end
